(* ===== verification/Prelude.thy ===== *)
theory Prelude
  imports Main "HOL-Library.Word"
begin

text \<open>
  Shared vocabulary of the development: byte and machine-integer types, results that are either
  an error or a value, little-endian encodings (\<open>src/src/crypto/common.h\<close>) and the facts about
  lists of machine words that several components use.  The value of a list of words, least
  significant word first, is \<open>uval\<close>; every bignum and byte-string lemma is stated over it.
\<close>

unbundle bit_operations_syntax

type_synonym byte = "8 word"
type_synonym u16 = "16 word"
type_synonym u32 = "32 word"
type_synonym u64 = "64 word"
type_synonym bytes = "byte list"

named_theorems uval_simps
named_theorems eval_defs

section \<open>Results\<close>

text \<open>A computation that returns early with an error (\<open>Inl\<close>) or goes on with a value (\<open>Inr\<close>).\<close>

definition bindE :: "'e + 'a \<Rightarrow> ('a \<Rightarrow> 'e + 'b) \<Rightarrow> 'e + 'b" where
  "bindE m f = (case m of Inl e \<Rightarrow> Inl e | Inr x \<Rightarrow> f x)"

lemma bindE_Inl [simp]: "bindE (Inl e) f = Inl e"
  by (simp add: bindE_def)

lemma bindE_Inr [simp]: "bindE (Inr x) f = f x"
  by (simp add: bindE_def)

lemma bindE_eq_Inr_iff: "bindE m f = Inr y \<longleftrightarrow> (\<exists>x. m = Inr x \<and> f x = Inr y)"
  by (cases m) auto

lemma bindE_eq_Inl_iff: "bindE m f = Inl e \<longleftrightarrow> m = Inl e \<or> (\<exists>x. m = Inr x \<and> f x = Inl e)"
  by (cases m) auto

lemma bindE_cong [fundef_cong]:
  "m = m' \<Longrightarrow> (\<And>x. m' = Inr x \<Longrightarrow> f x = g x) \<Longrightarrow> bindE m f = bindE m' g"
  by (cases m') auto

lemma bindE_assoc: "bindE (bindE m f) g = bindE m (\<lambda>x. bindE (f x) g)"
  by (cases m) auto

section \<open>Lists of words as numbers\<close>

lemma zdiv_less: "a < c * b \<Longrightarrow> 0 < b \<Longrightarrow> a div b < c"
  for a b c :: int
proof (rule ccontr)
  assume "a < c * b" "0 < b" "\<not> a div b < c"
  then have "c * b \<le> (a div b) * b" by (intro mult_right_mono) simp_all
  also have "\<dots> \<le> a" using \<open>0 < b\<close> pos_mod_sign [of b a] div_mult_mod_eq [of a b] by linarith
  finally show False using \<open>a < c * b\<close> by simp
qed

definition uval :: "'a::len word list \<Rightarrow> int" where
  "uval ws = horner_sum uint (2 ^ LENGTH('a)) ws"

lemma uval_Nil [simp]: "uval [] = 0"
  by (simp add: uval_def)

lemma uval_Cons: "uval (w # ws) = uint w + 2 ^ LENGTH('a) * uval ws"
  for w :: "'a::len word"
  by (simp add: uval_def)

lemma uval_append: "uval (xs @ ys) = uval xs + 2 ^ (LENGTH('a) * length xs) * uval ys"
  for xs :: "'a::len word list"
  by (simp add: uval_def horner_sum_append power_mult)

lemma uval_nonneg [simp]: "0 \<le> uval ws"
  by (induction ws) (simp_all add: uval_Cons)

lemma uval_replicate_0 [simp]: "uval (replicate n 0) = 0"
  by (induction n) (simp_all add: uval_Cons)

lemma uval_bound: "uval ws < 2 ^ (LENGTH('a) * length ws)"
  for ws :: "'a::len word list"
proof (induction ws)
  case Nil
  then show ?case by simp
next
  case (Cons w ws)
  have "uint w < 2 ^ LENGTH('a)"
    by (rule uint_bounded)
  moreover have "uval ws + 1 \<le> 2 ^ (LENGTH('a) * length ws)"
    using Cons by simp
  then have "2 ^ LENGTH('a) * (uval ws + 1) \<le> 2 ^ LENGTH('a) * 2 ^ (LENGTH('a) * length ws)"
    by (rule mult_left_mono) simp
  ultimately have "uval (w # ws) < 2 ^ LENGTH('a) * 2 ^ (LENGTH('a) * length ws)"
    unfolding uval_Cons distrib_left by linarith
  then show ?case by (simp add: power_add)
qed

lemma bit_uval_iff:
  "bit (uval ws) n \<longleftrightarrow> n div LENGTH('a) < length ws \<and> bit (ws ! (n div LENGTH('a))) (n mod LENGTH('a))"
  for ws :: "'a::len word list"
  by (simp add: uval_def bit_horner_sum_uint_exp_iff)

lemma uval_mod [simp]: "uval ws mod 2 ^ (LENGTH('a) * length ws) = uval ws"
  for ws :: "'a::len word list"
  using uval_bound [of ws] by simp

lemma uval_inject:
  fixes xs ys :: "'a::len word list"
  shows "length xs = length ys \<Longrightarrow> uval xs = uval ys \<longleftrightarrow> xs = ys"
proof (induction xs ys rule: list_induct2)
  case Nil
  then show ?case by simp
next
  case (Cons x xs y ys)
  have "uint x = uint y \<and> uval xs = uval ys" if "uval (x # xs) = uval (y # ys)"
  proof -
    from that have eq: "uint x + 2 ^ LENGTH('a) * uval xs = uint y + 2 ^ LENGTH('a) * uval ys"
      by (simp add: uval_Cons)
    have *: "(uint (z::'a word) + 2 ^ LENGTH('a) * a) mod 2 ^ LENGTH('a) = uint z" for z a
      by (simp add: uint_bounded)
    have x: "uint x = uint y"
      using arg_cong [OF eq, of "\<lambda>v. v mod 2 ^ LENGTH('a)"] by (simp only: *)
    with eq show ?thesis by simp
  qed
  with Cons show ?case by (metis list.inject word_uint_eq_iff)
qed

lemma uval_eq_0_iff: "uval ws = 0 \<longleftrightarrow> (\<forall>w\<in>set ws. w = 0)"
  for ws :: "'a::len word list"
proof (induction ws)
  case Nil
  then show ?case by simp
next
  case (Cons w ws)
  have "uval (w # ws) = 0 \<longleftrightarrow> uint w = 0 \<and> 2 ^ LENGTH('a) * uval ws = 0"
    unfolding uval_Cons by (rule add_nonneg_eq_0_iff) simp_all
  with Cons show ?case by (auto simp: unsigned_eq_0_iff)
qed

section \<open>Little-endian bytes\<close>

text \<open>
  \<open>WriteLE16\<close>, \<open>WriteLE32\<close> and \<open>WriteLE64\<close> store an integer in little-endian order whatever the
  host's order is (\<open>htoleN\<close> followed by \<open>memcpy\<close>); \<open>ReadLE16\<close>, \<open>ReadLE32\<close> and \<open>ReadLE64\<close> read the
  first two, four or eight bytes back.
\<close>

definition le_bytes :: "nat \<Rightarrow> 'a::len word \<Rightarrow> bytes" where
  "le_bytes n x = map (\<lambda>i. ucast (drop_bit (8 * i) x)) [0..<n]"

definition WriteLE16 :: "u16 \<Rightarrow> bytes" where
  "WriteLE16 x = le_bytes 2 x"

definition WriteLE32 :: "u32 \<Rightarrow> bytes" where
  "WriteLE32 x = le_bytes 4 x"

definition WriteLE64 :: "u64 \<Rightarrow> bytes" where
  "WriteLE64 x = le_bytes 8 x"

definition ReadLE16 :: "bytes \<Rightarrow> u16" where
  "ReadLE16 p = word_of_int (uval (take 2 p))"

definition ReadLE32 :: "bytes \<Rightarrow> u32" where
  "ReadLE32 p = word_of_int (uval (take 4 p))"

definition ReadLE64 :: "bytes \<Rightarrow> u64" where
  "ReadLE64 p = word_of_int (uval (take 8 p))"

lemma length_le_bytes [simp]: "length (le_bytes n x) = n"
  by (simp add: le_bytes_def)

lemma uval_le_bytes: "uval (le_bytes n x) = take_bit (8 * n) (uint x)"
proof (rule bit_eqI)
  fix m :: nat
  show "bit (uval (le_bytes n x)) m \<longleftrightarrow> bit (take_bit (8 * n) (uint x)) m"
  proof (cases "m div 8 < n")
    case True
    then have "m < 8 * n" by (simp add: less_mult_imp_div_less div_less_iff_less_mult mult.commute)
    moreover have "8 * (m div 8) + m mod 8 = m" by simp
    ultimately show ?thesis using True
      by (simp add: bit_uval_iff le_bytes_def bit_simps)
  next
    case False
    then have "\<not> m < 8 * n" by (simp add: div_less_iff_less_mult mult.commute)
    with False show ?thesis by (simp add: bit_uval_iff bit_simps)
  qed
qed

lemma WriteLE_length [simp]:
  "length (WriteLE16 x) = 2" "length (WriteLE32 y) = 4" "length (WriteLE64 z) = 8"
  by (simp_all add: WriteLE16_def WriteLE32_def WriteLE64_def)

lemma uval_WriteLE [simp]:
  "uval (WriteLE16 x) = uint x" "uval (WriteLE32 y) = uint y" "uval (WriteLE64 z) = uint z"
  by (simp_all add: WriteLE16_def WriteLE32_def WriteLE64_def uval_le_bytes take_bit_int_eq_self
      uint_bounded [where 'a = 16, simplified] uint_bounded [where 'a = 32, simplified]
      uint_bounded [where 'a = 64, simplified])

lemma ReadLE_WriteLE [simp]:
  "ReadLE16 (WriteLE16 x @ r) = x"
  "ReadLE32 (WriteLE32 y @ r) = y"
  "ReadLE64 (WriteLE64 z @ r) = z"
  by (simp_all add: ReadLE16_def ReadLE32_def ReadLE64_def)

lemma uint_ReadLE32: "4 \<le> length p \<Longrightarrow> uint (ReadLE32 p) = uval (take 4 p)"
  using uval_bound [of "take 4 p"] by (simp add: ReadLE32_def uint_word_of_int min_absorb2)

end
