(* ===== verification/ArithUint256.thy ===== *)
theory ArithUint256
  imports Prelude
begin

text \<open>
  The unsigned big integers of \<open>src/src/arith_uint256.h\<close> and \<open>src/src/arith_uint256.cpp\<close>.
  A \<open>base_uint<BITS>\<close> is its array \<open>pn\<close> of \<open>WIDTH = BITS / 32\<close> limbs, least significant first;
  here it is a list of 32-bit words and \<open>WIDTH\<close> is its length, so every lemma covers both
  instances (256 and 512 bits).  Each operation is written limb by limb as the C++ is, with its
  carries in 64-bit words; the lemmas say that it computes the operation on numbers modulo
  \<open>2 ^ BITS\<close>.
\<close>

unbundle bit_operations_syntax

type_synonym limbs = "32 word list"

abbreviation WIDTH :: "limbs \<Rightarrow> nat" where
  "WIDTH pn \<equiv> length pn"

section \<open>Construction and bitwise operations\<close>

definition base_uint_zero :: "nat \<Rightarrow> limbs" where
  "base_uint_zero w = replicate w 0"

text \<open>\<open>base_uint(uint64_t b)\<close> and \<open>operator=(uint64_t b)\<close>, for a width of at least two limbs.\<close>

definition base_uint_of_u64 :: "nat \<Rightarrow> u64 \<Rightarrow> limbs" where
  "base_uint_of_u64 w b = ucast b # ucast (drop_bit 32 b) # replicate (w - 2) 0"

definition not_uint :: "limbs \<Rightarrow> bool" where
  "not_uint pn = list_all (\<lambda>p. p = 0) pn"

definition compl_uint :: "limbs \<Rightarrow> limbs" where
  "compl_uint pn = map (\<lambda>p. NOT p) pn"

definition xor_uint :: "limbs \<Rightarrow> limbs \<Rightarrow> limbs" where
  "xor_uint pn b = map2 (\<lambda>p q. p XOR q) pn b"

definition and_uint :: "limbs \<Rightarrow> limbs \<Rightarrow> limbs" where
  "and_uint pn b = map2 (\<lambda>p q. p AND q) pn b"

definition or_uint :: "limbs \<Rightarrow> limbs \<Rightarrow> limbs" where
  "or_uint pn b = map2 (\<lambda>p q. p OR q) pn b"

definition GetLow64 :: "limbs \<Rightarrow> u64" where
  "GetLow64 pn = ucast (pn ! 0) OR push_bit 32 (ucast (pn ! 1))"

section \<open>Addition, negation, increment and decrement\<close>

text \<open>The loop of \<open>operator+=\<close>, from limb \<open>i\<close> on, with the carry it has there.\<close>

fun add_loop :: "u64 \<Rightarrow> limbs \<Rightarrow> limbs \<Rightarrow> limbs" where
  "add_loop carry (p # pn) (q # b) =
     (let n = carry + ucast p + ucast q
      in ucast (n AND 0xffffffff) # add_loop (drop_bit 32 n) pn b)"
| "add_loop carry _ _ = []"

definition add_uint :: "limbs \<Rightarrow> limbs \<Rightarrow> limbs" where
  "add_uint pn b = add_loop 0 pn b"

text \<open>\<open>operator++\<close> goes on to the next limb while the one it incremented wrapped to zero.\<close>

fun incr_uint :: "limbs \<Rightarrow> limbs" where
  "incr_uint [] = []"
| "incr_uint (p # pn) =
     (let p' = p + 1 in if p' = 0 \<and> pn \<noteq> [] then p' # incr_uint pn else p' # pn)"

fun decr_uint :: "limbs \<Rightarrow> limbs" where
  "decr_uint [] = []"
| "decr_uint (p # pn) =
     (let p' = p - 1 in if p' = - 1 \<and> pn \<noteq> [] then p' # decr_uint pn else p' # pn)"

definition neg_uint :: "limbs \<Rightarrow> limbs" where
  "neg_uint pn = incr_uint (map (\<lambda>p. NOT p) pn)"

definition sub_uint :: "limbs \<Rightarrow> limbs \<Rightarrow> limbs" where
  "sub_uint pn b = add_uint pn (neg_uint b)"

definition add_u64 :: "limbs \<Rightarrow> u64 \<Rightarrow> limbs" where
  "add_u64 pn b64 = add_uint pn (base_uint_of_u64 (WIDTH pn) b64)"

definition sub_u64 :: "limbs \<Rightarrow> u64 \<Rightarrow> limbs" where
  "sub_u64 pn b64 = add_uint pn (neg_uint (base_uint_of_u64 (WIDTH pn) b64))"

section \<open>Shifts\<close>

definition shl_step :: "limbs \<Rightarrow> nat \<Rightarrow> nat \<Rightarrow> limbs \<Rightarrow> nat \<Rightarrow> limbs" where
  "shl_step a k shift pn i =
     (let pn1 = (if i + k + 1 < WIDTH a \<and> shift \<noteq> 0
                 then pn[i + k + 1 := pn ! (i + k + 1) OR drop_bit (32 - shift) (a ! i)] else pn)
      in if i + k < WIDTH a then pn1[i + k := pn1 ! (i + k) OR push_bit shift (a ! i)] else pn1)"

definition shl_uint :: "limbs \<Rightarrow> nat \<Rightarrow> limbs" where
  "shl_uint a shift =
     foldl (shl_step a (shift div 32) (shift mod 32)) (replicate (WIDTH a) 0) [0..<WIDTH a]"

definition shr_step :: "limbs \<Rightarrow> nat \<Rightarrow> nat \<Rightarrow> limbs \<Rightarrow> nat \<Rightarrow> limbs" where
  "shr_step a k shift pn i =
     (let pn1 = (if i \<ge> k + 1 \<and> shift \<noteq> 0
                 then pn[i - k - 1 := pn ! (i - k - 1) OR push_bit (32 - shift) (a ! i)] else pn)
      in if i \<ge> k then pn1[i - k := pn1 ! (i - k) OR drop_bit shift (a ! i)] else pn1)"

definition shr_uint :: "limbs \<Rightarrow> nat \<Rightarrow> limbs" where
  "shr_uint a shift =
     foldl (shr_step a (shift div 32) (shift mod 32)) (replicate (WIDTH a) 0) [0..<WIDTH a]"

section \<open>Multiplication\<close>

fun mul32_loop :: "u64 \<Rightarrow> u32 \<Rightarrow> limbs \<Rightarrow> limbs" where
  "mul32_loop carry b32 [] = []"
| "mul32_loop carry b32 (p # pn) =
     (let n = carry + ucast b32 * ucast p
      in ucast (n AND 0xffffffff) # mul32_loop (drop_bit 32 n) b32 pn)"

definition mul32_uint :: "limbs \<Rightarrow> u32 \<Rightarrow> limbs" where
  "mul32_uint pn b32 = mul32_loop 0 b32 pn"

text \<open>
  The inner loop of \<open>operator*=(const base_uint& b)\<close>: the limbs \<open>pn[i + j]\<close>, \<open>b.pn[i]\<close> still to be
  processed, with \<open>a.pn[j]\<close> fixed; it ends with the last limb of \<open>pn\<close>.
\<close>

fun mul_inner :: "u64 \<Rightarrow> u32 \<Rightarrow> limbs \<Rightarrow> limbs \<Rightarrow> limbs" where
  "mul_inner carry aj (p # pn) (q # b) =
     (let n = carry + ucast p + ucast aj * ucast q
      in ucast (n AND 0xffffffff) # mul_inner (drop_bit 32 n) aj pn b)"
| "mul_inner carry aj pn b = pn"

definition mul_step :: "limbs \<Rightarrow> limbs \<Rightarrow> limbs \<Rightarrow> nat \<Rightarrow> limbs" where
  "mul_step a b pn j = take j pn @ mul_inner 0 (a ! j) (drop j pn) b"

definition mul_uint :: "limbs \<Rightarrow> limbs \<Rightarrow> limbs" where
  "mul_uint a b = foldl (mul_step a b) (replicate (WIDTH a) 0) [0..<WIDTH a]"

section \<open>Comparison, bit length\<close>

text \<open>The loops of \<open>CompareTo\<close> and \<open>bits\<close> run from the most significant limb down.\<close>

fun compare_loop :: "limbs \<Rightarrow> limbs \<Rightarrow> int" where
  "compare_loop (p # pn) (q # b) =
     (if p < q then - 1 else if p > q then 1 else compare_loop pn b)"
| "compare_loop _ _ = 0"

definition CompareTo :: "limbs \<Rightarrow> limbs \<Rightarrow> int" where
  "CompareTo pn b = compare_loop (rev pn) (rev b)"

definition EqualTo :: "limbs \<Rightarrow> u64 \<Rightarrow> bool" where
  "EqualTo pn b =
     (list_all (\<lambda>p. p = 0) (drop 2 pn) \<and> ucast (pn ! 1) = drop_bit 32 b \<and>
      ucast (pn ! 0) = b AND 0xffffffff)"

text \<open>The inner loop of \<open>bits\<close>: the highest set bit among \<open>bits, \<dots>, 1\<close>, else bit 0 is taken.\<close>

fun bits_inner :: "nat \<Rightarrow> u32 \<Rightarrow> nat" where
  "bits_inner 0 p = 1"
| "bits_inner (Suc n) p = (if p AND push_bit (Suc n) 1 \<noteq> 0 then Suc n + 1 else bits_inner n p)"

fun bits_loop :: "limbs \<Rightarrow> nat" where
  "bits_loop [] = 0"
| "bits_loop (p # high_first) =
     (if p \<noteq> 0 then 32 * length high_first + bits_inner 31 p else bits_loop high_first)"

definition bits :: "limbs \<Rightarrow> nat" where
  "bits pn = bits_loop (rev pn)"

section \<open>Division\<close>

text \<open>
  The loop of \<open>operator/=\<close> after \<open>n\<close> more iterations are left, that is with \<open>shift = n - 1\<close>; it
  carries the quotient, \<open>num\<close> and \<open>div\<close>.  \<open>None\<close> is the \<open>uint_error\<close> of a zero divisor.
\<close>

primrec div_loop :: "nat \<Rightarrow> limbs \<Rightarrow> limbs \<Rightarrow> limbs \<Rightarrow> limbs \<times> limbs" where
  "div_loop 0 q num dv = (q, num)"
| "div_loop (Suc shift) q num dv =
     (if CompareTo num dv \<ge> 0
      then div_loop shift (q[shift div 32 := q ! (shift div 32) OR push_bit (shift mod 32) 1])
             (sub_uint num dv) (shr_uint dv 1)
      else div_loop shift q num (shr_uint dv 1))"

definition div_uint :: "limbs \<Rightarrow> limbs \<Rightarrow> limbs option" where
  "div_uint num b =
     (let num_bits = bits num; div_bits = bits b
      in if div_bits = 0 then None
         else if div_bits > num_bits then Some (replicate (WIDTH num) 0)
         else Some (fst (div_loop (Suc (num_bits - div_bits)) (replicate (WIDTH num) 0) num
                           (shl_uint b (num_bits - div_bits)))))"

section \<open>Conversion to and from byte blobs\<close>

definition ArithToUint :: "limbs \<Rightarrow> bytes" where
  "ArithToUint a = concat (map WriteLE32 a)"

definition UintToArith :: "nat \<Rightarrow> bytes \<Rightarrow> limbs" where
  "UintToArith w a = map (\<lambda>x. ReadLE32 (drop (x * 4) a)) [0..<w]"

section \<open>The compact form of targets\<close>

text \<open>
  \<open>arith_uint256::SetCompact\<close> returns the number and the two flags it stores through its pointer
  arguments; \<open>GetCompact\<close> is \<open>None\<close> where one of its two assertions would fail.
\<close>

definition SetCompact :: "u32 \<Rightarrow> limbs \<times> bool \<times> bool" where
  "SetCompact nCompact =
     (let nSize = unat (drop_bit 24 nCompact);
          nWord0 = nCompact AND 0x007fffff;
          nWord = (if nSize \<le> 3 then drop_bit (8 * (3 - nSize)) nWord0 else nWord0);
          this = (if nSize \<le> 3 then base_uint_of_u64 8 (ucast nWord)
                  else shl_uint (base_uint_of_u64 8 (ucast nWord)) (8 * (nSize - 3)));
          fNegative = (nWord \<noteq> 0 \<and> (nCompact AND 0x00800000) \<noteq> 0);
          fOverflow = (nWord \<noteq> 0 \<and> (nSize > 34 \<or> (nWord > 0xff \<and> nSize > 33) \<or>
                                      (nWord > 0xffff \<and> nSize > 32)))
      in (this, fNegative, fOverflow))"

definition GetCompact :: "limbs \<Rightarrow> bool \<Rightarrow> u32 option" where
  "GetCompact pn fNegative =
     (let nSize0 = (bits pn + 7) div 8;
          nCompact0 = (if nSize0 \<le> 3 then (ucast (push_bit (8 * (3 - nSize0)) (GetLow64 pn)) :: u32)
                       else ucast (GetLow64 (shr_uint pn (8 * (nSize0 - 3)))));
          high = (nCompact0 AND 0x00800000 \<noteq> 0);
          nCompact1 = (if high then drop_bit 8 nCompact0 else nCompact0);
          nSize = (if high then nSize0 + 1 else nSize0)
      in if nCompact1 AND NOT 0x007fffff \<noteq> 0 then None
         else if \<not> nSize < 256 then None
         else let nCompact2 = nCompact1 OR push_bit 24 (word_of_nat nSize)
              in Some (nCompact2 OR
                       (if fNegative \<and> nCompact2 AND 0x007fffff \<noteq> 0 then 0x00800000 else 0)))"

section \<open>Limb arithmetic computes modulo \<open>2 ^ BITS\<close>\<close>

lemma low32: "uint (ucast (n AND 0xffffffff) :: u32) = uint n mod 2 ^ 32"
  for n :: u64
proof -
  have "(0xffffffff :: u64) = mask 32"
    by (simp add: mask_eq_decr_exp)
  then have "ucast (n AND 0xffffffff) = (ucast n :: u32)"
    by (simp add: take_bit_eq_mask [symmetric] unsigned_take_bit_eq bit_eq_iff bit_simps)
  then show ?thesis
    by (simp add: unsigned_ucast_eq take_bit_eq_mod)
qed

lemma high32: "uint (drop_bit 32 n) = uint n div 2 ^ 32"
  for n :: u64
  by (simp add: drop_bit_eq_div uint_div)

lemma carry_chain:
  fixes m R M :: int
  assumes "0 \<le> M"
  shows "m mod 2 ^ 32 + 2 ^ 32 * ((m div 2 ^ 32 + R) mod M) = (m + 2 ^ 32 * R) mod (2 ^ 32 * M)"
proof -
  have "(m + 2 ^ 32 * R) mod (2 ^ 32 * M) =
      2 ^ 32 * ((m + 2 ^ 32 * R) div 2 ^ 32 mod M) + (m + 2 ^ 32 * R) mod 2 ^ 32"
    using assms by (rule zmod_zmult2_eq)
  then show ?thesis by (simp add: add.commute)
qed

lemma uint_ucast_u32 [simp]: "uint (ucast (p :: u32) :: u64) = uint p"
  by (simp add: unsigned_ucast_eq take_bit_int_eq_self uint_bounded [THEN less_le_trans])

lemma u32_bound: "uint (p :: u32) < 2 ^ 32"
  using uint_bounded [of p] by simp

lemma uint_add_u64: "uint x + uint y < 2 ^ 64 \<Longrightarrow> uint (x + y) = uint x + uint y"
  for x y :: u64
  by (simp add: uint_word_ariths)

lemma uint_mult_u64: "uint x * uint y < 2 ^ 64 \<Longrightarrow> uint (x * y) = uint x * uint y"
  for x y :: u64
  by (simp add: uint_word_ariths)

lemma limbs_bound: "uval (pn :: limbs) < 2 ^ (32 * length pn)"
  using uval_bound [of pn] by simp

lemma length_add_loop [simp]: "length (add_loop c pn b) = min (length pn) (length b)"
  by (induction c pn b rule: add_loop.induct) (simp_all add: Let_def)

lemma add_loop_value:
  assumes "length pn = length b" "uint carry \<le> 1"
  shows "uval (add_loop carry pn b) = (uint carry + uval pn + uval b) mod 2 ^ (32 * length pn)"
  using assms
proof (induction carry pn b rule: add_loop.induct)
  case (1 carry p pn q b)
  let ?n = "carry + ucast p + ucast q :: u64"
  have n: "uint ?n = uint carry + uint p + uint q"
    using "1.prems" u32_bound [of p] u32_bound [of q]
    by (subst uint_add_u64; (subst uint_add_u64)?) simp_all
  then have "uint (drop_bit 32 ?n) \<le> 1"
    using "1.prems" u32_bound [of p] u32_bound [of q] by (simp add: high32)
  then have IH: "uval (add_loop (drop_bit 32 ?n) pn b) =
      (uint ?n div 2 ^ 32 + (uval pn + uval b)) mod 2 ^ (32 * length pn)"
    using "1.IH" [OF refl] "1.prems" by (simp add: high32 add.assoc)
  have "uval (add_loop carry (p # pn) (q # b)) =
      uint ?n mod 2 ^ 32 + 2 ^ 32 * ((uint ?n div 2 ^ 32 + (uval pn + uval b)) mod 2 ^ (32 * length pn))"
    by (simp add: Let_def uval_Cons low32 IH)
  also have "\<dots> = (uint ?n + 2 ^ 32 * (uval pn + uval b)) mod (2 ^ 32 * 2 ^ (32 * length pn))"
    by (rule carry_chain) simp
  finally show ?case
    unfolding n by (simp only: uval_Cons length_Cons mult_Suc_right power_add)
      (simp add: algebra_simps)
qed simp_all

lemma add_uint_length [simp]: "length b = length pn \<Longrightarrow> length (add_uint pn b) = length pn"
  by (simp add: add_uint_def)

lemma add_uint_value [uval_simps]:
  "length b = length pn \<Longrightarrow> uval (add_uint pn b) = (uval pn + uval b) mod 2 ^ (32 * length pn)"
  by (simp add: add_uint_def add_loop_value)

lemma incr_uint_length [simp]: "length (incr_uint pn) = length pn"
  by (induction pn rule: incr_uint.induct) (simp_all add: Let_def)

lemma u32_incr:
  "uint (p + 1) = (uint p + 1) mod 2 ^ 32"
  "(p + 1 = 0) \<longleftrightarrow> (uint p + 1) div 2 ^ 32 = 1"
  "(p + 1 \<noteq> 0) \<longleftrightarrow> (uint p + 1) div 2 ^ 32 = 0"
  for p :: u32
proof -
  show m: "uint (p + 1) = (uint p + 1) mod 2 ^ 32"
    by (simp add: uint_word_ariths)
  have "uint p = 2 ^ 32 - 1 \<or> uint p + 1 < 2 ^ 32"
    using u32_bound [of p] by linarith
  moreover have "0 \<le> uint p" by simp
  ultimately show "(p + 1 = 0) \<longleftrightarrow> (uint p + 1) div 2 ^ 32 = 1"
    and "(p + 1 \<noteq> 0) \<longleftrightarrow> (uint p + 1) div 2 ^ 32 = 0"
    unfolding word_uint_eq_iff [of "p + 1"] m
    by (auto simp: mod_pos_pos_trivial dest: zdvd_imp_le)
qed

lemma u32_decr:
  "uint (p - 1) = (uint p - 1) mod 2 ^ 32"
  "(p - 1 = - 1) \<longleftrightarrow> (uint p - 1) div 2 ^ 32 = - 1"
  "(p - 1 \<noteq> - 1) \<longleftrightarrow> (uint p - 1) div 2 ^ 32 = 0"
  for p :: u32
proof -
  show m: "uint (p - 1) = (uint p - 1) mod 2 ^ 32"
    by (simp add: uint_word_ariths)
  have z: "(p - 1 = - 1) \<longleftrightarrow> uint p = 0" by (simp add: unsigned_eq_0_iff)
  have "uint p = 0 \<or> 0 \<le> uint p - 1 \<and> uint p - 1 < 2 ^ 32"
    using u32_bound [of p] uint_ge_0 [of p] by linarith
  then show "(p - 1 = - 1) \<longleftrightarrow> (uint p - 1) div 2 ^ 32 = - 1"
    and "(p - 1 \<noteq> - 1) \<longleftrightarrow> (uint p - 1) div 2 ^ 32 = 0"
    unfolding z by (auto simp: div_pos_pos_trivial)
qed

lemma incr_uint_value [uval_simps]:
  "pn \<noteq> [] \<Longrightarrow> uval (incr_uint pn) = (uval pn + 1) mod 2 ^ (32 * length pn)"
proof (induction pn rule: incr_uint.induct)
  case (2 p pn)
  have tail: "uval (if p + 1 = 0 \<and> pn \<noteq> [] then incr_uint pn else pn) =
      ((uint p + 1) div 2 ^ 32 + uval pn) mod 2 ^ (32 * length pn)"
  proof (cases "p + 1 = 0 \<and> pn \<noteq> []")
    case True
    then show ?thesis using 2 u32_incr(2) [of p] by (simp add: add.commute)
  next
    case False
    then show ?thesis using u32_incr(3) [of p] uval_mod [of pn] by (cases "pn = []") simp_all
  qed
  have "uval (incr_uint (p # pn)) = uint (p + 1) +
      2 ^ 32 * uval (if p + 1 = 0 \<and> pn \<noteq> [] then incr_uint pn else pn)"
    by (simp add: Let_def uval_Cons)
  also have "\<dots> = (uint p + 1 + 2 ^ 32 * uval pn) mod (2 ^ 32 * 2 ^ (32 * length pn))"
    unfolding tail u32_incr(1) by (rule carry_chain) simp
  finally show ?case
    by (simp only: uval_Cons length_Cons mult_Suc_right power_add) (simp add: algebra_simps)
qed simp

lemma decr_uint_length [simp]: "length (decr_uint pn) = length pn"
  by (induction pn rule: decr_uint.induct) (simp_all add: Let_def)

lemma decr_uint_value [uval_simps]:
  "pn \<noteq> [] \<Longrightarrow> uval (decr_uint pn) = (uval pn - 1) mod 2 ^ (32 * length pn)"
proof (induction pn rule: decr_uint.induct)
  case (2 p pn)
  have tail: "uval (if p - 1 = - 1 \<and> pn \<noteq> [] then decr_uint pn else pn) =
      ((uint p - 1) div 2 ^ 32 + uval pn) mod 2 ^ (32 * length pn)"
  proof (cases "p - 1 = - 1 \<and> pn \<noteq> []")
    case True
    then show ?thesis using 2 u32_decr(2) [of p] by simp
  next
    case False
    then show ?thesis using u32_decr(3) [of p] uval_mod [of pn] by (cases "pn = []") simp_all
  qed
  have "uval (decr_uint (p # pn)) = uint (p - 1) +
      2 ^ 32 * uval (if p - 1 = - 1 \<and> pn \<noteq> [] then decr_uint pn else pn)"
    by (simp add: Let_def uval_Cons)
  also have "\<dots> = (uint p - 1 + 2 ^ 32 * uval pn) mod (2 ^ 32 * 2 ^ (32 * length pn))"
    unfolding tail u32_decr(1) by (rule carry_chain) simp
  finally show ?case
    by (simp only: uval_Cons length_Cons mult_Suc_right power_add) (simp add: algebra_simps)
qed simp

lemma compl_uint_length [simp]: "length (compl_uint pn) = length pn"
  by (simp add: compl_uint_def)

lemma compl_uint_value [uval_simps]: "uval (compl_uint pn) = 2 ^ (32 * length pn) - 1 - uval pn"
proof (induction pn)
  case (Cons p pn)
  have "uint (NOT p) = (- uint p - 1) mod 2 ^ 32"
    by (simp add: unsigned_not_eq not_int_def take_bit_eq_mod)
  also have "\<dots> = (2 ^ 32 - 1 - uint p) mod 2 ^ 32"
    using mod_add_self1 [of "2 ^ 32" "- uint p - 1"] by (simp add: algebra_simps)
  also have "\<dots> = 2 ^ 32 - 1 - uint p"
    using u32_bound [of p] uint_ge_0 [of p] by (intro mod_pos_pos_trivial) linarith+
  finally have "uint (NOT p) = 2 ^ 32 - 1 - uint p" .
  with Cons show ?case
    by (simp add: compl_uint_def uval_Cons power_add algebra_simps)
qed (simp add: compl_uint_def)

lemma neg_uint_length [simp]: "length (neg_uint pn) = length pn"
  by (simp add: neg_uint_def)

lemma neg_uint_value [uval_simps]: "pn \<noteq> [] \<Longrightarrow> uval (neg_uint pn) = (- uval pn) mod 2 ^ (32 * length pn)"
proof -
  assume ne: "pn \<noteq> []"
  have "uval (neg_uint pn) = (uval (compl_uint pn) + 1) mod 2 ^ (32 * length pn)"
    using ne by (simp add: neg_uint_def incr_uint_value compl_uint_def)
  also have "uval (compl_uint pn) + 1 = - uval pn + 2 ^ (32 * length pn)"
    by (simp add: compl_uint_value)
  finally show ?thesis by simp
qed

lemma sub_uint_length [simp]: "length b = length pn \<Longrightarrow> length (sub_uint pn b) = length pn"
  by (simp add: sub_uint_def)

lemma sub_uint_value [uval_simps]:
  assumes "length b = length pn"
  shows "uval (sub_uint pn b) = (uval pn - uval b) mod 2 ^ (32 * length pn)"
proof (cases "pn = []")
  case False
  with assms have "b \<noteq> []" by auto
  with assms show ?thesis
    by (simp add: sub_uint_def add_uint_value neg_uint_value mod_simps)
next
  case True
  with assms show ?thesis by (simp add: sub_uint_def neg_uint_def add_uint_def)
qed

section \<open>Shifts\<close>

lemma shl_step_length [simp]: "length (shl_step a k s pn i) = length pn"
  by (simp add: shl_step_def Let_def)

lemma shl_step_nth:
  "length pn = length a \<Longrightarrow> j < length a \<Longrightarrow> shl_step a k s pn i ! j =
     (if j = i + k then pn ! j OR push_bit s (a ! i)
      else if j = i + k + 1 \<and> s \<noteq> 0 then pn ! j OR drop_bit (32 - s) (a ! i) else pn ! j)"
  by (auto simp: shl_step_def Let_def nth_list_update)

definition shl_limb :: "limbs \<Rightarrow> nat \<Rightarrow> nat \<Rightarrow> nat \<Rightarrow> nat \<Rightarrow> u32" where
  "shl_limb a k s i j =
      (if k \<le> j \<and> j - k < i then push_bit s (a ! (j - k)) else 0) OR
      (if s \<noteq> 0 \<and> k + 1 \<le> j \<and> j - k - 1 < i then drop_bit (32 - s) (a ! (j - k - 1)) else 0)"

lemma shl_limb_Suc:
  "shl_limb a k s (Suc i) j =
     (if j = i + k then shl_limb a k s i j OR push_bit s (a ! i)
      else if j = i + k + 1 \<and> s \<noteq> 0 then shl_limb a k s i j OR drop_bit (32 - s) (a ! i)
      else shl_limb a k s i j)"
proof -
  have "(k \<le> j \<and> j - k < Suc i) = (k \<le> j \<and> j - k < i)" if "j \<noteq> i + k" using that by auto
  moreover have "(k + 1 \<le> j \<and> j - k - 1 < Suc i) = (k + 1 \<le> j \<and> j - k - 1 < i)"
    if "j \<noteq> i + k + 1" using that by auto
  ultimately show ?thesis by (auto simp: shl_limb_def or.commute)
qed

lemma shl_foldl:
  assumes "i \<le> length a"
  shows "length (foldl (shl_step a k s) (replicate (length a) 0) [0..<i]) = length a \<and>
    (\<forall>j < length a. foldl (shl_step a k s) (replicate (length a) 0) [0..<i] ! j = shl_limb a k s i j)"
  using assms
proof (induction i)
  case 0
  then show ?case by (simp add: shl_limb_def)
next
  case (Suc i)
  define r where "r = foldl (shl_step a k s) (replicate (length a) 0) [0..<i]"
  have "length r = length a" "\<forall>j < length a. r ! j = shl_limb a k s i j"
    using Suc by (simp_all add: r_def)
  then have "length (shl_step a k s r i) = length a \<and>
      (\<forall>j < length a. shl_step a k s r i ! j = shl_limb a k s (Suc i) j)"
    by (simp add: shl_step_nth shl_limb_Suc)
  then show ?case by (simp add: r_def)
qed

lemma shl_uint_length [simp]: "length (shl_uint a n) = length a"
  by (simp add: shl_uint_def shl_foldl)

lemma div_mod_32: "r < 32 \<Longrightarrow> (32 * x + r) div 32 = x \<and> (32 * x + r) mod 32 = r"
  for x r :: nat
  by simp

lemma div_mod_diff_ge:
  assumes "n \<le> m" "n mod 32 \<le> m mod (32::nat)"
  shows "(m - n) div 32 = m div 32 - n div 32" "(m - n) mod 32 = m mod 32 - n mod 32"
    "n div 32 \<le> m div 32"
proof -
  show le: "n div 32 \<le> m div 32" using assms(1) by (rule div_le_mono)
  have "32 * x + y - (32 * u + v) = 32 * (x - u) + (y - v)" if "u \<le> x" "v \<le> y" for x y u v :: nat
    using that by simp
  from this [OF le assms(2)] have e: "m - n = 32 * (m div 32 - n div 32) + (m mod 32 - n mod 32)"
    by simp
  show "(m - n) div 32 = m div 32 - n div 32" "(m - n) mod 32 = m mod 32 - n mod 32"
    unfolding e by simp_all
qed

lemma div_mod_diff_less:
  assumes "n \<le> m" "m mod 32 < n mod (32::nat)"
  shows "(m - n) div 32 = m div 32 - n div 32 - 1" "(m - n) mod 32 = 32 - n mod 32 + m mod 32"
    "n div 32 + 1 \<le> m div 32"
proof -
  have "u + 1 \<le> x" if "32 * u + v \<le> 32 * x + y" "y < v" "v < 32" for x y u v :: nat
    using that by linarith
  from this [OF _ assms(2)] show le: "n div 32 + 1 \<le> m div 32" using assms(1) by simp
  have "32 * x + y - (32 * u + v) = 32 * (x - u - 1) + (32 - v + y)" if "u + 1 \<le> x" "y < v" "v < 32"
    for x y u v :: nat
    using that by linarith
  from this [OF le assms(2)] have e: "m - n = 32 * (m div 32 - n div 32 - 1) + (32 - n mod 32 + m mod 32)"
    by simp
  have small: "32 - n mod 32 + m mod 32 < 32" using assms(2) mod_less_divisor [of 32 n] by linarith
  from div_mod_32 [OF small] show "(m - n) div 32 = m div 32 - n div 32 - 1"
    "(m - n) mod 32 = 32 - n mod 32 + m mod 32"
    unfolding e by blast+
qed

lemma u32_bit_far: "32 \<le> i \<Longrightarrow> \<not> bit (x :: u32) i"
  using bit_imp_le_length [of x i] by auto

text \<open>Bit \<open>t\<close> of limb \<open>j\<close> of a list shifted left by \<open>32 * k + s\<close> is bit \<open>32 * (j - k) + t - s\<close> of the list.\<close>

lemma shl_limb_bit:
  assumes j: "j < length a" and k: "k = n div 32" and s: "s = n mod 32"
    and jm: "j = m div 32" and t: "t = m mod 32"
  shows "bit (shl_limb a k s (length a) j) t \<longleftrightarrow> n \<le> m \<and> bit (uval a) (m - n)"
proof -
  have t32: "t < 32" and s32: "s < 32" using t s by simp_all
  have L: "bit (shl_limb a k s (length a) j) t \<longleftrightarrow>
      k \<le> j \<and> s \<le> t \<and> bit (a ! (j - k)) (t - s) \<or>
      s \<noteq> 0 \<and> k + 1 \<le> j \<and> bit (a ! (j - k - 1)) (32 - s + t)"
    using j t32 by (auto simp: shl_limb_def bit_simps)
  have R: "bit (uval a) (m - n) \<longleftrightarrow> (m - n) div 32 < length a \<and> bit (a ! ((m - n) div 32)) ((m - n) mod 32)"
    by (simp add: bit_uval_iff)
  consider "n \<le> m" "s \<le> t" | "n \<le> m" "t < s" | "m < n" by linarith
  then show ?thesis
  proof cases
    case 1
    then have d: "(m - n) div 32 = j - k" "(m - n) mod 32 = t - s" "k \<le> j"
      using div_mod_diff_ge [of n m, folded k s jm t] by auto
    have "\<not> bit (a ! (j - k - 1)) (32 - s + t)" using 1 s32 by (intro u32_bit_far) simp
    with 1 j show ?thesis unfolding L R d by (auto simp: d(3))
  next
    case 2
    then have d: "(m - n) div 32 = j - k - 1" "(m - n) mod 32 = 32 - s + t" "k + 1 \<le> j"
      using div_mod_diff_less [of n m, folded k s jm t] by auto
    with 2 j show ?thesis unfolding L R d by auto
  next
    case 3
    then have "j < k \<or> k = j \<and> t < s"
      using div_mod_decomp [of m 32, folded jm t] div_mod_decomp [of n 32, folded k s] t32 s32
      by linarith
    with 3 show ?thesis unfolding L by auto
  qed
qed

lemma shl_uint_take_bit: "uval (shl_uint a n) = take_bit (32 * length a) (push_bit n (uval a))"
proof (rule bit_eqI)
  fix m :: nat
  have lim: "m < 32 * length a \<longleftrightarrow> m div 32 < length a"
    by (simp add: div_less_iff_less_mult mult.commute)
  show "bit (uval (shl_uint a n)) m \<longleftrightarrow> bit (take_bit (32 * length a) (push_bit n (uval a))) m"
  proof (cases "m div 32 < length a")
    case True
    then have "shl_uint a n ! (m div 32) = shl_limb a (n div 32) (n mod 32) (length a) (m div 32)"
      by (simp add: shl_uint_def shl_foldl)
    with True shl_limb_bit [OF True refl refl refl refl] show ?thesis
      by (simp add: bit_uval_iff [of "shl_uint a n"] bit_take_bit_iff bit_push_bit_iff lim)
  next
    case False
    then show ?thesis by (simp add: bit_uval_iff bit_take_bit_iff lim)
  qed
qed

lemma shl_uint_value [uval_simps]:
  "uval (shl_uint a n) = (uval a * 2 ^ n) mod 2 ^ (32 * length a)"
  by (simp add: shl_uint_take_bit take_bit_eq_mod push_bit_eq_mult)

definition shr_limb :: "limbs \<Rightarrow> nat \<Rightarrow> nat \<Rightarrow> nat \<Rightarrow> nat \<Rightarrow> u32" where
  "shr_limb a k s i j =
      (if j + k < i then drop_bit s (a ! (j + k)) else 0) OR
      (if s \<noteq> 0 \<and> j + k + 1 < i then push_bit (32 - s) (a ! (j + k + 1)) else 0)"

lemma shr_step_nth:
  "length pn = length a \<Longrightarrow> i < length a \<Longrightarrow> j < length a \<Longrightarrow> shr_step a k s pn i ! j =
     (if i = j + k then pn ! j OR drop_bit s (a ! i)
      else if i = j + k + 1 \<and> s \<noteq> 0 then pn ! j OR push_bit (32 - s) (a ! i) else pn ! j)"
  by (auto simp: shr_step_def Let_def nth_list_update)

lemma shr_limb_Suc:
  "shr_limb a k s (Suc i) j =
     (if i = j + k then shr_limb a k s i j OR drop_bit s (a ! i)
      else if i = j + k + 1 \<and> s \<noteq> 0 then shr_limb a k s i j OR push_bit (32 - s) (a ! i)
      else shr_limb a k s i j)"
  by (auto simp: shr_limb_def less_Suc_eq)

lemma shr_step_length [simp]: "length (shr_step a k s pn i) = length pn"
  by (simp add: shr_step_def Let_def)

lemma shr_foldl:
  assumes "i \<le> length a"
  shows "length (foldl (shr_step a k s) (replicate (length a) 0) [0..<i]) = length a \<and>
    (\<forall>j < length a. foldl (shr_step a k s) (replicate (length a) 0) [0..<i] ! j = shr_limb a k s i j)"
  using assms
proof (induction i)
  case 0
  then show ?case by (simp add: shr_limb_def)
next
  case (Suc i)
  define r where "r = foldl (shr_step a k s) (replicate (length a) 0) [0..<i]"
  have "length r = length a" "\<forall>j < length a. r ! j = shr_limb a k s i j"
    using Suc by (simp_all add: r_def)
  then have "length (shr_step a k s r i) = length a \<and>
      (\<forall>j < length a. shr_step a k s r i ! j = shr_limb a k s (Suc i) j)"
    using Suc.prems by (simp add: shr_step_nth shr_limb_Suc)
  then show ?case by (simp add: r_def)
qed

lemma shr_uint_length [simp]: "length (shr_uint a n) = length a"
  by (simp add: shr_uint_def shr_foldl)

lemma div_mod_sum:
  "(m + n) div 32 = (if m mod 32 + n mod 32 < 32 then m div 32 + n div 32 else m div 32 + n div 32 + 1)"
  "(m + n) mod 32 = (if m mod 32 + n mod 32 < 32 then m mod 32 + n mod 32 else m mod 32 + n mod 32 - 32)"
  for m n :: nat
proof -
  have lt: "m mod 32 < 32" "n mod 32 < 32" by simp_all
  have e: "m + n = 32 * (m div 32 + n div 32) + (m mod 32 + n mod 32)"
  proof -
    have "m + n = (32 * (m div 32) + m mod 32) + (32 * (n div 32) + n mod 32)"
      by (simp only: mult_div_mod_eq)
    then show ?thesis by (simp only: distrib_left ac_simps)
  qed
  have *: "(32 * x + r) div 32 = (if r < 32 then x else x + 1) \<and>
      (32 * x + r) mod 32 = (if r < 32 then r else r - 32)" if "r < 64" for x r :: nat
  proof (cases "r < 32")
    case False
    then obtain u where "r = 32 + u" using le_Suc_ex not_less by blast
    with that have "32 * x + r = 32 * (x + 1) + u" "u < 32" by simp_all
    with False \<open>r = 32 + u\<close> show ?thesis
      using div_mod_32 [of u "x + 1"] by simp
  qed simp
  have lt64: "m mod 32 + n mod 32 < 64" using add_strict_mono [OF lt] by simp
  from * [OF lt64, of "m div 32 + n div 32"]
  have A: "(m + n) div 32 = (if m mod 32 + n mod 32 < 32 then m div 32 + n div 32 else m div 32 + n div 32 + 1) \<and>
    (m + n) mod 32 = (if m mod 32 + n mod 32 < 32 then m mod 32 + n mod 32 else m mod 32 + n mod 32 - 32)"
    unfolding e [symmetric] .
  then show "(m + n) div 32 = (if m mod 32 + n mod 32 < 32 then m div 32 + n div 32 else m div 32 + n div 32 + 1)"
    "(m + n) mod 32 = (if m mod 32 + n mod 32 < 32 then m mod 32 + n mod 32 else m mod 32 + n mod 32 - 32)"
    by blast+
qed

lemma shr_limb_bit:
  assumes j: "j < length a" and k: "k = n div 32" and s: "s = n mod 32"
    and jm: "j = m div 32" and t: "t = m mod 32"
  shows "bit (shr_limb a k s (length a) j) t \<longleftrightarrow> bit (uval a) (m + n)"
proof -
  have t32: "t < 32" and s32: "s < 32" using t s by simp_all
  have L: "bit (shr_limb a k s (length a) j) t \<longleftrightarrow>
      j + k < length a \<and> bit (a ! (j + k)) (s + t) \<or>
      s \<noteq> 0 \<and> j + k + 1 < length a \<and> 32 - s \<le> t \<and> bit (a ! (j + k + 1)) (t - (32 - s))"
    using t32 by (auto simp: shr_limb_def bit_simps)
  have R: "bit (uval a) (m + n) \<longleftrightarrow> (m + n) div 32 < length a \<and> bit (a ! ((m + n) div 32)) ((m + n) mod 32)"
    by (simp add: bit_uval_iff)
  show ?thesis
  proof (cases "t + s < 32")
    case True
    then have d: "(m + n) div 32 = j + k" "(m + n) mod 32 = s + t"
      using div_mod_sum [of m n, folded k s jm t] by simp_all
    from True show ?thesis unfolding L R d by auto
  next
    case False
    then have d: "(m + n) div 32 = j + k + 1" "(m + n) mod 32 = t - (32 - s)"
      using div_mod_sum [of m n, folded k s jm t] s32 by simp_all
    have "\<not> bit (a ! (j + k)) (s + t)" using False by (intro u32_bit_far) simp
    with False s32 t32 show ?thesis unfolding L R d by auto
  qed
qed

lemma shr_uint_drop_bit: "uval (shr_uint a n) = drop_bit n (uval a)"
proof (rule bit_eqI)
  fix m :: nat
  show "bit (uval (shr_uint a n)) m \<longleftrightarrow> bit (drop_bit n (uval a)) m"
  proof (cases "m div 32 < length a")
    case True
    then have "shr_uint a n ! (m div 32) = shr_limb a (n div 32) (n mod 32) (length a) (m div 32)"
      by (simp add: shr_uint_def shr_foldl)
    with True shr_limb_bit [OF True refl refl refl refl] show ?thesis
      by (simp add: bit_uval_iff [of "shr_uint a n"] bit_drop_bit_eq add.commute)
  next
    case False
    moreover have "m div 32 \<le> (n + m) div 32" by (rule div_le_mono) simp
    ultimately show ?thesis by (simp add: bit_uval_iff bit_drop_bit_eq)
  qed
qed

lemma shr_uint_value [uval_simps]: "uval (shr_uint a n) = uval a div 2 ^ n"
  by (simp add: shr_uint_drop_bit drop_bit_eq_div)

section \<open>Multiplication\<close>

lemma low_high_mod:
  fixes lo B x M :: int
  assumes "0 \<le> lo" "lo < B" "0 \<le> M"
  shows "lo + B * (x mod M) = (lo + B * x) mod (B * M)"
proof -
  have "(lo + B * x) mod (B * M) = B * ((lo + B * x) div B mod M) + (lo + B * x) mod B"
    using assms(3) by (rule zmod_zmult2_eq)
  then show ?thesis using assms by simp
qed

lemma u32_mult_bound: "uint (x :: u32) * uint (y :: u32) \<le> (2 ^ 32 - 1) * (2 ^ 32 - 1)"
  using u32_bound [of x] u32_bound [of y] by (intro mult_mono) simp_all

lemma mul32_loop_length [simp]: "length (mul32_loop c b pn) = length pn"
  by (induction pn arbitrary: c) (simp_all add: Let_def)

lemma mul32_loop_value:
  "uint c < 2 ^ 32 \<Longrightarrow> uval (mul32_loop c b pn) = (uint c + uint b * uval pn) mod 2 ^ (32 * length pn)"
proof (induction pn arbitrary: c)
  case (Cons p pn)
  let ?n = "c + ucast b * ucast p :: u64"
  have n: "uint ?n = uint c + uint b * uint p"
    using Cons.prems u32_mult_bound [of b p]
    by (subst uint_add_u64; (subst uint_mult_u64)?) simp_all
  then have hi: "uint (drop_bit 32 ?n) < 2 ^ 32"
    using Cons.prems u32_mult_bound [of b p] by (simp add: high32)
  have "uval (mul32_loop c b (p # pn)) = uint ?n mod 2 ^ 32 +
      2 ^ 32 * ((uint ?n div 2 ^ 32 + uint b * uval pn) mod 2 ^ (32 * length pn))"
    using Cons.IH [OF hi] by (simp add: Let_def uval_Cons low32 high32)
  also have "\<dots> = (uint ?n + 2 ^ 32 * (uint b * uval pn)) mod (2 ^ 32 * 2 ^ (32 * length pn))"
    by (rule carry_chain) simp
  finally show ?case
    unfolding n by (simp only: uval_Cons length_Cons mult_Suc_right power_add) (simp add: algebra_simps)
qed simp

lemma mul32_uint_length [simp]: "length (mul32_uint pn b) = length pn"
  by (simp add: mul32_uint_def)

lemma mul32_uint_value [uval_simps]:
  "uval (mul32_uint pn b) = (uval pn * uint b) mod 2 ^ (32 * length pn)"
  by (simp add: mul32_uint_def mul32_loop_value mult.commute)

lemma mul_inner_length [simp]: "length (mul_inner c a pn b) = length pn"
  by (induction c a pn b rule: mul_inner.induct) (simp_all add: Let_def)

lemma mul_inner_value:
  assumes "length pn \<le> length b" "uint c < 2 ^ 32"
  shows "uval (mul_inner c a pn b) = (uint c + uval pn + uint a * uval b) mod 2 ^ (32 * length pn)"
  using assms
proof (induction c a pn b rule: mul_inner.induct)
  case (1 c a p pn q b)
  let ?n = "c + ucast p + ucast a * ucast q :: u64"
  have n: "uint ?n = uint c + uint p + uint a * uint q"
    using "1.prems" u32_bound [of p] u32_mult_bound [of a q]
    by (subst uint_add_u64; (subst uint_add_u64)?; (subst uint_mult_u64)?) simp_all
  then have hi: "uint (drop_bit 32 ?n) < 2 ^ 32"
    using "1.prems" u32_bound [of p] u32_mult_bound [of a q] by (simp add: high32)
  have "uval (mul_inner c a (p # pn) (q # b)) = uint ?n mod 2 ^ 32 +
      2 ^ 32 * ((uint ?n div 2 ^ 32 + (uval pn + uint a * uval b)) mod 2 ^ (32 * length pn))"
    using "1.IH" [OF refl _ hi] "1.prems" by (simp add: Let_def uval_Cons low32 high32 add.assoc)
  also have "\<dots> = (uint ?n + 2 ^ 32 * (uval pn + uint a * uval b)) mod (2 ^ 32 * 2 ^ (32 * length pn))"
    by (rule carry_chain) simp
  finally show ?case
    unfolding n by (simp only: uval_Cons length_Cons mult_Suc_right power_add) (simp add: algebra_simps)
qed simp_all

lemma mul_step_length [simp]: "length (mul_step a b pn j) = length pn"
  by (simp add: mul_step_def)

lemma mul_step_value:
  assumes "length pn = length b" "j \<le> length pn"
  shows "uval (mul_step a b pn j) =
    (uval pn + 2 ^ (32 * j) * (uint (a ! j) * uval b)) mod 2 ^ (32 * length pn)"
proof -
  have lo: "uval (take j pn) < 2 ^ (32 * j)"
    using uval_bound [of "take j pn"] assms by (simp add: min_absorb2)
  have "uval (mul_step a b pn j) = uval (take j pn) + 2 ^ (32 * j) *
      ((uval (drop j pn) + uint (a ! j) * uval b) mod 2 ^ (32 * (length pn - j)))"
    using assms by (simp add: mul_step_def uval_append mul_inner_value min_absorb2)
  also have "\<dots> = (uval (take j pn) + 2 ^ (32 * j) * (uval (drop j pn) + uint (a ! j) * uval b)) mod
      (2 ^ (32 * j) * 2 ^ (32 * (length pn - j)))"
    using lo by (intro low_high_mod) simp_all
  also have "(2::int) ^ (32 * j) * 2 ^ (32 * (length pn - j)) = 2 ^ (32 * length pn)"
    using assms by (simp add: power_add [symmetric] distrib_left [symmetric])
  also have "uval (take j pn) + 2 ^ (32 * j) * (uval (drop j pn) + uint (a ! j) * uval b) =
      uval (take j pn @ drop j pn) + 2 ^ (32 * j) * (uint (a ! j) * uval b)"
    using assms by (subst uval_append) (simp add: min_absorb2 algebra_simps)
  finally show ?thesis by simp
qed

lemma mul_foldl:
  assumes "length a = length b" "i \<le> length a"
  shows "length (foldl (mul_step a b) (replicate (length a) 0) [0..<i]) = length a \<and>
    uval (foldl (mul_step a b) (replicate (length a) 0) [0..<i]) =
      (uval (take i a) * uval b) mod 2 ^ (32 * length a)"
  using assms(2)
proof (induction i)
  case (Suc i)
  define r where "r = foldl (mul_step a b) (replicate (length a) 0) [0..<i]"
  have r: "length r = length a" "uval r = (uval (take i a) * uval b) mod 2 ^ (32 * length a)"
    using Suc by (simp_all add: r_def)
  have "uval (mul_step a b r i) = (uval r + 2 ^ (32 * i) * (uint (a ! i) * uval b)) mod 2 ^ (32 * length a)"
    using mul_step_value [of r b i a] r(1) assms(1) Suc.prems by simp
  also have "\<dots> = (uval (take i a) * uval b + 2 ^ (32 * i) * (uint (a ! i) * uval b)) mod 2 ^ (32 * length a)"
    by (simp add: r(2) mod_simps)
  also have "uval (take i a) * uval b + 2 ^ (32 * i) * (uint (a ! i) * uval b) = uval (take (Suc i) a) * uval b"
    using Suc.prems
    by (simp add: take_Suc_conv_app_nth uval_append uval_Cons min_absorb2 algebra_simps)
  finally show ?case using r(1) by (simp add: r_def)
qed simp

lemma mul_uint_length [simp]: "length a = length b \<Longrightarrow> length (mul_uint a b) = length a"
  using mul_foldl [of a b "length a"] by (simp add: mul_uint_def)

lemma mul_uint_value [uval_simps]:
  "length a = length b \<Longrightarrow> uval (mul_uint a b) = (uval a * uval b) mod 2 ^ (32 * length a)"
  using mul_foldl [of a b "length a"] by (simp add: mul_uint_def)

section \<open>Comparison and bit length\<close>

lemma compare_loop_value:
  "length xs = length ys \<Longrightarrow> compare_loop xs ys = sgn (uval (rev xs) - uval (rev ys))"
proof (induction xs ys rule: list_induct2)
  case (Cons x xs y ys)
  let ?B = "2 ^ (32 * length xs) :: int"
  have v: "uval (rev (x # xs)) - uval (rev (y # ys)) =
      (uval (rev xs) - uval (rev ys)) + ?B * (uint x - uint y)"
    using Cons.hyps by (simp add: uval_append uval_Cons right_diff_distrib)
  have b: "uval (rev xs) < ?B" "uval (rev ys) < ?B" "0 \<le> uval (rev xs)" "0 \<le> uval (rev ys)"
    using uval_bound [of "rev xs"] uval_bound [of "rev ys"] Cons.hyps by simp_all
  consider "x < y" | "y < x" | "x = y" by fastforce
  then show ?case
  proof cases
    case 1
    then have "uint x - uint y \<le> - 1" by (simp add: word_less_def)
    then have "?B * (uint x - uint y) \<le> ?B * (- 1)" by (intro mult_left_mono) simp_all
    then have "uval (rev (x # xs)) - uval (rev (y # ys)) < 0" unfolding v using b by linarith
    with 1 show ?thesis by (simp add: sgn_if)
  next
    case 2
    then have "1 \<le> uint x - uint y" by (simp add: word_less_def)
    then have "?B * 1 \<le> ?B * (uint x - uint y)" by (intro mult_left_mono) simp_all
    then have "0 < uval (rev (x # xs)) - uval (rev (y # ys))" unfolding v using b by linarith
    with 2 show ?thesis by (simp add: sgn_if)
  next
    case 3
    with Cons.IH v show ?thesis by simp
  qed
qed simp

lemma CompareTo_sgn: "length pn = length b \<Longrightarrow> CompareTo pn b = sgn (uval pn - uval b)"
  by (simp add: CompareTo_def compare_loop_value)

lemma CompareTo_ge_iff: "length pn = length b \<Longrightarrow> CompareTo pn b \<ge> 0 \<longleftrightarrow> uval b \<le> uval pn"
  by (auto simp: CompareTo_sgn sgn_if)

lemma CompareTo_gt_iff: "length pn = length b \<Longrightarrow> CompareTo pn b > 0 \<longleftrightarrow> uval b < uval pn"
  by (simp add: CompareTo_sgn)

lemma bit_top_iff:
  fixes k :: int
  assumes "0 \<le> k" "k < 2 ^ Suc m"
  shows "bit k m \<longleftrightarrow> 2 ^ m \<le> k"
proof (cases "2 ^ m \<le> k")
  case True
  have "k div 2 ^ m = 1"
    by (rule int_div_pos_eq [where r = "k - 2 ^ m"]) (use True assms in simp_all)
  with True show ?thesis by (simp add: bit_iff_odd)
next
  case False
  with assms have "k div 2 ^ m = 0" by (simp add: div_pos_pos_trivial)
  with False show ?thesis by (simp add: bit_iff_odd)
qed

lemma bits_inner_spec:
  assumes "p \<noteq> 0" "uint p < 2 ^ Suc n"
  shows "1 \<le> bits_inner n p \<and> 2 ^ (bits_inner n p - 1) \<le> uint p \<and> uint p < 2 ^ bits_inner n p"
  using assms(2)
proof (induction n)
  case 0
  moreover have "uint p \<noteq> 0" using assms(1) by (simp add: unsigned_eq_0_iff)
  moreover have "0 \<le> uint p" by simp
  ultimately have "1 \<le> uint p" by linarith
  with 0 show ?case by simp
next
  case (Suc n)
  have "p AND push_bit (Suc n) 1 \<noteq> 0 \<longleftrightarrow> 2 ^ Suc n \<le> uint p"
  proof -
    have "p AND push_bit (Suc n) 1 \<noteq> 0 \<longleftrightarrow> bit p (Suc n)"
      by (simp only: push_bit_of_1 and_exp_eq_0_iff_not_bit not_not)
    also have "\<dots> \<longleftrightarrow> bit (uint p) (Suc n)" by (auto simp: bit_uint_iff dest: bit_imp_le_length)
    finally show ?thesis using bit_top_iff [of "uint p" "Suc n"] Suc.prems by simp
  qed
  then show ?case using Suc by (cases "2 ^ Suc n \<le> uint p") (simp_all add: not_le)
qed

lemma bits_loop_spec:
  "bits_loop xs = 0 \<longleftrightarrow> uval (rev xs) = 0"
  "uval (rev xs) \<noteq> 0 \<Longrightarrow> 2 ^ (bits_loop xs - 1) \<le> uval (rev xs) \<and> uval (rev xs) < 2 ^ bits_loop xs"
proof (induction xs)
  case (Cons p xs)
  let ?k = "bits_inner 31 p"
  have v: "uval (rev (p # xs)) = uval (rev xs) + 2 ^ (32 * length xs) * uint p"
    by (simp add: uval_append uval_Cons)
  have b: "uval (rev xs) < 2 ^ (32 * length xs)"
    using uval_bound [of "rev xs"] by simp
  have sp: "1 \<le> ?k" "2 ^ (?k - 1) \<le> uint p" "uint p < 2 ^ ?k" if "p \<noteq> 0"
    using bits_inner_spec [of p 31] that u32_bound [of p] by simp_all
  have up: "2 ^ (32 * length xs + ?k - 1) \<le> uval (rev (p # xs)) \<and>
      uval (rev (p # xs)) < 2 ^ (32 * length xs + ?k)" if "p \<noteq> 0"
  proof
    have "2 ^ (32 * length xs) * 2 ^ (?k - 1) \<le> (2 ^ (32 * length xs) * uint p :: int)"
      using sp that by (intro mult_left_mono) simp_all
    moreover have "32 * length xs + ?k - 1 = 32 * length xs + (?k - 1)" using sp that by simp
    ultimately show "2 ^ (32 * length xs + ?k - 1) \<le> uval (rev (p # xs))"
      unfolding v by (simp add: power_add add_increasing)
    have "2 ^ (32 * length xs) * (uint p + 1) \<le> (2 ^ (32 * length xs) * 2 ^ ?k :: int)"
      using sp(3) that by (intro mult_left_mono) simp_all
    with b show "uval (rev (p # xs)) < 2 ^ (32 * length xs + ?k)"
      unfolding v by (simp add: power_add distrib_left)
  qed
  have pos: "0 < uval (rev (p # xs))" if "p \<noteq> 0"
    by (rule less_le_trans [OF _ conjunct1 [OF up [OF that]]]) simp
  {
    case 1
    show ?case
    proof (cases "p = 0")
      case True
      with Cons.IH(1) v show ?thesis by simp
    next
      case False
      with pos sp(1) show ?thesis by auto
    qed
  next
    case 2
    then show ?case using Cons.IH(2) up v by (cases "p = 0") simp_all
  }
qed simp_all

lemma bits_eq_0_iff: "bits pn = 0 \<longleftrightarrow> uval pn = 0"
  using bits_loop_spec(1) [of "rev pn"] by (simp add: bits_def)

lemma bits_bounds:
  assumes "uval pn \<noteq> 0"
  shows "2 ^ (bits pn - 1) \<le> uval pn" "uval pn < 2 ^ bits pn"
  using bits_loop_spec(2) [of "rev pn"] assms by (simp_all add: bits_def)

lemma uval_less_bits: "uval pn < 2 ^ bits pn"
  using bits_bounds(2) [of pn] by (cases "uval pn = 0") (simp_all add: bits_eq_0_iff)

lemma bits_le: "bits pn \<le> 32 * length pn"
proof (cases "uval pn = 0")
  case False
  have "(2::int) ^ (bits pn - 1) < 2 ^ (32 * length pn)"
    by (rule le_less_trans [OF bits_bounds(1) [OF False]]) (use uval_bound [of pn] in simp)
  then show ?thesis by simp
qed (simp add: bits_eq_0_iff [THEN iffD2])

section \<open>Division\<close>

definition set_bit_uint :: "limbs \<Rightarrow> nat \<Rightarrow> limbs" where
  "set_bit_uint q n = q[n div 32 := q ! (n div 32) OR push_bit (n mod 32) 1]"

lemma set_bit_uint_length [simp]: "length (set_bit_uint q n) = length q"
  by (simp add: set_bit_uint_def)

lemma set_bit_uint_value:
  assumes "n < 32 * length q" "2 ^ Suc n dvd uval q"
  shows "uval (set_bit_uint q n) = uval q + 2 ^ n"
proof -
  have lim: "n div 32 < length q" using assms(1) by (simp add: div_less_iff_less_mult mult.commute)
  have "uval (set_bit_uint q n) = uval q OR 2 ^ n"
  proof (rule bit_eqI)
    fix m :: nat
    have eq: "m = n" if "m div 32 = n div 32" "m mod 32 = n mod 32"
      using that by (metis mult_div_mod_eq)
    have push: "bit ((2 :: u32) ^ (n mod 32)) (m mod 32) \<longleftrightarrow> m mod 32 = n mod 32"
      by (auto simp: bit_exp_iff)
    show "bit (uval (set_bit_uint q n)) m \<longleftrightarrow> bit (uval q OR 2 ^ n) m"
    proof (cases "m div 32 = n div 32")
      case True
      then have "bit (uval (set_bit_uint q n)) m \<longleftrightarrow> bit (q ! (n div 32)) (m mod 32) \<or> m mod 32 = n mod 32"
        using lim by (simp add: bit_uval_iff set_bit_uint_def bit_or_iff push)
      moreover have "bit (uval q OR 2 ^ n) m \<longleftrightarrow> bit (q ! (n div 32)) (m mod 32) \<or> m = n"
        using lim True by (simp add: bit_uval_iff bit_or_iff bit_exp_iff)
      ultimately show ?thesis using eq [OF True] by auto
    next
      case False
      then show ?thesis
        by (auto simp: bit_uval_iff set_bit_uint_def bit_or_iff bit_exp_iff)
    qed
  qed
  moreover have "uval q AND 2 ^ n = 0"
  proof -
    obtain c where "uval q = 2 ^ n * (2 * c)" using assms(2) by (auto simp: dvd_def)
    then show ?thesis by (simp add: and_exp_eq_0_iff_not_bit bit_iff_odd)
  qed
  ultimately show ?thesis by (simp add: disjunctive_add_eq_or)
qed

lemma div_loop_spec:
  assumes "0 < D" "length num = w" "length dv = w" "length q = w" "n \<le> 32 * w"
    and "\<And>s. n = Suc s \<Longrightarrow> uval dv = D * 2 ^ s"
    and "uval num < D * 2 ^ n" "2 ^ n dvd uval q" "uval q * D + uval num = N"
  shows "length (fst (div_loop n q num dv)) = w \<and>
    uval (fst (div_loop n q num dv)) * D + uval (snd (div_loop n q num dv)) = N \<and>
    uval (snd (div_loop n q num dv)) < D"
  using assms
proof (induction n arbitrary: q num dv)
  case (Suc s)
  have dv: "uval dv = D * 2 ^ s" using Suc.prems(6) by simp
  have dv': "uval (shr_uint dv 1) = D * 2 ^ t" if "s = Suc t" for t
    by (simp add: shr_uint_value dv that)
  have dvd: "2 ^ s dvd uval q" using Suc.prems(8) by (rule power_le_dvd) simp
  show ?case
  proof (cases "CompareTo num dv \<ge> 0")
    case True
    then have ge: "D * 2 ^ s \<le> uval num"
      using Suc.prems(2,3) by (simp add: CompareTo_ge_iff dv)
    have D: "0 \<le> D * 2 ^ s" using Suc.prems(1) by simp
    have "uval (sub_uint num dv) = (uval num - D * 2 ^ s) mod 2 ^ (32 * w)"
      using Suc.prems(2,3) by (simp add: sub_uint_value dv)
    also have "\<dots> = uval num - D * 2 ^ s"
      using ge D limbs_bound [of num] Suc.prems(2) by (intro mod_pos_pos_trivial) (linarith, simp)
    finally have num': "uval (sub_uint num dv) = uval num - D * 2 ^ s" .
    have q': "uval (set_bit_uint q s) = uval q + 2 ^ s"
      using Suc.prems(4,5,8) by (intro set_bit_uint_value) simp_all
    have "div_loop (Suc s) q num dv = div_loop s (set_bit_uint q s) (sub_uint num dv) (shr_uint dv 1)"
      using True by (simp add: set_bit_uint_def)
    moreover have "uval (set_bit_uint q s) * D + uval (sub_uint num dv) = N"
      using Suc.prems(9) by (simp add: num' q' algebra_simps)
    moreover have "uval (sub_uint num dv) < D * 2 ^ s"
      using Suc.prems(7) by (simp add: num')
    ultimately show ?thesis
      using Suc.prems(1-5) dvd dv' by (simp add: Suc.IH q')
  next
    case False
    then have "uval num < D * 2 ^ s"
      using Suc.prems(2,3) by (simp add: CompareTo_ge_iff dv)
    with False show ?thesis
      using Suc.prems(1-5,9) dvd dv' by (simp add: Suc.IH)
  qed
qed simp

lemma div_uint_None: "div_uint num b = None \<longleftrightarrow> uval b = 0"
  by (simp add: div_uint_def Let_def bits_eq_0_iff)

theorem div_uint_value:
  assumes len: "length num = length b" and nz: "uval b \<noteq> 0"
  shows "\<exists>q. div_uint num b = Some q \<and> length q = length num \<and> uval q = uval num div uval b"
proof (cases "bits b > bits num")
  case True
  then have "bits num \<le> bits b - 1" by simp
  then have "(2::int) ^ bits num \<le> 2 ^ (bits b - 1)" by simp
  then have "uval num < uval b"
    using bits_bounds(1) [OF nz] uval_less_bits [of num] by linarith
  with True nz show ?thesis
    by (simp add: div_uint_def Let_def bits_eq_0_iff div_pos_pos_trivial)
next
  case False
  let ?s = "bits num - bits b" and ?D = "uval b"
  have D: "0 < ?D" using nz uval_nonneg [of b] by linarith
  have bb: "bits b \<noteq> 0" using nz by (simp add: bits_eq_0_iff)
  with False have bn: "bits b \<noteq> 0" "bits num \<noteq> 0" by linarith+
  have sum: "bits b + ?s = bits num" using False by simp
  have "?D * 2 ^ ?s < 2 ^ bits b * 2 ^ ?s"
    using uval_less_bits [of b] by (intro mult_strict_right_mono) simp_all
  also have "\<dots> = 2 ^ bits num" by (simp add: power_add [symmetric] sum)
  also have "\<dots> \<le> 2 ^ (32 * length b)" using bits_le [of num] len by simp
  finally have dv: "uval (shl_uint b ?s) = ?D * 2 ^ ?s"
    using D by (simp add: shl_uint_value mod_pos_pos_trivial)
  have "uval num < 2 ^ bits num" by (rule uval_less_bits)
  also have "2 ^ bits num = (2 ^ (bits b - 1) * 2 ^ Suc ?s :: int)"
  proof -
    have "bits num = (bits b - 1) + Suc ?s" using sum bn by linarith
    then show ?thesis by (metis power_add)
  qed
  also have "\<dots> \<le> ?D * 2 ^ Suc ?s"
    using bits_bounds(1) [OF nz] by (intro mult_right_mono) simp_all
  finally have num: "uval num < ?D * 2 ^ Suc ?s" .
  have "Suc ?s \<le> 32 * length num" using bits_le [of num] bn by linarith
  moreover define R where "R = div_loop (Suc ?s) (replicate (length num) 0) num (shl_uint b ?s)"
  ultimately have L: "length (fst R) = length num \<and> uval (fst R) * ?D + uval (snd R) = uval num \<and>
      uval (snd R) < ?D"
    unfolding R_def using D len dv num by (intro div_loop_spec) simp_all
  then have "uval num div ?D = uval (fst R)"
    by (intro int_div_pos_eq [where r = "uval (snd R)"]) (auto simp: mult.commute)
  moreover have "div_uint num b = Some (fst R)"
    using False bb by (simp only: div_uint_def Let_def R_def if_False)
  ultimately show ?thesis using L by simp
qed

section \<open>Conversions\<close>

lemma uint_ucast_low: "uint (ucast (x :: u64) :: u32) = uint x mod 2 ^ 32"
  by (simp add: unsigned_ucast_eq take_bit_eq_mod)

lemma u64_bound: "uint (x :: u64) < 2 ^ 64"
  using uint_bounded [of x] by simp

lemma base_uint_of_u64_length [simp]: "2 \<le> w \<Longrightarrow> length (base_uint_of_u64 w b) = w"
  by (simp add: base_uint_of_u64_def)

lemma uint_ucast_high: "uint (ucast (drop_bit 32 b) :: u32) = uint b div 2 ^ 32"
  for b :: u64
proof -
  have "uint b div 2 ^ 32 < 2 ^ 32"
    using u64_bound [of b] by (simp add: div_less_iff_less_mult)
  then show ?thesis
    by (simp add: uint_ucast_low high32 mod_pos_pos_trivial pos_imp_zdiv_nonneg_iff)
qed

lemma uint_and_low: "uint (b AND 0xffffffff) = uint b mod 2 ^ 32"
  for b :: u64
proof -
  have "b AND 0xffffffff = take_bit 32 b"
    by (simp add: take_bit_eq_mask mask_eq_decr_exp)
  then show ?thesis by (simp only: unsigned_take_bit_eq) (simp add: take_bit_eq_mod)
qed

lemma base_uint_of_u64_value [uval_simps]: "uval (base_uint_of_u64 w b) = uint b"
  by (simp add: base_uint_of_u64_def uval_Cons uint_ucast_low [of b] uint_ucast_high
      del: uint_ucast_u32)

lemma not_uint_iff [uval_simps]: "not_uint pn \<longleftrightarrow> uval pn = 0"
  by (simp add: not_uint_def uval_eq_0_iff list_all_iff)

lemma two_limbs:
  assumes "2 \<le> length pn"
  obtains p0 p1 r where "pn = p0 # p1 # r"
  using assms by (cases pn; cases "tl pn") auto

lemma GetLow64_value: "2 \<le> length pn \<Longrightarrow> uint (GetLow64 pn) = uval pn mod 2 ^ 64"
proof -
  assume "2 \<le> length pn"
  then obtain p0 p1 r where pn: "pn = p0 # p1 # r" by (rule two_limbs)
  have "GetLow64 pn = ucast p0 + push_bit 32 (ucast p1)"
    unfolding GetLow64_def pn
    by (subst disjunctive_add_eq_or) (auto simp: bit_eq_iff bit_simps pn dest: bit_imp_le_length)
  moreover have "uint (push_bit 32 (ucast p1) :: u64) = uint p1 * 2 ^ 32"
    using u32_bound [of p1]
    by (simp only: unsigned_push_bit_eq uint_ucast_u32) (simp add: take_bit_eq_mod push_bit_eq_mult)
  ultimately have "uint (GetLow64 pn) = uint p0 + uint p1 * 2 ^ 32"
    using u32_bound [of p0] u32_bound [of p1]
      uint_add_u64 [of "ucast p0" "push_bit 32 (ucast p1)"] by simp
  moreover have "uval pn mod 2 ^ 64 = (uint p0 + uint p1 * 2 ^ 32 + 2 ^ 64 * uval r) mod 2 ^ 64"
    by (simp add: pn uval_Cons algebra_simps)
  moreover have "uint p0 + uint p1 * 2 ^ 32 < 2 ^ 64"
    using u32_bound [of p0] u32_bound [of p1] by simp
  ultimately show ?thesis by (simp add: mod_pos_pos_trivial)
qed

lemma EqualTo_iff [uval_simps]: "2 \<le> length pn \<Longrightarrow> EqualTo pn b \<longleftrightarrow> uval pn = uint b"
proof -
  assume len: "2 \<le> length pn"
  then obtain p0 p1 r where pn: "pn = p0 # p1 # r" by (rule two_limbs)
  have b: "base_uint_of_u64 (length pn) b = ucast b # ucast (drop_bit 32 b) # replicate (length r) 0"
    by (simp add: base_uint_of_u64_def pn)
  have hi: "ucast p1 = drop_bit 32 b \<longleftrightarrow> p1 = ucast (drop_bit 32 b)"
    unfolding word_uint_eq_iff uint_ucast_high by (simp only: uint_ucast_u32 high32)
  have lo: "ucast p0 = b AND 0xffffffff \<longleftrightarrow> p0 = ucast b"
    unfolding word_uint_eq_iff uint_and_low by (simp only: uint_ucast_u32 uint_ucast_low)
  have "EqualTo pn b \<longleftrightarrow> pn = base_uint_of_u64 (length pn) b"
    unfolding b by (auto simp: EqualTo_def pn hi lo list_all_iff replicate_eqI
        dest: arg_cong [where f = set])
  also have "\<dots> \<longleftrightarrow> uval pn = uval (base_uint_of_u64 (length pn) b)"
    using len by (intro uval_inject [symmetric]) simp
  finally show ?thesis by (simp add: base_uint_of_u64_value)
qed

lemma ArithToUint_length [simp]: "length (ArithToUint a) = 4 * length a"
  by (induction a) (simp_all add: ArithToUint_def)

lemma uval_ArithToUint: "uval (ArithToUint a) = uval a"
  by (induction a) (simp_all add: ArithToUint_def uval_append uval_Cons)

lemma UintToArith_ArithToUint: "UintToArith (length a) (ArithToUint a) = a"
proof (induction a)
  case (Cons p a)
  have "UintToArith (length (p # a)) (ArithToUint (p # a)) = p # UintToArith (length a) (ArithToUint a)"
    by (simp add: UintToArith_def ArithToUint_def upt_conv_Cons map_Suc_upt [symmetric] del: upt_Suc)
  with Cons show ?case by simp
qed (simp add: UintToArith_def)

section \<open>Properties\<close>

text \<open>The limb loops with their carries compute sums, differences, products and shifts of the
  numbers they represent modulo \<open>2 ^ BITS\<close>, and the limb comparison orders the numbers.\<close>

theorem base_uint_arithmetic:
  assumes "length a = w" "length b = w"
  shows "uval (add_uint a b) = (uval a + uval b) mod 2 ^ (32 * w) \<and>
    uval (sub_uint a b) = (uval a - uval b) mod 2 ^ (32 * w) \<and>
    uval (mul_uint a b) = (uval a * uval b) mod 2 ^ (32 * w) \<and>
    uval (mul32_uint a m) = (uval a * uint m) mod 2 ^ (32 * w) \<and>
    uval (shl_uint a n) = (uval a * 2 ^ n) mod 2 ^ (32 * w) \<and>
    uval (shr_uint a n) = uval a div 2 ^ n \<and>
    CompareTo a b = sgn (uval a - uval b)"
  using assms by (simp add: uval_simps CompareTo_sgn)

theorem base_uint_arithmetic_witness:
  "uval (mul_uint [0xffffffff, 1] [2, 0]) = (0x1ffffffff * 2) mod 2 ^ 64 \<and>
   uval (sub_uint [0, 0] [1, 0]) = 2 ^ 64 - 1"
  using base_uint_arithmetic [of "[0xffffffff, 1]" 2 "[2, 0]"] base_uint_arithmetic [of "[0, 0]" 2 "[1, 0]"]
  by (simp add: uval_Cons)

text \<open>The shift-and-subtract division loop returns, for every nonzero divisor, the quotient of the
  numbers; it raises \<open>uint_error\<close> exactly on a zero divisor.\<close>

theorem base_uint_division:
  assumes "length num = length b"
  shows "(div_uint num b = None \<longleftrightarrow> uval b = 0) \<and>
    (uval b \<noteq> 0 \<longrightarrow> (\<exists>q. div_uint num b = Some q \<and> length q = length num \<and> uval q = uval num div uval b))"
  using div_uint_None [of num b] div_uint_value [OF assms] by simp

theorem base_uint_division_witness:
  "(\<exists>q. div_uint [0, 0, 1] [3, 0, 0] = Some q \<and> uval q = 2 ^ 64 div 3) \<and> div_uint [7, 0] [0, 0] = None"
  using base_uint_division [of "[0, 0, 1]" "[3, 0, 0]"] base_uint_division [of "[7, 0]" "[0, 0]"]
  by (auto simp: uval_Cons)

end
