(* ===== verification/Compact.thy ===== *)
theory Compact
  imports ArithUint256
begin

text \<open>
  The compact form of a 256-bit number, the \<open>nBits\<close> field of a block header: what
  \<open>arith_uint256::SetCompact\<close> decodes, when it reports a negative or an overflowing number, and
  that \<open>arith_uint256::GetCompact\<close> keeps the leading bits of a number, exactly and once.
\<close>

section \<open>The compact form\<close>

definition compact_size :: "u32 \<Rightarrow> nat" where
  "compact_size c = nat (uint c div 2 ^ 24)"

definition compact_word :: "u32 \<Rightarrow> int" where
  "compact_word c = (if compact_size c \<le> 3 then uint c mod 2 ^ 23 div 2 ^ (8 * (3 - compact_size c))
     else uint c mod 2 ^ 23)"

text \<open>The number a compact form denotes, before it is cut to 256 bits.\<close>

definition compact_value :: "u32 \<Rightarrow> int" where
  "compact_value c = compact_word c * 2 ^ (8 * (compact_size c - 3))"

lemma compact_word_bounds: "0 \<le> compact_word c" "compact_word c < 2 ^ 23"
proof -
  let ?m = "uint c mod 2 ^ 23"
  have m: "0 \<le> ?m" "?m < 2 ^ 23" by simp_all
  have "?m div 2 ^ k \<le> ?m" for k :: nat
    using zdiv_mono2 [of ?m 1 "2 ^ k"] m by simp
  from le_less_trans [OF this m(2)] have lt: "?m div 2 ^ k < 2 ^ 23" for k :: nat .
  show "0 \<le> compact_word c" using m by (simp add: compact_word_def pos_imp_zdiv_nonneg_iff)
  show "compact_word c < 2 ^ 23" using m lt by (simp add: compact_word_def)
qed

lemma uint_drop_bit_u32: "uint (drop_bit k x) = uint x div 2 ^ k" for x :: u32
  by (simp only: unsigned_drop_bit_eq) (simp add: drop_bit_eq_div take_bit_int_eq_self u32_bound [simplified])

lemma uint_drop_bit_24: "unat (drop_bit 24 c) = compact_size c" for c :: u32
  by (simp add: compact_size_def unat_drop_bit_eq drop_bit_eq_div unat_div nat_div_distrib)

lemma uint_and_mantissa: "uint (c AND 0x007fffff) = uint c mod 2 ^ 23" for c :: u32
proof -
  have "c AND 0x007fffff = take_bit 23 c"
    by (simp add: take_bit_eq_mask mask_eq_decr_exp)
  then show ?thesis by (simp only: unsigned_take_bit_eq) (simp add: take_bit_eq_mod)
qed

lemma compact_overflow_iff:
  fixes m :: int
  assumes "0 < m" "m < 2 ^ 23"
  shows "2 ^ 256 \<le> m * 2 ^ (8 * (n - 3)) \<longleftrightarrow> n > 34 \<or> (m > 0xff \<and> n > 33) \<or> (m > 0xffff \<and> n > 32)"
proof -
  have ge: "2 ^ 256 \<le> m * 2 ^ (8 * (n - 3))" if "2 ^ a \<le> m" "256 \<le> a + 8 * (n - 3)" for a
  proof -
    have "(2::int) ^ 256 \<le> 2 ^ (a + 8 * (n - 3))" using that(2) by (rule power_increasing) simp
    also have "\<dots> \<le> m * 2 ^ (8 * (n - 3))" using that(1) by (simp add: power_add)
    finally show ?thesis .
  qed
  have lt: "m * 2 ^ (8 * (n - 3)) < 2 ^ 256" if "m < 2 ^ a" "a + 8 * (n - 3) \<le> 256" for a
  proof -
    have "m * 2 ^ (8 * (n - 3)) < 2 ^ a * 2 ^ (8 * (n - 3))" using that(1) by simp
    also have "\<dots> \<le> 2 ^ 256" using that(2) by (simp only: power_add [symmetric]) (rule power_increasing, simp_all)
    finally show ?thesis .
  qed
  consider "m \<le> 0xff" | "0xff < m" "m \<le> 0xffff" | "0xffff < m" by linarith
  then show ?thesis
  proof cases
    case 1
    then show ?thesis using ge [of 0] lt [of 8] assms by (cases "n > 34") (auto simp: le_diff_conv)
  next
    case 2
    then show ?thesis using ge [of 8] lt [of 16] by (cases "n > 33") (auto simp: le_diff_conv)
  next
    case 3
    then show ?thesis using ge [of 16] lt [of 24] assms by (cases "n > 32") (auto simp: le_diff_conv)
  qed
qed

theorem SetCompact_value:
  assumes "SetCompact c = (t, fNegative, fOverflow)"
  shows "length t = 8" "uval t = compact_value c mod 2 ^ 256"
    "fOverflow \<longleftrightarrow> 2 ^ 256 \<le> compact_value c"
    "fNegative \<longleftrightarrow> compact_word c \<noteq> 0 \<and> bit c 23"
proof -
  define nWord where "nWord = (if compact_size c \<le> 3 then drop_bit (8 * (3 - compact_size c)) (c AND 0x007fffff)
    else c AND 0x007fffff)"
  have w: "uint nWord = compact_word c"
    by (simp add: nWord_def compact_word_def uint_and_mantissa uint_drop_bit_u32 del: drop_bit_and)
  have eq: "t = (if compact_size c \<le> 3 then base_uint_of_u64 8 (ucast nWord)
      else shl_uint (base_uint_of_u64 8 (ucast nWord)) (8 * (compact_size c - 3)))"
    "fNegative = (nWord \<noteq> 0 \<and> (c AND 0x00800000) \<noteq> 0)"
    "fOverflow = (nWord \<noteq> 0 \<and> (compact_size c > 34 \<or> (nWord > 0xff \<and> compact_size c > 33) \<or>
        (nWord > 0xffff \<and> compact_size c > 32)))"
    using assms by (auto simp: SetCompact_def Let_def uint_drop_bit_24 nWord_def)
  have small: "compact_word c mod 2 ^ 256 = compact_word c"
    using compact_word_bounds [of c] by (intro mod_pos_pos_trivial) simp_all
  show "length t = 8" by (simp add: eq)
  show "uval t = compact_value c mod 2 ^ 256"
    using small by (simp add: eq base_uint_of_u64_value shl_uint_value w compact_value_def)
  have nz: "nWord \<noteq> 0 \<longleftrightarrow> compact_word c \<noteq> 0"
    by (simp add: w [symmetric] unsigned_eq_0_iff)
  have gt: "nWord > 0xff \<longleftrightarrow> compact_word c > 0xff" "nWord > 0xffff \<longleftrightarrow> compact_word c > 0xffff"
    by (simp_all add: w [symmetric] word_less_def)
  show "fOverflow \<longleftrightarrow> 2 ^ 256 \<le> compact_value c"
  proof (cases "compact_word c = 0")
    case False
    with compact_word_bounds [of c] have "0 < compact_word c" by linarith
    from compact_overflow_iff [OF this compact_word_bounds(2), of "compact_size c"] False
    show ?thesis by (simp add: eq nz gt compact_value_def)
  qed (simp add: eq nz compact_value_def)
  have "c AND 0x00800000 \<noteq> 0 \<longleftrightarrow> bit c 23"
    using and_exp_eq_0_iff_not_bit [of c 23] by simp
  then show "fNegative \<longleftrightarrow> compact_word c \<noteq> 0 \<and> bit c 23" by (simp add: eq nz)
qed

text \<open>The number of bytes of a number, and the mantissa and size that \<open>GetCompact\<close> packs.\<close>

definition nbytes :: "limbs \<Rightarrow> nat" where
  "nbytes pn = (bits pn + 7) div 8"

definition mantissa0 :: "limbs \<Rightarrow> int" where
  "mantissa0 pn = (if nbytes pn \<le> 3 then uval pn * 2 ^ (8 * (3 - nbytes pn))
     else uval pn div 2 ^ (8 * (nbytes pn - 3)))"

definition mantissa1 :: "limbs \<Rightarrow> int" where
  "mantissa1 pn = (if 2 ^ 23 \<le> mantissa0 pn then mantissa0 pn div 2 ^ 8 else mantissa0 pn)"

definition size1 :: "limbs \<Rightarrow> nat" where
  "size1 pn = (if 2 ^ 23 \<le> mantissa0 pn then nbytes pn + 1 else nbytes pn)"

lemma nbytes_bounds:
  "uval pn < 2 ^ (8 * nbytes pn)"
  "uval pn \<noteq> 0 \<Longrightarrow> 1 \<le> nbytes pn \<and> 2 ^ (8 * (nbytes pn - 1)) \<le> uval pn"
  "nbytes pn = 0 \<longleftrightarrow> uval pn = 0"
  "length pn = 8 \<Longrightarrow> nbytes pn \<le> 32"
proof -
  have le: "bits pn \<le> 8 * nbytes pn" by (simp add: nbytes_def)
  show "uval pn < 2 ^ (8 * nbytes pn)"
    by (rule less_le_trans [OF uval_less_bits power_increasing [OF le]]) simp
  show "1 \<le> nbytes pn \<and> 2 ^ (8 * (nbytes pn - 1)) \<le> uval pn" if "uval pn \<noteq> 0"
  proof -
    have "bits pn \<noteq> 0" using that by (simp add: bits_eq_0_iff)
    then have "1 \<le> nbytes pn" "8 * (nbytes pn - 1) \<le> bits pn - 1" by (simp_all add: nbytes_def)
    then show ?thesis
      using order_trans [OF power_increasing [of "8 * (nbytes pn - 1)" "bits pn - 1"] bits_bounds(1) [OF that]]
      by simp
  qed
  show "nbytes pn = 0 \<longleftrightarrow> uval pn = 0"
    using bits_eq_0_iff [of pn] by (auto simp: nbytes_def)
  show "nbytes pn \<le> 32" if "length pn = 8"
    using bits_le [of pn] that by (simp add: nbytes_def)
qed

lemma mantissa0_bounds: "0 \<le> mantissa0 pn" "mantissa0 pn < 2 ^ 24"
proof -
  show "0 \<le> mantissa0 pn" by (simp add: mantissa0_def pos_imp_zdiv_nonneg_iff)
  show "mantissa0 pn < 2 ^ 24"
  proof (cases "nbytes pn \<le> 3")
    case True
    have "uval pn * 2 ^ (8 * (3 - nbytes pn)) < 2 ^ (8 * nbytes pn) * 2 ^ (8 * (3 - nbytes pn))"
      using nbytes_bounds(1) [of pn] by (intro mult_strict_right_mono) simp_all
    also have "\<dots> = 2 ^ (8 * nbytes pn + 8 * (3 - nbytes pn))" by (simp only: power_add)
    also have "8 * nbytes pn + 8 * (3 - nbytes pn) = 24" using True by linarith
    finally show ?thesis using True by (simp add: mantissa0_def)
  next
    case False
    have "8 * nbytes pn = 24 + 8 * (nbytes pn - 3)" using False by simp
    then have "uval pn < 2 ^ 24 * 2 ^ (8 * (nbytes pn - 3))"
      using nbytes_bounds(1) [of pn] by (simp only: power_add)
    then show ?thesis using False zdiv_less [of "uval pn" "2 ^ 24" "2 ^ (8 * (nbytes pn - 3))"]
      by (simp add: mantissa0_def)
  qed
qed

lemma mantissa1_bounds: "0 \<le> mantissa1 pn" "mantissa1 pn < 2 ^ 23"
  using mantissa0_bounds [of pn] by (auto simp: mantissa1_def pos_imp_zdiv_nonneg_iff div_less_iff_less_mult)

lemma uint_push_bit_u64: "uint x * 2 ^ k < 2 ^ 64 \<Longrightarrow> uint (push_bit k x) = uint x * 2 ^ k" for x :: u64
  by (simp only: unsigned_push_bit_eq) (simp add: take_bit_eq_mod push_bit_eq_mult mod_pos_pos_trivial)

lemma uint_push_bit_u32: "uint x * 2 ^ k < 2 ^ 32 \<Longrightarrow> uint (push_bit k x) = uint x * 2 ^ k" for x :: u32
  by (simp only: unsigned_push_bit_eq) (simp add: take_bit_eq_mod push_bit_eq_mult mod_pos_pos_trivial)

lemma GetCompact_parts:
  assumes len: "length pn = 8"
  shows "\<exists>c. GetCompact pn False = Some c \<and> uint c = mantissa1 pn + int (size1 pn) * 2 ^ 24"
proof -
  let ?n = "nbytes pn"
  define c0 :: u32 where "c0 = (if ?n \<le> 3 then ucast (push_bit (8 * (3 - ?n)) (GetLow64 pn))
    else ucast (GetLow64 (shr_uint pn (8 * (?n - 3)))))"
  have c0: "uint c0 = mantissa0 pn"
  proof (cases "?n \<le> 3")
    case True
    have v: "uval pn < 2 ^ 24"
      using nbytes_bounds(1) [of pn] power_increasing [of "8 * ?n" 24 "2::int"] True by simp
    then have "uint (GetLow64 pn) = uval pn"
      using len by (simp add: GetLow64_value mod_pos_pos_trivial)
    then have "uint (push_bit (8 * (3 - ?n)) (GetLow64 pn)) = mantissa0 pn"
      using mantissa0_bounds [of pn] True by (simp add: uint_push_bit_u64 mantissa0_def)
    then show ?thesis
      using True mantissa0_bounds [of pn] by (simp add: c0_def uint_ucast_low mod_pos_pos_trivial)
  next
    case False
    then have "uint (GetLow64 (shr_uint pn (8 * (?n - 3)))) = mantissa0 pn mod 2 ^ 64"
      using len by (simp add: GetLow64_value shr_uint_value mantissa0_def)
    also have "\<dots> = mantissa0 pn"
      using mantissa0_bounds [of pn] by (simp add: mod_pos_pos_trivial)
    finally show ?thesis
      using False mantissa0_bounds [of pn] by (simp add: c0_def uint_ucast_low mod_pos_pos_trivial)
  qed
  have high: "c0 AND 0x00800000 \<noteq> 0 \<longleftrightarrow> 2 ^ 23 \<le> mantissa0 pn"
  proof -
    have "c0 AND 0x00800000 \<noteq> 0 \<longleftrightarrow> bit (uint c0) 23"
      using and_exp_eq_0_iff_not_bit [of c0 23] by (simp add: bit_uint_iff)
    then show ?thesis using bit_top_iff [of "mantissa0 pn" 23] mantissa0_bounds [of pn] by (simp add: c0)
  qed
  define c1 where "c1 = (if c0 AND 0x00800000 \<noteq> 0 then drop_bit 8 c0 else c0)"
  have c1: "uint c1 = mantissa1 pn"
    by (simp only: c1_def high mantissa1_def if_distrib [of uint] uint_drop_bit_u32 c0)
  have "uint (take_bit 23 c1) = uint c1"
    using mantissa1_bounds [of pn]
    by (simp only: unsigned_take_bit_eq) (simp add: take_bit_eq_mod c1 mod_pos_pos_trivial)
  then have t1: "c1 = take_bit 23 c1" by (simp only: word_uint_eq_iff)
  have "take_bit 23 c1 AND NOT (mask 23) = 0"
    by (auto simp: bit_eq_iff bit_simps)
  then have assert1: "c1 AND NOT 0x007fffff = 0"
    unfolding t1 [symmetric] by (simp add: mask_eq_decr_exp)
  have s: "size1 pn \<le> 33" using nbytes_bounds(4) [OF len] by (simp add: size1_def)
  let ?sz = "push_bit 24 (word_of_nat (size1 pn)) :: u32"
  have sz: "uint ?sz = int (size1 pn) * 2 ^ 24"
  proof -
    have "uint (word_of_nat (size1 pn) :: u32) = int (size1 pn)"
      using s by (simp add: unsigned_of_nat take_bit_nat_eq_self)
    then show ?thesis using s uint_push_bit_u32 [of "word_of_nat (size1 pn)" 24] by simp
  qed
  have "take_bit 23 c1 AND ?sz = 0" by (auto simp: bit_eq_iff bit_simps)
  then have "c1 OR ?sz = c1 + ?sz"
    unfolding t1 [symmetric] by (rule disjunctive_add_eq_or [symmetric])
  moreover have "uint (c1 + ?sz) = mantissa1 pn + int (size1 pn) * 2 ^ 24"
    using mantissa1_bounds [of pn] s sz c1 by (simp add: uint_word_ariths mod_pos_pos_trivial)
  moreover have "GetCompact pn False = Some (c1 OR ?sz)"
    using s assert1 high
    by (cases "2 ^ 23 \<le> mantissa0 pn")
      (simp_all add: GetCompact_def Let_def nbytes_def [symmetric] c0_def [symmetric] c1_def size1_def)
  ultimately show ?thesis by auto
qed

lemma floor_mult_le: "0 < B \<Longrightarrow> v div B * B \<le> v" for v B :: int
  using div_mult_mod_eq [of v B] pos_mod_sign [of B v] by linarith

lemma floor_mult_ge:
  fixes X v B :: int
  assumes "B dvd X" "X \<le> v" "0 < B"
  shows "X \<le> v div B * B"
proof -
  from assms(1) obtain q where q: "X = B * q" by (rule dvdE)
  have "X div B \<le> v div B" using assms(2,3) by (rule zdiv_mono1)
  then have "X div B * B \<le> v div B * B" using assms(3) by (intro mult_right_mono) simp_all
  then show ?thesis using q assms(3) by (simp add: mult.commute)
qed

lemma nbytes_unique:
  assumes "2 ^ (8 * n) \<le> uval pn" "uval pn < 2 ^ (8 * Suc n)"
  shows "nbytes pn = Suc n"
proof -
  have "(0::int) < 2 ^ (8 * n)" by simp
  with assms(1) have nz: "uval pn \<noteq> 0" by linarith
  have "(2::int) ^ (8 * n) < 2 ^ (8 * nbytes pn)"
    by (rule le_less_trans [OF assms(1) nbytes_bounds(1)])
  moreover have "(2::int) ^ (8 * (nbytes pn - 1)) < 2 ^ (8 * Suc n)"
    using nbytes_bounds(2) [OF nz] by (intro le_less_trans [OF _ assms(2)]) blast
  ultimately have "8 * n < 8 * nbytes pn" "8 * (nbytes pn - 1) < 8 * Suc n"
    by (simp_all only: power_strict_increasing_iff)
  then show ?thesis by simp
qed

lemma mantissa_floor:
  "(if size1 pn \<le> 3 then mantissa1 pn div 2 ^ (8 * (3 - size1 pn)) else mantissa1 pn) =
    uval pn div 2 ^ (8 * (size1 pn - 3))"
proof -
  let ?n = "nbytes pn"
  have split: "uval pn div 2 ^ a div 2 ^ b = uval pn div 2 ^ (a + b)" for a b :: nat
    by (simp add: power_add zdiv_zmult2_eq)
  have m0: "mantissa0 pn div 2 ^ (8 * (3 - ?n)) = uval pn" if "?n \<le> 3"
    using that by (simp add: mantissa0_def)
  consider (low) "\<not> 2 ^ 23 \<le> mantissa0 pn" "?n \<le> 3" | (low') "\<not> 2 ^ 23 \<le> mantissa0 pn" "?n > 3"
    | (high) "2 ^ 23 \<le> mantissa0 pn" "?n \<le> 2" | (high') "2 ^ 23 \<le> mantissa0 pn" "?n > 2" by linarith
  then show ?thesis
  proof cases
    case low
    then show ?thesis using m0 by (simp add: size1_def mantissa1_def)
  next
    case low'
    then show ?thesis by (simp add: size1_def mantissa1_def mantissa0_def)
  next
    case high
    have "mantissa0 pn div 2 ^ 8 div 2 ^ (8 * (3 - (?n + 1))) = mantissa0 pn div 2 ^ (8 + 8 * (3 - (?n + 1)))"
      by (simp add: power_add zdiv_zmult2_eq)
    also have "8 + 8 * (3 - (?n + 1)) = 8 * (3 - ?n)" using high by linarith
    finally show ?thesis using high m0 by (simp add: size1_def mantissa1_def)
  next
    case high'
    have "mantissa0 pn = uval pn div 2 ^ (8 * (?n - 3))"
      using high' by (cases "?n = 3") (simp_all add: mantissa0_def)
    moreover have "8 * (?n - 3) + 8 = 8 * (?n + 1 - 3)" using high' by linarith
    ultimately show ?thesis
      using high' split [of "8 * (?n - 3)" 8] by (simp add: size1_def mantissa1_def)
  qed
qed

lemma compact_precision:
  assumes "size1 pn > 3"
  shows "2 ^ 15 * 2 ^ (8 * (size1 pn - 3)) \<le> uval pn"
proof -
  let ?n = "nbytes pn"
  have nz: "uval pn \<noteq> 0" using assms nbytes_bounds(3) [of pn] by (auto simp: size1_def split: if_splits)
  show ?thesis
  proof (cases "2 ^ 23 \<le> mantissa0 pn")
    case True
    then have n: "3 \<le> ?n" using assms by (simp add: size1_def)
    then have m: "mantissa0 pn = uval pn div 2 ^ (8 * (?n - 3))" by (cases "?n = 3") (simp_all add: mantissa0_def)
    have "2 ^ 23 * 2 ^ (8 * (?n - 3)) \<le> mantissa0 pn * 2 ^ (8 * (?n - 3))"
      using True by (intro mult_right_mono) simp_all
    also have "\<dots> \<le> uval pn"
      unfolding m by (rule floor_mult_le) simp
    finally have "2 ^ 23 * 2 ^ (8 * (?n - 3)) \<le> uval pn" .
    moreover have "(2::int) ^ 15 * 2 ^ (8 * (size1 pn - 3)) = 2 ^ (15 + 8 * (size1 pn - 3))"
      "(2::int) ^ 23 * 2 ^ (8 * (?n - 3)) = 2 ^ (23 + 8 * (?n - 3))" by (simp_all only: power_add)
    moreover have "15 + 8 * (size1 pn - 3) = 23 + 8 * (?n - 3)" using True n by (simp add: size1_def)
    ultimately show ?thesis by simp
  next
    case False
    then have "15 + 8 * (size1 pn - 3) \<le> 8 * (?n - 1)" using assms by (simp add: size1_def)
    then have "(2::int) ^ (15 + 8 * (size1 pn - 3)) \<le> 2 ^ (8 * (?n - 1))" by (rule power_increasing) simp
    also have "\<dots> \<le> uval pn" using nbytes_bounds(2) [OF nz] by simp
    finally show ?thesis by (simp only: power_add)
  qed
qed

lemma compact_fields:
  assumes "uint c = m + int s * 2 ^ 24" "0 \<le> m" "m < 2 ^ 23"
  shows "compact_size c = s" "uint c mod 2 ^ 23 = m" "\<not> bit c 23"
proof -
  have "m div 2 ^ 24 = 0" using assms(2,3) by (intro div_pos_pos_trivial) simp_all
  then show "compact_size c = s" by (simp add: compact_size_def assms(1))
  have *: "m + int s * 2 ^ 24 = m + int s * 2 * 2 ^ 23" by simp
  show "uint c mod 2 ^ 23 = m"
    unfolding assms(1) * using assms(2,3) by (simp only: mod_mult_self1 mod_pos_pos_trivial)
  have "m div 2 ^ 23 = 0" using assms(2,3) by (intro div_pos_pos_trivial) simp_all
  then have "uint c div 2 ^ 23 = int s * 2" unfolding assms(1) * by (subst div_mult_self1) simp_all
  then show "\<not> bit c 23" using bit_uint_iff [of c 23] by (simp add: bit_iff_odd)
qed

text \<open>What survives the trip through the compact form: the number cut to the bytes the mantissa
  covers. The cut loses less than one part in \<open>2\<^sup>15\<close>.\<close>

definition compact_floor :: "limbs \<Rightarrow> int" where
  "compact_floor pn = uval pn div 2 ^ (8 * (size1 pn - 3)) * 2 ^ (8 * (size1 pn - 3))"

lemma compact_floor_le: "compact_floor pn \<le> uval pn"
  unfolding compact_floor_def by (rule floor_mult_le) simp

lemma compact_floor_nonneg: "0 \<le> compact_floor pn"
  by (simp add: compact_floor_def pos_imp_zdiv_nonneg_iff)

lemma compact_floor_loss: "(uval pn - compact_floor pn) * 2 ^ 15 \<le> uval pn"
proof (cases "size1 pn > 3")
  case True
  define B :: int where "B = 2 ^ (8 * (size1 pn - 3))"
  have "uval pn - compact_floor pn = uval pn mod B"
    by (simp add: compact_floor_def B_def minus_div_mult_eq_mod)
  also have "\<dots> < B" by (simp add: B_def)
  finally show ?thesis using compact_precision [OF True, folded B_def] by simp
qed (simp add: compact_floor_def)

lemma compact_floor_nbytes:
  assumes "uval t = compact_floor pn"
  shows "nbytes t = nbytes pn"
proof (cases "uval pn = 0")
  case True
  then show ?thesis using assms nbytes_bounds(3) [of t] nbytes_bounds(3) [of pn] by (simp add: compact_floor_def)
next
  case False
  note b = nbytes_bounds(2) [OF False]
  have "size1 pn - 3 \<le> nbytes pn - 1" by (auto simp: size1_def)
  then have "(2::int) ^ (8 * (size1 pn - 3)) dvd 2 ^ (8 * (nbytes pn - 1))"
    by (intro le_imp_power_dvd) simp
  then have "2 ^ (8 * (nbytes pn - 1)) \<le> uval t"
    unfolding assms compact_floor_def using b by (intro floor_mult_ge) simp_all
  moreover have "uval t < 2 ^ (8 * Suc (nbytes pn - 1))"
    using compact_floor_le [of pn] nbytes_bounds(1) [of pn] b assms by simp
  ultimately show ?thesis using nbytes_unique [of "nbytes pn - 1" t] b by simp
qed

lemma compact_floor_mantissa:
  assumes t: "uval t = compact_floor pn"
  shows "mantissa1 t = mantissa1 pn" "size1 t = size1 pn"
proof -
  note n = compact_floor_nbytes [OF t]
  define A :: int where "A = 2 ^ (8 * (nbytes pn - 3))"
  have A: "0 < A" by (simp add: A_def)
  consider (exact) "size1 pn \<le> 3" | (low) "size1 pn > 3" "\<not> 2 ^ 23 \<le> mantissa0 pn"
    | (high) "size1 pn > 3" "2 ^ 23 \<le> mantissa0 pn" by linarith
  then have "(2 ^ 23 \<le> mantissa0 t \<longleftrightarrow> 2 ^ 23 \<le> mantissa0 pn) \<and> mantissa1 t = mantissa1 pn"
  proof cases
    case exact
    then have "mantissa0 t = mantissa0 pn" using t by (simp add: mantissa0_def n compact_floor_def)
    then show ?thesis by (simp add: mantissa1_def)
  next
    case low
    then have "uval t = uval pn div A * A" using t by (simp add: compact_floor_def size1_def A_def)
    then have "mantissa0 t = mantissa0 pn"
      using low A by (simp add: mantissa0_def n size1_def A_def [symmetric])
    then show ?thesis by (simp add: mantissa1_def)
  next
    case high
    then have three: "3 \<le> nbytes pn" by (simp add: size1_def)
    then have m: "mantissa0 u = uval u div A" if "nbytes u = nbytes pn" for u
      using that by (cases "nbytes pn = 3") (simp_all add: mantissa0_def A_def)
    have "8 * (size1 pn - 3) = 8 * (nbytes pn - 3) + 8" using high three by (simp add: size1_def)
    then have "(2::int) ^ (8 * (size1 pn - 3)) = A * 2 ^ 8" by (simp only: power_add A_def)
    then have "uval t = mantissa0 pn div 2 ^ 8 * 2 ^ 8 * A"
      using t m [of pn] by (simp add: compact_floor_def zdiv_zmult2_eq)
    then have mt: "mantissa0 t = mantissa0 pn div 2 ^ 8 * 2 ^ 8" using m [OF n] A by simp
    moreover have "2 ^ 23 \<le> mantissa0 pn div 2 ^ 8 * 2 ^ 8"
      by (rule floor_mult_ge) (use high in simp_all)
    ultimately show ?thesis using high by (simp add: mantissa1_def)
  qed
  then show "mantissa1 t = mantissa1 pn" "size1 t = size1 pn" by (auto simp: size1_def n)
qed

lemma GetCompact_SetCompact:
  assumes len: "length pn = 8"
  shows "\<exists>c t. GetCompact pn False = Some c \<and> SetCompact c = (t, False, False) \<and>
    length t = 8 \<and> uval t = compact_floor pn \<and> GetCompact t False = Some c"
proof -
  obtain c where c: "GetCompact pn False = Some c" "uint c = mantissa1 pn + int (size1 pn) * 2 ^ 24"
    using GetCompact_parts [OF len] by blast
  note f = compact_fields [OF c(2) mantissa1_bounds]
  have v: "compact_value c = compact_floor pn"
    using mantissa_floor [of pn] by (simp only: compact_value_def compact_word_def f compact_floor_def)
  have small: "compact_floor pn < 2 ^ 256"
    using compact_floor_le [of pn] uval_bound [of pn] len by simp
  obtain t n ov where s: "SetCompact c = (t, n, ov)" by (cases "SetCompact c")
  note sv = SetCompact_value [OF s]
  have t: "uval t = compact_floor pn"
    using sv(2) small compact_floor_nonneg [of pn] by (simp add: v mod_pos_pos_trivial)
  obtain c' where c': "GetCompact t False = Some c'" "uint c' = mantissa1 t + int (size1 t) * 2 ^ 24"
    using GetCompact_parts [OF sv(1)] by blast
  then have "c' = c" using c(2) compact_floor_mantissa [OF t] by (simp only: word_uint_eq_iff)
  then show ?thesis using c(1) c'(1) s sv small f(3) t by (auto simp: v)
qed

section \<open>Properties\<close>

text \<open>Decoding a compact number gives the number the format denotes reduced modulo \<open>2\<^sup>256\<close>; the
  overflow flag is set exactly when that number does not fit in 256 bits, the negative flag exactly
  when the sign bit is set on a nonzero mantissa.\<close>

theorem SetCompact_decodes:
  assumes "SetCompact c = (t, fNegative, fOverflow)"
  shows "length t = 8 \<and> uval t = compact_value c mod 2 ^ 256 \<and>
    (fOverflow \<longleftrightarrow> 2 ^ 256 \<le> compact_value c) \<and> (fNegative \<longleftrightarrow> compact_word c \<noteq> 0 \<and> bit c 23)"
  using SetCompact_value [OF assms] by blast

theorem SetCompact_decodes_witness:
  "\<exists>t. SetCompact 0x1d00ffff = (t, False, False) \<and> uval t = 0xffff * 2 ^ 208"
proof -
  obtain t n ov where s: "SetCompact 0x1d00ffff = (t, n, ov)" by (cases "SetCompact 0x1d00ffff")
  from SetCompact_decodes [OF s] show ?thesis
    by (simp add: s compact_value_def compact_word_def compact_size_def bit_numeral_rec)
qed

text \<open>C34. Every 256-bit number has a compact form (neither assertion of \<open>GetCompact\<close> can fail) that
  decodes without flags to a number not above it and within one part in \<open>2\<^sup>15\<close> of it, and encoding
  the decoded number gives the same compact form again.\<close>

theorem compact_round_trip:
  assumes "length pn = 8"
  shows "\<exists>c t. GetCompact pn False = Some c \<and> SetCompact c = (t, False, False) \<and>
    uval t \<le> uval pn \<and> (uval pn - uval t) * 2 ^ 15 \<le> uval pn \<and> GetCompact t False = Some c"
  using GetCompact_SetCompact [OF assms] compact_floor_le [of pn] compact_floor_loss [of pn] by auto

theorem compact_round_trip_witness:
  "\<exists>c t. GetCompact [1, 2, 3, 4, 5, 6, 7, 8] False = Some c \<and> SetCompact c = (t, False, False) \<and>
    uval t \<le> uval [1, 2, 3, 4, 5, 6, 7, 8 :: u32]"
  using compact_round_trip [of "[1, 2, 3, 4, 5, 6, 7, 8]"] by auto

end
