(* ===== verification/Pow.thy ===== *)
theory Pow
  imports Compact "HOL-Library.Signed_Division"
begin

text \<open>
  Proof of work: \<open>src/src/pow.cpp\<close>, with \<open>GetBlockProof\<close> and \<open>GetBlockProofEquivalentTime\<close> of
  \<open>src/src/chain.cpp\<close>. A block index pointer is the list of the entries on its \<open>pprev\<close> path, the
  block itself first and the null pointer as the empty list. Heights and times are \<open>int\<close> and
  \<open>int64_t\<close> values far from their limits (\<open>nTime\<close> is a 32-bit field), so they are integers here;
  \<open>nBits\<close> and the 256-bit targets keep their widths. An assertion that fails and the
  \<open>uint_error\<close> that a division by zero raises are the two error values.
\<close>

section \<open>Model\<close>

datatype pow_error = PowAssert | UintError

record CBlockIndex =
  nHeight :: int
  nTime :: u32
  nBits :: u32

record PowParams =
  powLimit :: bytes
  fPowAllowMinDifficultyBlocks :: bool
  fPowNoRetargeting :: bool
  nPowTargetSpacing :: int
  nPowTargetWindow :: int

definition GetBlockTime :: "'a CBlockIndex_scheme \<Rightarrow> int" where
  "GetBlockTime pindex = uint (nTime pindex)"

definition UintToArith256 :: "bytes \<Rightarrow> limbs" where
  "UintToArith256 a = UintToArith 8 a"

definition compactE :: "limbs \<Rightarrow> pow_error + u32" where
  "compactE a = (case GetCompact a False of None \<Rightarrow> Inl PowAssert | Some c \<Rightarrow> Inr c)"

definition divE :: "limbs \<Rightarrow> u64 \<Rightarrow> pow_error + limbs" where
  "divE a b = (case div_uint a (base_uint_of_u64 8 b) of None \<Rightarrow> Inl UintError | Some q \<Rightarrow> Inr q)"

text \<open>
  The averaging loop of \<open>CalculateNextWorkRequired\<close> (pow.cpp, lines 59-71), from iteration
  \<open>nCountBlocks\<close> on, with \<open>todo\<close> iterations left; it returns the average and the block it stopped at.
\<close>

primrec avg_loop :: "nat \<Rightarrow> nat \<Rightarrow> limbs \<Rightarrow> CBlockIndex list \<Rightarrow> pow_error + limbs \<times> CBlockIndex list" where
  "avg_loop 0 nCountBlocks bnPastTargetAvg pindex = Inr (bnPastTargetAvg, pindex)"
| "avg_loop (Suc todo) nCountBlocks bnPastTargetAvg pindex =
     (let bnTarget = fst (SetCompact (nBits (hd pindex)))
      in bindE (if nCountBlocks = 1 then Inr bnTarget
                else divE (add_uint (mul32_uint bnPastTargetAvg (word_of_nat nCountBlocks)) bnTarget)
                       (ucast (word_of_nat nCountBlocks + 1 :: u32)))
           (\<lambda>avg. if todo = 0 then Inr (avg, pindex)
                  else if tl pindex = [] then Inl PowAssert
                  else avg_loop todo (nCountBlocks + 1) avg (tl pindex)))"

definition clamp_timespan :: "int \<Rightarrow> int \<Rightarrow> int" where
  "clamp_timespan nTargetTimespan nActualTimespan0 =
     (let nActualTimespan1 = (if nActualTimespan0 < nTargetTimespan sdiv 3
                              then nTargetTimespan sdiv 3 else nActualTimespan0)
      in if nActualTimespan1 > nTargetTimespan * 3 then nTargetTimespan * 3 else nActualTimespan1)"

definition CalculateNextWorkRequired :: "CBlockIndex list \<Rightarrow> PowParams \<Rightarrow> pow_error + u32" where
  "CalculateNextWorkRequired pindexLast params =
     (let bnPowLimit = UintToArith256 (powLimit params);
          nPastBlocks = nPowTargetWindow params
      in if pindexLast = [] \<or> nHeight (hd pindexLast) < nPastBlocks then compactE bnPowLimit
         else bindE (avg_loop (nat nPastBlocks) 1 (base_uint_zero 8) pindexLast) (\<lambda>(bnPastTargetAvg, pindex).
           let nTargetTimespan = nPastBlocks * nPowTargetSpacing params;
               nActualTimespan = clamp_timespan nTargetTimespan
                                   (GetBlockTime (hd pindexLast) - GetBlockTime (hd pindex))
           in bindE (divE (mul32_uint bnPastTargetAvg (word_of_int nActualTimespan))
                        (word_of_int nTargetTimespan))
                (\<lambda>bnNew. compactE (if CompareTo bnNew bnPowLimit > 0 then bnPowLimit else bnNew))))"

definition GetNextWorkRequired :: "CBlockIndex list \<Rightarrow> CBlockIndex \<Rightarrow> PowParams \<Rightarrow> pow_error + u32" where
  "GetNextWorkRequired pindexLast pblock params =
     (if pindexLast = [] then Inl PowAssert
      else if fPowNoRetargeting params then Inr (nBits (hd pindexLast))
      else let bnPowLimit = UintToArith256 (powLimit params)
           in if fPowAllowMinDifficultyBlocks params \<and>
                 GetBlockTime pblock > GetBlockTime (hd pindexLast) + nPowTargetSpacing params * 5
              then let bnNew = mul32_uint (fst (SetCompact (nBits (hd pindexLast)))) 10
                   in if CompareTo bnNew bnPowLimit > 0 then compactE bnPowLimit else compactE bnNew
              else if fPowAllowMinDifficultyBlocks params \<and>
                 GetBlockTime pblock > GetBlockTime (hd pindexLast) + nPowTargetSpacing params * 30
              then compactE bnPowLimit
              else CalculateNextWorkRequired pindexLast params)"

definition CheckProofOfWork :: "bytes \<Rightarrow> u32 \<Rightarrow> PowParams \<Rightarrow> bool" where
  "CheckProofOfWork hash bits32 params =
     (case SetCompact bits32 of (bnTarget, fNegative, fOverflow) \<Rightarrow>
        if fNegative \<or> EqualTo bnTarget 0 \<or> fOverflow \<or>
           CompareTo bnTarget (UintToArith256 (powLimit params)) > 0 then False
        else if CompareTo (UintToArith256 hash) bnTarget > 0 then False
        else True)"

definition GetBlockProof :: "u32 \<Rightarrow> limbs option" where
  "GetBlockProof bits32 =
     (case SetCompact bits32 of (bnTarget, fNegative, fOverflow) \<Rightarrow>
        if fNegative \<or> fOverflow \<or> EqualTo bnTarget 0 then Some (base_uint_of_u64 8 0)
        else map_option (\<lambda>q. add_uint q (base_uint_of_u64 8 1))
               (div_uint (compl_uint bnTarget) (add_uint bnTarget (base_uint_of_u64 8 1))))"

text \<open>The last line multiplies an \<open>int\<close> with a \<open>uint64_t\<close>: the product is unsigned and wraps, and
  its conversion to \<open>int64_t\<close> gives the sign back.\<close>

definition GetBlockProofEquivalentTime :: "limbs \<Rightarrow> limbs \<Rightarrow> u32 \<Rightarrow> PowParams \<Rightarrow> int option" where
  "GetBlockProofEquivalentTime to_work from_work tip_nBits params =
     (let (r0, sign) = (if CompareTo to_work from_work > 0 then (sub_uint to_work from_work, 1)
                        else (sub_uint from_work to_work, - 1))
      in Option.bind (GetBlockProof tip_nBits) (\<lambda>proof_tip.
           map_option (\<lambda>r. if bits r > 63 then sign * (2 ^ 63 - 1)
                           else sint (word_of_int sign * GetLow64 r))
             (div_uint (mul_uint r0 (base_uint_of_u64 8 (word_of_int (nPowTargetSpacing params)))) proof_tip)))"

section \<open>Checking a block's hash\<close>

lemma uval_UintToArith: "length a = 4 * w \<Longrightarrow> uval (UintToArith w a) = uval a"
proof (induction w arbitrary: a)
  case (Suc w)
  have "UintToArith (Suc w) a = ReadLE32 a # UintToArith w (drop 4 a)"
    by (simp add: UintToArith_def upt_conv_Cons map_Suc_upt [symmetric] add.commute del: upt_Suc)
  moreover have "uval a = uval (take 4 a) + 2 ^ 32 * uval (drop 4 a)"
    using uval_append [of "take 4 a" "drop 4 a"] Suc.prems by simp
  ultimately show ?case using Suc.IH [of "drop 4 a"] Suc.prems by (simp add: uval_Cons uint_ReadLE32)
qed (simp add: UintToArith_def)

lemma UintToArith256_simps [simp]:
  "length (UintToArith256 a) = 8" "length a = 32 \<Longrightarrow> uval (UintToArith256 a) = uval a"
  by (simp_all add: UintToArith256_def uval_UintToArith) (simp add: UintToArith_def)

lemma compact_value_nonneg: "0 \<le> compact_value c"
  using compact_word_bounds [of c] by (simp add: compact_value_def)

lemma compact_value_eq_0_iff: "compact_value c = 0 \<longleftrightarrow> compact_word c = 0"
  by (simp add: compact_value_def)

lemma SetCompact_fits:
  assumes "SetCompact c = (t, fNegative, fOverflow)" "\<not> fOverflow"
  shows "uval t = compact_value c" "length t = 8"
  using SetCompact_value [OF assms(1)] assms(2) compact_value_nonneg [of c]
  by (simp_all add: mod_pos_pos_trivial)

lemma CheckProofOfWork_iff:
  assumes "length hash = 32" "length (powLimit params) = 32"
  shows "CheckProofOfWork hash c params \<longleftrightarrow> \<not> bit c 23 \<and> 0 < compact_value c \<and>
    compact_value c \<le> uval (powLimit params) \<and> uval hash \<le> compact_value c"
proof -
  obtain t n ov where s: "SetCompact c = (t, n, ov)" by (cases "SetCompact c")
  note sv = SetCompact_value [OF s]
  have lim: "uval (powLimit params) < 2 ^ 256" using uval_bound [of "powLimit params"] assms by simp
  have pos: "0 < compact_value c \<longleftrightarrow> compact_word c \<noteq> 0"
    using compact_value_nonneg [of c] compact_value_eq_0_iff [of c] by linarith
  show ?thesis
  proof (cases ov)
    case True
    then show ?thesis using sv(3) lim by (auto simp: CheckProofOfWork_def s)
  next
    case False
    note t = SetCompact_fits [OF s False]
    show ?thesis
      using False sv(4) t assms pos
      by (auto simp: CheckProofOfWork_def s CompareTo_gt_iff EqualTo_iff compact_value_eq_0_iff not_less)
  qed
qed

section \<open>Block proof\<close>

text \<open>The expected number of hashes behind a target: \<open>2\<^sup>256 / (target + 1)\<close>, although the code cannot
  represent \<open>2\<^sup>256\<close>.\<close>

lemma div_compl_plus_1:
  fixes t M :: int
  assumes "0 \<le> t" "t < M"
  shows "(M - 1 - t) div (t + 1) + 1 = M div (t + 1)"
proof -
  have "M div (t + 1) = ((M - 1 - t) + 1 * (t + 1)) div (t + 1)" by simp
  also have "\<dots> = (M - 1 - t) div (t + 1) + 1" using assms by (subst div_mult_self1) simp_all
  finally show ?thesis ..
qed

lemma compact_value_not_max: "\<not> 2 ^ 256 \<le> compact_value c \<Longrightarrow> compact_value c + 1 < 2 ^ 256"
proof (rule ccontr)
  assume a: "\<not> 2 ^ 256 \<le> compact_value c" "\<not> compact_value c + 1 < 2 ^ 256"
  then have v: "compact_value c = 2 ^ 256 - 1" by linarith
  show False
  proof (cases "compact_size c \<le> 3")
    case True
    then show False using v compact_word_bounds [of c] by (simp add: compact_value_def)
  next
    case False
    then have "even (compact_value c)" by (simp add: compact_value_def)
    then show False by (simp add: v)
  qed
qed

lemma GetBlockProof_value:
  "\<exists>r. GetBlockProof c = Some r \<and> length r = 8 \<and>
     uval r = (if bit c 23 \<or> compact_value c = 0 \<or> 2 ^ 256 \<le> compact_value c then 0
               else 2 ^ 256 div (compact_value c + 1))"
proof -
  obtain t n ov where s: "SetCompact c = (t, n, ov)" by (cases "SetCompact c")
  note sv = SetCompact_value [OF s]
  show ?thesis
  proof (cases "n \<or> ov \<or> EqualTo t 0")
    case True
    then have "bit c 23 \<or> compact_value c = 0 \<or> 2 ^ 256 \<le> compact_value c"
      using sv SetCompact_fits(1) [OF s] by (auto simp: EqualTo_iff compact_value_eq_0_iff)
    then show ?thesis using True by (auto simp: GetBlockProof_def s base_uint_of_u64_value)
  next
    case False
    then have "\<not> ov" by simp
    note t = SetCompact_fits [OF s this]
    have nov: "\<not> 2 ^ 256 \<le> compact_value c" using False sv(3) by simp
    have pos: "0 < compact_value c"
      using False t compact_value_nonneg [of c] by (auto simp: EqualTo_iff)
    have plus1: "uval (add_uint t (base_uint_of_u64 8 1)) = compact_value c + 1"
      using compact_value_not_max [OF nov] pos
      by (simp add: add_uint_value base_uint_of_u64_value t mod_pos_pos_trivial)
    obtain q where q: "div_uint (compl_uint t) (add_uint t (base_uint_of_u64 8 1)) = Some q" "length q = 8"
      "uval q = (2 ^ 256 - 1 - compact_value c) div (compact_value c + 1)"
      using div_uint_value [of "compl_uint t" "add_uint t (base_uint_of_u64 8 1)"] plus1 t pos
      by (auto simp: compl_uint_value)
    have "uval q + 1 = 2 ^ 256 div (compact_value c + 1)"
      unfolding q(3) by (rule div_compl_plus_1) (use pos nov in auto)
    moreover have "2 ^ 256 div (compact_value c + 1) < 2 ^ 256" using pos by (intro int_div_less_self) simp_all
    moreover have "0 \<le> 2 ^ 256 div (compact_value c + 1)" using pos by (simp add: pos_imp_zdiv_nonneg_iff)
    ultimately have "uval (add_uint q (base_uint_of_u64 8 1)) = 2 ^ 256 div (compact_value c + 1)"
      by (simp add: add_uint_value base_uint_of_u64_value q(2) mod_pos_pos_trivial)
    moreover have "\<not> bit c 23" using False sv(4) pos compact_value_eq_0_iff [of c] by auto
    ultimately show ?thesis
      using False pos nov q(1,2) by (simp add: GetBlockProof_def s)
  qed
qed

section \<open>Retargeting\<close>

lemma compactE_value:
  assumes "length a = 8"
  obtains c t where "compactE a = Inr c" "SetCompact c = (t, False, False)" "uval t = compact_floor a"
  using GetCompact_SetCompact [OF assms] by (auto simp: compactE_def)

lemma divE_value:
  assumes "length a = 8" "b \<noteq> 0"
  obtains q where "divE a b = Inr q" "length q = 8" "uval q = uval a div uint b"
  using div_uint_value [of a "base_uint_of_u64 8 b"] assms
  by (auto simp: divE_def base_uint_of_u64_value unsigned_eq_0_iff)

lemma divE_length: "divE a b = Inr q \<Longrightarrow> length a = 8 \<Longrightarrow> length q = 8"
  using div_uint_None [of a "base_uint_of_u64 8 b"]
  by (cases "b = 0") (auto simp: divE_def base_uint_of_u64_value split: option.splits elim: divE_value [of a b])

lemma SetCompact_length [simp]: "length (fst (SetCompact c)) = 8"
  using SetCompact_value(1) [of c] by (cases "SetCompact c") simp

lemma avg_loop_length:
  "avg_loop todo n a chain = Inr (avg, rest) \<Longrightarrow> length a = 8 \<Longrightarrow> length avg = 8"
proof (induction todo arbitrary: n a chain)
  case (Suc todo)
  show ?case
    using Suc.prems
    by (auto simp: Let_def bindE_eq_Inr_iff divE_length split: if_splits dest!: Suc.IH dest: divE_length)
qed auto

text \<open>The weighted average on numbers: what the loop computes over the decoded targets.\<close>

fun avg_spec :: "int \<Rightarrow> int \<Rightarrow> int list \<Rightarrow> int" where
  "avg_spec n a [] = a"
| "avg_spec n a (t # ts) = avg_spec (n + 1) (if n = 1 then t else (a * n + t) mod 2 ^ 256 div (n + 1)) ts"

definition decoded_target :: "u32 \<Rightarrow> int" where
  "decoded_target c = compact_value c mod 2 ^ 256"

lemma uval_SetCompact: "uval (fst (SetCompact c)) = decoded_target c"
  using SetCompact_value(2) [of c] by (cases "SetCompact c") (simp add: decoded_target_def)

lemma avg_loop_spec:
  assumes "1 \<le> todo" "todo \<le> length chain" "1 \<le> n" "n + todo < 2 ^ 32" "length a = 8"
  shows "\<exists>avg. avg_loop todo n a chain = Inr (avg, drop (todo - 1) chain) \<and> length avg = 8 \<and>
    uval avg = avg_spec (int n) (uval a) (map (\<lambda>b. decoded_target (nBits b)) (take todo chain))"
  using assms
proof (induction todo arbitrary: n a chain)
  case (Suc todo)
  from Suc.prems obtain b chain' where chain: "chain = b # chain'" by (cases chain) auto
  define t where "t = fst (SetCompact (nBits b))"
  have t: "length t = 8" "uval t = decoded_target (nBits b)" by (simp_all add: t_def uval_SetCompact)
  have n: "uint (word_of_nat n :: u32) = int n" "uint (word_of_nat n + 1 :: u32) = int n + 1"
    using Suc.prems by (simp_all add: unsigned_of_nat take_bit_nat_eq_self uint_word_ariths mod_pos_pos_trivial)
  have un: "uint (ucast (word_of_nat n + 1 :: u32) :: u64) = int n + 1" by (simp add: n)
  have nz: "(ucast (word_of_nat n + 1 :: u32) :: u64) \<noteq> 0"
  proof
    assume "(ucast (word_of_nat n + 1 :: u32) :: u64) = 0"
    from un [unfolded this] show False by simp
  qed
  obtain avg where avg: "(if n = 1 then Inr t else divE (add_uint (mul32_uint a (word_of_nat n)) t)
      (ucast (word_of_nat n + 1 :: u32))) = Inr avg" "length avg = 8"
    "uval avg = (if n = 1 then uval t else (uval a * int n + uval t) mod 2 ^ 256 div (int n + 1))"
  proof (cases "n = 1")
    case False
    obtain q where "divE (add_uint (mul32_uint a (word_of_nat n)) t) (ucast (word_of_nat n + 1 :: u32)) = Inr q"
      "length q = 8" "uval q = uval (add_uint (mul32_uint a (word_of_nat n)) t) div (int n + 1)"
      using divE_value [OF _ nz] t Suc.prems un by (metis add_uint_length mul32_uint_length)
    then show ?thesis using that [of q] False t Suc.prems
      by (simp add: add_uint_value mul32_uint_value n mod_add_left_eq)
  qed (use that t in simp)
  show ?case
  proof (cases "todo = 0")
    case True
    then show ?thesis using avg t by (simp add: chain t_def [symmetric] bindE_def)
  next
    case False
    with Suc.prems chain have ne: "chain' \<noteq> []" by auto
    have pre: "1 \<le> todo" "todo \<le> length chain'" "1 \<le> n + 1" "n + 1 + todo < 2 ^ 32"
      using False Suc.prems by (simp_all add: chain)
    have step: "avg_loop (Suc todo) n a chain = avg_loop todo (n + 1) avg chain'"
      using avg(1) False ne by (simp add: chain t_def [symmetric] bindE_def)
    have "drop (Suc todo - 1) chain = drop (todo - 1) chain'"
      using False by (simp add: chain drop_Cons')
    moreover have "avg_spec (int n) (uval a) (map (\<lambda>b. decoded_target (nBits b)) (take (Suc todo) chain)) =
        avg_spec (int (n + 1)) (uval avg) (map (\<lambda>b. decoded_target (nBits b)) (take todo chain'))"
      by (cases "n = 1") (simp_all add: chain avg(3) t add.commute)
    ultimately show ?thesis unfolding step using Suc.IH [OF pre avg(2)] by presburger
  qed
qed simp

lemma avg_spec_bounds:
  assumes "\<forall>t\<in>set ts. lo \<le> t \<and> t \<le> hi" "n = 1 \<and> ts \<noteq> [] \<or> 1 < n \<and> lo \<le> a \<and> a \<le> hi" "0 \<le> lo"
    "hi * (n + int (length ts)) < 2 ^ 256"
  shows "lo \<le> avg_spec n a ts \<and> avg_spec n a ts \<le> hi"
  using assms
proof (induction n a ts rule: avg_spec.induct)
  case (2 n a t ts)
  have hi: "0 \<le> hi" "lo \<le> t" "t \<le> hi" using 2 by auto
  have len: "hi * (n + 1 + int (length ts)) < 2 ^ 256" using 2(5) by (simp add: algebra_simps)
  have "lo \<le> (a * n + t) mod 2 ^ 256 div (n + 1) \<and> (a * n + t) mod 2 ^ 256 div (n + 1) \<le> hi" if n: "n \<noteq> 1"
  proof -
    have a: "1 < n" "lo \<le> a" "a \<le> hi" using 2(3) n by auto
    have "a * n + t \<le> hi * n + hi" using a hi by (intro add_mono mult_right_mono) auto
    also have "\<dots> = hi * (n + 1)" by (simp add: algebra_simps)
    finally have up: "a * n + t \<le> hi * (n + 1)" .
    have "hi * (n + 1) \<le> hi * (n + 1 + int (length ts))" using hi by (intro mult_left_mono) auto
    with up len have "a * n + t < 2 ^ 256" by linarith
    moreover have lo: "lo * (n + 1) \<le> a * n + t"
      using add_mono [OF hi(2) mult_right_mono [OF a(2), of n]] a(1) by (simp add: algebra_simps)
    moreover have "0 \<le> lo * (n + 1)" using 2(4) a by simp
    ultimately have m: "(a * n + t) mod 2 ^ 256 = a * n + t" by (intro mod_pos_pos_trivial) linarith+
    show ?thesis unfolding m
      using zdiv_mono1 [OF lo, of "n + 1"] zdiv_mono1 [OF up, of "n + 1"] a by simp
  qed
  then show ?case
    using 2(1) [OF _ _ 2(4) len] 2(2,3) hi by (cases "n = 1") auto
qed auto

lemma clamp_timespan_max_min: "0 < T \<Longrightarrow> clamp_timespan T x = max (T div 3) (min (T * 3) x)"
  by (auto simp: clamp_timespan_def Let_def signed_divide_int_def max_def min_def)

text \<open>The next target before it is packed: the average times the clamped time span, reduced modulo
  \<open>2\<^sup>256\<close> by the multiplication, over the wanted time span.\<close>

definition next_target :: "CBlockIndex list \<Rightarrow> PowParams \<Rightarrow> int" where
  "next_target chain params =
     (let N = nat (nPowTargetWindow params);
          T = nPowTargetWindow params * nPowTargetSpacing params;
          avg = avg_spec 1 0 (map (\<lambda>b. decoded_target (nBits b)) (take N chain));
          ts = clamp_timespan T (GetBlockTime (hd chain) - GetBlockTime (chain ! (N - 1)))
      in min (uval (powLimit params)) (avg * ts mod 2 ^ 256 div T))"

definition pow_params_ok :: "PowParams \<Rightarrow> bool" where
  "pow_params_ok params \<longleftrightarrow> length (powLimit params) = 32 \<and> 0 < nPowTargetWindow params \<and>
     nPowTargetWindow params < 2 ^ 31 \<and> 0 < nPowTargetSpacing params \<and>
     nPowTargetWindow params * nPowTargetSpacing params * 3 < 2 ^ 32"

definition chain_reaches :: "CBlockIndex list \<Rightarrow> PowParams \<Rightarrow> bool" where
  "chain_reaches chain params \<longleftrightarrow> chain \<noteq> [] \<and> nPowTargetWindow params \<le> nHeight (hd chain) \<and>
     nPowTargetWindow params \<le> int (length chain)"

lemma CalculateNextWorkRequired_spec:
  assumes ok: "pow_params_ok params" and reach: "chain_reaches chain params"
  shows "\<exists>bnNew. length bnNew = 8 \<and> uval bnNew = next_target chain params \<and>
    CalculateNextWorkRequired chain params = compactE bnNew"
proof -
  define N where "N = nat (nPowTargetWindow params)"
  define T where "T = nPowTargetWindow params * nPowTargetSpacing params"
  have N: "1 \<le> N" "N \<le> length chain" "1 + N < 2 ^ 32"
    using ok reach by (auto simp: N_def pow_params_ok_def chain_reaches_def)
  have T: "0 < T" "T * 3 < 2 ^ 32" using ok by (auto simp: T_def pow_params_ok_def)
  define k where "k = N - 1"
  obtain avg where avg: "avg_loop N 1 (base_uint_zero 8) chain = Inr (avg, drop k chain)" "length avg = 8"
    "uval avg = avg_spec 1 0 (map (\<lambda>b. decoded_target (nBits b)) (take N chain))"
    using avg_loop_spec [OF N(1,2) _ N(3), of "base_uint_zero 8"] by (auto simp: base_uint_zero_def k_def)
  define x where "x = GetBlockTime (hd chain) - GetBlockTime (chain ! k)"
  define ts where "ts = clamp_timespan T x"
  have hd: "hd (drop k chain) = chain ! k" using N by (simp add: hd_drop_conv_nth k_def)
  have ts: "0 \<le> ts" "ts < 2 ^ 32" using T by (auto simp: ts_def clamp_timespan_max_min)
  have uT: "uint (word_of_int T :: u64) = T" using T by (simp add: uint_word_of_int mod_pos_pos_trivial)
  have uts: "uint (word_of_int ts :: u32) = ts" using ts by (simp add: uint_word_of_int mod_pos_pos_trivial)
  have nz: "(word_of_int T :: u64) \<noteq> 0" using T uT by (metis uint_0_eq less_irrefl)
  obtain q where q: "divE (mul32_uint avg (word_of_int ts)) (word_of_int T) = Inr q" "length q = 8"
    "uval q = uval avg * ts mod 2 ^ 256 div T"
    using divE_value [OF _ nz, of "mul32_uint avg (word_of_int ts)"] avg(2)
    by (auto simp: mul32_uint_value uT uts)
  have "CalculateNextWorkRequired chain params =
      compactE (if CompareTo q (UintToArith256 (powLimit params)) > 0 then UintToArith256 (powLimit params) else q)"
    using reach avg(1) q(1) hd
    by (simp add: CalculateNextWorkRequired_def chain_reaches_def bindE_def Let_def
        N_def [symmetric] T_def [symmetric] x_def [symmetric] ts_def [symmetric])
  moreover have "uval (if CompareTo q (UintToArith256 (powLimit params)) > 0 then UintToArith256 (powLimit params) else q) =
      next_target chain params"
    using ok q avg(3)
    by (auto simp: next_target_def Let_def N_def [symmetric] T_def [symmetric] x_def k_def ts_def
        CompareTo_gt_iff pow_params_ok_def)
  ultimately show ?thesis using q(2) by (intro exI conjI) auto
qed

lemma next_target_le: "next_target chain params \<le> uval (powLimit params)"
  by (simp add: next_target_def Let_def)

lemma next_target_bounds:
  fixes params :: PowParams and lo hi :: int
  assumes ok: "pow_params_ok params" and reach: "chain_reaches chain params"
    and range: "\<forall>b\<in>set (take (nat (nPowTargetWindow params)) chain).
        lo \<le> decoded_target (nBits b) \<and> decoded_target (nBits b) \<le> hi" and lo: "0 \<le> lo"
    and nov: "hi * (nPowTargetWindow params * nPowTargetSpacing params * 3) < 2 ^ 256"
      "hi * (nPowTargetWindow params + 1) < 2 ^ 256"
  shows "next_target chain params \<le> hi * 3"
    "min (uval (powLimit params))
       (lo * (nPowTargetWindow params * nPowTargetSpacing params div 3) div
         (nPowTargetWindow params * nPowTargetSpacing params)) \<le> next_target chain params"
proof -
  define N where "N = nat (nPowTargetWindow params)"
  define T where "T = nPowTargetWindow params * nPowTargetSpacing params"
  define avg where "avg = avg_spec 1 0 (map (\<lambda>b. decoded_target (nBits b)) (take N chain))"
  define ts where "ts = clamp_timespan T (GetBlockTime (hd chain) - GetBlockTime (chain ! (N - 1)))"
  have T: "0 < T" using ok by (auto simp: T_def pow_params_ok_def)
  have N: "take N chain \<noteq> []" "int (length (take N chain)) = nPowTargetWindow params"
    using ok reach by (auto simp: N_def chain_reaches_def pow_params_ok_def)
  have "lo \<le> avg \<and> avg \<le> hi"
    unfolding avg_def using range lo nov(2) N
    by (intro avg_spec_bounds) (auto simp: N_def [symmetric] add.commute)
  then have avg: "lo \<le> avg" "avg \<le> hi" by auto
  have ts: "T div 3 \<le> ts" "ts \<le> T * 3" "0 \<le> ts" using T by (auto simp: ts_def clamp_timespan_max_min)
  have up: "avg * ts \<le> hi * (T * 3)" using avg ts lo by (intro mult_mono) auto
  have "0 \<le> avg * ts" using avg ts lo by simp
  then have m: "avg * ts mod 2 ^ 256 = avg * ts"
    using up nov(1) by (intro mod_pos_pos_trivial) (simp_all add: T_def)
  have eq: "next_target chain params = min (uval (powLimit params)) (avg * ts div T)"
    by (simp only: next_target_def Let_def m [unfolded avg_def ts_def N_def T_def] avg_def ts_def N_def T_def)
  have "avg * ts div T \<le> hi * (T * 3) div T" using up T by (rule zdiv_mono1)
  then show "next_target chain params \<le> hi * 3" using T by (simp add: eq)
  have "lo * (T div 3) div T \<le> avg * ts div T"
    using avg ts lo T by (intro zdiv_mono1 mult_mono) (auto simp: pos_imp_zdiv_nonneg_iff)
  then show "min (uval (powLimit params))
       (lo * (nPowTargetWindow params * nPowTargetSpacing params div 3) div
         (nPowTargetWindow params * nPowTargetSpacing params)) \<le> next_target chain params"
    by (auto simp: eq T_def min_def)
qed

lemma compact_floor_mono_loss: "v \<le> uval a \<Longrightarrow> v * (2 ^ 15 - 1) \<le> compact_floor a * 2 ^ 15"
  using compact_floor_loss [of a] by simp

lemma compactE_limit:
  assumes "compactE a = Inr c" "length a = 8" "uval a \<le> L"
  shows "\<exists>t. SetCompact c = (t, False, False) \<and> uval t \<le> L"
  using compactE_value [OF assms(2)] compact_floor_le [of a] assms by (metis order_trans sum.inject(2))

lemma CompareTo_le_iff: "length pn = length b \<Longrightarrow> CompareTo pn b \<le> 0 \<longleftrightarrow> uval pn \<le> uval b"
  using CompareTo_gt_iff [of pn b] by linarith

lemma CalculateNextWorkRequired_limit:
  assumes "CalculateNextWorkRequired chain params = Inr c" "length (powLimit params) = 32"
  shows "\<exists>t. SetCompact c = (t, False, False) \<and> uval t \<le> uval (powLimit params)"
  using assms
  by (auto simp: CalculateNextWorkRequired_def Let_def bindE_eq_Inr_iff CompareTo_gt_iff CompareTo_le_iff
      avg_loop_length divE_length base_uint_zero_def not_less
      dest!: divE_length dest: avg_loop_length split: if_splits intro: compactE_limit)

lemma GetNextWorkRequired_cases:
  assumes "0 \<le> nPowTargetSpacing params"
  shows "GetNextWorkRequired pindexLast pblock params =
    (if pindexLast = [] then Inl PowAssert
     else if fPowNoRetargeting params then Inr (nBits (hd pindexLast))
     else if fPowAllowMinDifficultyBlocks params \<and>
             GetBlockTime pblock > GetBlockTime (hd pindexLast) + nPowTargetSpacing params * 5
     then compactE (let bnNew = mul32_uint (fst (SetCompact (nBits (hd pindexLast)))) 10
                    in if CompareTo bnNew (UintToArith256 (powLimit params)) > 0
                       then UintToArith256 (powLimit params) else bnNew)
     else CalculateNextWorkRequired pindexLast params)"
  using assms by (auto simp: GetNextWorkRequired_def Let_def)

lemma GetNextWorkRequired_limit:
  assumes "GetNextWorkRequired pindexLast pblock params = Inr c" "\<not> fPowNoRetargeting params"
    "length (powLimit params) = 32"
  shows "\<exists>t. SetCompact c = (t, False, False) \<and> uval t \<le> uval (powLimit params)"
  using assms CalculateNextWorkRequired_limit [of pindexLast params c]
  by (auto simp: GetNextWorkRequired_def Let_def CompareTo_gt_iff CompareTo_le_iff
      split: if_splits intro: compactE_limit)

section \<open>The main network\<close>

text \<open>The proof-of-work parameters of the main network (chainparams.cpp).\<close>

definition mainnet_pow :: PowParams where
  "mainnet_pow = \<lparr>powLimit = replicate 30 0xff @ [0x0a, 0x00], fPowAllowMinDifficultyBlocks = False,
     fPowNoRetargeting = False, nPowTargetSpacing = 150, nPowTargetWindow = 30\<rparr>"

text \<open>Thirty-one blocks with the same target, found in \<open>d\<close> seconds each.\<close>

definition slow_chain :: "u32 \<Rightarrow> u32 \<Rightarrow> CBlockIndex list" where
  "slow_chain d c = map (\<lambda>i. \<lparr>nHeight = 30 - int i, nTime = 1000000 + d * word_of_nat (30 - i), nBits = c\<rparr>) [0..<31]"

lemma avg_spec_const:
  assumes "0 \<le> t" "t * (int n + 1) < 2 ^ 256" "1 \<le> n"
  shows "avg_spec 1 0 (replicate n t) = t"
  using avg_spec_bounds [of "replicate n t" t t 1 0] assms by (auto simp: add.commute)

lemma uval_replicate_ff: "uval (replicate n (0xff :: byte)) = 2 ^ (8 * n) - 1"
  by (induction n) (simp_all add: uval_Cons power_add)

lemma decoded_limit: "decoded_target 0x1f0affff = 0x0affff * 2 ^ 224" "compact_value 0x1f0affff = 0x0affff * 2 ^ 224"
  by (simp_all add: decoded_target_def compact_value_def compact_word_def compact_size_def)

lemma slow_chain_target:
  "next_target (slow_chain 207 0x1f0affff) mainnet_pow = 0x0affff * 2 ^ 224 * 6003 mod 2 ^ 256 div 4500"
proof -
  have "avg_spec 1 0 (replicate 30 (0x0affff * 2 ^ 224)) = 0x0affff * 2 ^ 224"
    by (rule avg_spec_const) simp_all
  moreover have "take 30 (slow_chain 207 0x1f0affff) = map (\<lambda>i. \<lparr>nHeight = 30 - int i,
      nTime = 1000000 + 207 * word_of_nat (30 - i), nBits = 0x1f0affff\<rparr>) [0..<30]"
    by (simp add: slow_chain_def take_map)
  then have "map (\<lambda>b. decoded_target (nBits b)) (take 30 (slow_chain 207 0x1f0affff)) = replicate 30 (0x0affff * 2 ^ 224)"
    by (simp add: decoded_limit o_def map_replicate_const)
  moreover have "GetBlockTime (hd (slow_chain 207 0x1f0affff)) - GetBlockTime (slow_chain 207 0x1f0affff ! 29) = 6003"
    by (simp add: slow_chain_def hd_map GetBlockTime_def)
  moreover have "uval (powLimit mainnet_pow) = 11 * 2 ^ 240 - 1"
    by (simp add: mainnet_pow_def uval_append uval_Cons uval_replicate_ff)
  ultimately show ?thesis by (simp add: next_target_def mainnet_pow_def clamp_timespan_max_min)
qed

lemma slow_chain_ok: "pow_params_ok mainnet_pow" "chain_reaches (slow_chain d c) mainnet_pow"
  by (simp_all add: pow_params_ok_def mainnet_pow_def chain_reaches_def slow_chain_def hd_map)

lemma CalculateNextWorkRequired_decodes:
  assumes "pow_params_ok params" "chain_reaches chain params"
  obtains bnNew c t where "CalculateNextWorkRequired chain params = Inr c" "SetCompact c = (t, False, False)"
    "uval t = compact_floor bnNew" "uval bnNew = next_target chain params"
  using CalculateNextWorkRequired_spec [OF assms] compactE_value by metis

section \<open>Properties\<close>

text \<open>C3. A hash passes the proof-of-work check for a compact target exactly when the target it
  encodes is positive, within the network's limit and at least the hash, all as unbounded numbers: no
  overflow or sign of the compact form lets a hash through.\<close>

theorem CheckProofOfWork_correct:
  assumes "length hash = 32" "length (powLimit params) = 32"
  shows "CheckProofOfWork hash c params \<longleftrightarrow> \<not> bit c 23 \<and> 0 < compact_value c \<and>
    compact_value c \<le> uval (powLimit params) \<and> uval hash \<le> compact_value c"
  by (rule CheckProofOfWork_iff [OF assms])

theorem CheckProofOfWork_correct_witness:
  "CheckProofOfWork (replicate 30 0xff @ [0, 0]) 0x1f0affff mainnet_pow \<and>
   \<not> CheckProofOfWork (replicate 30 0xff @ [0x0a, 0]) 0x1f0affff mainnet_pow"
  using CheckProofOfWork_correct [of "replicate 30 0xff @ [0, 0]" mainnet_pow "0x1f0affff"]
    CheckProofOfWork_correct [of "replicate 30 0xff @ [0x0a, 0]" mainnet_pow "0x1f0affff"]
  by (simp add: mainnet_pow_def decoded_limit uval_append uval_Cons uval_replicate_ff bit_numeral_rec)

text \<open>C35. Whatever the chain, the target that the retargeting code asks for, when it computes one and retargeting is not switched off, is a valid
  compact number and never above the proof-of-work limit.\<close>

theorem GetNextWorkRequired_within_limit:
  assumes "GetNextWorkRequired pindexLast pblock params = Inr c" "\<not> fPowNoRetargeting params"
    "length (powLimit params) = 32"
  shows "\<exists>t. SetCompact c = (t, False, False) \<and> uval t \<le> uval (powLimit params)"
  by (rule GetNextWorkRequired_limit [OF assms])

theorem GetNextWorkRequired_within_limit_witness:
  "\<exists>c t. GetNextWorkRequired (slow_chain 207 0x1e00ffff) \<lparr>nHeight = 31, nTime = 1010000, nBits = 0\<rparr> mainnet_pow = Inr c \<and>
     SetCompact c = (t, False, False) \<and> uval t \<le> uval (powLimit mainnet_pow)"
proof -
  obtain c where "CalculateNextWorkRequired (slow_chain 207 0x1e00ffff) mainnet_pow = Inr c"
    using CalculateNextWorkRequired_decodes [OF slow_chain_ok] by metis
  then have c: "GetNextWorkRequired (slow_chain 207 0x1e00ffff) \<lparr>nHeight = 31, nTime = 1010000, nBits = 0\<rparr> mainnet_pow = Inr c"
    by (simp add: GetNextWorkRequired_def mainnet_pow_def slow_chain_def)
  then show ?thesis
    using GetNextWorkRequired_within_limit [OF c] by (auto simp: mainnet_pow_def)
qed

text \<open>When the targets of the window lie between \<open>lo\<close> and \<open>hi\<close> and \<open>hi\<close> leaves room for the
  multiplication by the time span, retargeting returns (no assertion and no division by zero), the new
  target is at most three times \<open>hi\<close> and at most the limit, and it is at least a third of \<open>lo\<close> up to
  the precision of the compact form.\<close>

theorem CalculateNextWorkRequired_bounds:
  fixes params :: PowParams and lo hi :: int
  assumes "pow_params_ok params" "chain_reaches chain params"
    "\<forall>b\<in>set (take (nat (nPowTargetWindow params)) chain).
        lo \<le> decoded_target (nBits b) \<and> decoded_target (nBits b) \<le> hi" "0 \<le> lo"
    "hi * (nPowTargetWindow params * nPowTargetSpacing params * 3) < 2 ^ 256"
    "hi * (nPowTargetWindow params + 1) < 2 ^ 256"
  shows "\<exists>c t. CalculateNextWorkRequired chain params = Inr c \<and> SetCompact c = (t, False, False) \<and>
    uval t \<le> uval (powLimit params) \<and> uval t \<le> hi * 3 \<and>
    min (uval (powLimit params))
       (lo * (nPowTargetWindow params * nPowTargetSpacing params div 3) div
         (nPowTargetWindow params * nPowTargetSpacing params)) * (2 ^ 15 - 1) \<le> uval t * 2 ^ 15"
proof -
  obtain bnNew c t where r: "CalculateNextWorkRequired chain params = Inr c" "SetCompact c = (t, False, False)"
    "uval t = compact_floor bnNew" "uval bnNew = next_target chain params"
    by (rule CalculateNextWorkRequired_decodes [OF assms(1,2)])
  note b = next_target_bounds [OF assms]
  show ?thesis
    using r compact_floor_le [of bnNew] b(1) next_target_le [of chain params]
      compact_floor_mono_loss [OF b(2) [folded r(4)]] by (intro exI conjI) auto
qed

theorem CalculateNextWorkRequired_bounds_witness:
  "\<exists>c t. CalculateNextWorkRequired (slow_chain 300 0x1e00ffff) mainnet_pow = Inr c \<and>
     SetCompact c = (t, False, False) \<and> uval t \<le> 0xffff * 2 ^ 216 * 3"
proof -
  have "\<forall>b\<in>set (take (nat (nPowTargetWindow mainnet_pow)) (slow_chain 300 0x1e00ffff)).
      0 \<le> decoded_target (nBits b) \<and> decoded_target (nBits b) \<le> 0xffff * 2 ^ 216"
    by (auto simp: slow_chain_def take_map decoded_target_def compact_value_def compact_word_def compact_size_def)
  from CalculateNextWorkRequired_bounds [OF slow_chain_ok this]
  show ?thesis by (auto simp: mainnet_pow_def)
qed

text \<open>On the main network the headroom of the previous property is missing: the limit is just below
  \<open>11 * 2\<^sup>240\<close>, and the multiplication by the time span (up to 13500) wraps modulo \<open>2\<^sup>256\<close>. A chain at
  the limit whose blocks come too slowly (207 seconds each instead of 150) gets a next target more than
  ninety times smaller, where an easier one is wanted.\<close>

theorem mainnet_retarget_wraps:
  "\<exists>c t. CalculateNextWorkRequired (slow_chain 207 0x1f0affff) mainnet_pow = Inr c \<and>
     SetCompact c = (t, False, False) \<and> uval t * 90 < decoded_target 0x1f0affff"
proof -
  obtain bnNew c t where r: "CalculateNextWorkRequired (slow_chain 207 0x1f0affff) mainnet_pow = Inr c"
    "SetCompact c = (t, False, False)" "uval t = compact_floor bnNew"
    "uval bnNew = next_target (slow_chain 207 0x1f0affff) mainnet_pow"
    by (rule CalculateNextWorkRequired_decodes [OF slow_chain_ok])
  then show ?thesis
    using compact_floor_le [of bnNew] by (intro exI conjI) (auto simp: slow_chain_target decoded_limit)
qed

text \<open>The work of a block is \<open>2\<^sup>256 / (target + 1)\<close>, computed without representing \<open>2\<^sup>256\<close> and
  without ever dividing by zero, and zero for a negative, zero or overflowing target.\<close>

theorem GetBlockProof_correct:
  "\<exists>r. GetBlockProof c = Some r \<and> length r = 8 \<and>
     uval r = (if bit c 23 \<or> compact_value c = 0 \<or> 2 ^ 256 \<le> compact_value c then 0
               else 2 ^ 256 div (compact_value c + 1))"
  by (rule GetBlockProof_value)

end
