(* ===== verification/ScriptNum.thy ===== *)
theory ScriptNum
  imports Prelude
begin

text \<open>
  Script numbers: \<open>CScriptNum\<close> of \<open>src/src/script/script.h\<close>. The \<open>int64_t\<close> member \<open>m_value\<close> is an
  integer, with the assertions of the arithmetic operators as error values; a \<open>scriptnum_error\<close> is
  \<open>None\<close>. The encoder and the decoder work on 64-bit words as the code does. The lemmas show that
  decoding inverts encoding, and that the minimality test accepts exactly the encoder's outputs.
\<close>

section \<open>Model\<close>

text \<open>The loop of \<open>CScriptNum::serialize\<close> that emits the bytes of the absolute value.\<close>

function serialize_loop :: "u64 \<Rightarrow> bytes" where
  "serialize_loop absvalue =
     (if absvalue = 0 then [] else ucast (absvalue AND 0xff) # serialize_loop (drop_bit 8 absvalue))"
  by auto
termination
proof (relation "measure unat", goal_cases)
  case (2 w)
  have "unat (drop_bit 8 w) = unat w div 256" by (simp add: drop_bit_eq_div unat_div)
  moreover have "0 < unat w" using 2 by (simp add: unat_gt_0)
  ultimately show ?case by simp
qed simp

declare serialize_loop.simps [simp del]

definition serialize :: "int \<Rightarrow> bytes" where
  "serialize value =
     (if value = 0 then []
      else let neg = value < 0;
               absvalue = (if neg then word_of_int (- value) else word_of_int value);
               result = serialize_loop absvalue
           in if last result AND 0x80 \<noteq> 0 then result @ [if neg then 0x80 else 0]
              else if neg then butlast result @ [last result OR 0x80]
              else result)"

definition set_vch :: "bytes \<Rightarrow> int" where
  "set_vch vch =
     (if vch = [] then 0
      else let result = foldl (\<lambda>r i. r OR push_bit (8 * i) (ucast (vch ! i))) (0 :: u64) [0..<length vch]
           in if last vch AND 0x80 \<noteq> 0
              then - sint (result AND NOT (push_bit (8 * (length vch - 1)) 0x80))
              else sint result)"

definition CScriptNum :: "bytes \<Rightarrow> bool \<Rightarrow> nat \<Rightarrow> int option" where
  "CScriptNum vch fRequireMinimal nMaxNumSize =
     (if length vch > nMaxNumSize then None
      else if fRequireMinimal \<and> length vch > 0 \<and> last vch AND 0x7f = 0 \<and>
              (length vch \<le> 1 \<or> vch ! (length vch - 2) AND 0x80 = 0) then None
      else Some (set_vch vch))"

abbreviation (input) nDefaultMaxNumSize :: nat where
  "nDefaultMaxNumSize \<equiv> 4"

definition num_getint :: "int \<Rightarrow> int" where
  "num_getint m_value = (if m_value > 2 ^ 31 - 1 then 2 ^ 31 - 1
     else if m_value < - (2 ^ 31) then - (2 ^ 31) else m_value)"

definition num_getvch :: "int \<Rightarrow> bytes" where
  "num_getvch m_value = serialize m_value"

text \<open>The operators that assert: \<open>None\<close> where the assertion fails.\<close>

definition num_neg :: "int \<Rightarrow> int option" where
  "num_neg m_value = (if m_value = - (2 ^ 63) then None else Some (- m_value))"

definition num_add_assign :: "int \<Rightarrow> int \<Rightarrow> int option" where
  "num_add_assign m_value rhs =
     (if rhs = 0 \<or> (rhs > 0 \<and> m_value \<le> 2 ^ 63 - 1 - rhs) \<or> (rhs < 0 \<and> m_value \<ge> - (2 ^ 63) - rhs)
      then Some (m_value + rhs) else None)"

definition num_sub_assign :: "int \<Rightarrow> int \<Rightarrow> int option" where
  "num_sub_assign m_value rhs =
     (if rhs = 0 \<or> (rhs > 0 \<and> m_value \<ge> - (2 ^ 63) + rhs) \<or> (rhs < 0 \<and> m_value \<le> 2 ^ 63 - 1 + rhs)
      then Some (m_value - rhs) else None)"

section \<open>The byte loops\<close>

lemma uval_serialize_loop: "uval (serialize_loop w) = uint w"
proof (induction w rule: serialize_loop.induct)
  case (1 w)
  have "uint (ucast (w AND 0xff) :: byte) = uint w mod 256"
  proof -
    have "(0xff :: u64) = mask 8" by (simp add: mask_eq_decr_exp)
    then have "ucast (w AND 0xff) = (ucast w :: byte)"
      by (simp add: take_bit_eq_mask [symmetric] bit_eq_iff bit_simps)
    then show ?thesis by (simp add: unsigned_ucast_eq take_bit_eq_mod)
  qed
  moreover have "uint (drop_bit 8 w) = uint w div 256" by (simp add: drop_bit_eq_div uint_div)
  ultimately show ?case
    using 1 by (subst serialize_loop.simps) (simp add: uval_Cons)
qed

lemma serialize_loop_last: "w \<noteq> 0 \<Longrightarrow> serialize_loop w \<noteq> [] \<and> last (serialize_loop w) \<noteq> 0"
proof (induction w rule: serialize_loop.induct)
  case (1 w)
  show ?case
  proof (cases "drop_bit 8 w = 0")
    case True
    have "uval (serialize_loop w) = uint w" by (rule uval_serialize_loop)
    moreover have "serialize_loop w = [ucast (w AND 0xff)]"
      using 1 True by (subst serialize_loop.simps) (simp add: serialize_loop.simps [of 0])
    ultimately show ?thesis using 1(2) by (auto simp: uval_Cons unsigned_eq_0_iff)
  next
    case False
    then show ?thesis using 1 by (subst serialize_loop.simps, subst (2) serialize_loop.simps) simp
  qed
qed

text \<open>The decoder's fold is the little-endian value.\<close>

lemma or_push_bit_disjoint:
  fixes r :: u64
  assumes "uint r < 2 ^ n" "n + 8 \<le> 64"
  shows "uint (r OR push_bit n (ucast (b :: byte))) = uint r + uint b * 2 ^ n"
proof -
  have "r = take_bit n r"
  proof -
    have "uint (take_bit n r) = uint r" using assms(1) by (simp add: unsigned_take_bit_eq take_bit_int_eq_self)
    then show ?thesis by (simp only: word_uint_eq_iff)
  qed
  moreover have "take_bit n r AND push_bit n (ucast b) = 0" by (auto simp: bit_eq_iff bit_simps)
  ultimately have "r OR push_bit n (ucast b) = r + push_bit n (ucast b)"
    by (metis disjunctive_add_eq_or)
  moreover have "uint (push_bit n (ucast b :: u64)) = uint b * 2 ^ n"
  proof -
    have "uint b * 2 ^ n < 2 ^ 8 * 2 ^ n" using uint_bounded [of b] by simp
    also have "\<dots> \<le> 2 ^ 64" using assms(2) by (simp only: power_add [symmetric]) (rule power_increasing, simp_all)
    finally have "uint b * 2 ^ n < 2 ^ 64" .
    then show ?thesis
      by (simp only: unsigned_push_bit_eq) (simp add: take_bit_int_eq_self push_bit_eq_mult unsigned_ucast_eq
          take_bit_int_eq_self uint_bounded [THEN less_le_trans])
  qed
  moreover have "uint r + uint b * 2 ^ n < 2 ^ 64"
  proof -
    have "uint r + uint b * 2 ^ n < 2 ^ n + uint b * 2 ^ n" using assms(1) by simp
    also have "\<dots> = (uint b + 1) * 2 ^ n" by (simp add: algebra_simps)
    also have "\<dots> \<le> 2 ^ 8 * 2 ^ n" using uint_bounded [of b] by (intro mult_right_mono) simp_all
    also have "\<dots> \<le> 2 ^ 64" using assms(2) by (simp only: power_add [symmetric]) (rule power_increasing, simp_all)
    finally show ?thesis .
  qed
  ultimately show ?thesis by (simp add: uint_word_ariths mod_pos_pos_trivial)
qed

lemma uint_decode_fold:
  fixes vch :: bytes
  assumes "k \<le> length vch" "length vch \<le> 8"
  shows "uint (foldl (\<lambda>r i. r OR push_bit (8 * i) (ucast (vch ! i))) (0 :: u64) [0..<k]) = uval (take k vch)"
  using assms
proof (induction k)
  case (Suc k)
  have "uval (take k vch) < 2 ^ (8 * k)" using uval_bound [of "take k vch"] Suc.prems by simp
  then show ?case
    using Suc by (simp add: or_push_bit_disjoint take_Suc_conv_app_nth uval_append uval_Cons mult.commute)
qed simp

lemma sint_eq_uint_u64: "uint w < 2 ^ 63 \<Longrightarrow> sint w = uint w" for w :: u64
  using order_trans [of "- (2 ^ 63)" 0 "uint w"] by (simp only: sint_uint) (simp add: signed_take_bit_int_eq_self)

lemma and_80_iff: "b AND 0x80 \<noteq> 0 \<longleftrightarrow> bit b 7" for b :: byte
  using and_exp_eq_0_iff_not_bit [of b 7] by simp

lemma bit_7_iff: "bit b 7 \<longleftrightarrow> 128 \<le> uint b" for b :: byte
proof -
  have "bit b 7 \<longleftrightarrow> bit (uint b) 7" by (simp add: bit_uint_iff)
  also have "\<dots> \<longleftrightarrow> odd (uint b div 128)" by (simp add: bit_iff_odd)
  also have "odd (x div 128) \<longleftrightarrow> 128 \<le> x" if "0 \<le> x" "x < 256" for x :: int
    using that by presburger
  then have "odd (uint b div 128) \<longleftrightarrow> 128 \<le> uint b" using uint_bounded [of b] by simp
  finally show ?thesis .
qed

lemma and_7f: "uint (b AND 0x7f) = uint b mod 128" for b :: byte
proof -
  have "(0x7f :: byte) = mask 7" by (simp add: mask_eq_decr_exp)
  then have "b AND 0x7f = take_bit 7 b" by (simp only: take_bit_eq_mask)
  then show ?thesis by (simp only: unsigned_take_bit_eq) (simp add: take_bit_eq_mod)
qed

lemma uval_last: "vch \<noteq> [] \<Longrightarrow> uval vch = uval (butlast vch) + uint (last vch) * 2 ^ (8 * (length vch - 1))"
  for vch :: bytes
  using uval_append [of "butlast vch" "[last vch]"] by (simp add: uval_Cons mult.commute)

lemma set_vch_value:
  assumes "vch \<noteq> []" "length vch \<le> 7"
  shows "set_vch vch = (if bit (last vch) 7 then 2 ^ (8 * length vch - 1) - uval vch else uval vch)"
proof -
  define r where "r = foldl (\<lambda>r i. r OR push_bit (8 * i) (ucast (vch ! i))) (0 :: u64) [0..<length vch]"
  define n where "n = 8 * (length vch - 1)"
  have n: "8 * length vch - 1 = n + 7" "n + 7 < 63" using assms by (cases vch; simp add: n_def)+
  have r: "uint r = uval vch" using uint_decode_fold [of "length vch" vch] assms by (simp add: r_def)
  have "uval vch < 2 ^ (8 * length vch)" using uval_bound [of vch] by simp
  also have "(2::int) ^ (8 * length vch) \<le> 2 ^ 56" using assms by (intro power_increasing) auto
  finally have lt: "uint r < 2 ^ 56" by (simp add: r)
  have "push_bit n 0x80 = (push_bit (n + 7) 1 :: u64)"
    using n by (simp add: push_bit_eq_mult power_add)
  then have clear: "r AND NOT (push_bit n 0x80) = r - 2 ^ (n + 7)" if "bit r (n + 7)"
    using that unset_bit_eq [of "n + 7" r] by (simp add: unset_bit_def)
  have ge: "2 ^ (n + 7) \<le> uval vch" if "bit (last vch) 7"
  proof -
    have "2 ^ (n + 7) = 128 * (2 ^ n :: int)" by (simp add: power_add)
    also have "\<dots> \<le> uint (last vch) * 2 ^ n" using that by (intro mult_right_mono) (simp_all add: bit_7_iff)
    also have "\<dots> \<le> uval vch" using uval_last [OF assms(1)] by (simp add: n_def)
    finally show ?thesis .
  qed
  have bit: "bit r (n + 7)" if b: "bit (last vch) 7"
  proof -
    have "uval vch div 2 ^ n = uint (last vch)"
    proof -
      have "uval (butlast vch) < 2 ^ n" using uval_bound [of "butlast vch"] by (simp add: n_def)
      then show ?thesis by (simp add: uval_last [OF assms(1), folded n_def] div_pos_pos_trivial)
    qed
    then have "bit (uval vch) (n + 7) \<longleftrightarrow> bit (uint (last vch)) 7"
      by (simp add: bit_iff_odd power_add zdiv_zmult2_eq)
    then show ?thesis using b r bit_uint_iff [of r "n + 7"] bit_uint_iff [of "last vch" 7] by simp
  qed
  have *: "uint (r - 2 ^ (n + 7)) = uint r - 2 ^ (n + 7)" if "bit (last vch) 7"
  proof -
    have "(2 :: u64) ^ (n + 7) = push_bit (n + 7) 1" by (simp add: push_bit_eq_mult)
    then have "uint (2 ^ (n + 7) :: u64) = take_bit 64 (push_bit (n + 7) 1)" by (simp only: unsigned_push_bit_eq) simp
    also have "\<dots> = 2 ^ (n + 7)"
      using n power_strict_increasing [of "n + 7" 64 "2::int"] by (simp add: push_bit_eq_mult take_bit_int_eq_self)
    finally have "uint (2 ^ (n + 7) :: u64) = 2 ^ (n + 7)" .
    moreover have "(uval vch - 2 ^ (n + 7)) mod 2 ^ 64 = uval vch - 2 ^ (n + 7)"
    proof (rule mod_pos_pos_trivial)
      show "0 \<le> uval vch - 2 ^ (n + 7)" using ge [OF that] by simp
      have "uval vch - 2 ^ (n + 7) \<le> uval vch" by simp
      also have "\<dots> < 2 ^ 64" using lt r by simp
      finally show "uval vch - 2 ^ (n + 7) < 2 ^ 64" .
    qed
    ultimately show ?thesis using r by (simp add: uint_word_ariths)
  qed
  have neg: "sint (r AND NOT (push_bit n 0x80)) = uval vch - 2 ^ (n + 7)" if "bit (last vch) 7"
  proof -
    have "uint (r - 2 ^ (n + 7)) \<le> uint r" using * [OF that] by simp
    then have "uint (r - 2 ^ (n + 7)) < 2 ^ 63" using lt by simp
    then show ?thesis using * [OF that] r by (simp only: clear [OF bit [OF that]] sint_eq_uint_u64)
  qed
  have "set_vch vch = (if bit (last vch) 7 then - sint (r AND NOT (push_bit n 0x80)) else sint r)"
    using assms(1) by (simp add: set_vch_def Let_def r_def and_80_iff n_def)
  then show ?thesis using neg lt r n(1) by (simp add: sint_eq_uint_u64)
qed

section \<open>Round trips\<close>

lemma uval_no_trailing_zero:
  fixes xs ys :: bytes
  assumes "uval xs = uval ys" "xs = [] \<or> last xs \<noteq> 0" "ys = [] \<or> last ys \<noteq> 0"
  shows "xs = ys"
proof -
  have pad: "zs @ replicate k 0 = ws \<Longrightarrow> ws = [] \<or> last ws \<noteq> 0 \<Longrightarrow> k = 0" for zs ws :: bytes and k
    by (cases k) (auto simp: replicate_append_same [symmetric])
  have "xs = ys" if le: "length xs \<le> length ys" and eq: "uval xs = uval ys" and ys: "ys = [] \<or> last ys \<noteq> 0"
    for xs ys :: bytes
  proof -
    let ?z = "xs @ replicate (length ys - length xs) 0"
    have "uval ?z = uval ys" by (simp add: uval_append eq)
    then have "?z = ys" using le by (subst (asm) uval_inject) simp_all
    with pad [OF this ys] show ?thesis by simp
  qed
  from this [of xs ys] this [of ys xs] show ?thesis using assms by (cases "length xs \<le> length ys") auto
qed

lemma serialize_loop_unique:
  assumes "xs = [] \<or> last xs \<noteq> 0" "length xs \<le> 8"
  shows "serialize_loop (word_of_int (uval xs)) = xs"
proof -
  have "uval xs < 2 ^ 64"
    using uval_bound [of xs] power_increasing [of "8 * length xs" 64 "2::int"] assms(2) by simp
  then have u: "uval (serialize_loop (word_of_int (uval xs))) = uval xs"
    by (simp add: uval_serialize_loop uint_word_of_int mod_pos_pos_trivial)
  show ?thesis
    by (rule uval_no_trailing_zero [OF u _ assms(1)])
      (metis serialize_loop_last serialize_loop.simps)
qed

text \<open>The two shapes of an encoding: magnitude bytes whose top bit is free carry the sign there,
  others get a sign byte.\<close>

definition sign_encode :: "bool \<Rightarrow> bytes \<Rightarrow> bytes" where
  "sign_encode neg R =
     (if bit (last R) 7 then R @ [if neg then 0x80 else 0]
      else if neg then butlast R @ [last R OR 0x80] else R)"

lemma serialize_sign_encode:
  assumes "n \<noteq> 0"
  shows "serialize n = sign_encode (n < 0) (serialize_loop (word_of_int \<bar>n\<bar>))"
  using assms by (simp add: serialize_def sign_encode_def Let_def and_80_iff abs_if)

lemma uint_or_80: "\<not> bit b 7 \<Longrightarrow> uint (b OR 0x80) = uint b + 128 \<and> bit (b OR 0x80) 7" for b :: byte
proof -
  assume b: "\<not> bit b 7"
  have "b AND 0x80 = 0" using b and_80_iff [of b] by blast
  then have "b OR 0x80 = b + 0x80" by (rule disjunctive_add_eq_or [symmetric])
  moreover have "uint b < 128" using b by (simp add: bit_7_iff)
  ultimately have "uint (b OR 0x80) = uint b + 128" by (simp add: uint_word_ariths mod_pos_pos_trivial)
  then show ?thesis by (simp add: bit_7_iff)
qed

lemma sign_encode_props:
  assumes "R \<noteq> []" "length (sign_encode neg R) \<le> 7"
  shows "set_vch (sign_encode neg R) = (if neg then - uval R else uval R)"
proof (cases "bit (last R) 7")
  case True
  then show ?thesis
    using assms
    by (cases neg) (auto simp: sign_encode_def set_vch_value uval_append uval_Cons bit_7_iff power_add)
next
  case False
  note o = uint_or_80 [OF False]
  define m where "m = 8 * (length R - 1)"
  have "8 * length R - 1 = m + 7" using assms(1) by (cases R) (simp_all add: m_def)
  then have p: "(2::int) ^ (8 * length R - 1) = 128 * 2 ^ m" by (simp only: power_add) simp
  note u = uval_last [OF assms(1), folded m_def]
  have "uval (butlast R @ [last R OR 0x80]) = uval R + 128 * 2 ^ m"
    unfolding u using o by (simp add: uval_append uval_Cons m_def distrib_right distrib_left mult.commute)
  then show ?thesis
    using False assms o p by (cases neg) (auto simp: sign_encode_def set_vch_value)
qed

lemma sign_encode_length:
  assumes "uval R < 2 ^ (8 * k - 1)" "R \<noteq> []" "last R \<noteq> 0"
  shows "length (sign_encode neg R) \<le> k"
proof -
  have "uint (last R) \<noteq> 0" using assms(3) by (simp add: unsigned_eq_0_iff)
  then have "0 < uint (last R)" by (simp add: order_less_le)
  have ge: "uint (last R) * 2 ^ (8 * (length R - 1)) \<le> uval R" using uval_last [OF assms(2)] by simp
  have *: "j < 8 * k - 1" if "2 ^ j \<le> uval R" for j
    using that assms(1) by (meson le_less_trans power_strict_increasing_iff one_less_numeral_iff semiring_norm(76))
  show ?thesis
  proof (cases "bit (last R) 7")
    case True
    have "2 ^ (8 * (length R - 1) + 7) = 128 * (2 ^ (8 * (length R - 1)) :: int)" by (simp add: power_add)
    also have "\<dots> \<le> uint (last R) * 2 ^ (8 * (length R - 1))"
      using True by (intro mult_right_mono) (simp_all add: bit_7_iff)
    finally have "8 * (length R - 1) + 7 < 8 * k - 1" using ge by (intro *) linarith
    then show ?thesis using True by (simp add: sign_encode_def)
  next
    case False
    have "2 ^ (8 * (length R - 1)) \<le> uint (last R) * 2 ^ (8 * (length R - 1))"
      using \<open>0 < uint (last R)\<close> by simp
    then have "8 * (length R - 1) < 8 * k - 1" using ge by (intro *) linarith
    then show ?thesis using False assms(2) by (cases R) (auto simp: sign_encode_def)
  qed
qed

lemma sign_encode_nonempty: "R \<noteq> [] \<Longrightarrow> sign_encode neg R \<noteq> []"
  by (simp add: sign_encode_def)

lemma sign_encode_minimal:
  fixes neg :: bool
  assumes "R \<noteq> []" "last R \<noteq> 0"
  defines "v \<equiv> sign_encode neg R"
  shows "\<not> (last v AND 0x7f = 0 \<and> (length v \<le> 1 \<or> v ! (length v - 2) AND 0x80 = 0))"
proof (cases "bit (last R) 7")
  case True
  then have "v ! (length v - 2) = last R"
    using assms(1) by (simp add: v_def sign_encode_def nth_append last_conv_nth)
  then show ?thesis using True assms(1) and_80_iff [of "last R"] by (cases R) (auto simp: v_def sign_encode_def)
next
  case False
  have "uint (last R) \<noteq> 0" using assms(2) by (simp add: unsigned_eq_0_iff)
  moreover have "uint (last R) < 128" using False by (simp add: bit_7_iff)
  ultimately have m: "uint (last R) mod 128 \<noteq> 0" by (simp add: mod_pos_pos_trivial)
  have "uint (last v) mod 128 = uint (last R) mod 128"
    using False uint_or_80 [OF False] by (simp add: v_def sign_encode_def mod_add_self2)
  then have "uint (last v AND 0x7f) \<noteq> 0" using m by (simp only: and_7f) simp
  then show ?thesis by auto
qed

lemma CScriptNum_serialize:
  assumes "\<bar>n\<bar> < 2 ^ (8 * k - 1)" "k \<le> 7"
  shows "CScriptNum (serialize n) fRequireMinimal k = Some n"
proof (cases "n = 0")
  case True
  then show ?thesis by (simp add: serialize_def CScriptNum_def set_vch_def)
next
  case False
  define R where "R = serialize_loop (word_of_int \<bar>n\<bar>)"
  have "\<bar>n\<bar> < 2 ^ 64" using assms power_increasing [of "8 * k - 1" 64 "2::int"] by linarith
  then have u: "uint (word_of_int \<bar>n\<bar> :: u64) = \<bar>n\<bar>" by (simp add: uint_word_of_int mod_pos_pos_trivial)
  then have w: "(word_of_int \<bar>n\<bar> :: u64) \<noteq> 0" using False by (metis abs_eq_0_iff uint_0_eq)
  have R: "R \<noteq> []" "last R \<noteq> 0" "uval R = \<bar>n\<bar>"
    using serialize_loop_last [OF w] by (simp_all add: R_def uval_serialize_loop u)
  note s = serialize_sign_encode [OF False, folded R_def]
  have len: "length (sign_encode (n < 0) R) \<le> k" using sign_encode_length [OF _ R(1,2)] R(3) assms(1) by simp
  then have "set_vch (sign_encode (n < 0) R) = n" using sign_encode_props [OF R(1)] R(3) assms(2) by auto
  then show ?thesis
    unfolding s CScriptNum_def using len sign_encode_minimal [OF R(1,2), of "n < 0"] by auto
qed

lemma butlast_last_eq: "xs \<noteq> [] \<Longrightarrow> butlast xs @ [x] = xs \<longleftrightarrow> x = last xs"
  by (metis append_butlast_last_id last_snoc)

lemma minimal_sign_encode:
  assumes ne: "vch \<noteq> []"
    and minimal: "\<not> (last vch AND 0x7f = 0 \<and> (length vch \<le> 1 \<or> vch ! (length vch - 2) AND 0x80 = 0))"
  obtains R where "R \<noteq> []" "last R \<noteq> 0" "vch = sign_encode (bit (last vch) 7) R" "length R \<le> length vch"
proof (cases "last vch AND 0x7f = 0")
  case True
  then have long: "length vch > 1" and sec: "bit (vch ! (length vch - 2)) 7"
    using minimal and_80_iff [of "vch ! (length vch - 2)"] by auto
  have last: "last (butlast vch) = vch ! (length vch - 2)"
    using long by (cases vch rule: rev_cases) (auto simp: last_conv_nth nth_append)
  have m: "uint (last vch) mod 128 = 0" using True and_7f [of "last vch"] by simp
  have "x = 128" if "128 \<le> x" "x < 256" "x mod 128 = 0" for x :: int using that by presburger
  moreover have "uint (last vch) = 0" if "uint (last vch) < 128"
    using that m by (simp only: mod_pos_pos_trivial uint_ge_0)
  ultimately have "uint (last vch) = (if bit (last vch) 7 then 128 else 0)"
    using m uint_bounded [of "last vch", simplified] by (auto simp: bit_7_iff not_le)
  then have "last vch = (if bit (last vch) 7 then 0x80 else 0)"
    by (simp add: word_uint_eq_iff split: if_splits)
  then have "vch = sign_encode (bit (last vch) 7) (butlast vch)"
    using sec last ne by (simp add: sign_encode_def butlast_last_eq)
  moreover have "last (butlast vch) \<noteq> 0" using sec last by auto
  moreover have "butlast vch \<noteq> []" using long by (cases vch) auto
  ultimately show ?thesis using that [of "butlast vch"] by simp
next
  case False
  define R where "R = butlast vch @ [last vch AND 0x7f]"
  have nb: "\<not> bit (last vch AND 0x7f) 7" by (simp add: bit_7_iff and_7f not_le)
  have "(last vch AND 0x7f) OR 0x80 = last vch" if "bit (last vch) 7"
  proof -
    have "uint (last vch) mod 128 + 128 = uint (last vch)"
      using that uint_bounded [of "last vch"] by (simp add: bit_7_iff) presburger
    then show ?thesis using uint_or_80 [OF nb] and_7f [of "last vch"] by (simp only: word_uint_eq_iff)
  qed
  moreover have "last vch AND 0x7f = last vch" if "\<not> bit (last vch) 7"
  proof -
    have "uint (last vch) mod 128 = uint (last vch)"
      using that by (intro mod_pos_pos_trivial) (simp_all add: bit_7_iff)
    then show ?thesis by (simp only: word_uint_eq_iff and_7f)
  qed
  ultimately have "vch = sign_encode (bit (last vch) 7) R"
    using nb ne by (simp add: sign_encode_def R_def)
  moreover have "length R \<le> length vch" using ne by (cases vch) (simp_all add: R_def)
  ultimately show ?thesis using that [of R] False by (simp add: R_def)
qed

lemma serialize_CScriptNum:
  assumes "CScriptNum vch True k = Some n" "k \<le> 7"
  shows "serialize n = vch"
proof (cases "vch = []")
  case True
  then show ?thesis using assms by (simp add: CScriptNum_def set_vch_def serialize_def)
next
  case False
  then have min: "\<not> (last vch AND 0x7f = 0 \<and> (length vch \<le> 1 \<or> vch ! (length vch - 2) AND 0x80 = 0))"
    and n: "n = set_vch vch" and len: "length vch \<le> 7"
    using assms by (auto simp: CScriptNum_def split: if_splits)
  obtain R where R: "R \<noteq> []" "last R \<noteq> 0" "vch = sign_encode (bit (last vch) 7) R" "length R \<le> length vch"
    using minimal_sign_encode [OF False min] .
  have val: "n = (if bit (last vch) 7 then - uval R else uval R)"
    using sign_encode_props [OF R(1), of "bit (last vch) 7"] R(3) len n by simp
  have "uval R \<noteq> 0" using R(1,2) last_in_set [OF R(1)] by (auto simp: uval_eq_0_iff)
  then have pos: "0 < uval R" using uval_nonneg [of R] by linarith
  have "serialize n = sign_encode (n < 0) (serialize_loop (word_of_int \<bar>n\<bar>))"
    by (rule serialize_sign_encode) (use pos val in auto)
  also have "\<bar>n\<bar> = uval R" using val pos by auto
  also have "serialize_loop (word_of_int (uval R)) = R" using R len by (intro serialize_loop_unique) auto
  also have "(n < 0) = bit (last vch) 7" using val pos by auto
  finally show ?thesis using R(3) by simp
qed

lemma CScriptNum_mono:
  assumes "CScriptNum vch m k = Some n" "m' \<Longrightarrow> m"
  shows "CScriptNum vch m' k = Some n"
  using assms by (auto simp: CScriptNum_def split: if_splits)

lemma set_vch_bounds:
  assumes "length vch \<le> k" "k \<le> 7" "1 \<le> k"
  shows "\<bar>set_vch vch\<bar> < 2 ^ (8 * k - 1)"
proof (cases "vch = []")
  case False
  have e: "8 * length vch - 1 + 1 = 8 * length vch" using False by (cases vch) simp_all
  then have p: "(2::int) ^ (8 * length vch) = 2 * 2 ^ (8 * length vch - 1)"
    using power_add [of "2::int" "8 * length vch - 1" 1] by (simp add: mult.commute)
  have ge: "2 ^ (8 * length vch - 1) \<le> uval vch" if "bit (last vch) 7"
  proof -
    have "8 * length vch - 1 = 7 + 8 * (length vch - 1)" using False by (cases vch) simp_all
    then have "(2::int) ^ (8 * length vch - 1) = 128 * 2 ^ (8 * (length vch - 1))" by (simp only: power_add) simp
    also have "\<dots> \<le> uint (last vch) * 2 ^ (8 * (length vch - 1))"
      using that by (intro mult_right_mono) (simp_all add: bit_7_iff)
    also have "\<dots> \<le> uval vch" using uval_last [OF False] by simp
    finally show ?thesis .
  qed
  have lt: "uval vch < 2 ^ (8 * length vch - 1)" if "\<not> bit (last vch) 7"
  proof -
    have "uval vch < 2 ^ (8 * (length vch - 1)) + uint (last vch) * 2 ^ (8 * (length vch - 1))"
      using uval_last [OF False] uval_bound [of "butlast vch"] by simp
    also have "\<dots> = (uint (last vch) + 1) * 2 ^ (8 * (length vch - 1))" by (simp add: distrib_right)
    also have "\<dots> \<le> 2 ^ 7 * 2 ^ (8 * (length vch - 1))"
      using that by (intro mult_right_mono) (simp_all add: bit_7_iff)
    also have "\<dots> = 2 ^ (8 * length vch - 1)"
      using False by (subst power_add [symmetric]) (cases vch, simp_all)
    finally show ?thesis .
  qed
  have "uval vch < 2 ^ (8 * length vch)" using uval_bound [of vch] by simp
  then have "\<bar>set_vch vch\<bar> < 2 ^ (8 * length vch - 1)"
    using set_vch_value [OF False] assms ge lt p by (cases "bit (last vch) 7") auto
  also have "(2::int) ^ (8 * length vch - 1) \<le> 2 ^ (8 * k - 1)" using assms by (intro power_increasing) auto
  finally show ?thesis .
qed (simp add: set_vch_def)

lemma CScriptNum_bounds:
  assumes "CScriptNum vch m k = Some n" "k \<le> 7" "1 \<le> k"
  shows "\<bar>n\<bar> < 2 ^ (8 * k - 1)"
  using assms set_vch_bounds [of vch k] by (auto simp: CScriptNum_def split: if_splits)

lemma serialize_length:
  assumes "\<bar>n\<bar> < 2 ^ (8 * k - 1)" "k \<le> 7"
  shows "length (serialize n) \<le> k"
  using CScriptNum_serialize [OF assms, of False] by (auto simp: CScriptNum_def split: if_splits)

section \<open>Properties\<close>

text \<open>Encoding a script number and decoding it gives the number back, whether or not minimality is
  required: the encoder's output is always minimal.\<close>

theorem scriptnum_decode_encode:
  assumes "\<bar>n\<bar> < 2 ^ (8 * k - 1)" "k \<le> 7"
  shows "CScriptNum (serialize n) fRequireMinimal k = Some n"
  by (rule CScriptNum_serialize [OF assms])

theorem scriptnum_decode_encode_witness:
  "CScriptNum (serialize (- 255)) True 4 = Some (- 255)"
  using scriptnum_decode_encode [of "- 255" 4 True] by simp

text \<open>A byte string accepted as a minimally encoded number is the encoder's output on that number, so
  each number has exactly one accepted encoding (the malleability that the minimality rule removes).\<close>

theorem scriptnum_minimal_unique:
  assumes "CScriptNum vch True k = Some n" "k \<le> 7"
  shows "serialize n = vch"
  by (rule serialize_CScriptNum [OF assms])

theorem scriptnum_minimal_unique_witness:
  "CScriptNum [0xff, 0x80] True 4 = Some (- 255) \<and> serialize (- 255) = [0xff, 0x80]"
proof -
  have "CScriptNum [0xff, 0x80] True 4 = Some (- 255)"
    by (simp add: CScriptNum_def set_vch_value uval_Cons bit_7_iff)
  with scriptnum_minimal_unique [OF this] show ?thesis by simp
qed

end
