(* ===== verification/Script.thy ===== *)
theory Script
  imports ScriptNum "HOL-Library.Sublist"
begin

text \<open>
  Serialized scripts: the opcodes and \<open>CScript\<close> of \<open>src/src/script/script.h\<close> and
  \<open>src/src/script/script.cpp\<close>. A script is its byte list and an iterator \<open>pc\<close> is the suffix that
  remains from it; \<open>GetOp2\<close> returns whether it succeeded, the opcode, the pushed data and the new
  iterator (also after a failure, where some of the code's loops go on). Counters of type
  \<open>unsigned int\<close> are 32-bit words. The lemmas show that reading inverts building, that every loop
  makes progress, what the deletion of a pattern leaves, and bounds on the signature operation count.
\<close>

section \<open>Opcodes\<close>

abbreviation (input) OP_0 :: byte where "OP_0 \<equiv> 0x00"
abbreviation (input) OP_FALSE :: byte where "OP_FALSE \<equiv> OP_0"
abbreviation (input) OP_PUSHDATA1 :: byte where "OP_PUSHDATA1 \<equiv> 0x4c"
abbreviation (input) OP_PUSHDATA2 :: byte where "OP_PUSHDATA2 \<equiv> 0x4d"
abbreviation (input) OP_PUSHDATA4 :: byte where "OP_PUSHDATA4 \<equiv> 0x4e"
abbreviation (input) OP_1NEGATE :: byte where "OP_1NEGATE \<equiv> 0x4f"
abbreviation (input) OP_RESERVED :: byte where "OP_RESERVED \<equiv> 0x50"
abbreviation (input) OP_1 :: byte where "OP_1 \<equiv> 0x51"
abbreviation (input) OP_TRUE :: byte where "OP_TRUE \<equiv> OP_1"
abbreviation (input) OP_2 :: byte where "OP_2 \<equiv> 0x52"
abbreviation (input) OP_3 :: byte where "OP_3 \<equiv> 0x53"
abbreviation (input) OP_4 :: byte where "OP_4 \<equiv> 0x54"
abbreviation (input) OP_5 :: byte where "OP_5 \<equiv> 0x55"
abbreviation (input) OP_6 :: byte where "OP_6 \<equiv> 0x56"
abbreviation (input) OP_7 :: byte where "OP_7 \<equiv> 0x57"
abbreviation (input) OP_8 :: byte where "OP_8 \<equiv> 0x58"
abbreviation (input) OP_9 :: byte where "OP_9 \<equiv> 0x59"
abbreviation (input) OP_10 :: byte where "OP_10 \<equiv> 0x5a"
abbreviation (input) OP_11 :: byte where "OP_11 \<equiv> 0x5b"
abbreviation (input) OP_12 :: byte where "OP_12 \<equiv> 0x5c"
abbreviation (input) OP_13 :: byte where "OP_13 \<equiv> 0x5d"
abbreviation (input) OP_14 :: byte where "OP_14 \<equiv> 0x5e"
abbreviation (input) OP_15 :: byte where "OP_15 \<equiv> 0x5f"
abbreviation (input) OP_16 :: byte where "OP_16 \<equiv> 0x60"
abbreviation (input) OP_NOP :: byte where "OP_NOP \<equiv> 0x61"
abbreviation (input) OP_VER :: byte where "OP_VER \<equiv> 0x62"
abbreviation (input) OP_IF :: byte where "OP_IF \<equiv> 0x63"
abbreviation (input) OP_NOTIF :: byte where "OP_NOTIF \<equiv> 0x64"
abbreviation (input) OP_VERIF :: byte where "OP_VERIF \<equiv> 0x65"
abbreviation (input) OP_VERNOTIF :: byte where "OP_VERNOTIF \<equiv> 0x66"
abbreviation (input) OP_ELSE :: byte where "OP_ELSE \<equiv> 0x67"
abbreviation (input) OP_ENDIF :: byte where "OP_ENDIF \<equiv> 0x68"
abbreviation (input) OP_VERIFY :: byte where "OP_VERIFY \<equiv> 0x69"
abbreviation (input) OP_RETURN :: byte where "OP_RETURN \<equiv> 0x6a"
abbreviation (input) OP_TOALTSTACK :: byte where "OP_TOALTSTACK \<equiv> 0x6b"
abbreviation (input) OP_FROMALTSTACK :: byte where "OP_FROMALTSTACK \<equiv> 0x6c"
abbreviation (input) OP_2DROP :: byte where "OP_2DROP \<equiv> 0x6d"
abbreviation (input) OP_2DUP :: byte where "OP_2DUP \<equiv> 0x6e"
abbreviation (input) OP_3DUP :: byte where "OP_3DUP \<equiv> 0x6f"
abbreviation (input) OP_2OVER :: byte where "OP_2OVER \<equiv> 0x70"
abbreviation (input) OP_2ROT :: byte where "OP_2ROT \<equiv> 0x71"
abbreviation (input) OP_2SWAP :: byte where "OP_2SWAP \<equiv> 0x72"
abbreviation (input) OP_IFDUP :: byte where "OP_IFDUP \<equiv> 0x73"
abbreviation (input) OP_DEPTH :: byte where "OP_DEPTH \<equiv> 0x74"
abbreviation (input) OP_DROP :: byte where "OP_DROP \<equiv> 0x75"
abbreviation (input) OP_DUP :: byte where "OP_DUP \<equiv> 0x76"
abbreviation (input) OP_NIP :: byte where "OP_NIP \<equiv> 0x77"
abbreviation (input) OP_OVER :: byte where "OP_OVER \<equiv> 0x78"
abbreviation (input) OP_PICK :: byte where "OP_PICK \<equiv> 0x79"
abbreviation (input) OP_ROLL :: byte where "OP_ROLL \<equiv> 0x7a"
abbreviation (input) OP_ROT :: byte where "OP_ROT \<equiv> 0x7b"
abbreviation (input) OP_SWAP :: byte where "OP_SWAP \<equiv> 0x7c"
abbreviation (input) OP_TUCK :: byte where "OP_TUCK \<equiv> 0x7d"
abbreviation (input) OP_CAT :: byte where "OP_CAT \<equiv> 0x7e"
abbreviation (input) OP_SUBSTR :: byte where "OP_SUBSTR \<equiv> 0x7f"
abbreviation (input) OP_LEFT :: byte where "OP_LEFT \<equiv> 0x80"
abbreviation (input) OP_RIGHT :: byte where "OP_RIGHT \<equiv> 0x81"
abbreviation (input) OP_SIZE :: byte where "OP_SIZE \<equiv> 0x82"
abbreviation (input) OP_INVERT :: byte where "OP_INVERT \<equiv> 0x83"
abbreviation (input) OP_AND :: byte where "OP_AND \<equiv> 0x84"
abbreviation (input) OP_OR :: byte where "OP_OR \<equiv> 0x85"
abbreviation (input) OP_XOR :: byte where "OP_XOR \<equiv> 0x86"
abbreviation (input) OP_EQUAL :: byte where "OP_EQUAL \<equiv> 0x87"
abbreviation (input) OP_EQUALVERIFY :: byte where "OP_EQUALVERIFY \<equiv> 0x88"
abbreviation (input) OP_RESERVED1 :: byte where "OP_RESERVED1 \<equiv> 0x89"
abbreviation (input) OP_RESERVED2 :: byte where "OP_RESERVED2 \<equiv> 0x8a"
abbreviation (input) OP_1ADD :: byte where "OP_1ADD \<equiv> 0x8b"
abbreviation (input) OP_1SUB :: byte where "OP_1SUB \<equiv> 0x8c"
abbreviation (input) OP_2MUL :: byte where "OP_2MUL \<equiv> 0x8d"
abbreviation (input) OP_2DIV :: byte where "OP_2DIV \<equiv> 0x8e"
abbreviation (input) OP_NEGATE :: byte where "OP_NEGATE \<equiv> 0x8f"
abbreviation (input) OP_ABS :: byte where "OP_ABS \<equiv> 0x90"
abbreviation (input) OP_NOT :: byte where "OP_NOT \<equiv> 0x91"
abbreviation (input) OP_0NOTEQUAL :: byte where "OP_0NOTEQUAL \<equiv> 0x92"
abbreviation (input) OP_ADD :: byte where "OP_ADD \<equiv> 0x93"
abbreviation (input) OP_SUB :: byte where "OP_SUB \<equiv> 0x94"
abbreviation (input) OP_MUL :: byte where "OP_MUL \<equiv> 0x95"
abbreviation (input) OP_DIV :: byte where "OP_DIV \<equiv> 0x96"
abbreviation (input) OP_MOD :: byte where "OP_MOD \<equiv> 0x97"
abbreviation (input) OP_LSHIFT :: byte where "OP_LSHIFT \<equiv> 0x98"
abbreviation (input) OP_RSHIFT :: byte where "OP_RSHIFT \<equiv> 0x99"
abbreviation (input) OP_BOOLAND :: byte where "OP_BOOLAND \<equiv> 0x9a"
abbreviation (input) OP_BOOLOR :: byte where "OP_BOOLOR \<equiv> 0x9b"
abbreviation (input) OP_NUMEQUAL :: byte where "OP_NUMEQUAL \<equiv> 0x9c"
abbreviation (input) OP_NUMEQUALVERIFY :: byte where "OP_NUMEQUALVERIFY \<equiv> 0x9d"
abbreviation (input) OP_NUMNOTEQUAL :: byte where "OP_NUMNOTEQUAL \<equiv> 0x9e"
abbreviation (input) OP_LESSTHAN :: byte where "OP_LESSTHAN \<equiv> 0x9f"
abbreviation (input) OP_GREATERTHAN :: byte where "OP_GREATERTHAN \<equiv> 0xa0"
abbreviation (input) OP_LESSTHANOREQUAL :: byte where "OP_LESSTHANOREQUAL \<equiv> 0xa1"
abbreviation (input) OP_GREATERTHANOREQUAL :: byte where "OP_GREATERTHANOREQUAL \<equiv> 0xa2"
abbreviation (input) OP_MIN :: byte where "OP_MIN \<equiv> 0xa3"
abbreviation (input) OP_MAX :: byte where "OP_MAX \<equiv> 0xa4"
abbreviation (input) OP_WITHIN :: byte where "OP_WITHIN \<equiv> 0xa5"
abbreviation (input) OP_RIPEMD160 :: byte where "OP_RIPEMD160 \<equiv> 0xa6"
abbreviation (input) OP_SHA1 :: byte where "OP_SHA1 \<equiv> 0xa7"
abbreviation (input) OP_SHA256 :: byte where "OP_SHA256 \<equiv> 0xa8"
abbreviation (input) OP_HASH160 :: byte where "OP_HASH160 \<equiv> 0xa9"
abbreviation (input) OP_HASH256 :: byte where "OP_HASH256 \<equiv> 0xaa"
abbreviation (input) OP_CODESEPARATOR :: byte where "OP_CODESEPARATOR \<equiv> 0xab"
abbreviation (input) OP_CHECKSIG :: byte where "OP_CHECKSIG \<equiv> 0xac"
abbreviation (input) OP_CHECKSIGVERIFY :: byte where "OP_CHECKSIGVERIFY \<equiv> 0xad"
abbreviation (input) OP_CHECKMULTISIG :: byte where "OP_CHECKMULTISIG \<equiv> 0xae"
abbreviation (input) OP_CHECKMULTISIGVERIFY :: byte where "OP_CHECKMULTISIGVERIFY \<equiv> 0xaf"
abbreviation (input) OP_NOP1 :: byte where "OP_NOP1 \<equiv> 0xb0"
abbreviation (input) OP_CHECKLOCKTIMEVERIFY :: byte where "OP_CHECKLOCKTIMEVERIFY \<equiv> 0xb1"
abbreviation (input) OP_NOP2 :: byte where "OP_NOP2 \<equiv> OP_CHECKLOCKTIMEVERIFY"
abbreviation (input) OP_CHECKSEQUENCEVERIFY :: byte where "OP_CHECKSEQUENCEVERIFY \<equiv> 0xb2"
abbreviation (input) OP_NOP3 :: byte where "OP_NOP3 \<equiv> OP_CHECKSEQUENCEVERIFY"
abbreviation (input) OP_NOP4 :: byte where "OP_NOP4 \<equiv> 0xb3"
abbreviation (input) OP_NOP5 :: byte where "OP_NOP5 \<equiv> 0xb4"
abbreviation (input) OP_NOP6 :: byte where "OP_NOP6 \<equiv> 0xb5"
abbreviation (input) OP_NOP7 :: byte where "OP_NOP7 \<equiv> 0xb6"
abbreviation (input) OP_NOP8 :: byte where "OP_NOP8 \<equiv> 0xb7"
abbreviation (input) OP_NOP9 :: byte where "OP_NOP9 \<equiv> 0xb8"
abbreviation (input) OP_NOP10 :: byte where "OP_NOP10 \<equiv> 0xb9"
abbreviation (input) OP_SMALLINTEGER :: byte where "OP_SMALLINTEGER \<equiv> 0xfa"
abbreviation (input) OP_PUBKEYS :: byte where "OP_PUBKEYS \<equiv> 0xfb"
abbreviation (input) OP_PUBKEYHASH :: byte where "OP_PUBKEYHASH \<equiv> 0xfd"
abbreviation (input) OP_PUBKEY :: byte where "OP_PUBKEY \<equiv> 0xfe"
abbreviation (input) OP_INVALIDOPCODE :: byte where "OP_INVALIDOPCODE \<equiv> 0xff"
abbreviation (input) OP_ZEROCOINMINT :: byte where "OP_ZEROCOINMINT \<equiv> 0xc1"
abbreviation (input) OP_ZEROCOINSPEND :: byte where "OP_ZEROCOINSPEND \<equiv> 0xc2"
abbreviation (input) OP_SIGMAMINT :: byte where "OP_SIGMAMINT \<equiv> 0xc3"
abbreviation (input) OP_SIGMASPEND :: byte where "OP_SIGMASPEND \<equiv> 0xc4"
abbreviation (input) OP_LELANTUSMINT :: byte where "OP_LELANTUSMINT \<equiv> 0xc5"
abbreviation (input) OP_LELANTUSJMINT :: byte where "OP_LELANTUSJMINT \<equiv> 0xc6"
abbreviation (input) OP_LELANTUSJOINSPLIT :: byte where "OP_LELANTUSJOINSPLIT \<equiv> 0xc7"
abbreviation (input) OP_LELANTUSJOINSPLITPAYLOAD :: byte where "OP_LELANTUSJOINSPLITPAYLOAD \<equiv> 0xc9"
abbreviation (input) OP_ZEROCOINTOSIGMAREMINT :: byte where "OP_ZEROCOINTOSIGMAREMINT \<equiv> 0xc8"
abbreviation (input) OP_SPARKMINT :: byte where "OP_SPARKMINT \<equiv> 0xd1"
abbreviation (input) OP_SPARKSMINT :: byte where "OP_SPARKSMINT \<equiv> 0xd2"
abbreviation (input) OP_SPARKSPEND :: byte where "OP_SPARKSPEND \<equiv> 0xd3"
abbreviation (input) OP_EXCHANGEADDR :: byte where "OP_EXCHANGEADDR \<equiv> 0xe0"

definition op_names :: "(byte \<times> string) list" where
  "op_names = [
     (OP_0, ''0''), (OP_PUSHDATA1, ''OP_PUSHDATA1''), (OP_PUSHDATA2, ''OP_PUSHDATA2''),
     (OP_PUSHDATA4, ''OP_PUSHDATA4''), (OP_1NEGATE, ''-1''), (OP_RESERVED, ''OP_RESERVED''),
     (OP_1, ''1''), (OP_2, ''2''), (OP_3, ''3''),
     (OP_4, ''4''), (OP_5, ''5''), (OP_6, ''6''),
     (OP_7, ''7''), (OP_8, ''8''), (OP_9, ''9''),
     (OP_10, ''10''), (OP_11, ''11''), (OP_12, ''12''),
     (OP_13, ''13''), (OP_14, ''14''), (OP_15, ''15''),
     (OP_16, ''16''), (OP_NOP, ''OP_NOP''), (OP_VER, ''OP_VER''),
     (OP_IF, ''OP_IF''), (OP_NOTIF, ''OP_NOTIF''), (OP_VERIF, ''OP_VERIF''),
     (OP_VERNOTIF, ''OP_VERNOTIF''), (OP_ELSE, ''OP_ELSE''), (OP_ENDIF, ''OP_ENDIF''),
     (OP_VERIFY, ''OP_VERIFY''), (OP_RETURN, ''OP_RETURN''), (OP_TOALTSTACK, ''OP_TOALTSTACK''),
     (OP_FROMALTSTACK, ''OP_FROMALTSTACK''), (OP_2DROP, ''OP_2DROP''), (OP_2DUP, ''OP_2DUP''),
     (OP_3DUP, ''OP_3DUP''), (OP_2OVER, ''OP_2OVER''), (OP_2ROT, ''OP_2ROT''),
     (OP_2SWAP, ''OP_2SWAP''), (OP_IFDUP, ''OP_IFDUP''), (OP_DEPTH, ''OP_DEPTH''),
     (OP_DROP, ''OP_DROP''), (OP_DUP, ''OP_DUP''), (OP_NIP, ''OP_NIP''),
     (OP_OVER, ''OP_OVER''), (OP_PICK, ''OP_PICK''), (OP_ROLL, ''OP_ROLL''),
     (OP_ROT, ''OP_ROT''), (OP_SWAP, ''OP_SWAP''), (OP_TUCK, ''OP_TUCK''),
     (OP_CAT, ''OP_CAT''), (OP_SUBSTR, ''OP_SUBSTR''), (OP_LEFT, ''OP_LEFT''),
     (OP_RIGHT, ''OP_RIGHT''), (OP_SIZE, ''OP_SIZE''), (OP_INVERT, ''OP_INVERT''),
     (OP_AND, ''OP_AND''), (OP_OR, ''OP_OR''), (OP_XOR, ''OP_XOR''),
     (OP_EQUAL, ''OP_EQUAL''), (OP_EQUALVERIFY, ''OP_EQUALVERIFY''), (OP_RESERVED1, ''OP_RESERVED1''),
     (OP_RESERVED2, ''OP_RESERVED2''), (OP_1ADD, ''OP_1ADD''), (OP_1SUB, ''OP_1SUB''),
     (OP_2MUL, ''OP_2MUL''), (OP_2DIV, ''OP_2DIV''), (OP_NEGATE, ''OP_NEGATE''),
     (OP_ABS, ''OP_ABS''), (OP_NOT, ''OP_NOT''), (OP_0NOTEQUAL, ''OP_0NOTEQUAL''),
     (OP_ADD, ''OP_ADD''), (OP_SUB, ''OP_SUB''), (OP_MUL, ''OP_MUL''),
     (OP_DIV, ''OP_DIV''), (OP_MOD, ''OP_MOD''), (OP_LSHIFT, ''OP_LSHIFT''),
     (OP_RSHIFT, ''OP_RSHIFT''), (OP_BOOLAND, ''OP_BOOLAND''), (OP_BOOLOR, ''OP_BOOLOR''),
     (OP_NUMEQUAL, ''OP_NUMEQUAL''), (OP_NUMEQUALVERIFY, ''OP_NUMEQUALVERIFY''), (OP_NUMNOTEQUAL, ''OP_NUMNOTEQUAL''),
     (OP_LESSTHAN, ''OP_LESSTHAN''), (OP_GREATERTHAN, ''OP_GREATERTHAN''), (OP_LESSTHANOREQUAL, ''OP_LESSTHANOREQUAL''),
     (OP_GREATERTHANOREQUAL, ''OP_GREATERTHANOREQUAL''), (OP_MIN, ''OP_MIN''), (OP_MAX, ''OP_MAX''),
     (OP_WITHIN, ''OP_WITHIN''), (OP_RIPEMD160, ''OP_RIPEMD160''), (OP_SHA1, ''OP_SHA1''),
     (OP_SHA256, ''OP_SHA256''), (OP_HASH160, ''OP_HASH160''), (OP_HASH256, ''OP_HASH256''),
     (OP_CODESEPARATOR, ''OP_CODESEPARATOR''), (OP_CHECKSIG, ''OP_CHECKSIG''), (OP_CHECKSIGVERIFY, ''OP_CHECKSIGVERIFY''),
     (OP_CHECKMULTISIG, ''OP_CHECKMULTISIG''), (OP_CHECKMULTISIGVERIFY, ''OP_CHECKMULTISIGVERIFY''), (OP_NOP1, ''OP_NOP1''),
     (OP_CHECKLOCKTIMEVERIFY, ''OP_CHECKLOCKTIMEVERIFY''), (OP_CHECKSEQUENCEVERIFY, ''OP_CHECKSEQUENCEVERIFY''), (OP_NOP4, ''OP_NOP4''),
     (OP_NOP5, ''OP_NOP5''), (OP_NOP6, ''OP_NOP6''), (OP_NOP7, ''OP_NOP7''),
     (OP_NOP8, ''OP_NOP8''), (OP_NOP9, ''OP_NOP9''), (OP_NOP10, ''OP_NOP10''),
     (OP_INVALIDOPCODE, ''OP_INVALIDOPCODE''), (OP_ZEROCOINMINT, ''OP_ZEROCOINMINT''), (OP_ZEROCOINSPEND, ''OP_ZEROCOINSPEND''),
     (OP_SIGMAMINT, ''OP_SIGMAMINT''), (OP_SIGMASPEND, ''OP_SIGMASPEND''), (OP_ZEROCOINTOSIGMAREMINT, ''OP_ZEROCOINTOSIGMAREMINT''),
     (OP_LELANTUSMINT, ''OP_LELANTUSMINT''), (OP_LELANTUSJMINT, ''OP_LELANTUSJMINT''), (OP_LELANTUSJOINSPLIT, ''OP_LELANTUSJOINSPLIT''),
     (OP_LELANTUSJOINSPLITPAYLOAD, ''OP_LELANTUSJOINSPLITPAYLOAD''), (OP_SPARKMINT, ''OP_SPARKMINT''), (OP_SPARKSMINT, ''OP_SPARKSMINT''),
     (OP_SPARKSPEND, ''OP_SPARKSPEND''), (OP_EXCHANGEADDR, ''OP_EXCHANGEADDR'')
     ]"

definition GetOpName :: "byte \<Rightarrow> string" where
  "GetOpName opcode = (case map_of op_names opcode of Some name \<Rightarrow> name | None \<Rightarrow> ''OP_UNKNOWN'')"

abbreviation (input) MAX_SCRIPT_ELEMENT_SIZE :: nat where "MAX_SCRIPT_ELEMENT_SIZE \<equiv> 520"
abbreviation (input) MAX_OPS_PER_SCRIPT :: int where "MAX_OPS_PER_SCRIPT \<equiv> 201"
abbreviation (input) MAX_PUBKEYS_PER_MULTISIG :: int where "MAX_PUBKEYS_PER_MULTISIG \<equiv> 20"
abbreviation (input) MAX_SCRIPT_SIZE :: nat where "MAX_SCRIPT_SIZE \<equiv> 10000"

section \<open>Building scripts\<close>

text \<open>The bytes that \<open>operator<<(vector)\<close> and \<open>push_int64\<close> append.\<close>

definition push_vch :: "bytes \<Rightarrow> bytes" where
  "push_vch b =
     (if length b < 0x4c then word_of_nat (length b) # b
      else if length b \<le> 0xff then OP_PUSHDATA1 # word_of_nat (length b) # b
      else if length b \<le> 0xffff then OP_PUSHDATA2 # WriteLE16 (word_of_nat (length b)) @ b
      else OP_PUSHDATA4 # WriteLE32 (word_of_nat (length b)) @ b)"

definition push_int64 :: "int \<Rightarrow> bytes" where
  "push_int64 n =
     (if n = - 1 \<or> (n \<ge> 1 \<and> n \<le> 16) then [word_of_int (n + (uint OP_1 - 1))]
      else if n = 0 then [OP_0]
      else push_vch (serialize n))"

section \<open>Reading scripts\<close>

text \<open>The instructions whose operand is the rest of the script.\<close>

definition swallows_rest :: "byte \<Rightarrow> bool" where
  "swallows_rest opcode \<longleftrightarrow>
     opcode = OP_SIGMASPEND \<or> opcode = OP_SIGMAMINT \<or>
     opcode = OP_LELANTUSMINT \<or> opcode = OP_LELANTUSJMINT \<or> opcode = OP_LELANTUSJOINSPLIT \<or>
     opcode = OP_SPARKMINT \<or> opcode = OP_SPARKSMINT \<or> opcode = OP_SPARKSPEND"

text \<open>The operand size of a push instruction, with the iterator after it; \<open>None\<close> where it is cut off.\<close>

definition push_size :: "byte \<Rightarrow> bytes \<Rightarrow> (nat \<times> bytes) option" where
  "push_size opcode pc =
     (if opcode < OP_PUSHDATA1 then Some (unat opcode, pc)
      else if opcode = OP_PUSHDATA1 then
        if length pc < 1 then None else Some (unat (hd pc), tl pc)
      else if opcode = OP_PUSHDATA2 then
        if length pc < 2 then None else Some (unat (ReadLE16 pc), drop 2 pc)
      else if opcode = OP_PUSHDATA4 then
        if length pc < 4 then None else Some (unat (ReadLE32 pc), drop 4 pc)
      else Some (0, pc))"

definition GetOp2 :: "bytes \<Rightarrow> bool \<times> byte \<times> bytes \<times> bytes" where
  "GetOp2 pc =
     (case pc of
        [] \<Rightarrow> (False, OP_INVALIDOPCODE, [], [])
      | opcode # pc1 \<Rightarrow>
          if opcode \<le> OP_PUSHDATA4 then
            (case push_size opcode pc1 of
               None \<Rightarrow> (False, OP_INVALIDOPCODE, [], pc1)
             | Some (nSize, pc2) \<Rightarrow>
                 if length pc2 mod 2 ^ 32 < nSize then (False, OP_INVALIDOPCODE, [], pc2)
                 else (True, opcode, take nSize pc2, drop nSize pc2))
          else if swallows_rest opcode then (True, opcode, pc1, [])
          else (True, opcode, [], pc1))"

text \<open>\<open>None\<close> where the assertion fails.\<close>

definition DecodeOP_N :: "byte \<Rightarrow> int option" where
  "DecodeOP_N opcode =
     (if opcode = OP_0 then Some 0
      else if opcode \<ge> OP_1 \<and> opcode \<le> OP_16 then Some (uint opcode - (uint OP_1 - 1)) else None)"

definition EncodeOP_N :: "int \<Rightarrow> byte option" where
  "EncodeOP_N n =
     (if \<not> (n \<ge> 0 \<and> n \<le> 16) then None
      else if n = 0 then Some OP_0
      else Some (word_of_int (uint OP_1 + n - 1)))"

lemma push_size_length: "push_size opcode pc = Some (n, pc') \<Longrightarrow> length pc' \<le> length pc"
  by (auto simp: push_size_def split: if_splits)

text \<open>Every read of a nonempty rest consumes at least the opcode, also when it fails.\<close>

lemma GetOp2_progress: "GetOp2 pc = (ok, opcode, vch, rest) \<Longrightarrow> pc \<noteq> [] \<Longrightarrow> length rest < length pc"
  by (auto simp: GetOp2_def split: list.splits if_splits option.splits dest!: push_size_length)

lemma GetOp2_Nil [simp]: "GetOp2 [] = (False, OP_INVALIDOPCODE, [], [])"
  by (simp add: GetOp2_def)

lemma GetOp2_length: "GetOp2 pc = (ok, opcode, vch, rest) \<Longrightarrow> length rest \<le> length pc"
  using GetOp2_progress [of pc ok opcode vch rest] by (cases "pc = []") auto

lemma push_size_suffix: "push_size opcode pc = Some (n, pc') \<Longrightarrow> suffix pc' pc"
  by (auto simp: push_size_def suffix_drop suffix_tl split: if_splits)

text \<open>The iterator that a read leaves is a suffix of the one it started from.\<close>

lemma GetOp2_suffix: "GetOp2 pc = (ok, opcode, vch, rest) \<Longrightarrow> suffix rest pc"
  by (auto simp: GetOp2_def split: list.splits if_splits option.splits dest!: push_size_suffix
      simp: suffix_Cons intro: suffix_order.trans [OF suffix_drop])

section \<open>Deleting and finding\<close>

text \<open>The inner loop of \<open>FindAndDelete\<close>: skip the pattern as often as it matches.\<close>

function skip_matches :: "bytes \<Rightarrow> bytes \<Rightarrow> nat \<Rightarrow> bytes \<times> nat" where
  "skip_matches b pc nFound =
     (if b \<noteq> [] \<and> length pc \<ge> length b \<and> take (length b) pc = b
      then skip_matches b (drop (length b) pc) (nFound + 1) else (pc, nFound))"
  by auto
termination
  by (relation "measure (\<lambda>(b, pc, n). length pc)")
    (auto intro!: diff_less order.strict_trans2 [of 0 "length b" for b])

declare skip_matches.simps [simp del]

lemma skip_matches_length: "skip_matches b pc n = (pc', n') \<Longrightarrow> length pc' \<le> length pc"
proof (induction b pc n rule: skip_matches.induct)
  case (1 b pc n)
  then show ?case by (subst (asm) (2) skip_matches.simps) (auto split: if_splits)
qed

lemma find_loop_progress:
  assumes "(pc', n') = skip_matches b pc n" "(True, opcode, vch, rest) = GetOp2 pc'"
  shows "length rest < length pc"
  using skip_matches_length [OF assms(1) [symmetric]] GetOp2_progress [OF assms(2) [symmetric]] assms(2)
  by (cases "pc' = []") auto

text \<open>The outer loop: append the bytes read since the last match, skip matches, read an instruction.\<close>

function find_loop :: "bytes \<Rightarrow> bytes \<Rightarrow> bytes \<Rightarrow> bytes \<Rightarrow> nat \<Rightarrow> bytes \<times> bytes \<times> nat" where
  "find_loop b result pc2 pc nFound =
     (case skip_matches b pc nFound of (pc', nFound') \<Rightarrow>
        let result' = result @ take (length pc2 - length pc) pc2
        in case GetOp2 pc' of (ok, opcode, vch, rest) \<Rightarrow>
             if ok then find_loop b result' pc' rest nFound' else (result', pc', nFound'))"
  by auto
termination
  by (relation "measure (\<lambda>(b, r, pc2, pc, n). length pc)") (auto intro: find_loop_progress)

declare find_loop.simps [simp del]

definition FindAndDelete :: "bytes \<Rightarrow> bytes \<Rightarrow> nat \<times> bytes" where
  "FindAndDelete script b =
     (if b = [] then (0, script)
      else case find_loop b [] script script 0 of (result, pc2, nFound) \<Rightarrow>
        if nFound > 0 then (nFound, result @ pc2) else (nFound, script))"

function Find_op :: "byte \<Rightarrow> bytes \<Rightarrow> nat \<Rightarrow> nat" where
  "Find_op op pc nFound =
     (if pc = [] then nFound
      else case GetOp2 pc of (ok, opcode, vch, rest) \<Rightarrow>
        if ok then Find_op op rest (if opcode = op then nFound + 1 else nFound) else nFound)"
  by auto
termination by (relation "measure (\<lambda>(op, pc, n). length pc)") (auto dest: GetOp2_progress [OF sym])

declare Find_op.simps [simp del]

section \<open>Counting signature operations\<close>

function sigop_loop :: "bool \<Rightarrow> byte \<Rightarrow> u32 \<Rightarrow> bytes \<Rightarrow> u32" where
  "sigop_loop fAccurate lastOpcode n pc =
     (if pc = [] then n
      else case GetOp2 pc of (ok, opcode, vch, rest) \<Rightarrow>
        if \<not> ok then n
        else let n' = (if opcode = OP_CHECKSIG \<or> opcode = OP_CHECKSIGVERIFY then n + 1
                       else if opcode = OP_CHECKMULTISIG \<or> opcode = OP_CHECKMULTISIGVERIFY then
                         if fAccurate \<and> lastOpcode \<ge> OP_1 \<and> lastOpcode \<le> OP_16
                         then n + (case DecodeOP_N lastOpcode of Some d \<Rightarrow> word_of_int d | None \<Rightarrow> 0)
                         else n + word_of_int MAX_PUBKEYS_PER_MULTISIG
                       else n)
             in sigop_loop fAccurate opcode n' rest)"
  by auto
termination
  by (relation "measure (\<lambda>(f, l, n, pc). length pc)") (auto dest: GetOp2_progress [OF sym])

declare sigop_loop.simps [simp del]

definition GetSigOpCount :: "bytes \<Rightarrow> bool \<Rightarrow> u32" where
  "GetSigOpCount script fAccurate = sigop_loop fAccurate OP_INVALIDOPCODE 0 script"

definition IsPayToScriptHash :: "bytes \<Rightarrow> bool" where
  "IsPayToScriptHash s \<longleftrightarrow> length s = 23 \<and> s ! 0 = OP_HASH160 \<and> s ! 1 = 0x14 \<and> s ! 22 = OP_EQUAL"

text \<open>The last item that a script of pushes pushes; \<open>None\<close> where the code returns 0 early.\<close>

function last_push_loop :: "bytes \<Rightarrow> bytes \<Rightarrow> bytes option" where
  "last_push_loop pc vch =
     (if pc = [] then Some vch
      else case GetOp2 pc of (ok, opcode, vch', rest) \<Rightarrow>
        if \<not> ok then None else if opcode > OP_16 then None else last_push_loop rest vch')"
  by auto
termination
  by (relation "measure (\<lambda>(pc, v). length pc)") (auto dest: GetOp2_progress [OF sym])

declare last_push_loop.simps [simp del]

definition GetSigOpCount_P2SH :: "bytes \<Rightarrow> bytes \<Rightarrow> u32" where
  "GetSigOpCount_P2SH script scriptSig =
     (if \<not> IsPayToScriptHash script then GetSigOpCount script True
      else case last_push_loop scriptSig [] of None \<Rightarrow> 0 | Some subscript \<Rightarrow> GetSigOpCount subscript True)"

section \<open>Classifying scripts\<close>

function normal_loop :: "bytes \<Rightarrow> nat \<Rightarrow> bool" where
  "normal_loop pc i =
     (if pc = [] then True
      else case GetOp2 pc of (ok, opcode, vch, rest) \<Rightarrow>
        if i = 0 \<and> opcode \<noteq> OP_DUP then False
        else if i = 1 \<and> opcode \<noteq> OP_HASH160 then False
        else if i = 3 \<and> opcode \<noteq> OP_EQUALVERIFY then False
        else if i = 4 \<and> opcode \<noteq> OP_CHECKSIG then False
        else if i = 5 then False
        else normal_loop rest (i + 1))"
  by auto
termination
  by (relation "measure (\<lambda>(pc, i). length pc)") (auto dest: GetOp2_progress [OF sym])

declare normal_loop.simps [simp del]

definition IsNormalPaymentScript :: "bytes \<Rightarrow> bool" where
  "IsNormalPaymentScript s = (if length s \<noteq> 25 then False else normal_loop s 0)"

definition IsPayToPublicKeyHash :: "bytes \<Rightarrow> bool" where
  "IsPayToPublicKeyHash s \<longleftrightarrow> length s = 25 \<and> s ! 0 = OP_DUP \<and> s ! 1 = OP_HASH160 \<and> s ! 2 = 0x14 \<and>
     s ! 23 = OP_EQUALVERIFY \<and> s ! 24 = OP_CHECKSIG"

definition IsPayToExchangeAddress :: "bytes \<Rightarrow> bool" where
  "IsPayToExchangeAddress s \<longleftrightarrow> length s = 26 \<and> s ! 0 = OP_EXCHANGEADDR \<and> s ! 1 = OP_DUP \<and> s ! 2 = OP_HASH160 \<and>
     s ! 3 = 0x14 \<and> s ! 24 = OP_EQUALVERIFY \<and> s ! 25 = OP_CHECKSIG"

definition IsPayToWitnessScriptHash :: "bytes \<Rightarrow> bool" where
  "IsPayToWitnessScriptHash s \<longleftrightarrow> length s = 34 \<and> s ! 0 = OP_0 \<and> s ! 1 = 0x20"

text \<open>The version and the program that \<open>IsWitnessProgram\<close> stores where it returns true.\<close>

definition IsWitnessProgram :: "bytes \<Rightarrow> (int \<times> bytes) option" where
  "IsWitnessProgram s =
     (if length s < 4 \<or> length s > 42 then None
      else if s ! 0 \<noteq> OP_0 \<and> (s ! 0 < OP_1 \<or> s ! 0 > OP_16) then None
      else if unat (s ! 1) + 2 = length s
      then map_option (\<lambda>version. (version, drop 2 s)) (DecodeOP_N (s ! 0))
      else None)"

definition starts_with :: "byte \<Rightarrow> bytes \<Rightarrow> bool" where
  "starts_with opcode s \<longleftrightarrow> length s > 0 \<and> s ! 0 = opcode"

definition IsZerocoinMint :: "bytes \<Rightarrow> bool" where "IsZerocoinMint s = starts_with OP_ZEROCOINMINT s"
definition IsZerocoinSpend :: "bytes \<Rightarrow> bool" where "IsZerocoinSpend s = starts_with OP_ZEROCOINSPEND s"
definition IsSigmaMint :: "bytes \<Rightarrow> bool" where "IsSigmaMint s = starts_with OP_SIGMAMINT s"
definition IsSigmaSpend :: "bytes \<Rightarrow> bool" where "IsSigmaSpend s = starts_with OP_SIGMASPEND s"
definition IsZerocoinRemint :: "bytes \<Rightarrow> bool" where "IsZerocoinRemint s = starts_with OP_ZEROCOINTOSIGMAREMINT s"
definition IsLelantusMint :: "bytes \<Rightarrow> bool" where "IsLelantusMint s = starts_with OP_LELANTUSMINT s"
definition IsLelantusJMint :: "bytes \<Rightarrow> bool" where "IsLelantusJMint s = starts_with OP_LELANTUSJMINT s"

definition IsLelantusJoinSplit :: "bytes \<Rightarrow> bool" where
  "IsLelantusJoinSplit s \<longleftrightarrow>
     length s > 0 \<and> (s ! 0 = OP_LELANTUSJOINSPLIT \<or> s ! 0 = OP_LELANTUSJOINSPLITPAYLOAD)"

definition IsSparkMint :: "bytes \<Rightarrow> bool" where "IsSparkMint s = starts_with OP_SPARKMINT s"
definition IsSparkSMint :: "bytes \<Rightarrow> bool" where "IsSparkSMint s = starts_with OP_SPARKSMINT s"
definition IsSparkSpend :: "bytes \<Rightarrow> bool" where "IsSparkSpend s = starts_with OP_SPARKSPEND s"

definition IsMint :: "bytes \<Rightarrow> bool" where
  "IsMint s \<longleftrightarrow> IsZerocoinMint s \<or> IsSigmaMint s \<or> IsZerocoinRemint s \<or> IsLelantusMint s \<or>
     IsLelantusJMint s \<or> IsSparkMint s \<or> IsSparkSMint s"

function HasCanonicalPushes :: "bytes \<Rightarrow> bool" where
  "HasCanonicalPushes pc =
     (if pc = [] then True
      else case GetOp2 pc of (ok, opcode, vch, rest) \<Rightarrow>
        if \<not> ok then False
        else if opcode > OP_16 then HasCanonicalPushes rest
        else if opcode < OP_PUSHDATA1 \<and> opcode > OP_0 \<and> length vch = 1 \<and> vch ! 0 \<le> 16 then False
        else if opcode = OP_PUSHDATA1 \<and> length vch < 0x4c then False
        else if opcode = OP_PUSHDATA2 \<and> length vch \<le> 0xff then False
        else if opcode = OP_PUSHDATA4 \<and> length vch \<le> 0xffff then False
        else HasCanonicalPushes rest)"
  by auto
termination
  by (relation "measure length") (auto dest: GetOp2_progress [OF sym])

declare HasCanonicalPushes.simps [simp del]

function IsPushOnly :: "bytes \<Rightarrow> bool" where
  "IsPushOnly pc =
     (if pc = [] then True
      else case GetOp2 pc of (ok, opcode, vch, rest) \<Rightarrow>
        if \<not> ok then False else if opcode > OP_16 then False else IsPushOnly rest)"
  by auto
termination
  by (relation "measure length") (auto dest: GetOp2_progress [OF sym])

declare IsPushOnly.simps [simp del]

definition IsUnspendable :: "bytes \<Rightarrow> bool" where
  "IsUnspendable s \<longleftrightarrow> (length s > 0 \<and> s ! 0 = OP_RETURN) \<or> length s > MAX_SCRIPT_SIZE"

section \<open>Reading inverts building\<close>

lemma small_word: "n < 256 \<Longrightarrow> unat (word_of_nat n :: byte) = n"
  by (simp add: unsigned_of_nat take_bit_nat_eq_self)

lemma GetOp2_push_vch:
  assumes len: "length b + length rest < 2 ^ 32"
  shows "\<exists>opcode \<le> OP_PUSHDATA4. GetOp2 (push_vch b @ rest) = (True, opcode, b, rest)"
proof -
  have m: "(length b + length rest) mod 2 ^ 32 = length b + length rest" using len by simp
  consider "length b < 0x4c" | "0x4c \<le> length b" "length b \<le> 0xff"
    | "0xff < length b" "length b \<le> 0xffff" | "0xffff < length b" by linarith
  then show ?thesis
  proof cases
    case 1
    then have "unat (word_of_nat (length b) :: byte) = length b" by (simp add: small_word)
    then show ?thesis using 1 m
      by (intro exI [of _ "word_of_nat (length b)"])
        (simp add: push_vch_def GetOp2_def push_size_def word_le_nat_alt word_less_nat_alt)
  next
    case 2
    then show ?thesis using m
      by (intro exI [of _ OP_PUSHDATA1]) (simp add: push_vch_def GetOp2_def push_size_def small_word)
  next
    case 3
    then have "unat (word_of_nat (length b) :: u16) = length b"
      by (simp add: unsigned_of_nat take_bit_nat_eq_self)
    then show ?thesis using m 3
      by (intro exI [of _ OP_PUSHDATA2]) (simp add: push_vch_def GetOp2_def push_size_def)
  next
    case 4
    have "unat (word_of_nat (length b) :: u32) = length b"
      using len by (simp add: unsigned_of_nat take_bit_nat_eq_self)
    then show ?thesis using m 4
      by (intro exI [of _ OP_PUSHDATA4]) (simp add: push_vch_def GetOp2_def push_size_def)
  qed
qed

lemma DecodeOP_N_EncodeOP_N: "0 \<le> n \<Longrightarrow> n \<le> 16 \<Longrightarrow> \<exists>opcode. EncodeOP_N n = Some opcode \<and> DecodeOP_N opcode = Some n"
proof -
  assume n: "0 \<le> n" "n \<le> 16"
  then have "uint (word_of_int (uint (OP_1) + n - 1) :: byte) = 80 + n"
    by (subst uint_word_of_int) (simp add: mod_pos_pos_trivial)
  then show ?thesis
    using n by (intro exI [of _ "if n = 0 then 0 else word_of_int (uint (OP_1) + n - 1)"])
      (auto simp: EncodeOP_N_def DecodeOP_N_def word_le_def word_uint_eq_iff)
qed

section \<open>What deletion leaves\<close>

text \<open>The recursive reading of \<open>FindAndDelete\<close>: at an instruction boundary drop a match, otherwise keep
  one instruction; stop where no instruction can be read.\<close>

function delete_spec :: "bytes \<Rightarrow> bytes \<Rightarrow> bytes" where
  "delete_spec b pc =
     (if b \<noteq> [] \<and> length pc \<ge> length b \<and> take (length b) pc = b then delete_spec b (drop (length b) pc)
      else case GetOp2 pc of (ok, opcode, vch, rest) \<Rightarrow>
        if ok then take (length pc - length rest) pc @ delete_spec b rest else pc)"
  by auto
termination
  by (relation "measure (\<lambda>(b, pc). length pc)")
    (auto intro!: diff_less order.strict_trans2 [of 0 "length b" for b] GetOp2_progress [OF sym])

declare delete_spec.simps [simp del]

lemma skip_matches_delete: "skip_matches b pc n = (pc', n') \<Longrightarrow>
    delete_spec b pc = delete_spec b pc' \<and> \<not> (b \<noteq> [] \<and> length pc' \<ge> length b \<and> take (length b) pc' = b) \<and>
    n \<le> n' \<and> length pc = length pc' + (n' - n) * length b \<and> (n' = n \<longrightarrow> pc' = pc)"
proof (induction b pc n rule: skip_matches.induct)
  case (1 b pc n)
  show ?case
  proof (cases "b \<noteq> [] \<and> length pc \<ge> length b \<and> take (length b) pc = b")
    case True
    then have "skip_matches b (drop (length b) pc) (n + 1) = (pc', n')"
      using 1(2) by (subst (asm) skip_matches.simps) simp
    note IH = 1(1) [OF True this]
    then have less: "Suc n \<le> n'" by simp
    have "delete_spec b pc = delete_spec b (drop (length b) pc)"
      using True by (subst delete_spec.simps) simp
    moreover have "length pc = length b + length (drop (length b) pc)" using True by simp
    moreover have "(n' - n) * length b = length b + (n' - (n + 1)) * length b"
      using less by (metis Suc_diff_Suc Suc_eq_plus1 Suc_le_lessD mult_Suc)
    ultimately show ?thesis using IH less by (intro conjI) (simp_all only:, simp_all)
  next
    case False
    then show ?thesis using 1(2) by (subst (asm) skip_matches.simps) (auto split: if_splits)
  qed
qed

lemma find_loop_delete:
  assumes "find_loop b result pc2 pc n = (r, p, n')"
  shows "r @ p = result @ take (length pc2 - length pc) pc2 @ delete_spec b pc \<and> n \<le> n' \<and>
    length pc = length (delete_spec b pc) + (n' - n) * length b \<and> (n' = n \<longrightarrow> delete_spec b pc = pc)"
  using assms
proof (induction b result pc2 pc n rule: find_loop.induct)
  case (1 b result pc2 pc n)
  obtain pc' n1 where sk: "skip_matches b pc n = (pc', n1)" by (cases "skip_matches b pc n")
  obtain ok opcode vch rest where g: "GetOp2 pc' = (ok, opcode, vch, rest)" by (cases "GetOp2 pc'")
  note sd = skip_matches_delete [OF sk]
  have d: "delete_spec b pc = (if ok then take (length pc' - length rest) pc' @ delete_spec b rest else pc')"
    using sd by (subst conjunct1 [OF sd], subst delete_spec.simps, subst if_not_P) (simp_all add: g)
  show ?case
  proof (cases ok)
    case True
    then have "find_loop b (result @ take (length pc2 - length pc) pc2) pc' rest n1 = (r, p, n')"
      using 1(2) by (subst (asm) find_loop.simps) (simp add: sk g)
    note IH = 1(1) [OF sk [symmetric] refl g [symmetric] refl refl True this]
    obtain pre where pre: "pc' = pre @ rest" using GetOp2_suffix [OF g] by (auto simp: suffix_def)
    then have d': "delete_spec b pc = pre @ delete_spec b rest" using d True by simp
    have n: "n' - n = (n' - n1) + (n1 - n)" "n \<le> n'" using IH sd by auto
    have len: "length rest = length (delete_spec b rest) + (n' - n1) * length b"
      "length pc = length pc' + (n1 - n) * length b"
      "n' = n1 \<Longrightarrow> delete_spec b rest = rest" "n1 = n \<Longrightarrow> pc' = pc"
      using IH sd by blast+
    show ?thesis
    proof (intro conjI impI)
      show "r @ p = result @ take (length pc2 - length pc) pc2 @ delete_spec b pc" using IH d' pre by simp
      show "n \<le> n'" by (rule n)
      show "length pc = length (delete_spec b pc) + (n' - n) * length b"
        using len(1,2) by (simp only: d' pre length_append n(1) add_mult_distrib)
      show "delete_spec b pc = pc" if "n' = n"
        using that len(3,4) n d' pre IH sd by (metis diff_is_0_eq' add_is_0 diff_self_eq_0 le_antisym)
    qed
  next
    case False
    then show ?thesis using 1(2) sd by (subst (asm) find_loop.simps) (auto simp: sk g d)
  qed
qed

lemma FindAndDelete_spec:
  assumes "b \<noteq> []"
  shows "\<exists>n. FindAndDelete script b = (n, delete_spec b script) \<and>
    length script = length (delete_spec b script) + n * length b \<and> (n = 0 \<longrightarrow> delete_spec b script = script)"
proof -
  obtain r p n where f: "find_loop b [] script script 0 = (r, p, n)" by (cases "find_loop b [] script script 0")
  note d = find_loop_delete [OF f]
  have "FindAndDelete script b = (n, delete_spec b script)"
    using assms d by (auto simp: FindAndDelete_def f)
  then show ?thesis using d by simp
qed

lemma FindAndDelete_empty: "FindAndDelete script [] = (0, script)"
  by (simp add: FindAndDelete_def)

lemma FindAndDelete_length: "length (snd (FindAndDelete script b)) \<le> length script"
  using FindAndDelete_spec [of b script] by (cases "b = []") (auto simp: FindAndDelete_empty)

section \<open>Bounds on signature operations\<close>

lemma DecodeOP_N_range:
  assumes "OP_1 \<le> opcode" "opcode \<le> OP_16"
  shows "\<exists>d. DecodeOP_N opcode = Some d \<and> 1 \<le> d \<and> d \<le> 16"
  using assms by (auto simp: DecodeOP_N_def word_le_def)

text \<open>What one instruction adds, the count of a step, and the loop in terms of it.\<close>

definition sigop_inc :: "bool \<Rightarrow> byte \<Rightarrow> byte \<Rightarrow> u32" where
  "sigop_inc f l opcode = (if opcode = OP_CHECKSIG \<or> opcode = OP_CHECKSIGVERIFY then 1
     else if opcode = OP_CHECKMULTISIG \<or> opcode = OP_CHECKMULTISIGVERIFY then
       if f \<and> l \<ge> OP_1 \<and> l \<le> OP_16 then (case DecodeOP_N l of Some d \<Rightarrow> word_of_int d | None \<Rightarrow> 0) else 20
     else 0)"

lemma sigop_loop_step:
  "GetOp2 pc = (ok, opcode, vch, rest) \<Longrightarrow>
    sigop_loop f l n pc = (if ok then sigop_loop f opcode (n + sigop_inc f l opcode) rest else n)"
  by (subst sigop_loop.simps) (auto simp: sigop_inc_def)

lemma sigop_inc_bound: "unat (sigop_inc f l opcode) \<le> 20"
proof -
  have "unat (word_of_int d :: u32) \<le> 20" if "1 \<le> d" "d \<le> 16" for d
    by (subst unat_eq_nat_uint, subst uint_word_of_int) (use that in \<open>simp add: mod_pos_pos_trivial\<close>)
  then show ?thesis using DecodeOP_N_range [of l] by (auto simp: sigop_inc_def)
qed

lemma sigop_inc_accurate: "unat (sigop_inc True l opcode) \<le> unat (sigop_inc False l opcode)"
  using sigop_inc_bound [of True l opcode] by (auto simp: sigop_inc_def)

lemma unat_add_small: "unat n + k < 2 ^ 32 \<Longrightarrow> unat m \<le> k \<Longrightarrow> unat (n + m) = unat n + unat m" for n m :: u32
  by (subst unat_plus_if_size) (simp add: word_size)

lemma sigop_loop_bound:
  assumes "unat n + 20 * length pc < 2 ^ 32"
  shows "unat (sigop_loop f l n pc) \<le> unat n + 20 * length pc"
  using assms
proof (induction "length pc" arbitrary: l n pc rule: less_induct)
  case less
  obtain ok opcode vch rest where g: "GetOp2 pc = (ok, opcode, vch, rest)" by (cases "GetOp2 pc")
  show ?case
  proof (cases "ok \<and> pc \<noteq> []")
    case True
    then have len: "length rest < length pc" using GetOp2_progress [OF g] by simp
    then have "unat (n + sigop_inc f l opcode) = unat n + unat (sigop_inc f l opcode)"
      using less(2) sigop_inc_bound by (intro unat_add_small [of _ 20]) auto
    then show ?thesis
      using less(1) [OF len, of "n + sigop_inc f l opcode" opcode] less(2) len True sigop_inc_bound [of f l opcode]
      by (simp add: sigop_loop_step [OF g])
  next
    case False
    then show ?thesis using g by (auto simp: sigop_loop_step [OF g])
  qed
qed

lemma sigop_loop_accurate:
  assumes "unat n + 20 * length pc < 2 ^ 32" "unat m \<le> unat n"
  shows "unat (sigop_loop True l m pc) \<le> unat (sigop_loop False l n pc)"
  using assms
proof (induction "length pc" arbitrary: l m n pc rule: less_induct)
  case less
  obtain ok opcode vch rest where g: "GetOp2 pc = (ok, opcode, vch, rest)" by (cases "GetOp2 pc")
  show ?case
  proof (cases "ok \<and> pc \<noteq> []")
    case True
    then have len: "length rest < length pc" using GetOp2_progress [OF g] by simp
    then have "unat (n + sigop_inc False l opcode) = unat n + unat (sigop_inc False l opcode)"
      "unat (m + sigop_inc True l opcode) = unat m + unat (sigop_inc True l opcode)"
      using less(2,3) sigop_inc_bound by (auto intro!: unat_add_small [of _ 20])
    then show ?thesis
      using less(1) [OF len, of "n + sigop_inc False l opcode" "m + sigop_inc True l opcode" opcode]
        less(2,3) len True sigop_inc_bound [of False l opcode] sigop_inc_accurate [of l opcode]
      by (simp add: sigop_loop_step [OF g])
  next
    case False
    then show ?thesis using g less(3) by (auto simp: sigop_loop_step [OF g])
  qed
qed

definition p2pkh_script :: "bytes \<Rightarrow> bytes" where
  "p2pkh_script h = [OP_DUP, OP_HASH160, 0x14] @ h @ [OP_EQUALVERIFY, OP_CHECKSIG]"

lemma IsPayToPublicKeyHash_iff: "IsPayToPublicKeyHash s \<longleftrightarrow> (\<exists>h. length h = 20 \<and> s = p2pkh_script h)"
proof
  assume p: "IsPayToPublicKeyHash s"
  have "s = p2pkh_script (take 20 (drop 3 s))"
  proof (rule nth_equalityI)
    fix i assume "i < length s"
    then have "i = 0 \<or> i = 1 \<or> i = 2 \<or> i = 23 \<or> i = 24 \<or> 3 \<le> i \<and> i < 23"
      using p by (auto simp: IsPayToPublicKeyHash_def)
    then show "s ! i = p2pkh_script (take 20 (drop 3 s)) ! i"
      using p by (elim disjE) (auto simp: IsPayToPublicKeyHash_def p2pkh_script_def nth_append nth_Cons')
  qed (use p in \<open>auto simp: IsPayToPublicKeyHash_def p2pkh_script_def\<close>)
  then show "\<exists>h. length h = 20 \<and> s = p2pkh_script h"
    using p by (intro exI [of _ "take 20 (drop 3 s)"]) (simp add: IsPayToPublicKeyHash_def)
qed (auto simp: IsPayToPublicKeyHash_def p2pkh_script_def nth_append)

lemma GetOp2_plain: "OP_PUSHDATA4 < opcode \<Longrightarrow> \<not> swallows_rest opcode \<Longrightarrow> GetOp2 (opcode # r) = (True, opcode, [], r)"
  by (auto simp: GetOp2_def dest: leD)

lemma GetOp2_direct_push:
  assumes "n < OP_PUSHDATA1" "length h = unat n" "length h + length r < 2 ^ 32"
  shows "GetOp2 (n # h @ r) = (True, n, h, r)"
proof -
  have "n \<le> OP_PUSHDATA4" using assms(1) by (rule order.strict_implies_order [OF order.strict_trans]) simp
  then show ?thesis using assms by (simp add: GetOp2_def push_size_def)
qed

lemma normal_loop_step:
  "GetOp2 pc = (ok, opcode, vch, rest) \<Longrightarrow> pc \<noteq> [] \<Longrightarrow>
    (i = 0 \<longrightarrow> opcode = OP_DUP) \<and> (i = 1 \<longrightarrow> opcode = OP_HASH160) \<and> (i = 3 \<longrightarrow> opcode = OP_EQUALVERIFY) \<and>
    (i = 4 \<longrightarrow> opcode = OP_CHECKSIG) \<and> i \<noteq> 5 \<Longrightarrow> normal_loop pc i = normal_loop rest (i + 1)"
  by (subst normal_loop.simps) auto

lemma normal_loop_Nil [simp]: "normal_loop [] i"
  by (subst normal_loop.simps) simp

lemma p2pkh_reads:
  assumes "length h = 20"
  shows "GetOp2 (p2pkh_script h) = (True, OP_DUP, [], tl (p2pkh_script h))"
    "GetOp2 (tl (p2pkh_script h)) = (True, OP_HASH160, [], 0x14 # h @ [OP_EQUALVERIFY, OP_CHECKSIG])"
    "GetOp2 (0x14 # h @ [OP_EQUALVERIFY, OP_CHECKSIG]) = (True, 0x14, h, [OP_EQUALVERIFY, OP_CHECKSIG])"
    "GetOp2 [OP_EQUALVERIFY, OP_CHECKSIG] = (True, OP_EQUALVERIFY, [], [OP_CHECKSIG])"
    "GetOp2 [OP_CHECKSIG] = (True, OP_CHECKSIG, [], [])"
  using assms by (simp_all add: p2pkh_script_def GetOp2_plain swallows_rest_def GetOp2_direct_push)

lemma IsPayToPublicKeyHash_normal:
  assumes "IsPayToPublicKeyHash s"
  shows "IsNormalPaymentScript s"
proof -
  obtain h where s: "s = p2pkh_script h" "length h = 20" using assms by (auto simp: IsPayToPublicKeyHash_iff)
  note r = p2pkh_reads [OF s(2)]
  have ne: "p2pkh_script h \<noteq> []" "tl (p2pkh_script h) \<noteq> []" by (simp_all add: p2pkh_script_def)
  have "normal_loop s 0"
    using ne by (simp add: s(1) normal_loop_step [OF r(1)] normal_loop_step [OF r(2)] normal_loop_step [OF r(3)]
        normal_loop_step [OF r(4)] normal_loop_step [OF r(5)])
  moreover have "length s = 25" using s by (simp add: p2pkh_script_def)
  ultimately show ?thesis by (simp add: IsNormalPaymentScript_def)
qed

section \<open>Properties\<close>

text \<open>Reading the instruction that \<open>operator<<\<close> appended for a byte vector, of any size class, gives
  back the vector and the rest of the script.\<close>

theorem script_push_read:
  assumes "length b + length rest < 2 ^ 32"
  shows "\<exists>opcode \<le> OP_PUSHDATA4. GetOp2 (push_vch b @ rest) = (True, opcode, b, rest)"
  by (rule GetOp2_push_vch [OF assms])

theorem script_push_read_witness:
  "\<exists>opcode \<le> OP_PUSHDATA4. GetOp2 (push_vch (replicate 300 7) @ [OP_CHECKSIG]) = (True, opcode, replicate 300 7, [OP_CHECKSIG])"
  using script_push_read [of "replicate 300 7" "[OP_CHECKSIG]"] by simp

text \<open>The segment-copying loop of \<open>FindAndDelete\<close> computes the deletion of the pattern at every
  instruction boundary, returns the number of copies it removed, and terminates on every script.\<close>

theorem FindAndDelete_deletes:
  assumes "b \<noteq> []"
  shows "\<exists>n. FindAndDelete script b = (n, delete_spec b script) \<and>
    length script = length (delete_spec b script) + n * length b \<and> (n = 0 \<longrightarrow> delete_spec b script = script)"
  by (rule FindAndDelete_spec [OF assms])

theorem FindAndDelete_deletes_witness:
  "delete_spec [0x51] [0x51, 0x51, 0x52] = [0x52] \<and> FindAndDelete [0x51, 0x51, 0x52] [0x51] = (2, [0x52])"
proof -
  have g: "GetOp2 [0x52] = (True, 0x52, [], [])" by (simp add: GetOp2_plain swallows_rest_def)
  have e: "delete_spec [0x51] [] = []" by (subst delete_spec.simps) simp
  have s: "delete_spec [0x51] [0x51, 0x51, 0x52] = [0x52]"
    by (subst delete_spec.simps, simp, subst delete_spec.simps, simp, subst delete_spec.simps, simp add: g e)
  then show ?thesis using FindAndDelete_deletes [of "[0x51]" "[0x51, 0x51, 0x52]"] by auto
qed

text \<open>The signature operation count of a script is at most twenty for each of its bytes, and the
  accurate count never exceeds the inaccurate one.\<close>

theorem GetSigOpCount_bounds:
  assumes "20 * length script < 2 ^ 32"
  shows "unat (GetSigOpCount script True) \<le> unat (GetSigOpCount script False) \<and>
    unat (GetSigOpCount script False) \<le> 20 * length script"
  using assms sigop_loop_bound [of 0 script] sigop_loop_accurate [of 0 script 0] by (simp add: GetSigOpCount_def)

theorem GetSigOpCount_bounds_witness:
  "unat (GetSigOpCount [OP_CHECKMULTISIG] True) \<le> 20"
  using GetSigOpCount_bounds [of "[OP_CHECKMULTISIG]"] by simp

end
