(* ===== verification/SigEncoding.thy ===== *)
theory SigEncoding
  imports Script
begin

text \<open>
  The error codes of \<open>src/src/script/script_error.h\<close>, the verification flags of
  \<open>src/src/script/interpreter.h\<close> and the encoding checks at the start of
  \<open>src/src/script/interpreter.cpp\<close>: truth of a stack item, shapes of public keys and DER signatures,
  minimal pushes. A function that returns false after setting \<open>serror\<close> returns the error as \<open>Inl\<close>.
  \<open>CPubKey::CheckLowS\<close> ends in the curve library and is a parameter.
\<close>

section \<open>Errors and flags\<close>

datatype ScriptError =
    SCRIPT_ERR_OK | SCRIPT_ERR_UNKNOWN_ERROR | SCRIPT_ERR_EVAL_FALSE | SCRIPT_ERR_OP_RETURN
  | SCRIPT_ERR_SCRIPT_SIZE | SCRIPT_ERR_PUSH_SIZE | SCRIPT_ERR_OP_COUNT | SCRIPT_ERR_STACK_SIZE
  | SCRIPT_ERR_SIG_COUNT | SCRIPT_ERR_PUBKEY_COUNT
  | SCRIPT_ERR_VERIFY | SCRIPT_ERR_EQUALVERIFY | SCRIPT_ERR_CHECKMULTISIGVERIFY
  | SCRIPT_ERR_CHECKSIGVERIFY | SCRIPT_ERR_NUMEQUALVERIFY
  | SCRIPT_ERR_BAD_OPCODE | SCRIPT_ERR_DISABLED_OPCODE | SCRIPT_ERR_INVALID_STACK_OPERATION
  | SCRIPT_ERR_INVALID_ALTSTACK_OPERATION | SCRIPT_ERR_UNBALANCED_CONDITIONAL
  | SCRIPT_ERR_NEGATIVE_LOCKTIME | SCRIPT_ERR_UNSATISFIED_LOCKTIME
  | SCRIPT_ERR_SIG_HASHTYPE | SCRIPT_ERR_SIG_DER | SCRIPT_ERR_MINIMALDATA | SCRIPT_ERR_SIG_PUSHONLY
  | SCRIPT_ERR_SIG_HIGH_S | SCRIPT_ERR_SIG_NULLDUMMY | SCRIPT_ERR_PUBKEYTYPE | SCRIPT_ERR_CLEANSTACK
  | SCRIPT_ERR_MINIMALIF | SCRIPT_ERR_SIG_NULLFAIL
  | SCRIPT_ERR_DISCOURAGE_UPGRADABLE_NOPS | SCRIPT_ERR_DISCOURAGE_UPGRADABLE_WITNESS_PROGRAM
  | SCRIPT_ERR_WITNESS_PROGRAM_WRONG_LENGTH | SCRIPT_ERR_WITNESS_PROGRAM_WITNESS_EMPTY
  | SCRIPT_ERR_WITNESS_PROGRAM_MISMATCH | SCRIPT_ERR_WITNESS_MALLEATED
  | SCRIPT_ERR_WITNESS_MALLEATED_P2SH | SCRIPT_ERR_WITNESS_UNEXPECTED | SCRIPT_ERR_WITNESS_PUBKEYTYPE
  | SCRIPT_ERR_ERROR_COUNT

text \<open>A failed \<open>assert\<close> ends the process; it is kept apart from the errors that the code reports.\<close>

datatype eval_error = Err ScriptError | Abort

abbreviation (input) set_error :: "ScriptError \<Rightarrow> eval_error + 'a" where
  "set_error serror \<equiv> Inl (Err serror)"

datatype SigVersion = SIGVERSION_BASE | SIGVERSION_WITNESS_V0

datatype script_flag =
    SCRIPT_VERIFY_P2SH | SCRIPT_VERIFY_STRICTENC | SCRIPT_VERIFY_DERSIG | SCRIPT_VERIFY_LOW_S
  | SCRIPT_VERIFY_NULLDUMMY | SCRIPT_VERIFY_SIGPUSHONLY | SCRIPT_VERIFY_MINIMALDATA
  | SCRIPT_VERIFY_DISCOURAGE_UPGRADABLE_NOPS | SCRIPT_VERIFY_CLEANSTACK
  | SCRIPT_VERIFY_CHECKLOCKTIMEVERIFY | SCRIPT_VERIFY_CHECKSEQUENCEVERIFY | SCRIPT_VERIFY_WITNESS
  | SCRIPT_VERIFY_DISCOURAGE_UPGRADABLE_WITNESS_PROGRAM | SCRIPT_VERIFY_MINIMALIF
  | SCRIPT_VERIFY_NULLFAIL | SCRIPT_VERIFY_WITNESS_PUBKEYTYPE

text \<open>The bit position of a flag in the \<open>unsigned int flags\<close>, and the test \<open>flags & FLAG\<close>.\<close>

fun flag_shift :: "script_flag \<Rightarrow> nat" where
  "flag_shift SCRIPT_VERIFY_P2SH = 0"
| "flag_shift SCRIPT_VERIFY_STRICTENC = 1"
| "flag_shift SCRIPT_VERIFY_DERSIG = 2"
| "flag_shift SCRIPT_VERIFY_LOW_S = 3"
| "flag_shift SCRIPT_VERIFY_NULLDUMMY = 4"
| "flag_shift SCRIPT_VERIFY_SIGPUSHONLY = 5"
| "flag_shift SCRIPT_VERIFY_MINIMALDATA = 6"
| "flag_shift SCRIPT_VERIFY_DISCOURAGE_UPGRADABLE_NOPS = 7"
| "flag_shift SCRIPT_VERIFY_CLEANSTACK = 8"
| "flag_shift SCRIPT_VERIFY_CHECKLOCKTIMEVERIFY = 9"
| "flag_shift SCRIPT_VERIFY_CHECKSEQUENCEVERIFY = 10"
| "flag_shift SCRIPT_VERIFY_WITNESS = 11"
| "flag_shift SCRIPT_VERIFY_DISCOURAGE_UPGRADABLE_WITNESS_PROGRAM = 12"
| "flag_shift SCRIPT_VERIFY_MINIMALIF = 13"
| "flag_shift SCRIPT_VERIFY_NULLFAIL = 14"
| "flag_shift SCRIPT_VERIFY_WITNESS_PUBKEYTYPE = 15"

definition has_flag :: "u32 \<Rightarrow> script_flag \<Rightarrow> bool" where
  "has_flag flags f \<longleftrightarrow> flags AND push_bit (flag_shift f) 1 \<noteq> 0"

section \<open>Encoding checks\<close>

fun CastToBool :: "bytes \<Rightarrow> bool" where
  "CastToBool [] = False"
| "CastToBool (b # vch) =
     (if b \<noteq> 0 then (if vch = [] \<and> b = 0x80 then False else True) else CastToBool vch)"

definition IsCompressedOrUncompressedPubKey :: "bytes \<Rightarrow> bool" where
  "IsCompressedOrUncompressedPubKey vchPubKey =
     (if length vchPubKey < 33 then False
      else if vchPubKey ! 0 = 0x04 then length vchPubKey = 65
      else if vchPubKey ! 0 = 0x02 \<or> vchPubKey ! 0 = 0x03 then length vchPubKey = 33
      else False)"

definition IsCompressedPubKey :: "bytes \<Rightarrow> bool" where
  "IsCompressedPubKey vchPubKey =
     (if length vchPubKey \<noteq> 33 then False
      else if vchPubKey ! 0 \<noteq> 0x02 \<and> vchPubKey ! 0 \<noteq> 0x03 then False
      else True)"

definition IsValidSignatureEncoding :: "bytes \<Rightarrow> bool" where
  "IsValidSignatureEncoding sig =
     (if length sig < 9 then False
      else if length sig > 73 then False
      else if sig ! 0 \<noteq> 0x30 then False
      else if unat (sig ! 1) \<noteq> length sig - 3 then False
      else let lenR = unat (sig ! 3)
      in if 5 + lenR \<ge> length sig then False
      else let lenS = unat (sig ! (5 + lenR))
      in if lenR + lenS + 7 \<noteq> length sig then False
      else if sig ! 2 \<noteq> 0x02 then False
      else if lenR = 0 then False
      else if sig ! 4 AND 0x80 \<noteq> 0 then False
      else if lenR > 1 \<and> sig ! 4 = 0x00 \<and> sig ! 5 AND 0x80 = 0 then False
      else if sig ! (lenR + 4) \<noteq> 0x02 then False
      else if lenS = 0 then False
      else if sig ! (lenR + 6) AND 0x80 \<noteq> 0 then False
      else if lenS > 1 \<and> sig ! (lenR + 6) = 0x00 \<and> sig ! (lenR + 7) AND 0x80 = 0 then False
      else True)"

definition IsLowDERSignature :: "(bytes \<Rightarrow> bool) \<Rightarrow> bytes \<Rightarrow> eval_error + unit" where
  "IsLowDERSignature CheckLowS vchSig =
     (if \<not> IsValidSignatureEncoding vchSig then set_error SCRIPT_ERR_SIG_DER
      else if \<not> CheckLowS (take (length vchSig - 1) vchSig) then set_error SCRIPT_ERR_SIG_HIGH_S
      else Inr ())"

definition IsDefinedHashtypeSignature :: "bytes \<Rightarrow> bool" where
  "IsDefinedHashtypeSignature vchSig =
     (if length vchSig = 0 then False
      else let nHashType = vchSig ! (length vchSig - 1) AND NOT 0x80
           in if nHashType < 1 \<or> nHashType > 3 then False else True)"

definition CheckSignatureEncoding :: "(bytes \<Rightarrow> bool) \<Rightarrow> bytes \<Rightarrow> u32 \<Rightarrow> eval_error + unit" where
  "CheckSignatureEncoding CheckLowS vchSig flags =
     (if length vchSig = 0 then Inr ()
      else if (has_flag flags SCRIPT_VERIFY_DERSIG \<or> has_flag flags SCRIPT_VERIFY_LOW_S \<or>
               has_flag flags SCRIPT_VERIFY_STRICTENC) \<and> \<not> IsValidSignatureEncoding vchSig
      then set_error SCRIPT_ERR_SIG_DER
      else bindE (if has_flag flags SCRIPT_VERIFY_LOW_S then IsLowDERSignature CheckLowS vchSig else Inr ())
        (\<lambda>_. if has_flag flags SCRIPT_VERIFY_STRICTENC \<and> \<not> IsDefinedHashtypeSignature vchSig
             then set_error SCRIPT_ERR_SIG_HASHTYPE else Inr ()))"

definition CheckPubKeyEncoding :: "bytes \<Rightarrow> u32 \<Rightarrow> SigVersion \<Rightarrow> eval_error + unit" where
  "CheckPubKeyEncoding vchPubKey flags sigversion =
     (if has_flag flags SCRIPT_VERIFY_STRICTENC \<and> \<not> IsCompressedOrUncompressedPubKey vchPubKey
      then set_error SCRIPT_ERR_PUBKEYTYPE
      else if has_flag flags SCRIPT_VERIFY_WITNESS_PUBKEYTYPE \<and> sigversion = SIGVERSION_WITNESS_V0 \<and>
              \<not> IsCompressedPubKey vchPubKey
      then set_error SCRIPT_ERR_WITNESS_PUBKEYTYPE
      else Inr ())"

definition CheckMinimalPush :: "bytes \<Rightarrow> byte \<Rightarrow> bool" where
  "CheckMinimalPush vch opcode =
     (if length vch = 0 then opcode = OP_0
      else if length vch = 1 \<and> vch ! 0 \<ge> 1 \<and> vch ! 0 \<le> 16
      then uint opcode = uint OP_1 + (uint (vch ! 0) - 1)
      else if length vch = 1 \<and> vch ! 0 = 0x81 then opcode = OP_1NEGATE
      else if length vch \<le> 75 then unat opcode = length vch
      else if length vch \<le> 255 then opcode = OP_PUSHDATA1
      else if length vch \<le> 65535 then opcode = OP_PUSHDATA2
      else True)"

section \<open>Fewer flags accept more\<close>

definition flags_sub :: "u32 \<Rightarrow> u32 \<Rightarrow> bool" where
  "flags_sub flags' flags \<longleftrightarrow> flags' AND flags = flags'"

lemma has_flag_mono: "flags_sub flags' flags \<Longrightarrow> has_flag flags' f \<Longrightarrow> has_flag flags f"
proof -
  assume sub: "flags_sub flags' flags" and f: "has_flag flags' f"
  have "flags' AND push_bit (flag_shift f) 1 = (flags' AND flags) AND push_bit (flag_shift f) 1"
    using sub by (simp only: flags_sub_def)
  also have "\<dots> = flags' AND (flags AND push_bit (flag_shift f) 1)" by (rule and.assoc)
  finally show ?thesis using f by (auto simp: has_flag_def)
qed

lemma CheckSignatureEncoding_mono:
  assumes "CheckSignatureEncoding L sig flags = Inr u" "flags_sub flags' flags"
  shows "CheckSignatureEncoding L sig flags' = Inr u"
  using assms has_flag_mono [OF assms(2)]
  by (auto simp: CheckSignatureEncoding_def bindE_eq_Inr_iff IsLowDERSignature_def split: if_splits)

lemma CheckPubKeyEncoding_mono:
  assumes "CheckPubKeyEncoding key flags sv = Inr u" "flags_sub flags' flags"
  shows "CheckPubKeyEncoding key flags' sv = Inr u"
  using assms has_flag_mono [OF assms(2)] by (auto simp: CheckPubKeyEncoding_def split: if_splits)

lemma encoding_no_abort:
  "CheckSignatureEncoding L sig flags \<noteq> Inl Abort" "CheckPubKeyEncoding key flags sv \<noteq> Inl Abort"
  by (auto simp: CheckSignatureEncoding_def CheckPubKeyEncoding_def IsLowDERSignature_def bindE_eq_Inl_iff)

end
