(* ===== verification/Interpreter.thy ===== *)
theory Interpreter
  imports SigEncoding
begin

text \<open>
  \<open>EvalScript\<close> of \<open>src/src/script/interpreter.cpp\<close>. A stack is the list of its items with the top
  first, so \<open>stacktop(-i)\<close> is item \<open>i - 1\<close>; \<open>vfExec\<close> has its back first in the same way. One
  definition models each case of the switch, on the part of the interpreter's state it touches;
  \<open>eval_loop\<close> composes them as the loop does. An exception inside the loop (a script number that is
  too long or not minimal) is the error \<open>SCRIPT_ERR_UNKNOWN_ERROR\<close> of the catch clause, a failed
  assertion is \<open>Abort\<close>. The hash functions and the signature checker are parameters: the checker is the
  virtual interface \<open>BaseSignatureChecker\<close> that the callers of \<open>EvalScript\<close> implement.
\<close>

section \<open>State and parameters\<close>

record hash_funs =
  RIPEMD160 :: "bytes \<Rightarrow> bytes"
  SHA1 :: "bytes \<Rightarrow> bytes"
  SHA256 :: "bytes \<Rightarrow> bytes"
  CheckLowS :: "bytes \<Rightarrow> bool"

definition CHash160 :: "hash_funs \<Rightarrow> bytes \<Rightarrow> bytes" where
  "CHash160 H vch = RIPEMD160 H (SHA256 H vch)"

definition CHash256 :: "hash_funs \<Rightarrow> bytes \<Rightarrow> bytes" where
  "CHash256 H vch = SHA256 H (SHA256 H vch)"

record BaseSignatureChecker =
  CheckSig :: "bytes \<Rightarrow> bytes \<Rightarrow> bytes \<Rightarrow> SigVersion \<Rightarrow> bool"
  CheckLockTime :: "int \<Rightarrow> bool"
  CheckSequence :: "int \<Rightarrow> bool"

record EvalState =
  stack :: "bytes list"
  altstack :: "bytes list"
  vfExec :: "bool list"
  nOpCount :: int
  pbegincodehash :: bytes
  fFirstOpCode :: bool

type_synonym result = "eval_error + EvalState"

abbreviation (input) vchFalse :: bytes where "vchFalse \<equiv> []"
abbreviation (input) vchTrue :: bytes where "vchTrue \<equiv> [1]"

definition vchBool :: "bool \<Rightarrow> bytes" where
  "vchBool b = (if b then vchTrue else vchFalse)"

text \<open>The \<open>CScriptNum\<close> constructor inside the try block.\<close>

definition numE :: "bytes \<Rightarrow> bool \<Rightarrow> nat \<Rightarrow> eval_error + int" where
  "numE vch fRequireMinimal nMaxNumSize =
     (case CScriptNum vch fRequireMinimal nMaxNumSize of
        None \<Rightarrow> set_error SCRIPT_ERR_UNKNOWN_ERROR | Some n \<Rightarrow> Inr n)"

definition assertE :: "'a option \<Rightarrow> eval_error + 'a" where
  "assertE x = (case x of None \<Rightarrow> Inl Abort | Some y \<Rightarrow> Inr y)"

section \<open>Constants and control\<close>

definition op_push_number :: "byte \<Rightarrow> EvalState \<Rightarrow> result" where
  "op_push_number opcode st = Inr (st\<lparr>stack := num_getvch (uint opcode - (uint OP_1 - 1)) # stack st\<rparr>)"

definition op_exchangeaddr :: "EvalState \<Rightarrow> result" where
  "op_exchangeaddr st = (if \<not> fFirstOpCode st then set_error SCRIPT_ERR_BAD_OPCODE else Inr st)"

definition op_checklocktimeverify :: "BaseSignatureChecker \<Rightarrow> u32 \<Rightarrow> bool \<Rightarrow> EvalState \<Rightarrow> result" where
  "op_checklocktimeverify checker flags fRequireMinimal st =
     (if \<not> has_flag flags SCRIPT_VERIFY_CHECKLOCKTIMEVERIFY then
        if has_flag flags SCRIPT_VERIFY_DISCOURAGE_UPGRADABLE_NOPS
        then set_error SCRIPT_ERR_DISCOURAGE_UPGRADABLE_NOPS else Inr st
      else if length (stack st) < 1 then set_error SCRIPT_ERR_INVALID_STACK_OPERATION
      else bindE (numE (stack st ! 0) fRequireMinimal 5) (\<lambda>nLockTime.
        if nLockTime < 0 then set_error SCRIPT_ERR_NEGATIVE_LOCKTIME
        else if \<not> CheckLockTime checker nLockTime then set_error SCRIPT_ERR_UNSATISFIED_LOCKTIME
        else Inr st))"

abbreviation (input) SEQUENCE_LOCKTIME_DISABLE_FLAG :: int where "SEQUENCE_LOCKTIME_DISABLE_FLAG \<equiv> 2 ^ 31"

definition op_checksequenceverify :: "BaseSignatureChecker \<Rightarrow> u32 \<Rightarrow> bool \<Rightarrow> EvalState \<Rightarrow> result" where
  "op_checksequenceverify checker flags fRequireMinimal st =
     (if \<not> has_flag flags SCRIPT_VERIFY_CHECKSEQUENCEVERIFY then
        if has_flag flags SCRIPT_VERIFY_DISCOURAGE_UPGRADABLE_NOPS
        then set_error SCRIPT_ERR_DISCOURAGE_UPGRADABLE_NOPS else Inr st
      else if length (stack st) < 1 then set_error SCRIPT_ERR_INVALID_STACK_OPERATION
      else bindE (numE (stack st ! 0) fRequireMinimal 5) (\<lambda>nSequence.
        if nSequence < 0 then set_error SCRIPT_ERR_NEGATIVE_LOCKTIME
        else if nSequence AND SEQUENCE_LOCKTIME_DISABLE_FLAG \<noteq> 0 then Inr st
        else if \<not> CheckSequence checker nSequence then set_error SCRIPT_ERR_UNSATISFIED_LOCKTIME
        else Inr st))"

definition op_upgradable_nop :: "u32 \<Rightarrow> EvalState \<Rightarrow> result" where
  "op_upgradable_nop flags st =
     (if has_flag flags SCRIPT_VERIFY_DISCOURAGE_UPGRADABLE_NOPS
      then set_error SCRIPT_ERR_DISCOURAGE_UPGRADABLE_NOPS else Inr st)"

definition op_if :: "byte \<Rightarrow> bool \<Rightarrow> u32 \<Rightarrow> SigVersion \<Rightarrow> EvalState \<Rightarrow> result" where
  "op_if opcode fExec flags sigversion st =
     (if fExec then
        if length (stack st) < 1 then set_error SCRIPT_ERR_UNBALANCED_CONDITIONAL
        else let vch = stack st ! 0
             in if sigversion = SIGVERSION_WITNESS_V0 \<and> has_flag flags SCRIPT_VERIFY_MINIMALIF \<and>
                   (length vch > 1 \<or> (length vch = 1 \<and> vch ! 0 \<noteq> 1))
                then set_error SCRIPT_ERR_MINIMALIF
                else let fValue = (if opcode = OP_NOTIF then \<not> CastToBool vch else CastToBool vch)
                     in Inr (st\<lparr>stack := tl (stack st), vfExec := fValue # vfExec st\<rparr>)
      else Inr (st\<lparr>vfExec := False # vfExec st\<rparr>))"

definition op_else :: "EvalState \<Rightarrow> result" where
  "op_else st =
     (case vfExec st of [] \<Rightarrow> set_error SCRIPT_ERR_UNBALANCED_CONDITIONAL
      | b # bs \<Rightarrow> Inr (st\<lparr>vfExec := (\<not> b) # bs\<rparr>))"

definition op_endif :: "EvalState \<Rightarrow> result" where
  "op_endif st =
     (case vfExec st of [] \<Rightarrow> set_error SCRIPT_ERR_UNBALANCED_CONDITIONAL
      | b # bs \<Rightarrow> Inr (st\<lparr>vfExec := bs\<rparr>))"

definition op_verify :: "EvalState \<Rightarrow> result" where
  "op_verify st =
     (if length (stack st) < 1 then set_error SCRIPT_ERR_INVALID_STACK_OPERATION
      else if CastToBool (stack st ! 0) then Inr (st\<lparr>stack := tl (stack st)\<rparr>)
      else set_error SCRIPT_ERR_VERIFY)"

section \<open>Stack operations\<close>

definition op_toaltstack :: "EvalState \<Rightarrow> result" where
  "op_toaltstack st =
     (case stack st of x # s \<Rightarrow> Inr (st\<lparr>altstack := x # altstack st, stack := s\<rparr>)
      | _ \<Rightarrow> set_error SCRIPT_ERR_INVALID_STACK_OPERATION)"

definition op_fromaltstack :: "EvalState \<Rightarrow> result" where
  "op_fromaltstack st =
     (case altstack st of x # s \<Rightarrow> Inr (st\<lparr>stack := x # stack st, altstack := s\<rparr>)
      | _ \<Rightarrow> set_error SCRIPT_ERR_INVALID_ALTSTACK_OPERATION)"

text \<open>The operations that only rearrange the main stack, on the stack; \<open>None\<close> where it is too short.\<close>

fun stk_2drop :: "bytes list \<Rightarrow> bytes list option" where
  "stk_2drop (x2 # x1 # s) = Some s" | "stk_2drop _ = None"

fun stk_2dup :: "bytes list \<Rightarrow> bytes list option" where
  "stk_2dup (x2 # x1 # s) = Some (x2 # x1 # x2 # x1 # s)" | "stk_2dup _ = None"

fun stk_3dup :: "bytes list \<Rightarrow> bytes list option" where
  "stk_3dup (x3 # x2 # x1 # s) = Some (x3 # x2 # x1 # x3 # x2 # x1 # s)" | "stk_3dup _ = None"

fun stk_2over :: "bytes list \<Rightarrow> bytes list option" where
  "stk_2over (x4 # x3 # x2 # x1 # s) = Some (x2 # x1 # x4 # x3 # x2 # x1 # s)" | "stk_2over _ = None"

fun stk_2rot :: "bytes list \<Rightarrow> bytes list option" where
  "stk_2rot (x6 # x5 # x4 # x3 # x2 # x1 # s) = Some (x2 # x1 # x6 # x5 # x4 # x3 # s)" | "stk_2rot _ = None"

fun stk_2swap :: "bytes list \<Rightarrow> bytes list option" where
  "stk_2swap (x4 # x3 # x2 # x1 # s) = Some (x2 # x1 # x4 # x3 # s)" | "stk_2swap _ = None"

fun stk_ifdup :: "bytes list \<Rightarrow> bytes list option" where
  "stk_ifdup (x # s) = Some (if CastToBool x then x # x # s else x # s)" | "stk_ifdup _ = None"

fun stk_drop :: "bytes list \<Rightarrow> bytes list option" where
  "stk_drop (x # s) = Some s" | "stk_drop _ = None"

fun stk_dup :: "bytes list \<Rightarrow> bytes list option" where
  "stk_dup (x # s) = Some (x # x # s)" | "stk_dup _ = None"

fun stk_nip :: "bytes list \<Rightarrow> bytes list option" where
  "stk_nip (x2 # x1 # s) = Some (x2 # s)" | "stk_nip _ = None"

fun stk_over :: "bytes list \<Rightarrow> bytes list option" where
  "stk_over (x2 # x1 # s) = Some (x1 # x2 # x1 # s)" | "stk_over _ = None"

fun stk_rot :: "bytes list \<Rightarrow> bytes list option" where
  "stk_rot (x3 # x2 # x1 # s) = Some (x1 # x3 # x2 # s)" | "stk_rot _ = None"

fun stk_swap :: "bytes list \<Rightarrow> bytes list option" where
  "stk_swap (x2 # x1 # s) = Some (x1 # x2 # s)" | "stk_swap _ = None"

fun stk_tuck :: "bytes list \<Rightarrow> bytes list option" where
  "stk_tuck (x2 # x1 # s) = Some (x2 # x1 # x2 # s)" | "stk_tuck _ = None"

fun stk_size :: "bytes list \<Rightarrow> bytes list option" where
  "stk_size (x # s) = Some (num_getvch (int (length x)) # x # s)" | "stk_size _ = None"

definition stack_op :: "(bytes list \<Rightarrow> bytes list option) \<Rightarrow> EvalState \<Rightarrow> result" where
  "stack_op f st =
     (case f (stack st) of None \<Rightarrow> set_error SCRIPT_ERR_INVALID_STACK_OPERATION
      | Some s \<Rightarrow> Inr (st\<lparr>stack := s\<rparr>))"

definition op_depth :: "EvalState \<Rightarrow> result" where
  "op_depth st = Inr (st\<lparr>stack := num_getvch (int (length (stack st))) # stack st\<rparr>)"

definition op_pick_roll :: "byte \<Rightarrow> bool \<Rightarrow> EvalState \<Rightarrow> result" where
  "op_pick_roll opcode fRequireMinimal st =
     (if length (stack st) < 2 then set_error SCRIPT_ERR_INVALID_STACK_OPERATION
      else bindE (numE (stack st ! 0) fRequireMinimal nDefaultMaxNumSize) (\<lambda>num.
        let n = num_getint num; s = tl (stack st)
        in if n < 0 \<or> n \<ge> int (length s) then set_error SCRIPT_ERR_INVALID_STACK_OPERATION
           else let vch = s ! nat n;
                    s' = (if opcode = OP_ROLL then take (nat n) s @ drop (Suc (nat n)) s else s)
                in Inr (st\<lparr>stack := vch # s'\<rparr>)))"

definition op_equal :: "byte \<Rightarrow> EvalState \<Rightarrow> result" where
  "op_equal opcode st =
     (case stack st of
        x2 # x1 # s \<Rightarrow>
          let fEqual = (x1 = x2)
          in if opcode = OP_EQUALVERIFY then
               if fEqual then Inr (st\<lparr>stack := s\<rparr>) else set_error SCRIPT_ERR_EQUALVERIFY
             else Inr (st\<lparr>stack := vchBool fEqual # s\<rparr>)
      | _ \<Rightarrow> set_error SCRIPT_ERR_INVALID_STACK_OPERATION)"

section \<open>Arithmetic\<close>

abbreviation (input) num_of_bool :: "bool \<Rightarrow> int" where
  "num_of_bool b \<equiv> (if b then 1 else 0)"

definition unary_num :: "byte \<Rightarrow> int \<Rightarrow> eval_error + int" where
  "unary_num opcode bn =
     (if opcode = OP_1ADD then assertE (num_add_assign bn 1)
      else if opcode = OP_1SUB then assertE (num_sub_assign bn 1)
      else if opcode = OP_NEGATE then assertE (num_neg bn)
      else if opcode = OP_ABS then if bn < 0 then assertE (num_neg bn) else Inr bn
      else if opcode = OP_NOT then Inr (num_of_bool (bn = 0))
      else if opcode = OP_0NOTEQUAL then Inr (num_of_bool (bn \<noteq> 0))
      else Inl Abort)"

definition op_unary :: "byte \<Rightarrow> bool \<Rightarrow> EvalState \<Rightarrow> result" where
  "op_unary opcode fRequireMinimal st =
     (case stack st of
        x # s \<Rightarrow>
          bindE (numE x fRequireMinimal nDefaultMaxNumSize) (\<lambda>bn.
          bindE (unary_num opcode bn) (\<lambda>bn'.
          Inr (st\<lparr>stack := num_getvch bn' # s\<rparr>)))
      | _ \<Rightarrow> set_error SCRIPT_ERR_INVALID_STACK_OPERATION)"

definition binary_num :: "byte \<Rightarrow> int \<Rightarrow> int \<Rightarrow> eval_error + int" where
  "binary_num opcode bn1 bn2 =
     (if opcode = OP_ADD then Inr (bn1 + bn2)
      else if opcode = OP_SUB then Inr (bn1 - bn2)
      else if opcode = OP_BOOLAND then Inr (num_of_bool (bn1 \<noteq> 0 \<and> bn2 \<noteq> 0))
      else if opcode = OP_BOOLOR then Inr (num_of_bool (bn1 \<noteq> 0 \<or> bn2 \<noteq> 0))
      else if opcode = OP_NUMEQUAL then Inr (num_of_bool (bn1 = bn2))
      else if opcode = OP_NUMEQUALVERIFY then Inr (num_of_bool (bn1 = bn2))
      else if opcode = OP_NUMNOTEQUAL then Inr (num_of_bool (bn1 \<noteq> bn2))
      else if opcode = OP_LESSTHAN then Inr (num_of_bool (bn1 < bn2))
      else if opcode = OP_GREATERTHAN then Inr (num_of_bool (bn1 > bn2))
      else if opcode = OP_LESSTHANOREQUAL then Inr (num_of_bool (bn1 \<le> bn2))
      else if opcode = OP_GREATERTHANOREQUAL then Inr (num_of_bool (bn1 \<ge> bn2))
      else if opcode = OP_MIN then Inr (if bn1 < bn2 then bn1 else bn2)
      else if opcode = OP_MAX then Inr (if bn1 > bn2 then bn1 else bn2)
      else Inl Abort)"

definition op_binary :: "byte \<Rightarrow> bool \<Rightarrow> EvalState \<Rightarrow> result" where
  "op_binary opcode fRequireMinimal st =
     (case stack st of
        x2 # x1 # s \<Rightarrow>
          bindE (numE x1 fRequireMinimal nDefaultMaxNumSize) (\<lambda>bn1.
          bindE (numE x2 fRequireMinimal nDefaultMaxNumSize) (\<lambda>bn2.
          bindE (binary_num opcode bn1 bn2) (\<lambda>bn.
            if opcode = OP_NUMEQUALVERIFY then
              if CastToBool (num_getvch bn) then Inr (st\<lparr>stack := s\<rparr>)
              else set_error SCRIPT_ERR_NUMEQUALVERIFY
            else Inr (st\<lparr>stack := num_getvch bn # s\<rparr>))))
      | _ \<Rightarrow> set_error SCRIPT_ERR_INVALID_STACK_OPERATION)"

definition op_within :: "bool \<Rightarrow> EvalState \<Rightarrow> result" where
  "op_within fRequireMinimal st =
     (case stack st of
        x3 # x2 # x1 # s \<Rightarrow>
          bindE (numE x1 fRequireMinimal nDefaultMaxNumSize) (\<lambda>bn1.
          bindE (numE x2 fRequireMinimal nDefaultMaxNumSize) (\<lambda>bn2.
          bindE (numE x3 fRequireMinimal nDefaultMaxNumSize) (\<lambda>bn3.
            Inr (st\<lparr>stack := vchBool (bn2 \<le> bn1 \<and> bn1 < bn3) # s\<rparr>))))
      | _ \<Rightarrow> set_error SCRIPT_ERR_INVALID_STACK_OPERATION)"

section \<open>Hashes and signatures\<close>

definition op_hash :: "hash_funs \<Rightarrow> byte \<Rightarrow> EvalState \<Rightarrow> result" where
  "op_hash H opcode st =
     (case stack st of
        vch # s \<Rightarrow>
          let vchHash = (if opcode = OP_RIPEMD160 then RIPEMD160 H vch
                         else if opcode = OP_SHA1 then SHA1 H vch
                         else if opcode = OP_SHA256 then SHA256 H vch
                         else if opcode = OP_HASH160 then CHash160 H vch
                         else CHash256 H vch)
          in Inr (st\<lparr>stack := vchHash # s\<rparr>)
      | _ \<Rightarrow> set_error SCRIPT_ERR_INVALID_STACK_OPERATION)"

definition op_codeseparator :: "bytes \<Rightarrow> EvalState \<Rightarrow> result" where
  "op_codeseparator pc st = Inr (st\<lparr>pbegincodehash := pc\<rparr>)"

text \<open>\<open>CScript(vchSig)\<close> is the script that pushes the signature.\<close>

definition drop_signature :: "SigVersion \<Rightarrow> bytes \<Rightarrow> bytes \<Rightarrow> bytes" where
  "drop_signature sigversion scriptCode vchSig =
     (if sigversion = SIGVERSION_BASE then snd (FindAndDelete scriptCode (push_vch vchSig)) else scriptCode)"

definition check_encodings :: "hash_funs \<Rightarrow> u32 \<Rightarrow> SigVersion \<Rightarrow> bytes \<Rightarrow> bytes \<Rightarrow> eval_error + unit" where
  "check_encodings H flags sigversion vchSig vchPubKey =
     bindE (CheckSignatureEncoding (CheckLowS H) vchSig flags) (\<lambda>_. CheckPubKeyEncoding vchPubKey flags sigversion)"

definition op_checksig ::
  "hash_funs \<Rightarrow> BaseSignatureChecker \<Rightarrow> byte \<Rightarrow> u32 \<Rightarrow> SigVersion \<Rightarrow> EvalState \<Rightarrow> result" where
  "op_checksig H checker opcode flags sigversion st =
     (case stack st of
        vchPubKey # vchSig # s \<Rightarrow>
          let scriptCode = drop_signature sigversion (pbegincodehash st) vchSig
          in bindE (check_encodings H flags sigversion vchSig vchPubKey) (\<lambda>_.
            let fSuccess = CheckSig checker vchSig vchPubKey scriptCode sigversion
            in if \<not> fSuccess \<and> has_flag flags SCRIPT_VERIFY_NULLFAIL \<and> vchSig \<noteq> []
               then set_error SCRIPT_ERR_SIG_NULLFAIL
               else if opcode = OP_CHECKSIGVERIFY then
                 if fSuccess then Inr (st\<lparr>stack := s\<rparr>) else set_error SCRIPT_ERR_CHECKSIGVERIFY
               else Inr (st\<lparr>stack := vchBool fSuccess # s\<rparr>))
      | _ \<Rightarrow> set_error SCRIPT_ERR_INVALID_STACK_OPERATION)"

text \<open>
  The matching loop of \<open>OP_CHECKMULTISIG\<close>: the signatures and the keys still to be looked at are the
  stack items from \<open>isig\<close> and from \<open>ikey\<close> on, \<open>nSigsCount\<close> and \<open>nKeysCount\<close> many. A round consumes a
  key, and a signature where the check succeeds; more signatures than keys ends the loop.
\<close>

fun multisig_loop :: "(bytes \<Rightarrow> bytes \<Rightarrow> eval_error + bool) \<Rightarrow> bytes list \<Rightarrow> bytes list \<Rightarrow> eval_error + bool" where
  "multisig_loop check [] keys = Inr True"
| "multisig_loop check (vchSig # sigs) [] = Inr False"
| "multisig_loop check (vchSig # sigs) (vchPubKey # keys) =
     bindE (check vchSig vchPubKey) (\<lambda>fOk.
       let sigs' = (if fOk then sigs else vchSig # sigs)
       in if length sigs' > length keys then Inr False else multisig_loop check sigs' keys)"

text \<open>The clean-up loop: \<open>n\<close> items to pop, the first \<open>ikey2\<close> of them not signatures.\<close>

primrec multisig_cleanup :: "bool \<Rightarrow> nat \<Rightarrow> nat \<Rightarrow> bytes list \<Rightarrow> eval_error + bytes list" where
  "multisig_cleanup nullfail 0 ikey2 s = Inr s"
| "multisig_cleanup nullfail (Suc n) ikey2 s =
     (if nullfail \<and> ikey2 = 0 \<and> hd s \<noteq> [] then set_error SCRIPT_ERR_SIG_NULLFAIL
      else multisig_cleanup nullfail n (ikey2 - 1) (tl s))"

text \<open>The part of the case after the counts are read: deleting the signatures, matching, cleaning up.\<close>

definition multisig_body ::
  "hash_funs \<Rightarrow> BaseSignatureChecker \<Rightarrow> byte \<Rightarrow> u32 \<Rightarrow> SigVersion \<Rightarrow> nat \<Rightarrow> nat \<Rightarrow> EvalState \<Rightarrow> result" where
  "multisig_body H checker opcode flags sigversion nKeysCount nSigsCount st =
     (let keys = take nKeysCount (drop 1 (stack st));
          sigs = take nSigsCount (drop (nKeysCount + 2) (stack st));
          scriptCode = foldl (drop_signature sigversion) (pbegincodehash st) sigs;
          check = (\<lambda>vchSig vchPubKey. bindE (check_encodings H flags sigversion vchSig vchPubKey)
                     (\<lambda>_. Inr (CheckSig checker vchSig vchPubKey scriptCode sigversion)))
      in bindE (multisig_loop check sigs keys) (\<lambda>fSuccess.
         bindE (multisig_cleanup (\<not> fSuccess \<and> has_flag flags SCRIPT_VERIFY_NULLFAIL)
                  (nKeysCount + 2 + nSigsCount) (nKeysCount + 2) (stack st)) (\<lambda>s.
         if length s < 1 then set_error SCRIPT_ERR_INVALID_STACK_OPERATION
         else if has_flag flags SCRIPT_VERIFY_NULLDUMMY \<and> s ! 0 \<noteq> [] then set_error SCRIPT_ERR_SIG_NULLDUMMY
         else if opcode = OP_CHECKMULTISIGVERIFY then
           if fSuccess then Inr (st\<lparr>stack := tl s\<rparr>) else set_error SCRIPT_ERR_CHECKMULTISIGVERIFY
         else Inr (st\<lparr>stack := vchBool fSuccess # tl s\<rparr>))))"

definition op_checkmultisig ::
  "hash_funs \<Rightarrow> BaseSignatureChecker \<Rightarrow> byte \<Rightarrow> u32 \<Rightarrow> SigVersion \<Rightarrow> bool \<Rightarrow> EvalState \<Rightarrow> result" where
  "op_checkmultisig H checker opcode flags sigversion fRequireMinimal st =
     (if length (stack st) < 1 then set_error SCRIPT_ERR_INVALID_STACK_OPERATION
      else bindE (numE (stack st ! 0) fRequireMinimal nDefaultMaxNumSize) (\<lambda>num.
        let nKeysCount = num_getint num
        in if nKeysCount < 0 \<or> nKeysCount > MAX_PUBKEYS_PER_MULTISIG then set_error SCRIPT_ERR_PUBKEY_COUNT
           else let nOpCount' = nOpCount st + nKeysCount
           in if nOpCount' > MAX_OPS_PER_SCRIPT then set_error SCRIPT_ERR_OP_COUNT
           else let i = 2 + nat nKeysCount
           in if length (stack st) < i then set_error SCRIPT_ERR_INVALID_STACK_OPERATION
           else bindE (numE (stack st ! (i - 1)) fRequireMinimal nDefaultMaxNumSize) (\<lambda>num2.
             let nSigsCount = num_getint num2
             in if nSigsCount < 0 \<or> nSigsCount > nKeysCount then set_error SCRIPT_ERR_SIG_COUNT
                else let i' = i + 1 + nat nSigsCount
                in if length (stack st) < i' then set_error SCRIPT_ERR_INVALID_STACK_OPERATION
                else multisig_body H checker opcode flags sigversion (nat nKeysCount) (nat nSigsCount)
                       (st\<lparr>nOpCount := nOpCount'\<rparr>))))"

section \<open>The switch\<close>

definition disabled_opcode :: "byte \<Rightarrow> bool" where
  "disabled_opcode opcode \<longleftrightarrow>
     opcode = OP_CAT \<or> opcode = OP_SUBSTR \<or> opcode = OP_LEFT \<or> opcode = OP_RIGHT \<or> opcode = OP_INVERT \<or>
     opcode = OP_AND \<or> opcode = OP_OR \<or> opcode = OP_XOR \<or> opcode = OP_2MUL \<or> opcode = OP_2DIV \<or>
     opcode = OP_MUL \<or> opcode = OP_DIV \<or> opcode = OP_MOD \<or> opcode = OP_LSHIFT \<or> opcode = OP_RSHIFT"

definition exec_op ::
  "hash_funs \<Rightarrow> BaseSignatureChecker \<Rightarrow> u32 \<Rightarrow> SigVersion \<Rightarrow> bool \<Rightarrow> byte \<Rightarrow> bytes \<Rightarrow> EvalState \<Rightarrow> result" where
  "exec_op H checker flags sigversion fExec opcode pc st =
     (let fRequireMinimal = has_flag flags SCRIPT_VERIFY_MINIMALDATA
      in if opcode = OP_1NEGATE \<or> (OP_1 \<le> opcode \<and> opcode \<le> OP_16) then op_push_number opcode st
      else if opcode = OP_NOP then Inr st
      else if opcode = OP_EXCHANGEADDR then op_exchangeaddr st
      else if opcode = OP_CHECKLOCKTIMEVERIFY then op_checklocktimeverify checker flags fRequireMinimal st
      else if opcode = OP_CHECKSEQUENCEVERIFY then op_checksequenceverify checker flags fRequireMinimal st
      else if opcode = OP_NOP1 \<or> (OP_NOP4 \<le> opcode \<and> opcode \<le> OP_NOP10) then op_upgradable_nop flags st
      else if opcode = OP_IF \<or> opcode = OP_NOTIF then op_if opcode fExec flags sigversion st
      else if opcode = OP_ELSE then op_else st
      else if opcode = OP_ENDIF then op_endif st
      else if opcode = OP_VERIFY then op_verify st
      else if opcode = OP_RETURN then set_error SCRIPT_ERR_OP_RETURN
      else if opcode = OP_TOALTSTACK then op_toaltstack st
      else if opcode = OP_FROMALTSTACK then op_fromaltstack st
      else if opcode = OP_2DROP then stack_op stk_2drop st
      else if opcode = OP_2DUP then stack_op stk_2dup st
      else if opcode = OP_3DUP then stack_op stk_3dup st
      else if opcode = OP_2OVER then stack_op stk_2over st
      else if opcode = OP_2ROT then stack_op stk_2rot st
      else if opcode = OP_2SWAP then stack_op stk_2swap st
      else if opcode = OP_IFDUP then stack_op stk_ifdup st
      else if opcode = OP_DEPTH then op_depth st
      else if opcode = OP_DROP then stack_op stk_drop st
      else if opcode = OP_DUP then stack_op stk_dup st
      else if opcode = OP_NIP then stack_op stk_nip st
      else if opcode = OP_OVER then stack_op stk_over st
      else if opcode = OP_PICK \<or> opcode = OP_ROLL then op_pick_roll opcode fRequireMinimal st
      else if opcode = OP_ROT then stack_op stk_rot st
      else if opcode = OP_SWAP then stack_op stk_swap st
      else if opcode = OP_TUCK then stack_op stk_tuck st
      else if opcode = OP_SIZE then stack_op stk_size st
      else if opcode = OP_EQUAL \<or> opcode = OP_EQUALVERIFY then op_equal opcode st
      else if opcode = OP_1ADD \<or> opcode = OP_1SUB \<or> opcode = OP_NEGATE \<or> opcode = OP_ABS \<or>
              opcode = OP_NOT \<or> opcode = OP_0NOTEQUAL then op_unary opcode fRequireMinimal st
      else if opcode = OP_ADD \<or> opcode = OP_SUB \<or> (OP_BOOLAND \<le> opcode \<and> opcode \<le> OP_MAX)
      then op_binary opcode fRequireMinimal st
      else if opcode = OP_WITHIN then op_within fRequireMinimal st
      else if OP_RIPEMD160 \<le> opcode \<and> opcode \<le> OP_HASH256 then op_hash H opcode st
      else if opcode = OP_CODESEPARATOR then op_codeseparator pc st
      else if opcode = OP_CHECKSIG \<or> opcode = OP_CHECKSIGVERIFY
      then op_checksig H checker opcode flags sigversion st
      else if opcode = OP_CHECKMULTISIG \<or> opcode = OP_CHECKMULTISIGVERIFY
      then op_checkmultisig H checker opcode flags sigversion fRequireMinimal st
      else set_error SCRIPT_ERR_BAD_OPCODE)"

text \<open>
  One round of the loop after \<open>GetOp\<close> has read the instruction: counting (lines 285-286), the push or the
  switch (lines 305-1036), the size limits (lines 1039-1042).
\<close>

definition counted :: "byte \<Rightarrow> EvalState \<Rightarrow> EvalState" where
  "counted opcode st = (if opcode > OP_16 then st\<lparr>nOpCount := nOpCount st + 1\<rparr> else st)"

definition dispatch ::
  "hash_funs \<Rightarrow> BaseSignatureChecker \<Rightarrow> u32 \<Rightarrow> SigVersion \<Rightarrow> byte \<Rightarrow> bytes \<Rightarrow> bytes \<Rightarrow> EvalState \<Rightarrow> result" where
  "dispatch H checker flags sigversion opcode vchPushValue pc st =
     (let fExec = (False \<notin> set (vfExec st))
      in if fExec \<and> opcode \<le> OP_PUSHDATA4 then
           if has_flag flags SCRIPT_VERIFY_MINIMALDATA \<and> \<not> CheckMinimalPush vchPushValue opcode
           then set_error SCRIPT_ERR_MINIMALDATA
           else Inr (st\<lparr>stack := vchPushValue # stack st\<rparr>)
         else if fExec \<or> (OP_IF \<le> opcode \<and> opcode \<le> OP_ENDIF)
         then exec_op H checker flags sigversion fExec opcode pc st
         else Inr st)"

definition size_limits :: "EvalState \<Rightarrow> result" where
  "size_limits st =
     (if length (stack st) + length (altstack st) > 1000 then set_error SCRIPT_ERR_STACK_SIZE
      else Inr (st\<lparr>fFirstOpCode := False\<rparr>))"

definition eval_step ::
  "hash_funs \<Rightarrow> BaseSignatureChecker \<Rightarrow> u32 \<Rightarrow> SigVersion \<Rightarrow> byte \<Rightarrow> bytes \<Rightarrow> bytes \<Rightarrow> EvalState \<Rightarrow> result" where
  "eval_step H checker flags sigversion opcode vchPushValue pc st =
     (if length vchPushValue > MAX_SCRIPT_ELEMENT_SIZE then set_error SCRIPT_ERR_PUSH_SIZE
      else if opcode > OP_16 \<and> nOpCount (counted opcode st) > MAX_OPS_PER_SCRIPT then set_error SCRIPT_ERR_OP_COUNT
      else if disabled_opcode opcode then set_error SCRIPT_ERR_DISABLED_OPCODE
      else bindE (dispatch H checker flags sigversion opcode vchPushValue pc (counted opcode st)) size_limits)"

function eval_loop ::
  "hash_funs \<Rightarrow> BaseSignatureChecker \<Rightarrow> u32 \<Rightarrow> SigVersion \<Rightarrow> bytes \<Rightarrow> EvalState \<Rightarrow> result" where
  "eval_loop H checker flags sigversion pc st =
     (if pc = [] then Inr st
      else case GetOp2 pc of (ok, opcode, vchPushValue, rest) \<Rightarrow>
        if \<not> ok then set_error SCRIPT_ERR_BAD_OPCODE
        else bindE (eval_step H checker flags sigversion opcode vchPushValue rest st)
               (eval_loop H checker flags sigversion rest))"
  by auto
termination
  by (relation "measure (\<lambda>(H, c, f, v, pc, st). length pc)") (auto dest: GetOp2_progress [OF sym])

declare eval_loop.simps [simp del]

definition EvalScript ::
  "hash_funs \<Rightarrow> bytes list \<Rightarrow> bytes \<Rightarrow> u32 \<Rightarrow> BaseSignatureChecker \<Rightarrow> SigVersion \<Rightarrow> eval_error + bytes list" where
  "EvalScript H stk script flags checker sigversion =
     (if length script > MAX_SCRIPT_SIZE then set_error SCRIPT_ERR_SCRIPT_SIZE
      else bindE (eval_loop H checker flags sigversion script
                    \<lparr>stack = stk, altstack = [], vfExec = [], nOpCount = 0, pbegincodehash = script,
                     fFirstOpCode = True\<rparr>)
        (\<lambda>st. if vfExec st \<noteq> [] then set_error SCRIPT_ERR_UNBALANCED_CONDITIONAL else Inr (stack st)))"

end
