(* ===== verification/InterpreterProps.thy ===== *)
theory InterpreterProps
  imports Interpreter
begin

text \<open>
  What the script interpreter guarantees: no assertion can fail, the resource limits hold at every
  step, and turning verification flags off never turns an accepted script into a rejected one (soft
  fork safety), as long as no flag that only discourages is set.
\<close>

section \<open>Case rules for the switch\<close>

text \<open>A property of every case is a property of the switch; a relation that holds between the cases under
  two sets of flags holds between the switches.\<close>

definition plain_stack_ops :: "(bytes list \<Rightarrow> bytes list option) set" where
  "plain_stack_ops = {stk_2drop, stk_2dup, stk_3dup, stk_2over, stk_2rot, stk_2swap, stk_ifdup, stk_drop,
     stk_dup, stk_nip, stk_over, stk_rot, stk_swap, stk_tuck, stk_size}"

definition unary_opcode :: "byte \<Rightarrow> bool" where
  "unary_opcode opcode \<longleftrightarrow> opcode = OP_1ADD \<or> opcode = OP_1SUB \<or> opcode = OP_NEGATE \<or> opcode = OP_ABS \<or>
     opcode = OP_NOT \<or> opcode = OP_0NOTEQUAL"

definition binary_opcode :: "byte \<Rightarrow> bool" where
  "binary_opcode opcode \<longleftrightarrow> opcode = OP_ADD \<or> opcode = OP_SUB \<or> (OP_BOOLAND \<le> opcode \<and> opcode \<le> OP_MAX)"

lemma if_rel: "(c \<Longrightarrow> R a a') \<Longrightarrow> (\<not> c \<Longrightarrow> R b b') \<Longrightarrow> R (if c then a else b) (if c then a' else b')"
  by simp

lemma exec_op_rel:
  fixes flags flags' :: u32 and st :: EvalState
  defines "m \<equiv> has_flag flags SCRIPT_VERIFY_MINIMALDATA" and "m' \<equiv> has_flag flags' SCRIPT_VERIFY_MINIMALDATA"
  assumes err: "\<And>e. R (set_error e) (set_error e)"
    and nop: "R (Inr st) (Inr st)"
    and num: "R (op_push_number opcode st) (op_push_number opcode st)"
    and exch: "R (op_exchangeaddr st) (op_exchangeaddr st)"
    and cltv: "R (op_checklocktimeverify checker flags m st) (op_checklocktimeverify checker flags' m' st)"
    and csv: "R (op_checksequenceverify checker flags m st) (op_checksequenceverify checker flags' m' st)"
    and unop: "R (op_upgradable_nop flags st) (op_upgradable_nop flags' st)"
    and cond: "R (op_if opcode fExec flags sigversion st) (op_if opcode fExec flags' sigversion st)"
    and els: "R (op_else st) (op_else st)" and endif: "R (op_endif st) (op_endif st)"
    and ver: "R (op_verify st) (op_verify st)"
    and alt: "R (op_toaltstack st) (op_toaltstack st)" "R (op_fromaltstack st) (op_fromaltstack st)"
    and stk: "\<And>f. f \<in> plain_stack_ops \<Longrightarrow> R (stack_op f st) (stack_op f st)"
    and dep: "R (op_depth st) (op_depth st)"
    and pick: "R (op_pick_roll opcode m st) (op_pick_roll opcode m' st)"
    and eq: "R (op_equal opcode st) (op_equal opcode st)"
    and una: "unary_opcode opcode \<Longrightarrow> R (op_unary opcode m st) (op_unary opcode m' st)"
    and bin: "binary_opcode opcode \<Longrightarrow> R (op_binary opcode m st) (op_binary opcode m' st)"
    and within: "R (op_within m st) (op_within m' st)"
    and hash: "R (op_hash H opcode st) (op_hash H opcode st)"
    and sep: "R (op_codeseparator pc st) (op_codeseparator pc st)"
    and sig: "R (op_checksig H checker opcode flags sigversion st) (op_checksig H checker opcode flags' sigversion st)"
    and multi: "R (op_checkmultisig H checker opcode flags sigversion m st)
                  (op_checkmultisig H checker opcode flags' sigversion m' st)"
  shows "R (exec_op H checker flags sigversion fExec opcode pc st) (exec_op H checker flags' sigversion fExec opcode pc st)"
  unfolding exec_op_def Let_def m_def [symmetric] m'_def [symmetric]
  by (rule if_rel, rule num, rule if_rel, rule nop, rule if_rel, rule exch, rule if_rel, rule cltv,
      rule if_rel, rule csv, rule if_rel, rule unop, rule if_rel, rule cond, rule if_rel, rule els,
      rule if_rel, rule endif, rule if_rel, rule ver, rule if_rel, rule err, rule if_rel, rule alt,
      rule if_rel, rule alt)
    ((rule if_rel, rule stk, simp add: plain_stack_ops_def | rule if_rel, rule dep | rule if_rel, rule pick
      | rule if_rel, rule eq | rule if_rel, rule una, simp add: unary_opcode_def
      | rule if_rel, rule bin, simp add: binary_opcode_def | rule if_rel, rule within | rule if_rel, rule hash
      | rule if_rel, rule sep | rule if_rel, rule sig | rule if_rel, rule multi)+, rule err)

section \<open>No assertion fails\<close>

lemma numE_no_abort [simp]: "numE vch m k \<noteq> Inl Abort"
  by (simp add: numE_def split: option.split)

lemma numE_bounds: "numE vch m 4 = Inr n \<Longrightarrow> \<bar>n\<bar> < 2 ^ 31"
  using CScriptNum_bounds [of vch m 4 n] by (simp add: numE_def split: option.splits)

lemma unary_num_ok:
  assumes "unary_opcode opcode" "\<bar>bn\<bar> < 2 ^ 31"
  shows "\<exists>n. unary_num opcode bn = Inr n \<and> \<bar>n\<bar> \<le> 2 ^ 31"
  using assms
  by (auto simp: unary_opcode_def unary_num_def assertE_def num_add_assign_def num_sub_assign_def num_neg_def)

lemma binary_opcode_cases:
  "binary_opcode opcode \<Longrightarrow> opcode \<in> {OP_ADD, OP_SUB, OP_BOOLAND, OP_BOOLOR, OP_NUMEQUAL, OP_NUMEQUALVERIFY,
     OP_NUMNOTEQUAL, OP_LESSTHAN, OP_GREATERTHAN, OP_LESSTHANOREQUAL, OP_GREATERTHANOREQUAL, OP_MIN, OP_MAX}"
proof -
  assume b: "binary_opcode opcode"
  have "opcode \<in> {OP_BOOLAND, OP_BOOLOR, OP_NUMEQUAL, OP_NUMEQUALVERIFY, OP_NUMNOTEQUAL, OP_LESSTHAN, OP_GREATERTHAN,
      OP_LESSTHANOREQUAL, OP_GREATERTHANOREQUAL, OP_MIN, OP_MAX}" if "OP_BOOLAND \<le> opcode" "opcode \<le> OP_MAX"
  proof -
    have "uint opcode \<in> {154..164}" using that by (simp add: word_le_def)
    also have "{154..164} = {154, 155, 156, 157, 158, 159, 160, 161, 162, 163, 164 :: int}"
      by (simp add: set_upto [symmetric] upto_rec_numeral del: set_upto)
    finally have "\<exists>i \<in> {154, 155, 156, 157, 158, 159, 160, 161, 162, 163, 164 :: int}. opcode = word_of_int i"
      by (metis word_of_int_uint)
    then show ?thesis by auto
  qed
  then show ?thesis using b by (auto simp: binary_opcode_def)
qed

lemma binary_num_ok:
  assumes "binary_opcode opcode" "\<bar>bn1\<bar> < 2 ^ 31" "\<bar>bn2\<bar> < 2 ^ 31"
  shows "\<exists>n. binary_num opcode bn1 bn2 = Inr n \<and> \<bar>n\<bar> < 2 ^ 32"
  using binary_opcode_cases [OF assms(1)] assms(2,3) by (auto simp: binary_num_def)

lemma multisig_loop_no_abort:
  "(\<And>s k. check s k \<noteq> Inl Abort) \<Longrightarrow> multisig_loop check sigs keys \<noteq> Inl Abort"
  by (induction check sigs keys rule: multisig_loop.induct) (auto simp: bindE_eq_Inl_iff Let_def split: if_splits)

lemma multisig_cleanup_no_abort: "multisig_cleanup nf n k s \<noteq> Inl Abort"
  by (induction n arbitrary: k s) auto

lemma check_encodings_no_abort: "check_encodings H flags sv sig key \<noteq> Inl Abort"
  using encoding_no_abort by (auto simp: check_encodings_def bindE_eq_Inl_iff)

lemma multisig_body_no_abort: "multisig_body H checker opcode flags sv k n st \<noteq> Inl Abort"
  by (auto simp: multisig_body_def Let_def bindE_eq_Inl_iff check_encodings_no_abort multisig_cleanup_no_abort
      dest!: multisig_loop_no_abort [THEN notE, rotated] split: if_splits)

lemma exec_op_no_abort: "exec_op H checker flags sv fExec opcode pc st \<noteq> Inl Abort"
proof (rule exec_op_rel [where R = "\<lambda>x y. x \<noteq> Inl Abort" and flags' = flags])
  show "op_unary opcode m st \<noteq> Inl Abort" if "unary_opcode opcode" for m
  proof -
    have "unary_num opcode bn \<noteq> Inl Abort" if "numE x m 4 = Inr bn" for x bn
      using unary_num_ok [OF \<open>unary_opcode opcode\<close> numE_bounds [OF that]] by auto
    then show ?thesis by (auto simp: op_unary_def bindE_eq_Inl_iff split: list.splits)
  qed
  show "op_binary opcode m st \<noteq> Inl Abort" if "binary_opcode opcode" for m
  proof -
    have "binary_num opcode b1 b2 \<noteq> Inl Abort" if "numE x m 4 = Inr b1" "numE y m 4 = Inr b2" for x y b1 b2
      using binary_num_ok [OF \<open>binary_opcode opcode\<close> numE_bounds [OF that(1)] numE_bounds [OF that(2)]] by auto
    then show ?thesis by (auto simp: op_binary_def bindE_eq_Inl_iff split: list.splits if_splits)
  qed
  show "op_checkmultisig H checker opcode flags sv m st \<noteq> Inl Abort" for m
    by (auto simp: op_checkmultisig_def Let_def bindE_eq_Inl_iff multisig_body_no_abort split: if_splits)
qed (auto simp: op_push_number_def op_exchangeaddr_def op_checklocktimeverify_def op_checksequenceverify_def
    op_upgradable_nop_def op_if_def op_else_def op_endif_def op_verify_def op_toaltstack_def op_fromaltstack_def
    stack_op_def op_depth_def op_pick_roll_def op_equal_def op_within_def op_hash_def op_codeseparator_def
    op_checksig_def check_encodings_no_abort Let_def bindE_eq_Inl_iff
    split: if_splits option.splits list.splits)

lemma eval_step_no_abort: "eval_step H checker flags sv opcode vch pc st \<noteq> Inl Abort"
  by (auto simp: eval_step_def dispatch_def size_limits_def Let_def bindE_eq_Inl_iff exec_op_no_abort split: if_splits)

lemma eval_loop_no_abort: "eval_loop H checker flags sv pc st \<noteq> Inl Abort"
proof (induction "length pc" arbitrary: pc st rule: less_induct)
  case less
  obtain ok opcode vch rest where g: "GetOp2 pc = (ok, opcode, vch, rest)" by (cases "GetOp2 pc")
  show ?case
    using less [of rest] GetOp2_progress [OF g] eval_step_no_abort
    by (subst eval_loop.simps) (auto simp: g bindE_eq_Inl_iff)
qed

lemma EvalScript_no_abort: "EvalScript H stk script flags checker sv \<noteq> Inl Abort"
  by (auto simp: EvalScript_def bindE_eq_Inl_iff eval_loop_no_abort split: if_splits)

section \<open>Fewer flags accept more\<close>

lemma numE_mono: "numE vch m k = Inr n \<Longrightarrow> (m' \<Longrightarrow> m) \<Longrightarrow> numE vch m' k = Inr n"
  using CScriptNum_mono [of vch m k n m'] by (auto simp: numE_def split: option.splits)

lemma check_encodings_mono:
  "check_encodings H flags sv sig key = Inr u \<Longrightarrow> flags_sub flags' flags \<Longrightarrow>
    check_encodings H flags' sv sig key = Inr u"
  by (auto simp: check_encodings_def bindE_eq_Inr_iff intro: CheckSignatureEncoding_mono CheckPubKeyEncoding_mono)

lemma multisig_loop_mono:
  assumes "\<And>s k b. check s k = Inr b \<Longrightarrow> check' s k = Inr b"
  shows "multisig_loop check sigs keys = Inr r \<Longrightarrow> multisig_loop check' sigs keys = Inr r"
  using assms
  by (induction check sigs keys rule: multisig_loop.induct) (auto simp: bindE_eq_Inr_iff Let_def split: if_splits)

lemma multisig_cleanup_mono:
  "multisig_cleanup nf n k s = Inr r \<Longrightarrow> (nf' \<Longrightarrow> nf) \<Longrightarrow> multisig_cleanup nf' n k s = Inr r"
  by (induction n arbitrary: k s) (auto split: if_splits)

lemma multisig_body_mono:
  assumes "flags_sub flags' flags" "multisig_body H checker opcode flags sv k n st = Inr s"
  shows "multisig_body H checker opcode flags' sv k n st = Inr s"
proof -
  note f = has_flag_mono [OF assms(1)]
  define check where "check fl = (\<lambda>sig key. bindE (check_encodings H fl sv sig key)
      (\<lambda>_. Inr (CheckSig checker sig key (foldl (drop_signature sv) (pbegincodehash st) (take n (drop (k + 2) (stack st)))) sv)))" for fl
  have "check flags sig key = Inr b \<Longrightarrow> check flags' sig key = Inr b" for sig key b
    using check_encodings_mono [OF _ assms(1)] by (auto simp: check_def bindE_eq_Inr_iff)
  then have loop: "multisig_loop (check flags) sigs keys = Inr b \<Longrightarrow> multisig_loop (check flags') sigs keys = Inr b" for sigs keys b
    by (rule multisig_loop_mono)
  obtain fs r where l: "multisig_loop (check flags) (take n (drop (k + 2) (stack st))) (take k (drop 1 (stack st))) = Inr fs"
    and c: "multisig_cleanup (\<not> fs \<and> has_flag flags SCRIPT_VERIFY_NULLFAIL) (k + 2 + n) (k + 2) (stack st) = Inr r"
    and e: "(if length r < 1 then set_error SCRIPT_ERR_INVALID_STACK_OPERATION
         else if has_flag flags SCRIPT_VERIFY_NULLDUMMY \<and> r ! 0 \<noteq> [] then set_error SCRIPT_ERR_SIG_NULLDUMMY
         else if opcode = OP_CHECKMULTISIGVERIFY then
           if fs then Inr (st\<lparr>stack := tl r\<rparr>) else set_error SCRIPT_ERR_CHECKMULTISIGVERIFY
         else Inr (st\<lparr>stack := vchBool fs # tl r\<rparr>)) = Inr s"
    using assms(2) by (auto simp: multisig_body_def Let_def bindE_eq_Inr_iff check_def)
  have "multisig_cleanup (\<not> fs \<and> has_flag flags' SCRIPT_VERIFY_NULLFAIL) (k + 2 + n) (k + 2) (stack st) = Inr r"
    by (rule multisig_cleanup_mono [OF c]) (use f in auto)
  then show ?thesis
    using loop [OF l] e f by (auto simp: multisig_body_def Let_def bindE_eq_Inr_iff check_def split: if_splits)
qed

text \<open>A result that is kept: if the first succeeds, so does the second, with the same value.\<close>

definition kept :: "'e + 'a \<Rightarrow> 'e + 'a \<Rightarrow> bool" where
  "kept x y \<longleftrightarrow> (\<forall>s. x = Inr s \<longrightarrow> y = Inr s)"

lemma kept_refl: "kept x x"
  by (simp add: kept_def)

lemma kept_Inl [simp]: "kept (Inl e) y"
  by (simp add: kept_def)

lemma kept_bindE: "kept m m' \<Longrightarrow> (\<And>x. kept (f x) (g x)) \<Longrightarrow> kept (bindE m f) (bindE m' g)"
  by (auto simp: kept_def bindE_eq_Inr_iff)

lemma kept_if: "(c \<Longrightarrow> kept a a') \<Longrightarrow> (\<not> c \<Longrightarrow> kept b b') \<Longrightarrow> kept (if c then a else b) (if c then a' else b')"
  by simp

lemma numE_kept: "(m' \<Longrightarrow> m) \<Longrightarrow> kept (numE vch m k) (numE vch m' k)"
  using numE_mono [of vch m k _ m'] by (auto simp: kept_def)

lemmas kept_intros = kept_if kept_bindE kept_refl numE_kept

lemma op_checkmultisig_kept:
  assumes "flags_sub flags' flags" "m' \<Longrightarrow> m"
  shows "kept (op_checkmultisig H checker opcode flags sv m st) (op_checkmultisig H checker opcode flags' sv m' st)"
proof -
  have b: "kept (multisig_body H checker opcode flags sv k n st) (multisig_body H checker opcode flags' sv k n st)" for k n st
    using multisig_body_mono [OF assms(1)] by (auto simp: kept_def)
  show ?thesis unfolding op_checkmultisig_def Let_def by (intro kept_intros b assms(2))
qed

lemma num_ops_kept:
  assumes "m' \<Longrightarrow> m"
  shows "kept (op_pick_roll opcode m st) (op_pick_roll opcode m' st)"
    "kept (op_unary opcode m st) (op_unary opcode m' st)"
    "kept (op_binary opcode m st) (op_binary opcode m' st)"
    "kept (op_within m st) (op_within m' st)"
  unfolding op_pick_roll_def op_unary_def op_binary_def op_within_def Let_def
  by (auto split: list.split intro!: kept_intros assms)

text \<open>
  With \<open>DISCOURAGE_UPGRADABLE_NOPS\<close> an opcode of a soft fork that is not enabled fails, so the opcodes that are enabled have to stay enabled where that
  policy is kept.
\<close>

definition nops_kept :: "u32 \<Rightarrow> u32 \<Rightarrow> bool" where
  "nops_kept flags' flags \<longleftrightarrow> (has_flag flags' SCRIPT_VERIFY_DISCOURAGE_UPGRADABLE_NOPS \<longrightarrow>
     (has_flag flags SCRIPT_VERIFY_CHECKLOCKTIMEVERIFY \<longrightarrow> has_flag flags' SCRIPT_VERIFY_CHECKLOCKTIMEVERIFY) \<and>
     (has_flag flags SCRIPT_VERIFY_CHECKSEQUENCEVERIFY \<longrightarrow> has_flag flags' SCRIPT_VERIFY_CHECKSEQUENCEVERIFY))"

lemma lock_ops_kept:
  assumes sub: "flags_sub flags' flags" and nd: "nops_kept flags' flags"
    and m: "m' \<Longrightarrow> m"
  shows "kept (op_checklocktimeverify checker flags m st) (op_checklocktimeverify checker flags' m' st)"
    "kept (op_checksequenceverify checker flags m st) (op_checksequenceverify checker flags' m' st)"
    "kept (op_upgradable_nop flags st) (op_upgradable_nop flags' st)"
proof -
  have d: "has_flag flags' SCRIPT_VERIFY_DISCOURAGE_UPGRADABLE_NOPS \<Longrightarrow> has_flag flags SCRIPT_VERIFY_DISCOURAGE_UPGRADABLE_NOPS"
    by (rule has_flag_mono [OF sub])
  show "kept (op_checklocktimeverify checker flags m st) (op_checklocktimeverify checker flags' m' st)"
  proof (cases "has_flag flags' SCRIPT_VERIFY_CHECKLOCKTIMEVERIFY")
    case True
    then show ?thesis using has_flag_mono [OF sub True] m
      unfolding op_checklocktimeverify_def by (auto intro!: kept_intros)
  qed (use nd d in \<open>auto simp: kept_def op_checklocktimeverify_def nops_kept_def bindE_eq_Inr_iff split: if_splits\<close>)
  show "kept (op_checksequenceverify checker flags m st) (op_checksequenceverify checker flags' m' st)"
  proof (cases "has_flag flags' SCRIPT_VERIFY_CHECKSEQUENCEVERIFY")
    case True
    then show ?thesis using has_flag_mono [OF sub True] m
      unfolding op_checksequenceverify_def by (auto intro!: kept_intros)
  qed (use nd d in \<open>auto simp: kept_def op_checksequenceverify_def nops_kept_def bindE_eq_Inr_iff split: if_splits\<close>)
  show "kept (op_upgradable_nop flags st) (op_upgradable_nop flags' st)"
    using d by (auto simp: kept_def op_upgradable_nop_def)
qed

lemma op_if_kept:
  assumes sub: "flags_sub flags' flags"
  shows "kept (op_if opcode fExec flags sv st) (op_if opcode fExec flags' sv st)"
  using has_flag_mono [OF sub, of SCRIPT_VERIFY_MINIMALIF]
  by (auto simp: kept_def op_if_def Let_def split: if_splits)

lemma op_checksig_kept:
  assumes sub: "flags_sub flags' flags"
  shows "kept (op_checksig H checker opcode flags sv st) (op_checksig H checker opcode flags' sv st)"
proof -
  have e: "kept (check_encodings H flags sv sig key) (check_encodings H flags' sv sig key)" for sig key
    using check_encodings_mono [OF _ sub] by (auto simp: kept_def)
  show ?thesis
    unfolding op_checksig_def Let_def by (auto split: list.split intro!: kept_bindE kept_refl e
        dest: has_flag_mono [OF sub])
qed

lemma exec_op_kept:
  assumes sub: "flags_sub flags' flags" and nd: "nops_kept flags' flags"
  shows "kept (exec_op H checker flags sv fExec opcode pc st) (exec_op H checker flags' sv fExec opcode pc st)"
  by (rule exec_op_rel) (auto intro!: kept_refl num_ops_kept lock_ops_kept [OF sub nd]
      op_if_kept [OF sub] op_checksig_kept [OF sub]
      op_checkmultisig_kept [OF sub] has_flag_mono [OF sub])

lemma exec_op_mono:
  assumes "flags_sub flags' flags" "nops_kept flags' flags"
    "exec_op H checker flags sv fExec opcode pc st = Inr s"
  shows "exec_op H checker flags' sv fExec opcode pc st = Inr s"
  using exec_op_kept [OF assms(1,2)] assms(3) by (auto simp: kept_def)

lemma eval_step_mono:
  assumes sub: "flags_sub flags' flags" and nd: "nops_kept flags' flags"
    and run: "eval_step H checker flags sv opcode vch pc st = Inr s"
  shows "eval_step H checker flags' sv opcode vch pc st = Inr s"
proof -
  have "kept (dispatch H checker flags sv opcode vch pc t) (dispatch H checker flags' sv opcode vch pc t)" for t
    using has_flag_mono [OF sub, of SCRIPT_VERIFY_MINIMALDATA] exec_op_kept [OF sub nd]
    by (auto simp: dispatch_def Let_def kept_refl)
  then have "kept (eval_step H checker flags sv opcode vch pc st) (eval_step H checker flags' sv opcode vch pc st)"
    unfolding eval_step_def by (intro kept_intros)
  with run show ?thesis by (simp add: kept_def)
qed

lemma eval_loop_mono:
  assumes sub: "flags_sub flags' flags" and nd: "nops_kept flags' flags"
    and run: "eval_loop H checker flags sv pc st = Inr s"
  shows "eval_loop H checker flags' sv pc st = Inr s"
  using run
proof (induction "length pc" arbitrary: pc st rule: less_induct)
  case less
  obtain ok opcode vch rest where g: "GetOp2 pc = (ok, opcode, vch, rest)" by (cases "GetOp2 pc")
  show ?case
    using less(1) [of rest] less(2) GetOp2_progress [OF g] eval_step_mono [OF sub nd]
    by (subst (asm) (2) eval_loop.simps, subst eval_loop.simps) (auto simp: g bindE_eq_Inr_iff split: if_splits)
qed

lemma EvalScript_mono:
  assumes sub: "flags_sub flags' flags" and nd: "nops_kept flags' flags"
    and run: "EvalScript H stk script flags checker sv = Inr s"
  shows "EvalScript H stk script flags' checker sv = Inr s"
  using run eval_loop_mono [OF sub nd] by (auto simp: EvalScript_def bindE_eq_Inr_iff split: if_splits)

section \<open>Resource limits\<close>

text \<open>What a property needs to hold throughout a run: that one round of the loop keeps it.\<close>

locale eval_invariant =
  fixes H :: hash_funs and checker :: BaseSignatureChecker and flags :: u32 and sigversion :: SigVersion
    and Inv :: "EvalState \<Rightarrow> bool"
  assumes step_keeps: "Inv st \<Longrightarrow> eval_step H checker flags sigversion opcode vch pc st = Inr st' \<Longrightarrow> Inv st'"
begin

lemma loop_keeps: "eval_loop H checker flags sigversion pc st = Inr st' \<Longrightarrow> Inv st \<Longrightarrow> Inv st'"
proof (induction "length pc" arbitrary: pc st rule: less_induct)
  case less
  obtain ok opcode vch rest where g: "GetOp2 pc = (ok, opcode, vch, rest)" by (cases "GetOp2 pc")
  show ?case
    using less(1) [of rest] less(2,3) GetOp2_progress [OF g] step_keeps
    by (subst (asm) (2) eval_loop.simps) (auto simp: g bindE_eq_Inr_iff split: if_splits)
qed

end

definition elems_ok :: "bytes list \<Rightarrow> bool" where
  "elems_ok xs \<longleftrightarrow> (\<forall>x\<in>set xs. length x \<le> MAX_SCRIPT_ELEMENT_SIZE)"

definition hash_ok :: "hash_funs \<Rightarrow> bool" where
  "hash_ok H \<longleftrightarrow> (\<forall>x. length (RIPEMD160 H x) = 20 \<and> length (SHA1 H x) = 20 \<and> length (SHA256 H x) = 32)"

definition limits_ok :: "EvalState \<Rightarrow> bool" where
  "limits_ok st \<longleftrightarrow> elems_ok (stack st) \<and> elems_ok (altstack st) \<and>
     length (stack st) + length (altstack st) \<le> 1000 \<and> nOpCount st \<le> MAX_OPS_PER_SCRIPT"

definition elems_inv :: "EvalState \<Rightarrow> bool" where
  "elems_inv st \<longleftrightarrow> elems_ok (stack st) \<and> elems_ok (altstack st) \<and> nOpCount st \<le> MAX_OPS_PER_SCRIPT"

lemma elems_ok_simps [simp]:
  "elems_ok []" "elems_ok (x # xs) \<longleftrightarrow> length x \<le> MAX_SCRIPT_ELEMENT_SIZE \<and> elems_ok xs"
  "elems_ok (xs @ ys) \<longleftrightarrow> elems_ok xs \<and> elems_ok ys"
  by (auto simp: elems_ok_def)

lemma elems_ok_sub: "elems_ok xs \<Longrightarrow> elems_ok (tl xs)" "elems_ok xs \<Longrightarrow> elems_ok (take n xs)"
  "elems_ok xs \<Longrightarrow> elems_ok (drop n xs)" "elems_ok xs \<Longrightarrow> n < length xs \<Longrightarrow> length (xs ! n) \<le> MAX_SCRIPT_ELEMENT_SIZE"
  by (auto simp: elems_ok_def dest: in_set_takeD in_set_dropD list.set_sel(2) [rotated])
    (metis list.sel(2) list.set_sel(2))

lemma num_getvch_length: "\<bar>n\<bar> < 2 ^ 39 \<Longrightarrow> length (num_getvch n) \<le> MAX_SCRIPT_ELEMENT_SIZE"
  using serialize_length [of n 5] by (simp add: num_getvch_def)

lemma vchBool_length [simp]: "length (vchBool b) \<le> MAX_SCRIPT_ELEMENT_SIZE"
  by (simp add: vchBool_def)

lemma stack_ops_elems:
  assumes "f \<in> plain_stack_ops" "f s = Some s'" "elems_ok s"
  shows "elems_ok s'"
  using assms
  by (auto simp: plain_stack_ops_def num_getvch_length elim!: stk_2drop.elims stk_2dup.elims stk_3dup.elims stk_2over.elims
      stk_2rot.elims stk_2swap.elims stk_ifdup.elims stk_drop.elims stk_dup.elims stk_nip.elims stk_over.elims
      stk_rot.elims stk_swap.elims stk_tuck.elims stk_size.elims split: if_splits)

lemma multisig_cleanup_drop: "multisig_cleanup nf n k s = Inr r \<Longrightarrow> r = drop n s"
  by (induction n arbitrary: k s) (auto simp: drop_Suc split: if_splits)

lemma multisig_body_inv:
  assumes "multisig_body H checker opcode flags sv k n st = Inr st'" "elems_inv st"
  shows "elems_inv st'"
  using assms
  by (auto simp: multisig_body_def Let_def bindE_eq_Inr_iff elems_inv_def dest!: multisig_cleanup_drop
      split: if_splits intro!: elems_ok_sub)

lemma small_num: "\<bar>uint (opcode :: byte) - (uint (OP_1 :: byte) - 1)\<bar> < 2 ^ 39"
proof -
  have "\<bar>x - 80\<bar> < 2 ^ 39" if "0 \<le> x" "x < 256" for x :: int
    using that by (cases "80 \<le> x") auto
  then show ?thesis using uint_bounded [of opcode] by simp
qed

lemma op_unary_inv:
  assumes u: "unary_opcode opcode" and run: "op_unary opcode m st = Inr st'" and st: "elems_inv st"
  shows "elems_inv st'"
proof -
  obtain x s bn bn' where x: "stack st = x # s" "numE x m 4 = Inr bn" "unary_num opcode bn = Inr bn'"
    "st' = st\<lparr>stack := num_getvch bn' # s\<rparr>"
    using run by (auto simp: op_unary_def bindE_eq_Inr_iff split: list.splits)
  have "\<bar>bn'\<bar> \<le> 2 ^ 31" using unary_num_ok [OF u numE_bounds [OF x(2)]] x(3) by auto
  then have "length (num_getvch bn') \<le> MAX_SCRIPT_ELEMENT_SIZE" by (intro num_getvch_length) auto
  then show ?thesis using x st by (simp add: elems_inv_def)
qed

lemma op_binary_inv:
  assumes u: "binary_opcode opcode" and run: "op_binary opcode m st = Inr st'" and st: "elems_inv st"
  shows "elems_inv st'"
proof -
  obtain x2 x1 s b1 b2 bn where x: "stack st = x2 # x1 # s" "numE x1 m 4 = Inr b1" "numE x2 m 4 = Inr b2"
    "binary_num opcode b1 b2 = Inr bn" "st' = st\<lparr>stack := num_getvch bn # s\<rparr> \<or> st' = st\<lparr>stack := s\<rparr>"
    using run by (auto simp: op_binary_def bindE_eq_Inr_iff split: list.splits if_splits)
  have "\<bar>bn\<bar> < 2 ^ 32" using binary_num_ok [OF u numE_bounds [OF x(2)] numE_bounds [OF x(3)]] x(4) by auto
  then have "length (num_getvch bn) \<le> MAX_SCRIPT_ELEMENT_SIZE" by (intro num_getvch_length) auto
  then show ?thesis using x st by (auto simp: elems_inv_def)
qed

lemma exec_op_elems:
  assumes H: "hash_ok H" and st: "elems_inv st" "length (stack st) \<le> 1000"
    and run: "exec_op H checker flags sv fExec opcode pc st = Inr st'"
  shows "elems_inv st'"
proof -
  have "\<forall>s. exec_op H checker flags sv fExec opcode pc st = Inr s \<longrightarrow> elems_inv s"
  proof (rule exec_op_rel [where R = "\<lambda>x y. \<forall>s. x = Inr s \<longrightarrow> elems_inv s" and flags' = flags])
    show "\<forall>s. op_push_number opcode st = Inr s \<longrightarrow> elems_inv s"
      using st num_getvch_length [OF small_num] by (simp add: op_push_number_def elems_inv_def)
    show "\<forall>s. op_unary opcode m st = Inr s \<longrightarrow> elems_inv s" if "unary_opcode opcode" for m
      using op_unary_inv [OF that] st by blast
    show "\<forall>s. op_binary opcode m st = Inr s \<longrightarrow> elems_inv s" if "binary_opcode opcode" for m
      using op_binary_inv [OF that] st by blast
    show "\<forall>s. op_hash H opcode st = Inr s \<longrightarrow> elems_inv s"
      using st H by (auto simp: op_hash_def Let_def elems_inv_def hash_ok_def CHash160_def CHash256_def split: list.splits)
    show "\<forall>s. stack_op f st = Inr s \<longrightarrow> elems_inv s" if "f \<in> plain_stack_ops" for f
      using st stack_ops_elems [OF that] by (auto simp: stack_op_def elems_inv_def split: option.splits)
    show "\<forall>s. op_pick_roll opcode m st = Inr s \<longrightarrow> elems_inv s" for m
      using st by (auto simp: op_pick_roll_def Let_def bindE_eq_Inr_iff elems_inv_def split: if_splits
          intro!: elems_ok_sub)
    show "\<forall>s. op_checkmultisig H checker opcode flags sv m st = Inr s \<longrightarrow> elems_inv s" for m
      using st by (auto simp: op_checkmultisig_def Let_def bindE_eq_Inr_iff elems_inv_def [of st] split: if_splits
          dest!: multisig_body_inv) (simp add: elems_inv_def)+
    show "\<forall>s. op_depth st = Inr s \<longrightarrow> elems_inv s"
      using st by (auto simp: op_depth_def elems_inv_def intro!: num_getvch_length)
  qed (use st in \<open>auto simp: op_exchangeaddr_def op_checklocktimeverify_def op_checksequenceverify_def
      op_upgradable_nop_def op_if_def op_else_def op_endif_def op_verify_def op_toaltstack_def op_fromaltstack_def
      op_equal_def op_within_def op_codeseparator_def op_checksig_def Let_def bindE_eq_Inr_iff elems_inv_def
      split: if_splits list.splits intro!: elems_ok_sub\<close>)
  with run show ?thesis by blast
qed

text \<open>What a successful round did: a push, a case of the switch, or nothing.\<close>

lemma eval_step_success:
  assumes "eval_step H checker flags sv opcode vch pc st = Inr st'"
  obtains st2 where "st' = st2\<lparr>fFirstOpCode := False\<rparr>" "length (stack st2) + length (altstack st2) \<le> 1000"
    "length vch \<le> MAX_SCRIPT_ELEMENT_SIZE" "opcode > OP_16 \<Longrightarrow> nOpCount st + 1 \<le> MAX_OPS_PER_SCRIPT"
    "st2 = (counted opcode st)\<lparr>stack := vch # stack st\<rparr> \<or> st2 = counted opcode st \<or>
     exec_op H checker flags sv (False \<notin> set (vfExec st)) opcode pc (counted opcode st) = Inr st2"
proof -
  from assms obtain st2 where d: "dispatch H checker flags sv opcode vch pc (counted opcode st) = Inr st2"
    and s: "size_limits st2 = Inr st'" and l: "length vch \<le> MAX_SCRIPT_ELEMENT_SIZE"
      "opcode > OP_16 \<Longrightarrow> nOpCount st + 1 \<le> MAX_OPS_PER_SCRIPT"
    by (auto simp: eval_step_def bindE_eq_Inr_iff counted_def split: if_splits)
  have "st2 = (counted opcode st)\<lparr>stack := vch # stack st\<rparr> \<or> st2 = counted opcode st \<or>
      exec_op H checker flags sv (False \<notin> set (vfExec st)) opcode pc (counted opcode st) = Inr st2"
    using d by (auto simp: dispatch_def counted_def Let_def split: if_splits)
  then show ?thesis using that [of st2] s l by (auto simp: size_limits_def split: if_splits)
qed

lemma counted_simps [simp]: "stack (counted opcode st) = stack st" "altstack (counted opcode st) = altstack st"
  "nOpCount (counted opcode st) = nOpCount st + (if opcode > OP_16 then 1 else 0)"
  "vfExec (counted opcode st) = vfExec st" "fFirstOpCode (counted opcode st) = fFirstOpCode st"
  "pbegincodehash (counted opcode st) = pbegincodehash st"
  by (simp_all add: counted_def)

lemma eval_step_limits:
  assumes H: "hash_ok H" and st: "limits_ok st" and run: "eval_step H checker flags sv opcode vch pc st = Inr st'"
  shows "limits_ok st'"
proof -
  from run obtain st2 where r: "st' = st2\<lparr>fFirstOpCode := False\<rparr>" "length (stack st2) + length (altstack st2) \<le> 1000"
    "length vch \<le> MAX_SCRIPT_ELEMENT_SIZE" "opcode > OP_16 \<Longrightarrow> nOpCount st + 1 \<le> MAX_OPS_PER_SCRIPT"
    "st2 = (counted opcode st)\<lparr>stack := vch # stack st\<rparr> \<or> st2 = counted opcode st \<or>
     exec_op H checker flags sv (False \<notin> set (vfExec st)) opcode pc (counted opcode st) = Inr st2"
    by (rule eval_step_success) blast
  have inv: "elems_inv (counted opcode st)" using st r(4) by (auto simp: elems_inv_def limits_ok_def)
  have len: "length (stack (counted opcode st)) \<le> 1000" using st by (simp add: limits_ok_def)
  from r(5) have "elems_inv st2"
  proof (elim disjE)
    assume "exec_op H checker flags sv (False \<notin> set (vfExec st)) opcode pc (counted opcode st) = Inr st2"
    then show ?thesis by (rule exec_op_elems [OF H inv len])
  qed (use inv r(3) in \<open>auto simp: elems_inv_def\<close>)
  then show ?thesis using r(1,2) by (simp add: limits_ok_def elems_inv_def)
qed

interpretation limits: eval_invariant H checker flags sigversion "\<lambda>st. hash_ok H \<longrightarrow> limits_ok st"
  for H checker flags sigversion
  by unfold_locales (auto intro: eval_step_limits)

lemma EvalScript_limits_aux:
  assumes "hash_ok H" "elems_ok stk" "length stk \<le> 1000" "EvalScript H stk script flags checker sv = Inr stk'"
  shows "elems_ok stk' \<and> length stk' \<le> 1000"
proof -
  from assms(4) obtain st where r: "eval_loop H checker flags sv script
      \<lparr>stack = stk, altstack = [], vfExec = [], nOpCount = 0, pbegincodehash = script, fFirstOpCode = True\<rparr> = Inr st"
    and s: "stk' = stack st"
    by (auto simp: EvalScript_def bindE_eq_Inr_iff split: if_splits)
  have "limits_ok st" using limits.loop_keeps [OF r] assms by (auto simp: limits_ok_def)
  then show ?thesis by (auto simp: s limits_ok_def)
qed

text \<open>The operations of a script that count towards the limit, read as the interpreter reads them.\<close>

function counted_ops :: "bytes \<Rightarrow> int" where
  "counted_ops pc =
     (if pc = [] then 0
      else case GetOp2 pc of (ok, opcode, vch, rest) \<Rightarrow>
        if ok then (if opcode > OP_16 then 1 else 0) + counted_ops rest else 0)"
  by auto
termination
  by (relation "measure length") (auto dest: GetOp2_progress [OF sym])

declare counted_ops.simps [simp del]

lemma exec_op_count:
  assumes "exec_op H checker flags sv fExec opcode pc st = Inr st'"
  shows "nOpCount st \<le> nOpCount st'"
proof -
  have "\<forall>s. exec_op H checker flags sv fExec opcode pc st = Inr s \<longrightarrow> nOpCount st \<le> nOpCount s"
    by (rule exec_op_rel [where R = "\<lambda>x y. \<forall>s. x = Inr s \<longrightarrow> nOpCount st \<le> nOpCount s" and flags' = flags])
      (auto simp: op_push_number_def op_exchangeaddr_def op_checklocktimeverify_def op_checksequenceverify_def
        op_upgradable_nop_def op_if_def op_else_def op_endif_def op_verify_def op_toaltstack_def op_fromaltstack_def
        stack_op_def op_depth_def op_pick_roll_def op_equal_def op_unary_def op_binary_def op_within_def op_hash_def
        op_codeseparator_def op_checksig_def op_checkmultisig_def multisig_body_def Let_def bindE_eq_Inr_iff
        split: if_splits option.splits list.splits)
  with assms show ?thesis by blast
qed

lemma eval_loop_count:
  assumes "eval_loop H checker flags sv pc st = Inr st'"
  shows "nOpCount st + counted_ops pc \<le> nOpCount st'"
  using assms
proof (induction "length pc" arbitrary: pc st rule: less_induct)
  case less
  obtain ok opcode vch rest where g: "GetOp2 pc = (ok, opcode, vch, rest)" by (cases "GetOp2 pc")
  show ?case
  proof (cases "pc = []")
    case True
    then show ?thesis using less(2) by (simp add: eval_loop.simps counted_ops.simps)
  next
    case False
    obtain st1 where s: "ok" "eval_step H checker flags sv opcode vch rest st = Inr st1"
      "eval_loop H checker flags sv rest st1 = Inr st'"
      using less(2) False by (subst (asm) eval_loop.simps) (auto simp: g bindE_eq_Inr_iff split: if_splits)
    have "nOpCount (counted opcode st) \<le> nOpCount st1"
      using s(2) by (rule eval_step_success) (auto dest: exec_op_count)
    then show ?thesis
      using less(1) [OF GetOp2_progress [OF g False] s(3)] s(1) False by (subst counted_ops.simps) (simp add: g)
  qed
qed

section \<open>Running known scripts\<close>

lemma eval_loop_Nil [simp]: "eval_loop H checker flags sv [] st = Inr st"
  by (subst eval_loop.simps) simp

lemma eval_loop_step:
  "GetOp2 pc = (True, opcode, vch, rest) \<Longrightarrow> pc \<noteq> [] \<Longrightarrow>
    eval_loop H checker flags sv pc st = bindE (eval_step H checker flags sv opcode vch rest st) (eval_loop H checker flags sv rest)"
  by (subst eval_loop.simps) simp

lemma exec_op_known:
  "exec_op H checker flags sv fExec OP_RETURN pc st = set_error SCRIPT_ERR_OP_RETURN"
  "exec_op H checker flags sv fExec OP_DUP pc st = stack_op stk_dup st"
  "exec_op H checker flags sv fExec OP_HASH160 pc st = op_hash H OP_HASH160 st"
  "exec_op H checker flags sv fExec OP_EQUALVERIFY pc st = op_equal OP_EQUALVERIFY st"
  "exec_op H checker flags sv fExec OP_CHECKSIG pc st = op_checksig H checker OP_CHECKSIG flags sv st"
  by (simp_all add: exec_op_def Let_def)

lemma eval_step_exec:
  assumes "vfExec st = []" "nOpCount st + 1 \<le> MAX_OPS_PER_SCRIPT" "opcode > OP_16" "\<not> disabled_opcode opcode"
  shows "eval_step H checker flags sv opcode [] pc st =
    bindE (exec_op H checker flags sv True opcode pc (st\<lparr>nOpCount := nOpCount st + 1\<rparr>)) size_limits"
proof -
  have "\<not> opcode \<le> OP_PUSHDATA4" using assms(3) by (auto simp: not_le intro: order.strict_trans1 [of "0x4e" "0x60"])
  then show ?thesis using assms by (simp add: eval_step_def dispatch_def counted_def)
qed

lemma IsUnspendable_fails:
  assumes "IsUnspendable script"
  shows "\<exists>e. EvalScript H stk script flags checker sv = Inl e"
proof (cases "length script > MAX_SCRIPT_SIZE")
  case False
  then obtain rest where s: "script = OP_RETURN # rest"
    using assms by (cases script) (auto simp: IsUnspendable_def)
  have "GetOp2 script = (True, OP_RETURN, [], rest)"
    by (simp add: s GetOp2_plain swallows_rest_def)
  then show ?thesis
    using False by (simp add: EvalScript_def eval_loop_step eval_step_exec exec_op_known disabled_opcode_def s)
qed (simp add: EvalScript_def)

text \<open>Pay to public key hash, on the stack that holds a signature below a public key.\<close>

lemma p2pkh_run:
  assumes "length h = 20" "length stk \<le> 996"
  shows "EvalScript H (key # sig # stk) (p2pkh_script h) flags checker sv =
    (if CHash160 H key \<noteq> h then set_error SCRIPT_ERR_EQUALVERIFY
     else bindE (check_encodings H flags sv sig key) (\<lambda>_.
       if \<not> CheckSig checker sig key (drop_signature sv (p2pkh_script h) sig) sv \<and>
          has_flag flags SCRIPT_VERIFY_NULLFAIL \<and> sig \<noteq> [] then set_error SCRIPT_ERR_SIG_NULLFAIL
       else Inr (vchBool (CheckSig checker sig key (drop_signature sv (p2pkh_script h) sig) sv) # stk)))"
proof -
  note r = p2pkh_reads [OF assms(1)]
  have ne: "p2pkh_script h \<noteq> []" "tl (p2pkh_script h) \<noteq> []" "length (p2pkh_script h) = 25"
    using assms(1) by (simp_all add: p2pkh_script_def)
  have push: "eval_step H checker flags sv 0x14 h pc st = size_limits (st\<lparr>stack := h # stack st\<rparr>)" if "vfExec st = []" for pc st
    using assms(1) that by (simp add: eval_step_def dispatch_def counted_def disabled_opcode_def CheckMinimalPush_def)
  show ?thesis
    using ne assms(2)
    by (cases "check_encodings H flags sv sig key")
      (simp_all add: EvalScript_def eval_loop_step [OF r(1)] eval_loop_step [OF r(2)] eval_loop_step [OF r(3)]
        eval_loop_step [OF r(4)] eval_loop_step [OF r(5)] eval_step_exec exec_op_known disabled_opcode_def push
        stack_op_def op_hash_def op_equal_def op_checksig_def size_limits_def Let_def)
qed

section \<open>Multisignature matching\<close>

text \<open>What the greedy loop decides: the signatures match some of the keys, in order.\<close>

definition sigs_match :: "(bytes \<Rightarrow> bytes \<Rightarrow> bool) \<Rightarrow> bytes list \<Rightarrow> bytes list \<Rightarrow> bool" where
  "sigs_match ok sigs keys \<longleftrightarrow> (\<exists>ks. subseq ks keys \<and> list_all2 ok sigs ks)"

lemma sigs_match_length: "sigs_match ok sigs keys \<Longrightarrow> length sigs \<le> length keys"
  unfolding sigs_match_def by (metis list_all2_lengthD list_emb_length)

lemma sigs_match_Nil [simp]: "sigs_match ok [] keys"
  by (auto simp: sigs_match_def intro: exI [of _ "[]"])

lemma sigs_match_tl: "sigs_match ok (s # sigs) keys \<Longrightarrow> sigs_match ok sigs (tl keys)"
proof -
  assume "sigs_match ok (s # sigs) keys"
  then obtain k ks where s: "subseq (k # ks) keys" "list_all2 ok sigs ks" by (auto simp: sigs_match_def list_all2_Cons1)
  then have "subseq ks (tl keys)" by (cases keys) (auto dest: subseq_Cons' split: if_splits)
  then show ?thesis using s(2) by (auto simp: sigs_match_def)
qed

lemma sigs_match_Cons:
  "sigs_match ok (s # sigs) (k # keys) \<longleftrightarrow> (if ok s k then sigs_match ok sigs keys else sigs_match ok (s # sigs) keys)"
proof -
  have skip: "sigs_match ok (s # sigs) keys \<Longrightarrow> sigs_match ok (s # sigs) (k # keys)"
    by (auto simp: sigs_match_def intro: list_emb_Cons)
  have use: "ok s k \<Longrightarrow> sigs_match ok sigs keys \<Longrightarrow> sigs_match ok (s # sigs) (k # keys)"
    unfolding sigs_match_def by (metis list.rel_inject(2) subseq_Cons2)
  have "sigs_match ok (s # sigs) keys" if m: "sigs_match ok (s # sigs) (k # keys)" and n: "\<not> ok s k"
  proof -
    from m obtain k' ks where s: "subseq (k' # ks) (k # keys)" "ok s k'" "list_all2 ok sigs ks"
      by (auto simp: sigs_match_def list_all2_Cons1)
    then have "k' \<noteq> k" using n by auto
    then have "subseq (k' # ks) keys" using s(1) by simp
    then show ?thesis using s(2,3) unfolding sigs_match_def by (metis list.rel_intros(2))
  qed
  then have unless: "\<not> ok s k \<Longrightarrow> sigs_match ok (s # sigs) (k # keys) \<Longrightarrow> sigs_match ok (s # sigs) keys" by blast
  show ?thesis
  proof (cases "ok s k")
    case True
    then show ?thesis using use sigs_match_tl [of ok s sigs "k # keys"] by (simp only: if_True list.sel) blast
  next
    case False
    then show ?thesis using skip unless by (simp only: if_False) blast
  qed
qed

lemma multisig_loop_match:
  assumes "\<And>s k. s \<in> set sigs \<Longrightarrow> k \<in> set keys \<Longrightarrow> check s k = Inr (ok s k)"
  shows "multisig_loop check sigs keys = Inr (sigs_match ok sigs keys)"
  using assms
proof (induction check sigs keys rule: multisig_loop.induct)
  case (2 check s sigs)
  then show ?case by (auto dest: sigs_match_length)
next
  case (3 check s sigs k keys)
  have c: "check s k = Inr (ok s k)" using 3 by simp
  define sigs' where "sigs' = (if ok s k then sigs else s # sigs)"
  have m: "sigs_match ok (s # sigs) (k # keys) = sigs_match ok sigs' keys"
    by (simp add: sigs_match_Cons sigs'_def)
  have "multisig_loop check sigs' keys = Inr (sigs_match ok sigs' keys)" if "\<not> length sigs' > length keys"
    using 3(1) [of "ok s k" sigs'] that 3(2) by (auto simp: sigs'_def split: if_splits)
  then show ?case
    using sigs_match_length [of ok sigs' keys] by (auto simp: c m Let_def sigs'_def [symmetric])
qed simp

lemma multisig_cleanup_no_nullfail: "multisig_cleanup False n k s = Inr (drop n s)"
  by (induction n arbitrary: k s) (simp_all add: drop_Suc)

lemma multisig_body_spec:
  assumes "n + k + 3 \<le> length (stack st)"
    and enc: "\<forall>sig\<in>set (take n (drop (k + 2) (stack st))). \<forall>key\<in>set (take k (drop 1 (stack st))).
      check_encodings H flags sv sig key = Inr ()"
    and fl: "\<not> has_flag flags SCRIPT_VERIFY_NULLFAIL" "\<not> has_flag flags SCRIPT_VERIFY_NULLDUMMY"
  defines "code \<equiv> foldl (drop_signature sv) (pbegincodehash st) (take n (drop (k + 2) (stack st)))"
  shows "multisig_body H checker OP_CHECKMULTISIG flags sv k n st = Inr (st\<lparr>stack :=
    vchBool (sigs_match (\<lambda>sig key. CheckSig checker sig key code sv)
      (take n (drop (k + 2) (stack st))) (take k (drop 1 (stack st)))) # drop (n + k + 3) (stack st)\<rparr>)"
proof -
  let ?sigs = "take n (drop (k + 2) (stack st))" and ?keys = "take k (drop 1 (stack st))"
  let ?ok = "\<lambda>sig key. CheckSig checker sig key code sv"
  have loop: "multisig_loop (\<lambda>sig key. bindE (check_encodings H flags sv sig key) (\<lambda>_. Inr (?ok sig key))) ?sigs ?keys =
      Inr (sigs_match ?ok ?sigs ?keys)"
    by (rule multisig_loop_match) (use enc in simp)
  define r where "r = drop (k + 2 + n) (stack st)"
  have e: "n + k + 3 = Suc (k + 2 + n)" by simp
  have tl: "drop (n + k + 3) (stack st) = tl r" unfolding e r_def by (simp only: tl_drop drop_Suc)
  have len: "(length r < 1) = False" using assms(1) by (simp add: r_def)
  have clean: "multisig_cleanup False (k + 2 + n) (k + 2) (stack st) = Inr r"
    by (simp only: r_def multisig_cleanup_no_nullfail)
  have op: "(OP_CHECKMULTISIG = (OP_CHECKMULTISIGVERIFY :: byte)) = False" by simp
  show ?thesis
    unfolding multisig_body_def Let_def code_def [symmetric] tl
    by (simp only: loop bindE_Inr fl simp_thms clean len if_False op)
qed

section \<open>The operation count\<close>

lemma exec_op_count_limit:
  assumes "exec_op H checker flags sv fExec opcode pc st = Inr st'" "nOpCount st \<le> MAX_OPS_PER_SCRIPT"
  shows "nOpCount st' \<le> MAX_OPS_PER_SCRIPT"
proof -
  have "\<forall>s. exec_op H checker flags sv fExec opcode pc st = Inr s \<longrightarrow> nOpCount s \<le> MAX_OPS_PER_SCRIPT"
    using assms(2)
    by (intro exec_op_rel [where R = "\<lambda>x y. \<forall>s. x = Inr s \<longrightarrow> nOpCount s \<le> MAX_OPS_PER_SCRIPT" and flags' = flags])
      (auto simp: op_push_number_def op_exchangeaddr_def op_checklocktimeverify_def op_checksequenceverify_def
        op_upgradable_nop_def op_if_def op_else_def op_endif_def op_verify_def op_toaltstack_def op_fromaltstack_def
        stack_op_def op_depth_def op_pick_roll_def op_equal_def op_unary_def op_binary_def op_within_def op_hash_def
        op_codeseparator_def op_checksig_def op_checkmultisig_def multisig_body_def Let_def bindE_eq_Inr_iff
        split: if_splits option.splits list.splits)
  with assms(1) show ?thesis by blast
qed

interpretation opcount: eval_invariant H checker flags sigversion "\<lambda>st. nOpCount st \<le> MAX_OPS_PER_SCRIPT"
  for H checker flags sigversion
proof unfold_locales
  fix st opcode vch pc st'
  assume st: "nOpCount st \<le> MAX_OPS_PER_SCRIPT" and run: "eval_step H checker flags sigversion opcode vch pc st = Inr st'"
  from run show "nOpCount st' \<le> MAX_OPS_PER_SCRIPT"
    by (rule eval_step_success) (use st exec_op_count_limit in \<open>fastforce split: if_splits\<close>)
qed

lemma EvalScript_opcount:
  assumes "EvalScript H stk script flags checker sv = Inr stk'"
  shows "counted_ops script \<le> MAX_OPS_PER_SCRIPT"
proof -
  from assms obtain st where r: "eval_loop H checker flags sv script
      \<lparr>stack = stk, altstack = [], vfExec = [], nOpCount = 0, pbegincodehash = script, fFirstOpCode = True\<rparr> = Inr st"
    by (auto simp: EvalScript_def bindE_eq_Inr_iff split: if_splits)
  show ?thesis using opcount.loop_keeps [OF r] eval_loop_count [OF r] by simp
qed

section \<open>Properties\<close>

text \<open>Script evaluation always returns (its loop terminates on every script) and none of the assertions
  inside it can fail, whatever the script, the stack, the flags and the checker.\<close>

theorem EvalScript_never_asserts: "EvalScript H stk script flags checker sv \<noteq> Inl Abort"
  by (rule EvalScript_no_abort)

text \<open>Soft fork safety of evaluation: a script that succeeds under some flags succeeds with the same
  stack under any subset of them that does not discourage no-ops or keeps the opcodes enabled that were.\<close>

theorem EvalScript_soft_fork_safe:
  assumes "flags_sub flags' flags" "nops_kept flags' flags"
    "EvalScript H stk script flags checker sv = Inr stk'"
  shows "EvalScript H stk script flags' checker sv = Inr stk'"
  by (rule EvalScript_mono [OF assms])

definition demo_hash :: hash_funs where
  "demo_hash = \<lparr>RIPEMD160 = (\<lambda>x. replicate 20 0), SHA1 = (\<lambda>x. replicate 20 1), SHA256 = (\<lambda>x. replicate 32 2), CheckLowS = (\<lambda>x. True)\<rparr>"

definition demo_checker :: BaseSignatureChecker where
  "demo_checker = \<lparr>CheckSig = (\<lambda>sig key code sv. sig = key), CheckLockTime = (\<lambda>n. n < 100), CheckSequence = (\<lambda>n. n < 100)\<rparr>"

lemma demo_run_nop: "EvalScript demo_hash [[1]] [OP_NOP] f demo_checker sv = Inr [[1]]"
  by (simp add: EvalScript_def eval_loop_step GetOp2_plain swallows_rest_def eval_step_exec disabled_opcode_def
      exec_op_def size_limits_def)

theorem EvalScript_soft_fork_safe_witness:
  "EvalScript demo_hash [[1]] [OP_NOP] 0 demo_checker SIGVERSION_BASE = Inr [[1]]"
proof -
  have "flags_sub 0 0x40" "nops_kept 0 0x40"
    by (simp_all add: flags_sub_def has_flag_def nops_kept_def)
  from EvalScript_soft_fork_safe [OF this demo_run_nop] show ?thesis .
qed

text \<open>Resource limits: from a stack within the limits, evaluation leaves at most 1000 items of at most 520
  bytes each, given that the hash functions have their fixed output lengths.\<close>

theorem EvalScript_limits:
  assumes "hash_ok H" "elems_ok stk" "length stk \<le> 1000" "EvalScript H stk script flags checker sv = Inr stk'"
  shows "elems_ok stk' \<and> length stk' \<le> 1000"
  by (rule EvalScript_limits_aux [OF assms])

theorem EvalScript_limits_witness: "elems_ok [[1]] \<and> length [[1]] \<le> 1000"
proof -
  have "hash_ok demo_hash" by (simp add: hash_ok_def demo_hash_def)
  from EvalScript_limits [OF this _ _ demo_run_nop] show ?thesis by simp
qed

text \<open>A script that evaluates successfully has at most 201 counted operations, executed or not.\<close>

theorem EvalScript_operation_limit:
  assumes "EvalScript H stk script flags checker sv = Inr stk'"
  shows "counted_ops script \<le> MAX_OPS_PER_SCRIPT"
  by (rule EvalScript_opcount [OF assms])

theorem EvalScript_operation_limit_witness: "counted_ops [OP_NOP] \<le> MAX_OPS_PER_SCRIPT"
  by (rule EvalScript_operation_limit [OF demo_run_nop])

text \<open>A script that \<open>IsUnspendable\<close> marks fails to evaluate on every stack, so dropping such outputs from
  the unspent set loses nothing.\<close>

theorem IsUnspendable_never_spent:
  assumes "IsUnspendable script"
  shows "\<exists>e. EvalScript H stk script flags checker sv = Inl e"
  by (rule IsUnspendable_fails [OF assms])

theorem IsUnspendable_never_spent_witness:
  "\<exists>e. EvalScript demo_hash [] [OP_RETURN] 0 demo_checker SIGVERSION_BASE = Inl e"
  by (rule IsUnspendable_never_spent) (simp add: IsUnspendable_def)

text \<open>C27. A pay-to-public-key-hash script, on a stack of a signature, a key and at most 996 items below, leaves true on top exactly when the key
  hashes to the committed value, the encodings pass the checks in force and the signature checks against the script.\<close>

theorem p2pkh_accepts_iff:
  assumes "IsPayToPublicKeyHash script" "length stk \<le> 996"
  shows "(\<exists>s. EvalScript H (key # sig # stk) script flags checker sv = Inr s \<and> CastToBool (hd s)) \<longleftrightarrow>
    CHash160 H key = take 20 (drop 3 script) \<and> check_encodings H flags sv sig key = Inr () \<and>
    CheckSig checker sig key (drop_signature sv script sig) sv"
proof -
  from assms(1) obtain h where h: "script = p2pkh_script h" "length h = 20" by (auto simp: IsPayToPublicKeyHash_iff)
  have t: "take 20 (drop 3 script) = h" using h by (simp add: p2pkh_script_def)
  have b: "CastToBool (vchBool b) = b" for b by (simp add: vchBool_def)
  show ?thesis
    unfolding t unfolding h(1)
    by (cases "check_encodings H flags sv sig key") (auto simp: p2pkh_run [OF h(2) assms(2)] b)
qed

theorem p2pkh_accepts_iff_witness:
  "\<exists>s. EvalScript demo_hash [[7], [7]] (p2pkh_script (replicate 20 0)) 0 demo_checker SIGVERSION_BASE = Inr s \<and> CastToBool (hd s)"
proof -
  have "IsPayToPublicKeyHash (p2pkh_script (replicate 20 0))"
    unfolding IsPayToPublicKeyHash_iff by (intro exI [of _ "replicate 20 0"]) simp
  from p2pkh_accepts_iff [OF this, of "[]" demo_hash "[7]" "[7]" 0 demo_checker SIGVERSION_BASE]
  show ?thesis
    by (simp add: demo_hash_def demo_checker_def CHash160_def check_encodings_def CheckSignatureEncoding_def
        CheckPubKeyEncoding_def has_flag_def p2pkh_script_def)
qed

text \<open>C29. OP_CHECKMULTISIG pushes true exactly when the signatures match a subsequence of the keys, in order: the greedy loop with its early exit
  misses no assignment. It pops the counts, keys and signatures and one item more. The stack is long enough, the encodings of all signatures and keys
  pass the checks in force, and the flags NULLFAIL and NULLDUMMY, which turn some of these results into errors, are not set.\<close>

theorem checkmultisig_decides_matching:
  assumes "n + k + 3 \<le> length (stack st)"
    "\<forall>sig\<in>set (take n (drop (k + 2) (stack st))). \<forall>key\<in>set (take k (drop 1 (stack st))).
      check_encodings H flags sv sig key = Inr ()"
    "\<not> has_flag flags SCRIPT_VERIFY_NULLFAIL" "\<not> has_flag flags SCRIPT_VERIFY_NULLDUMMY"
  shows "multisig_body H checker OP_CHECKMULTISIG flags sv k n st = Inr (st\<lparr>stack :=
    vchBool (sigs_match (\<lambda>sig key. CheckSig checker sig key
        (foldl (drop_signature sv) (pbegincodehash st) (take n (drop (k + 2) (stack st)))) sv)
      (take n (drop (k + 2) (stack st))) (take k (drop 1 (stack st)))) # drop (n + k + 3) (stack st)\<rparr>)"
  by (rule multisig_body_spec [OF assms])

theorem checkmultisig_decides_matching_witness:
  "multisig_body demo_hash demo_checker OP_CHECKMULTISIG 0 SIGVERSION_WITNESS_V0 2 1
     \<lparr>stack = [[2], [5], [6], [1], [6], []], altstack = [], vfExec = [], nOpCount = 0, pbegincodehash = [], fFirstOpCode = False\<rparr> =
   Inr \<lparr>stack = [[1]], altstack = [], vfExec = [], nOpCount = 0, pbegincodehash = [], fFirstOpCode = False\<rparr>"
proof -
  let ?st = "\<lparr>stack = [[2], [5], [6], [1], [6], []], altstack = [], vfExec = [], nOpCount = 0, pbegincodehash = [], fFirstOpCode = False\<rparr>"
  have "sigs_match (\<lambda>sig key. sig = key) [[6]] [[5], [6]]" by (simp add: sigs_match_Cons)
  then show ?thesis
    using checkmultisig_decides_matching [of 1 2 ?st demo_hash 0 SIGVERSION_WITNESS_V0 demo_checker]
    by (simp add: check_encodings_def CheckSignatureEncoding_def CheckPubKeyEncoding_def has_flag_def demo_checker_def
        vchBool_def drop_signature_def)
qed

end
