(* ===== verification/VerifyScript.thy ===== *)
theory VerifyScript
  imports InterpreterProps
begin

text \<open>
  \<open>VerifyWitnessProgram\<close>, \<open>VerifyScript\<close> and the witness signature operation counts of
  \<open>src/src/script/interpreter.cpp\<close>. A witness is the list of its stack items as the transaction has
  them, the last one on top; the null pointer and the empty witness are the empty list. A result is
  \<open>Inr ()\<close> for success.
\<close>

definition VerifyWitnessProgram ::
  "hash_funs \<Rightarrow> bytes list \<Rightarrow> int \<Rightarrow> bytes \<Rightarrow> u32 \<Rightarrow> BaseSignatureChecker \<Rightarrow> eval_error + unit" where
  "VerifyWitnessProgram H witness witversion program flags checker =
     (let run = (\<lambda>stk scriptPubKey.
            if list_ex (\<lambda>item. length item > MAX_SCRIPT_ELEMENT_SIZE) stk then set_error SCRIPT_ERR_PUSH_SIZE
            else bindE (EvalScript H stk scriptPubKey flags checker SIGVERSION_WITNESS_V0) (\<lambda>stk'.
              if length stk' \<noteq> 1 then set_error SCRIPT_ERR_EVAL_FALSE
              else if \<not> CastToBool (hd stk') then set_error SCRIPT_ERR_EVAL_FALSE
              else Inr ()))
      in if witversion = 0 then
           if length program = 32 then
             if witness = [] then set_error SCRIPT_ERR_WITNESS_PROGRAM_WITNESS_EMPTY
             else if SHA256 H (last witness) \<noteq> program then set_error SCRIPT_ERR_WITNESS_PROGRAM_MISMATCH
             else run (rev (butlast witness)) (last witness)
           else if length program = 20 then
             if length witness \<noteq> 2 then set_error SCRIPT_ERR_WITNESS_PROGRAM_MISMATCH
             else run (rev witness)
                    ([OP_DUP, OP_HASH160] @ push_vch program @ [OP_EQUALVERIFY, OP_CHECKSIG])
           else set_error SCRIPT_ERR_WITNESS_PROGRAM_WRONG_LENGTH
         else if has_flag flags SCRIPT_VERIFY_DISCOURAGE_UPGRADABLE_WITNESS_PROGRAM
         then set_error SCRIPT_ERR_DISCOURAGE_UPGRADABLE_WITNESS_PROGRAM
         else Inr ())"

text \<open>
  The parts of \<open>VerifyScript\<close>. The bare witness program part and the P2SH part return the stack and
  \<open>hadWitness\<close>; \<open>stack.resize(1)\<close> keeps the item at the bottom.
\<close>

definition top_true :: "bytes list \<Rightarrow> eval_error + unit" where
  "top_true stk =
     (if stk = [] then set_error SCRIPT_ERR_EVAL_FALSE
      else if \<not> CastToBool (hd stk) then set_error SCRIPT_ERR_EVAL_FALSE
      else Inr ())"

definition verify_bare_witness ::
  "hash_funs \<Rightarrow> bytes \<Rightarrow> bytes \<Rightarrow> bytes list \<Rightarrow> u32 \<Rightarrow> BaseSignatureChecker \<Rightarrow> bytes list \<Rightarrow>
    eval_error + bytes list \<times> bool" where
  "verify_bare_witness H scriptSig scriptPubKey witness flags checker stk =
     (if has_flag flags SCRIPT_VERIFY_WITNESS then
        case IsWitnessProgram scriptPubKey of
          None \<Rightarrow> Inr (stk, False)
        | Some (witnessversion, witnessprogram) \<Rightarrow>
            if length scriptSig \<noteq> 0 then set_error SCRIPT_ERR_WITNESS_MALLEATED
            else bindE (VerifyWitnessProgram H witness witnessversion witnessprogram flags checker)
                   (\<lambda>_. Inr ([last stk], True))
      else Inr (stk, False))"

definition verify_p2sh ::
  "hash_funs \<Rightarrow> bytes \<Rightarrow> bytes \<Rightarrow> bytes list \<Rightarrow> u32 \<Rightarrow> BaseSignatureChecker \<Rightarrow> bytes list \<Rightarrow>
    bytes list \<times> bool \<Rightarrow> eval_error + bytes list \<times> bool" where
  "verify_p2sh H scriptSig scriptPubKey witness flags checker stackCopy cur =
     (if has_flag flags SCRIPT_VERIFY_P2SH \<and> IsPayToScriptHash scriptPubKey then
        if \<not> IsPushOnly scriptSig then set_error SCRIPT_ERR_SIG_PUSHONLY
        else if stackCopy = [] then Inl Abort
        else let pubKey2 = hd stackCopy
        in bindE (EvalScript H (tl stackCopy) pubKey2 flags checker SIGVERSION_BASE) (\<lambda>stk.
           bindE (top_true stk) (\<lambda>_.
             if has_flag flags SCRIPT_VERIFY_WITNESS then
               case IsWitnessProgram pubKey2 of
                 None \<Rightarrow> Inr (stk, snd cur)
               | Some (witnessversion, witnessprogram) \<Rightarrow>
                   if scriptSig \<noteq> push_vch pubKey2 then set_error SCRIPT_ERR_WITNESS_MALLEATED_P2SH
                   else bindE (VerifyWitnessProgram H witness witnessversion witnessprogram flags checker)
                          (\<lambda>_. Inr ([last stk], True))
             else Inr (stk, snd cur)))
      else Inr cur)"

definition verify_final :: "bytes list \<Rightarrow> u32 \<Rightarrow> bytes list \<times> bool \<Rightarrow> eval_error + unit" where
  "verify_final witness flags cur =
     (case cur of (stk, hadWitness) \<Rightarrow>
        bindE (if has_flag flags SCRIPT_VERIFY_CLEANSTACK then
                 if \<not> has_flag flags SCRIPT_VERIFY_P2SH then Inl Abort
                 else if \<not> has_flag flags SCRIPT_VERIFY_WITNESS then Inl Abort
                 else if length stk \<noteq> 1 then set_error SCRIPT_ERR_CLEANSTACK
                 else Inr ()
               else Inr ())
          (\<lambda>_. if has_flag flags SCRIPT_VERIFY_WITNESS then
                 if \<not> has_flag flags SCRIPT_VERIFY_P2SH then Inl Abort
                 else if \<not> hadWitness \<and> witness \<noteq> [] then set_error SCRIPT_ERR_WITNESS_UNEXPECTED
                 else Inr ()
               else Inr ()))"

definition VerifyScript ::
  "hash_funs \<Rightarrow> bytes \<Rightarrow> bytes \<Rightarrow> bytes list \<Rightarrow> u32 \<Rightarrow> BaseSignatureChecker \<Rightarrow> eval_error + unit" where
  "VerifyScript H scriptSig scriptPubKey witness flags checker =
     (if has_flag flags SCRIPT_VERIFY_SIGPUSHONLY \<and> \<not> IsPushOnly scriptSig
      then set_error SCRIPT_ERR_SIG_PUSHONLY
      else bindE (EvalScript H [] scriptSig flags checker SIGVERSION_BASE) (\<lambda>stk1.
           let stackCopy = (if has_flag flags SCRIPT_VERIFY_P2SH then stk1 else [])
           in bindE (EvalScript H stk1 scriptPubKey flags checker SIGVERSION_BASE) (\<lambda>stk2.
              bindE (top_true stk2) (\<lambda>_.
              bindE (verify_bare_witness H scriptSig scriptPubKey witness flags checker stk2) (\<lambda>cur.
              bindE (verify_p2sh H scriptSig scriptPubKey witness flags checker stackCopy cur) (\<lambda>cur'.
              verify_final witness flags cur'))))))"

section \<open>Witness signature operations\<close>

definition WitnessSigOps :: "int \<Rightarrow> bytes \<Rightarrow> bytes list \<Rightarrow> nat" where
  "WitnessSigOps witversion witprogram witness =
     (if witversion = 0 then
        if length witprogram = 20 then 1
        else if length witprogram = 32 \<and> length witness > 0 then unat (GetSigOpCount (last witness) True)
        else 0
      else 0)"

text \<open>The loop over the pushes of the script signature keeps the last operand; a failed read is ignored
  as in the code, and the loop still ends because every read advances.\<close>

function last_data_loop :: "bytes \<Rightarrow> bytes \<Rightarrow> bytes" where
  "last_data_loop pc vch =
     (if pc = [] then vch
      else case GetOp2 pc of (ok, opcode, vch', rest) \<Rightarrow> last_data_loop rest vch')"
  by auto
termination
  by (relation "measure (\<lambda>(pc, v). length pc)") (auto dest: GetOp2_progress [OF sym])

declare last_data_loop.simps [simp del]

definition CountWitnessSigOps :: "bytes \<Rightarrow> bytes \<Rightarrow> bytes list \<Rightarrow> u32 \<Rightarrow> nat option" where
  "CountWitnessSigOps scriptSig scriptPubKey witness flags =
     (if \<not> has_flag flags SCRIPT_VERIFY_WITNESS then Some 0
      else if \<not> has_flag flags SCRIPT_VERIFY_P2SH then None
      else case IsWitnessProgram scriptPubKey of
        Some (witnessversion, witnessprogram) \<Rightarrow> Some (WitnessSigOps witnessversion witnessprogram witness)
      | None \<Rightarrow>
          if IsPayToScriptHash scriptPubKey \<and> IsPushOnly scriptSig then
            case IsWitnessProgram (last_data_loop scriptSig []) of
              Some (witnessversion, witnessprogram) \<Rightarrow> Some (WitnessSigOps witnessversion witnessprogram witness)
            | None \<Rightarrow> Some 0
          else Some 0)"

section \<open>No assertion fails\<close>

text \<open>The combinations of flags that the assertions of \<open>VerifyScript\<close> allow.\<close>

definition flags_closed :: "u32 \<Rightarrow> bool" where
  "flags_closed flags \<longleftrightarrow>
     (has_flag flags SCRIPT_VERIFY_CLEANSTACK \<longrightarrow> has_flag flags SCRIPT_VERIFY_P2SH \<and> has_flag flags SCRIPT_VERIFY_WITNESS) \<and>
     (has_flag flags SCRIPT_VERIFY_WITNESS \<longrightarrow> has_flag flags SCRIPT_VERIFY_P2SH)"

lemma P2SH_needs_stack:
  assumes "IsPayToScriptHash script" "EvalScript H [] script flags checker sv = Inr s"
  shows False
proof -
  obtain rest where r: "script = OP_HASH160 # rest"
    using assms(1) by (cases script) (auto simp: IsPayToScriptHash_def)
  have "GetOp2 script = (True, OP_HASH160, [], rest)" by (simp add: r GetOp2_plain swallows_rest_def)
  then show False
    using assms(2)
    by (simp add: EvalScript_def eval_loop_step eval_step_exec exec_op_known disabled_opcode_def op_hash_def r
        split: if_splits)
qed

lemma VerifyWitnessProgram_no_abort: "VerifyWitnessProgram H w v p flags checker \<noteq> Inl Abort"
  by (auto simp: VerifyWitnessProgram_def Let_def bindE_eq_Inl_iff EvalScript_no_abort split: if_splits)

lemma bindE_no_abort:
  "m \<noteq> Inl Abort \<Longrightarrow> (\<And>x. m = Inr x \<Longrightarrow> f x \<noteq> Inl Abort) \<Longrightarrow> bindE m f \<noteq> Inl Abort"
  by (auto simp: bindE_eq_Inl_iff)

lemma if_no_abort: "x \<noteq> Inl Abort \<Longrightarrow> y \<noteq> Inl Abort \<Longrightarrow> (if c then x else y) \<noteq> Inl Abort"
  by simp

lemma top_true_no_abort: "top_true stk \<noteq> Inl Abort"
  by (simp add: top_true_def)

lemma verify_bare_witness_no_abort:
  "verify_bare_witness H scriptSig scriptPubKey witness flags checker stk \<noteq> Inl Abort"
  by (auto simp: verify_bare_witness_def bindE_eq_Inl_iff VerifyWitnessProgram_no_abort split: option.splits)

lemma verify_p2sh_no_abort:
  assumes "IsPayToScriptHash scriptPubKey \<Longrightarrow> has_flag flags SCRIPT_VERIFY_P2SH \<Longrightarrow> stackCopy \<noteq> []"
  shows "verify_p2sh H scriptSig scriptPubKey witness flags checker stackCopy cur \<noteq> Inl Abort"
  using assms
  by (auto simp: verify_p2sh_def Let_def bindE_eq_Inl_iff EvalScript_no_abort top_true_no_abort VerifyWitnessProgram_no_abort
      split: option.splits)

lemma verify_final_no_abort: "flags_closed flags \<Longrightarrow> verify_final witness flags cur \<noteq> Inl Abort"
  by (auto simp: verify_final_def flags_closed_def bindE_eq_Inl_iff split: prod.splits if_splits)

section \<open>Fewer flags accept more\<close>

lemma EvalScript_kept:
  assumes "flags_sub flags' flags" "nops_kept flags' flags"
  shows "kept (EvalScript H stk script flags checker sv) (EvalScript H stk script flags' checker sv)"
  using EvalScript_mono [OF assms] by (auto simp: kept_def)

lemma VerifyWitnessProgram_kept:
  assumes sub: "flags_sub flags' flags" and nd: "nops_kept flags' flags"
  shows "kept (VerifyWitnessProgram H w v p flags checker) (VerifyWitnessProgram H w v p flags' checker)"
proof -
  have "kept (if has_flag flags SCRIPT_VERIFY_DISCOURAGE_UPGRADABLE_WITNESS_PROGRAM then set_error e else r)
      (if has_flag flags' SCRIPT_VERIFY_DISCOURAGE_UPGRADABLE_WITNESS_PROGRAM then set_error e else r)" for e and r :: "eval_error + unit"
    using has_flag_mono [OF sub] by (auto simp: kept_def)
  then show ?thesis
    unfolding VerifyWitnessProgram_def Let_def by (intro kept_if kept_bindE kept_refl EvalScript_kept [OF sub nd])
qed

lemma verify_bare_witness_mono:
  assumes sub: "flags_sub flags' flags" and nd: "nops_kept flags' flags"
    and run: "verify_bare_witness H scriptSig scriptPubKey witness flags checker stk = Inr cur"
  shows "\<exists>cur'. verify_bare_witness H scriptSig scriptPubKey witness flags' checker stk = Inr cur' \<and>
    (has_flag flags' SCRIPT_VERIFY_WITNESS \<longrightarrow> cur' = cur)"
  using run has_flag_mono [OF sub, of SCRIPT_VERIFY_WITNESS] VerifyWitnessProgram_kept [OF sub nd]
  by (auto simp: verify_bare_witness_def kept_def bindE_eq_Inr_iff split: option.splits if_splits)

lemma verify_p2sh_mono:
  assumes sub: "flags_sub flags' flags" and nd: "nops_kept flags' flags"
    and run: "verify_p2sh H scriptSig scriptPubKey witness flags checker
      (if has_flag flags SCRIPT_VERIFY_P2SH then stk else []) c = Inr cur"
    and same: "has_flag flags' SCRIPT_VERIFY_WITNESS \<Longrightarrow> c' = c \<and> has_flag flags' SCRIPT_VERIFY_P2SH"
  shows "\<exists>cur'. verify_p2sh H scriptSig scriptPubKey witness flags' checker
      (if has_flag flags' SCRIPT_VERIFY_P2SH then stk else []) c' = Inr cur' \<and>
    (has_flag flags' SCRIPT_VERIFY_WITNESS \<longrightarrow> cur' = cur)"
proof (cases "has_flag flags' SCRIPT_VERIFY_P2SH \<and> IsPayToScriptHash scriptPubKey")
  case False
  then have "cur = c" if "has_flag flags' SCRIPT_VERIFY_WITNESS"
    using same [OF that] run by (simp add: verify_p2sh_def)
  moreover have "verify_p2sh H scriptSig scriptPubKey witness flags' checker x c' = Inr c'" for x
    using False by (simp only: verify_p2sh_def if_False)
  ultimately show ?thesis using same by blast
next
  case True
  then have p: "has_flag flags SCRIPT_VERIFY_P2SH" using has_flag_mono [OF sub] by blast
  have po: "IsPushOnly scriptSig" "stk \<noteq> []" using run True p by (auto simp: verify_p2sh_def split: if_splits)
  obtain x where x: "EvalScript H (tl stk) (hd stk) flags checker SIGVERSION_BASE = Inr x" "top_true x = Inr ()"
    using run True p po by (auto simp: verify_p2sh_def Let_def bindE_eq_Inr_iff)
  note x' = EvalScript_mono [OF sub nd x(1)]
  show ?thesis
  proof (cases "has_flag flags' SCRIPT_VERIFY_WITNESS")
    case False
    with True p po x' x(2) show ?thesis by (simp add: verify_p2sh_def Let_def)
  next
    case True': True
    then have "has_flag flags SCRIPT_VERIFY_WITNESS" using has_flag_mono [OF sub] by blast
    with True' True p po x x' run same [OF True'] VerifyWitnessProgram_kept [OF sub nd] show ?thesis
      by (cases "IsWitnessProgram (hd stk)") (auto simp: verify_p2sh_def Let_def kept_def bindE_eq_Inr_iff split: if_splits)
  qed
qed

lemma verify_final_mono:
  assumes sub: "flags_sub flags' flags" and cl: "flags_closed flags'"
    and run: "verify_final witness flags cur = Inr u"
    and same: "has_flag flags' SCRIPT_VERIFY_WITNESS \<Longrightarrow> cur' = cur"
  shows "verify_final witness flags' cur' = Inr u"
  using assms has_flag_mono [OF sub, of SCRIPT_VERIFY_WITNESS] has_flag_mono [OF sub, of SCRIPT_VERIFY_CLEANSTACK]
  by (auto simp: verify_final_def flags_closed_def bindE_eq_Inr_iff split: prod.splits if_splits)

lemma VerifyScript_passes:
  assumes "VerifyScript H scriptSig scriptPubKey witness flags checker = Inr u"
  shows "(has_flag flags SCRIPT_VERIFY_SIGPUSHONLY \<longrightarrow> IsPushOnly scriptSig) \<and>
    (\<exists>stk1 stk2 c cur. EvalScript H [] scriptSig flags checker SIGVERSION_BASE = Inr stk1 \<and>
      EvalScript H stk1 scriptPubKey flags checker SIGVERSION_BASE = Inr stk2 \<and> top_true stk2 = Inr () \<and>
      verify_bare_witness H scriptSig scriptPubKey witness flags checker stk2 = Inr c \<and>
      verify_p2sh H scriptSig scriptPubKey witness flags checker
        (if has_flag flags SCRIPT_VERIFY_P2SH then stk1 else []) c = Inr cur \<and>
      verify_final witness flags cur = Inr u)"
proof -
  have g: "\<not> (has_flag flags SCRIPT_VERIFY_SIGPUSHONLY \<and> \<not> IsPushOnly scriptSig)"
    using assms by (simp add: VerifyScript_def split: if_split_asm)
  from assms show ?thesis
    unfolding VerifyScript_def Let_def if_not_P [OF g] bindE_eq_Inr_iff using g by auto
qed

section \<open>Properties\<close>

text \<open>C23. \<open>VerifyScript\<close> never reaches a failing assertion when \<open>CLEANSTACK\<close> is used only with \<open>P2SH\<close> and
  \<open>WITNESS\<close>, and \<open>WITNESS\<close> only with \<open>P2SH\<close>: in particular the stack that the P2SH part restores is never
  empty, because the P2SH output script fails on an empty stack.\<close>

theorem VerifyScript_never_asserts:
  assumes "flags_closed flags"
  shows "VerifyScript H scriptSig scriptPubKey witness flags checker \<noteq> Inl Abort"
proof -
  have p: "verify_p2sh H scriptSig scriptPubKey witness flags checker
      (if has_flag flags SCRIPT_VERIFY_P2SH then stk1 else []) cur \<noteq> Inl Abort"
    if "EvalScript H stk1 scriptPubKey flags checker SIGVERSION_BASE = Inr stk2" for stk1 stk2 cur
    using that by (intro verify_p2sh_no_abort) (auto dest: P2SH_needs_stack)
  show ?thesis
    unfolding VerifyScript_def Let_def
    by (rule if_no_abort, simp) (intro bindE_no_abort EvalScript_no_abort top_true_no_abort verify_bare_witness_no_abort
        verify_final_no_abort [OF assms] p)
qed

theorem VerifyScript_never_asserts_witness:
  "VerifyScript demo_hash [] [OP_1] [] 0 demo_checker \<noteq> Inl Abort"
  by (rule VerifyScript_never_asserts) (simp add: flags_closed_def has_flag_def)

text \<open>C18. Verification flags are soft forks: an input that passes \<open>VerifyScript\<close> under some flags passes it
  under every subset of them in which \<open>CLEANSTACK\<close> comes with \<open>P2SH\<close> and \<open>WITNESS\<close>, \<open>WITNESS\<close> with \<open>P2SH\<close>, and
  \<open>DISCOURAGE_UPGRADABLE_NOPS\<close> only with those of the flags for \<open>CHECKLOCKTIMEVERIFY\<close> and \<open>CHECKSEQUENCEVERIFY\<close> that were set
  (without them it turns the two opcodes into failures).\<close>

theorem VerifyScript_soft_fork_safe:
  assumes sub: "flags_sub flags' flags" and nd: "nops_kept flags' flags"
    and cl: "flags_closed flags'"
    and run: "VerifyScript H scriptSig scriptPubKey witness flags checker = Inr ()"
  shows "VerifyScript H scriptSig scriptPubKey witness flags' checker = Inr ()"
proof -
  obtain stk1 stk2 c cur where
    a: "has_flag flags SCRIPT_VERIFY_SIGPUSHONLY \<Longrightarrow> IsPushOnly scriptSig"
      "EvalScript H [] scriptSig flags checker SIGVERSION_BASE = Inr stk1"
      "EvalScript H stk1 scriptPubKey flags checker SIGVERSION_BASE = Inr stk2" "top_true stk2 = Inr ()"
    and b: "verify_bare_witness H scriptSig scriptPubKey witness flags checker stk2 = Inr c"
      "verify_p2sh H scriptSig scriptPubKey witness flags checker
        (if has_flag flags SCRIPT_VERIFY_P2SH then stk1 else []) c = Inr cur"
      "verify_final witness flags cur = Inr ()"
    using VerifyScript_passes [OF run] by blast
  obtain c' where c': "verify_bare_witness H scriptSig scriptPubKey witness flags' checker stk2 = Inr c'"
    "has_flag flags' SCRIPT_VERIFY_WITNESS \<longrightarrow> c' = c"
    using verify_bare_witness_mono [OF sub nd b(1)] by blast
  obtain cur' where cur': "verify_p2sh H scriptSig scriptPubKey witness flags' checker
      (if has_flag flags' SCRIPT_VERIFY_P2SH then stk1 else []) c' = Inr cur'"
    "has_flag flags' SCRIPT_VERIFY_WITNESS \<longrightarrow> cur' = cur"
    using verify_p2sh_mono [OF sub nd b(2), of c'] c'(2) cl by (auto simp: flags_closed_def)
  have "verify_final witness flags' cur' = Inr ()"
    using verify_final_mono [OF sub cl b(3)] cur'(2) by blast
  moreover have "\<not> (has_flag flags' SCRIPT_VERIFY_SIGPUSHONLY \<and> \<not> IsPushOnly scriptSig)"
    using a(1) has_flag_mono [OF sub] by blast
  ultimately show ?thesis
    unfolding VerifyScript_def Let_def
    by (simp only: if_False EvalScript_mono [OF sub nd a(2)] EvalScript_mono [OF sub nd a(3)] a(4) c'(1) cur'(1) bindE_Inr)
qed

theorem VerifyScript_soft_fork_safe_witness:
  "VerifyScript demo_hash [] [OP_1] [] 0 demo_checker = Inr ()"
proof (rule VerifyScript_soft_fork_safe [of 0 "1"])
  show "VerifyScript demo_hash [] [OP_1] [] 1 demo_checker = Inr ()" by code_simp
qed (simp_all add: flags_closed_def has_flag_def flags_sub_def nops_kept_def)

end
