(* ===== verification/Streams.thy ===== *)
theory Streams
  imports Prelude
begin

text \<open>
  The byte stream \<open>CDataStream\<close> of \<open>src/src/streams.h\<close>: a buffer with a read position that is cleared when
  the last byte is read. A failed operation returns the exception it throws; \<open>Undefined\<close> stands for a copy
  beyond the buffer, which the 32-bit position of the code does not exclude by itself. The stream refines a
  queue of bytes, its unread part: the interface \<open>byte_queue\<close> is what the serialization code relies on.
\<close>

section \<open>The stream\<close>

datatype stream_error = EndOfData | NegativeSize | Undefined

record CDataStream =
  nReadPos :: nat
  vch :: bytes

definition stream_size :: "CDataStream \<Rightarrow> nat" where
  "stream_size s = length (vch s) - nReadPos s"

definition stream_empty :: "CDataStream \<Rightarrow> bool" where
  "stream_empty s \<longleftrightarrow> length (vch s) = nReadPos s"

definition stream_read :: "nat \<Rightarrow> CDataStream \<Rightarrow> stream_error + bytes \<times> CDataStream" where
  "stream_read nSize s =
     (if nSize = 0 then Inr ([], s)
      else let nReadPosNext = (nReadPos s + nSize) mod 2 ^ 32
      in if nReadPosNext > length (vch s) then Inl EndOfData
         else if nReadPos s + nSize > length (vch s) then Inl Undefined
         else let data = take nSize (drop (nReadPos s) (vch s))
         in if nReadPosNext \<ge> length (vch s) then Inr (data, s\<lparr>nReadPos := 0, vch := []\<rparr>)
            else Inr (data, s\<lparr>nReadPos := nReadPosNext\<rparr>))"

definition stream_ignore :: "int \<Rightarrow> CDataStream \<Rightarrow> stream_error + CDataStream" where
  "stream_ignore nSize s =
     (if nSize < 0 then Inl NegativeSize
      else let nReadPosNext = (nReadPos s + nat nSize) mod 2 ^ 32
      in if nReadPosNext > length (vch s) then Inl EndOfData
         else if nReadPosNext \<ge> length (vch s) then Inr (s\<lparr>nReadPos := 0, vch := []\<rparr>)
         else Inr (s\<lparr>nReadPos := nReadPosNext\<rparr>))"

definition stream_write :: "bytes \<Rightarrow> CDataStream \<Rightarrow> CDataStream" where
  "stream_write data s = s\<lparr>vch := vch s @ data\<rparr>"

definition stream_append :: "CDataStream \<Rightarrow> CDataStream \<Rightarrow> CDataStream" where
  "stream_append s b = s\<lparr>vch := vch s @ drop (nReadPos b) (vch b)\<rparr>"

definition stream_Compact :: "CDataStream \<Rightarrow> CDataStream" where
  "stream_Compact s = s\<lparr>vch := drop (nReadPos s) (vch s), nReadPos := 0\<rparr>"

definition stream_Rewind :: "nat \<Rightarrow> CDataStream \<Rightarrow> bool \<times> CDataStream" where
  "stream_Rewind n s = (if n > nReadPos s then (False, s) else (True, s\<lparr>nReadPos := nReadPos s - n\<rparr>))"

definition stream_GetAndClear :: "bytes \<Rightarrow> CDataStream \<Rightarrow> bytes \<times> CDataStream" where
  "stream_GetAndClear data s = (data @ drop (nReadPos s) (vch s), s\<lparr>vch := [], nReadPos := 0\<rparr>)"

text \<open>Writing a stream into a stream, and the loop of \<open>Xor\<close>, both index the buffer from its start.\<close>

definition stream_Serialize :: "CDataStream \<Rightarrow> CDataStream \<Rightarrow> CDataStream" where
  "stream_Serialize b s = (if vch b \<noteq> [] then stream_write (vch b) s else s)"

function xor_loop :: "bytes \<Rightarrow> nat \<Rightarrow> nat \<Rightarrow> nat \<Rightarrow> bytes \<Rightarrow> bytes" where
  "xor_loop key stop i j v =
     (if i < stop
      then xor_loop key stop (i + 1) (if j + 1 = length key then 0 else j + 1) (v[i := v ! i XOR key ! j])
      else v)"
  by auto
termination
  by (relation "measure (\<lambda>(key, stop, i, j, v). stop - i)") auto

declare xor_loop.simps [simp del]

definition stream_Xor :: "bytes \<Rightarrow> CDataStream \<Rightarrow> CDataStream" where
  "stream_Xor key s = (if length key = 0 then s else s\<lparr>vch := xor_loop key (stream_size s) 0 0 (vch s)\<rparr>)"

section \<open>The stream as a queue of bytes\<close>

text \<open>What a client of a stream relies on: bytes come out in the order they went in.\<close>

locale byte_queue =
  fixes inv :: "'s \<Rightarrow> bool" and content :: "'s \<Rightarrow> bytes"
    and put :: "bytes \<Rightarrow> 's \<Rightarrow> 's" and get :: "nat \<Rightarrow> 's \<Rightarrow> stream_error + bytes \<times> 's"
    and room :: "'s \<Rightarrow> nat" and most :: nat
  assumes put_inv: "inv s \<Longrightarrow> length d \<le> room s \<Longrightarrow> inv (put d s)"
    and put_content: "inv s \<Longrightarrow> content (put d s) = content s @ d"
    and get_ok: "inv s \<Longrightarrow> n \<le> length (content s) \<Longrightarrow>
      \<exists>s'. get n s = Inr (take n (content s), s') \<and> inv s' \<and> content s' = drop n (content s)"
    and get_short: "inv s \<Longrightarrow> length (content s) < n \<Longrightarrow> n \<le> most \<Longrightarrow> get n s = Inl EndOfData"
begin

lemma get_put:
  assumes "inv s" "content s = []" "length d \<le> room s"
  shows "\<exists>s'. get (length d) (put d s) = Inr (d, s') \<and> inv s' \<and> content s' = []"
  using get_ok [of "put d s" "length d"] put_inv [of s d] put_content [of s d] assms by auto

lemma get_twice:
  assumes "inv s" "n + m \<le> length (content s)"
  shows "\<exists>s' s''. get n s = Inr (take n (content s), s') \<and> get m s' = Inr (take m (drop n (content s)), s'') \<and>
    inv s'' \<and> content s'' = drop (n + m) (content s)"
proof -
  obtain s' where s': "get n s = Inr (take n (content s), s')" "inv s'" "content s' = drop n (content s)"
    using get_ok [of s n] assms by auto
  obtain s'' where "get m s' = Inr (take m (content s'), s'')" "inv s''" "content s'' = drop m (content s')"
    using get_ok [of s' m] s'(2,3) assms(2) by fastforce
  with s' show ?thesis by (auto simp: add.commute)
qed

end

text \<open>
  The position stays within the buffer, and buffers stay below 2^31 bytes, so that adding the size of a read
  cannot wrap (reads of the serialization code are at most \<open>MAX_SIZE\<close> = 2^25 bytes).
\<close>

definition stream_ok :: "CDataStream \<Rightarrow> bool" where
  "stream_ok s \<longleftrightarrow> nReadPos s \<le> length (vch s) \<and> length (vch s) < 2 ^ 31"

definition unread :: "CDataStream \<Rightarrow> bytes" where
  "unread s = drop (nReadPos s) (vch s)"

definition stream_room :: "CDataStream \<Rightarrow> nat" where
  "stream_room s = 2 ^ 31 - 1 - length (vch s)"

lemma length_unread [simp]: "length (unread s) = stream_size s"
  by (simp add: unread_def stream_size_def)

lemma pos_no_wrap: "stream_ok s \<Longrightarrow> n < 2 ^ 31 \<Longrightarrow> (nReadPos s + n) mod 2 ^ 32 = nReadPos s + n"
  by (simp add: stream_ok_def)

lemma stream_read_ok:
  assumes "stream_ok s" "n \<le> stream_size s"
  shows "\<exists>s'. stream_read n s = Inr (take n (unread s), s') \<and> stream_ok s' \<and> unread s' = drop n (unread s)"
proof (cases "n = 0")
  case False
  have "n < 2 ^ 31" using assms by (auto simp: stream_ok_def stream_size_def)
  from pos_no_wrap [OF assms(1) this] False assms show ?thesis
    by (auto simp: stream_read_def Let_def unread_def stream_ok_def stream_size_def add.commute)
qed (use assms in \<open>simp add: stream_read_def\<close>)

lemma stream_read_short:
  assumes "stream_ok s" "stream_size s < n" "n \<le> 2 ^ 31 - 1"
  shows "stream_read n s = Inl EndOfData"
  using pos_no_wrap [OF assms(1), of n] assms by (auto simp: stream_read_def Let_def stream_size_def)

lemma stream_write_unread: "stream_ok s \<Longrightarrow> unread (stream_write d s) = unread s @ d"
  by (simp add: stream_write_def unread_def stream_ok_def)

interpretation data_stream: byte_queue stream_ok unread stream_write stream_read stream_room "2 ^ 31 - 1"
proof unfold_locales
  show "stream_ok s \<Longrightarrow> length d \<le> stream_room s \<Longrightarrow> stream_ok (stream_write d s)" for s d
    by (auto simp: stream_ok_def stream_write_def stream_room_def)
qed (auto intro: stream_write_unread stream_read_ok stream_read_short)

section \<open>Rewinding, skipping, masking\<close>

lemma stream_ignore_read:
  assumes "stream_ok s" "n < 2 ^ 31"
  shows "stream_ignore (int n) s = (if n = 0 \<and> stream_size s = 0 then Inr (s\<lparr>nReadPos := 0, vch := []\<rparr>)
    else case stream_read n s of Inl e \<Rightarrow> Inl e | Inr (d, s') \<Rightarrow> Inr s')"
  using pos_no_wrap [OF assms] assms
  by (auto simp: stream_ignore_def stream_read_def Let_def stream_size_def stream_ok_def)

lemma xor_loop_nth:
  assumes "i \<le> stop" "stop \<le> length v" "j = i mod length key" "key \<noteq> []"
  shows "length (xor_loop key stop i j v) = length v \<and>
    (\<forall>k < length v. xor_loop key stop i j v ! k = (if i \<le> k \<and> k < stop then v ! k XOR key ! (k mod length key) else v ! k))"
  using assms
proof (induction key stop i j v rule: xor_loop.induct)
  case (1 key stop i j v)
  show ?case
  proof (cases "i < stop")
    case True
    have "(if j + 1 = length key then 0 else j + 1) = (i + 1) mod length key"
      using 1(4,5) by (simp add: mod_Suc)
    with 1(1) [OF True] True 1(2-5) show ?thesis
      by (subst (1 2) xor_loop.simps) (auto simp: nth_list_update not_less_eq_eq le_antisym)
  next
    case False
    with 1(2) show ?thesis by (subst (1 2) xor_loop.simps) auto
  qed
qed

lemma stream_Xor_twice: "stream_Xor key (stream_Xor key s) = s"
proof (cases "key = []")
  case False
  let ?v = "xor_loop key (stream_size s) 0 0 (vch s)"
  note x = xor_loop_nth [of 0 "stream_size s" _ 0 key]
  have l: "length ?v = length (vch s)" using x [of "vch s"] False by (simp add: stream_size_def)
  have "xor_loop key (stream_size s) 0 0 ?v = vch s"
    using x [of "vch s"] x [of ?v] l False
    by (intro nth_equalityI) (auto simp: stream_size_def ac_simps)
  then show ?thesis using l False by (simp add: stream_Xor_def stream_size_def)
qed (simp add: stream_Xor_def)

section \<open>Properties\<close>

text \<open>The data stream implements a queue of bytes. From a well-formed state, a write appends to the
  unread bytes; a read of available bytes returns them in order and leaves the rest, whether or not it
  clears the buffer; a longer read throws without touching the stream; a rewind after a read that did not
  reach the end gives the same bytes again.\<close>

theorem CDataStream_refines_queue:
  assumes "stream_ok s"
  shows "(length d \<le> stream_room s \<longrightarrow> stream_ok (stream_write d s) \<and> unread (stream_write d s) = unread s @ d) \<and>
    (n \<le> length (unread s) \<longrightarrow>
      (\<exists>s'. stream_read n s = Inr (take n (unread s), s') \<and> stream_ok s' \<and> unread s' = drop n (unread s) \<and>
        (n < length (unread s) \<longrightarrow> stream_Rewind n s' = (True, s)))) \<and>
    (length (unread s) < n \<and> n < 2 ^ 31 \<longrightarrow> stream_read n s = Inl EndOfData)"
proof (intro conjI impI)
  assume "length d \<le> stream_room s"
  with assms show "stream_ok (stream_write d s)" "unread (stream_write d s) = unread s @ d"
    by (blast intro: data_stream.put_inv data_stream.put_content)+
next
  assume "length (unread s) < n \<and> n < 2 ^ 31"
  then show "stream_read n s = Inl EndOfData" using data_stream.get_short [OF assms, of n] by simp
next
  assume n: "n \<le> length (unread s)"
  then obtain s' where s': "stream_read n s = Inr (take n (unread s), s')" "stream_ok s'" "unread s' = drop n (unread s)"
    using data_stream.get_ok [OF assms] by blast
  have "stream_Rewind n s' = (True, s)" if "n < length (unread s)"
    using s'(1) that pos_no_wrap [OF assms, of n] assms
    by (auto simp: stream_read_def Let_def stream_size_def stream_ok_def stream_Rewind_def split: if_splits)
  with s' show "\<exists>s'. stream_read n s = Inr (take n (unread s), s') \<and> stream_ok s' \<and> unread s' = drop n (unread s) \<and>
        (n < length (unread s) \<longrightarrow> stream_Rewind n s' = (True, s))" by blast
qed

theorem CDataStream_refines_queue_witness:
  "\<exists>s'. stream_read 1 \<lparr>nReadPos = 1, vch = [7, 8, 9]\<rparr> = Inr ([8], s') \<and> unread s' = [9] \<and>
    stream_Rewind 1 s' = (True, \<lparr>nReadPos = 1, vch = [7, 8, 9]\<rparr>)"
  using CDataStream_refines_queue [of "\<lparr>nReadPos = 1, vch = [7, 8, 9]\<rparr>" "[]" 1]
  by (auto simp: stream_ok_def unread_def stream_size_def)

end
