(* ===== verification/Serialize.thy ===== *)
theory Serialize
  imports Streams
begin

text \<open>
  The serialization of \<open>src/src/serialize.h\<close>: integers, compact sizes, variable-length integers, byte
  strings, vectors and bit sets. A writer returns the bytes it appends to the stream; a reader takes the
  unread bytes of the stream (\<open>Streams\<close>) and returns the object with the bytes that are left, or the
  exception. The locales \<open>codec\<close> and \<open>canonical_codec\<close> state what a pair of a writer and a reader promises;
  every serializable type of the development interprets them.
\<close>

section \<open>Integers\<close>

datatype ser_error = Stream stream_error | NonCanonicalSize | SizeTooLarge | StringTooLong |
  OutOfRangeBits | OutOfBoundsIndex | OffsetOverflow | InvalidVarIntsByte | OutOfBoundsWrite | UnknownOptionalData |
  AssertKeySize | AssertDigit | AssertUnspent | SignedOverflow | TooManyInputs

type_synonym 'a reader = "bytes \<Rightarrow> ser_error + 'a \<times> bytes"

definition read_bytes :: "nat \<Rightarrow> bytes reader" where
  "read_bytes n s = (if n \<le> length s then Inr (take n s, drop n s) else Inl (Stream EndOfData))"

definition ser_writedata8 :: "byte \<Rightarrow> bytes" where
  "ser_writedata8 obj = [obj]"

definition ser_writedata16 :: "u16 \<Rightarrow> bytes" where
  "ser_writedata16 obj = WriteLE16 obj"

definition ser_writedata32 :: "u32 \<Rightarrow> bytes" where
  "ser_writedata32 obj = WriteLE32 obj"

definition ser_writedata64 :: "u64 \<Rightarrow> bytes" where
  "ser_writedata64 obj = WriteLE64 obj"

definition ser_writedata32be :: "u32 \<Rightarrow> bytes" where
  "ser_writedata32be obj = rev (WriteLE32 obj)"

definition ser_readdata8 :: "byte reader" where
  "ser_readdata8 s = bindE (read_bytes 1 s) (\<lambda>(b, r). Inr (hd b, r))"

definition ser_readdata16 :: "u16 reader" where
  "ser_readdata16 s = bindE (read_bytes 2 s) (\<lambda>(b, r). Inr (ReadLE16 b, r))"

definition ser_readdata32 :: "u32 reader" where
  "ser_readdata32 s = bindE (read_bytes 4 s) (\<lambda>(b, r). Inr (ReadLE32 b, r))"

definition ser_readdata64 :: "u64 reader" where
  "ser_readdata64 s = bindE (read_bytes 8 s) (\<lambda>(b, r). Inr (ReadLE64 b, r))"

definition ser_readdata32be :: "u32 reader" where
  "ser_readdata32be s = bindE (read_bytes 4 s) (\<lambda>(b, r). Inr (ReadLE32 (rev b), r))"

section \<open>Compact sizes\<close>

abbreviation (input) MAX_SIZE :: nat where "MAX_SIZE \<equiv> 0x02000000"

definition GetSizeOfCompactSize :: "u64 \<Rightarrow> nat" where
  "GetSizeOfCompactSize nSize =
     (if nSize < 253 then 1
      else if nSize \<le> 0xffff then 1 + 2
      else if nSize \<le> 0xffffffff then 1 + 4
      else 1 + 8)"

definition WriteCompactSize :: "u64 \<Rightarrow> bytes" where
  "WriteCompactSize nSize =
     (if nSize < 253 then ser_writedata8 (ucast nSize)
      else if nSize \<le> 0xffff then ser_writedata8 253 @ ser_writedata16 (ucast nSize)
      else if nSize \<le> 0xffffffff then ser_writedata8 254 @ ser_writedata32 (ucast nSize)
      else ser_writedata8 255 @ ser_writedata64 nSize)"

definition ReadCompactSize :: "u64 reader" where
  "ReadCompactSize s =
     bindE (ser_readdata8 s) (\<lambda>(chSize, s).
     bindE (if chSize < 253 then Inr (ucast chSize, s)
            else if chSize = 253 then
              bindE (ser_readdata16 s) (\<lambda>(v, s).
                if ucast v < (253 :: u64) then Inl NonCanonicalSize else Inr (ucast v, s))
            else if chSize = 254 then
              bindE (ser_readdata32 s) (\<lambda>(v, s).
                if ucast v < (0x10000 :: u64) then Inl NonCanonicalSize else Inr (ucast v, s))
            else
              bindE (ser_readdata64 s) (\<lambda>(v, s).
                if v < 0x100000000 then Inl NonCanonicalSize else Inr (v, s)))
       (\<lambda>(nSizeRet, s). if nSizeRet > 0x02000000 then Inl SizeTooLarge else Inr (nSizeRet, s)))"

section \<open>Variable-length integers\<close>

text \<open>
  The buffer \<open>tmp\<close> of \<open>WriteVarInt\<close> is built least significant digit first (\<open>varint_digits\<close>; the first digit
  has no continuation bit) and written in reverse. The type of the integer is any machine word.
\<close>

lemma varint_more:
  fixes n :: "'a::len word"
  assumes "\<not> n \<le> 0x7F"
  shows "drop_bit 7 n \<noteq> 0"
proof
  assume "drop_bit 7 n = 0"
  then have "take_bit 7 n = n" using bits_ident [of 7 n] by simp
  then have "n AND mask 7 = n" by (simp add: take_bit_eq_mask)
  then have "n \<le> mask 7" by (metis word_and_le1)
  moreover have "(mask 7 :: 'a word) = 0x7F" by (simp add: mask_eq_exp_minus_1)
  ultimately show False using assms by simp
qed

lemma unat_drop7: "unat (drop_bit 7 n) = unat n div 2 ^ 7"
  for n :: "'a::len word"
  by (simp only: unsigned_drop_bit_eq drop_bit_nat_def take_bit_nat_eq_self unsigned_less)

lemma varint_decreases: "\<not> n \<le> 0x7F \<Longrightarrow> unat (drop_bit 7 n - 1) < unat n"
  for n :: "'a::len word"
  using varint_more [of n] unat_drop7 [of n] measure_unat [of "drop_bit 7 n"] div_le_dividend [of "unat n" "2 ^ 7"]
  by linarith

function GetSizeOfVarInt :: "'a::len word \<Rightarrow> nat" where
  "GetSizeOfVarInt n = (if n \<le> 0x7F then 1 else 1 + GetSizeOfVarInt (drop_bit 7 n - 1))"
  by auto
termination
  by (relation "measure unat") (auto dest: varint_decreases simp: not_le [symmetric])

function varint_digits :: "'a::len word \<Rightarrow> bool \<Rightarrow> bytes" where
  "varint_digits n later =
     ((ucast (n AND 0x7F) OR (if later then 0x80 else 0x00)) #
      (if n \<le> 0x7F then [] else varint_digits (drop_bit 7 n - 1) True))"
  by auto
termination
  by (relation "measure (\<lambda>(n, l). unat n)") (auto dest: varint_decreases simp: not_le [symmetric])

declare GetSizeOfVarInt.simps [simp del] varint_digits.simps [simp del]

definition WriteVarInt :: "'a::len word \<Rightarrow> bytes" where
  "WriteVarInt n = rev (varint_digits n False)"

fun read_varint_loop :: "'a::len word \<Rightarrow> 'a word reader" where
  "read_varint_loop n [] = Inl (Stream EndOfData)"
| "read_varint_loop n (chData # s) =
     (let n' = push_bit 7 n OR ucast (chData AND 0x7F)
      in if chData AND 0x80 \<noteq> 0 then read_varint_loop (n' + 1) s else Inr (n', s))"

definition ReadVarInt :: "'a::len word reader" where
  "ReadVarInt s = read_varint_loop 0 s"

section \<open>Byte strings and vectors\<close>

text \<open>
  Byte strings are read in blocks of at most 5000000 bytes; the elements of a vector one by one (the growth
  of the vector in steps only limits the memory that a bogus size can claim). Sizes go through
  \<open>unsigned int\<close>. \<open>Serialize_blob\<close> covers strings, vectors and prevectors of bytes, \<open>Serialize_vector\<close> vectors
  and prevectors of other elements.
\<close>

definition Serialize_blob :: "bytes \<Rightarrow> bytes" where
  "Serialize_blob v = WriteCompactSize (of_nat (length v)) @ v"

function blob_loop :: "nat \<Rightarrow> nat \<Rightarrow> bytes \<Rightarrow> bytes reader" where
  "blob_loop nSize i v s =
     (if i < nSize then
        let blk = min (nSize - i) (1 + 4999999)
        in bindE (read_bytes blk s) (\<lambda>(b, s'). blob_loop nSize (i + blk) (v @ b) s')
      else Inr (v, s))"
  by auto
termination
  by (relation "measure (\<lambda>(nSize, i, v, s). nSize - i)") auto

declare blob_loop.simps [simp del]

definition Unserialize_blob :: "bytes reader" where
  "Unserialize_blob s = bindE (ReadCompactSize s) (\<lambda>(nSize, s). blob_loop (unat (ucast nSize :: u32)) 0 [] s)"

definition Serialize_vector :: "('a \<Rightarrow> bytes) \<Rightarrow> 'a list \<Rightarrow> bytes" where
  "Serialize_vector ser v = WriteCompactSize (of_nat (length v)) @ concat (map ser v)"

primrec vector_loop :: "'a reader \<Rightarrow> nat \<Rightarrow> 'a list reader" where
  "vector_loop unser 0 s = Inr ([], s)"
| "vector_loop unser (Suc k) s = bindE (unser s) (\<lambda>(x, s). bindE (vector_loop unser k s) (\<lambda>(xs, s). Inr (x # xs, s)))"

definition Unserialize_vector :: "'a reader \<Rightarrow> 'a list reader" where
  "Unserialize_vector unser s = bindE (ReadCompactSize s) (\<lambda>(nSize, s). vector_loop unser (unat (ucast nSize :: u32)) s)"

definition LimitedString_Unserialize :: "nat \<Rightarrow> bytes reader" where
  "LimitedString_Unserialize limit s =
     bindE (ReadCompactSize s) (\<lambda>(size, s).
       if unat size > limit then Inl StringTooLong else read_bytes (unat size) s)"

section \<open>Codecs\<close>

text \<open>
  A codec: the reader inverts the writer on well-formed objects and leaves the rest of the stream alone. A
  canonical codec accepts nothing but what the writer produces from well-formed objects.
\<close>

locale codec =
  fixes ser :: "'a \<Rightarrow> bytes" and unser :: "'a reader" and ok :: "'a \<Rightarrow> bool"
  assumes read_back: "ok x \<Longrightarrow> unser (ser x @ r) = Inr (x, r)"
begin

lemma read_back_end: "ok x \<Longrightarrow> unser (ser x) = Inr (x, [])"
  using read_back [of x "[]"] by simp

lemma unambiguous: "ok x \<Longrightarrow> ok y \<Longrightarrow> ser x @ r = ser y @ r' \<Longrightarrow> x = y \<and> r = r'"
  by (metis read_back Pair_inject sum.inject(2))

lemma vector_loop_back: "list_all ok xs \<Longrightarrow> vector_loop unser (length xs) (concat (map ser xs) @ r) = Inr (xs, r)"
  by (induction xs) (simp_all add: read_back)

end

locale canonical_codec = codec +
  assumes canonical: "unser s = Inr (x, r) \<Longrightarrow> ok x \<and> s = ser x @ r"
begin

lemma accepts_iff: "unser s = Inr (x, r) \<longleftrightarrow> ok x \<and> s = ser x @ r"
  using canonical read_back by blast

lemma vector_loop_canonical:
  "vector_loop unser k s = Inr (xs, r) \<Longrightarrow> length xs = k \<and> list_all ok xs \<and> s = concat (map ser xs) @ r"
  by (induction k arbitrary: s xs) (auto simp: bindE_eq_Inr_iff dest!: canonical)

end

subsection \<open>Integers\<close>

lemma read_bytes_append: "length d = n \<Longrightarrow> read_bytes n (d @ r) = Inr (d, r)"
  by (auto simp: read_bytes_def)

lemma read_bytes_canonical: "read_bytes n s = Inr (d, r) \<Longrightarrow> length d = n \<and> s = d @ r"
  by (auto simp: read_bytes_def split: if_splits)

lemma uint_uval_word:
  fixes b :: bytes
  assumes "8 * length b = LENGTH('a::len)"
  shows "uint (word_of_int (uval b) :: 'a word) = uval b"
  using uval_mod [of b] assms by (simp add: uint_word_of_int del: uval_mod)

lemma WriteLE16_ReadLE16: "length b = 2 \<Longrightarrow> WriteLE16 (ReadLE16 b) = b"
  using uval_inject [of "WriteLE16 (ReadLE16 b)" b] uint_uval_word [of b, where 'a = 16] by (simp add: ReadLE16_def)

lemma WriteLE32_ReadLE32: "length b = 4 \<Longrightarrow> WriteLE32 (ReadLE32 b) = b"
  using uval_inject [of "WriteLE32 (ReadLE32 b)" b] uint_uval_word [of b, where 'a = 32] by (simp add: ReadLE32_def)

lemma WriteLE64_ReadLE64: "length b = 8 \<Longrightarrow> WriteLE64 (ReadLE64 b) = b"
  using uval_inject [of "WriteLE64 (ReadLE64 b)" b] uint_uval_word [of b, where 'a = 64] by (simp add: ReadLE64_def)

lemmas WriteLE_ReadLE = WriteLE16_ReadLE16 WriteLE32_ReadLE32 WriteLE64_ReadLE64

lemma ReadLE_back [simp]:
  "ReadLE16 (WriteLE16 x) = x" "ReadLE32 (WriteLE32 y) = y" "ReadLE64 (WriteLE64 z) = z"
  using ReadLE_WriteLE(1) [of x "[]"] ReadLE_WriteLE(2) [of y "[]"] ReadLE_WriteLE(3) [of z "[]"] by simp_all

lemmas ser_int_defs = ser_writedata8_def ser_writedata16_def ser_writedata32_def ser_writedata64_def ser_writedata32be_def
  ser_readdata8_def ser_readdata16_def ser_readdata32_def ser_readdata64_def ser_readdata32be_def

interpretation u8: canonical_codec ser_writedata8 ser_readdata8 "\<lambda>_. True"
  by unfold_locales (auto simp: ser_int_defs read_bytes_def bindE_eq_Inr_iff Suc_le_length_iff split: if_splits)

interpretation u16: canonical_codec ser_writedata16 ser_readdata16 "\<lambda>_. True"
  by unfold_locales (auto simp: ser_int_defs read_bytes_append bindE_eq_Inr_iff WriteLE_ReadLE dest!: read_bytes_canonical)

interpretation u32: canonical_codec ser_writedata32 ser_readdata32 "\<lambda>_. True"
  by unfold_locales (auto simp: ser_int_defs read_bytes_append bindE_eq_Inr_iff WriteLE_ReadLE dest!: read_bytes_canonical)

interpretation u64: canonical_codec ser_writedata64 ser_readdata64 "\<lambda>_. True"
  by unfold_locales (auto simp: ser_int_defs read_bytes_append bindE_eq_Inr_iff WriteLE_ReadLE dest!: read_bytes_canonical)

interpretation u32be: canonical_codec ser_writedata32be ser_readdata32be "\<lambda>_. True"
  by unfold_locales (auto simp: ser_int_defs read_bytes_append bindE_eq_Inr_iff WriteLE_ReadLE dest!: read_bytes_canonical)

subsection \<open>Compact sizes\<close>

lemma ucast_up_down:
  fixes w :: "'a::len word"
  shows "LENGTH('a) \<le> LENGTH('b::len) \<Longrightarrow> ucast (ucast w :: 'b word) = w"
  by (rule bit_word_eqI) (simp add: bit_simps)

lemma unat_bound: "unat w < 2 ^ LENGTH('a)"
  for w :: "'a::len word"
  by (rule unsigned_less)

lemma u64_unat_eqI: "unat m = unat n \<Longrightarrow> m = n"
  for m n :: u64
  by (simp add: word_unat_eq_iff)

lemmas small_cast = word_less_nat_alt word_le_nat_alt unsigned_ucast_eq unsigned_take_bit_eq take_bit_nat_eq_self

lemma ucast_back8: "n < 253 \<Longrightarrow> ucast (ucast n :: byte) = n"
  for n :: u64
  by (rule u64_unat_eqI) (simp add: small_cast)

lemma ucast_back16: "n \<le> 0xffff \<Longrightarrow> ucast (ucast n :: u16) = n"
  for n :: u64
  by (rule u64_unat_eqI) (simp add: small_cast)

lemma ucast_back32: "n \<le> 0xffffffff \<Longrightarrow> ucast (ucast n :: u32) = n"
  for n :: u64
  by (rule u64_unat_eqI) (simp add: small_cast)

lemma ucast_small_bounds:
  "n < 253 \<Longrightarrow> ucast (n :: u64) < (253 :: byte)" "c < 253 \<Longrightarrow> ucast (c :: byte) < (253 :: u64)"
  by (simp_all add: small_cast)

lemma ucast_le16: "ucast v \<le> (0xffff :: u64)"
  for v :: u16
  using unat_bound [of v] by (simp add: small_cast)

lemma ucast_le32: "ucast v \<le> (0xffffffff :: u64)"
  for v :: u32
  using unat_bound [of v] by (simp add: small_cast)

lemma u64_strict:
  "n < 0x10000 \<longleftrightarrow> n \<le> 0xffff" "n < 0x100000000 \<longleftrightarrow> n \<le> 0xffffffff"
  for n :: u64
  by (simp_all add: word_le_nat_alt word_less_nat_alt less_Suc_eq_le [symmetric])

lemma u64_small_le: "n < 253 \<Longrightarrow> n \<le> 0xffff" "n \<le> 0x02000000 \<Longrightarrow> n \<le> 0xffffffff" "n < 253 \<Longrightarrow> n \<le> 0x02000000"
  for n :: u64
  by (simp_all add: word_le_nat_alt word_less_nat_alt)

lemma ReadCompactSize_tagged:
  "ReadCompactSize (253 # s) = bindE (ser_readdata16 s) (\<lambda>(v, s).
      if ucast v < (253 :: u64) then Inl NonCanonicalSize else if ucast v > (0x02000000 :: u64) then Inl SizeTooLarge else Inr (ucast v, s))"
  "ReadCompactSize (254 # s) = bindE (ser_readdata32 s) (\<lambda>(v, s).
      if ucast v < (0x10000 :: u64) then Inl NonCanonicalSize else if ucast v > (0x02000000 :: u64) then Inl SizeTooLarge else Inr (ucast v, s))"
  "ReadCompactSize (255 # s) = bindE (ser_readdata64 s) (\<lambda>(v, s).
      if v < 0x100000000 then Inl NonCanonicalSize else if v > 0x02000000 then Inl SizeTooLarge else Inr (v, s))"
  by (auto simp: ReadCompactSize_def ser_readdata8_def read_bytes_def bindE_def split: sum.split)

lemma ReadCompactSize_small: "c < 253 \<Longrightarrow> ReadCompactSize (c # s) = Inr (ucast c, s)"
  using ucast_small_bounds(2) [of c] by (auto simp: ReadCompactSize_def ser_readdata8_def read_bytes_def dest: order_less_trans)

lemma byte_cases: "c < 253 \<or> c = 253 \<or> c = 254 \<or> c = 255"
  for c :: byte
proof -
  have "unat c < 253 \<or> unat c = 253 \<or> unat c = 254 \<or> unat c = 255" using unat_bound [of c] by auto
  then show ?thesis by (simp add: word_less_nat_alt word_unat_eq_iff)
qed

interpretation compact: canonical_codec WriteCompactSize ReadCompactSize "\<lambda>n. n \<le> 0x02000000"
proof unfold_locales
  fix n :: u64 and r
  assume n: "n \<le> 0x02000000"
  then have "\<not> 0x02000000 < n" "n \<le> 0xffffffff" by (simp_all add: word_le_nat_alt word_less_nat_alt)
  then show "ReadCompactSize (WriteCompactSize n @ r) = Inr (n, r)"
    by (auto simp: WriteCompactSize_def ser_writedata8_def ReadCompactSize_small ReadCompactSize_tagged
        u16.read_back u32.read_back ucast_small_bounds ucast_back8 ucast_back16 ucast_back32 u64_strict)
next
  fix s n r
  assume a: "ReadCompactSize s = Inr (n, r)"
  then obtain c s' where s: "s = c # s'"
    by (cases s) (auto simp: ReadCompactSize_def ser_readdata8_def read_bytes_def)
  from byte_cases [of c] show "n \<le> 0x02000000 \<and> s = WriteCompactSize n @ r"
  proof (elim disjE)
    assume c: "c < 253"
    then have "ucast c < (253 :: u64)" by (rule ucast_small_bounds)
    then show ?thesis using a c u64_small_le(3) [of "ucast c"]
      by (auto simp: s ReadCompactSize_small WriteCompactSize_def ser_writedata8_def ucast_up_down)
  next
    assume "c = 253"
    then show ?thesis using a ucast_le16
      by (auto simp: s ReadCompactSize_tagged bindE_eq_Inr_iff u16.accepts_iff WriteCompactSize_def ser_writedata8_def
          ucast_up_down u64_strict split: if_splits)
  next
    assume "c = 254"
    then show ?thesis using a ucast_le32
      by (auto simp: s ReadCompactSize_tagged bindE_eq_Inr_iff u32.accepts_iff WriteCompactSize_def ser_writedata8_def
          ucast_up_down u64_strict split: if_splits dest: u64_small_le)
  next
    assume "c = 255"
    then show ?thesis using a u64_small_le(2) [of n]
      by (auto simp: s ReadCompactSize_tagged bindE_eq_Inr_iff u64_strict linorder_not_less split: if_splits)
  qed
qed

lemma WriteCompactSize_length: "length (WriteCompactSize n) = GetSizeOfCompactSize n"
  by (simp add: WriteCompactSize_def GetSizeOfCompactSize_def ser_int_defs)

subsection \<open>Byte strings and vectors\<close>

lemma read_bytes_split:
  "n \<le> length s \<Longrightarrow> k \<le> n \<Longrightarrow> read_bytes k s = Inr (take k s, drop k s)"
  by (simp add: read_bytes_def)

lemma blob_loop_read:
  "i \<le> nSize \<Longrightarrow> blob_loop nSize i v s = bindE (read_bytes (nSize - i) s) (\<lambda>(b, r). Inr (v @ b, r))"
proof (induction nSize i v s rule: blob_loop.induct)
  case (1 nSize i v s)
  let ?blk = "min (nSize - i) 5000000"
  show ?case
  proof (cases "i < nSize")
    case True
    then have "blob_loop nSize i v s = bindE (read_bytes ?blk s) (\<lambda>(b, s'). blob_loop nSize (i + ?blk) (v @ b) s')"
      by (subst blob_loop.simps) (simp add: Let_def)
    moreover have "blob_loop nSize (i + ?blk) (v @ b) s' = bindE (read_bytes (nSize - (i + ?blk)) s') (\<lambda>(b', r). Inr ((v @ b) @ b', r))"
      if "read_bytes ?blk s = Inr (b, s')" for b s'
      using 1(1) [OF True refl, of "(b, s')" b s'] True that by simp
    ultimately show ?thesis using True
      by (cases "?blk \<le> length s") (auto simp: read_bytes_def take_add [symmetric] min_def split: if_splits)
  qed (use 1(2) in \<open>subst blob_loop.simps; simp add: read_bytes_def\<close>)
qed

lemma size_cast: "n \<le> 0x02000000 \<Longrightarrow> unat (ucast n :: u32) = unat n"
  for n :: u64
  by (simp add: small_cast)

lemma size_of_nat: "k \<le> MAX_SIZE \<Longrightarrow> of_nat k \<le> (0x02000000 :: u64)" "k \<le> MAX_SIZE \<Longrightarrow> unat (of_nat k :: u64) = k"
  by (simp_all add: word_le_nat_alt unat_of_nat)

interpretation blob: canonical_codec Serialize_blob Unserialize_blob "\<lambda>v. length v \<le> MAX_SIZE"
proof unfold_locales
  fix v r :: bytes
  assume "length v \<le> MAX_SIZE"
  from compact.read_back [OF size_of_nat(1) [OF this]] this show "Unserialize_blob (Serialize_blob v @ r) = Inr (v, r)"
    by (simp add: Unserialize_blob_def Serialize_blob_def size_cast size_of_nat blob_loop_read read_bytes_append)
next
  fix s v r :: bytes
  assume "Unserialize_blob s = Inr (v, r)"
  then obtain n s' where n: "n \<le> 0x02000000" "s = WriteCompactSize n @ s'" and "read_bytes (unat n) s' = Inr (v, r)"
    by (auto simp: Unserialize_blob_def bindE_eq_Inr_iff compact.accepts_iff size_cast blob_loop_read)
  then have v: "length v = unat n" "s' = v @ r" by (auto dest: read_bytes_canonical)
  then have "of_nat (length v) = n" by simp
  with n v show "length v \<le> MAX_SIZE \<and> s = Serialize_blob v @ r" by (simp add: Serialize_blob_def word_le_nat_alt)
qed

lemma codec_vector:
  assumes "codec ser unser ok"
  shows "codec (Serialize_vector ser) (Unserialize_vector unser) (\<lambda>v. list_all ok v \<and> length v \<le> MAX_SIZE)"
proof
  fix v :: "'a list" and r
  assume v: "list_all ok v \<and> length v \<le> MAX_SIZE"
  then have "ReadCompactSize (WriteCompactSize (of_nat (length v)) @ concat (map ser v) @ r) = Inr (of_nat (length v), concat (map ser v) @ r)"
    by (intro compact.read_back size_of_nat(1)) simp
  then show "Unserialize_vector unser (Serialize_vector ser v @ r) = Inr (v, r)"
    using codec.vector_loop_back [OF assms, of v r] v
    by (simp add: Unserialize_vector_def Serialize_vector_def size_cast size_of_nat)
qed

lemma canonical_vector:
  assumes "canonical_codec ser unser ok"
  shows "canonical_codec (Serialize_vector ser) (Unserialize_vector unser) (\<lambda>v. list_all ok v \<and> length v \<le> MAX_SIZE)"
proof (rule canonical_codec.intro)
  show "codec (Serialize_vector ser) (Unserialize_vector unser) (\<lambda>v. list_all ok v \<and> length v \<le> MAX_SIZE)"
    using assms by (intro codec_vector) (simp add: canonical_codec_def)
  show "canonical_codec_axioms (Serialize_vector ser) (Unserialize_vector unser) (\<lambda>v. list_all ok v \<and> length v \<le> MAX_SIZE)"
  proof
    fix s v r
    assume "Unserialize_vector unser s = Inr (v, r)"
    then obtain n s' where n: "n \<le> 0x02000000" "s = WriteCompactSize n @ s'" and "vector_loop unser (unat n) s' = Inr (v, r)"
      by (auto simp: Unserialize_vector_def bindE_eq_Inr_iff compact.accepts_iff size_cast)
    then have v: "length v = unat n" "list_all ok v" "s' = concat (map ser v) @ r"
      using canonical_codec.vector_loop_canonical [OF assms] by blast+
    then have "of_nat (length v) = n" by simp
    with n v show "(list_all ok v \<and> length v \<le> MAX_SIZE) \<and> s = Serialize_vector ser v @ r"
      by (simp add: Serialize_vector_def word_le_nat_alt)
  qed
qed

subsection \<open>Variable-length integers\<close>

lemma mask7: "(0x7F :: 'a::len word) = mask 7"
  by (simp add: mask_eq_exp_minus_1)

lemma small7: "n \<le> 0x7F \<Longrightarrow> n AND mask 7 = n"
  for n :: "'a::len word"
proof -
  assume "n \<le> 0x7F"
  then have "unat n \<le> unat (0x7F :: 'a word)" by (simp only: word_le_nat_alt)
  also have "\<dots> \<le> 127" unfolding unsigned_numeral of_nat_id by (rule take_bit_nat_less_eq_self)
  finally have "take_bit 7 (unat n) = unat n" by (simp add: take_bit_nat_eq_self)
  then show "n AND mask 7 = n" by (simp add: take_bit_eq_mask [symmetric] word_unat_eq_iff unsigned_take_bit_eq)
qed

lemma and_mask7_cast: "ucast ((ucast (n AND mask 7) OR h) AND mask 7 :: byte) = n AND mask 7"
  if "h = 0 \<or> h = 0x80" for n :: "'a::len word"
proof -
  have "(n AND mask 7) = take_bit 7 n" by (simp add: take_bit_eq_mask)
  moreover have "h AND mask 7 = 0" using that by (auto simp: mask_eq_exp_minus_1)
  ultimately show ?thesis
    by (simp add: take_bit_eq_mask [symmetric] take_bit_or) (rule bit_word_eqI, auto simp: bit_simps)
qed

lemma join7: "push_bit 7 (drop_bit 7 n) OR (n AND mask 7) = n"
  for n :: "'a::len word"
  by (rule bit_word_eqI) (auto simp: bit_simps)

lemma ucast_plus1: "LENGTH('b::len) \<le> LENGTH('c::len) \<Longrightarrow> ucast (n + 1 :: 'c word) = (ucast n + 1 :: 'b word)"
  by transfer (metis (no_types, opaque_lifting) min_def take_bit_add take_bit_take_bit)

lemma high_bit: "(0x80 :: byte) = push_bit 7 1"
  by simp

lemma digit_high: "(w OR 0x80 :: byte) AND 0x80 \<noteq> 0"
proof
  assume "(w OR 0x80 :: byte) AND 0x80 = 0"
  then have "bit ((w OR 0x80 :: byte) AND 0x80) 7 = bit (0::byte) 7" by simp
  then show False unfolding high_bit by (simp only: bit_simps) auto
qed

lemma digit_low: "(ucast (n AND mask 7) :: byte) AND 0x80 = 0"
  unfolding high_bit by (rule bit_word_eqI) (simp only: bit_simps, auto)

lemma read_digit:
  "read_varint_loop m ((ucast (n AND mask 7) OR 0x80) # s) = read_varint_loop ((push_bit 7 m OR (n AND mask 7)) + 1) s"
  "read_varint_loop m (ucast (n AND mask 7) # s) = Inr (push_bit 7 m OR (n AND mask 7), s)"
  using and_mask7_cast [of "0x80" n] and_mask7_cast [of 0 n] digit_high digit_low [of n] by (simp_all add: mask7)

lemma varint_digits_small:
  "n \<le> 0x7F \<Longrightarrow> varint_digits n True = [ucast (n AND mask 7) OR 0x80]"
  by (subst varint_digits.simps) (simp only: if_True mask7)

lemma varint_digits_big:
  "\<not> n \<le> 0x7F \<Longrightarrow> varint_digits n True = (ucast (n AND mask 7) OR 0x80) # varint_digits (drop_bit 7 n - 1) True"
  by (subst varint_digits.simps) (simp only: if_True if_False mask7)

lemma read_later_digits:
  "read_varint_loop 0 (rev (varint_digits n True) @ s) = read_varint_loop (n + 1) s"
proof (induction n True arbitrary: s rule: varint_digits.induct)
  case (1 n)
  show ?case
  proof (cases "n \<le> 0x7F")
    case True
    then show ?thesis using read_digit(1) [of 0 n s]
      by (simp only: varint_digits_small rev.simps append.simps small7 push_bit_of_0 or.left_neutral)
  next
    case False
    then have "read_varint_loop 0 (rev (varint_digits n True) @ s) =
        read_varint_loop (drop_bit 7 n - 1 + 1) ((ucast (n AND mask 7) OR 0x80) # s)"
      by (simp only: varint_digits_big [OF False] 1 [OF False] rev.simps append.simps append_assoc)
    also have "\<dots> = read_varint_loop (n + 1) s" by (simp only: diff_add_cancel read_digit(1) join7)
    finally show ?thesis .
  qed
qed

lemma ReadVarInt_WriteVarInt: "ReadVarInt (WriteVarInt n @ s) = Inr (n, s)"
proof (cases "n \<le> 0x7F")
  case True
  then show ?thesis
    using read_digit(2) [of 0 n s] small7 [OF True]
    by (simp add: ReadVarInt_def WriteVarInt_def varint_digits.simps [of n] mask7 del: read_varint_loop.simps)
next
  case False
  then show ?thesis
    using read_later_digits [of "drop_bit 7 n - 1" "ucast (n AND mask 7) # s"] read_digit(2) [of "drop_bit 7 n" n s]
    by (simp add: ReadVarInt_def WriteVarInt_def varint_digits.simps [of n] mask7 join7 del: read_varint_loop.simps)
qed

lemma read_varint_narrow:
  "LENGTH('b::len) \<le> LENGTH('c::len) \<Longrightarrow> read_varint_loop (n :: 'c word) s = Inr (m, r) \<Longrightarrow>
    read_varint_loop (ucast n :: 'b word) s = Inr (ucast m, r)"
proof (induction s arbitrary: n)
  case (Cons c s)
  have "push_bit 7 (ucast n :: 'b word) OR ucast (c AND 0x7F) = ucast (push_bit 7 n OR ucast (c AND 0x7F) :: 'c word)"
    using Cons.prems(1) by (intro bit_word_eqI) (auto simp: bit_simps)
  with Cons show ?case by (auto simp: Let_def ucast_plus1 [symmetric] split: if_splits)
qed simp

lemma varint_digits_length: "length (varint_digits n later) = GetSizeOfVarInt n"
  by (induction n later rule: varint_digits.induct)
    (simp add: varint_digits.simps [of n for n] GetSizeOfVarInt.simps [of n for n])

lemma WriteVarInt_length: "length (WriteVarInt n) = GetSizeOfVarInt n"
  by (simp add: WriteVarInt_def varint_digits_length)

lemma GetSizeOfVarInt_bound: "unat n < 2 ^ (7 * k) \<Longrightarrow> 0 < k \<Longrightarrow> GetSizeOfVarInt n \<le> k"
proof (induction n arbitrary: k rule: GetSizeOfVarInt.induct)
  case (1 n)
  show ?case
  proof (cases "n \<le> 0x7F")
    case True
    then show ?thesis using 1(3) by (simp add: GetSizeOfVarInt.simps [of n])
  next
    case False
    have "k \<noteq> 1"
    proof
      assume "k = 1"
      with 1(2) have "unat n div 128 = 0" by simp
      then show False using varint_more [OF False] unat_drop7 [of n] by (simp add: unsigned_eq_0_iff)
    qed
    then obtain j where j: "k = Suc j" "0 < j" using 1(3) by (cases k) auto
    have "unat (drop_bit 7 n - 1) < unat (drop_bit 7 n)" by (rule measure_unat [OF varint_more [OF False]])
    also have "\<dots> < 2 ^ (7 * j)" using 1(2) j by (simp add: unat_drop7 less_mult_imp_div_less power_add mult.commute)
    finally have "GetSizeOfVarInt (drop_bit 7 n - 1) \<le> j" using 1(1) [OF False] j by blast
    then show ?thesis using False j by (simp add: GetSizeOfVarInt.simps [of n])
  qed
qed

section \<open>Properties\<close>

text \<open>Reading a variable-length integer gives back what was written and leaves the rest of the stream, for
  every width; the computed size is the size written, and at most the size of the buffer of the writer. Read
  at 32 bits, an integer written at 64 bits is cut to its low half without an error.\<close>

theorem varint_round_trip:
  fixes n :: "'a::len word" and m :: u64
  shows "ReadVarInt (WriteVarInt n @ s) = Inr (n, s) \<and> length (WriteVarInt n) = GetSizeOfVarInt n \<and>
    GetSizeOfVarInt n \<le> (LENGTH('a) + 6) div 7 \<and> ReadVarInt (WriteVarInt m @ s) = Inr (ucast m :: u32, s)"
proof -
  have "LENGTH('a) \<le> 7 * ((LENGTH('a) + 6) div 7)" by presburger
  then have "unat n < 2 ^ (7 * ((LENGTH('a) + 6) div 7))"
    using unat_bound [of n] by (meson le_less_trans less_le_trans one_le_numeral power_increasing)
  moreover have "0 < (LENGTH('a) + 6) div 7" using len_gt_0 [where 'a = 'a] by presburger
  moreover have "ReadVarInt (WriteVarInt m @ s) = Inr (ucast m :: u32, s)"
    using read_varint_narrow [where 'b = 32, of "0 :: u64" "WriteVarInt m @ s" m s] ReadVarInt_WriteVarInt [of m s]
    by (simp add: ReadVarInt_def)
  ultimately show ?thesis
    using WriteVarInt_length [of n] by (simp add: ReadVarInt_WriteVarInt GetSizeOfVarInt_bound)
qed

end
