(* ===== verification/BitSets.thy ===== *)
theory BitSets
  imports Serialize
begin

text \<open>
  The serialized bit sets of \<open>src/src/serialize.h\<close> (\<open>CFixedBitSet\<close>, \<open>CDynamicBitSet\<close>, \<open>CFixedVarIntsBitSet\<close>,
  \<open>CAutoBitSet\<close>), which carry the signers and valid members of quorum commitments. A bit set is a list of
  booleans. The indices of the variable-length format are 32-bit signed integers; a write at a negative
  index, which the reader does not exclude, is the result \<open>OutOfBoundsWrite\<close>.
\<close>

section \<open>Fixed size\<close>

definition CFixedBitSet_Serialize :: "nat \<Rightarrow> bool list \<Rightarrow> bytes" where
  "CFixedBitSet_Serialize nbits vec =
     (let ms = min nbits (length vec)
      in fold (\<lambda>p vBytes. vBytes[p div 8 := vBytes ! (p div 8) OR push_bit (p mod 8) (of_bool (vec ! p))])
           [0..<ms] (replicate ((nbits + 7) div 8) 0))"

definition CFixedBitSet_Unserialize :: "nat \<Rightarrow> bool list reader" where
  "CFixedBitSet_Unserialize nbits s =
     bindE (read_bytes ((nbits + 7) div 8) s) (\<lambda>(vBytes, s).
       let vec = map (\<lambda>p. vBytes ! (p div 8) AND push_bit (p mod 8) 1 \<noteq> 0) [0..<nbits]
       in if length vBytes * 8 \<noteq> nbits then
            let rem = length vBytes * 8 - nbits; m = NOT (drop_bit rem 0xff)
            in if vBytes ! (length vBytes - 1) AND m \<noteq> 0 then Inl OutOfRangeBits else Inr (vec, s)
          else Inr (vec, s))"

definition CDynamicBitSet_Serialize :: "bool list \<Rightarrow> bytes" where
  "CDynamicBitSet_Serialize vec = WriteCompactSize (of_nat (length vec)) @ CFixedBitSet_Serialize (length vec) vec"

definition CDynamicBitSet_Unserialize :: "bool list reader" where
  "CDynamicBitSet_Unserialize s = bindE (ReadCompactSize s) (\<lambda>(nbits, s). CFixedBitSet_Unserialize (unat nbits) s)"

section \<open>Offsets as variable-length integers\<close>

function varints_write_loop :: "bool list \<Rightarrow> nat \<Rightarrow> int \<Rightarrow> bytes" where
  "varints_write_loop vec i prev =
     (if i < length vec then
        if vec ! i then WriteVarInt (word_of_int (int i - prev) :: u32) @ varints_write_loop vec (i + 1) (int i)
        else varints_write_loop vec (i + 1) prev
      else WriteVarInt (0 :: u32))"
  by auto
termination
  by (relation "measure (\<lambda>(vec, i, prev). length vec - i)") auto

definition CFixedVarIntsBitSet_Serialize :: "bool list \<Rightarrow> bytes" where
  "CFixedVarIntsBitSet_Serialize vec = varints_write_loop vec 0 (- 1)"

lemma read_varint_progress: "read_varint_loop n s = Inr (m, r) \<Longrightarrow> length r < length s"
  by (induction n s rule: read_varint_loop.induct) (auto simp: Let_def split: if_splits)

function varints_read_loop :: "nat \<Rightarrow> int \<Rightarrow> bool list \<Rightarrow> bool list reader" where
  "varints_read_loop nbits prev vec s =
     bindE (ReadVarInt s :: ser_error + u32 \<times> bytes) (\<lambda>(offset, r).
       if offset = 0 then Inr (vec, r)
       else let idx = sint (word_of_int prev + offset)
       in if idx \<ge> sint (of_nat nbits :: u32) then Inl OutOfBoundsIndex
          else if prev \<noteq> - 1 \<and> idx \<le> prev then Inl OffsetOverflow
          else if idx < 0 then Inl OutOfBoundsWrite
          else varints_read_loop nbits idx (vec[nat idx := True]) r)"
  by auto
termination
  by (relation "measure (\<lambda>(nbits, prev, vec, s). length s)") (auto simp: ReadVarInt_def dest: read_varint_progress)

declare varints_write_loop.simps [simp del] varints_read_loop.simps [simp del]

definition CFixedVarIntsBitSet_Unserialize :: "nat \<Rightarrow> bool list reader" where
  "CFixedVarIntsBitSet_Unserialize nbits s = varints_read_loop nbits (- 1) (replicate nbits False) s"

section \<open>The smaller of the two\<close>

text \<open>The writer asserts that the vector has the announced size (\<open>None\<close> otherwise).\<close>

definition CAutoBitSet_Serialize :: "nat \<Rightarrow> bool list \<Rightarrow> bytes option" where
  "CAutoBitSet_Serialize nbits vec =
     (if length vec \<noteq> nbits then None
      else let size1 = length (CFixedBitSet_Serialize nbits vec); size2 = length (CFixedVarIntsBitSet_Serialize vec)
      in Some (if size1 < size2 then ser_writedata8 0 @ CFixedBitSet_Serialize (length vec) vec
               else ser_writedata8 1 @ CFixedVarIntsBitSet_Serialize vec))"

definition CAutoBitSet_Unserialize :: "nat \<Rightarrow> bool list reader" where
  "CAutoBitSet_Unserialize nbits s =
     bindE (ser_readdata8 s) (\<lambda>(isVarInts, s).
       if isVarInts \<noteq> 0 \<and> isVarInts \<noteq> 1 then Inl InvalidVarIntsByte
       else if isVarInts = 0 then CFixedBitSet_Unserialize nbits s
       else CFixedVarIntsBitSet_Unserialize nbits s)"

section \<open>Reading back\<close>

lemma fixed_fold:
  assumes "m \<le> 8 * nb"
  shows "length (fold (\<lambda>p v. v[p div 8 := v ! (p div 8) OR push_bit (p mod 8) (of_bool (vec ! p))]) [0..<m] (replicate nb (0::byte))) = nb \<and>
    (\<forall>b<nb. \<forall>k<8. bit (fold (\<lambda>p v. v[p div 8 := v ! (p div 8) OR push_bit (p mod 8) (of_bool (vec ! p))]) [0..<m] (replicate nb (0::byte)) ! b) k
      \<longleftrightarrow> 8 * b + k < m \<and> vec ! (8 * b + k))"
  using assms
proof (induction m)
  case (Suc m)
  let ?v = "fold (\<lambda>p v. v[p div 8 := v ! (p div 8) OR push_bit (p mod 8) (of_bool (vec ! p))]) [0..<m] (replicate nb (0::byte))"
  have IH: "length ?v = nb" "\<And>b k. b < nb \<Longrightarrow> k < 8 \<Longrightarrow> bit (?v ! b) k \<longleftrightarrow> 8 * b + k < m \<and> vec ! (8 * b + k)"
    using Suc by auto
  have m: "m div 8 < nb" using Suc.prems by linarith
  have eq: "8 * b + k = m \<longleftrightarrow> b = m div 8 \<and> k = m mod 8" if "k < 8" for b k using that by auto
  have "bit ((?v[m div 8 := ?v ! (m div 8) OR push_bit (m mod 8) (of_bool (vec ! m))]) ! b) k
      \<longleftrightarrow> 8 * b + k < Suc m \<and> vec ! (8 * b + k)" if "b < nb" "k < 8" for b k
    using that IH eq [OF that(2), of b] m by (auto simp: nth_list_update bit_simps less_Suc_eq)
  with IH(1) show ?case by simp
qed simp

lemma fixed_bytes:
  assumes "length vec = nbits"
  shows "length (CFixedBitSet_Serialize nbits vec) = (nbits + 7) div 8"
    and "b < (nbits + 7) div 8 \<Longrightarrow> k < 8 \<Longrightarrow>
      bit (CFixedBitSet_Serialize nbits vec ! b) k \<longleftrightarrow> 8 * b + k < nbits \<and> vec ! (8 * b + k)"
  using fixed_fold [of nbits "(nbits + 7) div 8" vec] assms by (auto simp: CFixedBitSet_Serialize_def)

lemma and_single_bit: "(w AND push_bit k 1 \<noteq> 0) \<longleftrightarrow> bit w k"
  for w :: byte
proof
  assume "w AND push_bit k 1 \<noteq> 0"
  then obtain j where "bit (w AND push_bit k 1) j" using bit_eqI [of "w AND push_bit k 1" 0] by auto
  then show "bit w k" by (auto simp: bit_simps split: if_splits)
next
  assume "bit w k"
  then have "bit (w AND push_bit k 1) k" using bit_imp_le_length [of w k] by (simp add: bit_simps)
  then show "w AND push_bit k 1 \<noteq> 0" by auto
qed

lemma fixed_read_back:
  assumes "length vec = nbits"
  shows "CFixedBitSet_Unserialize nbits (CFixedBitSet_Serialize nbits vec @ r) = Inr (vec, r)"
proof -
  let ?d = "CFixedBitSet_Serialize nbits vec"
  note fb = fixed_bytes [OF assms]
  have v: "map (\<lambda>p. ?d ! (p div 8) AND push_bit (p mod 8) 1 \<noteq> 0) [0..<nbits] = vec"
  proof (rule nth_equalityI)
    fix i assume "i < length (map (\<lambda>p. ?d ! (p div 8) AND push_bit (p mod 8) 1 \<noteq> 0) [0..<nbits])"
    then have i: "i < nbits" by simp
    then have "i div 8 < (nbits + 7) div 8" by linarith
    from fb(2) [OF this, of "i mod 8"] i show "map (\<lambda>p. ?d ! (p div 8) AND push_bit (p mod 8) 1 \<noteq> 0) [0..<nbits] ! i = vec ! i"
      by (simp only: and_single_bit) simp
  qed (simp add: assms)
  have "?d ! (length ?d - 1) AND NOT (drop_bit (length ?d * 8 - nbits) 0xff) = 0" if "length ?d * 8 \<noteq> nbits"
  proof (rule bit_word_eqI)
    fix k assume k: "k < LENGTH(8)"
    let ?nb = "(nbits + 7) div 8"
    have nb: "?nb - 1 < ?nb" using that fb(1) by (cases "nbits = 0") auto
    have "bit (drop_bit (?nb * 8 - nbits) (0xff::byte)) k" if "8 * (?nb - 1) + k < nbits"
    proof -
      have "?nb * 8 - nbits + k < 8" using that nb by linarith
      then have "bit (mask 8 :: byte) (?nb * 8 - nbits + k)" unfolding bit_mask_iff by simp
      moreover have "(mask 8 :: byte) = 0xff" by (simp add: mask_eq_exp_minus_1)
      ultimately show ?thesis by (simp only: bit_drop_bit_eq comp_def)
    qed
    with fb(2) [OF nb, of k] k fb(1) show "bit (?d ! (length ?d - 1) AND NOT (drop_bit (length ?d * 8 - nbits) 0xff)) k = bit 0 k"
      by (auto simp: bit_and_iff bit_not_iff)
  qed
  then show ?thesis using v fb(1)
    by (simp add: CFixedBitSet_Unserialize_def read_bytes_append Let_def)
qed

lemma sint_small: "0 \<le> k \<Longrightarrow> k < 2 ^ 31 \<Longrightarrow> sint (word_of_int k :: u32) = k"
  by (simp add: int_word_sint)

lemma varints_read_back:
  assumes "length vec = nbits" "nbits < 2 ^ 31" "i \<le> nbits" "prev < int i" "- 1 \<le> prev"
  shows "varints_read_loop nbits prev (take i vec @ replicate (nbits - i) False) (varints_write_loop vec i prev @ r) = Inr (vec, r)"
  using assms
proof (induction "nbits - i" arbitrary: i prev)
  case 0
  then show ?case
    by (subst varints_read_loop.simps) (simp add: varints_write_loop.simps [of vec i] ReadVarInt_WriteVarInt)
next
  case (Suc k)
  then have i: "i < nbits" by simp
  have u: "take i vec @ replicate (nbits - i) False = take i vec @ False # replicate (nbits - Suc i) False"
    using i by (metis Suc_diff_Suc replicate_Suc)
  have t: "take (Suc i) vec = take i vec @ [vec ! i]" using i Suc.prems(1) by (simp add: take_Suc_conv_app_nth)
  show ?case
  proof (cases "vec ! i")
    case False
    then show ?thesis using Suc.hyps(1) [of "Suc i" prev] Suc.hyps(2) Suc.prems i t u
      by (simp add: varints_write_loop.simps [of vec i])
  next
    case True
    let ?o = "word_of_int (int i - prev) :: u32"
    have "uint ?o = int i - prev" using Suc.prems i unfolding uint_word_of_int by simp
    then have o: "?o \<noteq> 0" using Suc.prems by auto
    have "word_of_int prev + ?o = word_of_int (int i)" by simp
    then have x: "sint (word_of_int prev + ?o) = int i" using i Suc.prems(2) sint_small [of "int i"] by simp
    have n: "sint (of_nat nbits :: u32) = int nbits" using Suc.prems(2) sint_small [of "int nbits"] by simp
    have "varints_read_loop nbits prev (take i vec @ replicate (nbits - i) False) (varints_write_loop vec i prev @ r) =
        varints_read_loop nbits (int i) ((take i vec @ replicate (nbits - i) False)[i := True]) (varints_write_loop vec (Suc i) (int i) @ r)"
      using True i Suc.prems o x n
      by (subst varints_read_loop.simps, subst varints_write_loop.simps) (simp add: ReadVarInt_WriteVarInt Let_def)
    also have "(take i vec @ replicate (nbits - i) False)[i := True] = take (Suc i) vec @ replicate (nbits - Suc i) False"
      using i Suc.prems(1) True by (simp add: u t list_update_append)
    finally show ?thesis using Suc.hyps(1) [of "Suc i" "int i"] Suc.hyps(2) Suc.prems i by simp
  qed
qed

lemma varints_bitset_read_back:
  assumes "length vec = nbits" "nbits < 2 ^ 31"
  shows "CFixedVarIntsBitSet_Unserialize nbits (CFixedVarIntsBitSet_Serialize vec @ r) = Inr (vec, r)"
  using varints_read_back [OF assms, of 0 "- 1" r]
  by (simp add: CFixedVarIntsBitSet_Unserialize_def CFixedVarIntsBitSet_Serialize_def)

section \<open>Properties\<close>

text \<open>Bit sets are read back as they were written: the automatic format, whichever of the two encodings it
  chooses, and the dynamic format, for every bit set of its announced size.\<close>

theorem bitset_round_trip:
  assumes "length vec = nbits" "nbits \<le> MAX_SIZE"
  shows "(\<exists>d. CAutoBitSet_Serialize nbits vec = Some d \<and> CAutoBitSet_Unserialize nbits (d @ r) = Inr (vec, r)) \<and>
    CDynamicBitSet_Unserialize (CDynamicBitSet_Serialize vec @ r) = Inr (vec, r)"
proof
  show "\<exists>d. CAutoBitSet_Serialize nbits vec = Some d \<and> CAutoBitSet_Unserialize nbits (d @ r) = Inr (vec, r)"
    using assms fixed_read_back [OF assms(1)] varints_bitset_read_back [OF assms(1)]
    by (auto simp: CAutoBitSet_Serialize_def CAutoBitSet_Unserialize_def Let_def u8.read_back)
  show "CDynamicBitSet_Unserialize (CDynamicBitSet_Serialize vec @ r) = Inr (vec, r)"
    using assms(2) fixed_read_back [OF refl, of vec] unfolding assms(1) [symmetric]
    by (simp add: CDynamicBitSet_Unserialize_def CDynamicBitSet_Serialize_def compact.read_back size_of_nat)
qed

theorem bitset_round_trip_witness:
  "CDynamicBitSet_Unserialize (CDynamicBitSet_Serialize [True, False, True]) = Inr ([True, False, True], [])"
  using bitset_round_trip [of "[True, False, True]" 3 "[]"] by simp

text \<open>The reader of the variable-length format writes outside the vector on a crafted input: a first offset
  of 2^31 + 1 gives the index -2^31, which is below the size and, as the first index, escapes the test for
  decreasing indices. This holds for every size of the bit set.\<close>

theorem varints_bitset_out_of_bounds:
  assumes "nbits < 2 ^ 31"
  shows "CFixedVarIntsBitSet_Unserialize nbits (WriteVarInt (0x80000001 :: u32) @ r) = Inl OutOfBoundsWrite"
proof -
  have "sint (of_nat nbits :: u32) = int nbits" using assms sint_small [of "int nbits"] by simp
  moreover have "sint (word_of_int (- 1) + (0x80000001 :: u32)) = - (2 ^ 31)" by simp
  ultimately show ?thesis
    by (simp add: CFixedVarIntsBitSet_Unserialize_def varints_read_loop.simps ReadVarInt_WriteVarInt Let_def)
qed

theorem varints_bitset_out_of_bounds_witness:
  "CFixedVarIntsBitSet_Unserialize 50 (WriteVarInt (0x80000001 :: u32)) = Inl OutOfBoundsWrite"
  using varints_bitset_out_of_bounds [of 50 "[]"] by simp

end
