(* ===== verification/Transaction.thy ===== *)
theory Transaction
  imports VerifyScript Serialize
begin

text \<open>
  Transactions (\<open>src/src/primitives/transaction.h\<close>, \<open>transaction.cpp\<close>) and their serialization, and amounts
  (\<open>src/src/amount.h\<close>, \<open>amount.cpp\<close>). Amounts are integers; where the code holds them in 64 bits the bounds
  are part of the well-formedness. A transaction hash is the 32 bytes of a \<open>uint256\<close>. The flag \<open>fAllowWitness\<close>
  of the serializer is an argument; the cached hash of a transaction is computed from it.
\<close>

section \<open>Amounts\<close>

abbreviation (input) COIN :: int where "COIN \<equiv> 100000000"
abbreviation (input) MAX_MONEY :: int where "MAX_MONEY \<equiv> 100000000 * COIN"

definition MoneyRange :: "int \<Rightarrow> bool" where
  "MoneyRange nValue \<longleftrightarrow> 0 \<le> nValue \<and> nValue \<le> MAX_MONEY"

text \<open>Integer division of the language truncates toward zero. The sizes are below 2^63 by assertion.\<close>

definition cdiv :: "int \<Rightarrow> int \<Rightarrow> int" where
  "cdiv a b = sgn a * sgn b * (\<bar>a\<bar> div \<bar>b\<bar>)"

definition CFeeRate :: "int \<Rightarrow> nat \<Rightarrow> int option" where
  "CFeeRate nFeePaid nBytes =
     (if nBytes > 2 ^ 63 - 1 then None
      else if nBytes > 0 then Some (cdiv (nFeePaid * 1000) (int nBytes)) else Some 0)"

definition GetFee :: "int \<Rightarrow> nat \<Rightarrow> int option" where
  "GetFee nSatoshisPerK nBytes =
     (if nBytes > 2 ^ 63 - 1 then None
      else let nFee = cdiv (nSatoshisPerK * int nBytes) 1000
      in Some (if nFee = 0 \<and> nBytes \<noteq> 0 then
                 if nSatoshisPerK < 0 then - 1 else if nSatoshisPerK > 0 then 1 else nFee
               else nFee))"

section \<open>Data\<close>

type_synonym uint256 = bytes

definition IsNull256 :: "uint256 \<Rightarrow> bool" where
  "IsNull256 h \<longleftrightarrow> list_all (\<lambda>b. b = 0) h"

record COutPoint =
  outhash :: uint256
  outn :: u32

record CTxIn =
  prevout :: COutPoint
  scriptSig :: bytes
  nSequence :: u32
  prevPubKey :: bytes
  scriptWitness :: "bytes list"

record CTxOut =
  nValue :: int
  scriptPubKey :: bytes
  nRounds :: int

record CTransaction =
  nVersion :: int
  nType :: int
  vin :: "CTxIn list"
  vout :: "CTxOut list"
  nLockTime :: u32
  vExtraPayload :: bytes

abbreviation (input) TRANSACTION_NORMAL :: int where "TRANSACTION_NORMAL \<equiv> 0"
abbreviation (input) TRANSACTION_LELANTUS :: int where "TRANSACTION_LELANTUS \<equiv> 8"
abbreviation (input) TRANSACTION_SPARK :: int where "TRANSACTION_SPARK \<equiv> 9"
abbreviation (input) SEQUENCE_FINAL :: u32 where "SEQUENCE_FINAL \<equiv> 0xffffffff"

definition OutPoint_IsNull :: "COutPoint \<Rightarrow> bool" where
  "OutPoint_IsNull p \<longleftrightarrow> IsNull256 (outhash p) \<and> outn p = - 1"

definition IsSigmaMintGroup :: "COutPoint \<Rightarrow> bool" where
  "IsSigmaMintGroup p \<longleftrightarrow> IsNull256 (outhash p) \<and> outn p \<ge> 1"

definition TxOut_null :: CTxOut where
  "TxOut_null = \<lparr>nValue = - 1, scriptPubKey = [], nRounds = - 10\<rparr>"

definition TxOut_IsNull :: "CTxOut \<Rightarrow> bool" where
  "TxOut_IsNull out \<longleftrightarrow> nValue out = - 1"

definition IsCoinBase :: "CTransaction \<Rightarrow> bool" where
  "IsCoinBase tx \<longleftrightarrow>
     length (vin tx) = 1 \<and> OutPoint_IsNull (prevout (vin tx ! 0)) \<and>
     (let sig = scriptSig (vin tx ! 0)
      in length sig = 0 \<or>
         (sig ! 0 \<noteq> OP_ZEROCOINSPEND \<and> sig ! 0 \<noteq> OP_ZEROCOINTOSIGMAREMINT \<and> sig ! 0 \<noteq> OP_LELANTUSJOINSPLIT \<and>
          sig ! 0 \<noteq> OP_LELANTUSJOINSPLITPAYLOAD \<and> sig ! 0 \<noteq> OP_SPARKSPEND))"

definition HasWitness :: "CTransaction \<Rightarrow> bool" where
  "HasWitness tx \<longleftrightarrow> list_ex (\<lambda>txin. scriptWitness txin \<noteq> []) (vin tx)"

section \<open>Kinds of transactions\<close>

definition TxIn_IsZerocoinSpend :: "CTxIn \<Rightarrow> bool" where
  "TxIn_IsZerocoinSpend i \<longleftrightarrow>
     OutPoint_IsNull (prevout i) \<and> length (scriptSig i) > 0 \<and> scriptSig i ! 0 = OP_ZEROCOINSPEND"

definition TxIn_IsSigmaSpend :: "CTxIn \<Rightarrow> bool" where
  "TxIn_IsSigmaSpend i \<longleftrightarrow>
     IsSigmaMintGroup (prevout i) \<and> length (scriptSig i) > 0 \<and> scriptSig i ! 0 = OP_SIGMASPEND"

definition TxIn_IsLelantusJoinSplit :: "CTxIn \<Rightarrow> bool" where
  "TxIn_IsLelantusJoinSplit i \<longleftrightarrow>
     OutPoint_IsNull (prevout i) \<and> length (scriptSig i) > 0 \<and>
     (scriptSig i ! 0 = OP_LELANTUSJOINSPLIT \<or> scriptSig i ! 0 = OP_LELANTUSJOINSPLITPAYLOAD)"

definition TxIn_IsZerocoinRemint :: "CTxIn \<Rightarrow> bool" where
  "TxIn_IsZerocoinRemint i \<longleftrightarrow>
     OutPoint_IsNull (prevout i) \<and> length (scriptSig i) > 0 \<and> scriptSig i ! 0 = OP_ZEROCOINTOSIGMAREMINT"

definition Tx_IsZerocoinSpend :: "CTransaction \<Rightarrow> bool" where
  "Tx_IsZerocoinSpend tx \<longleftrightarrow> list_ex TxIn_IsZerocoinSpend (vin tx)"

definition Tx_IsSigmaSpend :: "CTransaction \<Rightarrow> bool" where
  "Tx_IsSigmaSpend tx \<longleftrightarrow> list_ex TxIn_IsSigmaSpend (vin tx)"

definition Tx_IsLelantusJoinSplit :: "CTransaction \<Rightarrow> bool" where
  "Tx_IsLelantusJoinSplit tx \<longleftrightarrow>
     (if nVersion tx \<ge> 3 \<and> nType tx = TRANSACTION_LELANTUS then True else list_ex TxIn_IsLelantusJoinSplit (vin tx))"

definition Tx_IsZerocoinMint :: "CTransaction \<Rightarrow> bool" where
  "Tx_IsZerocoinMint tx \<longleftrightarrow> list_ex (\<lambda>out. IsZerocoinMint (scriptPubKey out)) (vout tx)"

definition Tx_IsZerocoinRemint :: "CTransaction \<Rightarrow> bool" where
  "Tx_IsZerocoinRemint tx \<longleftrightarrow> list_ex TxIn_IsZerocoinRemint (vin tx)"

definition Tx_IsSigmaMint :: "CTransaction \<Rightarrow> bool" where
  "Tx_IsSigmaMint tx \<longleftrightarrow>
     (if Tx_IsZerocoinRemint tx then False else list_ex (\<lambda>out. IsSigmaMint (scriptPubKey out)) (vout tx))"

definition Tx_IsLelantusMint :: "CTransaction \<Rightarrow> bool" where
  "Tx_IsLelantusMint tx \<longleftrightarrow>
     list_ex (\<lambda>out. IsLelantusMint (scriptPubKey out) \<or> IsLelantusJMint (scriptPubKey out)) (vout tx)"

definition Tx_IsSparkSpend :: "CTransaction \<Rightarrow> bool" where
  "Tx_IsSparkSpend tx \<longleftrightarrow> nVersion tx \<ge> 3 \<and> nType tx = TRANSACTION_SPARK"

definition Tx_IsSparkMint :: "CTransaction \<Rightarrow> bool" where
  "Tx_IsSparkMint tx \<longleftrightarrow> list_ex (\<lambda>out. IsSparkMint (scriptPubKey out)) (vout tx)"

definition IsSparkTransaction :: "CTransaction \<Rightarrow> bool" where
  "IsSparkTransaction tx \<longleftrightarrow> Tx_IsSparkMint tx \<or> Tx_IsSparkSpend tx"

definition IsZerocoinTransaction :: "CTransaction \<Rightarrow> bool" where
  "IsZerocoinTransaction tx \<longleftrightarrow> Tx_IsZerocoinSpend tx \<or> Tx_IsZerocoinMint tx"

definition IsZerocoinV3SigmaTransaction :: "CTransaction \<Rightarrow> bool" where
  "IsZerocoinV3SigmaTransaction tx \<longleftrightarrow> Tx_IsSigmaSpend tx \<or> Tx_IsSigmaMint tx \<or> Tx_IsZerocoinRemint tx"

definition IsLelantusTransaction :: "CTransaction \<Rightarrow> bool" where
  "IsLelantusTransaction tx \<longleftrightarrow> Tx_IsLelantusMint tx \<or> Tx_IsLelantusJoinSplit tx"

definition HasNoRegularInputs :: "CTransaction \<Rightarrow> bool" where
  "HasNoRegularInputs tx \<longleftrightarrow>
     Tx_IsZerocoinSpend tx \<or> Tx_IsSigmaSpend tx \<or> Tx_IsZerocoinRemint tx \<or> Tx_IsLelantusJoinSplit tx \<or> Tx_IsSparkSpend tx"

definition HasPrivateInputs :: "CTransaction \<Rightarrow> bool" where
  "HasPrivateInputs tx \<longleftrightarrow> Tx_IsSigmaSpend tx \<or> Tx_IsLelantusJoinSplit tx \<or> Tx_IsSparkSpend tx"

section \<open>Serialization\<close>

definition ser_COutPoint :: "COutPoint \<Rightarrow> bytes" where
  "ser_COutPoint p = outhash p @ ser_writedata32 (outn p)"

definition unser_COutPoint :: "COutPoint reader" where
  "unser_COutPoint s =
     bindE (read_bytes 32 s) (\<lambda>(h, s).
     bindE (ser_readdata32 s) (\<lambda>(n, s). Inr (\<lparr>outhash = h, outn = n\<rparr>, s)))"

definition ser_CTxIn :: "CTxIn \<Rightarrow> bytes" where
  "ser_CTxIn i = ser_COutPoint (prevout i) @ Serialize_blob (scriptSig i) @ ser_writedata32 (nSequence i)"

definition unser_CTxIn :: "CTxIn reader" where
  "unser_CTxIn s =
     bindE (unser_COutPoint s) (\<lambda>(p, s).
     bindE (Unserialize_blob s) (\<lambda>(sig, s).
     bindE (ser_readdata32 s) (\<lambda>(seq, s).
       Inr (\<lparr>prevout = p, scriptSig = sig, nSequence = seq, prevPubKey = [], scriptWitness = []\<rparr>, s))))"

definition ser_CTxOut :: "CTxOut \<Rightarrow> bytes" where
  "ser_CTxOut out = ser_writedata64 (word_of_int (nValue out)) @ Serialize_blob (scriptPubKey out)"

definition unser_CTxOut :: "CTxOut reader" where
  "unser_CTxOut s =
     bindE (ser_readdata64 s) (\<lambda>(v, s).
     bindE (Unserialize_blob s) (\<lambda>(script, s).
       Inr (\<lparr>nValue = sint v, scriptPubKey = script, nRounds = - 10\<rparr>, s)))"

definition ser_witness :: "bytes list \<Rightarrow> bytes" where
  "ser_witness w = Serialize_vector Serialize_blob w"

definition unser_witness :: "bytes list reader" where
  "unser_witness s = Unserialize_vector Unserialize_blob s"

definition n32bitVersion :: "CTransaction \<Rightarrow> u32" where
  "n32bitVersion tx = word_of_int (nVersion tx) OR push_bit 16 (word_of_int (nType tx))"

definition SerializeTransaction :: "bool \<Rightarrow> CTransaction \<Rightarrow> bytes" where
  "SerializeTransaction fAllowWitness tx =
     (let flags = (if fAllowWitness \<and> HasWitness tx then 1 else 0 :: byte)
      in ser_writedata32 (n32bitVersion tx) @
         (if flags \<noteq> 0 then Serialize_vector ser_CTxIn [] @ ser_writedata8 flags else []) @
         Serialize_vector ser_CTxIn (vin tx) @
         Serialize_vector ser_CTxOut (vout tx) @
         (if flags AND 1 \<noteq> 0 then concat (map (\<lambda>i. ser_witness (scriptWitness i)) (vin tx)) else []) @
         ser_writedata32 (nLockTime tx) @
         (if nVersion tx = 3 \<and> nType tx \<noteq> TRANSACTION_NORMAL then Serialize_blob (vExtraPayload tx) else []))"

primrec read_witnesses :: "CTxIn list \<Rightarrow> CTxIn list reader" where
  "read_witnesses [] s = Inr ([], s)"
| "read_witnesses (i # is) s =
     bindE (unser_witness s) (\<lambda>(w, s).
     bindE (read_witnesses is s) (\<lambda>(is', s). Inr (i\<lparr>scriptWitness := w\<rparr> # is', s)))"

definition UnserializeTransaction :: "bool \<Rightarrow> CTransaction reader" where
  "UnserializeTransaction fAllowWitness s =
     bindE (ser_readdata32 s) (\<lambda>(n32, s).
     let ver = sint (ucast n32 :: u16); typ = sint (ucast (drop_bit 16 n32) :: u16)
     in bindE (Unserialize_vector unser_CTxIn s) (\<lambda>(is, s).
     bindE (if is = [] \<and> fAllowWitness then
              bindE (ser_readdata8 s) (\<lambda>(flags, s).
                if flags \<noteq> 0 then
                  bindE (Unserialize_vector unser_CTxIn s) (\<lambda>(is, s).
                  bindE (Unserialize_vector unser_CTxOut s) (\<lambda>(outs, s). Inr (flags, is, outs, s)))
                else Inr (flags, [], [], s))
            else bindE (Unserialize_vector unser_CTxOut s) (\<lambda>(outs, s). Inr (0, is, outs, s)))
       (\<lambda>(flags, is, outs, s).
     bindE (if flags AND 1 \<noteq> 0 \<and> fAllowWitness then
              bindE (read_witnesses is s) (\<lambda>(is, s). Inr (flags XOR 1, is, s))
            else Inr (flags, is, s))
       (\<lambda>(flags, is, s).
     if flags \<noteq> 0 then Inl UnknownOptionalData
     else bindE (ser_readdata32 s) (\<lambda>(lock, s).
     bindE (if ver = 3 \<and> typ \<noteq> TRANSACTION_NORMAL then Unserialize_blob s else Inr ([], s)) (\<lambda>(payload, s).
       Inr (\<lparr>nVersion = ver, nType = typ, vin = is, vout = outs, nLockTime = lock, vExtraPayload = payload\<rparr>, s)))))))"

section \<open>Hashes, sizes, totals\<close>

definition GetHash :: "hash_funs \<Rightarrow> CTransaction \<Rightarrow> uint256" where
  "GetHash H tx = CHash256 H (SerializeTransaction False tx)"

definition GetWitnessHash :: "hash_funs \<Rightarrow> CTransaction \<Rightarrow> uint256" where
  "GetWitnessHash H tx = (if \<not> HasWitness tx then GetHash H tx else CHash256 H (SerializeTransaction True tx))"

definition GetTotalSize :: "CTransaction \<Rightarrow> nat" where
  "GetTotalSize tx = length (SerializeTransaction True tx)"

abbreviation (input) WITNESS_SCALE_FACTOR :: nat where "WITNESS_SCALE_FACTOR \<equiv> 4"

definition GetTransactionWeight :: "CTransaction \<Rightarrow> nat" where
  "GetTransactionWeight tx =
     length (SerializeTransaction False tx) * (WITNESS_SCALE_FACTOR - 1) + length (SerializeTransaction True tx)"

primrec value_out_loop :: "CTxOut list \<Rightarrow> int \<Rightarrow> int option" where
  "value_out_loop [] nValueOut = Some nValueOut"
| "value_out_loop (out # outs) nValueOut =
     (let nValueOut' = nValueOut + nValue out
      in if \<not> MoneyRange (nValue out) \<or> \<not> MoneyRange nValueOut' then None else value_out_loop outs nValueOut')"

definition GetValueOut :: "CTransaction \<Rightarrow> int option" where
  "GetValueOut tx = value_out_loop (vout tx) 0"

section \<open>Codecs of the parts\<close>

definition outpoint_ok :: "COutPoint \<Rightarrow> bool" where
  "outpoint_ok p \<longleftrightarrow> length (outhash p) = 32"

definition txin_ok :: "CTxIn \<Rightarrow> bool" where
  "txin_ok i \<longleftrightarrow> outpoint_ok (prevout i) \<and> length (scriptSig i) \<le> MAX_SIZE \<and> prevPubKey i = [] \<and> scriptWitness i = []"

definition txout_ok :: "CTxOut \<Rightarrow> bool" where
  "txout_ok out \<longleftrightarrow> - (2 ^ 63) \<le> nValue out \<and> nValue out < 2 ^ 63 \<and> length (scriptPubKey out) \<le> MAX_SIZE \<and> nRounds out = - 10"

lemma sint_u64: "- (2 ^ 63) \<le> v \<Longrightarrow> v < 2 ^ 63 \<Longrightarrow> sint (word_of_int v :: u64) = v"
  by (simp add: int_word_sint)

lemma sint_u64_bounds: "- (2 ^ 63) \<le> sint w" "sint w < 2 ^ 63"
  for w :: u64
  using sint_range_size [of w] by (simp_all add: word_size)

interpretation outpoint: canonical_codec ser_COutPoint unser_COutPoint outpoint_ok
proof unfold_locales
  show "unser_COutPoint (ser_COutPoint p @ r) = Inr (p, r)" if "outpoint_ok p" for p r
    using that by (simp add: unser_COutPoint_def ser_COutPoint_def outpoint_ok_def read_bytes_append u32.read_back)
  show "outpoint_ok p \<and> s = ser_COutPoint p @ r" if "unser_COutPoint s = Inr (p, r)" for s p r
    using that
    by (auto simp: unser_COutPoint_def ser_COutPoint_def outpoint_ok_def bindE_eq_Inr_iff u32.accepts_iff dest!: read_bytes_canonical)
qed

interpretation txin: canonical_codec ser_CTxIn unser_CTxIn txin_ok
proof unfold_locales
  show "unser_CTxIn (ser_CTxIn p @ r) = Inr (p, r)" if "txin_ok p" for p r
    using that by (simp add: unser_CTxIn_def ser_CTxIn_def txin_ok_def outpoint.read_back blob.read_back u32.read_back)
  show "txin_ok p \<and> s = ser_CTxIn p @ r" if "unser_CTxIn s = Inr (p, r)" for s p r
    using that
    by (auto simp: unser_CTxIn_def ser_CTxIn_def txin_ok_def bindE_eq_Inr_iff u32.accepts_iff outpoint.accepts_iff blob.accepts_iff)
qed

interpretation txout: canonical_codec ser_CTxOut unser_CTxOut txout_ok
proof unfold_locales
  show "unser_CTxOut (ser_CTxOut p @ r) = Inr (p, r)" if "txout_ok p" for p r
    using that by (simp add: unser_CTxOut_def ser_CTxOut_def txout_ok_def blob.read_back u64.read_back sint_u64)
  show "txout_ok p \<and> s = ser_CTxOut p @ r" if "unser_CTxOut s = Inr (p, r)" for s p r
    using that sint_u64_bounds
    by (auto simp: unser_CTxOut_def ser_CTxOut_def txout_ok_def bindE_eq_Inr_iff u64.accepts_iff blob.accepts_iff)
qed

interpretation txins: canonical_codec "Serialize_vector ser_CTxIn" "Unserialize_vector unser_CTxIn"
  "\<lambda>v. list_all txin_ok v \<and> length v \<le> MAX_SIZE"
  by (rule canonical_vector) (rule txin.canonical_codec_axioms)

interpretation txouts: canonical_codec "Serialize_vector ser_CTxOut" "Unserialize_vector unser_CTxOut"
  "\<lambda>v. list_all txout_ok v \<and> length v \<le> MAX_SIZE"
  by (rule canonical_vector) (rule txout.canonical_codec_axioms)

interpretation witness: canonical_codec ser_witness unser_witness
  "\<lambda>w. list_all (\<lambda>v. length v \<le> MAX_SIZE) w \<and> length w \<le> MAX_SIZE"
  unfolding ser_witness_def [abs_def] unser_witness_def [abs_def]
  by (rule canonical_vector) (rule blob.canonical_codec_axioms)

section \<open>The codec of transactions\<close>

definition strip :: "CTxIn \<Rightarrow> CTxIn" where
  "strip i = i\<lparr>scriptWitness := []\<rparr>"

definition witness_ok :: "bytes list \<Rightarrow> bool" where
  "witness_ok w \<longleftrightarrow> list_all (\<lambda>v. length v \<le> MAX_SIZE) w \<and> length w \<le> MAX_SIZE"

text \<open>
  Transactions that fit the format: versions and types of 16 bits (the sign bit of the version clear), sizes
  within the limit, a payload only where the format has one, no field that is not serialized, and with
  witnesses allowed no empty list of inputs before outputs, which would read as the witness marker.
\<close>

definition tx_ok :: "bool \<Rightarrow> CTransaction \<Rightarrow> bool" where
  "tx_ok fAllowWitness tx \<longleftrightarrow>
     0 \<le> nVersion tx \<and> nVersion tx < 2 ^ 15 \<and> - (2 ^ 15) \<le> nType tx \<and> nType tx < 2 ^ 15 \<and>
     list_all (\<lambda>i. txin_ok (strip i) \<and> witness_ok (scriptWitness i)) (vin tx) \<and> length (vin tx) \<le> MAX_SIZE \<and>
     list_all txout_ok (vout tx) \<and> length (vout tx) \<le> MAX_SIZE \<and> length (vExtraPayload tx) \<le> MAX_SIZE \<and>
     (nVersion tx = 3 \<and> nType tx \<noteq> TRANSACTION_NORMAL \<or> vExtraPayload tx = []) \<and>
     (if fAllowWitness then vin tx \<noteq> [] \<or> vout tx = [] else \<not> HasWitness tx)"

lemma ser_strip: "ser_CTxIn (strip i) = ser_CTxIn i" "map strip v = [] \<longleftrightarrow> v = []"
  by (simp_all add: ser_CTxIn_def strip_def)

lemma ser_vector_strip: "Serialize_vector ser_CTxIn (map strip v) = Serialize_vector ser_CTxIn v"
  by (simp add: Serialize_vector_def comp_def ser_strip)

lemma strip_id: "\<not> HasWitness tx \<Longrightarrow> map strip (vin tx) = vin tx"
  by (simp add: HasWitness_def list_ex_iff strip_def map_idI)

lemma txins_strip_back:
  "list_all (\<lambda>i. txin_ok (strip i) \<and> P i) v \<Longrightarrow> length v \<le> MAX_SIZE \<Longrightarrow>
    Unserialize_vector unser_CTxIn (Serialize_vector ser_CTxIn v @ r) = Inr (map strip v, r)"
  using txins.read_back [of "map strip v" r] by (simp add: ser_vector_strip list_all_iff)

lemma read_witnesses_back:
  "list_all (\<lambda>i. witness_ok (scriptWitness i)) v \<Longrightarrow>
    read_witnesses (map strip v) (concat (map (\<lambda>i. ser_witness (scriptWitness i)) v) @ r) = Inr (v, r)"
  by (induction v) (simp_all add: witness.read_back witness_ok_def strip_def)

lemma version_words:
  assumes "0 \<le> v" "v < 2 ^ 15" "- (2 ^ 15) \<le> t" "t < 2 ^ 15"
  defines "n \<equiv> word_of_int v OR push_bit 16 (word_of_int t) :: u32"
  shows "sint (ucast n :: u16) = v" "sint (ucast (drop_bit 16 n) :: u16) = t"
proof -
  have "v = take_bit 15 v" using assms(1,2) by (simp add: take_bit_int_eq_self)
  then have hi: "\<not> bit v k" if "15 \<le> k" for k using that by (metis bit_take_bit_iff not_le)
  have "(ucast n :: u16) = word_of_int v" unfolding n_def by (rule bit_word_eqI) (auto simp: bit_simps)
  then show "sint (ucast n :: u16) = v" using assms(1,2) by (simp add: int_word_sint)
  have "(ucast (drop_bit 16 n) :: u16) = word_of_int t"
    unfolding n_def by (rule bit_word_eqI) (auto simp: bit_simps hi)
  then show "sint (ucast (drop_bit 16 n) :: u16) = t" using assms(3,4) by (simp add: int_word_sint)
qed

lemma tx_read_back:
  assumes "tx_ok w tx"
  shows "UnserializeTransaction w (SerializeTransaction w tx @ r) = Inr (tx, r)"
proof -
  let ?pay = "if nVersion tx = 3 \<and> nType tx \<noteq> 0 then Serialize_blob (vExtraPayload tx) else []"
  have v: "sint (ucast (n32bitVersion tx) :: u16) = nVersion tx" "sint (ucast (drop_bit 16 (n32bitVersion tx)) :: u16) = nType tx"
    using version_words [of "nVersion tx" "nType tx"] assms by (auto simp: n32bitVersion_def tx_ok_def)
  have p: "(if nVersion tx = 3 \<and> nType tx \<noteq> 0 then Unserialize_blob (?pay @ r) else Inr ([], ?pay @ r)) = Inr (vExtraPayload tx, r)"
    using assms by (auto simp: tx_ok_def blob.read_back)
  have i: "Unserialize_vector unser_CTxIn (Serialize_vector ser_CTxIn (vin tx) @ q) = Inr (map strip (vin tx), q)" for q
    using assms by (intro txins_strip_back [where P = "\<lambda>i. witness_ok (scriptWitness i)"]) (auto simp: tx_ok_def)
  have o: "Unserialize_vector unser_CTxOut (Serialize_vector ser_CTxOut (vout tx) @ q) = Inr (vout tx, q)" for q
    using assms by (intro txouts.read_back) (auto simp: tx_ok_def)
  have e: "Unserialize_vector unser_CTxIn (Serialize_vector ser_CTxIn [] @ q) = Inr ([], q)" for q
    by (intro txins.read_back) simp
  show ?thesis
  proof (cases "w \<and> HasWitness tx")
    case True
    then have "read_witnesses (map strip (vin tx)) (concat (map (\<lambda>i. ser_witness (scriptWitness i)) (vin tx)) @ q) = Inr (vin tx, q)" for q
      using assms by (intro read_witnesses_back) (auto simp: tx_ok_def list_all_iff)
    with True v p i o e show ?thesis
      by (simp add: UnserializeTransaction_def SerializeTransaction_def u32.read_back u8.read_back Let_def)
  next
    case False
    then have n: "\<not> HasWitness tx" using assms by (auto simp: tx_ok_def split: if_splits)
    show ?thesis
    proof (cases "vin tx = [] \<and> w")
      case True
      then have "vout tx = []" using assms by (auto simp: tx_ok_def)
      moreover have "Serialize_vector ser_CTxOut [] = ser_writedata8 0"
        by (simp add: Serialize_vector_def WriteCompactSize_def)
      ultimately show ?thesis using True False v p e
        by (simp add: UnserializeTransaction_def SerializeTransaction_def u32.read_back u8.read_back Let_def)
    next
      case F: False
      with False n v p i o strip_id [OF n] show ?thesis
        by (auto simp: UnserializeTransaction_def SerializeTransaction_def u32.read_back Let_def)
    qed
  qed
qed

lemma version_join:
  fixes n :: u32
  defines "v \<equiv> ucast n :: u16" and "t \<equiv> ucast (drop_bit 16 n) :: u16"
  shows "word_of_int (sint v) OR push_bit 16 (word_of_int (sint t)) = n \<longleftrightarrow> 0 \<le> sint v \<or> sint t = - 1"
proof -
  have b: "bit (scast x :: u32) k \<longleftrightarrow> k < 32 \<and> bit x (min k 15)" for x :: u16 and k
    by (simp add: bit_simps min.commute)
  have vn: "bit v k \<longleftrightarrow> k < 16 \<and> bit n k" and tn: "bit t k \<longleftrightarrow> k < 16 \<and> bit n (k + 16)" for k
    by (auto simp: v_def t_def bit_simps add.commute)
  have neg: "sint v < 0 \<longleftrightarrow> bit n 15" using bit_last_iff [of v] vn [of 15] by simp
  have "t = - 1" if "sint t = - 1"
  proof -
    have "word_of_int (sint t) = (word_of_int (- 1) :: u16)" by (simp only: that)
    then show ?thesis by simp
  qed
  then have "sint t = - 1 \<longleftrightarrow> t = - 1" by (auto simp: sint_n1)
  also have "\<dots> \<longleftrightarrow> (\<forall>k<16. bit n (k + 16))" by (auto simp: bit_eq_iff tn bit_simps)
  finally have one: "sint t = - 1 \<longleftrightarrow> (\<forall>k<16. bit n (k + 16))" .
  have m: "bit (word_of_int (sint v) OR push_bit 16 (word_of_int (sint t)) :: u32) k \<longleftrightarrow>
      k < 32 \<and> (bit n (min k 15) \<or> 16 \<le> k \<and> bit n k)" for k
    by (auto simp: bit_or_iff bit_push_bit_iff b vn tn)
  have upper: "(\<forall>k<32. 16 \<le> k \<longrightarrow> P k) \<longleftrightarrow> (\<forall>k<16. P (k + 16))" for P :: "nat \<Rightarrow> bool"
  proof
    assume a: "\<forall>k<16. P (k + 16)"
    show "\<forall>k<32. 16 \<le> k \<longrightarrow> P k"
    proof (intro allI impI)
      fix k :: nat
      assume "k < 32" "16 \<le> k"
      then have "k - 16 < 16" "k - 16 + 16 = k" by simp_all
      with a show "P k" by metis
    qed
  qed simp
  let ?w = "word_of_int (sint v) OR push_bit 16 (word_of_int (sint t)) :: u32"
  have eq: "?w = n \<longleftrightarrow> (\<forall>k<32. bit ?w k = bit n k)" by (simp only: bit_eq_iff possible_bit_word) simp
  show ?thesis
  proof (cases "bit n 15")
    case False
    then have "0 \<le> sint v" using neg by simp
    moreover have "bit ?w k = bit n k" if "k < 32" for k
      unfolding m using False that by (cases "k < 16") (auto simp: min_def)
    ultimately show ?thesis using eq by blast
  next
    case True
    then have "\<not> 0 \<le> sint v" using neg by simp
    moreover have "bit ?w k \<longleftrightarrow> bit n k \<or> 16 \<le> k" if "k < 32" for k
      unfolding m using True that by (cases "k < 16") (auto simp: min_def)
    then have "(\<forall>k<32. bit ?w k = bit n k) \<longleftrightarrow> (\<forall>k<32. 16 \<le> k \<longrightarrow> bit n k)" by blast
    then have "(\<forall>k<32. bit ?w k = bit n k) \<longleftrightarrow> (\<forall>k<16. bit n (k + 16))" by (simp only: upper)
    ultimately show ?thesis using eq one by blast
  qed
qed

lemma tx_canonical:
  assumes "UnserializeTransaction False s = Inr (tx, r)"
  shows "(0 \<le> nVersion tx \<longrightarrow> tx_ok False tx) \<and>
    (s = SerializeTransaction False tx @ r \<longleftrightarrow> 0 \<le> nVersion tx \<or> nType tx = - 1)"
proof -
  from assms obtain n ins outs lock pay where tx: "tx = \<lparr>nVersion = sint (ucast n :: u16), nType = sint (ucast (drop_bit 16 n) :: u16),
        vin = ins, vout = outs, nLockTime = lock, vExtraPayload = pay\<rparr>"
    and ins: "list_all txin_ok ins" "length ins \<le> MAX_SIZE" and outs: "list_all txout_ok outs" "length outs \<le> MAX_SIZE"
    and pay: "if nVersion tx = 3 \<and> nType tx \<noteq> 0 then length pay \<le> MAX_SIZE else pay = []"
    and s: "s = ser_writedata32 n @ Serialize_vector ser_CTxIn ins @ Serialize_vector ser_CTxOut outs @ ser_writedata32 lock @
        (if nVersion tx = 3 \<and> nType tx \<noteq> 0 then Serialize_blob pay else []) @ r"
    by (auto simp: UnserializeTransaction_def bindE_eq_Inr_iff u32.accepts_iff txins.accepts_iff txouts.accepts_iff blob.accepts_iff Let_def
        split: if_splits)
  have nw: "\<not> HasWitness tx" using ins by (auto simp: tx HasWitness_def list_ex_iff list_all_iff txin_ok_def)
  have st: "strip i = i \<and> witness_ok (scriptWitness i)" if "i \<in> set ins" for i
    using that ins by (auto simp: strip_def list_all_iff txin_ok_def witness_ok_def)
  have b: "sint (ucast n :: u16) < 2 ^ 15" "- (2 ^ 15) \<le> sint (ucast (drop_bit 16 n) :: u16)" "sint (ucast (drop_bit 16 n) :: u16) < 2 ^ 15"
    using sint_range_size [of "ucast n :: u16"] sint_range_size [of "ucast (drop_bit 16 n) :: u16"] by (simp_all add: word_size)
  have sel: "vin tx = ins" "vout tx = outs" "vExtraPayload tx = pay" "nVersion tx < 2 ^ 15" "- (2 ^ 15) \<le> nType tx" "nType tx < 2 ^ 15"
    using b by (simp_all add: tx)
  have "list_all (\<lambda>i. txin_ok (strip i) \<and> witness_ok (scriptWitness i)) ins" using ins(1) st by (simp add: list_all_iff)
  then have ok: "tx_ok False tx" if "0 \<le> nVersion tx"
    using that ins(2) outs pay nw sel(4-6) unfolding tx_ok_def sel(1-3) by (simp split: if_splits)
  let ?X = "Serialize_vector ser_CTxIn ins @ Serialize_vector ser_CTxOut outs @ ser_writedata32 lock @
      (if nVersion tx = 3 \<and> nType tx \<noteq> 0 then Serialize_blob pay else []) @ r"
  have "nLockTime tx = lock" by (simp add: tx)
  then have "SerializeTransaction False tx @ r = ser_writedata32 (n32bitVersion tx) @ ?X"
    by (simp add: SerializeTransaction_def sel(1-3))
  then have "s = SerializeTransaction False tx @ r \<longleftrightarrow> n = n32bitVersion tx"
    unfolding s using u32.unambiguous by metis
  also have "\<dots> \<longleftrightarrow> 0 \<le> nVersion tx \<or> nType tx = - 1"
    using version_join [of n] by (auto simp: n32bitVersion_def tx)
  finally show ?thesis using ok by blast
qed

section \<open>Totals\<close>

lemma value_out_loop_sum:
  "value_out_loop outs acc = Some tot \<Longrightarrow> 0 \<le> acc \<Longrightarrow>
    tot = acc + sum_list (map nValue outs) \<and> acc \<le> tot \<and> (\<forall>out\<in>set outs. MoneyRange (nValue out))"
proof (induction outs arbitrary: acc)
  case (Cons out outs)
  then have m: "MoneyRange (nValue out)" "value_out_loop outs (acc + nValue out) = Some tot"
    by (auto simp: Let_def split: if_splits)
  with Cons.IH [of "acc + nValue out"] Cons.prems(2) show ?case by (simp add: MoneyRange_def)
qed simp

lemma value_out_loop_range: "value_out_loop outs acc = Some tot \<Longrightarrow> MoneyRange acc \<Longrightarrow> MoneyRange tot"
  by (induction outs arbitrary: acc) (auto simp: Let_def split: if_splits)

lemma sum_nValue_nonneg: "\<forall>out\<in>set outs. 0 \<le> nValue out \<Longrightarrow> 0 \<le> sum_list (map nValue outs)"
  by (intro sum_list_nonneg) auto

lemma value_out_loop_total:
  "\<forall>out\<in>set outs. 0 \<le> nValue out \<Longrightarrow> 0 \<le> acc \<Longrightarrow> acc + sum_list (map nValue outs) \<le> MAX_MONEY \<Longrightarrow>
    value_out_loop outs acc = Some (acc + sum_list (map nValue outs))"
proof (induction outs arbitrary: acc)
  case (Cons out outs)
  have "0 \<le> sum_list (map nValue outs)" using Cons.prems by (intro sum_nValue_nonneg) simp
  with Cons show ?case by (simp add: Let_def MoneyRange_def)
qed simp

lemma GetValueOut_iff:
  "GetValueOut tx = Some tot \<longleftrightarrow>
    tot = sum_list (map nValue (vout tx)) \<and> tot \<le> MAX_MONEY \<and> (\<forall>out\<in>set (vout tx). 0 \<le> nValue out)"
  unfolding GetValueOut_def
  using value_out_loop_sum [of "vout tx" 0 tot] value_out_loop_range [of "vout tx" 0 tot] value_out_loop_total [of "vout tx" 0]
  by (auto simp: MoneyRange_def)

section \<open>Properties\<close>

text \<open>A transaction is read back as it was written, in both formats: with witnesses allowed (the extended
  format when some input has a witness) and without.\<close>

theorem transaction_round_trip:
  assumes "tx_ok fAllowWitness tx"
  shows "UnserializeTransaction fAllowWitness (SerializeTransaction fAllowWitness tx @ r) = Inr (tx, r)"
  by (rule tx_read_back [OF assms])

definition demo_tx :: CTransaction where
  "demo_tx = \<lparr>nVersion = 1, nType = 0,
     vin = [\<lparr>prevout = \<lparr>outhash = replicate 32 7, outn = 0\<rparr>, scriptSig = [1, 2], nSequence = SEQUENCE_FINAL,
            prevPubKey = [], scriptWitness = [[9]]\<rparr>],
     vout = [\<lparr>nValue = 5, scriptPubKey = [OP_1], nRounds = - 10\<rparr>], nLockTime = 0, vExtraPayload = []\<rparr>"

theorem transaction_round_trip_witness:
  "UnserializeTransaction True (SerializeTransaction True demo_tx) = Inr (demo_tx, [])"
  using transaction_round_trip [of True demo_tx "[]"]
  by (simp add: demo_tx_def tx_ok_def txin_ok_def strip_def witness_ok_def outpoint_ok_def txout_ok_def)

text \<open>Without witnesses the format is canonical up to the version: what is read serializes to the bytes it
  was read from exactly when its version is not negative (or its type is -1). A version whose bit 15 is set
  is sign-extended over the type when it is written back, so such a transaction has another serialization,
  and another hash, than the bytes that were received.\<close>

theorem transaction_canonical:
  assumes "UnserializeTransaction False s = Inr (tx, r)"
  shows "(0 \<le> nVersion tx \<longrightarrow> tx_ok False tx) \<and>
    (s = SerializeTransaction False tx @ r \<longleftrightarrow> 0 \<le> nVersion tx \<or> nType tx = - 1)"
  by (rule tx_canonical [OF assms])

theorem transaction_canonical_witness:
  "[0xff, 0xff, 0, 0, 0, 0, 0, 0, 0, 0] \<noteq>
    SerializeTransaction False \<lparr>nVersion = - 1, nType = 0, vin = [], vout = [], nLockTime = 0, vExtraPayload = []\<rparr>"
proof -
  have "UnserializeTransaction False [0xff, 0xff, 0, 0, 0, 0, 0, 0, 0, 0] =
      Inr (\<lparr>nVersion = - 1, nType = 0, vin = [], vout = [], nLockTime = 0, vExtraPayload = []\<rparr>, [])"
    by code_simp
  from transaction_canonical [OF this] show ?thesis by simp
qed

end
