(* ===== verification/SigHash.thy ===== *)
theory SigHash
  imports Transaction
begin

text \<open>
  Signature hashes and the transaction signature checker of \<open>src/src/script/interpreter.cpp\<close>: the legacy
  serializer \<open>CTransactionSignatureSerializer\<close>, the hash of witness version 0, and the three checks that a
  script can ask of the spending transaction. The verification of a signature by the curve library is the
  parameter \<open>verify\<close>. Reading \<open>txTo.vin[nIn]\<close> assumes that the index is in range, as the callers ensure.
\<close>

section \<open>The legacy serializer\<close>

abbreviation (input) SIGHASH_NONE :: u32 where "SIGHASH_NONE \<equiv> 2"
abbreviation (input) SIGHASH_SINGLE :: u32 where "SIGHASH_SINGLE \<equiv> 3"
abbreviation (input) SIGHASH_ANYONECANPAY :: u32 where "SIGHASH_ANYONECANPAY \<equiv> 0x80"

definition fAnyoneCanPay :: "u32 \<Rightarrow> bool" where
  "fAnyoneCanPay nHashType \<longleftrightarrow> nHashType AND SIGHASH_ANYONECANPAY \<noteq> 0"

definition fHashSingle :: "u32 \<Rightarrow> bool" where
  "fHashSingle nHashType \<longleftrightarrow> nHashType AND 0x1f = SIGHASH_SINGLE"

definition fHashNone :: "u32 \<Rightarrow> bool" where
  "fHashNone nHashType \<longleftrightarrow> nHashType AND 0x1f = SIGHASH_NONE"

lemma GetOp2_read: "GetOp2 it = (True, opcode, dat, rest) \<Longrightarrow> length rest < length it"
  using GetOp2_progress [of it] by (cases "it = []") auto

function count_separators :: "bytes \<Rightarrow> nat \<Rightarrow> nat" where
  "count_separators it nCodeSeparators =
     (case GetOp2 it of (ok, opcode, dat, rest) \<Rightarrow>
        if ok then count_separators rest (if opcode = OP_CODESEPARATOR then nCodeSeparators + 1 else nCodeSeparators)
        else nCodeSeparators)"
  by auto
termination
  by (relation "measure (\<lambda>(it, n). length it)") (auto dest: GetOp2_read [OF sym])

text \<open>
  The second loop: \<open>it\<close> is the iterator and \<open>itBegin\<close> the start of the part not yet written, both as the rest of
  the script. The loop ends where no instruction can be read; \<open>it\<close> is then where the failed read stopped.
\<close>

function write_code :: "bytes \<Rightarrow> bytes \<Rightarrow> bytes \<Rightarrow> bytes" where
  "write_code it itBegin out =
     (case GetOp2 it of (ok, opcode, dat, rest) \<Rightarrow>
        if ok then
          if opcode = OP_CODESEPARATOR
          then write_code rest rest (out @ take (length itBegin - length rest - 1) itBegin)
          else write_code rest itBegin out
        else if itBegin \<noteq> [] then out @ take (length itBegin - length rest) itBegin else out)"
  by auto
termination
  by (relation "measure (\<lambda>(it, b, out). length it)") (auto dest: GetOp2_read [OF sym])

declare count_separators.simps [simp del] write_code.simps [simp del]

definition SerializeScriptCode :: "bytes \<Rightarrow> bytes" where
  "SerializeScriptCode scriptCode =
     WriteCompactSize (of_nat (length scriptCode - count_separators scriptCode 0)) @ write_code scriptCode scriptCode []"

definition SerializeInput :: "CTransaction \<Rightarrow> bytes \<Rightarrow> nat \<Rightarrow> u32 \<Rightarrow> nat \<Rightarrow> bytes" where
  "SerializeInput txTo scriptCode nIn nHashType nInput0 =
     (let nInput = (if fAnyoneCanPay nHashType then nIn else nInput0); txin = vin txTo ! nInput
      in ser_COutPoint (prevout txin) @
         (if nInput \<noteq> nIn then Serialize_blob [] else SerializeScriptCode scriptCode) @
         (if nInput \<noteq> nIn \<and> (fHashSingle nHashType \<or> fHashNone nHashType) then ser_writedata32 0
          else ser_writedata32 (nSequence txin)))"

definition SerializeOutput :: "CTransaction \<Rightarrow> nat \<Rightarrow> u32 \<Rightarrow> nat \<Rightarrow> bytes" where
  "SerializeOutput txTo nIn nHashType nOutput =
     (if fHashSingle nHashType \<and> nOutput \<noteq> nIn then ser_CTxOut TxOut_null else ser_CTxOut (vout txTo ! nOutput))"

definition SerializeForSignature :: "CTransaction \<Rightarrow> bytes \<Rightarrow> nat \<Rightarrow> u32 \<Rightarrow> bytes" where
  "SerializeForSignature txTo scriptCode nIn nHashType =
     (let nInputs = (if fAnyoneCanPay nHashType then 1 else length (vin txTo));
          nOutputs = (if fHashNone nHashType then 0 else if fHashSingle nHashType then nIn + 1 else length (vout txTo))
      in ser_writedata32 (n32bitVersion txTo) @
         WriteCompactSize (of_nat nInputs) @
         concat (map (SerializeInput txTo scriptCode nIn nHashType) [0..<nInputs]) @
         WriteCompactSize (of_nat nOutputs) @
         concat (map (SerializeOutput txTo nIn nHashType) [0..<nOutputs]) @
         ser_writedata32 (nLockTime txTo) @
         (if nVersion txTo = 3 \<and> nType txTo \<noteq> TRANSACTION_NORMAL then Serialize_blob (vExtraPayload txTo) else []))"

section \<open>Signature hashes\<close>

definition GetPrevoutHash :: "hash_funs \<Rightarrow> CTransaction \<Rightarrow> uint256" where
  "GetPrevoutHash H txTo = CHash256 H (concat (map (\<lambda>i. ser_COutPoint (prevout i)) (vin txTo)))"

definition GetSequenceHash :: "hash_funs \<Rightarrow> CTransaction \<Rightarrow> uint256" where
  "GetSequenceHash H txTo = CHash256 H (concat (map (\<lambda>i. ser_writedata32 (nSequence i)) (vin txTo)))"

definition GetOutputsHash :: "hash_funs \<Rightarrow> CTransaction \<Rightarrow> uint256" where
  "GetOutputsHash H txTo = CHash256 H (concat (map ser_CTxOut (vout txTo)))"

record PrecomputedTransactionData =
  hashPrevouts :: uint256
  hashSequence :: uint256
  hashOutputs :: uint256

definition Precomputed :: "hash_funs \<Rightarrow> CTransaction \<Rightarrow> PrecomputedTransactionData" where
  "Precomputed H txTo =
     \<lparr>hashPrevouts = GetPrevoutHash H txTo, hashSequence = GetSequenceHash H txTo, hashOutputs = GetOutputsHash H txTo\<rparr>"

definition uint256_zero :: uint256 where "uint256_zero = replicate 32 0"

definition uint256_one :: uint256 where "uint256_one = 1 # replicate 31 0"

definition SignatureHash ::
  "hash_funs \<Rightarrow> bytes \<Rightarrow> CTransaction \<Rightarrow> nat \<Rightarrow> u32 \<Rightarrow> int \<Rightarrow> SigVersion \<Rightarrow> PrecomputedTransactionData option \<Rightarrow> uint256" where
  "SignatureHash H scriptCode txTo nIn nHashType amount sigversion cache =
     (if sigversion = SIGVERSION_WITNESS_V0 then
        let prevouts = (if \<not> fAnyoneCanPay nHashType
                        then (case cache of Some c \<Rightarrow> hashPrevouts c | None \<Rightarrow> GetPrevoutHash H txTo) else uint256_zero);
            sequence = (if \<not> fAnyoneCanPay nHashType \<and> \<not> fHashSingle nHashType \<and> \<not> fHashNone nHashType
                        then (case cache of Some c \<Rightarrow> hashSequence c | None \<Rightarrow> GetSequenceHash H txTo) else uint256_zero);
            outputs = (if \<not> fHashSingle nHashType \<and> \<not> fHashNone nHashType
                       then (case cache of Some c \<Rightarrow> hashOutputs c | None \<Rightarrow> GetOutputsHash H txTo)
                       else if fHashSingle nHashType \<and> nIn < length (vout txTo)
                       then CHash256 H (ser_CTxOut (vout txTo ! nIn)) else uint256_zero)
        in CHash256 H
             (ser_writedata32 (word_of_int (nVersion txTo)) @ prevouts @ sequence @
              ser_COutPoint (prevout (vin txTo ! nIn)) @ Serialize_blob scriptCode @
              ser_writedata64 (word_of_int amount) @ ser_writedata32 (nSequence (vin txTo ! nIn)) @
              outputs @ ser_writedata32 (nLockTime txTo) @ ser_writedata32 nHashType)
      else if nIn \<ge> length (vin txTo) then uint256_one
      else if fHashSingle nHashType \<and> nIn \<ge> length (vout txTo) then uint256_one
      else CHash256 H (SerializeForSignature txTo scriptCode nIn nHashType @ ser_writedata32 nHashType))"

section \<open>The checker\<close>

definition PubKey_GetLen :: "byte \<Rightarrow> nat" where
  "PubKey_GetLen chHeader =
     (if chHeader = 2 \<or> chHeader = 3 then 33
      else if chHeader = 4 \<or> chHeader = 6 \<or> chHeader = 7 then 65 else 0)"

text \<open>A key is valid when \<open>Set\<close> kept its bytes: the length that the header announces.\<close>

definition PubKey_IsValid :: "bytes \<Rightarrow> bool" where
  "PubKey_IsValid dat \<longleftrightarrow> dat \<noteq> [] \<and> PubKey_GetLen (hd dat) \<noteq> 0 \<and> PubKey_GetLen (hd dat) = length dat"

definition Tx_CheckSig ::
  "hash_funs \<Rightarrow> (bytes \<Rightarrow> uint256 \<Rightarrow> bytes \<Rightarrow> bool) \<Rightarrow> CTransaction \<Rightarrow> nat \<Rightarrow> int \<Rightarrow> PrecomputedTransactionData option \<Rightarrow>
    bytes \<Rightarrow> bytes \<Rightarrow> bytes \<Rightarrow> SigVersion \<Rightarrow> bool" where
  "Tx_CheckSig H verify txTo nIn amount txdata vchSigIn vchPubKey scriptCode sigversion \<longleftrightarrow>
     (if \<not> PubKey_IsValid vchPubKey then False
      else if vchSigIn = [] then False
      else let nHashType = ucast (last vchSigIn); vchSig = butlast vchSigIn
      in verify vchPubKey (SignatureHash H scriptCode txTo nIn nHashType amount sigversion txdata) vchSig)"

abbreviation (input) LOCKTIME_THRESHOLD :: int where "LOCKTIME_THRESHOLD \<equiv> 500000000"

definition Tx_CheckLockTime :: "CTransaction \<Rightarrow> nat \<Rightarrow> int \<Rightarrow> bool" where
  "Tx_CheckLockTime txTo nIn lockTime \<longleftrightarrow>
     (let txLock = uint (nLockTime txTo)
      in if \<not> (txLock < LOCKTIME_THRESHOLD \<and> lockTime < LOCKTIME_THRESHOLD \<or>
               txLock \<ge> LOCKTIME_THRESHOLD \<and> lockTime \<ge> LOCKTIME_THRESHOLD) then False
         else if lockTime > txLock then False
         else if nSequence (vin txTo ! nIn) = SEQUENCE_FINAL then False
         else True)"

abbreviation (input) SEQUENCE_LOCKTIME_DISABLE_FLAG :: u32 where "SEQUENCE_LOCKTIME_DISABLE_FLAG \<equiv> 0x80000000"
abbreviation (input) SEQUENCE_LOCKTIME_TYPE_FLAG :: u32 where "SEQUENCE_LOCKTIME_TYPE_FLAG \<equiv> 0x00400000"
abbreviation (input) SEQUENCE_LOCKTIME_MASK :: u32 where "SEQUENCE_LOCKTIME_MASK \<equiv> 0x0000ffff"

definition Tx_CheckSequence :: "CTransaction \<Rightarrow> nat \<Rightarrow> int \<Rightarrow> bool" where
  "Tx_CheckSequence txTo nIn seqArg \<longleftrightarrow>
     (let txToSequence = nSequence (vin txTo ! nIn)
      in if (word_of_int (nVersion txTo) :: u32) < 2 then False
         else if txToSequence AND SEQUENCE_LOCKTIME_DISABLE_FLAG \<noteq> 0 then False
         else let nLockTimeMask = SEQUENCE_LOCKTIME_TYPE_FLAG OR SEQUENCE_LOCKTIME_MASK;
                  txToSequenceMasked = uint (txToSequence AND nLockTimeMask);
                  nSequenceMasked = seqArg AND uint nLockTimeMask;
                  typeFlag = uint SEQUENCE_LOCKTIME_TYPE_FLAG
         in if \<not> (txToSequenceMasked < typeFlag \<and> nSequenceMasked < typeFlag \<or>
                  txToSequenceMasked \<ge> typeFlag \<and> nSequenceMasked \<ge> typeFlag) then False
            else if nSequenceMasked > txToSequenceMasked then False
            else True)"

definition TransactionSignatureChecker ::
  "hash_funs \<Rightarrow> (bytes \<Rightarrow> uint256 \<Rightarrow> bytes \<Rightarrow> bool) \<Rightarrow> CTransaction \<Rightarrow> nat \<Rightarrow> int \<Rightarrow> PrecomputedTransactionData option \<Rightarrow>
    BaseSignatureChecker" where
  "TransactionSignatureChecker H verify txTo nIn amount txdata =
     \<lparr>CheckSig = Tx_CheckSig H verify txTo nIn amount txdata, CheckLockTime = Tx_CheckLockTime txTo nIn,
      CheckSequence = Tx_CheckSequence txTo nIn\<rparr>"

section \<open>Code separators\<close>

text \<open>A script in which every instruction can be read.\<close>

function parses :: "bytes \<Rightarrow> bool" where
  "parses it = (if it = [] then True else case GetOp2 it of (ok, opcode, dat, rest) \<Rightarrow> if ok then parses rest else False)"
  by auto
termination
  by (relation "measure length") (auto dest: GetOp2_read [OF sym])

declare parses.simps [simp del]

lemma GetOp2_separator: "GetOp2 it = (True, OP_CODESEPARATOR, dat, rest) \<longleftrightarrow> dat = [] \<and> it = OP_CODESEPARATOR # rest"
  by (auto simp: GetOp2_def swallows_rest_def split: list.splits if_splits option.splits)

lemma delete_separator_step:
  "delete_spec [OP_CODESEPARATOR] it =
    (case GetOp2 it of (ok, opcode, dat, rest) \<Rightarrow>
       if ok then (if opcode = OP_CODESEPARATOR then delete_spec [OP_CODESEPARATOR] rest
                   else take (length it - length rest) it @ delete_spec [OP_CODESEPARATOR] rest)
       else it)"
proof (cases "it \<noteq> [] \<and> hd it = OP_CODESEPARATOR")
  case True
  then obtain r where r: "it = OP_CODESEPARATOR # r" by (cases it) auto
  then have "GetOp2 it = (True, OP_CODESEPARATOR, [], r)" using GetOp2_separator [of it "[]" r] by simp
  then show ?thesis by (subst delete_spec.simps) (simp add: r)
next
  case False
  obtain ok opcode dat rest where g: "GetOp2 it = (ok, opcode, dat, rest)" by (cases "GetOp2 it")
  have "\<not> (ok \<and> opcode = OP_CODESEPARATOR)" using False g GetOp2_separator [of it dat rest] by auto
  moreover have "\<not> (length it \<ge> length [OP_CODESEPARATOR] \<and> take (length [OP_CODESEPARATOR]) it = [OP_CODESEPARATOR])"
    using False by (cases it) auto
  ultimately show ?thesis by (subst delete_spec.simps) (auto simp: g)
qed

lemma write_code_deletes:
  "parses it \<Longrightarrow> itBegin = pre @ it \<Longrightarrow> write_code it itBegin out = out @ pre @ delete_spec [OP_CODESEPARATOR] it"
proof (induction it itBegin out arbitrary: pre rule: write_code.induct)
  case (1 it itBegin out)
  obtain ok opcode dat rest where g: "GetOp2 it = (ok, opcode, dat, rest)" by (cases "GetOp2 it")
  show ?case
  proof (cases ok)
    case True
    then have p: "parses rest" using 1(3) g by (subst (asm) parses.simps) (auto split: if_splits)
    obtain q where q: "it = q @ rest" using GetOp2_suffix [OF g] by (auto simp: suffix_def)
    show ?thesis
    proof (cases "opcode = OP_CODESEPARATOR")
      case s: True
      then have "it = OP_CODESEPARATOR # rest" using g True GetOp2_separator [of it dat rest] by simp
      moreover have "write_code it itBegin out = write_code rest rest (out @ take (length itBegin - length rest - 1) itBegin)"
        by (subst write_code.simps) (simp add: g True s)
      moreover have "delete_spec [OP_CODESEPARATOR] it = delete_spec [OP_CODESEPARATOR] rest"
        by (subst delete_separator_step) (simp add: g True s)
      ultimately show ?thesis using 1(1) [OF g [symmetric] refl refl True s p, of "[]"] 1(4) by simp
    next
      case s: False
      have "write_code it itBegin out = write_code rest itBegin out"
        by (subst write_code.simps) (simp add: g True s)
      moreover have "delete_spec [OP_CODESEPARATOR] it = q @ delete_spec [OP_CODESEPARATOR] rest"
        by (subst delete_separator_step) (simp add: g True s, simp add: q)
      ultimately show ?thesis using 1(2) [OF g [symmetric] refl refl True s p, of "pre @ q"] 1(4) q by simp
    qed
  next
    case False
    then have "it = []" using 1(3) g by (subst (asm) parses.simps) (auto split: if_splits)
    with g have "rest = []" by simp
    with \<open>it = []\<close> 1(4) show ?thesis
      by (subst write_code.simps, subst delete_separator_step) simp
  qed
qed

lemma count_separators_deleted:
  "parses it \<Longrightarrow> count_separators it n + length (delete_spec [OP_CODESEPARATOR] it) = n + length it"
proof (induction it n rule: count_separators.induct)
  case (1 it n)
  obtain ok opcode dat rest where g: "GetOp2 it = (ok, opcode, dat, rest)" by (cases "GetOp2 it")
  show ?case
  proof (cases ok)
    case True
    then have p: "parses rest" using 1(2) g by (subst (asm) parses.simps) (auto split: if_splits)
    obtain q where q: "it = q @ rest" using GetOp2_suffix [OF g] by (auto simp: suffix_def)
    have "opcode = OP_CODESEPARATOR \<Longrightarrow> length q = 1" using q g True GetOp2_separator [of it dat rest] by auto
    moreover have "count_separators it n = count_separators rest (if opcode = OP_CODESEPARATOR then n + 1 else n)"
      by (subst count_separators.simps) (simp add: g True)
    moreover have "delete_spec [OP_CODESEPARATOR] it = (if opcode = OP_CODESEPARATOR then [] else q) @ delete_spec [OP_CODESEPARATOR] rest"
      by (subst delete_separator_step) (simp add: g True, simp add: q)
    ultimately show ?thesis using 1(1) [OF g [symmetric] refl refl True p] q by (simp split: if_splits)
  next
    case False
    then have "it = []" using 1(2) g by (subst (asm) parses.simps) (auto split: if_splits)
    then show ?thesis by (subst count_separators.simps, subst delete_separator_step) simp
  qed
qed

lemma SerializeScriptCode_deletes:
  assumes "parses scriptCode"
  shows "SerializeScriptCode scriptCode = Serialize_blob (snd (FindAndDelete scriptCode [OP_CODESEPARATOR]))"
proof -
  have "snd (FindAndDelete scriptCode [OP_CODESEPARATOR]) = delete_spec [OP_CODESEPARATOR] scriptCode"
    using FindAndDelete_spec [of "[OP_CODESEPARATOR]" scriptCode] by auto
  moreover have "length scriptCode - count_separators scriptCode 0 = length (delete_spec [OP_CODESEPARATOR] scriptCode)"
    using count_separators_deleted [OF assms, of 0] by simp
  ultimately show ?thesis
    using write_code_deletes [OF assms, of scriptCode "[]" "[]"] by (simp add: SerializeScriptCode_def Serialize_blob_def)
qed

section \<open>What a signature over everything commits to\<close>

text \<open>
  The transaction that a legacy signature without special flags signs: the script of the signed input is the
  script code without code separators, the other input scripts are blank.
\<close>

definition signing_tx :: "CTransaction \<Rightarrow> bytes \<Rightarrow> nat \<Rightarrow> CTransaction" where
  "signing_tx txTo scriptCode nIn = txTo\<lparr>vin := map (\<lambda>k. (vin txTo ! k)\<lparr>
     scriptSig := (if k = nIn then snd (FindAndDelete scriptCode [OP_CODESEPARATOR]) else []), scriptWitness := []\<rparr>)
     [0..<length (vin txTo)]\<rparr>"

definition sighash_all :: "u32 \<Rightarrow> bool" where
  "sighash_all nHashType \<longleftrightarrow> \<not> fAnyoneCanPay nHashType \<and> \<not> fHashSingle nHashType \<and> \<not> fHashNone nHashType"

lemma map_nth_all: "map (\<lambda>k. f (xs ! k)) [0..<length xs] = map f xs"
  by (rule nth_equalityI) auto

lemma signing_tx_simps [simp]:
  "nVersion (signing_tx tx code nIn) = nVersion tx" "nType (signing_tx tx code nIn) = nType tx"
  "vout (signing_tx tx code nIn) = vout tx" "nLockTime (signing_tx tx code nIn) = nLockTime tx"
  "vExtraPayload (signing_tx tx code nIn) = vExtraPayload tx" "length (vin (signing_tx tx code nIn)) = length (vin tx)"
  "map prevout (vin (signing_tx tx code nIn)) = map prevout (vin tx)"
  "map nSequence (vin (signing_tx tx code nIn)) = map nSequence (vin tx)"
  by (simp_all add: signing_tx_def comp_def map_nth_all)

lemma SerializeForSignature_all:
  assumes "parses code" "sighash_all nHashType"
  shows "SerializeForSignature tx code nIn nHashType = SerializeTransaction False (signing_tx tx code nIn)"
proof -
  have "map (SerializeInput tx code nIn nHashType) [0..<length (vin tx)] = map ser_CTxIn (vin (signing_tx tx code nIn))"
    using assms by (simp add: SerializeInput_def Let_def sighash_all_def signing_tx_def ser_CTxIn_def SerializeScriptCode_deletes)
  moreover have "map (SerializeOutput tx nIn nHashType) [0..<length (vout tx)] = map ser_CTxOut (vout tx)"
    using assms(2) map_nth_all [of ser_CTxOut "vout tx"] by (simp add: SerializeOutput_def [abs_def] sighash_all_def)
  ultimately show ?thesis
    using assms(2)
    by (simp add: SerializeForSignature_def SerializeTransaction_def sighash_all_def Serialize_vector_def n32bitVersion_def)
qed

lemma signing_tx_inject:
  assumes "signing_tx tx code nIn = signing_tx tx' code' nIn'"
  shows "nVersion tx = nVersion tx' \<and> nType tx = nType tx' \<and> map prevout (vin tx) = map prevout (vin tx') \<and>
    map nSequence (vin tx) = map nSequence (vin tx') \<and> vout tx = vout tx' \<and> nLockTime tx = nLockTime tx' \<and>
    vExtraPayload tx = vExtraPayload tx'"
  using arg_cong [OF assms, of nVersion] arg_cong [OF assms, of nType] arg_cong [OF assms, of vout]
    arg_cong [OF assms, of nLockTime] arg_cong [OF assms, of vExtraPayload]
    arg_cong [OF assms, of "\<lambda>t. map prevout (vin t)"] arg_cong [OF assms, of "\<lambda>t. map nSequence (vin t)"]
  by simp

lemma SignatureHash_cached:
  "SignatureHash H code tx nIn ht amount sv (Some (Precomputed H tx)) = SignatureHash H code tx nIn ht amount sv None"
  by (simp add: SignatureHash_def Precomputed_def)

section \<open>Properties\<close>

text \<open>C9. A legacy signature (not one of a witness program) without special flags commits to the whole transaction except for the scripts: when the
  data that two such signatures of the same hash type hash agree, the versions, types, spent outputs, sequence numbers, outputs, lock times and
  payloads agree, whatever the scripts and the input indices. The scripts that are signed have to parse, and the transactions as they are signed have
  to fit the format.\<close>

theorem sighash_all_commits:
  assumes "sighash_all nHashType" "parses code" "parses code'"
    and "tx_ok False (signing_tx tx code nIn)" "tx_ok False (signing_tx tx' code' nIn')"
    and "SerializeForSignature tx code nIn nHashType @ r = SerializeForSignature tx' code' nIn' nHashType @ r'"
  shows "nVersion tx = nVersion tx' \<and> nType tx = nType tx' \<and> map prevout (vin tx) = map prevout (vin tx') \<and>
    map nSequence (vin tx) = map nSequence (vin tx') \<and> vout tx = vout tx' \<and> nLockTime tx = nLockTime tx' \<and>
    vExtraPayload tx = vExtraPayload tx'"
proof -
  have "SerializeTransaction False (signing_tx tx code nIn) @ r = SerializeTransaction False (signing_tx tx' code' nIn') @ r'"
    using assms(6) unfolding SerializeForSignature_all [OF assms(2,1)] SerializeForSignature_all [OF assms(3,1)] .
  then have "signing_tx tx code nIn = signing_tx tx' code' nIn'"
    by (metis tx_read_back [OF assms(4)] tx_read_back [OF assms(5)] Pair_inject sum.inject(2))
  then show ?thesis by (rule signing_tx_inject)
qed

theorem sighash_all_commits_witness:
  "\<exists>r. SerializeForSignature demo_tx [OP_1] 0 1 @ r \<noteq> SerializeForSignature (demo_tx\<lparr>nLockTime := 7\<rparr>) [OP_1] 0 1 @ r"
proof -
  have p: "parses [OP_1]" "sighash_all 1" by (simp_all add: parses.simps GetOp2_def swallows_rest_def sighash_all_def
        fAnyoneCanPay_def fHashSingle_def fHashNone_def)
  have "length (snd (FindAndDelete [OP_1] [OP_CODESEPARATOR])) \<le> MAX_SIZE"
    using FindAndDelete_length [of "[OP_1]" "[OP_CODESEPARATOR]"] by simp
  then have "tx_ok False (signing_tx demo_tx [OP_1] 0)" "tx_ok False (signing_tx (demo_tx\<lparr>nLockTime := 7\<rparr>) [OP_1] 0)"
    by (simp_all add: tx_ok_def signing_tx_def demo_tx_def txin_ok_def strip_def witness_ok_def outpoint_ok_def
        txout_ok_def HasWitness_def)
  from sighash_all_commits [OF p(2) p(1) p(1) this] show ?thesis by (auto simp: demo_tx_def)
qed

text \<open>The hash of witness version 0 leaves out the type and the payload of a special transaction, which the
  legacy hash and the transaction hash cover: replacing them keeps every witness signature valid.\<close>

theorem witness_sighash_omits_payload:
  "SignatureHash H code (tx\<lparr>nType := t, vExtraPayload := p\<rparr>) nIn nHashType amount SIGVERSION_WITNESS_V0 None =
   SignatureHash H code tx nIn nHashType amount SIGVERSION_WITNESS_V0 None"
  by (simp add: SignatureHash_def GetPrevoutHash_def GetSequenceHash_def GetOutputsHash_def)

end
