(* ===== verification/Coins.thy ===== *)
theory Coins
  imports Transaction "HOL-Library.AList"
begin

text \<open>
  The views of the set of unspent outputs (\<open>src/src/coins.h\<close>, \<open>coins.cpp\<close>) and the database view of
  \<open>src/src/txdb.cpp\<close>. A view is a state; its virtual operations are arguments of the definitions of the cache
  that is laid over it (\<open>get\<close> for \<open>GetCoin\<close>, \<open>best\<close> for \<open>GetBestBlock\<close>, \<open>batch\<close> for \<open>BatchWrite\<close>), so a cache may
  back another cache. Reading through a cache fills it, so reads return the new state. A coin map is an
  association list with distinct keys, in the order in which the code iterates over it. The memory usage of
  a script is the parameter \<open>usage\<close>. The locale \<open>coins_view\<close> says what a view promises over the abstract set of
  unspent outputs; the database satisfies it, and every cache over a view that does satisfies it.
\<close>

section \<open>Coins\<close>

datatype coins_error = AssertSpent | OverwritesUnspent | FreshMisapplied

record Coin =
  coinOut :: CTxOut
  fCoinBase :: bool
  coinHeight :: nat

definition IsSpent :: "Coin \<Rightarrow> bool" where
  "IsSpent c \<longleftrightarrow> TxOut_IsNull (coinOut c)"

definition coinEmpty :: Coin where
  "coinEmpty = \<lparr>coinOut = TxOut_null, fCoinBase = False, coinHeight = 0\<rparr>"

definition Coin_Clear :: "Coin \<Rightarrow> Coin" where
  "Coin_Clear c = c\<lparr>coinOut := TxOut_null, fCoinBase := False, coinHeight := 0\<rparr>"

record CCoinsCacheEntry =
  coin :: Coin
  DIRTY :: bool
  FRESH :: bool

type_synonym CCoinsMap = "(COutPoint \<times> CCoinsCacheEntry) list"

text \<open>Memory of a coin, by the usage of its script.\<close>

definition Coin_usage :: "(bytes \<Rightarrow> nat) \<Rightarrow> Coin \<Rightarrow> int" where
  "Coin_usage usage c = int (usage (scriptPubKey (coinOut c)))"

section \<open>The database view\<close>

record CCoinsViewDB =
  dbCoins :: "(COutPoint \<times> Coin) list"
  dbBestBlock :: "uint256 option"

definition DB_GetCoin :: "COutPoint \<Rightarrow> CCoinsViewDB \<Rightarrow> Coin option \<times> CCoinsViewDB" where
  "DB_GetCoin p db = (map_of (dbCoins db) p, db)"

definition DB_HaveCoin :: "COutPoint \<Rightarrow> CCoinsViewDB \<Rightarrow> bool" where
  "DB_HaveCoin p db \<longleftrightarrow> map_of (dbCoins db) p \<noteq> None"

definition DB_GetBestBlock :: "CCoinsViewDB \<Rightarrow> uint256 \<times> CCoinsViewDB" where
  "DB_GetBestBlock db = (case dbBestBlock db of None \<Rightarrow> replicate 32 0 | Some h \<Rightarrow> h, db)"

definition db_write :: "COutPoint \<times> CCoinsCacheEntry \<Rightarrow> (COutPoint \<times> Coin) list \<Rightarrow> (COutPoint \<times> Coin) list" where
  "db_write it coins =
     (if DIRTY (snd it) then
        if IsSpent (coin (snd it)) then AList.delete (fst it) coins else AList.update (fst it) (coin (snd it)) coins
      else coins)"

definition DB_BatchWrite :: "CCoinsMap \<Rightarrow> uint256 \<Rightarrow> CCoinsViewDB \<Rightarrow> coins_error + CCoinsViewDB" where
  "DB_BatchWrite mapCoins hashBlk db =
     Inr (db\<lparr>dbCoins := fold db_write mapCoins (dbCoins db),
             dbBestBlock := (if \<not> IsNull256 hashBlk then Some hashBlk else dbBestBlock db)\<rparr>)"

section \<open>The cache\<close>

record 'v CCoinsViewCache =
  base :: 'v
  hashBlock :: uint256
  cacheCoins :: CCoinsMap
  cachedCoinsUsage :: int

type_synonym 'v coin_getter = "COutPoint \<Rightarrow> 'v \<Rightarrow> Coin option \<times> 'v"

definition new_cache :: "'v \<Rightarrow> 'v CCoinsViewCache" where
  "new_cache b = \<lparr>base = b, hashBlock = replicate 32 0, cacheCoins = [], cachedCoinsUsage = 0\<rparr>"

definition FetchCoin ::
  "(bytes \<Rightarrow> nat) \<Rightarrow> 'v coin_getter \<Rightarrow> COutPoint \<Rightarrow> 'v CCoinsViewCache \<Rightarrow> CCoinsCacheEntry option \<times> 'v CCoinsViewCache" where
  "FetchCoin usage get p s =
     (case map_of (cacheCoins s) p of
        Some e \<Rightarrow> (Some e, s)
      | None \<Rightarrow>
          (case get p (base s) of
             (None, b) \<Rightarrow> (None, s\<lparr>base := b\<rparr>)
           | (Some tmp, b) \<Rightarrow>
               let e = \<lparr>coin = tmp, DIRTY = False, FRESH = IsSpent tmp\<rparr>
               in (Some e, s\<lparr>base := b, cacheCoins := AList.update p e (cacheCoins s),
                             cachedCoinsUsage := cachedCoinsUsage s + Coin_usage usage tmp\<rparr>)))"

definition GetCoin :: "(bytes \<Rightarrow> nat) \<Rightarrow> 'v coin_getter \<Rightarrow> 'v CCoinsViewCache coin_getter" where
  "GetCoin usage get p s =
     (case FetchCoin usage get p s of (Some e, s') \<Rightarrow> (Some (coin e), s') | (None, s') \<Rightarrow> (None, s'))"

definition AddCoin ::
  "(bytes \<Rightarrow> nat) \<Rightarrow> COutPoint \<Rightarrow> Coin \<Rightarrow> bool \<Rightarrow> 'v CCoinsViewCache \<Rightarrow> coins_error + 'v CCoinsViewCache" where
  "AddCoin usage p c possible_overwrite s =
     (if IsSpent c then Inl AssertSpent
      else if IsUnspendable (scriptPubKey (coinOut c)) then Inr s
      else let inserted = (map_of (cacheCoins s) p = None);
               it = (case map_of (cacheCoins s) p of Some e \<Rightarrow> e | None \<Rightarrow> \<lparr>coin = coinEmpty, DIRTY = False, FRESH = False\<rparr>);
               used = (if \<not> inserted then cachedCoinsUsage s - Coin_usage usage (coin it) else cachedCoinsUsage s)
      in if \<not> possible_overwrite \<and> \<not> IsSpent (coin it) then Inl OverwritesUnspent
         else let mark = (if \<not> possible_overwrite then \<not> DIRTY it else False)
         in Inr (s\<lparr>cacheCoins := AList.update p (it\<lparr>coin := c, DIRTY := True, FRESH := FRESH it \<or> mark\<rparr>) (cacheCoins s),
                   cachedCoinsUsage := used + Coin_usage usage c\<rparr>))"

definition SpendCoin ::
  "(bytes \<Rightarrow> nat) \<Rightarrow> 'v coin_getter \<Rightarrow> COutPoint \<Rightarrow> 'v CCoinsViewCache \<Rightarrow> Coin option \<times> 'v CCoinsViewCache" where
  "SpendCoin usage get p s =
     (case FetchCoin usage get p s of
        (None, s) \<Rightarrow> (None, s)
      | (Some e, s) \<Rightarrow>
          let used = cachedCoinsUsage s - Coin_usage usage (coin e)
          in (Some (coin e),
              if FRESH e then s\<lparr>cacheCoins := AList.delete p (cacheCoins s), cachedCoinsUsage := used\<rparr>
              else s\<lparr>cacheCoins := AList.update p (e\<lparr>coin := Coin_Clear (coin e), DIRTY := True\<rparr>) (cacheCoins s),
                     cachedCoinsUsage := used\<rparr>))"

definition AccessCoin ::
  "(bytes \<Rightarrow> nat) \<Rightarrow> 'v coin_getter \<Rightarrow> COutPoint \<Rightarrow> 'v CCoinsViewCache \<Rightarrow> Coin \<times> 'v CCoinsViewCache" where
  "AccessCoin usage get p s =
     (case FetchCoin usage get p s of (None, s') \<Rightarrow> (coinEmpty, s') | (Some e, s') \<Rightarrow> (coin e, s'))"

definition HaveCoin ::
  "(bytes \<Rightarrow> nat) \<Rightarrow> 'v coin_getter \<Rightarrow> COutPoint \<Rightarrow> 'v CCoinsViewCache \<Rightarrow> bool \<times> 'v CCoinsViewCache" where
  "HaveCoin usage get p s =
     (case FetchCoin usage get p s of (None, s') \<Rightarrow> (False, s') | (Some e, s') \<Rightarrow> (\<not> IsSpent (coin e), s'))"

definition HaveCoinInCache :: "COutPoint \<Rightarrow> 'v CCoinsViewCache \<Rightarrow> bool" where
  "HaveCoinInCache p s \<longleftrightarrow> map_of (cacheCoins s) p \<noteq> None"

definition GetBestBlock :: "('v \<Rightarrow> uint256 \<times> 'v) \<Rightarrow> 'v CCoinsViewCache \<Rightarrow> uint256 \<times> 'v CCoinsViewCache" where
  "GetBestBlock best s =
     (if IsNull256 (hashBlock s) then case best (base s) of (h, b) \<Rightarrow> (h, s\<lparr>base := b, hashBlock := h\<rparr>)
      else (hashBlock s, s))"

definition SetBestBlock :: "uint256 \<Rightarrow> 'v CCoinsViewCache \<Rightarrow> 'v CCoinsViewCache" where
  "SetBestBlock hashBlockIn s = s\<lparr>hashBlock := hashBlockIn\<rparr>"

text \<open>One round of the loop of \<open>BatchWrite\<close>: a changed entry of the child is moved into this cache.\<close>

definition batch_entry ::
  "(bytes \<Rightarrow> nat) \<Rightarrow> COutPoint \<times> CCoinsCacheEntry \<Rightarrow> 'v CCoinsViewCache \<Rightarrow> coins_error + 'v CCoinsViewCache" where
  "batch_entry usage it s =
     (case it of (p, child) \<Rightarrow>
        if DIRTY child then
          case map_of (cacheCoins s) p of
            None \<Rightarrow>
              if \<not> (FRESH child \<and> IsSpent (coin child)) then
                Inr (s\<lparr>cacheCoins := AList.update p \<lparr>coin = coin child, DIRTY = True, FRESH = FRESH child\<rparr> (cacheCoins s),
                       cachedCoinsUsage := cachedCoinsUsage s + Coin_usage usage (coin child)\<rparr>)
              else Inr s
          | Some us \<Rightarrow>
              if FRESH child \<and> \<not> IsSpent (coin us) then Inl FreshMisapplied
              else if FRESH us \<and> IsSpent (coin child) then
                Inr (s\<lparr>cacheCoins := AList.delete p (cacheCoins s),
                       cachedCoinsUsage := cachedCoinsUsage s - Coin_usage usage (coin us)\<rparr>)
              else Inr (s\<lparr>cacheCoins := AList.update p (us\<lparr>coin := coin child, DIRTY := True\<rparr>) (cacheCoins s),
                          cachedCoinsUsage := cachedCoinsUsage s - Coin_usage usage (coin us) + Coin_usage usage (coin child)\<rparr>)
        else Inr s)"

primrec batch_loop ::
  "(bytes \<Rightarrow> nat) \<Rightarrow> CCoinsMap \<Rightarrow> 'v CCoinsViewCache \<Rightarrow> coins_error + 'v CCoinsViewCache" where
  "batch_loop usage [] s = Inr s"
| "batch_loop usage (it # mapCoins) s = bindE (batch_entry usage it s) (batch_loop usage mapCoins)"

definition BatchWrite ::
  "(bytes \<Rightarrow> nat) \<Rightarrow> CCoinsMap \<Rightarrow> uint256 \<Rightarrow> 'v CCoinsViewCache \<Rightarrow> coins_error + 'v CCoinsViewCache" where
  "BatchWrite usage mapCoins hashBlockIn s =
     bindE (batch_loop usage mapCoins s) (\<lambda>s. Inr (s\<lparr>hashBlock := hashBlockIn\<rparr>))"

definition Flush ::
  "(CCoinsMap \<Rightarrow> uint256 \<Rightarrow> 'v \<Rightarrow> coins_error + 'v) \<Rightarrow> 'v CCoinsViewCache \<Rightarrow> coins_error + 'v CCoinsViewCache" where
  "Flush batch s =
     bindE (batch (cacheCoins s) (hashBlock s) (base s)) (\<lambda>b. Inr (s\<lparr>base := b, cacheCoins := [], cachedCoinsUsage := 0\<rparr>))"

definition Uncache :: "(bytes \<Rightarrow> nat) \<Rightarrow> COutPoint \<Rightarrow> 'v CCoinsViewCache \<Rightarrow> 'v CCoinsViewCache" where
  "Uncache usage p s =
     (case map_of (cacheCoins s) p of
        Some e \<Rightarrow>
          if \<not> DIRTY e \<and> \<not> FRESH e then
            s\<lparr>cacheCoins := AList.delete p (cacheCoins s), cachedCoinsUsage := cachedCoinsUsage s - Coin_usage usage (coin e)\<rparr>
          else s
      | None \<Rightarrow> s)"

definition GetCacheSize :: "'v CCoinsViewCache \<Rightarrow> nat" where
  "GetCacheSize s = length (cacheCoins s)"

section \<open>Transactions over a cache\<close>

primrec add_coins_loop ::
  "(bytes \<Rightarrow> nat) \<Rightarrow> uint256 \<Rightarrow> nat \<Rightarrow> bool \<Rightarrow> CTxOut list \<Rightarrow> nat \<Rightarrow> 'v CCoinsViewCache \<Rightarrow> coins_error + 'v CCoinsViewCache" where
  "add_coins_loop usage txid height fCoinbase [] i s = Inr s"
| "add_coins_loop usage txid height fCoinbase (txo # txos) i s =
     bindE (AddCoin usage \<lparr>outhash = txid, outn = of_nat i\<rparr> \<lparr>coinOut = txo, fCoinBase = fCoinbase, coinHeight = height\<rparr> fCoinbase s)
       (add_coins_loop usage txid height fCoinbase txos (i + 1))"

definition AddCoins ::
  "(bytes \<Rightarrow> nat) \<Rightarrow> hash_funs \<Rightarrow> CTransaction \<Rightarrow> nat \<Rightarrow> 'v CCoinsViewCache \<Rightarrow> coins_error + 'v CCoinsViewCache" where
  "AddCoins usage H tx height s = add_coins_loop usage (GetHash H tx) height (IsCoinBase tx) (vout tx) 0 s"

primrec value_in_loop ::
  "(bytes \<Rightarrow> nat) \<Rightarrow> 'v coin_getter \<Rightarrow> CTxIn list \<Rightarrow> int \<Rightarrow> 'v CCoinsViewCache \<Rightarrow> int \<times> 'v CCoinsViewCache" where
  "value_in_loop usage get [] nResult s = (nResult, s)"
| "value_in_loop usage get (i # is) nResult s =
     (case AccessCoin usage get (prevout i) s of (c, s') \<Rightarrow> value_in_loop usage get is (nResult + nValue (coinOut c)) s')"

definition GetValueIn ::
  "(bytes \<Rightarrow> nat) \<Rightarrow> 'v coin_getter \<Rightarrow> CTransaction \<Rightarrow> 'v CCoinsViewCache \<Rightarrow> int \<times> 'v CCoinsViewCache" where
  "GetValueIn usage get tx s = (if IsCoinBase tx \<or> HasNoRegularInputs tx then (0, s) else value_in_loop usage get (vin tx) 0 s)"

primrec have_inputs_loop ::
  "(bytes \<Rightarrow> nat) \<Rightarrow> 'v coin_getter \<Rightarrow> CTxIn list \<Rightarrow> 'v CCoinsViewCache \<Rightarrow> bool \<times> 'v CCoinsViewCache" where
  "have_inputs_loop usage get [] s = (True, s)"
| "have_inputs_loop usage get (i # is) s =
     (case HaveCoin usage get (prevout i) s of (have, s') \<Rightarrow> if \<not> have then (False, s') else have_inputs_loop usage get is s')"

definition HaveInputs ::
  "(bytes \<Rightarrow> nat) \<Rightarrow> 'v coin_getter \<Rightarrow> CTransaction \<Rightarrow> 'v CCoinsViewCache \<Rightarrow> bool \<times> 'v CCoinsViewCache" where
  "HaveInputs usage get tx s =
     (if \<not> IsCoinBase tx \<and> \<not> HasNoRegularInputs tx then have_inputs_loop usage get (vin tx) s else (True, s))"

text \<open>The search by transaction hash; the bound is the block size over the size of an empty output (9 bytes).\<close>

abbreviation (input) MAX_OUTPUTS_PER_BLOCK :: nat where "MAX_OUTPUTS_PER_BLOCK \<equiv> 2000000 div 9"

function access_loop ::
  "(bytes \<Rightarrow> nat) \<Rightarrow> 'v coin_getter \<Rightarrow> uint256 \<Rightarrow> nat \<Rightarrow> 'v CCoinsViewCache \<Rightarrow> Coin \<times> 'v CCoinsViewCache" where
  "access_loop usage get txid k s =
     (if k < MAX_OUTPUTS_PER_BLOCK then
        case AccessCoin usage get \<lparr>outhash = txid, outn = of_nat k\<rparr> s of (alternate, s') \<Rightarrow>
          if \<not> IsSpent alternate then (alternate, s') else access_loop usage get txid (k + 1) s'
      else (coinEmpty, s))"
  by auto
termination
  by (relation "measure (\<lambda>(u, g, t, k, s). MAX_OUTPUTS_PER_BLOCK - k)") auto

declare access_loop.simps [simp del]

definition AccessByTxid ::
  "(bytes \<Rightarrow> nat) \<Rightarrow> 'v coin_getter \<Rightarrow> uint256 \<Rightarrow> 'v CCoinsViewCache \<Rightarrow> Coin \<times> 'v CCoinsViewCache" where
  "AccessByTxid usage get txid s = access_loop usage get txid 0 s"

definition ModifyCoin ::
  "(bytes \<Rightarrow> nat) \<Rightarrow> 'v coin_getter \<Rightarrow> COutPoint \<Rightarrow> (Coin \<Rightarrow> Coin) \<Rightarrow> 'v CCoinsViewCache \<Rightarrow> coins_error + 'v CCoinsViewCache" where
  "ModifyCoin usage get p modifier s =
     (case AccessCoin usage get p s of (c, s') \<Rightarrow> AddCoin usage p (modifier c) True s')"

section \<open>What a view promises\<close>

definition shown :: "Coin \<Rightarrow> Coin option" where
  "shown c = (if IsSpent c then None else Some c)"

text \<open>The effect of a batch of entries on the set of unspent outputs, and when a batch may be written.\<close>

definition apply_changes :: "CCoinsMap \<Rightarrow> (COutPoint \<Rightarrow> Coin option) \<Rightarrow> COutPoint \<Rightarrow> Coin option" where
  "apply_changes m u p = (case map_of m p of Some e \<Rightarrow> if DIRTY e then shown (coin e) else u p | None \<Rightarrow> u p)"

lemma apply_changes_simps:
  "apply_changes [] u = u"
  "map_of m p = None \<Longrightarrow> apply_changes ((p, e) # m) u = apply_changes m (if DIRTY e then u(p := shown (coin e)) else u)"
  by (auto simp: apply_changes_def fun_eq_iff split: option.split)

definition changes_ok :: "(COutPoint \<Rightarrow> Coin option) \<Rightarrow> CCoinsMap \<Rightarrow> bool" where
  "changes_ok u m \<longleftrightarrow> distinct (map fst m) \<and> (\<forall>p e. map_of m p = Some e \<longrightarrow> FRESH e \<longrightarrow> u p = None)"

locale coins_view =
  fixes vok :: "'v \<Rightarrow> bool" and utxo :: "'v \<Rightarrow> COutPoint \<Rightarrow> Coin option" and tip :: "'v \<Rightarrow> uint256"
    and get :: "'v coin_getter" and best :: "'v \<Rightarrow> uint256 \<times> 'v"
    and batch :: "CCoinsMap \<Rightarrow> uint256 \<Rightarrow> 'v \<Rightarrow> coins_error + 'v"
  assumes get_keeps: "vok v \<Longrightarrow> vok (snd (get p v)) \<and> utxo (snd (get p v)) = utxo v \<and> tip (snd (get p v)) = tip v"
    and get_value: "vok v \<Longrightarrow> (case fst (get p v) of None \<Rightarrow> None | Some c \<Rightarrow> shown c) = utxo v p"
    and best_keeps: "vok v \<Longrightarrow> vok (snd (best v)) \<and> utxo (snd (best v)) = utxo v \<and> tip (snd (best v)) = tip v"
    and best_value: "vok v \<Longrightarrow> fst (best v) = tip v"
    and batch_writes: "vok v \<Longrightarrow> changes_ok (utxo v) m \<Longrightarrow>
      \<exists>v'. batch m h v = Inr v' \<and> vok v' \<and> utxo v' = apply_changes m (utxo v) \<and> (\<not> IsNull256 h \<longrightarrow> tip v' = h)"
    and utxo_unspent: "vok v \<Longrightarrow> utxo v p = Some c \<Longrightarrow> \<not> IsSpent c"

subsection \<open>The database\<close>

definition db_ok :: "CCoinsViewDB \<Rightarrow> bool" where
  "db_ok db \<longleftrightarrow> (\<forall>p c. map_of (dbCoins db) p = Some c \<longrightarrow> \<not> IsSpent c)"

definition db_utxo :: "CCoinsViewDB \<Rightarrow> COutPoint \<Rightarrow> Coin option" where
  "db_utxo db p = map_of (dbCoins db) p"

definition db_tip :: "CCoinsViewDB \<Rightarrow> uint256" where
  "db_tip db = (case dbBestBlock db of None \<Rightarrow> replicate 32 0 | Some h \<Rightarrow> h)"

lemma map_of_db_write:
  "map_of (db_write it coins) = (if DIRTY (snd it) then (map_of coins)(fst it := shown (coin (snd it))) else map_of coins)"
  by (simp add: db_write_def shown_def update_conv' delete_conv')

lemma fold_db_write:
  "distinct (map fst m) \<Longrightarrow> map_of (fold db_write m coins) = apply_changes m (map_of coins)"
proof (induction m arbitrary: coins)
  case (Cons it m)
  have "map_of m (fst it) = None" using Cons.prems by (simp add: map_of_eq_None_iff)
  with Cons show ?case
    by (cases it) (simp add: apply_changes_simps map_of_db_write)
qed (simp add: apply_changes_simps)

interpretation db: coins_view db_ok db_utxo db_tip DB_GetCoin DB_GetBestBlock DB_BatchWrite
proof
  fix v m h
  assume v: "db_ok v" "changes_ok (db_utxo v) m"
  let ?v = "v\<lparr>dbCoins := fold db_write m (dbCoins v), dbBestBlock := (if \<not> IsNull256 h then Some h else dbBestBlock v)\<rparr>"
  have u: "db_utxo ?v = apply_changes m (db_utxo v)"
    using v(2) fold_db_write [of m "dbCoins v"] by (simp add: db_utxo_def [abs_def] changes_ok_def)
  moreover have "db_ok ?v"
    using v(1) fun_cong [OF u] by (auto simp: db_ok_def db_utxo_def apply_changes_def shown_def split: option.splits if_splits)
  ultimately show "\<exists>v'. DB_BatchWrite m h v = Inr v' \<and> db_ok v' \<and> db_utxo v' = apply_changes m (db_utxo v) \<and>
      (\<not> IsNull256 h \<longrightarrow> db_tip v' = h)"
    by (auto simp: DB_BatchWrite_def db_tip_def)
qed (auto simp: DB_GetCoin_def DB_GetBestBlock_def db_utxo_def db_tip_def db_ok_def shown_def split: option.splits)

section \<open>Caches over a view\<close>

definition entry_ok :: "Coin option \<Rightarrow> CCoinsCacheEntry \<Rightarrow> bool" where
  "entry_ok b e \<longleftrightarrow> (FRESH e \<longrightarrow> b = None) \<and> (\<not> DIRTY e \<longrightarrow> shown (coin e) = b)"

definition usage_sum :: "(bytes \<Rightarrow> nat) \<Rightarrow> CCoinsMap \<Rightarrow> int" where
  "usage_sum usage m = sum_list (map (\<lambda>it. Coin_usage usage (coin (snd it))) m)"

definition cache_ok :: "(bytes \<Rightarrow> nat) \<Rightarrow> ('v \<Rightarrow> bool) \<Rightarrow> ('v \<Rightarrow> COutPoint \<Rightarrow> Coin option) \<Rightarrow> 'v CCoinsViewCache \<Rightarrow> bool" where
  "cache_ok usage vok utxo s \<longleftrightarrow>
     vok (base s) \<and> distinct (map fst (cacheCoins s)) \<and>
     (\<forall>p e. map_of (cacheCoins s) p = Some e \<longrightarrow> entry_ok (utxo (base s) p) e) \<and>
     cachedCoinsUsage s = usage_sum usage (cacheCoins s)"

definition cache_utxo :: "('v \<Rightarrow> COutPoint \<Rightarrow> Coin option) \<Rightarrow> 'v CCoinsViewCache \<Rightarrow> COutPoint \<Rightarrow> Coin option" where
  "cache_utxo utxo s p = (case map_of (cacheCoins s) p of Some e \<Rightarrow> shown (coin e) | None \<Rightarrow> utxo (base s) p)"

definition cache_tip :: "('v \<Rightarrow> uint256) \<Rightarrow> 'v CCoinsViewCache \<Rightarrow> uint256" where
  "cache_tip tip s = (if IsNull256 (hashBlock s) then tip (base s) else hashBlock s)"

lemma usage_sum_update:
  "distinct (map fst m) \<Longrightarrow> usage_sum usage (AList.update p e m) =
    usage_sum usage m - (case map_of m p of Some e0 \<Rightarrow> Coin_usage usage (coin e0) | None \<Rightarrow> 0) + Coin_usage usage (coin e)"
  by (induction m) (auto simp: usage_sum_def split: option.splits simp: map_of_eq_None_iff dest: map_of_SomeD)

lemma usage_sum_delete:
  "distinct (map fst m) \<Longrightarrow> usage_sum usage (AList.delete p m) =
    usage_sum usage m - (case map_of m p of Some e0 \<Rightarrow> Coin_usage usage (coin e0) | None \<Rightarrow> 0)"
proof (induction m)
  case (Cons it m)
  then show ?case
    by (cases it) (auto simp: usage_sum_def delete_id map_of_eq_None_iff split: option.splits)
qed (simp add: usage_sum_def)

lemma shown_simps [simp]: "shown (Coin_Clear c) = None" "shown coinEmpty = None" "\<not> IsSpent c \<Longrightarrow> shown c = Some c"
  "IsSpent c \<Longrightarrow> shown c = None"
  by (simp_all add: shown_def Coin_Clear_def coinEmpty_def IsSpent_def TxOut_IsNull_def TxOut_null_def)

lemma cleared_usage: "usage [] = 0 \<Longrightarrow> Coin_usage usage (Coin_Clear c) = 0"
  by (simp add: Coin_usage_def Coin_Clear_def TxOut_null_def)

lemmas cache_defs = cache_ok_def cache_utxo_def cache_tip_def

text \<open>A change of one entry of the cache: the invariant and the abstract set after it.\<close>

lemma cache_update:
  assumes "cache_ok usage vok utxo s" "entry_ok (utxo (base s) p) e"
  defines "s' \<equiv> s\<lparr>cacheCoins := AList.update p e (cacheCoins s), cachedCoinsUsage := cachedCoinsUsage s -
      (case map_of (cacheCoins s) p of Some e0 \<Rightarrow> Coin_usage usage (coin e0) | None \<Rightarrow> 0) + Coin_usage usage (coin e)\<rparr>"
  shows "cache_ok usage vok utxo s'" "cache_utxo utxo s' = (cache_utxo utxo s)(p := shown (coin e))" "cache_tip tip s' = cache_tip tip s"
  using assms(1,2) unfolding s'_def
  by (auto simp: cache_defs update_conv' usage_sum_update fun_eq_iff distinct_update split: if_splits option.split)

lemma cache_delete:
  assumes "cache_ok usage vok utxo s" "utxo (base s) p = b"
  defines "s' \<equiv> s\<lparr>cacheCoins := AList.delete p (cacheCoins s), cachedCoinsUsage := cachedCoinsUsage s -
      (case map_of (cacheCoins s) p of Some e0 \<Rightarrow> Coin_usage usage (coin e0) | None \<Rightarrow> 0)\<rparr>"
  shows "cache_ok usage vok utxo s'" "cache_utxo utxo s' = (cache_utxo utxo s)(p := b)" "cache_tip tip s' = cache_tip tip s"
  using assms(1,2) unfolding s'_def
  by (auto simp: cache_defs delete_conv' usage_sum_delete fun_eq_iff distinct_delete split: if_splits option.split)

lemma cache_entry_ok: "cache_ok usage vok utxo s \<Longrightarrow> map_of (cacheCoins s) p = Some e \<Longrightarrow> entry_ok (utxo (base s) p) e"
  by (simp add: cache_ok_def)

lemma cache_hash_simps [simp]:
  "cache_ok usage vok utxo (s\<lparr>hashBlock := h\<rparr>) = cache_ok usage vok utxo s"
  "cache_utxo utxo (s\<lparr>hashBlock := h\<rparr>) = cache_utxo utxo s"
  "\<not> IsNull256 h \<Longrightarrow> cache_tip tip (s\<lparr>hashBlock := h\<rparr>) = h"
  by (simp_all add: cache_defs fun_eq_iff split: option.split)

context coins_view
begin

lemma fetch_found:
  assumes s: "cache_ok usage vok utxo s" and f: "FetchCoin usage get p s = (r, s')"
  shows "cache_ok usage vok utxo s' \<and> cache_utxo utxo s' = cache_utxo utxo s \<and> cache_tip tip s' = cache_tip tip s \<and>
    map_of (cacheCoins s') p = r \<and> (case r of None \<Rightarrow> None | Some e \<Rightarrow> shown (coin e)) = cache_utxo utxo s p"
proof (cases "map_of (cacheCoins s) p")
  case (Some e)
  then have "r = Some e" "s' = s" using f by (simp_all add: FetchCoin_def)
  with s Some show ?thesis by (simp add: cache_utxo_def)
next
  case None
  obtain g b where g: "get p (base s) = (g, b)" by (cases "get p (base s)")
  have "vok (base s)" using s by (simp add: cache_ok_def)
  from get_keeps [OF this, of p] get_value [OF this, of p] g
  have b: "vok b" "utxo b = utxo (base s)" "tip b = tip (base s)" "(case g of None \<Rightarrow> None | Some c \<Rightarrow> shown c) = utxo (base s) p" by simp_all
  let ?s = "s\<lparr>base := b\<rparr>"
  have s1: "cache_ok usage vok utxo ?s" "cache_utxo utxo ?s = cache_utxo utxo s" "cache_tip tip ?s = cache_tip tip s"
    using s b by (auto simp: cache_defs fun_eq_iff split: option.split)
  have u: "cache_utxo utxo s p = utxo (base s) p" using None by (simp add: cache_utxo_def)
  show ?thesis
  proof (cases g)
    case N: None
    with f None g have "r = None" "s' = ?s" by (simp_all add: FetchCoin_def)
    with s1 b(4) None u N show ?thesis by simp
  next
    case (Some c)
    let ?e = "\<lparr>coin = c, DIRTY = False, FRESH = IsSpent c\<rparr>"
    have "entry_ok (utxo (base ?s) p) ?e" using b Some by (auto simp: entry_ok_def shown_def split: if_splits)
    from cache_update [OF s1(1) this] f None g Some b(4) s1 u show ?thesis
      by (auto simp: FetchCoin_def Let_def fun_eq_iff update_conv')
  qed
qed

lemma get_reads:
  assumes "cache_ok usage vok utxo s"
  shows "cache_ok usage vok utxo (snd (GetCoin usage get p s)) \<and> cache_utxo utxo (snd (GetCoin usage get p s)) = cache_utxo utxo s \<and>
    cache_tip tip (snd (GetCoin usage get p s)) = cache_tip tip s \<and>
    (case fst (GetCoin usage get p s) of None \<Rightarrow> None | Some c \<Rightarrow> shown c) = cache_utxo utxo s p"
  using fetch_found [OF assms, of p] by (auto simp: GetCoin_def split: prod.splits option.splits)

lemma access_reads:
  assumes "cache_ok usage vok utxo s"
  shows "cache_ok usage vok utxo (snd (AccessCoin usage get p s)) \<and> cache_utxo utxo (snd (AccessCoin usage get p s)) = cache_utxo utxo s \<and>
    shown (fst (AccessCoin usage get p s)) = cache_utxo utxo s p"
  using fetch_found [OF assms, of p] by (auto simp: AccessCoin_def split: prod.splits option.splits)

lemma have_reads:
  assumes "cache_ok usage vok utxo s"
  shows "cache_ok usage vok utxo (snd (HaveCoin usage get p s)) \<and> cache_utxo utxo (snd (HaveCoin usage get p s)) = cache_utxo utxo s \<and>
    (fst (HaveCoin usage get p s) \<longleftrightarrow> cache_utxo utxo s p \<noteq> None)"
proof -
  obtain r s' where f: "FetchCoin usage get p s = (r, s')" by (cases "FetchCoin usage get p s")
  note ff = fetch_found [OF assms f]
  then have "cache_utxo utxo s p = (case r of None \<Rightarrow> None | Some e \<Rightarrow> shown (coin e))" by simp
  with ff f show ?thesis by (cases r) (auto simp: HaveCoin_def shown_def)
qed

lemma add_adds:
  assumes s: "cache_ok usage vok utxo s" and c: "\<not> IsSpent c" and o: "ow \<or> cache_utxo utxo s p = None"
  shows "\<exists>s'. AddCoin usage p c ow s = Inr s' \<and> cache_ok usage vok utxo s' \<and> cache_tip tip s' = cache_tip tip s \<and>
    cache_utxo utxo s' = (if IsUnspendable (scriptPubKey (coinOut c)) then cache_utxo utxo s else (cache_utxo utxo s)(p \<mapsto> c))"
proof (cases "IsUnspendable (scriptPubKey (coinOut c))")
  case False
  let ?it = "case map_of (cacheCoins s) p of Some e \<Rightarrow> e | None \<Rightarrow> \<lparr>coin = coinEmpty, DIRTY = False, FRESH = False\<rparr>"
  let ?e = "?it\<lparr>coin := c, DIRTY := True, FRESH := FRESH ?it \<or> (if \<not> ow then \<not> DIRTY ?it else False)\<rparr>"
  have ok: "entry_ok (utxo (base s) p) ?e"
    using cache_entry_ok [OF s, of p] o
    by (cases "map_of (cacheCoins s) p") (auto simp: entry_ok_def cache_utxo_def split: if_splits)
  have n: "\<not> (\<not> ow \<and> \<not> IsSpent (coin ?it))"
    using o by (cases "map_of (cacheCoins s) p") (auto simp: cache_utxo_def shown_def coinEmpty_def IsSpent_def TxOut_null_def TxOut_IsNull_def)
  from cache_update [OF s ok] c False n show ?thesis
    by (cases "map_of (cacheCoins s) p") (auto simp: AddCoin_def Let_def)
qed (use assms in \<open>auto simp: AddCoin_def\<close>)

lemma spend_spends:
  assumes s: "cache_ok usage vok utxo s" and u: "usage [] = 0"
  shows "cache_ok usage vok utxo (snd (SpendCoin usage get p s)) \<and>
    cache_utxo utxo (snd (SpendCoin usage get p s)) = (cache_utxo utxo s)(p := None) \<and>
    cache_tip tip (snd (SpendCoin usage get p s)) = cache_tip tip s \<and>
    (case fst (SpendCoin usage get p s) of None \<Rightarrow> None | Some c \<Rightarrow> shown c) = cache_utxo utxo s p"
proof -
  obtain r s1 where f: "FetchCoin usage get p s = (r, s1)" by (cases "FetchCoin usage get p s")
  note ff = fetch_found [OF s f]
  show ?thesis
  proof (cases r)
    case None
    with ff f show ?thesis by (auto simp: SpendCoin_def fun_eq_iff)
  next
    case (Some e)
    then have m: "map_of (cacheCoins s1) p = Some e" and s1: "cache_ok usage vok utxo s1" using ff by simp_all
    from cache_entry_ok [OF s1 m] have e: "entry_ok (utxo (base s1) p) e" .
    show ?thesis
    proof (cases "FRESH e")
      case True
      then have "utxo (base s1) p = None" using e by (simp add: entry_ok_def)
      from cache_delete [OF s1 this] ff f Some True m show ?thesis by (simp add: SpendCoin_def Let_def)
    next
      case False
      let ?e = "e\<lparr>coin := Coin_Clear (coin e), DIRTY := True\<rparr>"
      have "entry_ok (utxo (base s1) p) ?e" using e False by (simp add: entry_ok_def)
      from cache_update [OF s1 this] ff f Some False m cleared_usage [where usage = usage, OF u, of "coin e"] show ?thesis
        by (simp add: SpendCoin_def Let_def)
    qed
  qed
qed

lemma uncache_keeps:
  assumes s: "cache_ok usage vok utxo s"
  shows "cache_ok usage vok utxo (Uncache usage p s) \<and> cache_utxo utxo (Uncache usage p s) = cache_utxo utxo s"
proof (cases "map_of (cacheCoins s) p")
  case (Some e)
  show ?thesis
  proof (cases "\<not> DIRTY e \<and> \<not> FRESH e")
    case True
    then have "utxo (base s) p = shown (coin e)" using cache_entry_ok [OF s Some] by (simp add: entry_ok_def)
    from cache_delete [OF s this] True Some show ?thesis by (simp add: Uncache_def cache_utxo_def fun_eq_iff)
  qed (use s Some in \<open>auto simp: Uncache_def\<close>)
qed (use s in \<open>simp add: Uncache_def\<close>)

lemma batch_entry_writes:
  assumes s: "cache_ok usage vok utxo s" and f: "FRESH e \<Longrightarrow> cache_utxo utxo s p = None"
  shows "\<exists>s'. batch_entry usage (p, e) s = Inr s' \<and> cache_ok usage vok utxo s' \<and>
    cache_utxo utxo s' = (if DIRTY e then (cache_utxo utxo s)(p := shown (coin e)) else cache_utxo utxo s)"
proof (cases "DIRTY e")
  case d: True
  show ?thesis
  proof (cases "map_of (cacheCoins s) p")
    case None
    then have b: "cache_utxo utxo s p = utxo (base s) p" by (simp add: cache_utxo_def)
    let ?e = "\<lparr>coin = coin e, DIRTY = True, FRESH = FRESH e\<rparr>"
    have "entry_ok (utxo (base s) p) ?e" using f b by (simp add: entry_ok_def)
    from cache_update [OF s this] None d f s show ?thesis by (auto simp: batch_entry_def fun_eq_iff)
  next
    case (Some us)
    note us = cache_entry_ok [OF s Some]
    have m: "\<not> (FRESH e \<and> \<not> IsSpent (coin us))" using f Some by (auto simp: cache_utxo_def shown_def split: if_splits)
    show ?thesis
    proof (cases "FRESH us \<and> IsSpent (coin e)")
      case True
      then have "utxo (base s) p = None" using us by (simp add: entry_ok_def)
      from cache_delete [OF s this] Some d m True show ?thesis by (auto simp: batch_entry_def)
    next
      case False
      have "entry_ok (utxo (base s) p) (us\<lparr>coin := coin e, DIRTY := True\<rparr>)" using us by (simp add: entry_ok_def)
      from cache_update [OF s this] Some d m False show ?thesis by (auto simp: batch_entry_def)
    qed
  qed
qed (use s in \<open>simp add: batch_entry_def\<close>)

lemma batch_loop_writes:
  assumes "cache_ok usage vok utxo s" "changes_ok (cache_utxo utxo s) m"
  shows "\<exists>s'. batch_loop usage m s = Inr s' \<and> cache_ok usage vok utxo s' \<and> cache_utxo utxo s' = apply_changes m (cache_utxo utxo s)"
  using assms
proof (induction m arbitrary: s)
  case (Cons it m)
  obtain p e where it: "it = (p, e)" by (cases it)
  have n: "map_of m p = None" using Cons.prems(2) by (simp add: it changes_ok_def map_of_eq_None_iff)
  have f: "FRESH e \<Longrightarrow> cache_utxo utxo s p = None" using Cons.prems(2) by (auto simp: it changes_ok_def split: if_splits)
  obtain s1 where s1: "batch_entry usage it s = Inr s1" "cache_ok usage vok utxo s1"
    "cache_utxo utxo s1 = (if DIRTY e then (cache_utxo utxo s)(p := shown (coin e)) else cache_utxo utxo s)"
    using batch_entry_writes [OF Cons.prems(1) f] by (auto simp: it)
  have "changes_ok (cache_utxo utxo s1) m" using Cons.prems(2) n s1(3) by (auto simp: it changes_ok_def split: if_splits)
  from Cons.IH [OF s1(2) this] s1 n show ?case by (auto simp: it apply_changes_simps)
qed (simp add: apply_changes_simps)

lemma cache_changes_ok: "cache_ok usage vok utxo s \<Longrightarrow> changes_ok (utxo (base s)) (cacheCoins s)"
  by (simp add: cache_ok_def changes_ok_def entry_ok_def)

lemma flush_changes: "cache_ok usage vok utxo s \<Longrightarrow> apply_changes (cacheCoins s) (utxo (base s)) = cache_utxo utxo s"
  by (auto simp: apply_changes_def cache_utxo_def fun_eq_iff cache_ok_def entry_ok_def split: option.split)

lemma flush_writes:
  assumes s: "cache_ok usage vok utxo s"
  shows "\<exists>s'. Flush batch s = Inr s' \<and> cache_ok usage vok utxo s' \<and> cache_utxo utxo s' = cache_utxo utxo s \<and>
    utxo (base s') = cache_utxo utxo s \<and> GetCacheSize s' = 0 \<and> (\<not> IsNull256 (hashBlock s) \<longrightarrow> tip (base s') = hashBlock s)"
proof -
  have "vok (base s)" using s by (simp add: cache_ok_def)
  from batch_writes [OF this cache_changes_ok [OF s], of "hashBlock s"] obtain b where
    b: "batch (cacheCoins s) (hashBlock s) (base s) = Inr b" "vok b" "utxo b = cache_utxo utxo s"
      "\<not> IsNull256 (hashBlock s) \<longrightarrow> tip b = hashBlock s"
    using flush_changes [OF s] by auto
  then show ?thesis by (auto simp: Flush_def cache_ok_def usage_sum_def GetCacheSize_def cache_utxo_def fun_eq_iff)
qed

lemma cache_is_view:
  "coins_view (cache_ok usage vok utxo) (cache_utxo utxo) (cache_tip tip) (GetCoin usage get) (GetBestBlock best) (BatchWrite usage)"
proof
  fix s p h m c
  assume s: "cache_ok usage vok utxo s"
  then show "cache_ok usage vok utxo (snd (GetCoin usage get p s)) \<and> cache_utxo utxo (snd (GetCoin usage get p s)) = cache_utxo utxo s \<and>
      cache_tip tip (snd (GetCoin usage get p s)) = cache_tip tip s"
    "(case fst (GetCoin usage get p s) of None \<Rightarrow> None | Some c \<Rightarrow> shown c) = cache_utxo utxo s p"
    using get_reads [of usage s p] by blast+
  have b: "vok (base s)" using s by (simp add: cache_ok_def)
  from s best_keeps [OF b] best_value [OF b]
  show "cache_ok usage vok utxo (snd (GetBestBlock best s)) \<and> cache_utxo utxo (snd (GetBestBlock best s)) = cache_utxo utxo s \<and>
      cache_tip tip (snd (GetBestBlock best s)) = cache_tip tip s" "fst (GetBestBlock best s) = cache_tip tip s"
    by (auto simp: GetBestBlock_def cache_defs fun_eq_iff split: prod.splits option.split)
  show "\<not> IsSpent c" if "cache_utxo utxo s p = Some c"
    using that utxo_unspent [OF b, of p c] by (auto simp: cache_utxo_def shown_def split: option.splits if_splits)
  assume "changes_ok (cache_utxo utxo s) m"
  from batch_loop_writes [OF s this]
  show "\<exists>s'. BatchWrite usage m h s = Inr s' \<and> cache_ok usage vok utxo s' \<and> cache_utxo utxo s' = apply_changes m (cache_utxo utxo s) \<and>
      (\<not> IsNull256 h \<longrightarrow> cache_tip tip s' = h)"
    by (auto simp: BatchWrite_def)
qed

end

section \<open>The views of the program\<close>

text \<open>The memory that a script of a given size takes on a 64-bit system, for a buffer without spare capacity.\<close>

definition MallocUsage :: "nat \<Rightarrow> nat" where
  "MallocUsage alloc = (if alloc = 0 then 0 else push_bit 4 (drop_bit 4 (alloc + 31)))"

definition script_usage :: "bytes \<Rightarrow> nat" where
  "script_usage v = MallocUsage (if length v \<le> 28 then 0 else length v)"

lemma script_usage_empty: "script_usage [] = 0"
  by (simp add: script_usage_def MallocUsage_def)

interpretation cache: coins_view "cache_ok script_usage db_ok db_utxo" "cache_utxo db_utxo" "cache_tip db_tip"
  "GetCoin script_usage DB_GetCoin" "GetBestBlock DB_GetBestBlock" "BatchWrite script_usage"
  by (rule db.cache_is_view)

interpretation cache2: coins_view "cache_ok script_usage (cache_ok script_usage db_ok db_utxo) (cache_utxo db_utxo)"
  "cache_utxo (cache_utxo db_utxo)" "cache_tip (cache_tip db_tip)" "GetCoin script_usage (GetCoin script_usage DB_GetCoin)"
  "GetBestBlock (GetBestBlock DB_GetBestBlock)" "BatchWrite script_usage"
  by (rule cache.cache_is_view)

lemma new_cache_ok: "vok b \<Longrightarrow> cache_ok usage vok utxo (new_cache b)" "cache_utxo utxo (new_cache b) = utxo b"
  by (simp_all add: new_cache_def cache_defs usage_sum_def fun_eq_iff)

section \<open>Properties\<close>

text \<open>C6. A cache over the database implements the set of unspent outputs. On every cache that satisfies the
  invariant of the flags and of the memory count: reading returns the coin of the set and changes nothing;
  adding an unspent coin (where it replaces none, or replacement is announced) inserts it unless its script
  is unspendable; spending removes it and returns it; dropping an unmodified entry changes nothing; and all
  keep the invariant.\<close>

theorem coins_cache_refines_set:
  assumes "cache_ok script_usage db_ok db_utxo s"
  shows "(\<exists>c s'. AccessCoin script_usage DB_GetCoin p s = (c, s') \<and> cache_ok script_usage db_ok db_utxo s' \<and>
      cache_utxo db_utxo s' = cache_utxo db_utxo s \<and> shown c = cache_utxo db_utxo s p) \<and>
    (\<not> IsSpent c \<and> (ow \<or> cache_utxo db_utxo s p = None) \<longrightarrow>
      (\<exists>s'. AddCoin script_usage p c ow s = Inr s' \<and> cache_ok script_usage db_ok db_utxo s' \<and> cache_utxo db_utxo s' =
        (if IsUnspendable (scriptPubKey (coinOut c)) then cache_utxo db_utxo s else (cache_utxo db_utxo s)(p \<mapsto> c)))) \<and>
    (\<exists>r s'. SpendCoin script_usage DB_GetCoin p s = (r, s') \<and> cache_ok script_usage db_ok db_utxo s' \<and>
      cache_utxo db_utxo s' = (cache_utxo db_utxo s)(p := None) \<and>
      (case r of None \<Rightarrow> None | Some c \<Rightarrow> shown c) = cache_utxo db_utxo s p) \<and>
    cache_ok script_usage db_ok db_utxo (Uncache script_usage p s) \<and>
    cache_utxo db_utxo (Uncache script_usage p s) = cache_utxo db_utxo s"
  using db.access_reads [OF assms, of p] db.add_adds [OF assms, of c ow p] db.spend_spends [OF assms script_usage_empty, of p]
    db.uncache_keeps [OF assms, of p]
  by (cases "AccessCoin script_usage DB_GetCoin p s"; cases "SpendCoin script_usage DB_GetCoin p s") auto

definition demo_coin :: Coin where
  "demo_coin = \<lparr>coinOut = \<lparr>nValue = 5, scriptPubKey = [OP_1], nRounds = - 10\<rparr>, fCoinBase = False, coinHeight = 7\<rparr>"

theorem coins_cache_refines_set_witness:
  "\<exists>s'. AddCoin script_usage \<lparr>outhash = replicate 32 1, outn = 0\<rparr> demo_coin False (new_cache \<lparr>dbCoins = [], dbBestBlock = None\<rparr>) = Inr s' \<and>
    cache_utxo db_utxo s' \<lparr>outhash = replicate 32 1, outn = 0\<rparr> = Some demo_coin"
proof -
  let ?db = "\<lparr>dbCoins = [], dbBestBlock = None\<rparr>"
  have "cache_ok script_usage db_ok db_utxo (new_cache ?db)" by (rule new_cache_ok) (simp add: db_ok_def)
  from coins_cache_refines_set [OF this, of "\<lparr>outhash = replicate 32 1, outn = 0\<rparr>" demo_coin False] show ?thesis
    by (auto simp: new_cache_ok db_utxo_def demo_coin_def IsSpent_def TxOut_IsNull_def IsUnspendable_def)
qed

text \<open>C8. Flushing a cache into the cache below it never throws, moves every change down, and leaves an empty
  cache: afterwards the parent represents what the child represented, the child still does, both satisfy
  their invariants, and the parent has the child's best block when the child has one.\<close>

theorem coins_flush_moves_down:
  assumes "cache_ok script_usage (cache_ok script_usage db_ok db_utxo) (cache_utxo db_utxo) s"
  shows "\<exists>s'. Flush (BatchWrite script_usage) s = Inr s' \<and>
    cache_ok script_usage (cache_ok script_usage db_ok db_utxo) (cache_utxo db_utxo) s' \<and>
    cache_utxo (cache_utxo db_utxo) s' = cache_utxo (cache_utxo db_utxo) s \<and>
    cache_utxo db_utxo (base s') = cache_utxo (cache_utxo db_utxo) s \<and> GetCacheSize s' = 0 \<and>
    (\<not> IsNull256 (hashBlock s) \<longrightarrow> cache_tip db_tip (base s') = hashBlock s)"
  by (rule cache.flush_writes [OF assms])

theorem coins_flush_moves_down_witness:
  "\<exists>s'. Flush (BatchWrite script_usage) (new_cache (new_cache \<lparr>dbCoins = [], dbBestBlock = None\<rparr>)) = Inr s' \<and> GetCacheSize s' = 0"
proof -
  have "cache_ok script_usage (cache_ok script_usage db_ok db_utxo) (cache_utxo db_utxo)
      (new_cache (new_cache \<lparr>dbCoins = [], dbBestBlock = None\<rparr>))"
    by (intro new_cache_ok) (simp add: db_ok_def)
  from coins_flush_moves_down [OF this] show ?thesis by blast
qed

end
