(* ===== verification/Chain.thy ===== *)
theory Chain
  imports Pow
begin

text \<open>
  The tree of block headers and the active chain (\<open>src/src/chain.h\<close>, \<open>chain.cpp\<close>, and \<open>AddToBlockIndex\<close> of
  \<open>validation.cpp\<close>). Block index objects live at addresses of a store; \<open>pprev\<close> and \<open>pskip\<close> are pointers (\<open>None\<close>
  is \<open>NULL\<close>). \<open>up\<close> is the plain walk along \<open>pprev\<close>, the reference for the skip list: \<open>index_ok\<close> says that the
  objects of a set are linked as the code keeps them. Loops that follow pointers are partial functions
  (\<open>None\<close> is a run that never ends) and are shown to return on well-linked stores.
\<close>

section \<open>Block index\<close>

type_synonym addr = nat

record block_index = CBlockIndex +
  phashBlock :: bytes
  pprev :: "addr option"
  pskip :: "addr option"
  blkVersion :: int
  nTimeMax :: u32
  nChainWork :: limbs
  nStatus :: u32

type_synonym store = "addr \<Rightarrow> block_index"

datatype chain_error = AssertPrev | AssertStatus | OutOfRange | DivByZero | NullDeref

abbreviation (input) BLOCK_VALID_TREE :: u32 where "BLOCK_VALID_TREE \<equiv> 2"
abbreviation (input) BLOCK_VALID_MASK :: u32 where "BLOCK_VALID_MASK \<equiv> 7"
abbreviation (input) BLOCK_FAILED_MASK :: u32 where "BLOCK_FAILED_MASK \<equiv> 96"

definition GetBlockTimeMax :: "block_index \<Rightarrow> int" where
  "GetBlockTimeMax b = uint (nTimeMax b)"

definition IsValid :: "u32 \<Rightarrow> block_index \<Rightarrow> chain_error + bool" where
  "IsValid nUpTo b =
     (if nUpTo AND NOT BLOCK_VALID_MASK \<noteq> 0 then Inl AssertStatus
      else Inr (nStatus b AND BLOCK_FAILED_MASK = 0 \<and> nUpTo \<le> nStatus b AND BLOCK_VALID_MASK))"

definition RaiseValidity :: "u32 \<Rightarrow> block_index \<Rightarrow> chain_error + bool \<times> block_index" where
  "RaiseValidity nUpTo b =
     (if nUpTo AND NOT BLOCK_VALID_MASK \<noteq> 0 then Inl AssertStatus
      else if nStatus b AND BLOCK_FAILED_MASK \<noteq> 0 then Inr (False, b)
      else if nStatus b AND BLOCK_VALID_MASK < nUpTo
      then Inr (True, b\<lparr>nStatus := (nStatus b AND NOT BLOCK_VALID_MASK) OR nUpTo\<rparr>)
      else Inr (False, b))"

text \<open>The median of the times of up to eleven blocks.\<close>

primrec past_times :: "store \<Rightarrow> nat \<Rightarrow> addr option \<Rightarrow> int list" where
  "past_times B 0 pindex = []"
| "past_times B (Suc i) pindex =
     (case pindex of None \<Rightarrow> [] | Some p \<Rightarrow> past_times B i (pprev (B p)) @ [GetBlockTime (B p)])"

definition GetMedianTimePast :: "store \<Rightarrow> addr \<Rightarrow> int" where
  "GetMedianTimePast B p = (let pmedian = sort (past_times B 11 (Some p)) in pmedian ! (length pmedian div 2))"

section \<open>Skip list\<close>

text \<open>Heights inside the loop are not negative: \<open>GetAncestor\<close> rejects a negative height first.\<close>

definition InvertLowestOne :: "nat \<Rightarrow> nat" where
  "InvertLowestOne n = n AND (n - 1)"

definition GetSkipHeight :: "nat \<Rightarrow> nat" where
  "GetSkipHeight h =
     (if h < 2 then 0
      else if h AND 1 \<noteq> 0 then InvertLowestOne (InvertLowestOne (h - 1)) + 1 else InvertLowestOne h)"

lemma InvertLowestOne_le: "InvertLowestOne n \<le> n - 1"
proof -
  have "int (n AND (n - 1)) \<le> int (n - 1)" unfolding of_nat_and_eq by (rule AND_upper2) simp
  then show ?thesis by (simp add: InvertLowestOne_def)
qed

lemma GetSkipHeight_less: "0 < h \<Longrightarrow> GetSkipHeight h < h"
  using InvertLowestOne_le [of h] InvertLowestOne_le [of "h - 1"] InvertLowestOne_le [of "InvertLowestOne (h - 1)"]
  by (auto simp: GetSkipHeight_def)

function ancestor_loop :: "store \<Rightarrow> nat \<Rightarrow> addr \<Rightarrow> nat \<Rightarrow> chain_error + addr" where
  "ancestor_loop B h pindexWalk heightWalk =
     (if heightWalk > h then
        let heightSkip = GetSkipHeight heightWalk; heightSkipPrev = GetSkipHeight (heightWalk - 1)
        in if pskip (B pindexWalk) \<noteq> None \<and>
              (heightSkip = h \<or> heightSkip > h \<and> \<not> (heightSkipPrev + 2 < heightSkip \<and> heightSkipPrev \<ge> h))
           then ancestor_loop B h (the (pskip (B pindexWalk))) heightSkip
           else (case pprev (B pindexWalk) of
                   None \<Rightarrow> Inl AssertPrev
                 | Some q \<Rightarrow> ancestor_loop B h q (heightWalk - 1))
      else Inr pindexWalk)"
  by auto
termination
  by (relation "measure (\<lambda>(B, h, p, w). w)") (auto simp: GetSkipHeight_less)

declare ancestor_loop.simps [simp del]

definition GetAncestor :: "store \<Rightarrow> int \<Rightarrow> addr \<Rightarrow> chain_error + addr option" where
  "GetAncestor B h p =
     (if h > nHeight (B p) \<or> h < 0 then Inr None
      else bindE (ancestor_loop B (nat h) p (nat (nHeight (B p)))) (\<lambda>q. Inr (Some q)))"

definition BuildSkip :: "store \<Rightarrow> addr \<Rightarrow> chain_error + store" where
  "BuildSkip B p =
     (case pprev (B p) of
        None \<Rightarrow> Inr B
      | Some q \<Rightarrow> bindE (GetAncestor B (int (GetSkipHeight (nat (nHeight (B p))))) q) (\<lambda>a.
                    Inr (B(p := (B p)\<lparr>pskip := a\<rparr>))))"

section \<open>New headers\<close>

record CBlockHeader =
  hdrVersion :: int
  hashPrevBlock :: bytes
  hashMerkleRoot :: bytes
  hdrTime :: u32
  hdrBits :: u32
  hdrNonce :: u32
  hdrHeight :: u32
  nNonce64 :: u64
  mix_hash :: bytes
  cachedPoWHash :: bytes

text \<open>The version is \<open>CURRENT_VERSION\<close> (2) with the chain identifier (5) in the upper half.\<close>

definition Header_SetNull :: CBlockHeader where
  "Header_SetNull = \<lparr>hdrVersion = 2 + 5 * 0x10000, hashPrevBlock = replicate 32 0, hashMerkleRoot = replicate 32 0, hdrTime = 0, hdrBits = 0,
     hdrNonce = 0, hdrHeight = 0, nNonce64 = 0, mix_hash = replicate 32 0, cachedPoWHash = replicate 32 0\<rparr>"

text \<open>
  The index of all headers: the store, the map from hashes to objects, the best header and the first address
  not in use. The hash of a header (ProgPoW) is a parameter.
\<close>

record block_tree =
  blocks :: store
  mapBlockIndex :: "bytes \<Rightarrow> addr option"
  pindexBestHeader :: "addr option"
  nextAddr :: addr

definition new_block_index :: "CBlockHeader \<Rightarrow> bytes \<Rightarrow> block_index" where
  "new_block_index block hash =
     \<lparr>nHeight = sint (hdrHeight block), nTime = hdrTime block, nBits = hdrBits block, phashBlock = hash, pprev = None, pskip = None,
      blkVersion = hdrVersion block, nTimeMax = 0, nChainWork = base_uint_of_u64 8 0, nStatus = 0\<rparr>"

definition AddToBlockIndex :: "(CBlockHeader \<Rightarrow> bytes) \<Rightarrow> CBlockHeader \<Rightarrow> block_tree \<Rightarrow> chain_error + addr \<times> block_tree" where
  "AddToBlockIndex hdrHash block T =
     (let hash = hdrHash block
      in case mapBlockIndex T hash of
        Some p \<Rightarrow> Inr (p, T)
      | None \<Rightarrow>
         let p = nextAddr T; m = (mapBlockIndex T)(hash \<mapsto> p); prev = m (hashPrevBlock block);
             B = (blocks T)(p := new_block_index block hash)
         in bindE (case prev of
                     None \<Rightarrow> Inr B
                   | Some q \<Rightarrow> BuildSkip (B(p := (B p)\<lparr>pprev := Some q, nHeight := nHeight (B q) + 1\<rparr>)) p) (\<lambda>B.
            let b = (B p)\<lparr>nTimeMax := (case prev of Some q \<Rightarrow> max (nTimeMax (B q)) (nTime (B p)) | None \<Rightarrow> nTime (B p))\<rparr>
            in case GetBlockProof (nBits b) of
                 None \<Rightarrow> Inl DivByZero
               | Some work \<Rightarrow>
                   let b = b\<lparr>nChainWork := add_uint (case prev of Some q \<Rightarrow> nChainWork (B q) | None \<Rightarrow> base_uint_of_u64 8 0) work\<rparr>
                   in bindE (RaiseValidity BLOCK_VALID_TREE b) (\<lambda>(_, b).
                      Inr (p, T\<lparr>blocks := B(p := b), mapBlockIndex := m, nextAddr := p + 1,
                                pindexBestHeader :=
                                  (case pindexBestHeader T of
                                     None \<Rightarrow> Some p
                                   | Some best \<Rightarrow> if CompareTo (nChainWork (B best)) (nChainWork b) < 0 then Some p else Some best)\<rparr>))))"

section \<open>Active chain\<close>

type_synonym CChain = "addr option list"

definition Genesis :: "CChain \<Rightarrow> addr option" where
  "Genesis c = (if length c > 0 then c ! 0 else None)"

definition Tip :: "CChain \<Rightarrow> addr option" where
  "Tip c = (if length c > 0 then c ! (length c - 1) else None)"

definition chain_at :: "CChain \<Rightarrow> int \<Rightarrow> addr option" where
  "chain_at c h = (if h < 0 \<or> h \<ge> int (length c) then None else c ! nat h)"

definition chain_eq :: "CChain \<Rightarrow> CChain \<Rightarrow> chain_error + bool" where
  "chain_eq a b =
     (if length a \<noteq> length b then Inr False
      else if a = [] then Inl OutOfRange
      else Inr (a ! (length a - 1) = b ! (length b - 1)))"

definition Contains :: "store \<Rightarrow> CChain \<Rightarrow> addr \<Rightarrow> bool" where
  "Contains B c p \<longleftrightarrow> chain_at c (nHeight (B p)) = Some p"

definition Next :: "store \<Rightarrow> CChain \<Rightarrow> addr \<Rightarrow> addr option" where
  "Next B c p = (if Contains B c p then chain_at c (nHeight (B p) + 1) else None)"

definition Height :: "CChain \<Rightarrow> int" where
  "Height c = int (length c) - 1"

text \<open>Resizing a vector of pointers cuts it or fills it up with \<open>NULL\<close>.\<close>

definition resize :: "nat \<Rightarrow> CChain \<Rightarrow> CChain" where
  "resize n c = take n c @ replicate (n - length c) None"

partial_function (option) set_tip_loop :: "store \<Rightarrow> addr option \<Rightarrow> CChain \<Rightarrow> (chain_error + CChain) option" where
  "set_tip_loop B pindex c =
     (case pindex of
        None \<Rightarrow> Some (Inr c)
      | Some p \<Rightarrow>
          if nHeight (B p) < 0 \<or> nHeight (B p) \<ge> int (length c) then Some (Inl OutOfRange)
          else if c ! nat (nHeight (B p)) \<noteq> Some p
          then set_tip_loop B (pprev (B p)) (c[nat (nHeight (B p)) := Some p])
          else Some (Inr c))"

definition SetTip :: "store \<Rightarrow> addr option \<Rightarrow> CChain \<Rightarrow> (chain_error + CChain) option" where
  "SetTip B pindex c =
     (case pindex of None \<Rightarrow> Some (Inr []) | Some p \<Rightarrow> set_tip_loop B pindex (resize (nat (nHeight (B p) + 1)) c))"

partial_function (option) find_fork_loop :: "store \<Rightarrow> CChain \<Rightarrow> addr option \<Rightarrow> addr option option" where
  "find_fork_loop B c pindex =
     (case pindex of
        None \<Rightarrow> Some None
      | Some p \<Rightarrow> if Contains B c p then Some (Some p) else find_fork_loop B c (pprev (B p)))"

definition FindFork :: "store \<Rightarrow> CChain \<Rightarrow> addr option \<Rightarrow> (chain_error + addr option) option" where
  "FindFork B c pindex =
     (case pindex of
        None \<Rightarrow> Some (Inr None)
      | Some p \<Rightarrow>
          (case (if nHeight (B p) > Height c then GetAncestor B (Height c) p else Inr (Some p)) of
             Inl e \<Rightarrow> Some (Inl e)
           | Inr q \<Rightarrow> map_option Inr (find_fork_loop B c q)))"

partial_function (option) locator_loop :: "store \<Rightarrow> CChain \<Rightarrow> addr option \<Rightarrow> int \<Rightarrow> bytes list \<Rightarrow> (chain_error + bytes list) option" where
  "locator_loop B c pindex nStep vHave =
     (case pindex of
        None \<Rightarrow> Some (Inr vHave)
      | Some p \<Rightarrow>
          let vHave = vHave @ [phashBlock (B p)]
          in if nHeight (B p) = 0 then Some (Inr vHave)
             else let h = max (nHeight (B p) - nStep) 0
             in (case (if Contains B c p then Inr (chain_at c h) else GetAncestor B h p) of
                   Inl e \<Rightarrow> Some (Inl e)
                 | Inr q \<Rightarrow> locator_loop B c q (if length vHave > 10 then nStep * 2 else nStep) vHave))"

definition GetLocator :: "store \<Rightarrow> CChain \<Rightarrow> addr option \<Rightarrow> (chain_error + bytes list) option" where
  "GetLocator B c pindex = locator_loop B c (if pindex = None then Tip c else pindex) 1 []"

text \<open>The halving search of the standard library over a range of the chain.\<close>

function lower_bound :: "(addr option \<Rightarrow> bool) \<Rightarrow> CChain \<Rightarrow> nat \<Rightarrow> nat \<Rightarrow> nat" where
  "lower_bound before c first count =
     (if count > 0 then
        let step = count div 2; it = first + step
        in if before (c ! it) then lower_bound before c (it + 1) (count - (step + 1)) else lower_bound before c first step
      else first)"
  by auto
termination
  by (relation "measure (\<lambda>(l, c, first, count). count)") auto

declare lower_bound.simps [simp del]

definition FindEarliestAtLeast :: "store \<Rightarrow> CChain \<Rightarrow> int \<Rightarrow> addr option" where
  "FindEarliestAtLeast B c t =
     (let lower = lower_bound (\<lambda>p. GetBlockTimeMax (B (the p)) < t) c 0 (length c)
      in if lower = length c then None else c ! lower)"

section \<open>Walking along the predecessors\<close>

primrec up :: "store \<Rightarrow> nat \<Rightarrow> addr \<Rightarrow> addr option" where
  "up B 0 p = Some p"
| "up B (Suc k) p = (case pprev (B p) of None \<Rightarrow> None | Some q \<Rightarrow> up B k q)"

text \<open>The objects of a set are closed under predecessors, have their height, and skip to the right ancestor.\<close>

definition linked :: "store \<Rightarrow> addr set \<Rightarrow> bool" where
  "linked B U \<longleftrightarrow> (\<forall>p\<in>U. case pprev (B p) of None \<Rightarrow> nHeight (B p) = 0 | Some q \<Rightarrow> q \<in> U \<and> 0 < nHeight (B p) \<and> nHeight (B p) = nHeight (B q) + 1)"

definition skips :: "store \<Rightarrow> addr set \<Rightarrow> bool" where
  "skips B U \<longleftrightarrow> (\<forall>p\<in>U. \<forall>q. pskip (B p) = Some q \<longrightarrow>
     up B (nat (nHeight (B p)) - GetSkipHeight (nat (nHeight (B p)))) p = Some q)"

definition index_ok :: "store \<Rightarrow> addr set \<Rightarrow> bool" where
  "index_ok B U \<longleftrightarrow> linked B U \<and> skips B U"

lemma linked_prev: "linked B U \<Longrightarrow> p \<in> U \<Longrightarrow> pprev (B p) = Some q \<Longrightarrow> q \<in> U \<and> nHeight (B p) = nHeight (B q) + 1 \<and> 0 \<le> nHeight (B q)"
  by (fastforce simp: linked_def split: option.splits)

lemma linked_height: "linked B U \<Longrightarrow> p \<in> U \<Longrightarrow> 0 \<le> nHeight (B p)"
  by (fastforce simp: linked_def split: option.splits)

lemma linked_root: "linked B U \<Longrightarrow> p \<in> U \<Longrightarrow> pprev (B p) = None \<longleftrightarrow> nHeight (B p) = 0"
  by (fastforce simp: linked_def split: option.splits)

lemma linked_induct [consumes 2, case_names root prev]:
  assumes "linked B U" "p \<in> U"
    and root: "\<And>p. p \<in> U \<Longrightarrow> pprev (B p) = None \<Longrightarrow> nHeight (B p) = 0 \<Longrightarrow> P p"
    and prev: "\<And>p q. p \<in> U \<Longrightarrow> pprev (B p) = Some q \<Longrightarrow> q \<in> U \<Longrightarrow> nHeight (B p) = nHeight (B q) + 1 \<Longrightarrow> 0 \<le> nHeight (B q) \<Longrightarrow> P q \<Longrightarrow> P p"
  shows "P p"
  using assms(2)
proof (induction "nat (nHeight (B p))" arbitrary: p rule: less_induct)
  case less
  show ?case
  proof (cases "pprev (B p)")
    case None
    then show ?thesis using root linked_root [OF assms(1)] less.prems by blast
  next
    case (Some q)
    note q = linked_prev [OF assms(1) less.prems Some]
    then have "P q" by (intro less.hyps) auto
    with q show ?thesis using prev [OF less.prems Some] by blast
  qed
qed

lemma up_add: "up B (a + b) p = (case up B a p of None \<Rightarrow> None | Some q \<Rightarrow> up B b q)"
  by (induction a arbitrary: p) (auto split: option.split)

lemma up_some:
  assumes "linked B U" "p \<in> U" "int k \<le> nHeight (B p)"
  obtains q where "up B k p = Some q" "q \<in> U" "nHeight (B q) = nHeight (B p) - int k"
proof -
  have "\<exists>q. up B k p = Some q \<and> q \<in> U \<and> nHeight (B q) = nHeight (B p) - int k"
    using assms(2,3)
  proof (induction k arbitrary: p)
    case (Suc k)
    then obtain q where q: "pprev (B p) = Some q" using linked_root [OF assms(1)] by fastforce
    from linked_prev [OF assms(1) Suc.prems(1) this] Suc.prems(2) show ?case
      using Suc.IH [of q] by (auto simp: q)
  qed simp
  then show ?thesis using that by blast
qed

lemma up_height: "linked B U \<Longrightarrow> p \<in> U \<Longrightarrow> up B k p = Some q \<Longrightarrow> q \<in> U \<and> nHeight (B q) = nHeight (B p) - int k \<and> 0 \<le> nHeight (B q)"
proof (induction k arbitrary: p)
  case 0
  then show ?case using linked_height by force
next
  case (Suc k)
  then obtain r where r: "pprev (B p) = Some r" "up B k r = Some q" by (auto split: option.splits)
  with linked_prev [OF Suc.prems(1,2) r(1)] Suc.IH [of r] Suc.prems(1) show ?case by auto
qed

lemma ancestor_loop_up:
  assumes "index_ok B U" "p \<in> U" "nHeight (B p) = int w" "h \<le> w"
  shows "\<exists>q. ancestor_loop B h p w = Inr q \<and> up B (w - h) p = Some q"
  using assms(2-)
proof (induction w arbitrary: p rule: less_induct)
  case (less w)
  note li = assms(1) [unfolded index_ok_def, THEN conjunct1]
  show ?case
  proof (cases "w > h")
    case False
    then show ?thesis using less.prems(3) by (subst ancestor_loop.simps) simp
  next
    case True
    define s where "s = GetSkipHeight w"
    have s: "s < w" using GetSkipHeight_less [of w] True by (simp add: s_def)
    show ?thesis
    proof (cases "pskip (B p) \<noteq> None \<and> (s = h \<or> s > h \<and> \<not> (GetSkipHeight (w - 1) + 2 < s \<and> GetSkipHeight (w - 1) \<ge> h))")
      case skip: True
      then obtain q where q: "pskip (B p) = Some q" by blast
      with assms(1) less.prems have u: "up B (w - s) p = Some q" by (auto simp: index_ok_def skips_def s_def)
      from up_height [OF li less.prems(1) u] s less.prems(2) have q': "q \<in> U" "nHeight (B q) = int s" by auto
      from skip have "h \<le> s" by auto
      from less.IH [OF s q' this] obtain r where r: "ancestor_loop B h q s = Inr r" "up B (s - h) q = Some r" by blast
      have "ancestor_loop B h p w = ancestor_loop B h q s"
        using skip True by (subst ancestor_loop.simps) (simp add: s_def q)
      moreover have "up B (w - h) p = Some r"
        using up_add [of B "w - s" "s - h" p] u r(2) s \<open>h \<le> s\<close> by simp
      ultimately show ?thesis using r by simp
    next
      case noskip: False
      obtain q where q: "pprev (B p) = Some q" using linked_root [OF li less.prems(1)] True less.prems(2) by fastforce
      from linked_prev [OF li less.prems(1) q] less.prems(2) True have q': "q \<in> U" "nHeight (B q) = int (w - 1)" by auto
      have "ancestor_loop B h p w = ancestor_loop B h q (w - 1)"
        using noskip True by (subst ancestor_loop.simps) (auto simp: s_def q Let_def)
      moreover have "w - 1 < w" "h \<le> w - 1" using True by auto
      then obtain r where "ancestor_loop B h q (w - 1) = Inr r" "up B (w - 1 - h) q = Some r"
        using less.IH [OF _ q'] by blast
      moreover have "w - h = Suc (w - 1 - h)" using True by simp
      ultimately show ?thesis by (simp add: q)
    qed
  qed
qed

lemma GetAncestor_up:
  assumes "index_ok B U" "p \<in> U"
  shows "GetAncestor B h p = Inr (if h < 0 \<or> h > nHeight (B p) then None else up B (nat (nHeight (B p) - h)) p)"
proof (cases "h < 0 \<or> h > nHeight (B p)")
  case True
  then show ?thesis by (auto simp: GetAncestor_def)
next
  case False
  then have "nat (nHeight (B p)) - nat h = nat (nHeight (B p) - h)" by (simp add: nat_diff_distrib)
  then show ?thesis
    using False ancestor_loop_up [OF assms, of "nat (nHeight (B p))" "nat h"] nat_mono [of h "nHeight (B p)"]
    by (auto simp: GetAncestor_def)
qed

lemma up_pprev_cong: "(\<And>p. pprev (B' p) = pprev (B p)) \<Longrightarrow> up B' k p = up B k p"
  by (induction k arbitrary: p) (auto split: option.split)

lemma BuildSkip_up:
  assumes "index_ok B U" "p \<notin> U" "pprev (B p) = Some q" "q \<in> U" "nHeight (B p) = nHeight (B q) + 1"
  shows "\<exists>a. BuildSkip B p = Inr (B(p := (B p)\<lparr>pskip := a\<rparr>)) \<and>
    a = up B (nat (nHeight (B p)) - GetSkipHeight (nat (nHeight (B p)))) p"
proof -
  have q: "0 \<le> nHeight (B q)" using assms(1,4) linked_height by (auto simp: index_ok_def)
  define h where "h = nat (nHeight (B p))"
  have h: "nHeight (B q) = int h - 1" "0 < h" using assms(5) q by (auto simp: h_def)
  have l: "GetSkipHeight h < h" using GetSkipHeight_less h(2) by blast
  then have "h - GetSkipHeight h = Suc (nat (nHeight (B q) - int (GetSkipHeight h)))" using h by simp
  with h l show ?thesis
    using GetAncestor_up [OF assms(1,4), of "int (GetSkipHeight h)"] assms(3) by (auto simp: BuildSkip_def h_def)
qed

section \<open>The active chain\<close>

text \<open>The vector of the chain that ends in a block: its ancestor of every height.\<close>

definition chain_of :: "store \<Rightarrow> addr \<Rightarrow> CChain" where
  "chain_of B t = map (\<lambda>i. up B (nat (nHeight (B t)) - i) t) [0..<nat (nHeight (B t)) + 1]"

definition chain_ok :: "store \<Rightarrow> addr set \<Rightarrow> CChain \<Rightarrow> bool" where
  "chain_ok B U c \<longleftrightarrow> c = [] \<or> (\<exists>t\<in>U. c = chain_of B t)"

lemma chain_of_length [simp]: "length (chain_of B t) = nat (nHeight (B t)) + 1"
  by (simp add: chain_of_def)

lemma chain_of_nth: "i \<le> nat (nHeight (B t)) \<Longrightarrow> chain_of B t ! i = up B (nat (nHeight (B t)) - i) t"
  by (simp add: chain_of_def nth_append)

lemma chain_of_prev:
  "pprev (B p) = Some q \<Longrightarrow> nHeight (B p) = nHeight (B q) + 1 \<Longrightarrow> 0 \<le> nHeight (B q) \<Longrightarrow> chain_of B p = chain_of B q @ [Some p]"
  by (simp add: chain_of_def nat_add_distrib Suc_diff_le)

text \<open>Below a block of the chain, the chain is the chain of that block.\<close>

lemma chain_of_below:
  assumes "linked B U" "t \<in> U" "chain_of B t ! h = Some a" "h \<le> nat (nHeight (B t))" "i \<le> h"
  shows "chain_of B t ! i = up B (h - i) a" "a \<in> U" "nHeight (B a) = int h"
proof -
  have u: "up B (nat (nHeight (B t)) - h) t = Some a" using assms(3,4) by (simp add: chain_of_nth)
  from up_height [OF assms(1,2) u] assms(4) linked_height [OF assms(1,2)]
  show "a \<in> U" "nHeight (B a) = int h" by auto
  show "chain_of B t ! i = up B (h - i) a"
    using up_add [of B "nat (nHeight (B t)) - h" "h - i" t] u assms(4,5) by (simp add: chain_of_nth)
qed

lemma Contains_iff:
  assumes "linked B U" "chain_ok B U c" "p \<in> U"
  shows "Contains B c p \<longleftrightarrow> (\<exists>i<length c. c ! i = Some p)"
proof
  assume "Contains B c p"
  then show "\<exists>i<length c. c ! i = Some p"
    using linked_height [OF assms(1,3)]
    by (intro exI [of _ "nat (nHeight (B p))"]) (auto simp: Contains_def chain_at_def split: if_splits)
next
  assume "\<exists>i<length c. c ! i = Some p"
  then obtain i where i: "i < length c" "c ! i = Some p" by blast
  with assms(2) obtain t where t: "t \<in> U" "c = chain_of B t" by (auto simp: chain_ok_def)
  with chain_of_below(3) [OF assms(1) t(1), of i p i] i show "Contains B c p"
    by (auto simp: Contains_def chain_at_def)
qed

text \<open>
  The loop of \<open>SetTip\<close> leaves the entries above the starting block alone and replaces the others by its
  ancestors; it may stop early because the entries below one that is right are right.
\<close>

lemma set_tip_loop_sets:
  assumes "linked B U" "p \<in> U" "nHeight (B p) < int (length c)"
    and "\<forall>j\<le>nat (nHeight (B p)). \<forall>a. c ! j = Some a \<and> a \<in> U \<and> nHeight (B a) = int j \<longrightarrow> (\<forall>i\<le>j. c ! i = up B (j - i) a)"
  shows "set_tip_loop B (Some p) c = Some (Inr (chain_of B p @ drop (nat (nHeight (B p)) + 1) c))"
  using assms(1,2) assms(3-)
proof (induction p arbitrary: c rule: linked_induct)
  case (root p)
  then have "0 < length c" by simp
  then have "c[0 := Some p] = Some p # drop 1 c" by (cases c) auto
  moreover have "c ! 0 = Some p \<Longrightarrow> c = Some p # drop 1 c" using \<open>0 < length c\<close> by (cases c) auto
  ultimately show ?case
    using root by (subst set_tip_loop.simps) (auto simp: set_tip_loop.simps [of B None] chain_of_def)
next
  case (prev p q)
  define h where "h = nat (nHeight (B p))"
  have h: "nHeight (B p) = int h" "nHeight (B q) = int h - 1" "0 < h" "h < length c"
    using prev.hyps prev.prems(1) by (auto simp: h_def)
  show ?case
  proof (cases "c ! h = Some p")
    case True
    have "take (h + 1) c = chain_of B p"
      using prev.prems(2) prev.hyps(1) h True by (intro nth_equalityI) (auto simp: chain_of_nth)
    then have "c = chain_of B p @ drop (h + 1) c" by (metis append_take_drop_id)
    then show ?thesis using h True by (subst set_tip_loop.simps) simp
  next
    case False
    have "set_tip_loop B (Some p) c = set_tip_loop B (Some q) (c[h := Some p])"
      using False h prev.hyps(2) by (subst set_tip_loop.simps) simp
    also have "\<dots> = Some (Inr (chain_of B q @ drop (nat (nHeight (B q)) + 1) (c[h := Some p])))"
      using prev.prems(2) h by (intro prev.IH) auto
    also have "drop (nat (nHeight (B q)) + 1) (c[h := Some p]) = Some p # drop (h + 1) c"
      using h by (simp add: drop_update_swap Cons_nth_drop_Suc [symmetric] nat_diff_distrib')
    finally show ?thesis using chain_of_prev [OF prev.hyps(2,4,5)] h by simp
  qed
qed

text \<open>On a chain that is one, setting a tip returns, and gives the chain of the new tip.\<close>

lemma SetTip_chain:
  assumes "linked B U" "chain_ok B U c" "t \<in> U"
  shows "SetTip B (Some t) c = Some (Inr (chain_of B t))"
proof -
  define n where "n = nat (nHeight (B t) + 1)"
  have n: "nHeight (B t) = int n - 1" "0 < n" "length (resize n c) = n"
    using linked_height [OF assms(1,3)] by (auto simp: n_def resize_def)
  have "resize n c ! i = up B (j - i) a"
    if j: "j < n" "resize n c ! j = Some a" "a \<in> U" "nHeight (B a) = int j" "i \<le> j" for i j a
  proof -
    have l: "j < length c" using j(1,2) by (auto simp: resize_def nth_append split: if_splits)
    then obtain t0 where t0: "t0 \<in> U" "c = chain_of B t0" using assms(2) by (auto simp: chain_ok_def)
    have "chain_of B t0 ! j = Some a" using j l t0(2) by (simp add: resize_def nth_append split: if_splits)
    from chain_of_below(1) [OF assms(1) t0(1) this _ j(5)] show ?thesis
      using j l t0(2) by (simp add: resize_def nth_append)
  qed
  then have "set_tip_loop B (Some t) (resize n c) = Some (Inr (chain_of B t @ drop (nat (nHeight (B t)) + 1) (resize n c)))"
    using n by (intro set_tip_loop_sets [OF assms(1,3)]) auto
  then show ?thesis using n by (simp add: SetTip_def n_def [symmetric] nat_diff_distrib')
qed

text \<open>The fork with a block is its highest ancestor that the chain contains.\<close>

definition is_fork :: "store \<Rightarrow> CChain \<Rightarrow> addr \<Rightarrow> addr option \<Rightarrow> bool" where
  "is_fork B c p r \<longleftrightarrow>
     (case r of
        None \<Rightarrow> \<forall>k q. up B k p = Some q \<longrightarrow> \<not> Contains B c q
      | Some f \<Rightarrow> \<exists>k. up B k p = Some f \<and> Contains B c f \<and> (\<forall>j q. j < k \<and> up B j p = Some q \<longrightarrow> \<not> Contains B c q))"

lemma is_fork_self: "Contains B c p \<Longrightarrow> is_fork B c p (Some p)"
  by (auto simp: is_fork_def intro: exI [of _ 0])

lemma is_fork_root: "\<not> Contains B c p \<Longrightarrow> pprev (B p) = None \<Longrightarrow> is_fork B c p None"
  unfolding is_fork_def by (auto elim: nat.exhaust) (metis option.discI option.sel option.simps(4) up.simps nat.exhaust)

lemma is_fork_prev:
  assumes "\<not> Contains B c p" "pprev (B p) = Some q" "is_fork B c q r"
  shows "is_fork B c p r"
proof (cases r)
  case None
  have "\<not> Contains B c a" if "up B k p = Some a" for k a
    using that assms None by (cases k) (auto simp: is_fork_def)
  then show ?thesis using None by (auto simp: is_fork_def)
next
  case (Some f)
  then obtain k where k: "up B k q = Some f" "Contains B c f" "\<forall>j a. j < k \<and> up B j q = Some a \<longrightarrow> \<not> Contains B c a"
    using assms(3) by (auto simp: is_fork_def)
  have "\<not> Contains B c a" if "j < Suc k" "up B j p = Some a" for j a
    using that assms(1,2) k(3) by (cases j) auto
  then show ?thesis using Some k assms(2) by (auto simp: is_fork_def intro!: exI [of _ "Suc k"])
qed

lemma find_fork_loop_finds:
  assumes "linked B U" "p \<in> U"
  shows "\<exists>r. find_fork_loop B c (Some p) = Some r \<and> is_fork B c p r"
  using assms
proof (induction p rule: linked_induct)
  case (root p)
  then show ?case
    by (subst find_fork_loop.simps) (auto simp: find_fork_loop.simps [of B c None] intro: is_fork_self is_fork_root)
next
  case (prev p q)
  then show ?case by (subst find_fork_loop.simps) (auto intro: is_fork_self is_fork_prev)
qed

lemma is_fork_up:
  assumes "up B n p = Some q" "\<forall>j a. j < n \<and> up B j p = Some a \<longrightarrow> \<not> Contains B c a" "is_fork B c q r"
  shows "is_fork B c p r"
  using assms
proof (induction n arbitrary: p)
  case (Suc n)
  then obtain p' where p': "pprev (B p) = Some p'" "up B n p' = Some q" by (auto split: option.splits)
  have "\<not> Contains B c a" if "j < n" "up B j p' = Some a" for j a
    using Suc.prems(2) [rule_format, of "Suc j" a] p'(1) that by simp
  with Suc.IH [OF p'(2)] Suc.prems(3) have "is_fork B c p' r" by blast
  moreover have "\<not> Contains B c p" using Suc.prems(2) by (auto dest: spec [of _ 0])
  ultimately show ?case using is_fork_prev p'(1) by blast
qed simp

lemma FindFork_finds:
  assumes "index_ok B U" "p \<in> U"
  shows "\<exists>r. FindFork B c (Some p) = Some (Inr r) \<and> is_fork B c p r"
proof (cases "nHeight (B p) > Height c")
  case False
  then show ?thesis
    using find_fork_loop_finds [of B U p c] assms by (auto simp: FindFork_def index_ok_def)
next
  case True
  note li = assms(1) [unfolded index_ok_def, THEN conjunct1]
  have above: "\<not> Contains B c a" if "up B j p = Some a" "int j < nHeight (B p) - Height c" for j a
    using up_height [OF li assms(2) that(1)] that(2) by (auto simp: Contains_def chain_at_def Height_def)
  show ?thesis
  proof (cases "c = []")
    case c: True
    then have "FindFork B c (Some p) = Some (Inr None)"
      using True GetAncestor_up [OF assms, of "- 1"] by (simp add: FindFork_def Height_def find_fork_loop.simps)
    moreover have "is_fork B c p None" using c by (auto simp: is_fork_def Contains_def chain_at_def)
    ultimately show ?thesis by blast
  next
    case False
    define n where "n = nat (nHeight (B p) - Height c)"
    have h: "0 \<le> Height c" using False by (cases c) (auto simp: Height_def)
    with up_some [OF li assms(2), of n] True obtain q where q: "up B n p = Some q" "q \<in> U" by (auto simp: n_def)
    from find_fork_loop_finds [OF li q(2), of c] obtain r where r: "find_fork_loop B c (Some q) = Some r" "is_fork B c q r" by blast
    have "is_fork B c p r" using above True by (intro is_fork_up [OF q(1) _ r(2)]) (auto simp: n_def)
    moreover have "FindFork B c (Some p) = Some (Inr r)"
      using True h q r(1) GetAncestor_up [OF assms, of "Height c"] by (simp add: FindFork_def n_def)
    ultimately show ?thesis by blast
  qed
qed

text \<open>
  The locator: hashes of ancestors further and further back. After ten entries the step doubles, so the number
  of entries is logarithmic: \<open>n\<close> entries are there, \<open>k\<close> doublings are enough for the rest.
\<close>

lemma locator_next:
  assumes "index_ok B U" "chain_ok B U c" "p \<in> U" "0 \<le> h" "h \<le> nHeight (B p)"
  shows "(if Contains B c p then Inr (chain_at c h) else GetAncestor B h p) = Inr (up B (nat (nHeight (B p) - h)) p)"
proof (cases "Contains B c p")
  case True
  note li = assms(1) [unfolded index_ok_def, THEN conjunct1]
  from True linked_height [OF li assms(3)] have c: "c ! nat (nHeight (B p)) = Some p" "nat (nHeight (B p)) < length c"
    by (auto simp: Contains_def chain_at_def split: if_splits)
  with assms(2) obtain t where t: "t \<in> U" "c = chain_of B t" by (auto simp: chain_ok_def)
  have "c ! nat h = up B (nat (nHeight (B p)) - nat h) p"
    using chain_of_below(1) [OF li t(1), of "nat (nHeight (B p))" p "nat h"] c t(2) assms(4,5) by (auto simp: nat_mono)
  then show ?thesis using True c assms(4,5) by (auto simp: chain_at_def nat_diff_distrib)
next
  case False
  then show ?thesis using GetAncestor_up [OF assms(1,3), of h] assms(4,5) by simp
qed

lemma locator_room:
  assumes "h \<le> (10 - n) + 2 ^ (n - 10) * (2 ^ k - 1)" "0 < h" "n \<ge> 10 \<longrightarrow> k = Suc k'" "n < 10 \<longrightarrow> k = k'"
  shows "h - 2 ^ (n - 10) \<le> (10 - (n + 1)) + 2 ^ (n + 1 - 10) * (2 ^ k' - 1 :: nat)"
proof (cases "n \<ge> 10")
  case True
  then obtain j where j: "n = 10 + j" by (auto simp: le_iff_add)
  have "(2 :: nat) ^ j * (2 ^ Suc k' - 1) = 2 ^ j + 2 ^ Suc j * (2 ^ k' - 1)"
    by (simp add: algebra_simps diff_mult_distrib2)
  then show ?thesis using assms True by (simp add: j)
next
  case False
  then show ?thesis using assms by (auto simp: diff_diff_left)
qed

lemma locator_loop_lists:
  assumes "index_ok B U" "chain_ok B U c" "p \<in> U" "nHeight (B p) = int h"
    and "h \<le> (10 - length v) + 2 ^ (length v - 10) * (2 ^ k - 1)"
  shows "\<exists>ks. locator_loop B c (Some p) (2 ^ (length v - 10)) v = Some (Inr (v @ map (\<lambda>i. phashBlock (B (the (up B i p)))) ks)) \<and>
    ks \<noteq> [] \<and> hd ks = 0 \<and> last ks = h \<and> sorted_wrt (<) ks \<and> length ks \<le> (10 - length v) + k + 1"
  using assms(3-)
proof (induction h arbitrary: p v k rule: less_induct)
  case (less h)
  note li = assms(1) [unfolded index_ok_def, THEN conjunct1]
  show ?case
  proof (cases "h = 0")
    case True
    then show ?thesis
      using less.prems(2) by (subst locator_loop.simps) (auto intro!: exI [of _ "[0]"])
  next
    case False
    define st where "st = (2 :: nat) ^ (length v - 10)"
    have st: "0 < st" by (simp add: st_def)
    define h' where "h' = h - st"
    have m: "max (nHeight (B p) - int st) 0 = int h'" using less.prems(2) by (simp add: h'_def)
    have d: "nat (nHeight (B p) - int h') = min st h" "h' < h" using less.prems(2) st False by (auto simp: h'_def)
    have "int (min st h) \<le> nHeight (B p)" using less.prems(2) by simp
    from up_some [OF li less.prems(1) this] obtain q where
      q: "up B (min st h) p = Some q" "q \<in> U" and "nHeight (B q) = nHeight (B p) - int (min st h)" by metis
    then have q': "nHeight (B q) = int h'" using less.prems(2) by (simp add: h'_def min_def)
    let ?v = "v @ [phashBlock (B p)]"
    have n: "length ?v = length v + 1" by simp
    obtain k' where k': "length v \<ge> 10 \<longrightarrow> k = Suc k'" "length v < 10 \<longrightarrow> k = k'"
    proof (cases "length v \<ge> 10")
      case True
      with less.prems(3) False have "k \<noteq> 0" by (intro notI) simp
      then obtain k' where "k = Suc k'" by (cases k) auto
      with that True show ?thesis by auto
    qed auto
    have room: "h' \<le> (10 - length ?v) + 2 ^ (length ?v - 10) * (2 ^ k' - 1)"
      using locator_room [OF less.prems(3) _ k'] False by (simp only: n h'_def st_def)
    from less.IH [OF d(2) q(2) q' room] obtain ks where
      ks: "locator_loop B c (Some q) (2 ^ (length ?v - 10)) ?v = Some (Inr (?v @ map (\<lambda>i. phashBlock (B (the (up B i q)))) ks))"
        "ks \<noteq> []" "hd ks = 0" "last ks = h'" "sorted_wrt (<) ks" "length ks \<le> (10 - length ?v) + k' + 1" by blast
    have "locator_loop B c (Some p) (int st) v = locator_loop B c (Some q) (if length ?v > 10 then int st * 2 else int st) ?v"
      using False less.prems(2) m locator_next [OF assms(1,2) less.prems(1), of "int h'"] d q(1)
      by (subst locator_loop.simps) (simp add: Let_def)
    also have "(if length ?v > 10 then int st * 2 else int st) = 2 ^ (length ?v - 10)"
    proof (cases "length v \<ge> 10")
      case True
      then obtain j where "length v = 10 + j" by (auto simp: le_iff_add)
      then show ?thesis by (simp add: st_def)
    qed (simp add: st_def)
    finally have "locator_loop B c (Some p) (2 ^ (length v - 10)) v =
        Some (Inr (?v @ map (\<lambda>i. phashBlock (B (the (up B i q)))) ks))" using ks(1) by (simp add: st_def)
    moreover have "map (\<lambda>i. phashBlock (B (the (up B i q)))) ks =
        map (\<lambda>i. phashBlock (B (the (up B i p)))) (map ((+) (min st h)) ks)"
      using q(1) by (simp add: up_add)
    moreover have "last (map ((+) (min st h)) ks) = h" using ks(2,4) by (simp add: last_map h'_def)
    moreover have "sorted_wrt (<) (0 # map ((+) (min st h)) ks)"
      using ks(5) st False by (auto simp: sorted_wrt_map)
    moreover have "length ks \<le> (10 - length v) + k"
      using ks(6) k' n by (cases "length v \<ge> 10") auto
    ultimately show ?thesis using ks(2) by (intro exI [of _ "0 # map ((+) (min st h)) ks"]) simp
  qed
qed

text \<open>The halving search finds the first element that is not before.\<close>

lemma lower_bound_partition:
  assumes "\<forall>i j. i < j \<and> j < length c \<and> before (c ! j) \<longrightarrow> before (c ! i)" "first + count \<le> length c"
    "\<forall>i<first. before (c ! i)" "\<forall>i<length c. first + count \<le> i \<longrightarrow> \<not> before (c ! i)"
  shows "lower_bound before c first count \<le> length c \<and> (\<forall>i<lower_bound before c first count. before (c ! i)) \<and>
    (\<forall>i<length c. lower_bound before c first count \<le> i \<longrightarrow> \<not> before (c ! i))"
  using assms(2-)
proof (induction count arbitrary: first rule: less_induct)
  case (less count)
  show ?case
  proof (cases "count > 0")
    case False
    then show ?thesis using less.prems by (subst (1 2 3) lower_bound.simps) auto
  next
    case True
    define it where "it = first + count div 2"
    have it: "it < length c" "it < first + count" using True less.prems(1) by (auto simp: it_def)
    show ?thesis
    proof (cases "before (c ! it)")
      case b: True
      have "lower_bound before c first count = lower_bound before c (it + 1) (count - (count div 2 + 1))"
        using b True by (subst lower_bound.simps) (simp add: Let_def it_def)
      moreover have "\<forall>i<it + 1. before (c ! i)" using b assms(1) it(1) by (metis less_SucE add.commute plus_1_eq_Suc)
      ultimately show ?thesis
        using less.IH [of "count - (count div 2 + 1)" "it + 1"] less.prems True it by (simp add: it_def)
    next
      case b: False
      have "lower_bound before c first count = lower_bound before c first (count div 2)"
        using b True by (subst lower_bound.simps) (simp add: Let_def it_def)
      moreover have "count div 2 < count" "first + count div 2 \<le> length c" using True less.prems(1) by auto
      moreover have "\<forall>i<length c. first + count div 2 \<le> i \<longrightarrow> \<not> before (c ! i)"
        using b assms(1) by (metis it_def le_neq_implies_less)
      ultimately show ?thesis using less.IH [of "count div 2" first] less.prems(2) by metis
    qed
  qed
qed

section \<open>The tree of headers\<close>

definition nodes :: "block_tree \<Rightarrow> addr set" where
  "nodes T = {p. \<exists>h. mapBlockIndex T h = Some p}"

text \<open>The greatest time and the work of a block are those of its predecessor and its own.\<close>

definition totals_ok :: "store \<Rightarrow> addr \<Rightarrow> bool" where
  "totals_ok B p \<longleftrightarrow> length (nChainWork (B p)) = 8 \<and>
     nTimeMax (B p) = (case pprev (B p) of Some q \<Rightarrow> max (nTimeMax (B q)) (nTime (B p)) | None \<Rightarrow> nTime (B p)) \<and>
     uval (nChainWork (B p)) = ((case pprev (B p) of Some q \<Rightarrow> uval (nChainWork (B q)) | None \<Rightarrow> 0) +
       uval (the (GetBlockProof (nBits (B p))))) mod 2 ^ 256"

definition tree_ok :: "block_tree \<Rightarrow> bool" where
  "tree_ok T \<longleftrightarrow> index_ok (blocks T) (nodes T) \<and>
     (\<forall>h p. mapBlockIndex T h = Some p \<longrightarrow> p < nextAddr T \<and> phashBlock (blocks T p) = h) \<and>
     (\<forall>p\<in>nodes T. totals_ok (blocks T) p) \<and>
     (case pindexBestHeader T of
        None \<Rightarrow> nodes T = {}
      | Some b \<Rightarrow> b \<in> nodes T \<and> (\<forall>p\<in>nodes T. uval (nChainWork (blocks T p)) \<le> uval (nChainWork (blocks T b))))"

lemma up_cong: "linked B U \<Longrightarrow> p \<in> U \<Longrightarrow> (\<forall>q\<in>U. B' q = B q) \<Longrightarrow> up B' k p = up B k p"
  by (induction k arbitrary: p) (auto split: option.split dest: linked_prev)

lemma linked_cong: "linked B U \<Longrightarrow> (\<forall>q\<in>U. B' q = B q) \<Longrightarrow> linked B' U"
  by (fastforce simp: linked_def split: option.split)

lemma index_ok_cong:
  assumes "index_ok B U" "\<forall>q\<in>U. B' q = B q"
  shows "index_ok B' U"
proof -
  have l: "linked B U" "skips B U" using assms(1) by (simp_all add: index_ok_def)
  have "up B' k p = up B k p" if "p \<in> U" for k p by (rule up_cong [OF l(1) that assms(2)])
  then show ?thesis using l(2) assms(2) linked_cong [OF l(1) assms(2)] by (simp add: index_ok_def skips_def)
qed

lemma index_ok_insert:
  assumes "index_ok B U" "p \<notin> U"
    and "case pprev (B p) of None \<Rightarrow> nHeight (B p) = 0 | Some q \<Rightarrow> q \<in> U \<and> nHeight (B p) = nHeight (B q) + 1"
    and "\<forall>a. pskip (B p) = Some a \<longrightarrow> up B (nat (nHeight (B p)) - GetSkipHeight (nat (nHeight (B p)))) p = Some a"
  shows "index_ok B (insert p U)"
  using assms linked_height [of B U]
  by (fastforce simp: index_ok_def linked_def skips_def split: option.splits)

lemma GetBlockProof_defined: "\<exists>r. GetBlockProof c = Some r \<and> length r = 8"
  using GetBlockProof_value [of c] by auto

text \<open>The new object: its links and totals, over the old ones.\<close>

definition new_node :: "(CBlockHeader \<Rightarrow> bytes) \<Rightarrow> CBlockHeader \<Rightarrow> store \<Rightarrow> addr option \<Rightarrow> block_index" where
  "new_node hdrHash block B prev =
     \<lparr>nHeight = (case prev of Some q \<Rightarrow> nHeight (B q) + 1 | None \<Rightarrow> sint (hdrHeight block)), nTime = hdrTime block, nBits = hdrBits block,
      phashBlock = hdrHash block, pprev = prev,
      pskip = (case prev of Some q \<Rightarrow> up B (nat (nHeight (B q) - int (GetSkipHeight (nat (nHeight (B q) + 1))))) q | None \<Rightarrow> None),
      blkVersion = hdrVersion block, nTimeMax = (case prev of Some q \<Rightarrow> max (nTimeMax (B q)) (hdrTime block) | None \<Rightarrow> hdrTime block),
      nChainWork = add_uint (case prev of Some q \<Rightarrow> nChainWork (B q) | None \<Rightarrow> base_uint_of_u64 8 0) (the (GetBlockProof (hdrBits block))),
      nStatus = BLOCK_VALID_TREE\<rparr>"

lemma AddToBlockIndex_new:
  assumes "tree_ok T" "mapBlockIndex T (hdrHash block) = None" "hashPrevBlock block \<noteq> hdrHash block"
    and prev: "prev = mapBlockIndex T (hashPrevBlock block)" and b: "b = new_node hdrHash block (blocks T) prev"
  shows "AddToBlockIndex hdrHash block T = Inr (nextAddr T,
      T\<lparr>blocks := (blocks T)(nextAddr T := b), mapBlockIndex := (mapBlockIndex T)(hdrHash block \<mapsto> nextAddr T), nextAddr := nextAddr T + 1,
        pindexBestHeader := (case pindexBestHeader T of None \<Rightarrow> Some (nextAddr T)
          | Some best \<Rightarrow> if CompareTo (nChainWork (blocks T best)) (nChainWork b) < 0 then Some (nextAddr T) else Some best)\<rparr>)"
proof -
  define p where "p = nextAddr T"
  have old: "p \<notin> nodes T" using assms(1) by (auto simp: tree_ok_def nodes_def p_def)
  have best: "b \<noteq> p" if "pindexBestHeader T = Some b" for b using that old assms(1) by (auto simp: tree_ok_def)
  obtain work where work: "GetBlockProof (hdrBits block) = Some work" using GetBlockProof_defined by blast
  show ?thesis
  proof (cases prev)
    case None
    then show ?thesis
      using assms(2,3) prev work best
      by (simp add: AddToBlockIndex_def new_block_index_def RaiseValidity_def Let_def p_def [symmetric] b new_node_def split: option.split)
  next
    case (Some q)
    then have q: "q \<in> nodes T" "q \<noteq> p" using prev old by (auto simp: nodes_def)
    define B where "B = (blocks T)(p := (new_block_index block (hdrHash block))\<lparr>pprev := Some q, nHeight := nHeight (blocks T q) + 1\<rparr>)"
    have B: "\<forall>a\<in>nodes T. B a = blocks T a" using old by (auto simp: B_def)
    have ok: "index_ok (blocks T) (nodes T)" using assms(1) by (simp add: tree_ok_def)
    define k where "k = nat (nHeight (blocks T q) + 1)"
    have k: "GetSkipHeight k < k" "nHeight (B q) = int k - 1" "nHeight (B p) = int k" "pprev (B p) = Some q"
      using ok q linked_height [of "blocks T" "nodes T" q] by (auto simp: index_ok_def k_def B_def intro: GetSkipHeight_less)
    have "GetAncestor B (int (GetSkipHeight k)) q = Inr (up B (nat (nHeight (B q) - int (GetSkipHeight k))) q)"
      using GetAncestor_up [OF index_ok_cong [OF ok B] q(1)] k(1,2) by simp
    also have "up B (nat (nHeight (B q) - int (GetSkipHeight k))) q = up (blocks T) (nat (nHeight (blocks T q) - int (GetSkipHeight k))) q"
      using up_cong [OF _ q(1) B] ok B q(1) by (simp add: index_ok_def)
    finally have "BuildSkip B p = Inr (B(p := (B p)\<lparr>pskip := up (blocks T) (nat (nHeight (blocks T q) - int (GetSkipHeight k))) q\<rparr>))"
      using k(3,4) by (simp add: BuildSkip_def)
    moreover have "mapBlockIndex T (hashPrevBlock block) = Some q" using prev Some by simp
    ultimately show ?thesis
      using assms(2,3) work best Some q(2)
      by (cases "pindexBestHeader T")
        (simp_all add: AddToBlockIndex_def new_block_index_def RaiseValidity_def Let_def p_def [symmetric] B_def k_def b new_node_def)
  qed
qed

lemma new_node_totals:
  assumes "\<forall>q. prev = Some q \<longrightarrow> totals_ok B q \<and> q \<noteq> p"
  shows "totals_ok (B(p := new_node hdrHash block B prev)) p"
proof -
  obtain work where work: "GetBlockProof (hdrBits block) = Some work" "length work = 8" using GetBlockProof_defined by blast
  have "length (base_uint_of_u64 8 0) = 8" "uval (base_uint_of_u64 8 0) = 0" by (simp_all add: base_uint_of_u64_def uval_Cons)
  then show ?thesis
    using assms work by (cases prev) (auto simp: totals_ok_def new_node_def add_uint_value)
qed

lemma AddToBlockIndex_tree:
  assumes T: "tree_ok T" and new: "mapBlockIndex T (hdrHash block) = None" "hashPrevBlock block \<noteq> hdrHash block"
    and root: "mapBlockIndex T (hashPrevBlock block) = None \<longrightarrow> hdrHeight block = 0"
  shows "\<exists>p T'. AddToBlockIndex hdrHash block T = Inr (p, T') \<and> tree_ok T' \<and> mapBlockIndex T' = (mapBlockIndex T)(hdrHash block \<mapsto> p) \<and>
    (\<forall>a\<in>nodes T. blocks T' a = blocks T a) \<and> pprev (blocks T' p) = mapBlockIndex T (hashPrevBlock block)"
proof -
  define p where "p = nextAddr T"
  define prev where "prev = mapBlockIndex T (hashPrevBlock block)"
  define b where "b = new_node hdrHash block (blocks T) prev"
  define B where "B = (blocks T)(p := b)"
  define T' where "T' = T\<lparr>blocks := B, mapBlockIndex := (mapBlockIndex T)(hdrHash block \<mapsto> p), nextAddr := p + 1,
    pindexBestHeader := (case pindexBestHeader T of None \<Rightarrow> Some p
      | Some best \<Rightarrow> if CompareTo (nChainWork (blocks T best)) (nChainWork b) < 0 then Some p else Some best)\<rparr>"
  have add: "AddToBlockIndex hdrHash block T = Inr (p, T')"
    unfolding T'_def B_def p_def by (rule AddToBlockIndex_new [OF T new prev_def b_def])
  have ok: "index_ok (blocks T) (nodes T)" "\<forall>a\<in>nodes T. totals_ok (blocks T) a" and fresh: "p \<notin> nodes T"
    using T by (auto simp: tree_ok_def nodes_def p_def)
  have B: "\<forall>a\<in>nodes T. B a = blocks T a" using fresh by (auto simp: B_def)
  have Bp: "B p = b" by (simp add: B_def)
  have prev: "q \<in> nodes T" if "prev = Some q" for q using that by (auto simp: nodes_def prev_def)
  have nodes: "nodes T' = insert p (nodes T)" 
    using new(1) by (auto simp: nodes_def T'_def split: if_splits) (metis option.distinct(1))
  have up: "up B k q = up (blocks T) k q" if "q \<in> nodes T" for k q
    using up_cong [OF _ that B] ok(1) by (simp add: index_ok_def)
  have tot: "totals_ok B a" if "a \<in> nodes T" for a
    using that B ok linked_prev [of "blocks T" "nodes T" a] by (auto simp: totals_ok_def index_ok_def split: option.splits)
  have totp: "totals_ok B p" unfolding B_def b_def using ok(2) prev fresh by (intro new_node_totals) blast
  have height: "0 \<le> nHeight (blocks T q)" if "prev = Some q" for q
    using ok(1) prev [OF that] linked_height by (auto simp: index_ok_def)
  have "index_ok B (insert p (nodes T))"
  proof (rule index_ok_insert [OF index_ok_cong [OF ok(1) B] fresh])
    show "case pprev (B p) of None \<Rightarrow> nHeight (B p) = 0 | Some q \<Rightarrow> q \<in> nodes T \<and> nHeight (B p) = nHeight (B q) + 1"
      using root prev B Bp by (cases prev) (auto simp: b_def new_node_def prev_def)
    show "\<forall>a. pskip (B p) = Some a \<longrightarrow> up B (nat (nHeight (B p)) - GetSkipHeight (nat (nHeight (B p)))) p = Some a"
    proof (cases prev)
      case (Some q)
      define k where "k = nat (nHeight (blocks T q))"
      have "GetSkipHeight (Suc k) < Suc k" by (rule GetSkipHeight_less) simp
      then have "Suc k - GetSkipHeight (Suc k) = Suc (nat (nHeight (blocks T q) - int (GetSkipHeight (Suc k))))"
        using height [OF Some] by (simp add: k_def)
      moreover have "pprev (B p) = Some q" "nat (nHeight (B p)) = Suc k"
          "pskip (B p) = up (blocks T) (nat (nHeight (blocks T q) - int (GetSkipHeight (Suc k)))) q"
        using height [OF Some] Some by (simp_all add: Bp b_def new_node_def k_def nat_add_distrib)
      ultimately show ?thesis using up [OF prev [OF Some]] by simp
    qed (simp add: Bp b_def new_node_def)
  qed
  moreover have "a < nextAddr T' \<and> phashBlock (B a) = h" if "mapBlockIndex T' h = Some a" for h a
  proof (cases "h = hdrHash block")
    case True
    then show ?thesis using that Bp by (simp add: T'_def b_def new_node_def)
  next
    case False
    then have "mapBlockIndex T h = Some a" using that by (simp add: T'_def)
    with T have "a < p" "phashBlock (blocks T a) = h" by (auto simp: tree_ok_def p_def)
    then show ?thesis by (simp add: T'_def B_def)
  qed
  moreover have "case pindexBestHeader T' of None \<Rightarrow> nodes T' = {}
      | Some h \<Rightarrow> h \<in> nodes T' \<and> (\<forall>a\<in>nodes T'. uval (nChainWork (B a)) \<le> uval (nChainWork (B h)))"
  proof (cases "pindexBestHeader T")
    case None
    then show ?thesis using T nodes by (simp add: T'_def tree_ok_def)
  next
    case (Some h)
    then have h: "h \<in> nodes T" "\<forall>a\<in>nodes T. uval (nChainWork (blocks T a)) \<le> uval (nChainWork (blocks T h))"
      using T by (auto simp: tree_ok_def)
    have "length (nChainWork (blocks T h)) = 8" "length (nChainWork b) = 8" "B p = b"
      using tot [OF h(1)] totp B h(1) by (auto simp: totals_ok_def B_def)
    then have "CompareTo (nChainWork (blocks T h)) (nChainWork b) < 0 \<longleftrightarrow> uval (nChainWork (blocks T h)) < uval (nChainWork (B p))"
      by (simp add: CompareTo_sgn)
    then show ?thesis using h B Some nodes by (fastforce simp: T'_def)
  qed
  moreover have "blocks T' = B" by (simp add: T'_def)
  ultimately have "tree_ok T'" using tot totp nodes by (simp add: tree_ok_def split: option.splits)
  moreover have "pprev (B p) = prev" by (simp add: B_def b_def new_node_def)
  ultimately show ?thesis using add B by (auto simp: T'_def prev_def)
qed

subsection \<open>Median times\<close>

lemma sort_nth_count: "k < length xs \<Longrightarrow> length (filter (\<lambda>x. x < sort xs ! k) xs) \<le> k"
  for xs :: "int list"
proof -
  assume k: "k < length xs"
  let ?ys = "sort xs"
  have "i < k" if "i < length ?ys" "?ys ! i < ?ys ! k" for i
    using that sorted_nth_mono [of ?ys k i] by (metis linorder_not_le order_less_irrefl order_less_le_trans sorted_sort)
  then have "{i. i < length ?ys \<and> ?ys ! i < ?ys ! k} \<subseteq> {..<k}" by auto
  then have "length (filter (\<lambda>x. x < ?ys ! k) ?ys) \<le> k"
    unfolding length_filter_conv_card using card_mono [of "{..<k}"] by fastforce
  then show ?thesis by (simp add: filter_sort)
qed

lemma sort_nth_ge: "k < length xs \<Longrightarrow> length (filter (\<lambda>x. x < m) xs) \<le> k \<Longrightarrow> m \<le> sort xs ! k"
  for m :: int
proof (rule ccontr)
  assume k: "k < length xs" "length (filter (\<lambda>x. x < m) xs) \<le> k" and "\<not> m \<le> sort xs ! k"
  have "sort xs ! i < m" if "i \<le> k" for i
    using that k(1) sorted_nth_mono [of "sort xs" i k] \<open>\<not> m \<le> sort xs ! k\<close> by simp
  then have "{..k} \<subseteq> {i. i < length (sort xs) \<and> sort xs ! i < m}" using k(1) by auto
  then have "Suc k \<le> card {i. i < length (sort xs) \<and> sort xs ! i < m}"
    using card_mono [of "{i. i < length (sort xs) \<and> sort xs ! i < m}" "{..k}"] by simp
  then have "Suc k \<le> length (filter (\<lambda>x. x < m) (sort xs))" by (simp add: length_filter_conv_card)
  then show False using k(2) by (simp add: filter_sort)
qed

lemma past_times_Suc: "\<exists>ys. past_times B (Suc n) P = ys @ past_times B n P \<and> length ys \<le> 1"
proof (induction n arbitrary: P)
  case 0
  then show ?case by (cases P) auto
next
  case (Suc n)
  show ?case
  proof (cases P)
    case (Some p)
    from Suc [of "pprev (B p)"] obtain ys where "past_times B (Suc n) (pprev (B p)) = ys @ past_times B n (pprev (B p))" "length ys \<le> 1"
      by blast
    then show ?thesis using Some by auto
  qed simp
qed

text \<open>A block later than the median time of its parent does not have a smaller median time.\<close>

lemma GetMedianTimePast_step:
  assumes "pprev (B p) = Some q" "GetMedianTimePast B q < GetBlockTime (B p)"
  shows "GetMedianTimePast B q \<le> GetMedianTimePast B p"
proof -
  define m where "m = GetMedianTimePast B q"
  define old where "old = past_times B 11 (Some q)"
  define new where "new = past_times B 11 (Some p)"
  have n: "new = past_times B 10 (Some q) @ [GetBlockTime (B p)]" using assms(1) by (simp add: new_def numeral_eq_Suc)
  obtain ys where ys: "old = ys @ past_times B 10 (Some q)" "length ys \<le> 1"
    using past_times_Suc [of B 10 "Some q"] by (auto simp: old_def)
  have o: "0 < length old" by (simp add: old_def numeral_eq_Suc)
  have m: "m = sort old ! (length old div 2)" by (simp add: m_def GetMedianTimePast_def Let_def old_def)
  have "length (filter (\<lambda>x. x < m) new) \<le> length (filter (\<lambda>x. x < m) old)"
    using assms(2) by (simp add: n ys(1) m_def)
  also have "\<dots> \<le> length old div 2" unfolding m using o by (intro sort_nth_count) simp
  also have "\<dots> \<le> length new div 2" using ys(2) by (simp add: n ys(1) div_le_mono)
  finally have "m \<le> sort new ! (length new div 2)" by (intro sort_nth_ge) (simp_all add: n)
  then show ?thesis by (simp add: m_def GetMedianTimePast_def Let_def new_def)
qed

text \<open>Along a chain the greatest times do not decrease, so the halving search over them is sound.\<close>

lemma up_time_max:
  assumes "linked B U" "\<forall>p\<in>U. totals_ok B p" "p \<in> U" "up B k p = Some q"
  shows "GetBlockTimeMax (B q) \<le> GetBlockTimeMax (B p)"
  using assms(3,4)
proof (induction k arbitrary: p)
  case (Suc k)
  then obtain r where r: "pprev (B p) = Some r" "up B k r = Some q" by (auto split: option.splits)
  with linked_prev [OF assms(1) Suc.prems(1)] have "GetBlockTimeMax (B q) \<le> GetBlockTimeMax (B r)" using Suc.IH by blast
  also have "nTimeMax (B r) \<le> nTimeMax (B p)" using assms(2) Suc.prems(1) r(1) by (simp add: totals_ok_def)
  then have "GetBlockTimeMax (B r) \<le> GetBlockTimeMax (B p)" by (simp add: GetBlockTimeMax_def word_le_def)
  finally show ?case .
qed simp

lemma FindEarliestAtLeast_first:
  assumes "linked B U" "\<forall>p\<in>U. totals_ok B p" "chain_ok B U c"
  shows "case FindEarliestAtLeast B c t of
      None \<Rightarrow> \<forall>i<length c. GetBlockTimeMax (B (the (c ! i))) < t
    | Some p \<Rightarrow> \<exists>i<length c. c ! i = Some p \<and> t \<le> GetBlockTimeMax (B p) \<and> (\<forall>j<i. GetBlockTimeMax (B (the (c ! j))) < t)"
proof -
  let ?f = "\<lambda>p. GetBlockTimeMax (B (the p)) < t"
  have entry: "\<exists>a. c ! i = Some a \<and> a \<in> U" if "i < length c" for i
  proof -
    obtain u where u: "u \<in> U" "c = chain_of B u" using assms(3) \<open>i < length c\<close> by (auto simp: chain_ok_def)
    have "int (nat (nHeight (B u)) - i) \<le> nHeight (B u)" using linked_height [OF assms(1) u(1)] by linarith
    from up_some [OF assms(1) u(1) this] show ?thesis using that u(2) by (auto simp: chain_of_nth)
  qed
  have mono: "?f (c ! i)" if ij: "i < j" "j < length c" "?f (c ! j)" for i j
  proof -
    obtain u where u: "u \<in> U" "c = chain_of B u" using assms(3) ij by (auto simp: chain_ok_def)
    obtain a b where ab: "c ! i = Some a" "c ! j = Some b" using entry ij by (meson less_trans)
    have j: "chain_of B u ! j = Some b" "j \<le> nat (nHeight (B u))" "i \<le> j" using ij u(2) ab by auto
    have "up B (j - i) b = Some a" "b \<in> U" using chain_of_below(1,2) [OF assms(1) u(1) j] ab(1) u(2) by auto
    from up_time_max [OF assms(1,2) this(2,1)] show ?thesis using ij(3) ab by simp
  qed
  have part: "lower_bound ?f c 0 (length c) \<le> length c \<and> (\<forall>i<lower_bound ?f c 0 (length c). ?f (c ! i)) \<and>
      (\<forall>i<length c. lower_bound ?f c 0 (length c) \<le> i \<longrightarrow> \<not> ?f (c ! i))"
    using mono by (intro lower_bound_partition) auto
  define r where "r = lower_bound ?f c 0 (length c)"
  show ?thesis
  proof (cases "r = length c")
    case True
    then show ?thesis using part by (simp add: FindEarliestAtLeast_def r_def)
  next
    case False
    then have l: "r < length c" using part by (simp add: r_def)
    then obtain a where a: "c ! r = Some a" using entry by blast
    have "\<not> ?f (c ! r)" using part l by (auto simp: r_def)
    then show ?thesis using False l a part by (auto simp: FindEarliestAtLeast_def r_def [symmetric] intro!: exI [of _ r])
  qed
qed

section \<open>Properties\<close>

text \<open>C10. Entering a header into a well-formed tree of headers keeps it well-formed: parents are one lower, every skip pointer leads to the ancestor
  of its skip height, hashes find their objects, work and greatest times accumulate, and the best header has the greatest work. The call does not fail
  and changes no object that is there. If there is an object for the hash of the header it is returned, and nothing changes. Otherwise the header gets
  a new object, linked to the object of the parent hash; its hash is added to the map, and no other entry of the map changes. The assumptions: a
  header is not its own parent, and one without a known parent has height 0.\<close>

theorem AddToBlockIndex_keeps_tree:
  assumes "tree_ok T" "hashPrevBlock block \<noteq> hdrHash block"
    and "mapBlockIndex T (hashPrevBlock block) = None \<longrightarrow> hdrHeight block = 0"
  shows "\<exists>p T'. AddToBlockIndex hdrHash block T = Inr (p, T') \<and> tree_ok T' \<and> mapBlockIndex T' = (mapBlockIndex T)(hdrHash block \<mapsto> p) \<and>
    (\<forall>a\<in>nodes T. blocks T' a = blocks T a) \<and>
    (case mapBlockIndex T (hdrHash block) of
       Some q \<Rightarrow> p = q \<and> T' = T
     | None \<Rightarrow> p \<notin> nodes T \<and> pprev (blocks T' p) = mapBlockIndex T (hashPrevBlock block))"
proof (cases "mapBlockIndex T (hdrHash block)")
  case None
  from AddToBlockIndex_tree [where hdrHash = hdrHash and block = block, OF assms(1) None assms(2,3)] obtain p T' where
    a: "AddToBlockIndex hdrHash block T = Inr (p, T')" "tree_ok T'" "mapBlockIndex T' = (mapBlockIndex T)(hdrHash block \<mapsto> p)"
      "\<forall>a\<in>nodes T. blocks T' a = blocks T a" "pprev (blocks T' p) = mapBlockIndex T (hashPrevBlock block)"
    by blast
  have "p = nextAddr T" using AddToBlockIndex_new [where hdrHash = hdrHash and block = block, OF assms(1) None assms(2) refl refl] a(1) by simp
  then have "p \<notin> nodes T" using assms(1) by (auto simp: tree_ok_def nodes_def)
  with a None show ?thesis by (intro exI [of _ p] exI [of _ T']) simp
next
  case (Some p)
  then have "(mapBlockIndex T)(hdrHash block \<mapsto> p) = mapBlockIndex T" by (rule map_upd_triv)
  with Some assms(1) show ?thesis by (simp add: AddToBlockIndex_def)
qed

definition empty_tree :: block_tree where
  "empty_tree = \<lparr>blocks = (\<lambda>_. new_block_index Header_SetNull []),
     mapBlockIndex = Map.empty, pindexBestHeader = None, nextAddr = 0\<rparr>"

lemma empty_tree_ok: "tree_ok empty_tree"
  by (simp add: tree_ok_def empty_tree_def nodes_def index_ok_def linked_def skips_def)

theorem AddToBlockIndex_keeps_tree_witness:
  "\<exists>p T'. AddToBlockIndex (\<lambda>_. [1]) (Header_SetNull\<lparr>hashPrevBlock := [0], hdrTime := 7, hdrBits := 0x207fffff\<rparr>) empty_tree = Inr (p, T') \<and>
    tree_ok T' \<and> mapBlockIndex T' [1] = Some p"
  using AddToBlockIndex_keeps_tree [OF empty_tree_ok,
      of "Header_SetNull\<lparr>hashPrevBlock := [0], hdrTime := 7, hdrBits := 0x207fffff\<rparr>" "\<lambda>_. [1]"]
  by (auto simp: Header_SetNull_def)

text \<open>C22. In a well-formed index: the skip list finds the same ancestor as the walk along the predecessors, and nothing
  outside the range of heights; setting a tip on a chain returns and makes the vector the chain of the new tip; the fork of
  the chain with a block is found, and is the highest ancestor of the block in the chain; the locator of a block lists
  hashes of its ancestors from the block itself down to the first block, each further back than the one before, and has at
  most \<open>11 + k\<close> entries for a height below \<open>10 + 2 ^ k\<close>.\<close>

theorem chain_navigation:
  assumes "index_ok B U" "chain_ok B U c" "p \<in> U"
  shows "GetAncestor B h p = Inr (if h < 0 \<or> h > nHeight (B p) then None else up B (nat (nHeight (B p) - h)) p) \<and>
    SetTip B (Some p) c = Some (Inr (chain_of B p)) \<and>
    (\<exists>r. FindFork B c (Some p) = Some (Inr r) \<and> is_fork B c p r) \<and>
    (\<exists>ks. GetLocator B c (Some p) = Some (Inr (map (\<lambda>i. phashBlock (B (the (up B i p)))) ks)) \<and>
       ks \<noteq> [] \<and> hd ks = 0 \<and> last ks = nat (nHeight (B p)) \<and> sorted_wrt (<) ks \<and>
       (\<forall>k. nHeight (B p) < 10 + 2 ^ k \<longrightarrow> length ks \<le> 11 + k))"
proof -
  define h0 where "h0 = nat (nHeight (B p))"
  have h0: "nHeight (B p) = int h0" using assms linked_height [of B U p] by (simp add: index_ok_def h0_def)
  have loc: "\<exists>ks. GetLocator B c (Some p) = Some (Inr (map (\<lambda>i. phashBlock (B (the (up B i p)))) ks)) \<and>
      ks \<noteq> [] \<and> hd ks = 0 \<and> last ks = h0 \<and> sorted_wrt (<) ks \<and> length ks \<le> 11 + k" if "h0 < 10 + 2 ^ k" for k
  proof -
    have "h0 \<le> (10 - length ([] :: bytes list)) + 2 ^ (length ([] :: bytes list) - 10) * (2 ^ k - 1)" using that by simp
    from locator_loop_lists [OF assms h0 this] show ?thesis by (simp add: GetLocator_def)
  qed
  have "h0 < 10 + 2 ^ h0" using less_exp [of h0] by linarith
  from loc [OF this] obtain ks where ks: "GetLocator B c (Some p) = Some (Inr (map (\<lambda>i. phashBlock (B (the (up B i p)))) ks))"
    "ks \<noteq> []" "hd ks = 0" "last ks = h0" "sorted_wrt (<) ks" by blast
  have "length ks \<le> 11 + k" if "nHeight (B p) < 10 + 2 ^ k" for k
  proof -
    have "int h0 < int (10 + 2 ^ k)" using that h0 by simp
    then have "h0 < 10 + 2 ^ k" by (simp only: of_nat_less_iff)
    from loc [OF this] ks(1) show ?thesis by (metis length_map option.inject sum.inject(2))
  qed
  with ks show ?thesis
    using GetAncestor_up [OF assms(1,3)] SetTip_chain [OF _ assms(2,3)] FindFork_finds [OF assms(1,3), of c] assms(1) h0
    by (auto simp: index_ok_def)
qed

definition demo_store :: store where
  "demo_store p = (new_block_index (Header_SetNull\<lparr>hdrTime := of_nat p\<rparr>) [of_nat p])
     \<lparr>nHeight := int p, pprev := (if p = 0 then None else Some (p - 1))\<rparr>"

lemma demo_store_ok: "index_ok demo_store UNIV"
  by (auto simp: index_ok_def linked_def skips_def demo_store_def new_block_index_def)

theorem chain_navigation_witness:
  "GetAncestor demo_store 1 3 = Inr (Some 1) \<and> SetTip demo_store (Some 2) [] = Some (Inr [Some 0, Some 1, Some 2])"
proof -
  have "chain_ok demo_store UNIV []" by (simp add: chain_ok_def)
  from chain_navigation [OF demo_store_ok this, of 3 1] chain_navigation [OF demo_store_ok this, of 2 0] show ?thesis
    by (simp add: demo_store_def new_block_index_def numeral_2_eq_2 chain_of_def)
qed

end
