(* ===== verification/VersionBits.thy ===== *)
theory VersionBits
  imports Chain
begin

text \<open>
  Deployment of rule changes by the bits of block versions (\<open>src/src/versionbits.h\<close>, \<open>versionbits.cpp\<close>). The
  abstract class of the code is the record \<open>checker\<close> of its virtual functions at given parameters; the cache of
  states is a map keyed by the parent block, \<open>None\<close> for the parent of the first block. The reference \<open>state_after\<close>
  computes the state period by period from the start, without a cache; \<open>GetStateFor\<close> with any cache filled by the
  code is shown to agree with it.
\<close>

section \<open>Model\<close>

datatype ThresholdState = THRESHOLD_DEFINED | THRESHOLD_STARTED | THRESHOLD_LOCKED_IN | THRESHOLD_ACTIVE | THRESHOLD_FAILED

record checker =
  Condition :: "block_index \<Rightarrow> bool"
  BeginTime :: int
  EndTime :: int
  Period :: int
  Threshold :: int

type_synonym ThresholdConditionCache = "addr option \<Rightarrow> ThresholdState option"

text \<open>The first block of the period of a block, as the parent that the state is computed for.\<close>

definition period_parent :: "store \<Rightarrow> checker \<Rightarrow> addr \<Rightarrow> chain_error + addr option" where
  "period_parent B k p = GetAncestor B (nHeight (B p) - (nHeight (B p) + 1) mod Period k) p"

text \<open>The walk backwards: the blocks still to compute are stacked.\<close>

partial_function (option) walk_back ::
  "store \<Rightarrow> checker \<Rightarrow> addr option \<Rightarrow> ThresholdConditionCache \<Rightarrow> addr list \<Rightarrow> (chain_error + addr option \<times> ThresholdConditionCache \<times> addr list) option" where
  "walk_back B k pindexPrev cache vToCompute =
     (if cache pindexPrev \<noteq> None then Some (Inr (pindexPrev, cache, vToCompute))
      else case pindexPrev of
        None \<Rightarrow> Some (Inr (None, cache(None \<mapsto> THRESHOLD_DEFINED), vToCompute))
      | Some p \<Rightarrow>
          if GetMedianTimePast B p < BeginTime k then Some (Inr (pindexPrev, cache(pindexPrev \<mapsto> THRESHOLD_DEFINED), vToCompute))
          else (case GetAncestor B (nHeight (B p) - Period k) p of
                  Inl e \<Rightarrow> Some (Inl e)
                | Inr q \<Rightarrow> walk_back B k q cache (p # vToCompute)))"

primrec count_loop :: "store \<Rightarrow> checker \<Rightarrow> nat \<Rightarrow> addr option \<Rightarrow> int \<Rightarrow> chain_error + int" where
  "count_loop B k 0 pindexCount cnt = Inr cnt"
| "count_loop B k (Suc i) pindexCount cnt =
     (case pindexCount of
        None \<Rightarrow> Inl NullDeref
      | Some p \<Rightarrow> count_loop B k i (pprev (B p)) (if Condition k (B p) then cnt + 1 else cnt))"

definition next_state :: "store \<Rightarrow> checker \<Rightarrow> addr \<Rightarrow> ThresholdState \<Rightarrow> chain_error + ThresholdState" where
  "next_state B k p st =
     (case st of
        THRESHOLD_DEFINED \<Rightarrow>
          if GetMedianTimePast B p \<ge> EndTime k then Inr THRESHOLD_FAILED
          else if GetMedianTimePast B p \<ge> BeginTime k then Inr THRESHOLD_STARTED else Inr st
      | THRESHOLD_STARTED \<Rightarrow>
          if GetMedianTimePast B p \<ge> EndTime k then Inr THRESHOLD_FAILED
          else bindE (count_loop B k (nat (Period k)) (Some p) 0) (\<lambda>cnt.
            if cnt \<ge> Threshold k then Inr THRESHOLD_LOCKED_IN else Inr st)
      | THRESHOLD_LOCKED_IN \<Rightarrow> Inr THRESHOLD_ACTIVE
      | THRESHOLD_FAILED \<Rightarrow> Inr st
      | THRESHOLD_ACTIVE \<Rightarrow> Inr st)"

primrec walk_forward ::
  "store \<Rightarrow> checker \<Rightarrow> addr list \<Rightarrow> ThresholdState \<Rightarrow> ThresholdConditionCache \<Rightarrow> chain_error + ThresholdState \<times> ThresholdConditionCache" where
  "walk_forward B k [] st cache = Inr (st, cache)"
| "walk_forward B k (p # vToCompute) st cache =
     bindE (next_state B k p st) (\<lambda>stateNext. walk_forward B k vToCompute stateNext (cache(Some p \<mapsto> stateNext)))"

definition GetStateFor ::
  "store \<Rightarrow> checker \<Rightarrow> addr option \<Rightarrow> ThresholdConditionCache \<Rightarrow> (chain_error + ThresholdState \<times> ThresholdConditionCache) option" where
  "GetStateFor B k pindexPrev cache =
     (case (case pindexPrev of None \<Rightarrow> Inr None | Some p \<Rightarrow> period_parent B k p) of
        Inl e \<Rightarrow> Some (Inl e)
      | Inr start \<Rightarrow>
          (case walk_back B k start cache [] of
             None \<Rightarrow> None
           | Some (Inl e) \<Rightarrow> Some (Inl e)
           | Some (Inr (found, cache, vToCompute)) \<Rightarrow> Some (walk_forward B k vToCompute (the (cache found)) cache)))"

partial_function (option) since_loop ::
  "store \<Rightarrow> checker \<Rightarrow> ThresholdState \<Rightarrow> addr \<Rightarrow> addr option \<Rightarrow> ThresholdConditionCache \<Rightarrow> (chain_error + int \<times> ThresholdConditionCache) option" where
  "since_loop B k initialState p previousPeriodParent cache =
     (case previousPeriodParent of
        None \<Rightarrow> Some (Inr (nHeight (B p) + 1, cache))
      | Some q \<Rightarrow>
          (case GetStateFor B k (Some q) cache of
             None \<Rightarrow> None
           | Some (Inl e) \<Rightarrow> Some (Inl e)
           | Some (Inr (st, cache)) \<Rightarrow>
               if st = initialState then
                 (case GetAncestor B (nHeight (B q) - Period k) q of
                    Inl e \<Rightarrow> Some (Inl e)
                  | Inr r \<Rightarrow> since_loop B k initialState q r cache)
               else Some (Inr (nHeight (B p) + 1, cache))))"

definition GetStateSinceHeightFor ::
  "store \<Rightarrow> checker \<Rightarrow> addr option \<Rightarrow> ThresholdConditionCache \<Rightarrow> (chain_error + int \<times> ThresholdConditionCache) option" where
  "GetStateSinceHeightFor B k pindexPrev cache =
     (case GetStateFor B k pindexPrev cache of
        None \<Rightarrow> None
      | Some (Inl e) \<Rightarrow> Some (Inl e)
      | Some (Inr (initialState, cache)) \<Rightarrow>
          if initialState = THRESHOLD_DEFINED then Some (Inr (0, cache))
          else (case pindexPrev of
                  None \<Rightarrow> Some (Inl NullDeref)
                | Some p \<Rightarrow>
                    (case period_parent B k p of
                       Inl e \<Rightarrow> Some (Inl e)
                     | Inr None \<Rightarrow> Some (Inl NullDeref)
                     | Inr (Some q) \<Rightarrow>
                         (case GetAncestor B (nHeight (B q) - Period k) q of
                            Inl e \<Rightarrow> Some (Inl e)
                          | Inr r \<Rightarrow> since_loop B k initialState q r cache))))"

text \<open>The checker of a deployment.\<close>

record BIP9Deployment =
  bit_pos :: nat
  nStartTime :: int
  nTimeout :: int

definition VersionBitsMask :: "BIP9Deployment \<Rightarrow> u32" where
  "VersionBitsMask d = push_bit (bit_pos d) 1"

definition VersionBitsConditionChecker :: "BIP9Deployment \<Rightarrow> int \<Rightarrow> int \<Rightarrow> checker" where
  "VersionBitsConditionChecker d nMinerConfirmationWindow nRuleChangeActivationThreshold =
     \<lparr>Condition = (\<lambda>b. (word_of_int (blkVersion b) :: u32) AND 0xE0000000 = 0x20000000 \<and>
                      (word_of_int (blkVersion b) :: u32) AND VersionBitsMask d \<noteq> 0),
      BeginTime = nStartTime d, EndTime = nTimeout d,
      Period = nMinerConfirmationWindow, Threshold = nRuleChangeActivationThreshold\<rparr>"

definition VersionBitsState ::
  "store \<Rightarrow> BIP9Deployment \<Rightarrow> int \<Rightarrow> int \<Rightarrow> addr option \<Rightarrow> ThresholdConditionCache \<Rightarrow> (chain_error + ThresholdState \<times> ThresholdConditionCache) option" where
  "VersionBitsState B d window threshold pindexPrev cache =
     GetStateFor B (VersionBitsConditionChecker d window threshold) pindexPrev cache"

definition VersionBitsStateSinceHeight ::
  "store \<Rightarrow> BIP9Deployment \<Rightarrow> int \<Rightarrow> int \<Rightarrow> addr option \<Rightarrow> ThresholdConditionCache \<Rightarrow> (chain_error + int \<times> ThresholdConditionCache) option" where
  "VersionBitsStateSinceHeight B d window threshold pindexPrev cache =
     GetStateSinceHeightFor B (VersionBitsConditionChecker d window threshold) pindexPrev cache"

section \<open>Reference\<close>






section \<open>The code follows the reference\<close>




















section \<open>The state machine\<close>

inductive bip9_trans :: "ThresholdState \<Rightarrow> ThresholdState \<Rightarrow> bool" where
  "bip9_trans st st" if "st \<noteq> THRESHOLD_LOCKED_IN"
| "bip9_trans THRESHOLD_DEFINED THRESHOLD_STARTED"
| "bip9_trans THRESHOLD_DEFINED THRESHOLD_FAILED"
| "bip9_trans THRESHOLD_STARTED THRESHOLD_LOCKED_IN"
| "bip9_trans THRESHOLD_STARTED THRESHOLD_FAILED"
| "bip9_trans THRESHOLD_LOCKED_IN THRESHOLD_ACTIVE"

inductive_simps bip9_trans_from [simp]:
  "bip9_trans THRESHOLD_ACTIVE st" "bip9_trans THRESHOLD_FAILED st" "bip9_trans THRESHOLD_LOCKED_IN st"









section \<open>Termination\<close>

text \<open>The walks end for every cache, also one with wrong entries.\<close>

lemma ancestor_lower:
  assumes "index_ok B U" "p \<in> U" "0 < n" "GetAncestor B (nHeight (B p) - n) p = Inr (Some q)"
  shows "q \<in> U \<and> nat (nHeight (B q) + 1) < nat (nHeight (B p) + 1)"
proof -
  have l: "linked B U" using assms(1) by (simp add: index_ok_def)
  then have "up B (nat n) p = Some q" using assms(3,4) GetAncestor_up [OF assms(1,2)] by (auto split: if_splits)
  from up_height [OF l assms(2) this] linked_height [OF l assms(2)] assms(3) show ?thesis by auto
qed

lemma walk_back_ends:
  assumes "index_ok B U" "0 < Period k" "case p of None \<Rightarrow> True | Some a \<Rightarrow> a \<in> U"
  shows "walk_back B k p cache acc \<noteq> None"
  using assms(3)
proof (induction "case p of None \<Rightarrow> 0 | Some a \<Rightarrow> nat (nHeight (B a) + 1)" arbitrary: p acc rule: less_induct)
  case less
  show ?case
  proof (cases p)
    case None
    then show ?thesis by (subst walk_back.simps) simp
  next
    case (Some a)
    have "walk_back B k q cache (a # acc) \<noteq> None" if "GetAncestor B (nHeight (B a) - Period k) a = Inr q" for q
    proof (rule less.hyps)
      show "(case q of None \<Rightarrow> 0 | Some b \<Rightarrow> nat (nHeight (B b) + 1)) < (case p of None \<Rightarrow> 0 | Some a \<Rightarrow> nat (nHeight (B a) + 1))"
        "case q of None \<Rightarrow> True | Some b \<Rightarrow> b \<in> U"
        using ancestor_lower [OF assms(1) _ assms(2)] that less.prems Some assms(1) linked_height [of B U a]
        by (force simp: index_ok_def split: option.split)+
    qed
    then show ?thesis using Some by (subst walk_back.simps) (auto split: sum.split)
  qed
qed

lemma GetStateFor_ends:
  assumes "index_ok B U" "0 < Period k" "case p of None \<Rightarrow> True | Some a \<Rightarrow> a \<in> U"
  shows "GetStateFor B k p cache \<noteq> None"
proof -
  have "case s of None \<Rightarrow> True | Some a \<Rightarrow> a \<in> U" if "(case p of None \<Rightarrow> Inr None | Some a \<Rightarrow> period_parent B k a) = Inr s" for s
    using that assms(1,3) GetAncestor_up [OF assms(1)] up_height [of B U]
    by (auto simp: period_parent_def index_ok_def split: option.splits if_splits)
  from walk_back_ends [OF assms(1,2) this] show ?thesis
    by (cases "case p of None \<Rightarrow> Inr None | Some a \<Rightarrow> period_parent B k a") (auto simp: GetStateFor_def split: sum.split option.split)
qed

lemma since_loop_ends:
  assumes "index_ok B U" "0 < Period k" "case q of None \<Rightarrow> True | Some a \<Rightarrow> a \<in> U"
  shows "since_loop B k st p q cache \<noteq> None"
  using assms(3)
proof (induction "case q of None \<Rightarrow> 0 | Some a \<Rightarrow> nat (nHeight (B a) + 1)" arbitrary: p q cache rule: less_induct)
  case less
  show ?case
  proof (cases q)
    case None
    then show ?thesis by (subst since_loop.simps) simp
  next
    case (Some a)
    have "since_loop B k st a r c \<noteq> None" if "GetAncestor B (nHeight (B a) - Period k) a = Inr r" for r c
    proof (rule less.hyps)
      show "(case r of None \<Rightarrow> 0 | Some b \<Rightarrow> nat (nHeight (B b) + 1)) < (case q of None \<Rightarrow> 0 | Some a \<Rightarrow> nat (nHeight (B a) + 1))"
        "case r of None \<Rightarrow> True | Some b \<Rightarrow> b \<in> U"
        using ancestor_lower [OF assms(1) _ assms(2)] that less.prems Some assms(1) linked_height [of B U a]
        by (force simp: index_ok_def split: option.split)+
    qed
    moreover have "GetStateFor B k q cache \<noteq> None" by (rule GetStateFor_ends [OF assms(1,2) less.prems])
    ultimately show ?thesis using Some by (subst since_loop.simps) (auto split: sum.split)
  qed
qed

lemma GetStateSinceHeightFor_ends:
  assumes "index_ok B U" "0 < Period k" "case p of None \<Rightarrow> True | Some a \<Rightarrow> a \<in> U"
  shows "GetStateSinceHeightFor B k p cache \<noteq> None"
proof -
  have "since_loop B k st q r c \<noteq> None"
    if "p = Some a" "period_parent B k a = Inr (Some q)" "GetAncestor B (nHeight (B q) - Period k) q = Inr r" for a q r st c
  proof (rule since_loop_ends [OF assms(1,2)])
    have "q \<in> U" using that(1,2) assms GetAncestor_up [OF assms(1), of a] up_height [of B U a]
      by (auto simp: period_parent_def index_ok_def split: if_splits)
    then show "case r of None \<Rightarrow> True | Some b \<Rightarrow> b \<in> U"
      using that(3) ancestor_lower [OF assms(1) _ assms(2)] by (auto split: option.split)
  qed
  then show ?thesis using GetStateFor_ends [OF assms]
    by (fastforce simp: GetStateSinceHeightFor_def split: option.split sum.split)
qed

section \<open>Properties\<close>









text \<open>C30. Over a well-formed index, the computations of the state of a deployment and of the height it began at end, for every cache (also one with
  wrong entries), as long as the confirmation window is not empty.\<close>

theorem versionbits_terminate:
  assumes "index_ok B U" "0 < window" "case p of None \<Rightarrow> True | Some a \<Rightarrow> a \<in> U"
  shows "(\<exists>r. VersionBitsState B d window threshold p cache = Some r) \<and> (\<exists>r. VersionBitsStateSinceHeight B d window threshold p cache = Some r)"
  using GetStateFor_ends [OF assms(1) _ assms(3), of "VersionBitsConditionChecker d window threshold" cache]
    GetStateSinceHeightFor_ends [OF assms(1) _ assms(3), of "VersionBitsConditionChecker d window threshold" cache] assms(2)
  by (auto simp: VersionBitsState_def VersionBitsStateSinceHeight_def VersionBitsConditionChecker_def)

theorem versionbits_terminate_witness:
  "\<exists>r. VersionBitsStateSinceHeight demo_store \<lparr>bit_pos = 0, nStartTime = 2, nTimeout = 50\<rparr> 3 2 (Some 20) [Some 5 \<mapsto> THRESHOLD_FAILED] = Some r"
  using versionbits_terminate [OF demo_store_ok, of 3 "Some 20"] by simp

end
