(* ===== verification/TxVerify.thy ===== *)
theory TxVerify
  imports Coins SigHash Chain
begin

text \<open>
  The checks of a transaction (\<open>src/src/validation.cpp\<close>, lines 287-821 and 2088-2285; the copies of some of them in
  \<open>consensus/tx_verify.cpp\<close> are not part of the build): finality, relative lock times, signature operation counts,
  the checks without and with context, the inputs and their scripts, and the state that records a rejection
  (\<open>src/src/consensus/validation.h\<close>). A check returns \<open>Inl\<close> where it returns false or the process ends, and otherwise
  the state. The checks of the private transaction types (Sigma, Lelantus, Spark) and the parsers of their proofs are
  parameters. Texts for the log and the debug message are left out.
\<close>

section \<open>Validation state\<close>

datatype mode_state = MODE_VALID | MODE_INVALID | MODE_ERROR

record CValidationState =
  mode :: mode_state
  nDoS :: int
  strRejectReason :: string
  chRejectCode :: nat
  corruptionPossible :: bool

definition new_state :: CValidationState where
  "new_state = \<lparr>mode = MODE_VALID, nDoS = 0, strRejectReason = [], chRejectCode = 0, corruptionPossible = False\<rparr>"

definition DoS :: "int \<Rightarrow> nat \<Rightarrow> string \<Rightarrow> bool \<Rightarrow> CValidationState \<Rightarrow> CValidationState" where
  "DoS level chRejectCodeIn strRejectReasonIn corruptionIn s =
     (let s = s\<lparr>chRejectCode := chRejectCodeIn, strRejectReason := strRejectReasonIn, corruptionPossible := corruptionIn\<rparr>
      in if mode s = MODE_ERROR then s else s\<lparr>nDoS := nDoS s + level, mode := MODE_INVALID\<rparr>)"

definition Invalid :: "nat \<Rightarrow> string \<Rightarrow> CValidationState \<Rightarrow> CValidationState" where
  "Invalid code reason s = DoS 0 code reason False s"

definition Error :: "string \<Rightarrow> CValidationState \<Rightarrow> CValidationState" where
  "Error strRejectReasonIn s =
     (let s = (if mode s = MODE_VALID then s\<lparr>strRejectReason := strRejectReasonIn\<rparr> else s) in s\<lparr>mode := MODE_ERROR\<rparr>)"

datatype verify_error =
    Rejected CValidationState | AssertUnspent | AssertScript | AssertSpark | AssertMixHash | AssertBestBlock | ValueOutThrows | ProofThrows
  | ChainError chain_error | PowError pow_error | CoinsError coins_error | NotEnded

abbreviation (input) REJECT_MALFORMED :: nat where "REJECT_MALFORMED \<equiv> 0x01"
abbreviation (input) REJECT_INVALID :: nat where "REJECT_INVALID \<equiv> 0x10"
abbreviation (input) REJECT_NONSTANDARD :: nat where "REJECT_NONSTANDARD \<equiv> 0x40"

definition fail_if :: "bool \<Rightarrow> int \<Rightarrow> string \<Rightarrow> CValidationState \<Rightarrow> verify_error + CValidationState" where
  "fail_if b level reason s = (if b then Inl (Rejected (DoS level REJECT_INVALID reason False s)) else Inr s)"

section \<open>Finality and relative lock times\<close>

definition IsFinalTx :: "CTransaction \<Rightarrow> int \<Rightarrow> int \<Rightarrow> bool" where
  "IsFinalTx tx nBlockHeight nBlockTime \<longleftrightarrow>
     (if nLockTime tx = 0 then True
      else if uint (nLockTime tx) < (if uint (nLockTime tx) < LOCKTIME_THRESHOLD then nBlockHeight else nBlockTime) then True
      else list_all (\<lambda>txin. nSequence txin = SEQUENCE_FINAL) (vin tx))"

text \<open>The adjusted time of the node is an argument; the flags only have their sign removed.\<close>

definition CheckFinalTx :: "CChain \<Rightarrow> int \<Rightarrow> CTransaction \<Rightarrow> int \<Rightarrow> bool" where
  "CheckFinalTx chainActive adjustedTime tx flags = IsFinalTx tx (Height chainActive + 1) adjustedTime"

fun sequence_loop ::
  "store \<Rightarrow> addr \<Rightarrow> CTxIn list \<Rightarrow> int list \<Rightarrow> int \<Rightarrow> int \<Rightarrow> chain_error + (int \<times> int) \<times> int list" where
  "sequence_loop B block (txin # vins) (nCoinHeight # prevHeights) nMinHeight nMinTime =
     (if nSequence txin AND SEQUENCE_LOCKTIME_DISABLE_FLAG \<noteq> 0 then
        bindE (sequence_loop B block vins prevHeights nMinHeight nMinTime) (\<lambda>(locks, hs). Inr (locks, 0 # hs))
      else if nSequence txin AND SEQUENCE_LOCKTIME_TYPE_FLAG \<noteq> 0 then
        bindE (GetAncestor B (max (nCoinHeight - 1) 0) block) (\<lambda>a.
          case a of
            None \<Rightarrow> Inl NullDeref
          | Some a \<Rightarrow>
              let nCoinTime = GetMedianTimePast B a
              in bindE (sequence_loop B block vins prevHeights nMinHeight
                   (max nMinTime (nCoinTime + uint (push_bit 9 (nSequence txin AND SEQUENCE_LOCKTIME_MASK)) - 1))) (\<lambda>(locks, hs).
                 Inr (locks, nCoinHeight # hs)))
      else
        bindE (sequence_loop B block vins prevHeights
                 (max nMinHeight (nCoinHeight + uint (nSequence txin AND SEQUENCE_LOCKTIME_MASK) - 1)) nMinTime) (\<lambda>(locks, hs).
          Inr (locks, nCoinHeight # hs)))"
| "sequence_loop B block vins prevHeights nMinHeight nMinTime = Inr ((nMinHeight, nMinTime), [])"

abbreviation (input) LOCKTIME_VERIFY_SEQUENCE :: u32 where "LOCKTIME_VERIFY_SEQUENCE \<equiv> 1"

definition CalculateSequenceLocks ::
  "store \<Rightarrow> addr \<Rightarrow> CTransaction \<Rightarrow> u32 \<Rightarrow> int list \<Rightarrow> chain_error + (int \<times> int) \<times> int list" where
  "CalculateSequenceLocks B block tx flags prevHeights =
     (if length prevHeights \<noteq> length (vin tx) then Inl OutOfRange
      else if \<not> ((word_of_int (nVersion tx) :: u32) \<ge> 2 \<and> flags AND LOCKTIME_VERIFY_SEQUENCE \<noteq> 0) then Inr ((- 1, - 1), prevHeights)
      else sequence_loop B block (vin tx) prevHeights (- 1) (- 1))"

definition EvaluateSequenceLocks :: "store \<Rightarrow> addr \<Rightarrow> int \<times> int \<Rightarrow> chain_error + bool" where
  "EvaluateSequenceLocks B block lockPair =
     (case pprev (B block) of
        None \<Rightarrow> Inl AssertPrev
      | Some q \<Rightarrow>
          let nBlockTime = GetMedianTimePast B q
          in Inr (\<not> (fst lockPair \<ge> nHeight (B block) \<or> snd lockPair \<ge> nBlockTime)))"

definition SequenceLocks :: "store \<Rightarrow> addr \<Rightarrow> CTransaction \<Rightarrow> u32 \<Rightarrow> int list \<Rightarrow> chain_error + bool" where
  "SequenceLocks B block tx flags prevHeights =
     bindE (CalculateSequenceLocks B block tx flags prevHeights) (\<lambda>(locks, _). EvaluateSequenceLocks B block locks)"

section \<open>Signature operations\<close>

definition GetLegacySigOpCount :: "CTransaction \<Rightarrow> u32" where
  "GetLegacySigOpCount tx =
     fold (\<lambda>txout n. n + GetSigOpCount (scriptPubKey txout) False) (vout tx)
       (fold (\<lambda>txin n. n + GetSigOpCount (scriptSig txin) False) (vin tx) 0)"

primrec p2sh_sigops_loop ::
  "(bytes \<Rightarrow> nat) \<Rightarrow> 'v coin_getter \<Rightarrow> CTxIn list \<Rightarrow> u32 \<Rightarrow> 'v CCoinsViewCache \<Rightarrow> verify_error + u32 \<times> 'v CCoinsViewCache" where
  "p2sh_sigops_loop usage get [] n inputs = Inr (n, inputs)"
| "p2sh_sigops_loop usage get (txin # vins) n inputs =
     (case AccessCoin usage get (prevout txin) inputs of (c, inputs) \<Rightarrow>
        if IsSpent c then Inl AssertUnspent
        else let script = scriptPubKey (coinOut c)
        in p2sh_sigops_loop usage get vins (if IsPayToScriptHash script then n + GetSigOpCount_P2SH script (scriptSig txin) else n) inputs)"

definition GetP2SHSigOpCount ::
  "(bytes \<Rightarrow> nat) \<Rightarrow> 'v coin_getter \<Rightarrow> CTransaction \<Rightarrow> 'v CCoinsViewCache \<Rightarrow> verify_error + u32 \<times> 'v CCoinsViewCache" where
  "GetP2SHSigOpCount usage get tx inputs =
     (if IsCoinBase tx \<or> HasNoRegularInputs tx then Inr (0, inputs) else p2sh_sigops_loop usage get (vin tx) 0 inputs)"

primrec witness_sigops_loop ::
  "(bytes \<Rightarrow> nat) \<Rightarrow> 'v coin_getter \<Rightarrow> u32 \<Rightarrow> CTxIn list \<Rightarrow> int \<Rightarrow> 'v CCoinsViewCache \<Rightarrow> verify_error + int \<times> 'v CCoinsViewCache" where
  "witness_sigops_loop usage get flags [] n inputs = Inr (n, inputs)"
| "witness_sigops_loop usage get flags (txin # vins) n inputs =
     (case AccessCoin usage get (prevout txin) inputs of (c, inputs) \<Rightarrow>
        (case CountWitnessSigOps (scriptSig txin) (scriptPubKey (coinOut c)) (scriptWitness txin) flags of
           None \<Rightarrow> Inl AssertScript
         | Some k \<Rightarrow> witness_sigops_loop usage get flags vins (n + int k) inputs))"

definition GetTransactionSigOpCost ::
  "(bytes \<Rightarrow> nat) \<Rightarrow> 'v coin_getter \<Rightarrow> CTransaction \<Rightarrow> 'v CCoinsViewCache \<Rightarrow> u32 \<Rightarrow> verify_error + int \<times> 'v CCoinsViewCache" where
  "GetTransactionSigOpCost usage get tx inputs flags =
     (let nSigOps = uint (GetLegacySigOpCount tx * 4)
      in if IsCoinBase tx \<or> HasNoRegularInputs tx then Inr (nSigOps, inputs)
         else bindE (if has_flag flags SCRIPT_VERIFY_P2SH then
                       bindE (GetP2SHSigOpCount usage get tx inputs) (\<lambda>(n, inputs). Inr (nSigOps + uint (n * 4), inputs))
                     else Inr (nSigOps, inputs)) (\<lambda>(nSigOps, inputs).
              witness_sigops_loop usage get flags (vin tx) nSigOps inputs))"

section \<open>Checks without inputs\<close>

abbreviation (input) TRANSACTION_COINBASE :: int where "TRANSACTION_COINBASE \<equiv> 5"
abbreviation (input) TRANSACTION_QUORUM_COMMITMENT :: int where "TRANSACTION_QUORUM_COMMITMENT \<equiv> 6"
abbreviation (input) TRANSACTION_SPORK :: int where "TRANSACTION_SPORK \<equiv> 7"
abbreviation (input) MAX_BLOCK_BASE_SIZE :: nat where "MAX_BLOCK_BASE_SIZE \<equiv> 2000000"
abbreviation (input) INT_MAX :: int where "INT_MAX \<equiv> 2147483647"

text \<open>The parameters of the chain that the checks use, and the checks of the private transaction types.\<close>

record TxParams =
  nSigmaEndBlock :: int
  nStartDuplicationCheck :: int
  nExchangeAddressStartBlock :: int
  nDisableZerocoinStartBlock :: int
  nSigmaStartBlock :: int
  nZerocoinToSigmaRemintWindowSize :: int
  DIP0003Height :: int
  nEvoSporkStartBlock :: int
  nEvoSporkStopBlock :: int
  nLelantusV3PayloadStartBlock :: int
  nSparkStartBlock :: int

record private_checks =
  CheckSigmaTransaction :: "CTransaction \<Rightarrow> CValidationState \<Rightarrow> verify_error + CValidationState"
  CheckLelantusTransaction :: "CTransaction \<Rightarrow> CValidationState \<Rightarrow> verify_error + CValidationState"
  CheckSparkTransaction :: "CTransaction \<Rightarrow> CValidationState \<Rightarrow> verify_error + CValidationState"

primrec outputs_loop :: "CTxOut list \<Rightarrow> int \<Rightarrow> CValidationState \<Rightarrow> verify_error + CValidationState" where
  "outputs_loop [] nValueOut s = Inr s"
| "outputs_loop (txout # outs) nValueOut s =
     bindE (fail_if (nValue txout < 0) 100 ''bad-txns-vout-negative'' s) (\<lambda>s.
     bindE (fail_if (nValue txout > MAX_MONEY) 100 ''bad-txns-vout-toolarge'' s) (\<lambda>s.
     bindE (fail_if (\<not> MoneyRange (nValueOut + nValue txout)) 100 ''bad-txns-txouttotal-toolarge'' s) (\<lambda>s.
     outputs_loop outs (nValueOut + nValue txout) s)))"

text \<open>Inserting one key after the other into a set fails on the first that is there already.\<close>

primrec duplicate_loop :: "string \<Rightarrow> 'k list \<Rightarrow> 'k set \<Rightarrow> CValidationState \<Rightarrow> verify_error + CValidationState" where
  "duplicate_loop reason [] seen s = Inr s"
| "duplicate_loop reason (k # ks) seen s =
     bindE (fail_if (k \<in> seen) 100 reason s) (duplicate_loop reason ks (insert k seen))"

definition starts_exchange :: "bytes \<Rightarrow> bool" where
  "starts_exchange script \<longleftrightarrow> length script \<ge> 1 \<and> script ! 0 = OP_EXCHANGEADDR"

definition check_coinbase :: "CTransaction \<Rightarrow> bool \<Rightarrow> CValidationState \<Rightarrow> verify_error + CValidationState" where
  "check_coinbase tx hasExchangeUTXOs s =
     (let minCbSize = (if nType tx = TRANSACTION_COINBASE then 1 else 2); script = scriptSig (vin tx ! 0)
      in bindE (fail_if (length script < minCbSize \<or> length script > 100) 100 ''bad-cb-length'' s) (\<lambda>s.
         fail_if hasExchangeUTXOs 100 ''bad-exchange-address'' s))"

definition check_private ::
  "bool \<Rightarrow> bool \<Rightarrow> (CTransaction \<Rightarrow> CValidationState \<Rightarrow> verify_error + CValidationState) \<Rightarrow> CTransaction \<Rightarrow> CValidationState \<Rightarrow>
    verify_error + CValidationState" where
  "check_private applies hasExchangeUTXOs check tx s =
     (if applies then bindE (fail_if hasExchangeUTXOs 100 ''bad-exchange-address'' s) (check tx) else Inr s)"

definition check_regular ::
  "TxParams \<Rightarrow> private_checks \<Rightarrow> CTransaction \<Rightarrow> bool \<Rightarrow> int \<Rightarrow> bool \<Rightarrow> CValidationState \<Rightarrow> verify_error + CValidationState" where
  "check_regular params checks tx isVerifyDB txHeight hasExchangeUTXOs s =
     bindE (fail_if (list_ex (\<lambda>txin. OutPoint_IsNull (prevout txin) \<and>
                \<not> (IsZerocoinSpend (scriptSig txin) \<or> TxIn_IsZerocoinRemint txin \<or> TxIn_IsLelantusJoinSplit txin \<or> Tx_IsSparkSpend tx)) (vin tx))
              10 ''bad-txns-prevout-null'' s) (\<lambda>s.
     bindE (check_private (IsZerocoinV3SigmaTransaction tx) hasExchangeUTXOs (CheckSigmaTransaction checks) tx s) (\<lambda>s.
     bindE (check_private (IsLelantusTransaction tx) hasExchangeUTXOs (CheckLelantusTransaction checks) tx s) (\<lambda>s.
     bindE (check_private (IsSparkTransaction tx) hasExchangeUTXOs (CheckSparkTransaction checks) tx s) (\<lambda>s.
     if (Tx_IsZerocoinSpend tx \<or> Tx_IsZerocoinMint tx) \<and> \<not> isVerifyDB \<and> txHeight \<ge> nDisableZerocoinStartBlock params
     then Inl (Rejected (DoS 1 0 [] False s))
     else if Tx_IsZerocoinRemint tx \<and> \<not> isVerifyDB \<and>
             (txHeight < nSigmaStartBlock params \<or> txHeight \<ge> nSigmaStartBlock params + nZerocoinToSigmaRemintWindowSize params)
     then Inl (Rejected s)
     else Inr s))))"

definition CheckTransaction ::
  "TxParams \<Rightarrow> private_checks \<Rightarrow> CChain \<Rightarrow> CTransaction \<Rightarrow> bool \<Rightarrow> bool \<Rightarrow> int \<Rightarrow> CValidationState \<Rightarrow> verify_error + CValidationState" where
  "CheckTransaction params checks chainActive tx fCheckDuplicateInputs isVerifyDB txHeight s =
     (let allowEmptyTxInOut = (nType tx = TRANSACTION_QUORUM_COMMITMENT);
          check_di = (txHeight \<noteq> INT_MAX \<and> txHeight > nStartDuplicationCheck params);
          hasExchangeUTXOs = list_ex (\<lambda>out. starts_exchange (scriptPubKey out)) (vout tx);
          nTxHeight = (if txHeight = INT_MAX then Height chainActive else txHeight)
      in bindE (fail_if (\<not> allowEmptyTxInOut \<and> vin tx = []) 10 ''bad-txns-vin-empty'' s) (\<lambda>s.
         bindE (fail_if (\<not> allowEmptyTxInOut \<and> vout tx = []) 10 ''bad-txns-vout-empty'' s) (\<lambda>s.
         bindE (fail_if (length (SerializeTransaction False tx) > MAX_BLOCK_BASE_SIZE) 100 ''bad-txns-oversize'' s) (\<lambda>s.
         bindE (fail_if (length (vExtraPayload tx) > 150000 \<and> txHeight < nSigmaEndBlock params \<or> length (vExtraPayload tx) > 230000)
                  100 ''bad-txns-payload-oversize'' s) (\<lambda>s.
         bindE (outputs_loop (vout tx) 0 s) (\<lambda>s.
         bindE (if fCheckDuplicateInputs \<or> check_di then
                  if HasPrivateInputs tx then duplicate_loop ''bad-txns-spend-inputs-duplicate'' (map scriptSig (vin tx)) {} s
                  else duplicate_loop ''bad-txns-inputs-duplicate'' (map prevout (vin tx)) {} s
                else Inr s) (\<lambda>s.
         bindE (fail_if (list_ex (\<lambda>txin. starts_exchange (scriptSig txin)) (vin tx)) 100 ''bad-exchange-address'' s) (\<lambda>s.
         bindE (fail_if (hasExchangeUTXOs \<and> \<not> isVerifyDB \<and> nTxHeight < nExchangeAddressStartBlock params) 100 ''bad-exchange-address'' s) (\<lambda>s.
         if IsCoinBase tx then check_coinbase tx hasExchangeUTXOs s
         else check_regular params checks tx isVerifyDB txHeight hasExchangeUTXOs s)))))))))"

definition ContextualCheckTransaction ::
  "TxParams \<Rightarrow> store \<Rightarrow> addr option \<Rightarrow> CTransaction \<Rightarrow> CValidationState \<Rightarrow> verify_error + CValidationState" where
  "ContextualCheckTransaction params B pindexPrev tx s =
     (let h = (case pindexPrev of None \<Rightarrow> 0 | Some p \<Rightarrow> nHeight (B p) + 1)
      in if h \<ge> DIP0003Height params then
           if nVersion tx \<ge> 3 then
             bindE (fail_if (nType tx \<notin> {0, 1, 2, 3, 4, 5, 6, 7, 8, 9}) 100 ''bad-txns-type'' s) (\<lambda>s.
             bindE (fail_if (IsCoinBase tx \<and> nType tx \<noteq> TRANSACTION_COINBASE) 100 ''bad-txns-cb-type'' s) (\<lambda>s.
             bindE (fail_if (nType tx = TRANSACTION_SPORK \<and> \<not> (h \<ge> nEvoSporkStartBlock params \<and> h < nEvoSporkStopBlock params)) 100 ''bad-txns-type'' s) (\<lambda>s.
             bindE (fail_if (nType tx = TRANSACTION_LELANTUS \<and> h < nLelantusV3PayloadStartBlock params) 100 ''bad-txns-type'' s) (\<lambda>s.
             fail_if (nType tx = TRANSACTION_SPARK \<and> h < nSparkStartBlock params) 100 ''bad-txns-type'' s))))
           else fail_if (nType tx \<noteq> TRANSACTION_NORMAL) 100 ''bad-txns-type'' s
         else fail_if (nVersion tx \<ge> 3) 100 ''bad-txns-type'' s)"

section \<open>Checks of the inputs\<close>

abbreviation (input) COINBASE_MATURITY :: int where "COINBASE_MATURITY \<equiv> 100"

primrec tx_inputs_loop ::
  "(bytes \<Rightarrow> nat) \<Rightarrow> 'v coin_getter \<Rightarrow> int \<Rightarrow> CValidationState \<Rightarrow> CTxIn list \<Rightarrow> int \<Rightarrow> 'v CCoinsViewCache \<Rightarrow> verify_error + int \<times> 'v CCoinsViewCache" where
  "tx_inputs_loop usage get nSpendHeight s [] nValueIn inputs = Inr (nValueIn, inputs)"
| "tx_inputs_loop usage get nSpendHeight s (txin # vins) nValueIn inputs =
     (case AccessCoin usage get (prevout txin) inputs of (c, inputs) \<Rightarrow>
        if IsSpent c then Inl AssertUnspent
        else if fCoinBase c \<and> nSpendHeight - int (coinHeight c) < COINBASE_MATURITY
        then Inl (Rejected (Invalid REJECT_INVALID ''bad-txns-premature-spend-of-coinbase'' s))
        else let nValueIn = nValueIn + nValue (coinOut c)
        in if \<not> MoneyRange (nValue (coinOut c)) \<or> \<not> MoneyRange nValueIn
           then Inl (Rejected (DoS 100 REJECT_INVALID ''bad-txns-inputvalues-outofrange'' False s))
           else tx_inputs_loop usage get nSpendHeight s vins nValueIn inputs)"

text \<open>
  The fee of a join-split is read from its proof: \<open>Inl True\<close> is the exception \<open>CBadTxIn\<close> of the parser, \<open>Inl False\<close>
  any other. \<open>GetValueOut\<close> throws on a sum out of range. The fee is returned along with the state.
\<close>

definition CheckTxInputs ::
  "(bytes \<Rightarrow> nat) \<Rightarrow> 'v coin_getter \<Rightarrow> (CTransaction \<Rightarrow> bool + int) \<Rightarrow> CTransaction \<Rightarrow> CValidationState \<Rightarrow> 'v CCoinsViewCache \<Rightarrow> int \<Rightarrow>
    verify_error + int \<times> CValidationState \<times> 'v CCoinsViewCache" where
  "CheckTxInputs usage get joinSplitFee tx s inputs nSpendHeight =
     (case HaveInputs usage get tx inputs of (have, inputs) \<Rightarrow>
        if \<not> have then Inl (Rejected (Invalid 0 [] s))
        else bindE (tx_inputs_loop usage get nSpendHeight s (vin tx) 0 inputs) (\<lambda>(nValueIn, inputs).
             bindE (if \<not> Tx_IsLelantusJoinSplit tx then
                      (case GetValueOut tx of
                         None \<Rightarrow> Inl ValueOutThrows
                       | Some valueOut \<Rightarrow>
                           if nValueIn < valueOut then Inl (Rejected (DoS 100 REJECT_INVALID ''bad-txns-in-belowout'' False s))
                           else Inr (nValueIn - valueOut))
                    else
                      (case joinSplitFee tx of
                         Inl True \<Rightarrow> Inl (Rejected (DoS 0 REJECT_INVALID ''unable to parse joinsplit'' False s))
                       | Inl False \<Rightarrow> Inl (Rejected (DoS 0 REJECT_INVALID ''failed to deserialize joinsplit'' False s))
                       | Inr fee \<Rightarrow> Inr fee)) (\<lambda>nTxFee.
             bindE (fail_if (nTxFee < 0) 100 ''bad-txns-fee-negative'' s) (\<lambda>s.
             bindE (fail_if (\<not> MoneyRange nTxFee) 100 ''bad-txns-fee-outofrange'' s) (\<lambda>s.
             Inr (nTxFee, s, inputs))))))"

fun ScriptErrorString :: "ScriptError \<Rightarrow> string" where
  "ScriptErrorString SCRIPT_ERR_OK = ''No error''"
| "ScriptErrorString SCRIPT_ERR_EVAL_FALSE = ''Script evaluated without error but finished with a false/empty top stack element''"
| "ScriptErrorString SCRIPT_ERR_VERIFY = ''Script failed an OP_VERIFY operation''"
| "ScriptErrorString SCRIPT_ERR_EQUALVERIFY = ''Script failed an OP_EQUALVERIFY operation''"
| "ScriptErrorString SCRIPT_ERR_CHECKMULTISIGVERIFY = ''Script failed an OP_CHECKMULTISIGVERIFY operation''"
| "ScriptErrorString SCRIPT_ERR_CHECKSIGVERIFY = ''Script failed an OP_CHECKSIGVERIFY operation''"
| "ScriptErrorString SCRIPT_ERR_NUMEQUALVERIFY = ''Script failed an OP_NUMEQUALVERIFY operation''"
| "ScriptErrorString SCRIPT_ERR_SCRIPT_SIZE = ''Script is too big''"
| "ScriptErrorString SCRIPT_ERR_PUSH_SIZE = ''Push value size limit exceeded''"
| "ScriptErrorString SCRIPT_ERR_OP_COUNT = ''Operation limit exceeded''"
| "ScriptErrorString SCRIPT_ERR_STACK_SIZE = ''Stack size limit exceeded''"
| "ScriptErrorString SCRIPT_ERR_SIG_COUNT = ''Signature count negative or greater than pubkey count''"
| "ScriptErrorString SCRIPT_ERR_PUBKEY_COUNT = ''Pubkey count negative or limit exceeded''"
| "ScriptErrorString SCRIPT_ERR_BAD_OPCODE = ''Opcode missing or not understood''"
| "ScriptErrorString SCRIPT_ERR_DISABLED_OPCODE = ''Attempted to use a disabled opcode''"
| "ScriptErrorString SCRIPT_ERR_INVALID_STACK_OPERATION = ''Operation not valid with the current stack size''"
| "ScriptErrorString SCRIPT_ERR_INVALID_ALTSTACK_OPERATION = ''Operation not valid with the current altstack size''"
| "ScriptErrorString SCRIPT_ERR_OP_RETURN = ''OP_RETURN was encountered''"
| "ScriptErrorString SCRIPT_ERR_UNBALANCED_CONDITIONAL = ''Invalid OP_IF construction''"
| "ScriptErrorString SCRIPT_ERR_NEGATIVE_LOCKTIME = ''Negative locktime''"
| "ScriptErrorString SCRIPT_ERR_UNSATISFIED_LOCKTIME = ''Locktime requirement not satisfied''"
| "ScriptErrorString SCRIPT_ERR_SIG_HASHTYPE = ''Signature hash type missing or not understood''"
| "ScriptErrorString SCRIPT_ERR_SIG_DER = ''Non-canonical DER signature''"
| "ScriptErrorString SCRIPT_ERR_MINIMALDATA = ''Data push larger than necessary''"
| "ScriptErrorString SCRIPT_ERR_SIG_PUSHONLY = ''Only non-push operators allowed in signatures''"
| "ScriptErrorString SCRIPT_ERR_SIG_HIGH_S = ''Non-canonical signature: S value is unnecessarily high''"
| "ScriptErrorString SCRIPT_ERR_SIG_NULLDUMMY = ''Dummy CHECKMULTISIG argument must be zero''"
| "ScriptErrorString SCRIPT_ERR_MINIMALIF = ''OP_IF/NOTIF argument must be minimal''"
| "ScriptErrorString SCRIPT_ERR_SIG_NULLFAIL = ''Signature must be zero for failed CHECK(MULTI)SIG operation''"
| "ScriptErrorString SCRIPT_ERR_DISCOURAGE_UPGRADABLE_NOPS = ''NOPx reserved for soft-fork upgrades''"
| "ScriptErrorString SCRIPT_ERR_DISCOURAGE_UPGRADABLE_WITNESS_PROGRAM = ''Witness version reserved for soft-fork upgrades''"
| "ScriptErrorString SCRIPT_ERR_PUBKEYTYPE = ''Public key is neither compressed or uncompressed''"
| "ScriptErrorString SCRIPT_ERR_WITNESS_PROGRAM_WRONG_LENGTH = ''Witness program has incorrect length''"
| "ScriptErrorString SCRIPT_ERR_WITNESS_PROGRAM_WITNESS_EMPTY = ''Witness program was passed an empty witness''"
| "ScriptErrorString SCRIPT_ERR_WITNESS_PROGRAM_MISMATCH = ''Witness program hash mismatch''"
| "ScriptErrorString SCRIPT_ERR_WITNESS_MALLEATED = ''Witness requires empty scriptSig''"
| "ScriptErrorString SCRIPT_ERR_WITNESS_MALLEATED_P2SH = ''Witness requires only-redeemscript scriptSig''"
| "ScriptErrorString SCRIPT_ERR_WITNESS_UNEXPECTED = ''Witness provided for non-witness script''"
| "ScriptErrorString SCRIPT_ERR_WITNESS_PUBKEYTYPE = ''Using non-compressed keys in segwit''"
| "ScriptErrorString _ = ''unknown error''"

definition STANDARD_NOT_MANDATORY_VERIFY_FLAGS :: u32 where
  "STANDARD_NOT_MANDATORY_VERIFY_FLAGS =
     fold (\<lambda>f n. n OR push_bit (flag_shift f) 1)
       [SCRIPT_VERIFY_DERSIG, SCRIPT_VERIFY_STRICTENC, SCRIPT_VERIFY_MINIMALDATA, SCRIPT_VERIFY_NULLDUMMY,
        SCRIPT_VERIFY_DISCOURAGE_UPGRADABLE_NOPS, SCRIPT_VERIFY_CLEANSTACK, SCRIPT_VERIFY_MINIMALIF, SCRIPT_VERIFY_NULLFAIL,
        SCRIPT_VERIFY_CHECKLOCKTIMEVERIFY, SCRIPT_VERIFY_CHECKSEQUENCEVERIFY, SCRIPT_VERIFY_LOW_S, SCRIPT_VERIFY_WITNESS,
        SCRIPT_VERIFY_DISCOURAGE_UPGRADABLE_WITNESS_PROGRAM, SCRIPT_VERIFY_WITNESS_PUBKEYTYPE] 0"

text \<open>
  The check of the script of one input. The verification of a signature is a parameter, which also stands for the
  cache of verified signatures that the code looks up first.
\<close>

definition CScriptCheck ::
  "hash_funs \<Rightarrow> (bytes \<Rightarrow> uint256 \<Rightarrow> bytes \<Rightarrow> bool) \<Rightarrow> bytes \<Rightarrow> int \<Rightarrow> CTransaction \<Rightarrow> nat \<Rightarrow> u32 \<Rightarrow> PrecomputedTransactionData \<Rightarrow> eval_error + unit" where
  "CScriptCheck H verify scriptPubKeyIn amount txTo nIn flags txdata =
     VerifyScript H (scriptSig (vin txTo ! nIn)) scriptPubKeyIn (scriptWitness (vin txTo ! nIn)) flags
       (TransactionSignatureChecker H verify txTo nIn amount (Some txdata))"

function script_checks_loop ::
  "(bytes \<Rightarrow> nat) \<Rightarrow> 'v coin_getter \<Rightarrow> hash_funs \<Rightarrow> (bytes \<Rightarrow> uint256 \<Rightarrow> bytes \<Rightarrow> bool) \<Rightarrow> CTransaction \<Rightarrow> u32 \<Rightarrow> PrecomputedTransactionData \<Rightarrow>
    CValidationState \<Rightarrow> nat \<Rightarrow> 'v CCoinsViewCache \<Rightarrow> verify_error + 'v CCoinsViewCache" where
  "script_checks_loop usage get H verify tx flags txdata s i inputs =
     (if i < length (vin tx) then
        case AccessCoin usage get (prevout (vin tx ! i)) inputs of (c, inputs) \<Rightarrow>
          if IsSpent c then Inl AssertUnspent
          else (case CScriptCheck H verify (scriptPubKey (coinOut c)) (nValue (coinOut c)) tx i flags txdata of
                  Inr _ \<Rightarrow> script_checks_loop usage get H verify tx flags txdata s (i + 1) inputs
                | Inl Abort \<Rightarrow> Inl AssertScript
                | Inl (Err e) \<Rightarrow>
                    if has_flag flags SCRIPT_VERIFY_STRICTENC \<and>
                       CScriptCheck H verify (scriptPubKey (coinOut c)) (nValue (coinOut c)) tx i
                         (flags AND NOT STANDARD_NOT_MANDATORY_VERIFY_FLAGS) txdata = Inr ()
                    then Inl (Rejected (Invalid REJECT_NONSTANDARD (''non-mandatory-script-verify-flag ('' @ ScriptErrorString e @ '')'') s))
                    else Inl (Rejected (DoS 100 REJECT_INVALID (''mandatory-script-verify-flag-failed ('' @ ScriptErrorString e @ '')'') False s)))
      else Inr inputs)"
  by auto
termination
  by (relation "measure (\<lambda>(u, g, H, v, tx, f, d, s, i, c). length (vin tx) - i)") auto

declare script_checks_loop.simps [simp del]

text \<open>The sum of the denominations of a Sigma spend; the deserialization of the proofs is a parameter.\<close>

primrec sigma_inputs_loop ::
  "(bytes \<Rightarrow> int option) \<Rightarrow> CValidationState \<Rightarrow> CTxIn list \<Rightarrow> int \<Rightarrow> verify_error + int" where
  "sigma_inputs_loop denomination s [] totalInputValue = Inr totalInputValue"
| "sigma_inputs_loop denomination s (txin # vins) totalInputValue =
     (if \<not> IsSigmaSpend (scriptSig txin)
      then Inl (Rejected (DoS 100 REJECT_MALFORMED ''CheckSpendPrivoraTransaction: can't mix zerocoin spend input with regular ones'' False s))
      else case denomination (drop 1 (scriptSig txin)) of
             None \<Rightarrow> Inl ProofThrows
           | Some denom \<Rightarrow> sigma_inputs_loop denomination s vins (totalInputValue + denom))"

text \<open>The script checks run at once; the variant that queues them for other threads runs the same checks later.\<close>

definition CheckInputs ::
  "(bytes \<Rightarrow> nat) \<Rightarrow> 'v coin_getter \<Rightarrow> hash_funs \<Rightarrow> (bytes \<Rightarrow> uint256 \<Rightarrow> bytes \<Rightarrow> bool) \<Rightarrow> (CTransaction \<Rightarrow> bool + int) \<Rightarrow> (bytes \<Rightarrow> int option) \<Rightarrow>
    CTransaction \<Rightarrow> CValidationState \<Rightarrow> 'v CCoinsViewCache \<Rightarrow> int \<Rightarrow> bool \<Rightarrow> u32 \<Rightarrow> PrecomputedTransactionData \<Rightarrow>
    verify_error + CValidationState \<times> 'v CCoinsViewCache" where
  "CheckInputs usage get H verify joinSplitFee denomination tx s inputs nSpendHeight fScriptChecks flags txdata =
     (let malformed = Inl (Rejected (DoS 100 REJECT_MALFORMED '' Can't mix Lelantus joinsplit input with regular ones or have more than one input'' False s))
      in if \<not> IsCoinBase tx \<and> \<not> HasNoRegularInputs tx then
           bindE (CheckTxInputs usage get joinSplitFee tx s inputs nSpendHeight) (\<lambda>(fee, s, inputs).
             if fScriptChecks then bindE (script_checks_loop usage get H verify tx flags txdata s 0 inputs) (\<lambda>inputs. Inr (s, inputs))
             else Inr (s, inputs))
         else if Tx_IsSigmaSpend tx then
           bindE (sigma_inputs_loop denomination s (vin tx) 0) (\<lambda>totalInputValue.
             case GetValueOut tx of
               None \<Rightarrow> Inl ValueOutThrows
             | Some valueOut \<Rightarrow>
                 if totalInputValue < valueOut then Inl (Rejected (DoS 100 0 [] False s)) else Inr (s, inputs))
         else if Tx_IsLelantusJoinSplit tx then
           if length (vin tx) > 1 \<or> \<not> IsLelantusJoinSplit (scriptSig (vin tx ! 0)) then malformed else Inr (s, inputs)
         else if Tx_IsSparkSpend tx then
           if length (vin tx) > 1 then malformed else Inr (s, inputs)
         else Inr (s, inputs))"

section \<open>Applying a transaction\<close>

primrec spend_loop ::
  "(bytes \<Rightarrow> nat) \<Rightarrow> 'v coin_getter \<Rightarrow> CTxIn list \<Rightarrow> Coin list \<Rightarrow> 'v CCoinsViewCache \<Rightarrow> Coin list \<times> 'v CCoinsViewCache" where
  "spend_loop usage get [] vprevout inputs = (vprevout, inputs)"
| "spend_loop usage get (txin # vins) vprevout inputs =
     (case SpendCoin usage get (prevout txin) inputs of (moved, inputs) \<Rightarrow>
        spend_loop usage get vins (vprevout @ [case moved of None \<Rightarrow> coinEmpty | Some c \<Rightarrow> c]) inputs)"

definition UpdateCoins ::
  "(bytes \<Rightarrow> nat) \<Rightarrow> 'v coin_getter \<Rightarrow> hash_funs \<Rightarrow> CTransaction \<Rightarrow> 'v CCoinsViewCache \<Rightarrow> nat \<Rightarrow> coins_error + Coin list \<times> 'v CCoinsViewCache" where
  "UpdateCoins usage get H tx inputs height =
     (case (if \<not> IsCoinBase tx \<and> \<not> HasNoRegularInputs tx then spend_loop usage get (vin tx) [] inputs else ([], inputs)) of
        (vprevout, inputs) \<Rightarrow> bindE (AddCoins usage H tx height inputs) (\<lambda>inputs. Inr (vprevout, inputs)))"

end
