(* ===== verification/Merkle.thy ===== *)
theory Merkle
  imports Transaction BitSets
begin

text \<open>
  Merkle trees: the constant-space computation of roots and branches (\<open>src/src/consensus/merkle.cpp\<close>) and the
  partial trees sent to light clients (\<open>src/src/merkleblock.h\<close>, \<open>merkleblock.cpp\<close>). The recursive definition
  \<open>CalcHash\<close> of the partial trees is the reference for the iterative one. Counts of leaves are natural numbers:
  the 32-bit counter of the code cannot wrap up to \<open>2 ^ 31\<close> leaves, and a level is always below 32 there.
\<close>

section \<open>Roots and branches\<close>

definition Hash2 :: "hash_funs \<Rightarrow> uint256 \<Rightarrow> uint256 \<Rightarrow> uint256" where
  "Hash2 H a b = CHash256 H (a @ b)"

text \<open>The part of a step that records the branch, when the caller asks for one.\<close>

definition branch_step ::
  "bool \<Rightarrow> uint256 list \<Rightarrow> int \<Rightarrow> nat \<Rightarrow> uint256 \<Rightarrow> bool \<Rightarrow> uint256 list \<Rightarrow> uint256 list \<times> bool" where
  "branch_step pbranch inner matchlevel level h matchh branch =
     (if pbranch then
        if matchh then (branch @ [inner ! level], True)
        else if matchlevel = int level then (branch @ [h], True)
        else (branch, False)
      else (branch, matchh))"

function leaf_loop ::
  "hash_funs \<Rightarrow> bool \<Rightarrow> uint256 list \<Rightarrow> int \<Rightarrow> nat \<Rightarrow> nat \<Rightarrow> uint256 \<Rightarrow> bool \<Rightarrow> uint256 list \<Rightarrow> bool \<Rightarrow>
    nat \<times> uint256 \<times> bool \<times> uint256 list \<times> bool" where
  "leaf_loop H pbranch inner matchlevel count level h matchh branch mutated =
     (if level < 32 \<and> \<not> bit count level then
        case branch_step pbranch inner matchlevel level h matchh branch of (branch, matchh) \<Rightarrow>
          leaf_loop H pbranch inner matchlevel count (level + 1) (Hash2 H (inner ! level) h) matchh branch (mutated \<or> inner ! level = h)
      else (level, h, matchh, branch, mutated))"
  by auto
termination
  by (relation "measure (\<lambda>(H, p, i, m, c, level, h, mh, b, mu). 32 - level)") auto

declare leaf_loop.simps [simp del]

primrec leaves_loop ::
  "hash_funs \<Rightarrow> bool \<Rightarrow> nat \<Rightarrow> uint256 list \<Rightarrow> nat \<Rightarrow> uint256 list \<Rightarrow> int \<Rightarrow> uint256 list \<Rightarrow> bool \<Rightarrow>
    nat \<times> uint256 list \<times> int \<times> uint256 list \<times> bool" where
  "leaves_loop H pbranch branchpos [] count inner matchlevel branch mutated = (count, inner, matchlevel, branch, mutated)"
| "leaves_loop H pbranch branchpos (leaf # leaves) count inner matchlevel branch mutated =
     (case leaf_loop H pbranch inner matchlevel (count + 1) 0 leaf (count = branchpos) branch mutated of
        (level, h, matchh, branch, mutated) \<Rightarrow>
          leaves_loop H pbranch branchpos leaves (count + 1) (inner[level := h]) (if matchh then int level else matchlevel) branch mutated)"

function skip_loop :: "nat \<Rightarrow> nat \<Rightarrow> nat" where
  "skip_loop count level = (if level < 32 \<and> \<not> bit count level then skip_loop count (level + 1) else level)"
  by auto
termination
  by (relation "measure (\<lambda>(count, level). 32 - level)") auto

declare skip_loop.simps [simp del]

function up_loop ::
  "hash_funs \<Rightarrow> bool \<Rightarrow> uint256 list \<Rightarrow> int \<Rightarrow> nat \<Rightarrow> nat \<Rightarrow> uint256 \<Rightarrow> bool \<Rightarrow> uint256 list \<Rightarrow> nat \<times> uint256 \<times> bool \<times> uint256 list" where
  "up_loop H pbranch inner matchlevel count level h matchh branch =
     (if level < 32 \<and> \<not> bit count level then
        case branch_step pbranch inner matchlevel level h matchh branch of (branch, matchh) \<Rightarrow>
          up_loop H pbranch inner matchlevel count (level + 1) (Hash2 H (inner ! level) h) matchh branch
      else (level, h, matchh, branch))"
  by auto
termination
  by (relation "measure (\<lambda>(H, p, i, m, c, level, h, mh, b). 32 - level)") auto

declare up_loop.simps [simp del]

lemma up_loop_level: "level \<le> fst (up_loop H pbranch inner matchlevel count level h matchh branch)"
proof (induction H pbranch inner matchlevel count level h matchh branch rule: up_loop.induct)
  case (1 H pbranch inner matchlevel count level h matchh branch)
  show ?case
    using 1 by (subst up_loop.simps) (auto split: prod.split intro: Suc_leD)
qed

lemma up_loop_less: "up_loop H pbranch inner matchlevel count (Suc level) h matchh branch = (level', r) \<Longrightarrow> level < level'"
  using up_loop_level [of "Suc level" H pbranch inner matchlevel count h matchh branch] by simp

function sweep_loop ::
  "hash_funs \<Rightarrow> bool \<Rightarrow> uint256 list \<Rightarrow> int \<Rightarrow> nat \<Rightarrow> nat \<Rightarrow> uint256 \<Rightarrow> bool \<Rightarrow> uint256 list \<Rightarrow> uint256 \<times> uint256 list" where
  "sweep_loop H pbranch inner matchlevel count level h matchh branch =
     (if level < 32 \<and> count \<noteq> 2 ^ level then
        case up_loop H pbranch inner matchlevel (count + 2 ^ level) (level + 1) (Hash2 H h h) matchh
               (if pbranch \<and> matchh then branch @ [h] else branch) of
          (level', h, matchh, branch) \<Rightarrow> sweep_loop H pbranch inner matchlevel (count + 2 ^ level) level' h matchh branch
      else (h, branch))"
  by auto
termination
  by (relation "measure (\<lambda>(H, p, i, m, c, level, h, mh, b). 32 - level)")
    (auto split: prod.split intro!: diff_less_mono2 dest: up_loop_less)

declare sweep_loop.simps [simp del]

text \<open>The root, whether two equal subtrees were joined, and the branch of a position.\<close>

definition MerkleComputation ::
  "hash_funs \<Rightarrow> uint256 list \<Rightarrow> nat \<Rightarrow> bool \<Rightarrow> uint256 \<times> bool \<times> uint256 list" where
  "MerkleComputation H leaves branchpos pbranch =
     (if leaves = [] then (replicate 32 0, False, [])
      else case leaves_loop H pbranch branchpos leaves 0 (replicate 32 (replicate 32 0)) (- 1) [] False of
             (count, inner, matchlevel, branch, mutated) \<Rightarrow>
               let level = skip_loop count 0
               in case sweep_loop H pbranch inner matchlevel count level (inner ! level) (matchlevel = int level) branch of
                    (h, branch) \<Rightarrow> (h, mutated, branch))"

definition ComputeMerkleRoot :: "hash_funs \<Rightarrow> uint256 list \<Rightarrow> uint256 \<times> bool" where
  "ComputeMerkleRoot H leaves = (case MerkleComputation H leaves (2 ^ 32 - 1) False of (h, mutated, _) \<Rightarrow> (h, mutated))"

definition ComputeMerkleBranch :: "hash_funs \<Rightarrow> uint256 list \<Rightarrow> nat \<Rightarrow> uint256 list" where
  "ComputeMerkleBranch H leaves position = snd (snd (MerkleComputation H leaves position True))"

primrec ComputeMerkleRootFromBranch :: "hash_funs \<Rightarrow> uint256 \<Rightarrow> uint256 list \<Rightarrow> nat \<Rightarrow> uint256" where
  "ComputeMerkleRootFromBranch H hash [] nIndex = hash"
| "ComputeMerkleRootFromBranch H hash (it # vMerkleBranch) nIndex =
     ComputeMerkleRootFromBranch H (if odd nIndex then Hash2 H it hash else Hash2 H hash it) vMerkleBranch (nIndex div 2)"

lemma root_two: "ComputeMerkleRoot H [a, b] = (Hash2 H a b, a = b)"
  by (simp add: ComputeMerkleRoot_def MerkleComputation_def leaf_loop.simps skip_loop.simps sweep_loop.simps branch_step_def Let_def
      bit_nat_def numeral_2_eq_2)

section \<open>Partial trees\<close>

record CPartialMerkleTree =
  nTransactions :: u32
  vBits :: "bool list"
  vHash :: "uint256 list"
  fBad :: bool

definition CalcTreeWidth :: "u32 \<Rightarrow> nat \<Rightarrow> nat" where
  "CalcTreeWidth n height = unat (drop_bit height (n + push_bit height 1 - 1))"

fun CalcHash :: "hash_funs \<Rightarrow> u32 \<Rightarrow> nat \<Rightarrow> nat \<Rightarrow> uint256 list \<Rightarrow> uint256" where
  "CalcHash H n 0 pos vTxid = vTxid ! pos"
| "CalcHash H n (Suc height) pos vTxid =
     (let left = CalcHash H n height (pos * 2) vTxid;
          right = (if pos * 2 + 1 < CalcTreeWidth n height then CalcHash H n height (pos * 2 + 1) vTxid else left)
      in Hash2 H left right)"

text \<open>The bits and the hashes that the traversal of a subtree appends.\<close>

fun TraverseAndBuild ::
  "hash_funs \<Rightarrow> u32 \<Rightarrow> nat \<Rightarrow> nat \<Rightarrow> uint256 list \<Rightarrow> bool list \<Rightarrow> bool list \<times> uint256 list" where
  "TraverseAndBuild H n 0 pos vTxid vMatch =
     ([list_ex (\<lambda>p. vMatch ! p) [pos ..< min (pos + 1) (unat n)]], [CalcHash H n 0 pos vTxid])"
| "TraverseAndBuild H n (Suc height) pos vTxid vMatch =
     (let fParentOfMatch = list_ex (\<lambda>p. vMatch ! p) [pos * 2 ^ Suc height ..< min ((pos + 1) * 2 ^ Suc height) (unat n)]
      in if \<not> fParentOfMatch then ([fParentOfMatch], [CalcHash H n (Suc height) pos vTxid])
         else case TraverseAndBuild H n height (pos * 2) vTxid vMatch of (bits, hashes) \<Rightarrow>
           if pos * 2 + 1 < CalcTreeWidth n height then
             case TraverseAndBuild H n height (pos * 2 + 1) vTxid vMatch of (bits', hashes') \<Rightarrow>
               (fParentOfMatch # bits @ bits', hashes @ hashes')
           else (fParentOfMatch # bits, hashes))"

lemma CalcTreeWidth_wide: "1 < CalcTreeWidth n h \<Longrightarrow> h < 31"
proof (rule ccontr)
  define w where "w = n + push_bit h 1 - 1"
  assume "1 < CalcTreeWidth n h" "\<not> h < 31"
  moreover have "CalcTreeWidth n h = unat w div 2 ^ h" unfolding CalcTreeWidth_def w_def unat_drop_bit_eq by (rule drop_bit_eq_div)
  moreover have "unat w < 2 ^ 32" using unsigned_less [of w, where 'a = nat] by simp
  ultimately have "2 \<le> unat w div 2 ^ h" "unat w < 2 ^ 32" by simp_all
  then have "2 * 2 ^ h \<le> unat w" "unat w < 2 ^ 32" by (simp_all add: less_eq_div_iff_mult_less_eq)
  moreover have "(2 :: nat) ^ 31 \<le> 2 ^ h" using \<open>\<not> h < 31\<close> by (intro power_increasing) simp_all
  ultimately show False by simp
qed

function height_loop :: "u32 \<Rightarrow> nat \<Rightarrow> nat" where
  "height_loop n nHeight = (if CalcTreeWidth n nHeight > 1 then height_loop n (nHeight + 1) else nHeight)"
  by auto
termination
  by (relation "measure (\<lambda>(n, h). 31 - h)") (auto dest!: CalcTreeWidth_wide [unfolded One_nat_def])

declare height_loop.simps [simp del]

definition build_tree :: "hash_funs \<Rightarrow> uint256 list \<Rightarrow> bool list \<Rightarrow> CPartialMerkleTree" where
  "build_tree H vTxid vMatch =
     (let n = of_nat (length vTxid)
      in case TraverseAndBuild H n (height_loop n 0) 0 vTxid vMatch of (bits, hashes) \<Rightarrow>
           \<lparr>nTransactions = n, vBits = bits, vHash = hashes, fBad = False\<rparr>)"

record extract_state =
  nBitsUsed :: nat
  nHashUsed :: nat
  xMatch :: "uint256 list"
  vnIndex :: "nat list"
  xBad :: bool

definition extract_leaf :: "CPartialMerkleTree \<Rightarrow> bool \<Rightarrow> nat \<Rightarrow> extract_state \<Rightarrow> uint256 \<times> extract_state" where
  "extract_leaf t matched pos s =
     (if nHashUsed s \<ge> length (vHash t) then (replicate 32 0, s\<lparr>xBad := True\<rparr>)
      else let hash = vHash t ! nHashUsed s; s = s\<lparr>nHashUsed := nHashUsed s + 1\<rparr>
      in (hash, if matched then s\<lparr>xMatch := xMatch s @ [hash], vnIndex := vnIndex s @ [pos]\<rparr> else s))"

fun TraverseAndExtract :: "hash_funs \<Rightarrow> CPartialMerkleTree \<Rightarrow> nat \<Rightarrow> nat \<Rightarrow> extract_state \<Rightarrow> uint256 \<times> extract_state" where
  "TraverseAndExtract H t 0 pos s =
     (if nBitsUsed s \<ge> length (vBits t) then (replicate 32 0, s\<lparr>xBad := True\<rparr>)
      else extract_leaf t (vBits t ! nBitsUsed s) pos (s\<lparr>nBitsUsed := nBitsUsed s + 1\<rparr>))"
| "TraverseAndExtract H t (Suc height) pos s =
     (if nBitsUsed s \<ge> length (vBits t) then (replicate 32 0, s\<lparr>xBad := True\<rparr>)
      else let fParentOfMatch = vBits t ! nBitsUsed s; s = s\<lparr>nBitsUsed := nBitsUsed s + 1\<rparr>
      in if \<not> fParentOfMatch then extract_leaf t False pos s
         else case TraverseAndExtract H t height (pos * 2) s of (left, s) \<Rightarrow>
           if pos * 2 + 1 < CalcTreeWidth (nTransactions t) height then
             case TraverseAndExtract H t height (pos * 2 + 1) s of (right, s) \<Rightarrow>
               (Hash2 H left right, if right = left then s\<lparr>xBad := True\<rparr> else s)
           else (Hash2 H left left, s))"

text \<open>The result is the root, or zero, with the matches and their positions; the caller's positions are not
  cleared.\<close>

definition ExtractMatches ::
  "hash_funs \<Rightarrow> nat list \<Rightarrow> CPartialMerkleTree \<Rightarrow> uint256 \<times> uint256 list \<times> nat list \<times> CPartialMerkleTree" where
  "ExtractMatches H vnIndexIn t =
     (if nTransactions t = 0 \<or> unat (nTransactions t) > 2000000 div 60 \<or> length (vHash t) > unat (nTransactions t) \<or>
         length (vBits t) < length (vHash t)
      then (replicate 32 0, [], vnIndexIn, t)
      else case TraverseAndExtract H t (height_loop (nTransactions t) 0) 0
                  \<lparr>nBitsUsed = 0, nHashUsed = 0, xMatch = [], vnIndex = vnIndexIn, xBad = fBad t\<rparr> of (hashMerkleRoot, s) \<Rightarrow>
             (if xBad s \<or> (nBitsUsed s + 7) div 8 \<noteq> (length (vBits t) + 7) div 8 \<or> nHashUsed s \<noteq> length (vHash t)
              then replicate 32 0 else hashMerkleRoot,
              xMatch s, vnIndex s, t\<lparr>fBad := xBad s\<rparr>))"

text \<open>On the wire the bits are padded to whole bytes.\<close>

definition vBytes :: "bool list \<Rightarrow> bytes" where
  "vBytes bits =
     fold (\<lambda>p b. b[p div 8 := b ! (p div 8) OR push_bit (p mod 8) (of_bool (bits ! p))]) [0..<length bits]
       (replicate ((length bits + 7) div 8) 0)"

definition bytes_bits :: "bytes \<Rightarrow> bool list" where
  "bytes_bits b = map (\<lambda>p. b ! (p div 8) AND push_bit (p mod 8) 1 \<noteq> 0) [0..<length b * 8]"

definition ser_tree :: "CPartialMerkleTree \<Rightarrow> bytes" where
  "ser_tree t = ser_writedata32 (nTransactions t) @ Serialize_vector (\<lambda>h. h) (vHash t) @ Serialize_blob (vBytes (vBits t))"

definition unser_tree :: "CPartialMerkleTree reader" where
  "unser_tree s =
     bindE (ser_readdata32 s) (\<lambda>(n, s).
     bindE (Unserialize_vector (read_bytes 32) s) (\<lambda>(hashes, s).
     bindE (Unserialize_blob s) (\<lambda>(b, s).
       Inr (\<lparr>nTransactions = n, vBits = bytes_bits b, vHash = hashes, fBad = False\<rparr>, s))))"

end
