(* ===== verification/Block.thy ===== *)
theory Block
  imports TxVerify VersionBits Merkle
begin

text \<open>
  Blocks: the serialization and the hashes of headers and blocks (\<open>src/src/primitives/block.h\<close>, \<open>block.cpp\<close>,
  \<open>crypto/progpow.h\<close>, \<open>progpow.cpp\<close>), the Merkle roots of a block (\<open>consensus/merkle.cpp\<close>, lines 158-187), the
  subsidy, and the checks of headers and blocks with and without context (\<open>validation.cpp\<close>, lines 211-220, 1920-1934
  and 4329-4733). The ProgPoW functions of the ethash library and the block checks of the private transaction types
  are parameters. Where the code changes a block through a \<open>const\<close> reference (\<open>mix_hash\<close>, \<open>fChecked\<close>), the changed
  block is part of the result, also when the check fails.
\<close>

section \<open>Data and serialization\<close>

record CBlock = CBlockHeader +
  vtx :: "CTransaction list"
  fChecked :: bool

definition ser_CBlockHeader :: "'a CBlockHeader_scheme \<Rightarrow> bytes" where
  "ser_CBlockHeader h =
     ser_writedata32 (word_of_int (hdrVersion h)) @ hashPrevBlock h @ hashMerkleRoot h @ ser_writedata32 (hdrTime h) @
     ser_writedata32 (hdrBits h) @ ser_writedata32 (hdrHeight h) @ ser_writedata64 (nNonce64 h) @ mix_hash h"

definition unser_CBlockHeader :: "CBlockHeader reader" where
  "unser_CBlockHeader s =
     bindE (ser_readdata32 s) (\<lambda>(ver, s).
     bindE (read_bytes 32 s) (\<lambda>(prev, s).
     bindE (read_bytes 32 s) (\<lambda>(root, s).
     bindE (ser_readdata32 s) (\<lambda>(time, s).
     bindE (ser_readdata32 s) (\<lambda>(bits32, s).
     bindE (ser_readdata32 s) (\<lambda>(height, s).
     bindE (ser_readdata64 s) (\<lambda>(nonce, s).
     bindE (read_bytes 32 s) (\<lambda>(mix, s).
       Inr (Header_SetNull\<lparr>hdrVersion := sint ver, hashPrevBlock := prev, hashMerkleRoot := root, hdrTime := time, hdrBits := bits32,
              hdrHeight := height, nNonce64 := nonce, mix_hash := mix\<rparr>, s)))))))))"

definition ser_CBlock :: "CBlock \<Rightarrow> bytes" where
  "ser_CBlock b = ser_CBlockHeader b @ Serialize_vector (SerializeTransaction True) (vtx b)"

definition unser_CBlock :: "CBlock reader" where
  "unser_CBlock s =
     bindE (unser_CBlockHeader s) (\<lambda>(h, s).
     bindE (Unserialize_vector (UnserializeTransaction True) s) (\<lambda>(txs, s).
       Inr (CBlockHeader.extend h \<lparr>vtx = txs, fChecked = False\<rparr>, s)))"

definition GetBlockHeader :: "CBlock \<Rightarrow> CBlockHeader" where
  "GetBlockHeader b =
     Header_SetNull\<lparr>hdrVersion := hdrVersion b, hashPrevBlock := hashPrevBlock b, hashMerkleRoot := hashMerkleRoot b, hdrTime := hdrTime b,
       hdrBits := hdrBits b, hdrHeight := hdrHeight b, nNonce64 := nNonce64 b, mix_hash := mix_hash b\<rparr>"

definition GetChainID :: "'a CBlockHeader_scheme \<Rightarrow> int" where
  "GetChainID h = cdiv (hdrVersion h) 0x10000"

definition Header_IsNull :: "'a CBlockHeader_scheme \<Rightarrow> bool" where
  "Header_IsNull h \<longleftrightarrow> hdrBits h = 0"

definition GetBlockWeight :: "CBlock \<Rightarrow> nat" where
  "GetBlockWeight b = length (ser_CBlock b)"

text \<open>A locator is written with the version of the stream, unless it is hashed.\<close>

definition ser_CBlockLocator :: "bool \<Rightarrow> u32 \<Rightarrow> uint256 list \<Rightarrow> bytes" where
  "ser_CBlockLocator getHash version vHave = (if \<not> getHash then ser_writedata32 version else []) @ Serialize_vector (\<lambda>h. h) vHave"

definition unser_CBlockLocator :: "bool \<Rightarrow> uint256 list reader" where
  "unser_CBlockLocator getHash s =
     bindE (if \<not> getHash then bindE (ser_readdata32 s) (\<lambda>(v, s). Inr s) else Inr s) (Unserialize_vector (read_bytes 32))"

section \<open>Hashes\<close>

text \<open>The functions of the library: the full hash of a header hash at a height, and the two steps of the light one.\<close>

record progpow_funs =
  progpow_hash :: "u32 \<Rightarrow> bytes \<Rightarrow> u64 \<Rightarrow> bytes \<times> bytes"
  hash_seed :: "bytes \<Rightarrow> u64 \<Rightarrow> bytes"
  hash_final :: "bytes \<Rightarrow> bytes \<Rightarrow> bytes"

definition U256ToH256 :: "uint256 \<Rightarrow> bytes" where
  "U256ToH256 h = concat (map (\<lambda>y. rev (take 8 (drop (8 * y) h))) [3, 2, 1, 0])"

definition H256ToU256 :: "bytes \<Rightarrow> uint256" where
  "H256ToU256 h = concat (map (\<lambda>y. rev (take 8 (drop (8 * y) h))) [3, 2, 1, 0])"

definition ser_CProgPowHeader :: "'a CBlockHeader_scheme \<Rightarrow> bytes" where
  "ser_CProgPowHeader h =
     ser_writedata32 (word_of_int (hdrVersion h)) @ hashPrevBlock h @ hashMerkleRoot h @ ser_writedata32 (hdrTime h) @
     ser_writedata32 (hdrBits h) @ ser_writedata32 (hdrHeight h)"

text \<open>The final hash and the mix hash.\<close>

definition progpow_hash_full :: "progpow_funs \<Rightarrow> hash_funs \<Rightarrow> 'a CBlockHeader_scheme \<Rightarrow> uint256 \<times> uint256" where
  "progpow_hash_full W H h =
     (case progpow_hash W (hdrHeight h) (U256ToH256 (CHash256 H (ser_CProgPowHeader h))) (nNonce64 h) of
        (final, mix) \<Rightarrow> (H256ToU256 final, H256ToU256 mix))"

text \<open>\<open>None\<close> is the failed assertion that the header has a mix hash.\<close>

definition progpow_hash_light :: "progpow_funs \<Rightarrow> hash_funs \<Rightarrow> 'a CBlockHeader_scheme \<Rightarrow> uint256 option" where
  "progpow_hash_light W H h =
     (if IsNull256 (mix_hash h) then None
      else let seed = hash_seed W (U256ToH256 (CHash256 H (ser_CProgPowHeader h))) (nNonce64 h)
      in Some (H256ToU256 (hash_final W seed (U256ToH256 (mix_hash h)))))"

definition Header_GetHash :: "progpow_funs \<Rightarrow> hash_funs \<Rightarrow> 'a CBlockHeader_scheme \<Rightarrow> uint256 option" where
  "Header_GetHash W H h = progpow_hash_light W H h"

definition GetHashFull :: "progpow_funs \<Rightarrow> hash_funs \<Rightarrow> 'a CBlockHeader_scheme \<Rightarrow> uint256 \<times> 'a CBlockHeader_scheme" where
  "GetHashFull W H h = (case progpow_hash_full W H h of (hash, mix) \<Rightarrow> (hash, h\<lparr>mix_hash := mix\<rparr>))"

definition GetPoWHash :: "progpow_funs \<Rightarrow> hash_funs \<Rightarrow> 'a CBlockHeader_scheme \<Rightarrow> uint256 \<times> 'a CBlockHeader_scheme" where
  "GetPoWHash W H h =
     (if \<not> IsNull256 (cachedPoWHash h) then (cachedPoWHash h, h)
      else let powHash = replicate 32 0
      in case progpow_hash_full W H h of (hash, mix) \<Rightarrow> (powHash, h\<lparr>mix_hash := mix, cachedPoWHash := powHash\<rparr>))"

definition BlockMerkleRoot :: "hash_funs \<Rightarrow> CBlock \<Rightarrow> uint256 \<times> bool" where
  "BlockMerkleRoot H b = ComputeMerkleRoot H (map (GetHash H) (vtx b))"

text \<open>The first leaf is zero; writing it into the leaves of a block without transactions is out of bounds.\<close>

definition BlockWitnessMerkleRoot :: "hash_funs \<Rightarrow> CBlock \<Rightarrow> chain_error + uint256 \<times> bool" where
  "BlockWitnessMerkleRoot H b =
     (if vtx b = [] then Inl OutOfRange
      else Inr (ComputeMerkleRoot H (replicate 32 0 # map (GetWitnessHash H) (tl (vtx b)))))"

definition BlockMerkleBranch :: "hash_funs \<Rightarrow> CBlock \<Rightarrow> nat \<Rightarrow> uint256 list" where
  "BlockMerkleBranch H b position = ComputeMerkleBranch H (map (GetHash H) (vtx b)) position"

section \<open>Parameters and subsidy\<close>

record BlockParams = TxParams +
  nSubsidyHalvingInterval :: int
  nDevelopmentFundPercent :: int
  developmentOutputScriptHex :: bytes
  hashGenesisBlock :: uint256
  BIP65Height :: int
  BIP66Height :: int
  nStartSigmaBlacklist :: int
  nRestartSigmaWithBlacklistCheck :: int
  nMinimumChainWork :: uint256
  isMain :: bool
  powParams :: PowParams
  csvDeployment :: BIP9Deployment
  segwitDeployment :: BIP9Deployment
  nMinerConfirmationWindow :: int
  nRuleChangeActivationThreshold :: int

definition GetBlockSubsidy :: "int \<Rightarrow> 'a BlockParams_scheme \<Rightarrow> int" where
  "GetBlockSubsidy h params =
     (let halvings = cdiv h (nSubsidyHalvingInterval params)
      in if halvings \<ge> 4 then if h \<ge> 20580039 then 0 * COIN else 625000000
         else drop_bit (nat halvings) (100 * COIN))"

text \<open>The code that the checks call and that is not modelled: hashes, and the checks of the private transaction types.\<close>

record block_env =
  hashes :: hash_funs
  progpow :: progpow_funs
  stateless :: private_checks
  CheckSigmaBlock :: "CBlock \<Rightarrow> CValidationState \<Rightarrow> verify_error + CValidationState"
  CheckLelantusBlock :: "CBlock \<Rightarrow> CValidationState \<Rightarrow> verify_error + CValidationState"
  CheckSparkBlock :: "CBlock \<Rightarrow> CValidationState \<Rightarrow> verify_error + CValidationState"

section \<open>Checks without context\<close>

definition GetNHeight :: "block_tree \<Rightarrow> 'a CBlockHeader_scheme \<Rightarrow> int" where
  "GetNHeight T block = (case mapBlockIndex T (hashPrevBlock block) of None \<Rightarrow> 0 | Some p \<Rightarrow> nHeight (blocks T p) + 1)"

definition CheckBlockHeader ::
  "'e block_env_scheme \<Rightarrow> BlockParams \<Rightarrow> bool \<Rightarrow> 'a CBlockHeader_scheme \<Rightarrow> CValidationState \<Rightarrow> (verify_error + CValidationState) \<times> 'a CBlockHeader_scheme" where
  "CheckBlockHeader E P fCheckPOW block s =
     (if fCheckPOW then
        case GetHashFull (progpow E) (hashes E) block of (hash, block) \<Rightarrow>
          (fail_if (\<not> CheckProofOfWork hash (hdrBits block) (powParams P)) 50 ''high-hash'' s, block)
      else (Inr s, block))"

text \<open>Changing the state of a rejection on its way out.\<close>

definition on_reject :: "(CValidationState \<Rightarrow> CValidationState) \<Rightarrow> verify_error + 'b \<Rightarrow> verify_error + 'b" where
  "on_reject f r = (case r of Inl (Rejected s) \<Rightarrow> Inl (Rejected (f s)) | _ \<Rightarrow> r)"

lemma on_reject_Inr [simp]: "on_reject f r = Inr x \<longleftrightarrow> r = Inr x"
  by (auto simp: on_reject_def split: sum.splits verify_error.splits)

primrec check_txs_loop ::
  "'e block_env_scheme \<Rightarrow> BlockParams \<Rightarrow> CChain \<Rightarrow> bool \<Rightarrow> int \<Rightarrow> CTransaction list \<Rightarrow> CValidationState \<Rightarrow> verify_error + CValidationState" where
  "check_txs_loop E P chainActive isVerifyDB h [] s = Inr s"
| "check_txs_loop E P chainActive isVerifyDB h (tx # txs) s =
     bindE (fail_if (h \<ge> nStartSigmaBlacklist P \<and> h < nRestartSigmaWithBlacklistCheck P \<and> (Tx_IsSigmaMint tx \<or> Tx_IsSigmaSpend tx))
              100 ''bad-txns-zerocoin'' s) (\<lambda>s.
     bindE (on_reject (\<lambda>s. Invalid (chRejectCode s) (strRejectReason s) s)
              (CheckTransaction (TxParams.truncate P) (stateless E) chainActive tx False isVerifyDB h s))
       (check_txs_loop E P chainActive isVerifyDB h txs))"

definition check_merkle :: "hash_funs \<Rightarrow> CBlock \<Rightarrow> CValidationState \<Rightarrow> verify_error + CValidationState" where
  "check_merkle H block s =
     (case BlockMerkleRoot H block of (hashMerkleRoot2, mutated) \<Rightarrow>
        if hashMerkleRoot block \<noteq> hashMerkleRoot2 then Inl (Rejected (DoS 100 REJECT_INVALID ''bad-txnmrklroot'' True s))
        else if mutated then Inl (Rejected (DoS 100 REJECT_INVALID ''bad-txns-duplicate'' True s))
        else Inr s)"

abbreviation (input) MAX_BLOCK_SIGOPS_COST :: int where "MAX_BLOCK_SIGOPS_COST \<equiv> 400000"

definition check_body ::
  "'e block_env_scheme \<Rightarrow> BlockParams \<Rightarrow> block_tree \<Rightarrow> CChain \<Rightarrow> bool \<Rightarrow> bool \<Rightarrow> int \<Rightarrow> CBlock \<Rightarrow> CValidationState \<Rightarrow> verify_error + CValidationState" where
  "check_body E P T chainActive fCheckMerkleRoot isVerifyDB h block s =
     bindE (if fCheckMerkleRoot then check_merkle (hashes E) block s else Inr s) (\<lambda>s.
     bindE (fail_if (vtx block = [] \<or> length (vtx block) > MAX_BLOCK_BASE_SIZE \<or> length (ser_CBlock block) > MAX_BLOCK_BASE_SIZE)
              100 ''bad-blk-length'' s) (\<lambda>s.
     bindE (fail_if (vtx block = [] \<or> \<not> IsCoinBase (vtx block ! 0)) 100 ''bad-cb-missing'' s) (\<lambda>s.
     bindE (fail_if (list_ex IsCoinBase (tl (vtx block))) 100 ''bad-cb-multiple'' s) (\<lambda>s.
     bindE (check_txs_loop E P chainActive isVerifyDB (if h = INT_MAX then GetNHeight T (GetBlockHeader block) else h) (vtx block) s) (\<lambda>s.
     fail_if (uint (fold (\<lambda>tx n. n + GetLegacySigOpCount tx) (vtx block) 0 * 4) > MAX_BLOCK_SIGOPS_COST) 100 ''bad-blk-sigops'' s)))))"

definition CheckBlock ::
  "'e block_env_scheme \<Rightarrow> BlockParams \<Rightarrow> block_tree \<Rightarrow> CChain \<Rightarrow> bool \<Rightarrow> bool \<Rightarrow> int \<Rightarrow> bool \<Rightarrow> CBlock \<Rightarrow> CValidationState \<Rightarrow>
    (verify_error + CValidationState) \<times> CBlock" where
  "CheckBlock E P T chainActive fCheckPOW fCheckMerkleRoot h isVerifyDB block s =
     (if Header_GetHash (progpow E) (hashes E) block = None then (Inl AssertMixHash, block)
      else if fChecked block then (Inr s, block)
      else case CheckBlockHeader E P fCheckPOW block s of
        (Inl e, block) \<Rightarrow> (Inl e, block)
      | (Inr s, block) \<Rightarrow>
          (case check_body E P T chainActive fCheckMerkleRoot isVerifyDB h block s of
             Inl e \<Rightarrow> (Inl e, block)
           | Inr s \<Rightarrow>
               let block = (if fCheckPOW \<and> fCheckMerkleRoot then block\<lparr>fChecked := True\<rparr> else block)
               in (bindE (CheckSigmaBlock E block s) (\<lambda>s. bindE (CheckLelantusBlock E block s) (CheckSparkBlock E block)), block)))"

section \<open>Witness commitments\<close>

definition is_commitment :: "bytes \<Rightarrow> bool" where
  "is_commitment script \<longleftrightarrow> length script \<ge> 38 \<and> take 6 script = [0x6a, 0x24, 0xaa, 0x21, 0xa9, 0xed]"

definition GetWitnessCommitmentIndex :: "CBlock \<Rightarrow> int" where
  "GetWitnessCommitmentIndex block =
     (if vtx block \<noteq> [] then
        let outs = vout (vtx block ! 0)
        in fold (\<lambda>o1 commitpos. if is_commitment (scriptPubKey (outs ! o1)) then int o1 else commitpos) [0..<length outs] (- 1)
      else - 1)"

definition IsWitnessEnabled :: "addr option \<Rightarrow> BlockParams \<Rightarrow> bool" where
  "IsWitnessEnabled pindexPrev P \<longleftrightarrow> False"

definition UpdateUncommittedBlockStructures :: "CBlock \<Rightarrow> addr option \<Rightarrow> BlockParams \<Rightarrow> CBlock" where
  "UpdateUncommittedBlockStructures block pindexPrev P =
     (let commitpos = GetWitnessCommitmentIndex block
      in if commitpos \<noteq> - 1 \<and> IsWitnessEnabled pindexPrev P \<and> \<not> HasWitness (vtx block ! 0) then
           let tx = vtx block ! 0
           in block\<lparr>vtx := (vtx block)[0 := tx\<lparr>vin := (vin tx)[0 := (vin tx ! 0)\<lparr>scriptWitness := [replicate 32 0]\<rparr>]\<rparr>]\<rparr>
         else block)"

definition GenerateCoinbaseCommitment :: "hash_funs \<Rightarrow> CBlock \<Rightarrow> addr option \<Rightarrow> BlockParams \<Rightarrow> chain_error + bytes \<times> CBlock" where
  "GenerateCoinbaseCommitment H block pindexPrev P =
     bindE (if nTimeout (segwitDeployment P) \<noteq> 0 \<and> GetWitnessCommitmentIndex block = - 1 then
              bindE (BlockWitnessMerkleRoot H block) (\<lambda>(root, _).
              let witnessroot = CHash256 H (root @ replicate 32 0);
                  script = [0x6a, 0x24, 0xaa, 0x21, 0xa9, 0xed] @ witnessroot;
                  tx = vtx block ! 0
              in Inr (script, block\<lparr>vtx := (vtx block)[0 := tx\<lparr>vout := vout tx @ [TxOut_null\<lparr>nValue := 0, scriptPubKey := script\<rparr>]\<rparr>]\<rparr>))
            else Inr ([], block)) (\<lambda>(commitment, block).
     Inr (commitment, UpdateUncommittedBlockStructures block pindexPrev P))"

section \<open>Checks in context\<close>

definition GetLastCheckpoint :: "uint256 list \<Rightarrow> block_tree \<Rightarrow> addr option" where
  "GetLastCheckpoint checkpoints T =
     (case filter (\<lambda>hash. mapBlockIndex T hash \<noteq> None) (rev checkpoints) of [] \<Rightarrow> None | hash # _ \<Rightarrow> mapBlockIndex T hash)"

definition CheckIndexAgainstCheckpoint ::
  "BlockParams \<Rightarrow> uint256 list \<Rightarrow> block_tree \<Rightarrow> addr \<Rightarrow> CValidationState \<Rightarrow> verify_error + CValidationState" where
  "CheckIndexAgainstCheckpoint P checkpoints T pindexPrev s =
     (if phashBlock (blocks T pindexPrev) = hashGenesisBlock P then Inr s
      else case GetLastCheckpoint checkpoints T of
        None \<Rightarrow> Inr s
      | Some pcheckpoint \<Rightarrow>
          if nHeight (blocks T pindexPrev) + 1 < nHeight (blocks T pcheckpoint) then Inl (Rejected (DoS 100 0 [] False s)) else Inr s)"

text \<open>The blocks from one back to the first, as the chain that the difficulty rule walks along.\<close>

primrec ancestry :: "store \<Rightarrow> nat \<Rightarrow> addr option \<Rightarrow> CBlockIndex list" where
  "ancestry B 0 pindex = []"
| "ancestry B (Suc n) pindex = (case pindex of None \<Rightarrow> [] | Some p \<Rightarrow> CBlockIndex.truncate (B p) # ancestry B n (pprev (B p)))"

definition ContextualCheckBlockHeader ::
  "BlockParams \<Rightarrow> store \<Rightarrow> addr \<Rightarrow> int \<Rightarrow> 'a CBlockHeader_scheme \<Rightarrow> CValidationState \<Rightarrow> verify_error + CValidationState" where
  "ContextualCheckBlockHeader P B pindexPrev nAdjustedTime block s =
     (case GetNextWorkRequired (ancestry B (nat (nHeight (B pindexPrev)) + 1) (Some pindexPrev))
             \<lparr>nHeight = sint (hdrHeight block), nTime = hdrTime block, nBits = hdrBits block\<rparr> (powParams P) of
        Inl e \<Rightarrow> Inl (PowError e)
      | Inr required \<Rightarrow>
          bindE (fail_if (hdrBits block \<noteq> required) 100 ''bad-diffbits'' s) (\<lambda>s.
          if uint (hdrTime block) \<le> GetMedianTimePast B pindexPrev then Inl (Rejected (Invalid REJECT_INVALID ''time-too-old'' s))
          else if uint (hdrTime block) > nAdjustedTime + 2 * 60 * 60 then Inl (Rejected (Invalid REJECT_INVALID ''time-too-new'' s))
          else Inr s))"

text \<open>The state of a deployment, with its cache of states.\<close>

definition deployment_active ::
  "BlockParams \<Rightarrow> store \<Rightarrow> BIP9Deployment \<Rightarrow> addr option \<Rightarrow> ThresholdConditionCache \<Rightarrow> verify_error + bool \<times> ThresholdConditionCache" where
  "deployment_active P B d pindexPrev cache =
     (case VersionBitsState B d (nMinerConfirmationWindow P) (nRuleChangeActivationThreshold P) pindexPrev cache of
        None \<Rightarrow> Inl NotEnded
      | Some (Inl e) \<Rightarrow> Inl (ChainError e)
      | Some (Inr (state, cache)) \<Rightarrow> Inr (state = THRESHOLD_ACTIVE, cache))"

primrec contextual_txs_loop ::
  "BlockParams \<Rightarrow> store \<Rightarrow> addr option \<Rightarrow> int \<Rightarrow> int \<Rightarrow> CTransaction list \<Rightarrow> CValidationState \<Rightarrow> verify_error + CValidationState" where
  "contextual_txs_loop P B pindexPrev h nLockTimeCutoff [] s = Inr s"
| "contextual_txs_loop P B pindexPrev h nLockTimeCutoff (tx # txs) s =
     bindE (fail_if (\<not> IsFinalTx tx h nLockTimeCutoff) 10 ''bad-txns-nonfinal'' s) (\<lambda>s.
     bindE (ContextualCheckTransaction (TxParams.truncate P) B pindexPrev tx s) (contextual_txs_loop P B pindexPrev h nLockTimeCutoff txs))"

definition pays_developer :: "BlockParams \<Rightarrow> int \<Rightarrow> CTransaction \<Rightarrow> bool" where
  "pays_developer P h tx \<longleftrightarrow>
     (let devPayoutValue = cdiv (GetBlockSubsidy h P * nDevelopmentFundPercent P) 100
      in list_ex (\<lambda>txout. scriptPubKey txout = developmentOutputScriptHex P \<and> nValue txout = devPayoutValue) (vout tx))"

text \<open>Whether the block has a commitment to its witnesses, which must then be right.\<close>

definition check_commitment :: "hash_funs \<Rightarrow> CBlock \<Rightarrow> CValidationState \<Rightarrow> verify_error + bool" where
  "check_commitment H block s =
     (let commitpos = GetWitnessCommitmentIndex block
      in if commitpos = - 1 then Inr False
         else case BlockWitnessMerkleRoot H block of
           Inl e \<Rightarrow> Inl (ChainError e)
         | Inr (hashWitness, malleated) \<Rightarrow>
             let stack = scriptWitness (vin (vtx block ! 0) ! 0)
             in if length stack \<noteq> 1 \<or> length (stack ! 0) \<noteq> 32 then Inl (Rejected (DoS 100 REJECT_INVALID ''bad-witness-nonce-size'' True s))
                else if CHash256 H (hashWitness @ stack ! 0) \<noteq> take 32 (drop 6 (scriptPubKey (vout (vtx block ! 0) ! nat commitpos)))
                then Inl (Rejected (DoS 100 REJECT_INVALID ''bad-witness-merkle-match'' True s))
                else Inr True)"

text \<open>
  The text given in the place of the flag for a possible corruption converts to true, in the first check. The
  caches of the two deployments are returned with the state.
\<close>

definition ContextualCheckBlock ::
  "hash_funs \<Rightarrow> BlockParams \<Rightarrow> store \<Rightarrow> addr option \<Rightarrow> CBlock \<Rightarrow> CValidationState \<Rightarrow> ThresholdConditionCache \<Rightarrow> ThresholdConditionCache \<Rightarrow>
    verify_error + CValidationState \<times> ThresholdConditionCache \<times> ThresholdConditionCache" where
  "ContextualCheckBlock H P B pindexPrev block s csvCache segwitCache =
     (let h = (case pindexPrev of None \<Rightarrow> 0 | Some p \<Rightarrow> nHeight (B p) + 1)
      in if hdrHeight block \<noteq> word_of_int h then Inl (Rejected (DoS 100 REJECT_INVALID ''bad-blk-progpow'' True s))
         else bindE (deployment_active P B (csvDeployment P) pindexPrev csvCache) (\<lambda>(csv, csvCache).
         bindE (if csv then (case pindexPrev of None \<Rightarrow> Inl (ChainError NullDeref) | Some p \<Rightarrow> Inr (GetMedianTimePast B p))
                else Inr (uint (hdrTime block))) (\<lambda>nLockTimeCutoff.
         bindE (contextual_txs_loop P B pindexPrev h nLockTimeCutoff (vtx block) s) (\<lambda>s.
         if vtx block = [] then Inl (ChainError OutOfRange)
         else if \<not> pays_developer P h (vtx block ! 0) then Inl (Rejected (Invalid (chRejectCode s) (strRejectReason s) s))
         else bindE (deployment_active P B (segwitDeployment P) pindexPrev segwitCache) (\<lambda>(segwit, segwitCache).
         bindE (if segwit then check_commitment H block s else Inr False) (\<lambda>fHaveWitness.
         if \<not> fHaveWitness \<and> list_ex HasWitness (vtx block) then Inl (Rejected (DoS 100 REJECT_INVALID ''unexpected-witness'' True s))
         else bindE (fail_if (GetBlockWeight block > MAX_BLOCK_BASE_SIZE) 100 ''bad-blk-weight'' s) (\<lambda>s.
         bindE (fail_if (h \<ge> DIP0003Height P \<and> nType (vtx block ! 0) \<noteq> TRANSACTION_COINBASE) 100 ''bad-cb-type'' s) (\<lambda>s.
         Inr (s, csvCache, segwitCache)))))))))"

section \<open>Accepting headers\<close>

text \<open>Returns the entry of the index along with the state and the index. The node's adjusted time is an argument.\<close>

definition AcceptBlockHeader ::
  "'e block_env_scheme \<Rightarrow> BlockParams \<Rightarrow> uint256 list \<Rightarrow> bool \<Rightarrow> int \<Rightarrow> bool \<Rightarrow> CBlockHeader \<Rightarrow> CValidationState \<Rightarrow> block_tree \<Rightarrow>
    verify_error + addr \<times> CValidationState \<times> block_tree" where
  "AcceptBlockHeader E P checkpoints fCheckpointsEnabled adjustedTime fCheckPOW block s T =
     (let add = (\<lambda>block s. case Header_GetHash (progpow E) (hashes E) block of
                   None \<Rightarrow> Inl AssertMixHash
                 | Some hash \<Rightarrow> (case AddToBlockIndex (\<lambda>_. hash) block T of Inl e \<Rightarrow> Inl (ChainError e) | Inr (p, T) \<Rightarrow> Inr (p, s, T)))
      in case Header_GetHash (progpow E) (hashes E) block of
           None \<Rightarrow> Inl AssertMixHash
         | Some hash \<Rightarrow>
             if hash = hashGenesisBlock P then add block s
             else case mapBlockIndex T hash of
               Some pindex \<Rightarrow>
                 if nStatus (blocks T pindex) AND BLOCK_FAILED_MASK \<noteq> 0 then Inl (Rejected (Invalid 0 ''duplicate'' s)) else Inr (pindex, s, T)
             | None \<Rightarrow>
                 (case CheckBlockHeader E P fCheckPOW block s of
                    (Inl e, block) \<Rightarrow> Inl e
                  | (Inr s, block) \<Rightarrow>
                      (case mapBlockIndex T (hashPrevBlock block) of
                         None \<Rightarrow> Inl (Rejected (DoS 10 0 ''bad-prevblk'' False s))
                       | Some pindexPrev \<Rightarrow>
                           if nStatus (blocks T pindexPrev) AND BLOCK_FAILED_MASK \<noteq> 0 then Inl (Rejected (DoS 100 REJECT_INVALID ''bad-prevblk'' False s))
                           else bindE (if fCheckpointsEnabled then CheckIndexAgainstCheckpoint P checkpoints T pindexPrev s else Inr s) (\<lambda>s.
                           bindE (ContextualCheckBlockHeader P (blocks T) pindexPrev adjustedTime block s) (add block)))))"

text \<open>
  The headers of a message, up to the first that is rejected. A rejected header leaves the index as it is, and those accepted before it stay in
  the index; the last one accepted is returned along with the verdict.
\<close>

primrec ProcessNewBlockHeaders ::
  "'e block_env_scheme \<Rightarrow> BlockParams \<Rightarrow> uint256 list \<Rightarrow> bool \<Rightarrow> int \<Rightarrow> CBlockHeader list \<Rightarrow> CValidationState \<Rightarrow> addr option \<Rightarrow> block_tree \<Rightarrow>
    (verify_error + CValidationState) \<times> addr option \<times> block_tree" where
  "ProcessNewBlockHeaders E P checkpoints fCheckpointsEnabled adjustedTime [] s ppindex T = (Inr s, ppindex, T)"
| "ProcessNewBlockHeaders E P checkpoints fCheckpointsEnabled adjustedTime (header # headers) s ppindex T =
     (case AcceptBlockHeader E P checkpoints fCheckpointsEnabled adjustedTime True header s T of
        Inl e \<Rightarrow> (Inl e, ppindex, T)
      | Inr (pindex, s, T) \<Rightarrow> ProcessNewBlockHeaders E P checkpoints fCheckpointsEnabled adjustedTime headers s (Some pindex) T)"

end
