(* ===== verification/Connect.thy ===== *)
theory Connect
  imports Block
begin

text \<open>
  Connecting a block to the set of unspent outputs and disconnecting it again (\<open>src/src/validation.cpp\<close>, lines
  2117-2122, 2376-2533 and 2641-3068; \<open>chainparams.h\<close>, lines 88-89). The optional indexes (addresses, spent outputs,
  transactions, timestamps) and the wallet signals are left out, except for the amount that is added to the
  total supply along with the address index. The script checks run at once, as with no check threads. Masternode
  payments, special transactions, InstantSend, sporks, the state of the private transaction types, the evo database
  and the undo files are parameters. Changes that a failed connection leaves behind in its temporary view are not
  part of the result.
\<close>

section \<open>Parameters\<close>

type_synonym CTxUndo = "Coin list"
type_synonym CBlockUndo = "CTxUndo list"

record connect_env = block_env +
  stateful :: private_checks
  verifySig :: "bytes \<Rightarrow> uint256 \<Rightarrow> bytes \<Rightarrow> bool"
  joinSplitFee :: "CTransaction \<Rightarrow> bool + int"
  sparkFee :: "CTransaction \<Rightarrow> bool + int"
  GetSigmaSpendInput :: "CTransaction \<Rightarrow> int"
  denomination :: "bytes \<Rightarrow> int option"
  VerifyBestBlock :: "uint256 \<Rightarrow> bool"
  IsBlockValueValid :: "CBlock \<Rightarrow> int \<Rightarrow> int \<Rightarrow> bool"
  IsBlockPayeeValid :: "CTransaction \<Rightarrow> int \<Rightarrow> u32 \<Rightarrow> int \<Rightarrow> bool"
  ProcessSpecialTxsInBlock :: "CBlock \<Rightarrow> addr \<Rightarrow> bool \<Rightarrow> bool \<Rightarrow> CValidationState \<Rightarrow> verify_error + CValidationState"
  UndoSpecialTxsInBlock :: "CBlock \<Rightarrow> addr \<Rightarrow> bool"
  instantSendFilter :: "int \<Rightarrow> bool"
  GetConflictingLock :: "CTransaction \<Rightarrow> bool"
  HasChainLock :: "int \<Rightarrow> uint256 \<Rightarrow> bool"
  sporksConnected :: "CBlock \<Rightarrow> addr \<Rightarrow> CValidationState \<Rightarrow> verify_error + CValidationState"
  ConnectBlockPrivate :: "CBlock \<Rightarrow> addr \<Rightarrow> bool \<Rightarrow> CValidationState \<Rightarrow> verify_error + CValidationState"
  IsBlockAllowed :: "CBlock \<Rightarrow> addr \<Rightarrow> CValidationState \<Rightarrow> verify_error + CValidationState"
  UndoWriteToDisk :: "CBlockUndo \<Rightarrow> addr \<Rightarrow> CValidationState \<Rightarrow> verify_error + CValidationState"
  UndoReadFromDisk :: "addr \<Rightarrow> CBlockUndo option"
  fAddressIndex :: bool

section \<open>Disconnecting\<close>

datatype DisconnectResult = DISCONNECT_OK | DISCONNECT_UNCLEAN | DISCONNECT_FAILED

definition SkipUndoForBlock :: "int \<Rightarrow> bool" where
  "SkipUndoForBlock h \<longleftrightarrow> False"

definition ApplyUndoForTxout :: "int \<Rightarrow> uint256 \<Rightarrow> nat \<Rightarrow> bool" where
  "ApplyUndoForTxout h txid n \<longleftrightarrow> True"

definition ApplyTxInUndo ::
  "(bytes \<Rightarrow> nat) \<Rightarrow> 'v coin_getter \<Rightarrow> Coin \<Rightarrow> COutPoint \<Rightarrow> 'v CCoinsViewCache \<Rightarrow> coins_error + DisconnectResult \<times> 'v CCoinsViewCache" where
  "ApplyTxInUndo usage get undo out view =
     (case HaveCoin usage get out view of (have, view) \<Rightarrow>
        let fClean = \<not> have;
            add = (\<lambda>undo view. bindE (AddCoin usage out undo (fCoinBase undo) view) (\<lambda>view.
                     Inr (if fClean then DISCONNECT_OK else DISCONNECT_UNCLEAN, view)))
        in if coinHeight undo = 0 then
             case AccessByTxid usage get (outhash out) view of (alternate, view) \<Rightarrow>
               if \<not> IsSpent alternate then add (undo\<lparr>coinHeight := coinHeight alternate, fCoinBase := fCoinBase alternate\<rparr>) view
               else Inr (DISCONNECT_FAILED, view)
           else add undo view)"

text \<open>Removing the outputs of a transaction, from output \<open>o1\<close> on. Outputs compare by value and script.\<close>

primrec remove_outputs_loop ::
  "(bytes \<Rightarrow> nat) \<Rightarrow> 'v coin_getter \<Rightarrow> uint256 \<Rightarrow> CTxOut list \<Rightarrow> nat \<Rightarrow> bool \<Rightarrow> 'v CCoinsViewCache \<Rightarrow> bool \<times> 'v CCoinsViewCache" where
  "remove_outputs_loop usage get hash [] o1 fClean view = (fClean, view)"
| "remove_outputs_loop usage get hash (txo # txos) o1 fClean view =
     (if \<not> IsUnspendable (scriptPubKey txo) then
        case SpendCoin usage get \<lparr>outhash = hash, outn = of_nat o1\<rparr> view of (moved, view) \<Rightarrow>
          let out = coinOut (case moved of None \<Rightarrow> coinEmpty | Some c \<Rightarrow> c)
          in remove_outputs_loop usage get hash txos (o1 + 1) (fClean \<and> nValue txo = nValue out \<and> scriptPubKey txo = scriptPubKey out) view
      else remove_outputs_loop usage get hash txos (o1 + 1) fClean view)"

text \<open>Restoring the inputs, from the last of the given ones to the first; \<open>None\<close> is a failure.\<close>

fun restore_inputs_loop ::
  "(bytes \<Rightarrow> nat) \<Rightarrow> 'v coin_getter \<Rightarrow> int \<Rightarrow> uint256 \<Rightarrow> (nat \<times> CTxIn \<times> Coin) list \<Rightarrow> bool \<Rightarrow> 'v CCoinsViewCache \<Rightarrow>
    coins_error + (bool \<times> 'v CCoinsViewCache) option" where
  "restore_inputs_loop usage get h txid [] fClean view = Inr (Some (fClean, view))"
| "restore_inputs_loop usage get h txid ((j, txin, undo) # rest) fClean view =
     (if ApplyUndoForTxout h txid j then
        bindE (ApplyTxInUndo usage get undo (prevout txin) view) (\<lambda>(res, view).
          if res = DISCONNECT_FAILED then Inr None
          else restore_inputs_loop usage get h txid rest (fClean \<and> res \<noteq> DISCONNECT_UNCLEAN) view)
      else restore_inputs_loop usage get h txid rest fClean view)"

text \<open>The fees as the disconnection counts them: those of private spends only, and a Spark fee replaces the sum.\<close>

definition private_fees :: "'e connect_env_scheme \<Rightarrow> CTransaction \<Rightarrow> int \<Rightarrow> verify_error + int" where
  "private_fees E tx nFees =
     (if Tx_IsSigmaSpend tx then
        (case GetValueOut tx of None \<Rightarrow> Inl ValueOutThrows | Some valueOut \<Rightarrow> Inr (nFees + (GetSigmaSpendInput E tx - valueOut)))
      else if Tx_IsLelantusJoinSplit tx then (case joinSplitFee E tx of Inl _ \<Rightarrow> Inr nFees | Inr fee \<Rightarrow> Inr (nFees + fee))
      else if Tx_IsSparkSpend tx then (case sparkFee E tx of Inl _ \<Rightarrow> Inr nFees | Inr fee \<Rightarrow> Inr fee)
      else Inr nFees)"

definition undo_tx ::
  "(bytes \<Rightarrow> nat) \<Rightarrow> 'v coin_getter \<Rightarrow> 'e connect_env_scheme \<Rightarrow> int \<Rightarrow> CTransaction \<Rightarrow> CTxUndo option \<Rightarrow> bool \<Rightarrow> int \<Rightarrow> 'v CCoinsViewCache \<Rightarrow>
    verify_error + (bool \<times> int \<times> 'v CCoinsViewCache) option" where
  "undo_tx usage get E h tx txundo fClean nFees view =
     (let hash = GetHash (hashes E) tx
      in case remove_outputs_loop usage get hash (vout tx) 0 fClean view of (fClean, view) \<Rightarrow>
         bindE (if \<not> IsCoinBase tx \<and> \<not> HasNoRegularInputs tx then
                  (case txundo of
                     None \<Rightarrow> Inl (ChainError OutOfRange)
                   | Some vprevout \<Rightarrow>
                       if length vprevout \<noteq> length (vin tx) then Inr None
                       else (case restore_inputs_loop usage get h hash (rev (zip [0..<length (vin tx)] (zip (vin tx) vprevout))) fClean view of
                               Inl e \<Rightarrow> Inl (CoinsError e)
                             | Inr r \<Rightarrow> Inr r))
                else Inr (Some (fClean, view))) (\<lambda>r.
         case r of
           None \<Rightarrow> Inr None
         | Some (fClean, view) \<Rightarrow> bindE (private_fees E tx nFees) (\<lambda>nFees. Inr (Some (fClean, nFees, view)))))"

text \<open>The transactions in reverse order, each with its undo data.\<close>

fun undo_txs_loop ::
  "(bytes \<Rightarrow> nat) \<Rightarrow> 'v coin_getter \<Rightarrow> 'e connect_env_scheme \<Rightarrow> int \<Rightarrow> (CTransaction \<times> CTxUndo option) list \<Rightarrow> bool \<Rightarrow> int \<Rightarrow> 'v CCoinsViewCache \<Rightarrow>
    verify_error + (bool \<times> int \<times> 'v CCoinsViewCache) option" where
  "undo_txs_loop usage get E h [] fClean nFees view = Inr (Some (fClean, nFees, view))"
| "undo_txs_loop usage get E h ((tx, txundo) # txs) fClean nFees view =
     bindE (undo_tx usage get E h tx txundo fClean nFees view) (\<lambda>r.
       case r of None \<Rightarrow> Inr None | Some (fClean, nFees, view) \<Rightarrow> undo_txs_loop usage get E h txs fClean nFees view)"

text \<open>The total supply is kept with the address index only: the value of the coinbase without the fees.\<close>

definition supply_change :: "'e connect_env_scheme \<Rightarrow> CTransaction \<Rightarrow> int \<Rightarrow> verify_error + int" where
  "supply_change E coinbase nFees =
     (if fAddressIndex E then (case GetValueOut coinbase of None \<Rightarrow> Inl ValueOutThrows | Some valueOut \<Rightarrow> Inr (valueOut - nFees)) else Inr 0)"

text \<open>
  The result, the amount added to the total supply and the view, for the call from \<open>DisconnectTip\<close> (\<open>pfClean\<close> is null). The place of the undo
  data is known exactly if the status says so; the hash of the parent is needed to read it.
\<close>

abbreviation (input) BLOCK_HAVE_UNDO :: u32 where "BLOCK_HAVE_UNDO \<equiv> 16"

definition DisconnectBlock ::
  "(bytes \<Rightarrow> nat) \<Rightarrow> 'v coin_getter \<Rightarrow> ('v \<Rightarrow> uint256 \<times> 'v) \<Rightarrow> 'e connect_env_scheme \<Rightarrow> BlockParams \<Rightarrow> store \<Rightarrow> addr \<Rightarrow> CBlock \<Rightarrow> 'v CCoinsViewCache \<Rightarrow>
    verify_error + DisconnectResult \<times> int \<times> 'v CCoinsViewCache" where
  "DisconnectBlock usage get best E P B pindex block view =
     (case GetBestBlock best view of (hash, view) \<Rightarrow>
        if phashBlock (B pindex) \<noteq> hash then Inl AssertBestBlock
        else if nHeight (B pindex) \<ge> DIP0003Height P \<and> \<not> VerifyBestBlock E (phashBlock (B pindex)) then Inr (DISCONNECT_FAILED, 0, view)
        else if nStatus (B pindex) AND BLOCK_HAVE_UNDO = 0 then Inr (DISCONNECT_FAILED, 0, view)
        else case pprev (B pindex) of
          None \<Rightarrow> Inl (ChainError NullDeref)
        | Some q \<Rightarrow>
        (case UndoReadFromDisk E pindex of
           None \<Rightarrow> Inr (DISCONNECT_FAILED, 0, view)
         | Some vtxundo \<Rightarrow>
             if length vtxundo + 1 \<noteq> length (vtx block) then Inr (DISCONNECT_FAILED, 0, view)
             else if \<not> UndoSpecialTxsInBlock E block pindex then Inr (DISCONNECT_FAILED, 0, view)
             else bindE (undo_txs_loop usage get E (nHeight (B pindex)) (rev (zip (vtx block) (None # map Some vtxundo))) True 0 view) (\<lambda>r.
                  case r of
                    None \<Rightarrow> Inr (DISCONNECT_FAILED, 0, view)
                  | Some (fClean, nFees, view) \<Rightarrow>
                      bindE (supply_change E (vtx block ! 0) nFees) (\<lambda>supply.
                      Inr (if fClean \<or> SkipUndoForBlock (nHeight (B pindex)) then DISCONNECT_OK else DISCONNECT_UNCLEAN,
                           - supply, SetBestBlock (phashBlock (B q)) view)))))"

section \<open>Connecting\<close>

definition GetSpendHeight :: "('v \<Rightarrow> uint256 \<times> 'v) \<Rightarrow> block_tree \<Rightarrow> 'v CCoinsViewCache \<Rightarrow> chain_error + int \<times> 'v CCoinsViewCache" where
  "GetSpendHeight best T inputs =
     (case GetBestBlock best inputs of (hash, inputs) \<Rightarrow>
        (case mapBlockIndex T hash of None \<Rightarrow> Inl NullDeref | Some p \<Rightarrow> Inr (nHeight (blocks T p) + 1, inputs)))"

text \<open>Whether the scripts of a block are checked: not for an old ancestor of the block that is assumed to be valid.\<close>

definition script_checks_wanted :: "BlockParams \<Rightarrow> uint256 \<Rightarrow> block_tree \<Rightarrow> addr \<Rightarrow> verify_error + bool" where
  "script_checks_wanted P hashAssumeValid T pindex =
     (let B = blocks T
      in if IsNull256 hashAssumeValid then Inr True
         else case mapBlockIndex T hashAssumeValid of
           None \<Rightarrow> Inr True
         | Some it \<Rightarrow>
             (case GetAncestor B (nHeight (B pindex)) it of
                Inl e \<Rightarrow> Inl (ChainError e)
              | Inr a \<Rightarrow>
                  if a \<noteq> Some pindex then Inr True
                  else case pindexBestHeader T of
                    None \<Rightarrow> Inl (ChainError NullDeref)
                  | Some bestHeader \<Rightarrow>
                      (case GetAncestor B (nHeight (B pindex)) bestHeader of
                         Inl e \<Rightarrow> Inl (ChainError e)
                       | Inr a \<Rightarrow>
                           if a = Some pindex \<and> CompareTo (nChainWork (B bestHeader)) (UintToArith256 (nMinimumChainWork P)) \<ge> 0 then
                             case GetBlockProofEquivalentTime (nChainWork (B bestHeader)) (nChainWork (B pindex)) (nBits (B bestHeader)) (powParams P) of
                               None \<Rightarrow> Inl (PowError UintError)
                             | Some t \<Rightarrow> Inr (t \<le> 60 * 60 * 24 * 7 * 2)
                           else Inr True)))"

text \<open>No output of the block may be there already.\<close>

function bip30_outputs ::
  "(bytes \<Rightarrow> nat) \<Rightarrow> 'v coin_getter \<Rightarrow> uint256 \<Rightarrow> nat \<Rightarrow> nat \<Rightarrow> 'v CCoinsViewCache \<Rightarrow> bool \<times> 'v CCoinsViewCache" where
  "bip30_outputs usage get hash n o1 view =
     (if o1 < n then
        case HaveCoin usage get \<lparr>outhash = hash, outn = of_nat o1\<rparr> view of (have, view) \<Rightarrow>
          if have then (True, view) else bip30_outputs usage get hash n (o1 + 1) view
      else (False, view))"
  by auto
termination
  by (relation "measure (\<lambda>(u, g, h, n, o1, v). n - o1)") auto

declare bip30_outputs.simps [simp del]

primrec bip30_loop ::
  "(bytes \<Rightarrow> nat) \<Rightarrow> 'v coin_getter \<Rightarrow> hash_funs \<Rightarrow> CTransaction list \<Rightarrow> CValidationState \<Rightarrow> 'v CCoinsViewCache \<Rightarrow> verify_error + 'v CCoinsViewCache" where
  "bip30_loop usage get H [] s view = Inr view"
| "bip30_loop usage get H (tx # txs) s view =
     (case bip30_outputs usage get (GetHash H tx) (length (vout tx)) 0 view of (have, view) \<Rightarrow>
        if have then Inl (Rejected (DoS 100 REJECT_INVALID ''bad-txns-BIP30'' False s)) else bip30_loop usage get H txs s view)"

definition script_flags :: "BlockParams \<Rightarrow> block_index \<Rightarrow> bool \<Rightarrow> u32" where
  "script_flags P b csv =
     fold (\<lambda>(on, f) flags. if on then flags OR push_bit (flag_shift f) 1 else flags)
       [(GetBlockTime b \<ge> 1349049600, SCRIPT_VERIFY_P2SH),
        (nHeight b \<ge> BIP66Height P, SCRIPT_VERIFY_DERSIG),
        (nHeight b \<ge> BIP65Height P, SCRIPT_VERIFY_CHECKLOCKTIMEVERIFY),
        (csv, SCRIPT_VERIFY_CHECKSEQUENCEVERIFY),
        (IsWitnessEnabled (pprev b) P, SCRIPT_VERIFY_WITNESS),
        (IsWitnessEnabled (pprev b) P, SCRIPT_VERIFY_NULLDUMMY)] 0"

text \<open>What the loop over the transactions changes.\<close>

record 'v connecting =
  cView :: "'v CCoinsViewCache"
  cState :: CValidationState
  nFees :: int
  nSigOpsCost :: int
  txIds :: "uint256 set"
  vtxundo :: CBlockUndo

primrec prev_heights ::
  "(bytes \<Rightarrow> nat) \<Rightarrow> 'v coin_getter \<Rightarrow> CTxIn list \<Rightarrow> 'v CCoinsViewCache \<Rightarrow> int list \<times> 'v CCoinsViewCache" where
  "prev_heights usage get [] view = ([], view)"
| "prev_heights usage get (txin # vins) view =
     (case AccessCoin usage get (prevout txin) view of (c, view) \<Rightarrow>
        (case prev_heights usage get vins view of (hs, view) \<Rightarrow> (int (coinHeight c) # hs, view)))"

definition connect_inputs ::
  "(bytes \<Rightarrow> nat) \<Rightarrow> 'v coin_getter \<Rightarrow> store \<Rightarrow> addr \<Rightarrow> u32 \<Rightarrow> CTransaction \<Rightarrow> CValidationState \<Rightarrow> 'v CCoinsViewCache \<Rightarrow> verify_error + 'v CCoinsViewCache" where
  "connect_inputs usage get B pindex nLockTimeFlags tx s view =
     (if \<not> IsCoinBase tx \<and> \<not> HasNoRegularInputs tx then
        case HaveInputs usage get tx view of (have, view) \<Rightarrow>
          if \<not> have then Inl (Rejected (DoS 100 REJECT_INVALID ''bad-txns-inputs-missingorspent'' False s))
          else case prev_heights usage get (vin tx) view of (prevheights, view) \<Rightarrow>
            (case SequenceLocks B pindex tx nLockTimeFlags prevheights of
               Inl e \<Rightarrow> Inl (ChainError e)
             | Inr final \<Rightarrow> if \<not> final then Inl (Rejected (DoS 100 REJECT_INVALID ''bad-txns-nonfinal'' False s)) else Inr view)
      else Inr view)"

definition is_private :: "CTransaction \<Rightarrow> bool" where
  "is_private tx \<longleftrightarrow> Tx_IsZerocoinSpend tx \<or> Tx_IsZerocoinMint tx \<or> Tx_IsSigmaSpend tx \<or> Tx_IsSigmaMint tx \<or> Tx_IsZerocoinRemint tx \<or>
     Tx_IsLelantusMint tx \<or> Tx_IsLelantusJoinSplit tx \<or> IsSparkTransaction tx"

definition proof_fee :: "(bool + int) \<Rightarrow> string \<Rightarrow> string \<Rightarrow> CValidationState \<Rightarrow> verify_error + int" where
  "proof_fee parsed badTx other s =
     (case parsed of
        Inl True \<Rightarrow> Inl (Rejected (DoS 0 REJECT_INVALID badTx False s))
      | Inl False \<Rightarrow> Inl (Rejected (DoS 0 REJECT_INVALID other False s))
      | Inr fee \<Rightarrow> Inr fee)"

text \<open>The fees of a private spend and the check against the state of its type; the fee and the state are returned.\<close>

definition connect_private ::
  "'e connect_env_scheme \<Rightarrow> BlockParams \<Rightarrow> CChain \<Rightarrow> int \<Rightarrow> CTransaction \<Rightarrow> CValidationState \<Rightarrow> verify_error + int \<times> CValidationState" where
  "connect_private E P chainActive h tx s =
     (if is_private tx then
        bindE (if Tx_IsSigmaSpend tx then
                 (case GetValueOut tx of None \<Rightarrow> Inl ValueOutThrows | Some valueOut \<Rightarrow> Inr (GetSigmaSpendInput E tx - valueOut))
               else Inr 0) (\<lambda>sigma.
        bindE (if Tx_IsLelantusJoinSplit tx
               then proof_fee (joinSplitFee E tx) ''unable to parse joinsplit'' ''failed to deserialize joinsplit'' s else Inr 0) (\<lambda>lelantus.
        bindE (if Tx_IsSparkSpend tx
               then proof_fee (sparkFee E tx) ''unable to parse spark spend'' ''failed to deserialize spark spend'' s else Inr 0) (\<lambda>spark.
        bindE (on_reject (DoS 100 REJECT_INVALID ''bad-txns-zerocoin'' False)
                 (CheckTransaction (TxParams.truncate P) (stateful E) chainActive tx False False h s)) (\<lambda>s.
        Inr (sigma + lelantus + spark, s)))))
      else Inr (0, s))"

definition connect_spend ::
  "(bytes \<Rightarrow> nat) \<Rightarrow> 'v coin_getter \<Rightarrow> ('v \<Rightarrow> uint256 \<times> 'v) \<Rightarrow> 'e connect_env_scheme \<Rightarrow> block_tree \<Rightarrow> bool \<Rightarrow> u32 \<Rightarrow> CTransaction \<Rightarrow>
    CValidationState \<Rightarrow> 'v CCoinsViewCache \<Rightarrow> verify_error + int \<times> CValidationState \<times> 'v CCoinsViewCache" where
  "connect_spend usage get best E T fScriptChecks flags tx s view =
     (if \<not> IsCoinBase tx \<and> \<not> HasNoRegularInputs tx then
        case GetValueIn usage get tx view of (valueIn, view) \<Rightarrow>
          (case GetValueOut tx of
             None \<Rightarrow> Inl ValueOutThrows
           | Some valueOut \<Rightarrow>
               (case GetSpendHeight best T view of
                  Inl e \<Rightarrow> Inl (ChainError e)
                | Inr (nSpendHeight, view) \<Rightarrow>
                    bindE (CheckInputs usage get (hashes E) (verifySig E) (joinSplitFee E) (denomination E) tx s view nSpendHeight
                             fScriptChecks flags (Precomputed (hashes E) tx)) (\<lambda>(s, view).
                      Inr (valueIn - valueOut, s, view))))
      else Inr (0, s, view))"

text \<open>One round of the loop over the transactions; \<open>whitelisted\<close> holds the transactions whose scripts are not checked.\<close>

definition connect_tx ::
  "(bytes \<Rightarrow> nat) \<Rightarrow> 'v coin_getter \<Rightarrow> ('v \<Rightarrow> uint256 \<times> 'v) \<Rightarrow> 'e connect_env_scheme \<Rightarrow> BlockParams \<Rightarrow> uint256 set \<Rightarrow> block_tree \<Rightarrow> CChain \<Rightarrow> addr \<Rightarrow>
    bool \<Rightarrow> u32 \<Rightarrow> u32 \<Rightarrow> bool \<Rightarrow> CTransaction \<Rightarrow> 'v connecting \<Rightarrow> verify_error + 'v connecting" where
  "connect_tx usage get best E P whitelisted T chainActive pindex fScriptChecks flags nLockTimeFlags first tx c =
     (let h = nHeight (blocks T pindex); txHash = GetHash (hashes E) tx; s = cState c;
          hasDuplicateInTheSameBlock = (txHash \<in> txIds c)
      in bindE (fail_if (hasDuplicateInTheSameBlock \<and> (\<not> isMain P \<or> h \<ge> 66550)) 100 ''bad-txns-duplicatetxid'' s) (\<lambda>s.
         bindE (fail_if ((Tx_IsLelantusJoinSplit tx \<or> Tx_IsSparkSpend tx) \<and> length (vin tx) > 1) 100 ''bad-txns-input-invalid'' s) (\<lambda>s.
         bindE (connect_inputs usage get (blocks T) pindex nLockTimeFlags tx s (cView c)) (\<lambda>view.
         bindE (connect_private E P chainActive h tx s) (\<lambda>(privateFee, s).
         bindE (GetTransactionSigOpCost usage get tx view flags) (\<lambda>(cost, view).
         bindE (fail_if (nSigOpsCost c + cost > MAX_BLOCK_SIGOPS_COST) 100 ''bad-blk-sigops'' s) (\<lambda>s.
         bindE (connect_spend usage get best E T (fScriptChecks \<and> txHash \<notin> whitelisted) flags tx s view) (\<lambda>(fee, s, view).
         let c = c\<lparr>cState := s, nFees := nFees c + privateFee + fee, nSigOpsCost := nSigOpsCost c + cost, txIds := insert txHash (txIds c)\<rparr>
         in if hasDuplicateInTheSameBlock then Inr (c\<lparr>cView := view, vtxundo := vtxundo c @ (if first then [] else [[]])\<rparr>)
            else (case UpdateCoins usage get (hashes E) tx view (nat h) of
                    Inl e \<Rightarrow> Inl (CoinsError e)
                  | Inr (undo, view) \<Rightarrow> Inr (c\<lparr>cView := view, vtxundo := vtxundo c @ (if first then [] else [undo])\<rparr>))))))))))"

primrec connect_txs_loop ::
  "(bytes \<Rightarrow> nat) \<Rightarrow> 'v coin_getter \<Rightarrow> ('v \<Rightarrow> uint256 \<times> 'v) \<Rightarrow> 'e connect_env_scheme \<Rightarrow> BlockParams \<Rightarrow> uint256 set \<Rightarrow> block_tree \<Rightarrow> CChain \<Rightarrow> addr \<Rightarrow>
    bool \<Rightarrow> u32 \<Rightarrow> u32 \<Rightarrow> bool \<Rightarrow> CTransaction list \<Rightarrow> 'v connecting \<Rightarrow> verify_error + 'v connecting" where
  "connect_txs_loop usage get best E P whitelisted T chainActive pindex fScriptChecks flags nLockTimeFlags first [] c = Inr c"
| "connect_txs_loop usage get best E P whitelisted T chainActive pindex fScriptChecks flags nLockTimeFlags first (tx # txs) c =
     bindE (connect_tx usage get best E P whitelisted T chainActive pindex fScriptChecks flags nLockTimeFlags first tx c)
       (connect_txs_loop usage get best E P whitelisted T chainActive pindex fScriptChecks flags nLockTimeFlags False txs)"

text \<open>What remains to be checked once all transactions are applied.\<close>

definition connect_rest ::
  "'e connect_env_scheme \<Rightarrow> BlockParams \<Rightarrow> block_tree \<Rightarrow> addr \<Rightarrow> bool \<Rightarrow> bool \<Rightarrow> CBlock \<Rightarrow> int \<Rightarrow> CValidationState \<Rightarrow> verify_error + CValidationState" where
  "connect_rest E P T pindex fJustCheck fScriptChecks block fees s =
     (let b = blocks T pindex; h = nHeight b; blockSubsidy = GetBlockSubsidy h P; blockReward = fees + blockSubsidy
      in case GetValueOut (vtx block ! 0) of
           None \<Rightarrow> Inl ValueOutThrows
         | Some valueOut \<Rightarrow>
             bindE (fail_if (valueOut > blockReward) 100 ''bad-cb-amount'' s) (\<lambda>s.
             bindE (fail_if (\<not> IsBlockValueValid E block h blockReward) 0 ''bad-cb-amount'' s) (\<lambda>s.
             bindE (fail_if (\<not> IsBlockPayeeValid E (vtx block ! 0) h (nTime b) blockSubsidy) 0 ''bad-cb-payee'' s) (\<lambda>s.
             bindE (ProcessSpecialTxsInBlock E block pindex fJustCheck fScriptChecks s) (\<lambda>s.
             bindE (fail_if (instantSendFilter E h \<and>
                        list_ex (\<lambda>tx. vin tx \<noteq> [] \<and> GetConflictingLock E tx \<and> \<not> HasChainLock E h (phashBlock b)) (vtx block))
                      10 ''conflict-tx-lock'' s) (\<lambda>s.
             bindE (if h \<ge> nEvoSporkStartBlock P \<and> h < nEvoSporkStopBlock P then sporksConnected E block pindex s else Inr s) (\<lambda>s.
             bindE (ConnectBlockPrivate E block pindex fJustCheck s) (\<lambda>s.
             IsBlockAllowed E block pindex s))))))))"

text \<open>
  The result of a connection. The undo data is written, and the entry of the index marked, unless the entry has
  undo data and is valid already.
\<close>

record 'v connected =
  outView :: "'v CCoinsViewCache"
  outState :: CValidationState
  outTree :: block_tree
  outUndo :: CBlockUndo
  addedSupply :: int
  outCache :: ThresholdConditionCache

abbreviation (input) BLOCK_VALID_SCRIPTS :: u32 where "BLOCK_VALID_SCRIPTS \<equiv> 5"

definition write_undo ::
  "'e connect_env_scheme \<Rightarrow> addr \<Rightarrow> CBlockUndo \<Rightarrow> CValidationState \<Rightarrow> block_tree \<Rightarrow> verify_error + CValidationState \<times> block_tree" where
  "write_undo E pindex undo s T =
     (let b = blocks T pindex; noUndo = (nStatus b AND BLOCK_HAVE_UNDO = 0)
      in case IsValid BLOCK_VALID_SCRIPTS b of
           Inl e \<Rightarrow> Inl (ChainError e)
         | Inr valid \<Rightarrow>
             if noUndo \<or> \<not> valid then
               bindE (if noUndo then UndoWriteToDisk E undo pindex s else Inr s) (\<lambda>s.
               case RaiseValidity BLOCK_VALID_SCRIPTS (if noUndo then b\<lparr>nStatus := nStatus b OR BLOCK_HAVE_UNDO\<rparr> else b) of
                 Inl e \<Rightarrow> Inl (ChainError e)
               | Inr (_, b) \<Rightarrow> Inr (s, T\<lparr>blocks := (blocks T)(pindex := b)\<rparr>))
             else Inr (s, T))"

definition check_progpow :: "'e block_env_scheme \<Rightarrow> BlockParams \<Rightarrow> CBlock \<Rightarrow> CValidationState \<Rightarrow> verify_error + CValidationState" where
  "check_progpow E P block s =
     (case progpow_hash_full (progpow E) (hashes E) block of (final_hash, exp_mix_hash) \<Rightarrow>
        bindE (fail_if (uint (hdrHeight block) \<ge> 1300 * 2000) 50 ''invalid-progpow-epoch'' s) (\<lambda>s.
        bindE (fail_if (exp_mix_hash \<noteq> mix_hash block) 50 ''invalid-mixhash'' s) (\<lambda>s.
        fail_if (\<not> CheckProofOfWork final_hash (hdrBits block) (powParams P)) 50 ''high-hash'' s)))"

definition connect_txs ::
  "(bytes \<Rightarrow> nat) \<Rightarrow> 'v coin_getter \<Rightarrow> ('v \<Rightarrow> uint256 \<times> 'v) \<Rightarrow> 'e connect_env_scheme \<Rightarrow> BlockParams \<Rightarrow> uint256 set \<Rightarrow> uint256 \<Rightarrow> block_tree \<Rightarrow> CChain \<Rightarrow> addr \<Rightarrow>
    bool \<Rightarrow> CBlock \<Rightarrow> CValidationState \<Rightarrow> 'v CCoinsViewCache \<Rightarrow> ThresholdConditionCache \<Rightarrow> verify_error + 'v connected" where
  "connect_txs usage get best E P whitelisted hashAssumeValid T chainActive pindex fJustCheck block s view csvCache =
     bindE (script_checks_wanted P hashAssumeValid T pindex) (\<lambda>fScriptChecks.
     bindE (bip30_loop usage get (hashes E) (vtx block) s view) (\<lambda>view.
     bindE (deployment_active P (blocks T) (csvDeployment P) (pprev (blocks T pindex)) csvCache) (\<lambda>(csv, csvCache).
     bindE (connect_txs_loop usage get best E P whitelisted T chainActive pindex fScriptChecks (script_flags P (blocks T pindex) csv)
              (if csv then LOCKTIME_VERIFY_SEQUENCE else 0) True (vtx block)
              \<lparr>cView = view, cState = s, nFees = 0, nSigOpsCost = 0, txIds = {}, vtxundo = []\<rparr>) (\<lambda>c.
     bindE (connect_rest E P T pindex fJustCheck fScriptChecks block (nFees c) (cState c)) (\<lambda>s.
     if fJustCheck then Inr \<lparr>outView = cView c, outState = s, outTree = T, outUndo = vtxundo c, addedSupply = 0, outCache = csvCache\<rparr>
     else bindE (write_undo E pindex (vtxundo c) s T) (\<lambda>(s, T).
          bindE (supply_change E (vtx block ! 0) (nFees c)) (\<lambda>supply.
          Inr \<lparr>outView = SetBestBlock (phashBlock (blocks T pindex)) (cView c), outState = s, outTree = T, outUndo = vtxundo c,
               addedSupply = supply, outCache = csvCache\<rparr>)))))))"

definition ConnectBlock ::
  "(bytes \<Rightarrow> nat) \<Rightarrow> 'v coin_getter \<Rightarrow> ('v \<Rightarrow> uint256 \<times> 'v) \<Rightarrow> 'e connect_env_scheme \<Rightarrow> BlockParams \<Rightarrow> uint256 set \<Rightarrow> uint256 \<Rightarrow> block_tree \<Rightarrow> CChain \<Rightarrow> addr \<Rightarrow>
    bool \<Rightarrow> CBlock \<Rightarrow> CValidationState \<Rightarrow> 'v CCoinsViewCache \<Rightarrow> ThresholdConditionCache \<Rightarrow> verify_error + 'v connected" where
  "ConnectBlock usage get best E P whitelisted hashAssumeValid T chainActive pindex fJustCheck block s view csvCache =
     (let b = blocks T pindex; block = snd (GetHashFull (progpow E) (hashes E) block)
      in case CheckBlock E P T chainActive (\<not> fJustCheck) (\<not> fJustCheck) (nHeight b) False block s of
           (Inl e, _) \<Rightarrow> Inl e
         | (Inr s, block) \<Rightarrow>
             bindE (if \<not> fJustCheck then check_progpow E P block s else Inr s) (\<lambda>s.
             case GetBestBlock best view of (hash, view) \<Rightarrow>
               if (case pprev b of None \<Rightarrow> replicate 32 0 | Some q \<Rightarrow> phashBlock (blocks T q)) \<noteq> hash then Inl AssertBestBlock
               else bindE (case pprev b of
                             None \<Rightarrow> Inr s
                           | Some q \<Rightarrow>
                               if nHeight b \<ge> DIP0003Height P \<and> \<not> VerifyBestBlock E (phashBlock (blocks T q))
                               then Inl (Rejected (Error ''Found EvoDB inconsistency, you must reindex to continue'' s))
                               else Inr s) (\<lambda>s.
               case Header_GetHash (progpow E) (hashes E) block of
                 None \<Rightarrow> Inl AssertMixHash
               | Some hash \<Rightarrow>
                   if hash = hashGenesisBlock P then
                     Inr \<lparr>outView = (if \<not> fJustCheck then SetBestBlock (phashBlock b) view else view), outState = s, outTree = T, outUndo = [],
                          addedSupply = 0, outCache = csvCache\<rparr>
                   else connect_txs usage get best E P whitelisted hashAssumeValid T chainActive pindex fJustCheck block s view csvCache)))"

end
