(* ===== verification/TxProps.thy ===== *)
theory TxProps
  imports TxVerify
begin

text \<open>
  What the checks of a transaction establish: the lock times of scripts and of inputs, what the loops over the
  inputs read from a view (in the locale of the views), how applying a transaction changes the set of unspent
  outputs, and the value that it keeps.
\<close>

section \<open>Lock times\<close>

text \<open>What a checked lock time and finality say together.\<close>

lemma locktime_final:
  assumes "Tx_CheckLockTime tx i n" "0 < n" "i < length (vin tx)" "IsFinalTx tx h t"
  shows "if n < LOCKTIME_THRESHOLD then n < h else n < t"
proof -
  have lock: "(uint (nLockTime tx) < LOCKTIME_THRESHOLD) = (n < LOCKTIME_THRESHOLD)" "n \<le> uint (nLockTime tx)"
    "nSequence (vin tx ! i) \<noteq> SEQUENCE_FINAL"
    using assms(1) by (auto simp: Tx_CheckLockTime_def Let_def split: if_splits)
  have "nLockTime tx \<noteq> 0" using lock(2) assms(2) by auto
  moreover have "\<not> list_all (\<lambda>txin. nSequence txin = SEQUENCE_FINAL) (vin tx)"
    using lock(3) assms(3) by (auto simp: list_all_length)
  ultimately have "uint (nLockTime tx) < (if uint (nLockTime tx) < LOCKTIME_THRESHOLD then h else t)"
    using assms(4) by (auto simp: IsFinalTx_def split: if_splits)
  then show ?thesis using lock by (auto split: if_splits)
qed

text \<open>Relative lock times: the bounds of the loop are at least what each input asks for.\<close>

definition lock_within :: "store \<Rightarrow> addr \<Rightarrow> CTxIn \<Rightarrow> int \<Rightarrow> int \<Rightarrow> int \<Rightarrow> bool" where
  "lock_within B block txin h rh rt \<longleftrightarrow> nSequence txin AND SEQUENCE_LOCKTIME_DISABLE_FLAG \<noteq> 0 \<or>
     (if nSequence txin AND SEQUENCE_LOCKTIME_TYPE_FLAG = 0 then h + uint (nSequence txin AND SEQUENCE_LOCKTIME_MASK) - 1 \<le> rh
      else \<exists>a. GetAncestor B (max (h - 1) 0) block = Inr (Some a) \<and>
        GetMedianTimePast B a + uint (push_bit 9 (nSequence txin AND SEQUENCE_LOCKTIME_MASK)) - 1 \<le> rt)"

lemma sequence_loop_bounds:
  assumes "sequence_loop B block vins hs mh mt = Inr ((rh, rt), out)" "length hs = length vins"
  shows "mh \<le> rh \<and> mt \<le> rt \<and> list_all2 (\<lambda>txin h. lock_within B block txin h rh rt) vins hs"
  using assms
proof (induction B block vins hs mh mt arbitrary: rh rt out rule: sequence_loop.induct)
  case (1 B block txin vins h hs mh mt)
  have l: "length hs = length vins" using 1(5) by simp
  consider (off) "nSequence txin AND SEQUENCE_LOCKTIME_DISABLE_FLAG \<noteq> 0"
    | (time) "nSequence txin AND SEQUENCE_LOCKTIME_DISABLE_FLAG = 0" "nSequence txin AND SEQUENCE_LOCKTIME_TYPE_FLAG \<noteq> 0"
    | (height) "nSequence txin AND SEQUENCE_LOCKTIME_DISABLE_FLAG = 0" "nSequence txin AND SEQUENCE_LOCKTIME_TYPE_FLAG = 0" by blast
  then show ?case
  proof cases
    case off
    from 1(4) off obtain o' where "sequence_loop B block vins hs mh mt = Inr ((rh, rt), o')" by (auto simp: bindE_eq_Inr_iff)
    from 1(1) [OF off this l] show ?thesis by (simp add: lock_within_def off)
  next
    case time
    define m where "m = uint (push_bit 9 (nSequence txin AND SEQUENCE_LOCKTIME_MASK))"
    from 1(4) time obtain a o' where a: "GetAncestor B (max (h - 1) 0) block = Inr (Some a)"
      "sequence_loop B block vins hs mh (max mt (GetMedianTimePast B a + m - 1)) = Inr ((rh, rt), o')"
      by (auto simp: bindE_eq_Inr_iff Let_def m_def split: option.splits)
    from 1(2) [OF _ time(2) a(1) refl refl] time(1) a(2) l have
      "mh \<le> rh \<and> max mt (GetMedianTimePast B a + m - 1) \<le> rt \<and> list_all2 (\<lambda>txin h. lock_within B block txin h rh rt) vins hs"
      by (simp add: m_def)
    then show ?thesis using a(1) time by (simp add: lock_within_def m_def)
  next
    case height
    from 1(4) height obtain o' where
      "sequence_loop B block vins hs (max mh (h + uint (nSequence txin AND SEQUENCE_LOCKTIME_MASK) - 1)) mt = Inr ((rh, rt), o')"
      by (auto simp: bindE_eq_Inr_iff)
    from 1(3) [OF _ _ this l] height show ?thesis by (simp add: lock_within_def)
  qed
qed auto

lemma bit_type_flag: "bit (0x400000 :: int) n \<longleftrightarrow> n = 22" "bit (0xffff :: int) n \<longleftrightarrow> n < 16"
proof -
  have "(0x400000 :: int) = 2 ^ 22" "(0xffff :: int) = mask 16" by (simp_all add: mask_eq_exp_minus_1)
  then show "bit (0x400000 :: int) n \<longleftrightarrow> n = 22" "bit (0xffff :: int) n \<longleftrightarrow> n < 16"
    by (simp_all only: bit_exp_iff bit_mask_iff possible_bit_int) auto
qed

lemma type_bit: "x AND 0x400000 = (if bit x 22 then 0x400000 else 0)"
  for x :: int
  by (rule bit_eqI) (auto simp: bit_and_iff bit_type_flag)

lemma masked_split: "x AND 0x40ffff = (if bit x 22 then 0x400000 else 0) + (x AND 0xffff)"
  for x :: int
proof -
  have "x AND 0x40ffff = x AND (0x400000 OR 0xffff)" by simp
  also have "\<dots> = (x AND 0x400000) OR (x AND 0xffff)" by (simp only: bit.conj_disj_distrib)
  also have "\<dots> = (x AND 0x400000) + (x AND 0xffff)"
    by (rule disjunctive_add [symmetric]) (auto simp: bit_and_iff bit_type_flag)
  finally show ?thesis by (simp add: type_bit)
qed

lemma low_part: "0 \<le> x AND 0xffff" "x AND 0xffff < 0x10000"
  for x :: int
proof -
  have "(0xffff :: int) = mask 16" by (simp add: mask_eq_exp_minus_1)
  then show "0 \<le> x AND 0xffff" "x AND 0xffff < 0x10000" using take_bit_int_less_exp [of 16 x] by (simp_all add: take_bit_eq_mask [symmetric])
qed

lemma uint_seq: "uint (w AND 0xffff) = uint w AND 0xffff" "w AND 0x400000 = 0 \<longleftrightarrow> \<not> bit (uint w) 22" "uint (w AND 0x40ffff) = uint w AND 0x40ffff"
  for w :: u32
proof -
  show "uint (w AND 0xffff) = uint w AND 0xffff" "uint (w AND 0x40ffff) = uint w AND 0x40ffff" by (simp_all add: unsigned_and_eq)
  have "w AND 0x400000 = 0 \<longleftrightarrow> uint (w AND 0x400000) = 0" by (rule unsigned_eq_0_iff [symmetric])
  also have "\<dots> \<longleftrightarrow> \<not> bit (uint w) 22" by (simp add: unsigned_and_eq type_bit)
  finally show "w AND 0x400000 = 0 \<longleftrightarrow> \<not> bit (uint w) 22" .
qed

lemma sequence_met:
  assumes "Tx_CheckSequence tx i n" "0 \<le> n" "SequenceLocks B block tx flags hs = Inr True" "flags AND LOCKTIME_VERIFY_SEQUENCE \<noteq> 0" "i < length (vin tx)"
  shows "if n AND 0x400000 = 0 then hs ! i + (n AND 0xffff) \<le> nHeight (B block)
    else \<exists>a q. GetAncestor B (max (hs ! i - 1) 0) block = Inr (Some a) \<and> pprev (B block) = Some q \<and>
      GetMedianTimePast B a + 512 * (n AND 0xffff) \<le> GetMedianTimePast B q"
proof -
  define w where "w = nSequence (vin tx ! i)"
  have c: "\<not> (word_of_int (nVersion tx) :: u32) < 2" "w AND SEQUENCE_LOCKTIME_DISABLE_FLAG = 0"
    "(uint w AND 0x40ffff < 0x400000) = (n AND 0x40ffff < 0x400000)" "n AND 0x40ffff \<le> uint w AND 0x40ffff"
    using assms(1) by (auto simp: Tx_CheckSequence_def Let_def w_def [symmetric] uint_seq split: if_splits)
  have same: "bit (uint w) 22 = bit n 22" "n AND 0xffff \<le> uint w AND 0xffff"
    using c(3,4) low_part [of n] low_part [of "uint w"] by (auto simp: masked_split split: if_splits)
  from assms(3) obtain rh rt out q where r: "CalculateSequenceLocks B block tx flags hs = Inr ((rh, rt), out)" "pprev (B block) = Some q"
    "rh < nHeight (B block)" "rt < GetMedianTimePast B q"
    by (auto simp: SequenceLocks_def EvaluateSequenceLocks_def bindE_eq_Inr_iff Let_def not_le split: option.splits)
  have "length hs = length (vin tx)" "sequence_loop B block (vin tx) hs (- 1) (- 1) = Inr ((rh, rt), out)"
    using r(1) c(1) assms(4) by (auto simp: CalculateSequenceLocks_def not_less split: if_splits)
  with sequence_loop_bounds [OF this(2,1)] assms(5) have "lock_within B block (vin tx ! i) (hs ! i) rh rt"
    by (auto dest: list_all2_nthD)
  moreover have "uint (push_bit 9 (w AND 0xffff)) = 512 * (uint w AND 0xffff)"
    using low_part [of "uint w"] by (simp add: push_bit_eq_mult uint_word_ariths uint_seq(1) mult.commute)
  ultimately show ?thesis
    using same c(2) r(2-) by (auto simp: lock_within_def w_def [symmetric] uint_seq type_bit)
qed

lemma timelock_run:
  assumes "16 < n" "n < 2 ^ 39" "opcode = OP_CHECKLOCKTIMEVERIFY \<or> opcode = OP_CHECKSEQUENCEVERIFY"
    and "EvalScript H stk (push_int64 n @ opcode # rest) flags checker sv = Inr stk'"
  shows "\<exists>st st'. hd (stack st) = serialize n \<and> stack st \<noteq> [] \<and>
    (if opcode = OP_CHECKLOCKTIMEVERIFY then op_checklocktimeverify checker flags (has_flag flags SCRIPT_VERIFY_MINIMALDATA) st
     else op_checksequenceverify checker flags (has_flag flags SCRIPT_VERIFY_MINIMALDATA) st) = Inr st'"
proof -
  have l: "length (serialize n) \<le> 5" using serialize_length [of n 5] assms(1,2) by simp
  have p: "push_int64 n = push_vch (serialize n)" using assms(1) by (simp add: push_int64_def)
  have "length rest \<le> 10000" using assms(4) by (auto simp: EvalScript_def split: if_splits)
  then obtain op where op: "op \<le> OP_PUSHDATA4" "GetOp2 (push_vch (serialize n) @ opcode # rest) = (True, op, serialize n, opcode # rest)"
    using GetOp2_push_vch [of "serialize n" "opcode # rest"] l by auto
  have ne: "push_vch (serialize n) @ opcode # rest \<noteq> []" by simp
  define st0 where "st0 = \<lparr>stack = stk, altstack = [], vfExec = [], nOpCount = 0, pbegincodehash = push_int64 n @ opcode # rest, fFirstOpCode = True\<rparr>"
  from assms(4) obtain stf where run: "eval_loop H checker flags sv (push_vch (serialize n) @ opcode # rest) st0 = Inr stf"
    by (auto simp: EvalScript_def bindE_eq_Inr_iff st0_def p split: if_splits)
  then obtain st1 where st1: "eval_step H checker flags sv op (serialize n) (opcode # rest) st0 = Inr st1"
    "eval_loop H checker flags sv (opcode # rest) st1 = Inr stf"
    by (auto simp: eval_loop_step [OF op(2) ne] bindE_eq_Inr_iff)
  have "\<not> OP_16 < op" using op(1) by (auto simp: not_less intro: order_trans)
  then have s1: "stack st1 = serialize n # stk" "vfExec st1 = []"
    using st1(1) op(1) by (auto simp: eval_step_def dispatch_def counted_def st0_def bindE_eq_Inr_iff size_limits_def split: if_splits)
  have "GetOp2 (opcode # rest) = (True, opcode, [], rest)" using assms(3) by (auto simp: GetOp2_plain swallows_rest_def)
  then obtain st2 where "eval_step H checker flags sv opcode [] rest st1 = Inr st2"
    using st1(2) by (auto simp: eval_loop_step bindE_eq_Inr_iff)
  then obtain st' where "exec_op H checker flags sv True opcode rest (counted opcode st1) = Inr st'"
    using s1(2) assms(3) by (auto simp: eval_step_def dispatch_def counted_def bindE_eq_Inr_iff split: if_splits)
  moreover have "stack (counted opcode st1) = serialize n # stk" using s1 by (simp add: counted_def)
  ultimately show ?thesis
    using assms(3) by (intro exI [of _ "counted opcode st1"] exI [of _ st']) (auto simp: exec_op_def Let_def)
qed

lemma timelock_checked:
  assumes "16 < n" "n < 2 ^ 39"
  shows "EvalScript H stk (push_int64 n @ OP_CHECKLOCKTIMEVERIFY # rest) flags checker sv = Inr stk' \<Longrightarrow>
      has_flag flags SCRIPT_VERIFY_CHECKLOCKTIMEVERIFY \<Longrightarrow> CheckLockTime checker n"
    and "EvalScript H stk (push_int64 n @ OP_CHECKSEQUENCEVERIFY # rest) flags checker sv = Inr stk' \<Longrightarrow>
      has_flag flags SCRIPT_VERIFY_CHECKSEQUENCEVERIFY \<Longrightarrow> n AND 2 ^ 31 = 0 \<Longrightarrow> CheckSequence checker n"
proof -
  have num: "numE (serialize n) m 5 = Inr n" for m using CScriptNum_serialize [of n 5 m] assms by (simp add: numE_def)
  show "CheckLockTime checker n" if "EvalScript H stk (push_int64 n @ OP_CHECKLOCKTIMEVERIFY # rest) flags checker sv = Inr stk'"
      "has_flag flags SCRIPT_VERIFY_CHECKLOCKTIMEVERIFY"
    using timelock_run [OF assms _ that(1)] that(2) num
    by (auto simp: op_checklocktimeverify_def hd_conv_nth split: if_splits)
  show "CheckSequence checker n" if "EvalScript H stk (push_int64 n @ OP_CHECKSEQUENCEVERIFY # rest) flags checker sv = Inr stk'"
      "has_flag flags SCRIPT_VERIFY_CHECKSEQUENCEVERIFY" "n AND 2 ^ 31 = 0"
    using timelock_run [OF assms _ that(1)] that(2,3) num
    by (auto simp: op_checksequenceverify_def hd_conv_nth split: if_splits)
qed

section \<open>The checks over the set of unspent outputs\<close>

definition spends :: "CTransaction \<Rightarrow> bool" where
  "spends tx \<longleftrightarrow> \<not> IsCoinBase tx \<and> \<not> HasNoRegularInputs tx"

context coins_view
begin

lemma have_inputs_loop_reads:
  assumes "cache_ok usage vok utxo s" "have_inputs_loop usage get vins s = (b, s')"
  shows "cache_ok usage vok utxo s' \<and> cache_utxo utxo s' = cache_utxo utxo s \<and> (b \<longleftrightarrow> (\<forall>i\<in>set vins. cache_utxo utxo s (prevout i) \<noteq> None))"
  using assms
proof (induction vins arbitrary: s)
  case (Cons i vins)
  obtain h s1 where h: "HaveCoin usage get (prevout i) s = (h, s1)" by (cases "HaveCoin usage get (prevout i) s")
  with have_reads [OF Cons.prems(1), of "prevout i"] have
    s1: "cache_ok usage vok utxo s1" "cache_utxo utxo s1 = cache_utxo utxo s" "h \<longleftrightarrow> cache_utxo utxo s (prevout i) \<noteq> None" by simp_all
  show ?case
  proof (cases h)
    case True
    with Cons.prems(2) h have "have_inputs_loop usage get vins s1 = (b, s')" by simp
    from Cons.IH [OF s1(1) this] s1 True show ?thesis by auto
  qed (use Cons.prems h s1 in auto)
qed simp

lemma tx_inputs_loop_reads:
  assumes "cache_ok usage vok utxo s" "tx_inputs_loop usage get height st vins v s = Inr (v', s')"
  shows "cache_ok usage vok utxo s' \<and> cache_utxo utxo s' = cache_utxo utxo s \<and>
    (\<forall>i\<in>set vins. \<exists>c. cache_utxo utxo s (prevout i) = Some c \<and> (fCoinBase c \<longrightarrow> COINBASE_MATURITY \<le> height - int (coinHeight c))) \<and>
    v' = v + (\<Sum>i\<leftarrow>vins. nValue (coinOut (the (cache_utxo utxo s (prevout i)))))"
  using assms
proof (induction vins arbitrary: s v)
  case (Cons i vins)
  obtain c s1 where c: "AccessCoin usage get (prevout i) s = (c, s1)" by (cases "AccessCoin usage get (prevout i) s")
  with access_reads [OF Cons.prems(1), of "prevout i"] have
    s1: "cache_ok usage vok utxo s1" "cache_utxo utxo s1 = cache_utxo utxo s" "cache_utxo utxo s (prevout i) = shown c" by simp_all
  from Cons.prems(2) c have "\<not> IsSpent c" "fCoinBase c \<longrightarrow> COINBASE_MATURITY \<le> height - int (coinHeight c)"
    "tx_inputs_loop usage get height st vins (v + nValue (coinOut c)) s1 = Inr (v', s')"
    by (auto simp: Let_def split: if_splits)
  with Cons.IH [OF s1(1) this(3)] s1(2,3) show ?case by simp
qed simp

lemma script_checks_loop_checks:
  assumes "cache_ok usage vok utxo s" "script_checks_loop usage get H verify tx flags txdata st i s = Inr s'"
    and "i \<le> j" "j < length (vin tx)"
  shows "\<exists>c. cache_utxo utxo s (prevout (vin tx ! j)) = Some c \<and>
    CScriptCheck H verify (scriptPubKey (coinOut c)) (nValue (coinOut c)) tx j flags txdata = Inr ()"
  using assms
proof (induction "j - i" arbitrary: i s)
  case (0 i s)
  then have [simp]: "i = j" by simp
  obtain c s1 where c: "AccessCoin usage get (prevout (vin tx ! j)) s = (c, s1)" by (cases "AccessCoin usage get (prevout (vin tx ! j)) s")
  with access_reads [OF 0(2), of "prevout (vin tx ! j)"] have "cache_utxo utxo s (prevout (vin tx ! j)) = shown c" by simp
  with 0 c show ?case
    by (subst (asm) script_checks_loop.simps) (auto split: if_splits sum.splits eval_error.splits)
next
  case (Suc k i s)
  obtain c s1 where c: "AccessCoin usage get (prevout (vin tx ! i)) s = (c, s1)" by (cases "AccessCoin usage get (prevout (vin tx ! i)) s")
  with access_reads [OF Suc.prems(1), of "prevout (vin tx ! i)"] have
    s1: "cache_ok usage vok utxo s1" "cache_utxo utxo s1 = cache_utxo utxo s" by simp_all
  have "script_checks_loop usage get H verify tx flags txdata st (i + 1) s1 = Inr s'"
    using Suc.prems(2-) Suc.hyps(2) c
    by (subst (asm) script_checks_loop.simps) (auto split: if_splits sum.splits eval_error.splits)
  from Suc.hyps(1) [OF _ s1(1) this] Suc.hyps(2) Suc.prems(4) s1(2) show ?case by simp
qed

lemma CheckTxInputs_reads:
  assumes s: "cache_ok usage vok utxo s" and chk: "CheckTxInputs usage get jsf tx st s height = Inr (fee, st', s')"
    and "spends tx"
  shows "cache_ok usage vok utxo s'" "cache_utxo utxo s' = cache_utxo utxo s" "st' = st" "0 \<le> fee"
    "\<And>i. i \<in> set (vin tx) \<Longrightarrow> \<exists>c. cache_utxo utxo s (prevout i) = Some c \<and> (fCoinBase c \<longrightarrow> COINBASE_MATURITY \<le> height - int (coinHeight c))"
    "(\<Sum>i\<leftarrow>vin tx. nValue (coinOut (the (cache_utxo utxo s (prevout i))))) = (\<Sum>out\<leftarrow>vout tx. nValue out) + fee"
    "\<And>out. out \<in> set (vout tx) \<Longrightarrow> 0 \<le> nValue out"
proof -
  obtain b s1 where h: "HaveInputs usage get tx s = (b, s1)" by (cases "HaveInputs usage get tx s")
  have "have_inputs_loop usage get (vin tx) s = (b, s1)" using h assms(3) by (simp add: HaveInputs_def spends_def)
  from have_inputs_loop_reads [OF s this] have s1: "cache_ok usage vok utxo s1" "cache_utxo utxo s1 = cache_utxo utxo s" by simp_all
  have j: "\<not> Tx_IsLelantusJoinSplit tx" using assms(3) by (simp add: spends_def HasNoRegularInputs_def)
  from chk h j obtain v vo where l: "tx_inputs_loop usage get height st (vin tx) 0 s1 = Inr (v, s')" and
    o: "GetValueOut tx = Some vo" "fee = v - vo" "0 \<le> fee" "st' = st"
    by (auto simp: CheckTxInputs_def bindE_eq_Inr_iff fail_if_def split: if_splits option.splits)
  note r = tx_inputs_loop_reads [OF s1(1) l, unfolded s1(2)]
  show "cache_ok usage vok utxo s'" "cache_utxo utxo s' = cache_utxo utxo s" "st' = st" "0 \<le> fee"
    "\<And>i. i \<in> set (vin tx) \<Longrightarrow> \<exists>c. cache_utxo utxo s (prevout i) = Some c \<and> (fCoinBase c \<longrightarrow> COINBASE_MATURITY \<le> height - int (coinHeight c))"
    using r o by auto
  show "(\<Sum>i\<leftarrow>vin tx. nValue (coinOut (the (cache_utxo utxo s (prevout i))))) = (\<Sum>out\<leftarrow>vout tx. nValue out) + fee"
    "\<And>out. out \<in> set (vout tx) \<Longrightarrow> 0 \<le> nValue out"
    using r o GetValueOut_iff [of tx vo] by auto
qed

lemma CheckInputs_scripts:
  assumes s: "cache_ok usage vok utxo s" "spends tx"
    and chk: "CheckInputs usage get H verify jsf den tx st s height True flags txdata = Inr r"
    and "i < length (vin tx)"
  shows "\<exists>c. cache_utxo utxo s (prevout (vin tx ! i)) = Some c \<and>
    CScriptCheck H verify (scriptPubKey (coinOut c)) (nValue (coinOut c)) tx i flags txdata = Inr ()"
proof -
  from chk s(2) obtain fee st' s1 s2 where c: "CheckTxInputs usage get jsf tx st s height = Inr (fee, st', s1)"
    "script_checks_loop usage get H verify tx flags txdata st' 0 s1 = Inr s2"
    by (auto simp: CheckInputs_def spends_def Let_def bindE_eq_Inr_iff)
  from script_checks_loop_checks [OF CheckTxInputs_reads(1) [OF s(1) c(1) s(2)] c(2) _ assms(4)] CheckTxInputs_reads(2) [OF s(1) c(1) s(2)]
  show ?thesis by simp
qed

lemma CheckInputs_timelocks:
  assumes "cache_ok usage vok utxo s" "spends tx"
    and "CheckInputs usage get H verify jsf den tx st s height True flags txdata = Inr r"
    and "i < length (vin tx)" "cache_utxo utxo s (prevout (vin tx ! i)) = Some c"
    and n: "16 < n" "n < 2 ^ 39"
  shows "scriptPubKey (coinOut c) = push_int64 n @ OP_CHECKLOCKTIMEVERIFY # rest \<Longrightarrow>
      has_flag flags SCRIPT_VERIFY_CHECKLOCKTIMEVERIFY \<Longrightarrow> Tx_CheckLockTime tx i n"
    and "scriptPubKey (coinOut c) = push_int64 n @ OP_CHECKSEQUENCEVERIFY # rest \<Longrightarrow>
      has_flag flags SCRIPT_VERIFY_CHECKSEQUENCEVERIFY \<Longrightarrow> n AND 2 ^ 31 = 0 \<Longrightarrow> Tx_CheckSequence tx i n"
proof -
  let ?chk = "TransactionSignatureChecker H verify tx i (nValue (coinOut c)) (Some txdata)"
  from CheckInputs_scripts [OF assms(1-4)] assms(5) obtain stk stk' where
    "EvalScript H stk (scriptPubKey (coinOut c)) flags ?chk SIGVERSION_BASE = Inr stk'"
    by (auto simp: CScriptCheck_def VerifyScript_def Let_def bindE_eq_Inr_iff split: if_splits)
  with timelock_checked(1) [OF n] timelock_checked(2) [OF n]
  show "scriptPubKey (coinOut c) = push_int64 n @ OP_CHECKLOCKTIMEVERIFY # rest \<Longrightarrow>
      has_flag flags SCRIPT_VERIFY_CHECKLOCKTIMEVERIFY \<Longrightarrow> Tx_CheckLockTime tx i n"
    and "scriptPubKey (coinOut c) = push_int64 n @ OP_CHECKSEQUENCEVERIFY # rest \<Longrightarrow>
      has_flag flags SCRIPT_VERIFY_CHECKSEQUENCEVERIFY \<Longrightarrow> n AND 2 ^ 31 = 0 \<Longrightarrow> Tx_CheckSequence tx i n"
    by (fastforce simp: TransactionSignatureChecker_def)+
qed

end

section \<open>Applying a transaction to the set of unspent outputs\<close>

definition new_coins :: "uint256 \<Rightarrow> nat \<Rightarrow> bool \<Rightarrow> CTxOut list \<Rightarrow> nat \<Rightarrow> COutPoint \<Rightarrow> Coin option" where
  "new_coins txid height cb outs i p =
     (let k = unat (outn p) - i
      in if outhash p = txid \<and> i \<le> unat (outn p) \<and> k < length outs \<and> \<not> IsUnspendable (scriptPubKey (outs ! k))
         then Some \<lparr>coinOut = outs ! k, fCoinBase = cb, coinHeight = height\<rparr> else None)"

lemma new_coins_Cons:
  assumes "i < 2 ^ 32"
  shows "u ++ new_coins txid height cb (txo # txos) i =
    (if IsUnspendable (scriptPubKey txo) then u
     else u(\<lparr>outhash = txid, outn = of_nat i\<rparr> \<mapsto> \<lparr>coinOut = txo, fCoinBase = cb, coinHeight = height\<rparr>)) ++ new_coins txid height cb txos (i + 1)"
proof
  fix p :: COutPoint
  have i: "unat (of_nat i :: u32) = i" using assms by (simp add: unsigned_of_nat take_bit_nat_eq_self)
  have p: "p = \<lparr>outhash = txid, outn = of_nat i\<rparr> \<longleftrightarrow> outhash p = txid \<and> unat (outn p) = i"
    using i by (cases p) (auto simp: word_unat_eq_iff)
  show "(u ++ new_coins txid height cb (txo # txos) i) p = ((if IsUnspendable (scriptPubKey txo) then u
     else u(\<lparr>outhash = txid, outn = of_nat i\<rparr> \<mapsto> \<lparr>coinOut = txo, fCoinBase = cb, coinHeight = height\<rparr>)) ++ new_coins txid height cb txos (i + 1)) p"
  proof (cases "outhash p = txid \<and> i < unat (outn p)")
    case True
    then obtain k where k: "unat (outn p) = Suc (i + k)" by (auto dest: less_imp_Suc_add)
    have ne: "p \<noteq> \<lparr>outhash = txid, outn = of_nat i\<rparr>" using k unfolding p by simp
    show ?thesis using k True ne by (auto simp: map_add_def new_coins_def split: option.split)
  next
    case False
    then show ?thesis by (cases "unat (outn p) = i") (auto simp: map_add_def new_coins_def p split: option.split)
  qed
qed

context coins_view
begin

lemma spend_loop_spends:
  assumes "cache_ok usage vok utxo s" "usage [] = 0" "spend_loop usage get vins acc s = (cs, s')"
  shows "cache_ok usage vok utxo s' \<and> cache_tip tip s' = cache_tip tip s \<and>
    cache_utxo utxo s' = cache_utxo utxo s |` (- set (map prevout vins)) \<and>
    (distinct (map prevout vins) \<and> (\<forall>i\<in>set vins. cache_utxo utxo s (prevout i) \<noteq> None) \<longrightarrow>
      cs = acc @ map (\<lambda>i. the (cache_utxo utxo s (prevout i))) vins)"
  using assms
proof (induction vins arbitrary: s acc)
  case (Cons i vins)
  obtain r s1 where r: "SpendCoin usage get (prevout i) s = (r, s1)" by (cases "SpendCoin usage get (prevout i) s")
  with spend_spends [OF Cons.prems(1,2), of "prevout i"] have
    s1: "cache_ok usage vok utxo s1" "cache_utxo utxo s1 = (cache_utxo utxo s)(prevout i := None)" "cache_tip tip s1 = cache_tip tip s"
      "cache_utxo utxo s (prevout i) = (case r of None \<Rightarrow> None | Some c \<Rightarrow> shown c)" by simp_all
  let ?c = "case r of None \<Rightarrow> coinEmpty | Some c \<Rightarrow> c"
  from Cons.prems(3) r have "spend_loop usage get vins (acc @ [?c]) s1 = (cs, s')" by simp
  note ih = Cons.IH [OF s1(1) Cons.prems(2) this]
  have "cache_utxo utxo s' = cache_utxo utxo s |` (- set (map prevout (i # vins)))"
    using ih s1(2) by (auto simp: restrict_map_def fun_eq_iff)
  moreover have "cs = acc @ map (\<lambda>i. the (cache_utxo utxo s (prevout i))) (i # vins)"
    if d: "distinct (map prevout (i # vins))" "\<forall>j\<in>set (i # vins). cache_utxo utxo s (prevout j) \<noteq> None"
  proof -
    have "?c = the (cache_utxo utxo s (prevout i))" using s1(4) d(2) by (cases r) (auto simp: shown_def split: if_splits)
    moreover have "\<forall>j\<in>set vins. cache_utxo utxo s1 (prevout j) = cache_utxo utxo s (prevout j)" using d(1) s1(2) by (auto simp: image_iff)
    ultimately show ?thesis using ih d by simp
  qed
  ultimately show ?case using ih s1(3) by simp
qed (auto simp: restrict_map_def)

lemma add_coins_loop_adds:
  assumes "cache_ok usage vok utxo s" "\<forall>txo\<in>set txos. \<not> TxOut_IsNull txo" "i + length txos \<le> 2 ^ 32"
    and "cb \<or> (\<forall>k. i \<le> k \<and> k < i + length txos \<longrightarrow> cache_utxo utxo s \<lparr>outhash = txid, outn = of_nat k\<rparr> = None)"
  shows "\<exists>s'. add_coins_loop usage txid height cb txos i s = Inr s' \<and> cache_ok usage vok utxo s' \<and> cache_tip tip s' = cache_tip tip s \<and>
    cache_utxo utxo s' = cache_utxo utxo s ++ new_coins txid height cb txos i"
  using assms
proof (induction txos arbitrary: s i)
  case (Cons txo txos)
  let ?p = "\<lparr>outhash = txid, outn = of_nat i :: u32\<rparr>" and ?c = "\<lparr>coinOut = txo, fCoinBase = cb, coinHeight = height\<rparr>"
  have "\<not> IsSpent ?c" "cb \<or> cache_utxo utxo s ?p = None" using Cons.prems by (auto simp: IsSpent_def)
  from add_adds [OF Cons.prems(1) this] obtain s1 where s1: "AddCoin usage ?p ?c cb s = Inr s1" "cache_ok usage vok utxo s1"
    "cache_tip tip s1 = cache_tip tip s"
    "cache_utxo utxo s1 = (if IsUnspendable (scriptPubKey txo) then cache_utxo utxo s else (cache_utxo utxo s)(?p \<mapsto> ?c))" by auto
  have "cache_utxo utxo s1 \<lparr>outhash = txid, outn = of_nat k\<rparr> = None" if "i + 1 \<le> k" "k < i + 1 + length txos" "\<not> cb" for k
  proof -
    have "(of_nat k :: u32) \<noteq> of_nat i" using that Cons.prems(3) by (simp add: word_of_nat_eq_iff take_bit_nat_eq_self)
    then show ?thesis using that Cons.prems(4) s1(4) by auto
  qed
  with Cons.IH [OF s1(2), of "i + 1"] Cons.prems(2,3) obtain s' where
    "add_coins_loop usage txid height cb txos (i + 1) s1 = Inr s'" "cache_ok usage vok utxo s'" "cache_tip tip s' = cache_tip tip s1"
    "cache_utxo utxo s' = cache_utxo utxo s1 ++ new_coins txid height cb txos (i + 1)" by auto
  then show ?case using s1 Cons.prems(3) by (simp add: new_coins_Cons)
qed (auto simp: new_coins_def map_add_def)
end

definition spent_by :: "CTransaction \<Rightarrow> COutPoint set" where
  "spent_by tx = (if spends tx then set (map prevout (vin tx)) else {})"

definition tx_applied :: "hash_funs \<Rightarrow> nat \<Rightarrow> CTransaction \<Rightarrow> (COutPoint \<Rightarrow> Coin option) \<Rightarrow> COutPoint \<Rightarrow> Coin option" where
  "tx_applied H height tx u = u |` (- spent_by tx) ++ new_coins (GetHash H tx) height (IsCoinBase tx) (vout tx) 0"

definition undo_coins :: "CTransaction \<Rightarrow> (COutPoint \<Rightarrow> Coin option) \<Rightarrow> Coin list" where
  "undo_coins tx u = (if spends tx then map (\<lambda>i. the (u (prevout i))) (vin tx) else [])"

text \<open>The transaction can be applied: its inputs are there, once each, and its outputs are new.\<close>

definition appliable :: "hash_funs \<Rightarrow> CTransaction \<Rightarrow> (COutPoint \<Rightarrow> Coin option) \<Rightarrow> bool" where
  "appliable H tx u \<longleftrightarrow> (spends tx \<longrightarrow> distinct (map prevout (vin tx)) \<and> (\<forall>i\<in>set (vin tx). u (prevout i) \<noteq> None)) \<and>
     (\<forall>txo\<in>set (vout tx). \<not> TxOut_IsNull txo) \<and> length (vout tx) \<le> 2 ^ 32 \<and>
     (\<forall>n < length (vout tx). u \<lparr>outhash = GetHash H tx, outn = of_nat n\<rparr> = None)"

context coins_view
begin

lemma UpdateCoins_applies:
  assumes s: "cache_ok usage vok utxo s" "usage [] = 0" and a: "appliable H tx (cache_utxo utxo s)"
  shows "\<exists>s'. UpdateCoins usage get H tx s height = Inr (undo_coins tx (cache_utxo utxo s), s') \<and> cache_ok usage vok utxo s' \<and>
    cache_tip tip s' = cache_tip tip s \<and> cache_utxo utxo s' = tx_applied H height tx (cache_utxo utxo s)"
proof -
  obtain cs s1 where sp: "(if \<not> IsCoinBase tx \<and> \<not> HasNoRegularInputs tx then spend_loop usage get (vin tx) [] s else ([], s)) = (cs, s1)"
    by fastforce
  have s1: "cache_ok usage vok utxo s1" "cache_tip tip s1 = cache_tip tip s" "cache_utxo utxo s1 = cache_utxo utxo s |` (- spent_by tx)"
    "cs = undo_coins tx (cache_utxo utxo s)"
    using sp spend_loop_spends [OF s, of "vin tx" "[]" cs s1] a s(1)
    by (auto simp: spent_by_def undo_coins_def spends_def appliable_def restrict_map_def split: if_splits)
  have "cache_utxo utxo s1 \<lparr>outhash = GetHash H tx, outn = of_nat k\<rparr> = None" if "k < length (vout tx)" for k
    using a that s1(3) by (auto simp: appliable_def restrict_map_def)
  with add_coins_loop_adds [OF s1(1), of "vout tx" 0 "IsCoinBase tx" "GetHash H tx" height] a obtain s2 where
    "add_coins_loop usage (GetHash H tx) height (IsCoinBase tx) (vout tx) 0 s1 = Inr s2" "cache_ok usage vok utxo s2"
    "cache_tip tip s2 = cache_tip tip s1"
    "cache_utxo utxo s2 = cache_utxo utxo s1 ++ new_coins (GetHash H tx) height (IsCoinBase tx) (vout tx) 0"
    by (auto simp: appliable_def)
  then show ?thesis using sp s1 by (simp add: UpdateCoins_def AddCoins_def tx_applied_def)
qed

end

section \<open>Value\<close>

definition total_value :: "(COutPoint \<Rightarrow> Coin option) \<Rightarrow> int" where
  "total_value u = (\<Sum>p\<in>dom u. nValue (coinOut (the (u p))))"

definition unspendable_value :: "CTransaction \<Rightarrow> int" where
  "unspendable_value tx = (\<Sum>txo\<leftarrow>filter (\<lambda>txo. IsUnspendable (scriptPubKey txo)) (vout tx). nValue txo)"

lemma total_restrict:
  assumes "finite (dom u)" "distinct ps" "set ps \<subseteq> dom u"
  shows "total_value (u |` (- set ps)) = total_value u - (\<Sum>p\<leftarrow>ps. nValue (coinOut (the (u p))))"
proof -
  have "dom (u |` (- set ps)) = dom u - set ps" by auto
  then have "total_value (u |` (- set ps)) = (\<Sum>p\<in>dom u - set ps. nValue (coinOut (the (u p))))"
    unfolding total_value_def by (intro sum.cong) auto
  also have "\<dots> = total_value u - (\<Sum>p\<in>set ps. nValue (coinOut (the (u p))))"
    unfolding total_value_def using assms by (simp add: sum_diff)
  finally show ?thesis using assms(2) by (simp add: sum_list_distinct_conv_sum_set)
qed

lemma total_add:
  assumes "finite (dom u)" "finite (dom v)" "dom u \<inter> dom v = {}"
  shows "total_value (u ++ v) = total_value u + total_value v"
proof -
  have "(\<Sum>p\<in>dom u. nValue (coinOut (the ((u ++ v) p)))) = total_value u" "(\<Sum>p\<in>dom v. nValue (coinOut (the ((u ++ v) p)))) = total_value v"
    unfolding total_value_def using assms(3) by (auto intro!: sum.cong simp: map_add_def split: option.splits)
  then show ?thesis
    using sum.union_disjoint [OF assms, of "\<lambda>p. nValue (coinOut (the ((u ++ v) p)))"] by (simp add: total_value_def Un_commute)
qed

lemma new_coins_outside: "p \<in> dom (new_coins txid height cb outs i) \<Longrightarrow> outhash p = txid \<and> i \<le> unat (outn p) \<and> unat (outn p) < i + length outs"
  by (auto simp: new_coins_def Let_def split: if_splits)

lemma total_new:
  assumes "i + length outs \<le> 2 ^ 32"
  shows "finite (dom (new_coins txid height cb outs i)) \<and>
    total_value (new_coins txid height cb outs i) = (\<Sum>txo\<leftarrow>filter (\<lambda>txo. \<not> IsUnspendable (scriptPubKey txo)) outs. nValue txo)"
  using assms
proof (induction outs arbitrary: i)
  case Nil
  have "new_coins txid height cb [] i = Map.empty" by (simp add: new_coins_def fun_eq_iff)
  then show ?case by (simp add: total_value_def)
next
  case (Cons txo outs)
  let ?n = "new_coins txid height cb outs (i + 1)" and ?p = "\<lparr>outhash = txid, outn = of_nat i :: u32\<rparr>"
  let ?c = "\<lparr>coinOut = txo, fCoinBase = cb, coinHeight = height\<rparr>"
  have ih: "finite (dom ?n)" "total_value ?n = (\<Sum>txo\<leftarrow>filter (\<lambda>txo. \<not> IsUnspendable (scriptPubKey txo)) outs. nValue txo)"
    using Cons.IH [of "i + 1"] Cons.prems by simp_all
  have e: "new_coins txid height cb (txo # outs) i = (if IsUnspendable (scriptPubKey txo) then Map.empty else [?p \<mapsto> ?c]) ++ ?n"
    using new_coins_Cons [of i Map.empty txid height cb txo outs] Cons.prems by (simp split: if_splits)
  have "?p \<notin> dom ?n"
  proof
    assume "?p \<in> dom ?n"
    from new_coins_outside [OF this] Cons.prems show False by (simp add: unsigned_of_nat take_bit_nat_eq_self)
  qed
  then have "total_value ([?p \<mapsto> ?c] ++ ?n) = total_value [?p \<mapsto> ?c] + total_value ?n" using ih by (intro total_add) auto
  moreover have "total_value [?p \<mapsto> ?c] = nValue txo" by (simp add: total_value_def)
  ultimately show ?case using ih unfolding e by (cases "IsUnspendable (scriptPubKey txo)") simp_all
qed

lemma tx_applied_finite: "finite (dom u) \<Longrightarrow> appliable H tx u \<Longrightarrow> finite (dom (tx_applied H height tx u))"
  using total_new [of 0 "vout tx" "GetHash H tx" height "IsCoinBase tx"] by (auto simp: tx_applied_def appliable_def)

lemma tx_applied_value:
  assumes f: "finite (dom u)" and a: "appliable H tx u"
  shows "total_value (tx_applied H height tx u) + unspendable_value tx =
    total_value u - (\<Sum>c\<leftarrow>undo_coins tx u. nValue (coinOut c)) + (\<Sum>txo\<leftarrow>vout tx. nValue txo)"
proof -
  let ?n = "new_coins (GetHash H tx) height (IsCoinBase tx) (vout tx) 0"
  have n: "finite (dom ?n)" "total_value ?n = (\<Sum>txo\<leftarrow>filter (\<lambda>txo. \<not> IsUnspendable (scriptPubKey txo)) (vout tx). nValue txo)"
    using total_new [of 0 "vout tx"] a by (simp_all add: appliable_def)
  have sp: "total_value (u |` (- spent_by tx)) = total_value u - (\<Sum>c\<leftarrow>undo_coins tx u. nValue (coinOut c))"
  proof (cases "spends tx")
    case True
    then have "set (map prevout (vin tx)) \<subseteq> dom u" "distinct (map prevout (vin tx))" using a by (auto simp: appliable_def)
    from total_restrict [OF f this(2,1)] True show ?thesis by (simp add: spent_by_def undo_coins_def comp_def)
  qed (simp add: spent_by_def undo_coins_def restrict_map_def)
  have "dom (u |` (- spent_by tx)) \<inter> dom ?n = {}"
  proof -
    have "u p = None" if "p \<in> dom ?n" for p
    proof -
      note np = new_coins_outside [OF that]
      have "\<forall>n < length (vout tx). u \<lparr>outhash = GetHash H tx, outn = of_nat n\<rparr> = None" using a by (simp add: appliable_def)
      from this [rule_format, of "unat (outn p)"] np have "u \<lparr>outhash = outhash p, outn = outn p\<rparr> = None" by simp
      then show ?thesis by (cases p) simp
    qed
    then show ?thesis by (fastforce simp: restrict_map_def split: if_splits)
  qed
  from total_add [OF _ n(1) this] f sp n(2) have
    "total_value (tx_applied H height tx u) = total_value u - (\<Sum>c\<leftarrow>undo_coins tx u. nValue (coinOut c)) +
      (\<Sum>txo\<leftarrow>filter (\<lambda>txo. \<not> IsUnspendable (scriptPubKey txo)) (vout tx). nValue txo)"
    by (simp add: tx_applied_def)
  moreover have "(\<Sum>txo\<leftarrow>filter (\<lambda>txo. \<not> P txo) xs. nValue txo) + (\<Sum>txo\<leftarrow>filter P xs. nValue txo) = (\<Sum>txo\<leftarrow>xs. nValue txo)" for P xs
    by (induction xs) auto
  ultimately show ?thesis unfolding unspendable_value_def by (metis add.assoc)
qed

section \<open>What the checks without inputs accept\<close>

lemma fail_if_Inr [simp]: "fail_if b l r s = Inr s' \<longleftrightarrow> \<not> b \<and> s' = s"
  by (auto simp: fail_if_def)

lemma outputs_loop_iff:
  "0 \<le> v \<Longrightarrow> v \<le> MAX_MONEY \<Longrightarrow>
    outputs_loop outs v s = Inr s' \<longleftrightarrow> s' = s \<and> (\<forall>txo\<in>set outs. 0 \<le> nValue txo) \<and> v + (\<Sum>txo\<leftarrow>outs. nValue txo) \<le> MAX_MONEY"
proof (induction outs arbitrary: v)
  case (Cons txo outs)
  have "0 \<le> (\<Sum>txo\<leftarrow>outs. nValue txo)" if "\<forall>txo\<in>set outs. 0 \<le> nValue txo" using that by (intro sum_list_nonneg) auto
  then show ?case
    using Cons.IH [of "v + nValue txo"] Cons.prems by (auto simp: bindE_eq_Inr_iff MoneyRange_def not_less)
qed auto

lemma duplicate_loop_iff: "duplicate_loop r ks seen s = Inr s' \<longleftrightarrow> s' = s \<and> distinct ks \<and> set ks \<inter> seen = {}"
  by (induction ks arbitrary: seen) (auto simp: bindE_eq_Inr_iff)

definition ordinary :: "CTransaction \<Rightarrow> bool" where
  "ordinary tx \<longleftrightarrow> \<not> HasPrivateInputs tx \<and> \<not> IsZerocoinV3SigmaTransaction tx \<and> \<not> IsLelantusTransaction tx \<and> \<not> IsSparkTransaction tx \<and>
     \<not> Tx_IsZerocoinSpend tx \<and> \<not> Tx_IsZerocoinMint tx \<and> \<not> Tx_IsZerocoinRemint tx"

lemma CheckTransaction_ok:
  assumes "CheckTransaction params checks chain tx dup vdb h s = Inr s'"
  shows "length (SerializeTransaction False tx) \<le> MAX_BLOCK_BASE_SIZE" "\<forall>txo\<in>set (vout tx). 0 \<le> nValue txo"
    "(\<Sum>txo\<leftarrow>vout tx. nValue txo) \<le> MAX_MONEY"
    "dup \<or> h \<noteq> INT_MAX \<and> nStartDuplicationCheck params < h \<Longrightarrow> \<not> HasPrivateInputs tx \<Longrightarrow> distinct (map prevout (vin tx))"
  using assms by (auto simp: CheckTransaction_def Let_def bindE_eq_Inr_iff outputs_loop_iff duplicate_loop_iff split: if_splits)

lemma CheckTransaction_iff:
  assumes "ordinary tx"
  shows "CheckTransaction params checks chain tx dup vdb h s = Inr s' \<longleftrightarrow> s' = s \<and>
    (nType tx = TRANSACTION_QUORUM_COMMITMENT \<or> vin tx \<noteq> [] \<and> vout tx \<noteq> []) \<and>
    length (SerializeTransaction False tx) \<le> MAX_BLOCK_BASE_SIZE \<and>
    length (vExtraPayload tx) \<le> (if h < nSigmaEndBlock params then 150000 else 230000) \<and>
    (\<forall>txo\<in>set (vout tx). 0 \<le> nValue txo) \<and> (\<Sum>txo\<leftarrow>vout tx. nValue txo) \<le> MAX_MONEY \<and>
    (dup \<or> h \<noteq> INT_MAX \<and> h > nStartDuplicationCheck params \<longrightarrow> distinct (map prevout (vin tx))) \<and>
    (\<forall>i\<in>set (vin tx). \<not> starts_exchange (scriptSig i)) \<and>
    (vdb \<or> nExchangeAddressStartBlock params \<le> (if h = INT_MAX then Height chain else h) \<or> (\<forall>txo\<in>set (vout tx). \<not> starts_exchange (scriptPubKey txo))) \<and>
    (if IsCoinBase tx then (if nType tx = TRANSACTION_COINBASE then 1 else 2) \<le> length (scriptSig (vin tx ! 0)) \<and> length (scriptSig (vin tx ! 0)) \<le> 100 \<and>
       (\<forall>txo\<in>set (vout tx). \<not> starts_exchange (scriptPubKey txo))
     else \<forall>i\<in>set (vin tx). OutPoint_IsNull (prevout i) \<longrightarrow>
       IsZerocoinSpend (scriptSig i) \<or> TxIn_IsZerocoinRemint i \<or> TxIn_IsLelantusJoinSplit i \<or> Tx_IsSparkSpend tx)"
proof -
  have p: "IsZerocoinV3SigmaTransaction tx = False" "IsLelantusTransaction tx = False" "IsSparkTransaction tx = False"
    "Tx_IsZerocoinSpend tx = False" "Tx_IsZerocoinMint tx = False" "Tx_IsZerocoinRemint tx = False" "HasPrivateInputs tx = False"
    using assms by (simp_all add: ordinary_def)
  show ?thesis
    unfolding CheckTransaction_def Let_def check_coinbase_def check_regular_def check_private_def p
    by (auto simp: bindE_eq_Inr_iff outputs_loop_iff duplicate_loop_iff list_ex_iff not_less not_le split: if_splits)
qed

lemma outputs_fit:
  assumes "length (SerializeTransaction False tx) \<le> MAX_BLOCK_BASE_SIZE"
  shows "length (vout tx) \<le> 2 ^ 32"
proof -
  have "length xs \<le> length (concat (map ser_CTxOut xs))" for xs
    by (induction xs) (auto simp: ser_CTxOut_def ser_writedata64_def)
  then have "length (vout tx) \<le> length (Serialize_vector ser_CTxOut (vout tx))" by (simp add: Serialize_vector_def trans_le_add2)
  then show ?thesis using assms by (simp add: SerializeTransaction_def Let_def)
qed

context coins_view
begin

lemma checked_appliable:
  assumes s: "cache_ok usage vok utxo s" "spends tx"
    and ct: "CheckTransaction params checks chain tx True isVerifyDB h st = Inr st1"
    and ci: "CheckTxInputs usage get jsf tx st1 s spendHeight = Inr (fee, st2, s1)"
    and new: "\<forall>n. cache_utxo utxo s \<lparr>outhash = GetHash H tx, outn = n\<rparr> = None"
  shows "appliable H tx (cache_utxo utxo s)"
proof -
  have p: "\<not> HasPrivateInputs tx" using s(2) by (auto simp: spends_def HasPrivateInputs_def HasNoRegularInputs_def)
  note c = CheckTransaction_ok [OF ct] and r = CheckTxInputs_reads [OF s(1) ci s(2)]
  have "\<not> TxOut_IsNull txo" if "txo \<in> set (vout tx)" for txo
    using c(2) that by (auto simp: TxOut_IsNull_def)
  then show ?thesis using c(4) [OF _ p] r(5) new outputs_fit [OF c(1)] by (fastforce simp: appliable_def)
qed

end

lemma finite_db_utxo: "finite (dom (cache_utxo db_utxo s))"
proof (rule finite_subset)
  show "dom (cache_utxo db_utxo s) \<subseteq> dom (map_of (cacheCoins s)) \<union> dom (map_of (dbCoins (base s)))"
    by (auto simp: cache_utxo_def db_utxo_def split: option.splits)
qed (simp add: finite_dom_map_of)

section \<open>Properties\<close>

text \<open>C20. An output whose script starts with a lock time n, pushed as a number with 16 < n < 2 ^ 39, and OP_CHECKLOCKTIMEVERIFY is only spent after
  that time: where the inputs of a transaction with regular inputs, read from a consistent cache, pass the checks with the scripts and the rule
  enabled, and the transaction is final in a block of height h and time t, the lock time is below the height, or below the time when it is one.\<close>

theorem cltv_enforced:
  assumes "cache_ok script_usage db_ok db_utxo s" "spends tx"
    and "CheckInputs script_usage DB_GetCoin H verify joinSplitFee denomination tx st s height True flags txdata = Inr r"
    and "has_flag flags SCRIPT_VERIFY_CHECKLOCKTIMEVERIFY"
    and "i < length (vin tx)" "cache_utxo db_utxo s (prevout (vin tx ! i)) = Some c"
    and "scriptPubKey (coinOut c) = push_int64 n @ OP_CHECKLOCKTIMEVERIFY # rest" "16 < n" "n < 2 ^ 39"
    and "IsFinalTx tx h t"
  shows "if n < LOCKTIME_THRESHOLD then n < h else n < t"
  using locktime_final [OF db.CheckInputs_timelocks(1) [OF assms(1-3,5,6,8,9,7,4)] _ assms(5,10)] assms(8) by simp

definition demo_input :: CTxIn where
  "demo_input = \<lparr>prevout = \<lparr>outhash = replicate 32 1, outn = 0\<rparr>, scriptSig = [], nSequence = 20, prevPubKey = [], scriptWitness = []\<rparr>"

definition spend_tx :: CTransaction where
  "spend_tx = \<lparr>nVersion = 2, nType = 0, vin = [demo_input], vout = [\<lparr>nValue = 4, scriptPubKey = [OP_1], nRounds = - 10\<rparr>],
     nLockTime = 30, vExtraPayload = []\<rparr>"

definition locked_coins :: "byte \<Rightarrow> CCoinsViewDB CCoinsViewCache" where
  "locked_coins opcode = new_cache \<lparr>dbCoins = [(\<lparr>outhash = replicate 32 1, outn = 0\<rparr>,
     \<lparr>coinOut = \<lparr>nValue = 5, scriptPubKey = [1, 20, opcode], nRounds = - 10\<rparr>, fCoinBase = False, coinHeight = 7\<rparr>)], dbBestBlock = None\<rparr>"

lemma demo_vin: "vin spend_tx = [demo_input]" "prevout demo_input = \<lparr>outhash = replicate 32 1, outn = 0\<rparr>"
  by (simp_all add: spend_tx_def demo_input_def)

lemma demo_spends: "spends spend_tx"
  by code_simp
lemma demo_db: "cache_ok script_usage db_ok db_utxo (locked_coins opcode)"
  unfolding locked_coins_def by (rule new_cache_ok) (simp add: db_ok_def IsSpent_def TxOut_IsNull_def)

definition locked_entry :: "byte \<Rightarrow> CCoinsCacheEntry" where
  "locked_entry opcode = \<lparr>coin = \<lparr>coinOut = \<lparr>nValue = 5, scriptPubKey = [1, 20, opcode], nRounds = - 10\<rparr>, fCoinBase = False, coinHeight = 7\<rparr>,
     DIRTY = False, FRESH = False\<rparr>"

definition read_coins :: "byte \<Rightarrow> CCoinsViewDB CCoinsViewCache" where
  "read_coins opcode = (locked_coins opcode)\<lparr>cacheCoins := [(prevout demo_input, locked_entry opcode)], cachedCoinsUsage := 0\<rparr>"

lemma demo_fetch:
  "FetchCoin script_usage DB_GetCoin (prevout demo_input) (locked_coins op) = (Some (locked_entry op), read_coins op)"
  "FetchCoin script_usage DB_GetCoin (prevout demo_input) (read_coins op) = (Some (locked_entry op), read_coins op)"
  by (simp_all add: FetchCoin_def locked_coins_def new_cache_def demo_vin DB_GetCoin_def locked_entry_def read_coins_def IsSpent_def TxOut_IsNull_def
      Coin_usage_def script_usage_def MallocUsage_def Let_def)

lemma demo_CheckTxInputs:
  "CheckTxInputs script_usage DB_GetCoin joinSplitFee spend_tx st (locked_coins op) 200 = Inr (1, st, read_coins op)"
proof -
  have "IsCoinBase spend_tx = False" "HasNoRegularInputs spend_tx = False" using demo_spends by (simp_all add: spends_def)
  moreover have "Tx_IsLelantusJoinSplit spend_tx = False" by code_simp
  moreover have "GetValueOut spend_tx = Some 4" by code_simp
  ultimately show ?thesis
    using demo_fetch [of op]
    by (simp add: CheckTxInputs_def HaveInputs_def demo_vin(1) HaveCoin_def AccessCoin_def IsSpent_def TxOut_IsNull_def MoneyRange_def fail_if_def
        locked_entry_def)
qed

lemma exec_op_timelocks:
  "exec_op H checker flags sv fExec OP_CHECKLOCKTIMEVERIFY pc st = op_checklocktimeverify checker flags (has_flag flags SCRIPT_VERIFY_MINIMALDATA) st"
  "exec_op H checker flags sv fExec OP_CHECKSEQUENCEVERIFY pc st = op_checksequenceverify checker flags (has_flag flags SCRIPT_VERIFY_MINIMALDATA) st"
  by (simp_all add: exec_op_def Let_def)

lemma timelock_passes:
  assumes "op = OP_CHECKLOCKTIMEVERIFY \<and> CheckLockTime checker 20 \<or> op = OP_CHECKSEQUENCEVERIFY \<and> CheckSequence checker 20"
  shows "EvalScript H [] [1, 20, op] 0x600 checker sv = Inr [[20]]"
proof -
  have g: "GetOp2 [1, 20, op] = (True, 1, [20], [op])" using GetOp2_direct_push [of 1 "[20]" "[op]"] by simp
  have g2: "GetOp2 [op] = (True, op, [], [])" using assms by (auto simp: GetOp2_plain swallows_rest_def)
  have "serialize 20 = [20]" by code_simp
  then have n: "numE [20] False 5 = Inr 20" using CScriptNum_serialize [of 20 5 False] by (simp add: numE_def)
  have f: "has_flag 0x600 SCRIPT_VERIFY_MINIMALDATA = False" "has_flag 0x600 SCRIPT_VERIFY_CHECKLOCKTIMEVERIFY = True"
    "has_flag 0x600 SCRIPT_VERIFY_CHECKSEQUENCEVERIFY = True" by (simp_all add: has_flag_def)
  let ?st = "\<lparr>stack = [], altstack = [], vfExec = [], nOpCount = 0, pbegincodehash = [1, 20, op], fFirstOpCode = True\<rparr>"
  have s1: "eval_step H checker 0x600 sv 1 [20] [op] ?st = Inr (?st\<lparr>stack := [[20]], fFirstOpCode := False\<rparr>)"
    by (simp add: eval_step_def dispatch_def counted_def f size_limits_def disabled_opcode_def)
  let ?st1 = "?st\<lparr>stack := [[20]], fFirstOpCode := False\<rparr>"
  have s2: "eval_step H checker 0x600 sv op [] [] ?st1 = Inr (?st1\<lparr>nOpCount := 1\<rparr>)"
    using assms
    by (auto simp: eval_step_exec disabled_opcode_def exec_op_timelocks op_checklocktimeverify_def op_checksequenceverify_def f n size_limits_def)
  show ?thesis
    by (simp add: EvalScript_def eval_loop_step [OF g] eval_loop_step [OF g2] s1 s2 [simplified])
qed

lemma demo_CheckInputs:
  assumes "op = OP_CHECKLOCKTIMEVERIFY \<or> op = OP_CHECKSEQUENCEVERIFY"
  shows "\<exists>r. CheckInputs script_usage DB_GetCoin H verify joinSplitFee denomination spend_tx st (locked_coins op) 200 True 0x600 txdata = Inr r"
proof -
  let ?c = "TransactionSignatureChecker H verify spend_tx 0 5 (Some txdata)"
  have "CheckLockTime ?c 20" "CheckSequence ?c 20"
    by (simp_all add: TransactionSignatureChecker_def Tx_CheckLockTime_def Tx_CheckSequence_def spend_tx_def demo_input_def Let_def)
  then have e: "EvalScript H [] [1, 20, op] 0x600 ?c SIGVERSION_BASE = Inr [[20]]" using assms by (intro timelock_passes) auto
  have e0: "EvalScript H [] [] 0x600 ?c SIGVERSION_BASE = Inr []" by (simp add: EvalScript_def)
  have f: "has_flag 0x600 SCRIPT_VERIFY_P2SH = False" "has_flag 0x600 SCRIPT_VERIFY_WITNESS = False" "has_flag 0x600 SCRIPT_VERIFY_SIGPUSHONLY = False"
    "has_flag 0x600 SCRIPT_VERIFY_CLEANSTACK = False" by (simp_all add: has_flag_def)
  have v: "CScriptCheck H verify [1, 20, op] 5 spend_tx 0 0x600 txdata = Inr ()"
    by (simp add: CScriptCheck_def VerifyScript_def spend_tx_def demo_input_def e [unfolded spend_tx_def demo_input_def]
      e0 [unfolded spend_tx_def demo_input_def] f top_true_def verify_bare_witness_def verify_p2sh_def verify_final_def Let_def)
  have r: "FetchCoin script_usage DB_GetCoin (prevout demo_input) (read_coins op) = (Some (locked_entry op), read_coins op)"
    by (rule demo_fetch)
  have "script_checks_loop script_usage DB_GetCoin H verify spend_tx 0x600 txdata st 1 (read_coins op) = Inr (read_coins op)"
    by (subst script_checks_loop.simps) (simp add: demo_vin(1))
  then have "script_checks_loop script_usage DB_GetCoin H verify spend_tx 0x600 txdata st 0 (read_coins op) = Inr (read_coins op)"
    by (subst script_checks_loop.simps) (simp add: demo_vin(1) AccessCoin_def r v locked_entry_def IsSpent_def TxOut_IsNull_def)
  then show ?thesis using demo_spends by (simp add: CheckInputs_def spends_def demo_CheckTxInputs)
qed

theorem cltv_enforced_witness:
  "cache_utxo db_utxo (locked_coins OP_CHECKLOCKTIMEVERIFY) (prevout (vin spend_tx ! 0)) =
     Some \<lparr>coinOut = \<lparr>nValue = 5, scriptPubKey = push_int64 20 @ [OP_CHECKLOCKTIMEVERIFY], nRounds = - 10\<rparr>, fCoinBase = False, coinHeight = 7\<rparr> \<and>
   IsFinalTx spend_tx 31 0 \<and> (20 :: int) < 31"
proof -
  have p: "push_int64 20 = [1, 20]" by code_simp
  have c: "cache_utxo db_utxo (locked_coins OP_CHECKLOCKTIMEVERIFY) (prevout (vin spend_tx ! 0)) =
     Some \<lparr>coinOut = \<lparr>nValue = 5, scriptPubKey = push_int64 20 @ [OP_CHECKLOCKTIMEVERIFY], nRounds = - 10\<rparr>, fCoinBase = False, coinHeight = 7\<rparr>"
    by (simp add: locked_coins_def new_cache_def cache_utxo_def db_utxo_def demo_vin p)
  have f: "IsFinalTx spend_tx 31 0" by (simp add: IsFinalTx_def spend_tx_def)
  obtain r where "CheckInputs script_usage DB_GetCoin demo_hash (\<lambda>_ _ _. False) (\<lambda>_. Inl True) (\<lambda>_. None) spend_tx new_state
      (locked_coins OP_CHECKLOCKTIMEVERIFY) 200 True 0x600 (Precomputed demo_hash spend_tx) = Inr r"
    using demo_CheckInputs [of OP_CHECKLOCKTIMEVERIFY] by blast
  from cltv_enforced [OF demo_db demo_spends this _ _ c _ _ _ f, of 20 "[]"] c f show ?thesis by (simp add: has_flag_def demo_vin)
qed

text \<open>C21. The same for relative lock times n, pushed as a number with 16 < n < 2 ^ 39 and without the bit that disables them, and
  OP_CHECKSEQUENCEVERIFY: where the inputs, read from a consistent cache, pass the checks with the scripts and the rule enabled and the transaction
  satisfies the sequence locks in a block, given the heights of the spent outputs, the block is at least the required number of blocks above the
  output, or its median time past the required time after that of the block before the output.\<close>

theorem csv_enforced:
  assumes "cache_ok script_usage db_ok db_utxo s" "spends tx"
    and "CheckInputs script_usage DB_GetCoin H verify joinSplitFee denomination tx st s height True flags txdata = Inr r"
    and "has_flag flags SCRIPT_VERIFY_CHECKSEQUENCEVERIFY"
    and "i < length (vin tx)" "cache_utxo db_utxo s (prevout (vin tx ! i)) = Some c"
    and "scriptPubKey (coinOut c) = push_int64 n @ OP_CHECKSEQUENCEVERIFY # rest" "16 < n" "n < 2 ^ 39" "n AND 2 ^ 31 = 0"
    and "SequenceLocks B block tx lockFlags prevHeights = Inr True" "lockFlags AND LOCKTIME_VERIFY_SEQUENCE \<noteq> 0"
  shows "if n AND 0x400000 = 0 then prevHeights ! i + (n AND 0xffff) \<le> nHeight (B block)
    else \<exists>a q. GetAncestor B (max (prevHeights ! i - 1) 0) block = Inr (Some a) \<and> pprev (B block) = Some q \<and>
      GetMedianTimePast B a + 512 * (n AND 0xffff) \<le> GetMedianTimePast B q"
  using sequence_met [OF db.CheckInputs_timelocks(2) [OF assms(1-3,5,6,8,9,7,4,10)] _ assms(11,12,5)] assms(8) by simp

lemma median_nonneg: "0 \<le> GetMedianTimePast B p"
proof -
  let ?ts = "sort (past_times B 11 (Some p))"
  have "\<forall>t\<in>set (past_times B n q). 0 \<le> t" for n q
    by (induction n arbitrary: q) (auto simp: GetBlockTime_def split: option.split)
  then have "\<forall>t\<in>set ?ts. 0 \<le> t" by simp
  moreover have "past_times B 11 (Some p) \<noteq> []" by (simp add: numeral_eq_Suc)
  then have "?ts ! (length ?ts div 2) \<in> set ?ts" by (intro nth_mem) simp
  ultimately show ?thesis by (simp add: GetMedianTimePast_def Let_def)
qed

theorem csv_enforced_witness:
  "SequenceLocks demo_store 27 spend_tx 1 [7] = Inr True \<and> (7 :: int) + (20 AND 0xffff) \<le> nHeight (demo_store 27)"
proof -
  have p: "push_int64 20 = [1, 20]" by code_simp
  have c: "cache_utxo db_utxo (locked_coins OP_CHECKSEQUENCEVERIFY) (prevout (vin spend_tx ! 0)) =
     Some \<lparr>coinOut = \<lparr>nValue = 5, scriptPubKey = push_int64 20 @ [OP_CHECKSEQUENCEVERIFY], nRounds = - 10\<rparr>, fCoinBase = False, coinHeight = 7\<rparr>"
    by (simp add: locked_coins_def new_cache_def cache_utxo_def db_utxo_def demo_vin p)
  have l: "SequenceLocks demo_store 27 spend_tx 1 [7] = Inr True"
    using median_nonneg [of demo_store 26]
    by (simp add: SequenceLocks_def CalculateSequenceLocks_def EvaluateSequenceLocks_def spend_tx_def demo_input_def demo_store_def Let_def)
  obtain r where "CheckInputs script_usage DB_GetCoin demo_hash (\<lambda>_ _ _. False) (\<lambda>_. Inl True) (\<lambda>_. None) spend_tx new_state
      (locked_coins OP_CHECKSEQUENCEVERIFY) 200 True 0x600 (Precomputed demo_hash spend_tx) = Inr r"
    using demo_CheckInputs [of OP_CHECKSEQUENCEVERIFY] by blast
  from csv_enforced [OF demo_db demo_spends this _ _ c _ _ _ _ l, of 20 "[]"] l show ?thesis by (simp add: has_flag_def demo_vin)
qed

text \<open>C5. Conservation of value: a transaction with regular inputs that passes the checks without and with its inputs, and
  whose identifier has no unspent outputs, is applied without an exception. The value of the set of unspent outputs
  falls by exactly the fee that the check returned and the value of the unspendable outputs, the fee is not
  negative, the undo record holds the spent coins, and no input can be spent again.\<close>

theorem transaction_conserves_value:
  assumes s: "cache_ok script_usage db_ok db_utxo s" "spends tx"
    and ct: "CheckTransaction params checks chain tx True isVerifyDB h st = Inr st1"
    and ci: "CheckTxInputs script_usage DB_GetCoin joinSplitFee tx st1 s spendHeight = Inr (fee, st2, s1)"
    and new: "\<forall>n. cache_utxo db_utxo s \<lparr>outhash = GetHash H tx, outn = n\<rparr> = None"
  shows "\<exists>undo s2. UpdateCoins script_usage DB_GetCoin H tx s1 height = Inr (undo, s2) \<and> cache_ok script_usage db_ok db_utxo s2 \<and>
    total_value (cache_utxo db_utxo s2) + fee + unspendable_value tx = total_value (cache_utxo db_utxo s) \<and> 0 \<le> fee \<and>
    map Some undo = map (\<lambda>i. cache_utxo db_utxo s (prevout i)) (vin tx) \<and>
    (\<forall>i\<in>set (vin tx). cache_utxo db_utxo s2 (prevout i) = None)"
proof -
  note r = db.CheckTxInputs_reads [OF s(1) ci s(2)] and a = db.checked_appliable [OF s ct ci new]
  from db.UpdateCoins_applies [OF r(1) script_usage_empty a [folded r(2)], of height] obtain s2 where
    u: "UpdateCoins script_usage DB_GetCoin H tx s1 height = Inr (undo_coins tx (cache_utxo db_utxo s), s2)"
      "cache_ok script_usage db_ok db_utxo s2" "cache_utxo db_utxo s2 = tx_applied H height tx (cache_utxo db_utxo s)"
    unfolding r(2) by blast
  have "total_value (cache_utxo db_utxo s2) + fee + unspendable_value tx = total_value (cache_utxo db_utxo s)"
    using tx_applied_value [OF finite_db_utxo a, of height] u(3) r(6) s(2) by (simp add: undo_coins_def comp_def)
  moreover have "map Some (undo_coins tx (cache_utxo db_utxo s)) = map (\<lambda>i. cache_utxo db_utxo s (prevout i)) (vin tx)"
    using s(2) r(5) by (force simp: undo_coins_def)
  moreover have "cache_utxo db_utxo s2 (prevout i) = None" if "i \<in> set (vin tx)" for i
  proof -
    have "outhash (prevout i) \<noteq> GetHash H tx" using r(5) [OF that] new by (metis COutPoint.surjective option.distinct(1) old.unit.exhaust)
    then have "new_coins (GetHash H tx) height (IsCoinBase tx) (vout tx) 0 (prevout i) = None" by (simp add: new_coins_def)
    then show ?thesis using that s(2) by (simp add: u(3) tx_applied_def spent_by_def map_add_def)
  qed
  ultimately show ?thesis using u r(4) by blast
qed


definition demo_params :: TxParams where
  "demo_params = \<lparr>nSigmaEndBlock = 0, nStartDuplicationCheck = 0, nExchangeAddressStartBlock = 0, nDisableZerocoinStartBlock = 0,
     nSigmaStartBlock = 0, nZerocoinToSigmaRemintWindowSize = 0, DIP0003Height = 0, nEvoSporkStartBlock = 0, nEvoSporkStopBlock = 0,
     nLelantusV3PayloadStartBlock = 0, nSparkStartBlock = 0\<rparr>"

definition demo_checks :: private_checks where
  "demo_checks = \<lparr>CheckSigmaTransaction = (\<lambda>tx s. Inr s), CheckLelantusTransaction = (\<lambda>tx s. Inr s), CheckSparkTransaction = (\<lambda>tx s. Inr s)\<rparr>"

lemma demo_ordinary: "ordinary spend_tx"
  by code_simp

lemma demo_size: "length (SerializeTransaction False spend_tx) = 61"
  by code_simp

lemma demo_accepted: "CheckTransaction demo_params demo_checks [] spend_tx True False 100 new_state = Inr new_state"
  unfolding CheckTransaction_iff [OF demo_ordinary] demo_size
  using demo_spends by (simp add: spends_def spend_tx_def demo_input_def demo_params_def starts_exchange_def OutPoint_IsNull_def IsNull256_def)

theorem transaction_conserves_value_witness:
  "total_value (cache_utxo db_utxo (locked_coins OP_1)) = 5 \<and>
   (\<exists>undo s2. UpdateCoins script_usage DB_GetCoin demo_hash spend_tx (read_coins OP_1) 200 = Inr (undo, s2) \<and>
     total_value (cache_utxo db_utxo s2) = 4)"
proof -
  let ?u = "cache_utxo db_utxo (locked_coins OP_1)"
  have "?u = [prevout demo_input \<mapsto> coin (locked_entry OP_1)]"
    by (simp add: fun_eq_iff locked_coins_def new_cache_def cache_utxo_def db_utxo_def demo_vin(2) locked_entry_def)
  then have t: "total_value ?u = 5" by (simp add: total_value_def locked_entry_def)
  have "GetHash demo_hash spend_tx = replicate 32 2" by (simp add: GetHash_def CHash256_def demo_hash_def)
  then have "\<forall>n. ?u \<lparr>outhash = GetHash demo_hash spend_tx, outn = n\<rparr> = None"
    by (simp add: locked_coins_def new_cache_def cache_utxo_def db_utxo_def numeral_eq_Suc)
  from transaction_conserves_value [OF demo_db demo_spends demo_accepted demo_CheckTxInputs this, of 200] t show ?thesis
    by (auto simp: unspendable_value_def spend_tx_def IsUnspendable_def)
qed

text \<open>C32. What the checks without inputs accept, for a transaction that is not of one of the private types: both lists are
  non-empty (unless it is a quorum commitment), the sizes are bounded, no output value is negative and their sum is
  at most the supply limit, no output is spent twice (when that is checked), no input script and (before their
  activation) no output script starts with the exchange address marker, a coinbase has a script of the required
  length and no exchange address output, and any other transaction has no null input unless it is of a private kind. The state is unchanged.\<close>

theorem CheckTransaction_accepts_iff:
  assumes "ordinary tx"
  shows "CheckTransaction params checks chain tx dup vdb h s = Inr s' \<longleftrightarrow> s' = s \<and>
    (nType tx = TRANSACTION_QUORUM_COMMITMENT \<or> vin tx \<noteq> [] \<and> vout tx \<noteq> []) \<and>
    length (SerializeTransaction False tx) \<le> MAX_BLOCK_BASE_SIZE \<and>
    length (vExtraPayload tx) \<le> (if h < nSigmaEndBlock params then 150000 else 230000) \<and>
    (\<forall>txo\<in>set (vout tx). 0 \<le> nValue txo) \<and> (\<Sum>txo\<leftarrow>vout tx. nValue txo) \<le> MAX_MONEY \<and>
    (dup \<or> h \<noteq> INT_MAX \<and> h > nStartDuplicationCheck params \<longrightarrow> distinct (map prevout (vin tx))) \<and>
    (\<forall>i\<in>set (vin tx). \<not> starts_exchange (scriptSig i)) \<and>
    (vdb \<or> nExchangeAddressStartBlock params \<le> (if h = INT_MAX then Height chain else h) \<or> (\<forall>txo\<in>set (vout tx). \<not> starts_exchange (scriptPubKey txo))) \<and>
    (if IsCoinBase tx then (if nType tx = TRANSACTION_COINBASE then 1 else 2) \<le> length (scriptSig (vin tx ! 0)) \<and> length (scriptSig (vin tx ! 0)) \<le> 100 \<and>
       (\<forall>txo\<in>set (vout tx). \<not> starts_exchange (scriptPubKey txo))
     else \<forall>i\<in>set (vin tx). OutPoint_IsNull (prevout i) \<longrightarrow>
       IsZerocoinSpend (scriptSig i) \<or> TxIn_IsZerocoinRemint i \<or> TxIn_IsLelantusJoinSplit i \<or> Tx_IsSparkSpend tx)"
  by (rule CheckTransaction_iff [OF assms])

theorem CheckTransaction_accepts_iff_witness:
  "CheckTransaction demo_params demo_checks [] spend_tx True False 100 new_state = Inr new_state"
  unfolding CheckTransaction_accepts_iff [OF demo_ordinary] demo_size
  using demo_spends by (simp add: spends_def spend_tx_def demo_input_def demo_params_def starts_exchange_def OutPoint_IsNull_def IsNull256_def)

end
