(* ===== verification/ConnectProps.thy ===== *)
theory ConnectProps
  imports Connect TxProps
begin

text \<open>
  What connecting and disconnecting a block do to the set of unspent outputs. The lemmas hold over every view that
  keeps the promises of \<open>coins_view\<close>; the properties are about a cache over the database.
\<close>

section \<open>Reading\<close>

definition kept :: "(bytes \<Rightarrow> nat) \<Rightarrow> ('v \<Rightarrow> bool) \<Rightarrow> ('v \<Rightarrow> COutPoint \<Rightarrow> Coin option) \<Rightarrow> 'v CCoinsViewCache \<Rightarrow> 'v CCoinsViewCache \<Rightarrow> bool" where
  "kept usage vok utxo s s' \<longleftrightarrow> cache_ok usage vok utxo s' \<and> cache_utxo utxo s' = cache_utxo utxo s"

lemma view_kept_refl: "cache_ok usage vok utxo s \<Longrightarrow> kept usage vok utxo s s"
  by (simp add: kept_def)

lemma kept_trans: "kept usage vok utxo s s1 \<Longrightarrow> kept usage vok utxo s1 s2 \<Longrightarrow> kept usage vok utxo s s2"
  by (simp add: kept_def)

lemma keptD: "kept usage vok utxo s s' \<Longrightarrow> cache_ok usage vok utxo s'" "kept usage vok utxo s s' \<Longrightarrow> cache_utxo utxo s' = cache_utxo utxo s"
  by (simp_all add: kept_def)

context coins_view
begin

lemma access_kept:
  "cache_ok usage vok utxo s \<Longrightarrow> AccessCoin usage get p s = (c, s') \<Longrightarrow> kept usage vok utxo s s' \<and> shown c = cache_utxo utxo s p"
  using access_reads [of usage s p] by (simp add: kept_def)

lemma have_kept:
  "cache_ok usage vok utxo s \<Longrightarrow> HaveCoin usage get p s = (b, s') \<Longrightarrow> kept usage vok utxo s s' \<and> (b \<longleftrightarrow> cache_utxo utxo s p \<noteq> None)"
  using have_reads [of usage s p] by (simp add: kept_def)

lemma best_kept:
  "cache_ok usage vok utxo s \<Longrightarrow> GetBestBlock best s = (h, s') \<Longrightarrow> kept usage vok utxo s s' \<and> h = cache_tip tip s"
  using coins_view.best_keeps [OF cache_is_view, of usage s] coins_view.best_value [OF cache_is_view, of usage s] by (simp add: kept_def)

lemma p2sh_kept:
  "cache_ok usage vok utxo s \<Longrightarrow> p2sh_sigops_loop usage get vins n s = Inr (n', s') \<Longrightarrow> kept usage vok utxo s s'"
proof (induction vins arbitrary: n s)
  case (Cons i vins)
  obtain c s1 where c: "AccessCoin usage get (prevout i) s = (c, s1)" by fastforce
  note k = conjunct1 [OF access_kept [OF Cons.prems(1) c]]
  from Cons.prems(2) c obtain n1 where "p2sh_sigops_loop usage get vins n1 s1 = Inr (n', s')" by (auto simp: Let_def split: if_splits)
  from kept_trans [OF k Cons.IH [OF keptD(1) [OF k] this]] show ?case .
qed (simp add: view_kept_refl)

lemma witness_kept:
  "cache_ok usage vok utxo s \<Longrightarrow> witness_sigops_loop usage get flags vins n s = Inr (n', s') \<Longrightarrow> kept usage vok utxo s s'"
proof (induction vins arbitrary: n s)
  case (Cons i vins)
  obtain c s1 where c: "AccessCoin usage get (prevout i) s = (c, s1)" by fastforce
  note k = conjunct1 [OF access_kept [OF Cons.prems(1) c]]
  from Cons.prems(2) c obtain n1 where "witness_sigops_loop usage get flags vins n1 s1 = Inr (n', s')" by (auto split: option.splits)
  from kept_trans [OF k Cons.IH [OF keptD(1) [OF k] this]] show ?case .
qed (simp add: view_kept_refl)

lemma sigops_kept:
  assumes "cache_ok usage vok utxo s" "GetTransactionSigOpCost usage get tx s flags = Inr (n, s')"
  shows "kept usage vok utxo s s'"
proof (cases "IsCoinBase tx \<or> HasNoRegularInputs tx")
  case False
  with assms(2) obtain n1 s1 where 1: "s1 = s \<or> (\<exists>k. p2sh_sigops_loop usage get (vin tx) 0 s = Inr (k, s1))"
    "witness_sigops_loop usage get flags (vin tx) n1 s1 = Inr (n, s')"
    by (auto simp: GetTransactionSigOpCost_def GetP2SHSigOpCount_def Let_def bindE_eq_Inr_iff split: if_splits)
  have "kept usage vok utxo s s1" using 1(1) p2sh_kept [OF assms(1)] view_kept_refl [OF assms(1)] by auto
  from kept_trans [OF this witness_kept [OF keptD(1) [OF this] 1(2)]] show ?thesis .
qed (use assms in \<open>auto simp: GetTransactionSigOpCost_def Let_def view_kept_refl\<close>)

lemma value_in_kept:
  assumes "cache_ok usage vok utxo s" "value_in_loop usage get vins v s = (v', s')" "\<forall>i\<in>set vins. cache_utxo utxo s (prevout i) \<noteq> None"
  shows "kept usage vok utxo s s' \<and> v' = v + (\<Sum>i\<leftarrow>vins. nValue (coinOut (the (cache_utxo utxo s (prevout i)))))"
  using assms
proof (induction vins arbitrary: v s)
  case (Cons i vins)
  obtain c s1 where c: "AccessCoin usage get (prevout i) s = (c, s1)" by fastforce
  note k = access_kept [OF Cons.prems(1) c]
  then have u: "cache_utxo utxo s1 = cache_utxo utxo s" and ok: "cache_ok usage vok utxo s1" by (simp_all add: kept_def)
  have v: "cache_utxo utxo s (prevout i) = Some c" using k Cons.prems(3) by (auto simp: shown_def split: if_splits)
  from Cons.IH [OF ok, of "v + nValue (coinOut c)"] Cons.prems(2,3) c u k v show ?case by (auto intro: kept_trans)
qed (simp add: view_kept_refl)

lemma prev_heights_kept:
  "cache_ok usage vok utxo s \<Longrightarrow> prev_heights usage get vins s = (hs, s') \<Longrightarrow> kept usage vok utxo s s'"
proof (induction vins arbitrary: s hs s')
  case (Cons i vins)
  obtain c s1 where c: "AccessCoin usage get (prevout i) s = (c, s1)" by fastforce
  obtain hs2 s2 where p: "prev_heights usage get vins s1 = (hs2, s2)" by fastforce
  note k = conjunct1 [OF access_kept [OF Cons.prems(1) c]]
  from kept_trans [OF k Cons.IH [OF keptD(1) [OF k] p]] Cons.prems(2) c p show ?case by simp
qed (simp add: view_kept_refl)

lemma connect_inputs_kept:
  assumes s: "cache_ok usage vok utxo s" and c: "connect_inputs usage get B pindex lf tx st s = Inr s'"
  shows "kept usage vok utxo s s' \<and> (spends tx \<longrightarrow> (\<forall>i\<in>set (vin tx). cache_utxo utxo s (prevout i) \<noteq> None))"
proof (cases "spends tx")
  case True
  obtain b s1 where h: "have_inputs_loop usage get (vin tx) s = (b, s1)" by fastforce
  obtain hs s2 where p: "prev_heights usage get (vin tx) s1 = (hs, s2)" by fastforce
  note r = have_inputs_loop_reads [OF s h]
  then have "kept usage vok utxo s s2" using prev_heights_kept [OF _ p] by (auto simp: kept_def)
  moreover have "b" "s' = s2" using c h p True by (auto simp: connect_inputs_def HaveInputs_def spends_def split: if_splits sum.splits)
  ultimately show ?thesis using r by simp
qed (use c s in \<open>auto simp: connect_inputs_def spends_def view_kept_refl\<close>)

lemma script_checks_kept:
  "cache_ok usage vok utxo s \<Longrightarrow> script_checks_loop usage get H verify tx flags txdata st i s = Inr s' \<Longrightarrow> kept usage vok utxo s s'"
proof (induction "length (vin tx) - i" arbitrary: i s)
  case 0
  have "script_checks_loop usage get H verify tx flags txdata st i s = Inr s" using 0(1) by (subst script_checks_loop.simps) simp
  with 0 show ?case by (simp add: view_kept_refl)
next
  case (Suc n)
  obtain c s1 where c: "AccessCoin usage get (prevout (vin tx ! i)) s = (c, s1)" by fastforce
  note k = conjunct1 [OF access_kept [OF Suc.prems(1) c]]
  have "script_checks_loop usage get H verify tx flags txdata st (i + 1) s1 = Inr s'"
    using Suc.prems(2) Suc.hyps(2) c
    by (subst (asm) script_checks_loop.simps) (auto split: if_splits sum.splits eval_error.splits)
  from kept_trans [OF k Suc.hyps(1) [OF _ keptD(1) [OF k] this]] Suc.hyps(2) show ?case by simp
qed

lemma CheckInputs_kept:
  assumes s: "cache_ok usage vok utxo s" "spends tx"
    and chk: "CheckInputs usage get H verify jsf den tx st s height scripts flags txdata = Inr (st', s')"
  shows "kept usage vok utxo s s' \<and> (\<exists>fee. 0 \<le> fee \<and>
    (\<Sum>i\<leftarrow>vin tx. nValue (coinOut (the (cache_utxo utxo s (prevout i))))) = (\<Sum>out\<leftarrow>vout tx. nValue out) + fee)"
proof -
  from chk s(2) obtain fee st1 s1 where c: "CheckTxInputs usage get jsf tx st s height = Inr (fee, st1, s1)"
    "s' = s1 \<or> script_checks_loop usage get H verify tx flags txdata st1 0 s1 = Inr s'"
    by (auto simp: CheckInputs_def spends_def Let_def bindE_eq_Inr_iff split: if_splits)
  note r = CheckTxInputs_reads [OF s(1) c(1) s(2)]
  have k: "kept usage vok utxo s s1" using r by (simp add: kept_def)
  from c(2) have "kept usage vok utxo s1 s'" using script_checks_kept [OF r(1)] view_kept_refl [OF r(1)] by auto
  from kept_trans [OF k this] r(4,6) show ?thesis by blast
qed

lemma connect_spend_kept:
  assumes s: "cache_ok usage vok utxo s" and p: "spends tx \<longrightarrow> (\<forall>i\<in>set (vin tx). cache_utxo utxo s (prevout i) \<noteq> None)"
    and c: "connect_spend usage get best E T scripts flags tx st s = Inr (fee, st', s')"
  shows "kept usage vok utxo s s' \<and> 0 \<le> fee \<and> (\<Sum>c\<leftarrow>undo_coins tx (cache_utxo utxo s). nValue (coinOut c)) =
    (if spends tx then \<Sum>out\<leftarrow>vout tx. nValue out else 0) + fee"
proof (cases "spends tx")
  case True
  then have n: "\<not> IsCoinBase tx" "\<not> HasNoRegularInputs tx" by (simp_all add: spends_def)
  obtain v s1 where v: "value_in_loop usage get (vin tx) 0 s = (v, s1)" by fastforce
  from c v n obtain vo h s2 where o: "GetValueOut tx = Some vo" "fee = v - vo" "GetSpendHeight best T s1 = Inr (h, s2)"
    "CheckInputs usage get (hashes E) (verifySig E) (joinSplitFee E) (denomination E) tx st s2 h scripts flags (Precomputed (hashes E) tx) = Inr (st', s')"
    by (auto simp: connect_spend_def GetValueIn_def bindE_eq_Inr_iff split: option.splits sum.splits)
  have k1: "kept usage vok utxo s s1" "v = (\<Sum>i\<leftarrow>vin tx. nValue (coinOut (the (cache_utxo utxo s (prevout i)))))"
    using value_in_kept [OF s v] p True by simp_all
  have k2: "kept usage vok utxo s1 s2"
    using best_kept [OF keptD(1) [OF k1(1)]] o(3) by (auto simp: GetSpendHeight_def split: prod.splits option.splits)
  note k3 = CheckInputs_kept [OF keptD(1) [OF k2] True o(4)]
  have "kept usage vok utxo s s'" using kept_trans [OF kept_trans [OF k1(1) k2]] k3 by blast
  moreover have "v = vo + fee" "vo = (\<Sum>out\<leftarrow>vout tx. nValue out)" using o GetValueOut_iff [of tx vo] by auto
  moreover have "0 \<le> fee" using k3 calculation(2,3) k1(2) keptD(2) [OF k1(1)] keptD(2) [OF k2] by auto
  ultimately show ?thesis using True k1(2) by (simp add: undo_coins_def comp_def)
qed (use c s in \<open>auto simp: connect_spend_def spends_def view_kept_refl undo_coins_def\<close>)

lemma bip30_outputs_kept:
  "cache_ok usage vok utxo s \<Longrightarrow> bip30_outputs usage get hash n o1 s = (False, s') \<Longrightarrow>
    kept usage vok utxo s s' \<and> (\<forall>k. o1 \<le> k \<and> k < n \<longrightarrow> cache_utxo utxo s \<lparr>outhash = hash, outn = of_nat k\<rparr> = None)"
proof (induction "n - o1" arbitrary: o1 s)
  case 0
  have "bip30_outputs usage get hash n o1 s = (False, s)" using 0(1) by (subst bip30_outputs.simps) simp
  with 0 show ?case by (auto simp: view_kept_refl)
next
  case (Suc m)
  obtain b s1 where b: "HaveCoin usage get \<lparr>outhash = hash, outn = of_nat o1\<rparr> s = (b, s1)" by fastforce
  note k = have_kept [OF Suc.prems(1) b]
  have l: "\<not> b \<and> bip30_outputs usage get hash n (o1 + 1) s1 = (False, s')"
    using Suc.prems(2) Suc.hyps(2) b by (subst (asm) bip30_outputs.simps) (auto split: if_splits)
  from Suc.hyps(1) [of "o1 + 1" s1] Suc.hyps(2) k l have
    r: "kept usage vok utxo s1 s'" "\<forall>k. o1 + 1 \<le> k \<and> k < n \<longrightarrow> cache_utxo utxo s1 \<lparr>outhash = hash, outn = of_nat k\<rparr> = None"
    by (simp_all add: kept_def)
  have "cache_utxo utxo s \<lparr>outhash = hash, outn = of_nat k\<rparr> = None" if "o1 \<le> k" "k < n" for k
    using that r(2) k l by (cases "k = o1") (auto simp: kept_def)
  with kept_trans [OF conjunct1 [OF k] r(1)] show ?case by blast
qed

lemma bip30_kept:
  "cache_ok usage vok utxo s \<Longrightarrow> bip30_loop usage get H txs st s = Inr s' \<Longrightarrow>
    kept usage vok utxo s s' \<and> (\<forall>tx\<in>set txs. \<forall>k < length (vout tx). cache_utxo utxo s \<lparr>outhash = GetHash H tx, outn = of_nat k\<rparr> = None)"
proof (induction txs arbitrary: s)
  case (Cons tx txs)
  obtain b s1 where b: "bip30_outputs usage get (GetHash H tx) (length (vout tx)) 0 s = (b, s1)" by fastforce
  with Cons.prems(2) have l: "\<not> b" "bip30_loop usage get H txs st s1 = Inr s'" by (auto split: if_splits)
  have "bip30_outputs usage get (GetHash H tx) (length (vout tx)) 0 s = (False, s1)" using b l(1) by simp
  note k = bip30_outputs_kept [OF Cons.prems(1) this]
  from Cons.IH [OF keptD(1) [OF conjunct1 [OF k]] l(2)] k show ?case by (auto simp: kept_def)
qed (simp add: view_kept_refl)

end

section \<open>Applying the transactions of a block\<close>

text \<open>What the checks without inputs leave of a transaction, and the outputs of the transactions are new.\<close>

definition tx_checked :: "CTransaction \<Rightarrow> bool" where
  "tx_checked tx \<longleftrightarrow> (spends tx \<longrightarrow> distinct (map prevout (vin tx))) \<and> (\<forall>txo\<in>set (vout tx). 0 \<le> nValue txo) \<and>
     (\<Sum>txo\<leftarrow>vout tx. nValue txo) \<le> MAX_MONEY \<and> length (vout tx) \<le> 2 ^ 32"

definition fresh_outputs :: "hash_funs \<Rightarrow> CTransaction list \<Rightarrow> (COutPoint \<Rightarrow> Coin option) \<Rightarrow> bool" where
  "fresh_outputs H txs u \<longleftrightarrow> (\<forall>tx\<in>set txs. \<forall>k < length (vout tx). u \<lparr>outhash = GetHash H tx, outn = of_nat k\<rparr> = None)"

lemma check_txs_checked:
  assumes "check_txs_loop E P chain vdb h txs s = Inr s'" "h \<noteq> INT_MAX" "nStartDuplicationCheck P < h"
  shows "\<forall>tx\<in>set txs. tx_checked tx"
  using assms(1)
proof (induction txs arbitrary: s)
  case (Cons tx txs)
  then obtain s1 where s1: "CheckTransaction (TxParams.truncate P) (stateless E) chain tx False vdb h s = Inr s1"
    "check_txs_loop E P chain vdb h txs s1 = Inr s'"
    by (auto simp: bindE_eq_Inr_iff)
  have "nStartDuplicationCheck (TxParams.truncate P) < h" using assms(3) by (simp add: TxParams.truncate_def)
  with CheckTransaction_ok [OF s1(1)] assms(2) outputs_fit [of tx] have "tx_checked tx"
    by (auto simp: tx_checked_def spends_def HasPrivateInputs_def HasNoRegularInputs_def)
  with Cons.IH [OF s1(2)] show ?case by simp
qed simp

lemma fresh_outputs_applied:
  assumes "fresh_outputs H txs u" "GetHash H tx \<notin> GetHash H ` set txs"
  shows "fresh_outputs H txs (tx_applied H height tx u)"
proof -
  have "tx_applied H height tx u \<lparr>outhash = GetHash H t, outn = of_nat k\<rparr> = None" if t: "t \<in> set txs" "k < length (vout t)" for t k
  proof -
    have "GetHash H t \<noteq> GetHash H tx" using assms(2) t(1) by (metis image_eqI)
    moreover have "u \<lparr>outhash = GetHash H t, outn = of_nat k\<rparr> = None" using assms(1) t by (simp add: fresh_outputs_def)
    ultimately show ?thesis by (simp add: tx_applied_def map_add_def new_coins_def restrict_map_def)
  qed
  then show ?thesis by (simp add: fresh_outputs_def)
qed

text \<open>The fees that a private spend adds to those of the block.\<close>

definition private_fee :: "'e connect_env_scheme \<Rightarrow> CTransaction \<Rightarrow> int" where
  "private_fee E tx =
     (if Tx_IsSigmaSpend tx then GetSigmaSpendInput E tx - (\<Sum>txo\<leftarrow>vout tx. nValue txo) else 0) +
     (if Tx_IsLelantusJoinSplit tx then (case joinSplitFee E tx of Inr fee \<Rightarrow> fee | Inl _ \<Rightarrow> 0) else 0) +
     (if Tx_IsSparkSpend tx then (case sparkFee E tx of Inr fee \<Rightarrow> fee | Inl _ \<Rightarrow> 0) else 0)"

lemma proof_fee_Inr [simp]: "proof_fee parsed a b s = Inr fee \<longleftrightarrow> parsed = Inr fee"
  by (auto simp: proof_fee_def split: sum.splits bool.splits)

lemma connect_private_fee:
  assumes "connect_private E P chain h tx s = Inr (fee, s')"
  shows "fee = private_fee E tx"
proof (cases "is_private tx")
  case True
  let ?sigma = "if Tx_IsSigmaSpend tx then (case GetValueOut tx of None \<Rightarrow> Inl ValueOutThrows | Some v \<Rightarrow> Inr (GetSigmaSpendInput E tx - v)) else Inr 0"
  from assms [unfolded connect_private_def if_P [OF True] bindE_eq_Inr_iff] obtain a b d where
    a: "?sigma = Inr a" and
    b: "(if Tx_IsLelantusJoinSplit tx then proof_fee (joinSplitFee E tx) ''unable to parse joinsplit'' ''failed to deserialize joinsplit'' s else Inr 0) = Inr b" and
    d: "(if Tx_IsSparkSpend tx then proof_fee (sparkFee E tx) ''unable to parse spark spend'' ''failed to deserialize spark spend'' s else Inr 0) = Inr d" and
    f: "fee = a + b + d"
    by (auto simp del: proof_fee_Inr)
  have "a = (if Tx_IsSigmaSpend tx then GetSigmaSpendInput E tx - (\<Sum>txo\<leftarrow>vout tx. nValue txo) else 0)"
    using a by (auto simp: GetValueOut_iff split: if_splits option.splits)
  moreover have "b = (if Tx_IsLelantusJoinSplit tx then (case joinSplitFee E tx of Inr fee \<Rightarrow> fee | Inl _ \<Rightarrow> 0) else 0)"
    using b by (auto split: if_splits)
  moreover have "d = (if Tx_IsSparkSpend tx then (case sparkFee E tx of Inr fee \<Rightarrow> fee | Inl _ \<Rightarrow> 0) else 0)" using d by (auto split: if_splits)
  ultimately show ?thesis using f by (simp add: private_fee_def)
next
  case False
  then show ?thesis using assms by (simp add: connect_private_def private_fee_def is_private_def IsSparkTransaction_def)
qed

lemma bindE_InrE: "bindE x f = Inr y \<Longrightarrow> (\<And>a. x = Inr a \<Longrightarrow> f a = Inr y \<Longrightarrow> R) \<Longrightarrow> R"
  by (auto simp: bindE_eq_Inr_iff)

lemma bindE_pairE: "bindE x (\<lambda>(a, b). f a b) = Inr y \<Longrightarrow> (\<And>a b. x = Inr (a, b) \<Longrightarrow> f a b = Inr y \<Longrightarrow> R) \<Longrightarrow> R"
  by (auto simp: bindE_eq_Inr_iff)

lemma bindE_tripleE: "bindE x (\<lambda>(a, b, c). f a b c) = Inr y \<Longrightarrow> (\<And>a b c. x = Inr (a, b, c) \<Longrightarrow> f a b c = Inr y \<Longrightarrow> R) \<Longrightarrow> R"
  by (auto simp: bindE_eq_Inr_iff)

lemmas bindE_elims = bindE_tripleE bindE_pairE bindE_InrE

text \<open>
  A round of the loop over the transactions. On the main network below height 66550 a transaction with the hash of an earlier one of the block
  is let through: its inputs are looked up and its fees counted, but the set of coins is left as it is.
\<close>

lemma connect_tx_parts:
  assumes r: "connect_tx usage get best E P wl T chain pindex scripts flags lf first tx c = Inr c'"
  defines "H \<equiv> hashes E" and "n \<equiv> nat (nHeight (blocks T pindex))"
  obtains s1 v1 fp s2 cost v2 s3 fee s4 v3 where
    "GetHash H tx \<in> txIds c \<longrightarrow> isMain P \<and> nHeight (blocks T pindex) < 66550"
    "connect_inputs usage get (blocks T) pindex lf tx s1 (cView c) = Inr v1"
    "connect_private E P chain (nHeight (blocks T pindex)) tx s1 = Inr (fp, s2)"
    "GetTransactionSigOpCost usage get tx v1 flags = Inr (cost, v2)"
    "connect_spend usage get best E T (scripts \<and> GetHash H tx \<notin> wl) flags tx s3 v2 = Inr (fee, s4, v3)"
    "\<exists>undo v4. (if GetHash H tx \<in> txIds c then undo = [] \<and> v4 = v3 else UpdateCoins usage get H tx v3 n = Inr (undo, v4)) \<and>
      c' = c\<lparr>cState := s4, nFees := nFees c + fp + fee, nSigOpsCost := nSigOpsCost c + cost, txIds := insert (GetHash H tx) (txIds c),
             cView := v4, vtxundo := vtxundo c @ (if first then [] else [undo])\<rparr>"
proof -
  have "GetHash H tx \<in> txIds c \<longrightarrow> isMain P \<and> nHeight (blocks T pindex) < 66550"
    using r by (auto simp: connect_tx_def Let_def bindE_eq_Inr_iff H_def)
  then show ?thesis
    using r unfolding connect_tx_def Let_def H_def n_def
    by (elim bindE_elims) (rule that; (assumption | auto simp: H_def n_def split: if_splits sum.splits prod.splits)+)
qed

context coins_view
begin

lemma connect_tx_reads:
  assumes c: "cache_ok usage vok utxo (cView c)"
    and r: "connect_tx usage get best E P wl T chain pindex scripts flags lf first tx c = Inr c'"
  defines "u \<equiv> cache_utxo utxo (cView c)" and "H \<equiv> hashes E" and "n \<equiv> nat (nHeight (blocks T pindex))"
  obtains v undo v' where "cache_ok usage vok utxo v" "cache_utxo utxo v = u"
    "GetHash H tx \<in> txIds c \<longrightarrow> isMain P \<and> nHeight (blocks T pindex) < 66550"
    "spends tx \<longrightarrow> (\<forall>i\<in>set (vin tx). u (prevout i) \<noteq> None)"
    "\<exists>fee \<ge> 0. nFees c' = nFees c + private_fee E tx + fee \<and>
       (\<Sum>c\<leftarrow>undo_coins tx u. nValue (coinOut c)) = (if spends tx then \<Sum>out\<leftarrow>vout tx. nValue out else 0) + fee"
    "if GetHash H tx \<in> txIds c then undo = [] \<and> v' = v else UpdateCoins usage get H tx v n = Inr (undo, v')"
    "cView c' = v'" "txIds c' = insert (GetHash H tx) (txIds c)" "vtxundo c' = vtxundo c @ (if first then [] else [undo])"
proof -
  from connect_tx_parts [OF r] obtain s1 v1 fp s2 cost v2 s3 fee s4 v3 undo v4 where
    d: "GetHash H tx \<in> txIds c \<longrightarrow> isMain P \<and> nHeight (blocks T pindex) < 66550" and
    i: "connect_inputs usage get (blocks T) pindex lf tx s1 (cView c) = Inr v1" and
    p: "connect_private E P chain (nHeight (blocks T pindex)) tx s1 = Inr (fp, s2)" and
    g: "GetTransactionSigOpCost usage get tx v1 flags = Inr (cost, v2)" and
    s: "connect_spend usage get best E T (scripts \<and> GetHash H tx \<notin> wl) flags tx s3 v2 = Inr (fee, s4, v3)" and
    e: "if GetHash H tx \<in> txIds c then undo = [] \<and> v4 = v3 else UpdateCoins usage get H tx v3 n = Inr (undo, v4)"
      "c' = c\<lparr>cState := s4, nFees := nFees c + fp + fee, nSigOpsCost := nSigOpsCost c + cost, txIds := insert (GetHash H tx) (txIds c),
             cView := v4, vtxundo := vtxundo c @ (if first then [] else [undo])\<rparr>"
    unfolding H_def n_def by metis
  note k1 = connect_inputs_kept [OF c i]
  have u1: "cache_utxo utxo v1 = u" using k1 by (simp add: kept_def u_def)
  note k2 = sigops_kept [OF keptD(1) [OF conjunct1 [OF k1]] g]
  have u2: "cache_utxo utxo v2 = u" using keptD(2) [OF k2] u1 by simp
  have q: "spends tx \<longrightarrow> (\<forall>i\<in>set (vin tx). u (prevout i) \<noteq> None)" using k1 by (simp add: u_def)
  then have "spends tx \<longrightarrow> (\<forall>i\<in>set (vin tx). cache_utxo utxo v2 (prevout i) \<noteq> None)" using u2 by simp
  note k3 = connect_spend_kept [OF keptD(1) [OF k2] this s]
  show ?thesis
    by (rule that [OF _ _ d q _ e(1)]) (use k3 u2 e(2) connect_private_fee [OF p] in \<open>auto simp: kept_def\<close>)
qed

lemma connect_tx_applies:
  assumes c: "cache_ok usage vok utxo (cView c)" "usage [] = 0" and w: "tx_checked tx"
    and f: "fresh_outputs (hashes E) [tx] (cache_utxo utxo (cView c))"
    and r: "connect_tx usage get best E P wl T chain pindex scripts flags lf first tx c = Inr c'"
    and h: "GetHash (hashes E) tx \<notin> txIds c"
  defines "u \<equiv> cache_utxo utxo (cView c)" and "H \<equiv> hashes E" and "n \<equiv> nat (nHeight (blocks T pindex))"
  shows "txIds c' = insert (GetHash H tx) (txIds c)" "appliable H tx u"
    "cache_ok usage vok utxo (cView c')" "cache_utxo utxo (cView c') = tx_applied H n tx u"
    "vtxundo c' = vtxundo c @ (if first then [] else [undo_coins tx u])"
    "\<exists>fee \<ge> 0. nFees c' = nFees c + private_fee E tx + fee \<and>
       (\<Sum>c\<leftarrow>undo_coins tx u. nValue (coinOut c)) = (if spends tx then \<Sum>out\<leftarrow>vout tx. nValue out else 0) + fee"
proof -
  from connect_tx_reads [OF c(1) r] obtain v undo v' where
    k: "cache_ok usage vok utxo v" "cache_utxo utxo v = u" "spends tx \<longrightarrow> (\<forall>i\<in>set (vin tx). u (prevout i) \<noteq> None)"
      "\<exists>fee \<ge> 0. nFees c' = nFees c + private_fee E tx + fee \<and>
         (\<Sum>c\<leftarrow>undo_coins tx u. nValue (coinOut c)) = (if spends tx then \<Sum>out\<leftarrow>vout tx. nValue out else 0) + fee"
      "UpdateCoins usage get H tx v n = Inr (undo, v')"
      "cView c' = v'" "txIds c' = insert (GetHash H tx) (txIds c)" "vtxundo c' = vtxundo c @ (if first then [] else [undo])"
    using h unfolding u_def H_def n_def by metis
  show a: "appliable H tx u"
    using k(3) w f by (auto simp: appliable_def tx_checked_def fresh_outputs_def u_def H_def TxOut_IsNull_def)
  from UpdateCoins_applies [OF k(1) c(2), of H tx n] a k show "txIds c' = insert (GetHash H tx) (txIds c)"
    "cache_ok usage vok utxo (cView c')" "cache_utxo utxo (cView c') = tx_applied H n tx u"
    "vtxundo c' = vtxundo c @ (if first then [] else [undo_coins tx u])"
    by auto
  show "\<exists>fee \<ge> 0. nFees c' = nFees c + private_fee E tx + fee \<and>
       (\<Sum>c\<leftarrow>undo_coins tx u. nValue (coinOut c)) = (if spends tx then \<Sum>out\<leftarrow>vout tx. nValue out else 0) + fee"
    by (rule k(4))
qed

lemma connect_tx_repeats:
  assumes c: "cache_ok usage vok utxo (cView c)"
    and r: "connect_tx usage get best E P wl T chain pindex scripts flags lf first tx c = Inr c'"
    and h: "GetHash (hashes E) tx \<in> txIds c" and w: "tx_checked tx"
  defines "u \<equiv> cache_utxo utxo (cView c)"
  shows "isMain P \<and> nHeight (blocks T pindex) < 66550" "txIds c' = txIds c" "kept usage vok utxo (cView c) (cView c')"
    "spends tx \<longrightarrow> (\<forall>i\<in>set (vin tx). u (prevout i) \<noteq> None)"
    "\<not> spends tx \<or> vin tx = [] \<longrightarrow> nFees c' = nFees c + private_fee E tx"
proof -
  have nn: "0 \<le> (\<Sum>txo\<leftarrow>vout tx. nValue txo)" using w by (auto simp: tx_checked_def intro!: sum_list_nonneg)
  from connect_tx_reads [OF c r] obtain v where
    k: "cache_ok usage vok utxo v" "cache_utxo utxo v = u" "isMain P \<and> nHeight (blocks T pindex) < 66550"
      "spends tx \<longrightarrow> (\<forall>i\<in>set (vin tx). u (prevout i) \<noteq> None)"
      "\<exists>fee \<ge> 0. nFees c' = nFees c + private_fee E tx + fee \<and>
         (\<Sum>c\<leftarrow>undo_coins tx u. nValue (coinOut c)) = (if spends tx then \<Sum>out\<leftarrow>vout tx. nValue out else 0) + fee"
      "cView c' = v" "txIds c' = insert (GetHash (hashes E) tx) (txIds c)"
    using h unfolding u_def by metis
  then show "isMain P \<and> nHeight (blocks T pindex) < 66550" "txIds c' = txIds c" "kept usage vok utxo (cView c) (cView c')"
    "spends tx \<longrightarrow> (\<forall>i\<in>set (vin tx). u (prevout i) \<noteq> None)"
    using h by (auto simp: kept_def u_def)
  show "\<not> spends tx \<or> vin tx = [] \<longrightarrow> nFees c' = nFees c + private_fee E tx"
    using k(5) nn by (auto simp: undo_coins_def split: if_splits)
qed

end

text \<open>The whole list of transactions: the set after it, the undo data, and that each can be applied in its turn.\<close>

definition txs_applied :: "hash_funs \<Rightarrow> nat \<Rightarrow> CTransaction list \<Rightarrow> (COutPoint \<Rightarrow> Coin option) \<Rightarrow> COutPoint \<Rightarrow> Coin option" where
  "txs_applied H n txs u = fold (tx_applied H n) txs u"

primrec txs_undo :: "hash_funs \<Rightarrow> nat \<Rightarrow> CTransaction list \<Rightarrow> (COutPoint \<Rightarrow> Coin option) \<Rightarrow> CBlockUndo" where
  "txs_undo H n [] u = []"
| "txs_undo H n (tx # txs) u = undo_coins tx u # txs_undo H n txs (tx_applied H n tx u)"

primrec txs_appliable :: "hash_funs \<Rightarrow> nat \<Rightarrow> CTransaction list \<Rightarrow> (COutPoint \<Rightarrow> Coin option) \<Rightarrow> bool" where
  "txs_appliable H n [] u \<longleftrightarrow> True"
| "txs_appliable H n (tx # txs) u \<longleftrightarrow> appliable H tx u \<and> txs_appliable H n txs (tx_applied H n tx u)"

definition unspent_outputs :: "CTransaction list \<Rightarrow> int" where
  "unspent_outputs txs = (\<Sum>tx\<leftarrow>filter (\<lambda>tx. \<not> spends tx) txs. \<Sum>txo\<leftarrow>vout tx. nValue txo)"

text \<open>The transactions whose hash is new, with the hashes seen so far.\<close>

primrec firsts :: "hash_funs \<Rightarrow> uint256 set \<Rightarrow> CTransaction list \<Rightarrow> CTransaction list" where
  "firsts H S [] = []"
| "firsts H S (tx # txs) = (if GetHash H tx \<in> S then firsts H S txs else tx # firsts H (insert (GetHash H tx) S) txs)"

definition fresh_firsts :: "hash_funs \<Rightarrow> uint256 set \<Rightarrow> CTransaction list \<Rightarrow> (COutPoint \<Rightarrow> Coin option) \<Rightarrow> bool" where
  "fresh_firsts H S txs u \<longleftrightarrow> fresh_outputs H (filter (\<lambda>tx. GetHash H tx \<notin> S) txs) u"

lemma firsts_distinct: "distinct (map (GetHash H) txs) \<Longrightarrow> GetHash H ` set txs \<inter> S = {} \<Longrightarrow> firsts H S txs = txs"
  by (induction txs arbitrary: S) auto

lemma firsts_subset: "set (firsts H S txs) \<subseteq> set txs"
  by (induction txs arbitrary: S) auto

lemma txs_applied_Cons [simp]: "txs_applied H n [] u = u" "txs_applied H n (tx # txs) u = txs_applied H n txs (tx_applied H n tx u)"
  by (simp_all add: txs_applied_def)

lemma fresh_firsts_repeat: "fresh_firsts H S (tx # txs) u \<Longrightarrow> fresh_firsts H S txs u"
  by (simp add: fresh_firsts_def fresh_outputs_def)

lemma fresh_firsts_first:
  assumes "fresh_firsts H S (tx # txs) u" "GetHash H tx \<notin> S"
  shows "fresh_outputs H [tx] u" "fresh_firsts H (insert (GetHash H tx) S) txs (tx_applied H n tx u)"
proof -
  show "fresh_outputs H [tx] u" using assms by (simp add: fresh_firsts_def fresh_outputs_def)
  have "fresh_outputs H (filter (\<lambda>t. GetHash H t \<notin> insert (GetHash H tx) S) txs) u"
    using assms(1) by (simp add: fresh_firsts_def fresh_outputs_def)
  then show "fresh_firsts H (insert (GetHash H tx) S) txs (tx_applied H n tx u)"
    unfolding fresh_firsts_def by (rule fresh_outputs_applied) auto
qed

context coins_view
begin

lemma connect_txs_applies:
  assumes c: "cache_ok usage vok utxo (cView c)" "usage [] = 0" and w: "\<forall>tx\<in>set txs. tx_checked tx"
    and f: "fresh_firsts (hashes E) (txIds c) txs (cache_utxo utxo (cView c))"
    and r: "connect_txs_loop usage get best E P wl T chain pindex scripts flags lf first txs c = Inr c'"
  defines "H \<equiv> hashes E" and "n \<equiv> nat (nHeight (blocks T pindex))"
  shows "txs_appliable H n (firsts H (txIds c) txs) (cache_utxo utxo (cView c)) \<and> cache_ok usage vok utxo (cView c') \<and>
    cache_utxo utxo (cView c') = txs_applied H n (firsts H (txIds c) txs) (cache_utxo utxo (cView c)) \<and>
    (distinct (map (GetHash H) txs) \<and> GetHash H ` set txs \<inter> txIds c = {} \<longrightarrow>
      vtxundo c' = vtxundo c @ (if first then tl (txs_undo H n txs (cache_utxo utxo (cView c))) else txs_undo H n txs (cache_utxo utxo (cView c)))) \<and>
    (\<not> (isMain P \<and> nHeight (blocks T pindex) < 66550) \<longrightarrow> distinct (map (GetHash H) txs) \<and> GetHash H ` set txs \<inter> txIds c = {})"
  using c w f r
proof (induction txs arbitrary: c first)
  case (Cons tx txs)
  from Cons.prems(5) obtain c1 where
    c1: "connect_tx usage get best E P wl T chain pindex scripts flags lf first tx c = Inr c1"
      "connect_txs_loop usage get best E P wl T chain pindex scripts flags lf False txs c1 = Inr c'"
    by (auto simp: bindE_eq_Inr_iff)
  show ?case
  proof (cases "GetHash H tx \<in> txIds c")
    case True
    have w1: "tx_checked tx" using Cons.prems(3) by simp
    note t = connect_tx_repeats [OF Cons.prems(1) c1(1) True [unfolded H_def] w1]
    have "fresh_firsts (hashes E) (txIds c1) txs (cache_utxo utxo (cView c1))"
      using fresh_firsts_repeat [OF Cons.prems(4)] keptD(2) [OF t(3)] t(2) by simp
    from Cons.IH [OF keptD(1) [OF t(3)] Cons.prems(2) _ this c1(2)] Cons.prems(3) keptD(2) [OF t(3)] t(1,2) True show ?thesis by simp
  next
    case False
    note g = fresh_firsts_first(1) [OF Cons.prems(4) False [unfolded H_def]] fresh_firsts_first(2) [OF Cons.prems(4) False [unfolded H_def], of n]
    have w1: "tx_checked tx" using Cons.prems(3) by simp
    note t = connect_tx_applies [OF Cons.prems(1,2) w1 g(1) c1(1) False [unfolded H_def], folded H_def n_def]
    have "fresh_firsts (hashes E) (txIds c1) txs (cache_utxo utxo (cView c1))" using g(2) t(1,4) by (simp add: H_def)
    from Cons.IH [OF t(3) Cons.prems(2) _ this c1(2)] Cons.prems(3) t(1,2,4,5) False show ?thesis by auto
  qed
qed auto

end

section \<open>Fees\<close>

text \<open>
  Transactions of a block with the same hash are the same apart from their witnesses. Then only a private spend can occur twice: the inputs of
  another transaction are spent by its first copy, and nothing in the block brings them back.
\<close>

definition stripped :: "CTransaction \<Rightarrow> CTransaction" where
  "stripped tx = tx\<lparr>vin := map strip (vin tx)\<rparr>"

definition no_collisions :: "hash_funs \<Rightarrow> CTransaction list \<Rightarrow> bool" where
  "no_collisions H txs \<longleftrightarrow> (\<forall>a\<in>set txs. \<forall>b\<in>set txs. GetHash H a = GetHash H b \<longrightarrow> stripped a = stripped b)"

lemma no_collisions_cong: "set xs = set ys \<Longrightarrow> no_collisions H xs = no_collisions H ys"
  by (simp add: no_collisions_def)

definition gone :: "hash_funs \<Rightarrow> CTransaction list \<Rightarrow> CTransaction list \<Rightarrow> uint256 set \<Rightarrow> (COutPoint \<Rightarrow> Coin option) \<Rightarrow> bool" where
  "gone H prior txs S u \<longleftrightarrow> (\<forall>t\<in>set prior. spends t \<longrightarrow> (\<forall>i\<in>set (vin t). u (prevout i) = None \<and>
     (\<forall>tx\<in>set txs. GetHash H tx \<notin> S \<longrightarrow> (\<forall>k < length (vout tx). prevout i \<noteq> \<lparr>outhash = GetHash H tx, outn = of_nat k\<rparr>))))"

lemma distinct_no_collisions: "distinct (map (GetHash H) txs) \<Longrightarrow> no_collisions H txs"
  unfolding no_collisions_def by (metis distinct_map inj_onD)

lemma spends_stripped: "spends (stripped tx) = spends tx"
proof -
  have i: "scriptSig (strip i) = scriptSig i" "prevout (strip i) = prevout i" for i by (simp_all add: strip_def)
  have "IsCoinBase (stripped tx) = IsCoinBase tx" by (cases "vin tx") (auto simp: stripped_def IsCoinBase_def i)
  moreover have "HasNoRegularInputs (stripped tx) = HasNoRegularInputs tx"
    by (simp add: stripped_def HasNoRegularInputs_def Tx_IsZerocoinSpend_def Tx_IsSigmaSpend_def Tx_IsZerocoinRemint_def Tx_IsLelantusJoinSplit_def
        Tx_IsSparkSpend_def list_ex_iff TxIn_IsZerocoinSpend_def TxIn_IsSigmaSpend_def TxIn_IsZerocoinRemint_def TxIn_IsLelantusJoinSplit_def i)
  ultimately show ?thesis by (simp add: spends_def)
qed

lemma same_inputs:
  assumes "stripped a = stripped b"
  shows "spends a = spends b" "map prevout (vin a) = map prevout (vin b)"
proof -
  show "spends a = spends b" using spends_stripped [of a] spends_stripped [of b] assms by simp
  have "map prevout (vin (stripped t)) = map prevout (vin t)" for t by (simp add: stripped_def strip_def)
  then show "map prevout (vin a) = map prevout (vin b)" using assms by metis
qed

lemma gone_repeat: "gone H prior (tx # txs) S u \<Longrightarrow> \<not> spends tx \<or> vin tx = [] \<Longrightarrow> gone H (tx # prior) txs S u"
  by (simp add: gone_def)

lemma gone_first:
  assumes g: "gone H prior (tx # txs) S u" and n: "GetHash H tx \<notin> S" and f: "fresh_firsts H S (tx # txs) u" and a: "appliable H tx u"
  shows "gone H (tx # prior) txs (insert (GetHash H tx) S) (tx_applied H n' tx u)"
proof -
  have out: "tx_applied H n' tx u o1 = None"
    if "u o1 = None \<or> spends tx \<and> o1 \<in> prevout ` set (vin tx)" "\<forall>k < length (vout tx). o1 \<noteq> \<lparr>outhash = GetHash H tx, outn = of_nat k\<rparr>" for o1
  proof -
    have "new_coins (GetHash H tx) n' (IsCoinBase tx) (vout tx) 0 o1 = None"
    proof (rule ccontr)
      assume "new_coins (GetHash H tx) n' (IsCoinBase tx) (vout tx) 0 o1 \<noteq> None"
      then have "outhash o1 = GetHash H tx" "unat (outn o1) < length (vout tx)" by (auto simp: new_coins_def Let_def split: if_splits)
      moreover have "o1 = \<lparr>outhash = outhash o1, outn = of_nat (unat (outn o1))\<rparr>" by simp
      ultimately show False using that(2) by metis
    qed
    then show ?thesis using that(1) by (auto simp: tx_applied_def map_add_def restrict_map_def spent_by_def)
  qed
  have own: "prevout i \<noteq> \<lparr>outhash = GetHash H t, outn = of_nat k\<rparr>"
    if "spends tx" "i \<in> set (vin tx)" "t \<in> set (tx # txs)" "GetHash H t \<notin> S" "k < length (vout t)" for i t k
    using a f that by (auto simp: appliable_def fresh_firsts_def fresh_outputs_def)
  show ?thesis
    unfolding gone_def
  proof (intro ballI impI)
    fix t i
    assume t: "t \<in> set (tx # prior)" "spends t" "i \<in> set (vin t)"
    have new: "prevout i \<noteq> \<lparr>outhash = GetHash H t', outn = of_nat k\<rparr>"
      if "t' \<in> set (tx # txs)" "GetHash H t' \<notin> S" "k < length (vout t')" for t' k
    proof (cases "t = tx")
      case False
      then have "t \<in> set prior" using t(1) by simp
      then show ?thesis using that t g unfolding gone_def by blast
    qed (use that t own in blast)
    have "u (prevout i) = None \<or> spends tx \<and> prevout i \<in> prevout ` set (vin tx)"
      using t g unfolding gone_def by (cases "t = tx") auto
    then have "tx_applied H n' tx u (prevout i) = None" by (rule out) (use new n in auto)
    then show "tx_applied H n' tx u (prevout i) = None \<and> (\<forall>tx'\<in>set txs. GetHash H tx' \<notin> insert (GetHash H tx) S \<longrightarrow>
        (\<forall>k < length (vout tx'). prevout i \<noteq> \<lparr>outhash = GetHash H tx', outn = of_nat k\<rparr>))"
      using new by simp
  qed
qed

context coins_view
begin

lemma connect_txs_fees:
  assumes c: "cache_ok usage vok utxo (cView c)" "usage [] = 0" and w: "\<forall>tx\<in>set txs. tx_checked tx"
    and f: "fresh_firsts (hashes E) (txIds c) txs (cache_utxo utxo (cView c))"
    and r: "connect_txs_loop usage get best E P wl T chain pindex scripts flags lf first txs c = Inr c'"
    and p: "txIds c = GetHash (hashes E) ` set prior" "gone (hashes E) prior txs (txIds c) (cache_utxo utxo (cView c))"
      "isMain P \<and> nHeight (blocks T pindex) < 66550 \<longrightarrow> no_collisions (hashes E) (prior @ txs)"
  defines "H \<equiv> hashes E"
  shows "\<exists>fees \<ge> 0. nFees c' = nFees c + (\<Sum>tx\<leftarrow>txs. private_fee E tx) + fees \<and>
      (finite (dom (cache_utxo utxo (cView c))) \<longrightarrow>
        total_value (cache_utxo utxo (cView c')) + (\<Sum>tx\<leftarrow>firsts H (txIds c) txs. unspendable_value tx) + fees =
        total_value (cache_utxo utxo (cView c)) + unspent_outputs (firsts H (txIds c) txs))"
  using c w f r p
proof (induction txs arbitrary: c first prior)
  case (Cons tx txs)
  let ?u = "cache_utxo utxo (cView c)"
  from Cons.prems(5) obtain c1 where
    c1: "connect_tx usage get best E P wl T chain pindex scripts flags lf first tx c = Inr c1"
      "connect_txs_loop usage get best E P wl T chain pindex scripts flags lf False txs c1 = Inr c'"
    by (auto simp: bindE_eq_Inr_iff)
  have coll: "isMain P \<and> nHeight (blocks T pindex) < 66550 \<longrightarrow> no_collisions (hashes E) ((tx # prior) @ txs)"
    using Cons.prems(8) no_collisions_cong [of "(tx # prior) @ txs" "prior @ tx # txs" "hashes E"] by simp
  show ?case
  proof (cases "GetHash (hashes E) tx \<in> txIds c")
    case True
    have w1: "tx_checked tx" using Cons.prems(3) by simp
    note t = connect_tx_repeats [OF Cons.prems(1) c1(1) True w1]
    have k: "cache_utxo utxo (cView c1) = ?u" by (rule keptD(2) [OF t(3)])
    from True Cons.prems(6) obtain b where b: "b \<in> set prior" "GetHash (hashes E) tx = GetHash (hashes E) b" by auto
    moreover have "tx \<in> set (prior @ tx # txs)" "b \<in> set (prior @ tx # txs)" using b(1) by simp_all
    ultimately have "stripped tx = stripped b" using t(1) Cons.prems(8) unfolding no_collisions_def by blast
    note same = same_inputs [OF this]
    have sp: "\<not> spends tx \<or> vin tx = []"
    proof (rule ccontr)
      assume s: "\<not> (\<not> spends tx \<or> vin tx = [])"
      then have "\<forall>i\<in>set (vin b). ?u (prevout i) = None" using Cons.prems(7) b(1) same(1) by (simp add: gone_def)
      then have "\<forall>o1\<in>set (map prevout (vin tx)). ?u o1 = None" unfolding same(2) by simp
      then show False using t(4) s by (cases "vin tx") auto
    qed
    have "txIds c1 = GetHash (hashes E) ` set (tx # prior)" "gone (hashes E) (tx # prior) txs (txIds c1) (cache_utxo utxo (cView c1))"
      using Cons.prems(6) t(2) True gone_repeat [OF Cons.prems(7) sp] k by auto
    moreover have "fresh_firsts (hashes E) (txIds c1) txs (cache_utxo utxo (cView c1))"
      using fresh_firsts_repeat [OF Cons.prems(4)] k t(2) by simp
    ultimately obtain fees where "0 \<le> fees" "nFees c' = nFees c1 + (\<Sum>tx\<leftarrow>txs. private_fee E tx) + fees"
      "finite (dom (cache_utxo utxo (cView c1))) \<longrightarrow> total_value (cache_utxo utxo (cView c')) + (\<Sum>tx\<leftarrow>firsts H (txIds c1) txs. unspendable_value tx) + fees =
        total_value (cache_utxo utxo (cView c1)) + unspent_outputs (firsts H (txIds c1) txs)"
      using Cons.IH [OF keptD(1) [OF t(3)] Cons.prems(2) _ _ c1(2) _ _ coll] Cons.prems(3) by auto
    then show ?thesis using t(2,5) sp True k by (intro exI [of _ fees]) (simp add: H_def)
  next
    case False
    note g = fresh_firsts_first(1) [OF Cons.prems(4) False] fresh_firsts_first(2) [OF Cons.prems(4) False, of "nat (nHeight (blocks T pindex))"]
    have w1: "tx_checked tx" using Cons.prems(3) by simp
    note t = connect_tx_applies [OF Cons.prems(1,2) w1 g(1) c1(1) False]
    have "txIds c1 = GetHash (hashes E) ` set (tx # prior)" "gone (hashes E) (tx # prior) txs (txIds c1) (cache_utxo utxo (cView c1))"
      "fresh_firsts (hashes E) (txIds c1) txs (cache_utxo utxo (cView c1))"
      using Cons.prems(6) gone_first [OF Cons.prems(7) False Cons.prems(4) t(2)] g(2) t(1,4) by simp_all
    from Cons.IH [OF t(3) Cons.prems(2) _ this(3) c1(2) this(1,2) coll] Cons.prems(3) obtain fees where
      i: "0 \<le> fees" "nFees c' = nFees c1 + (\<Sum>tx\<leftarrow>txs. private_fee E tx) + fees"
        "finite (dom (cache_utxo utxo (cView c1))) \<longrightarrow> total_value (cache_utxo utxo (cView c')) + (\<Sum>tx\<leftarrow>firsts H (txIds c1) txs. unspendable_value tx) + fees =
          total_value (cache_utxo utxo (cView c1)) + unspent_outputs (firsts H (txIds c1) txs)"
      by auto
    from t(6) obtain fee where fee: "0 \<le> fee" "nFees c1 = nFees c + private_fee E tx + fee"
      "(\<Sum>c\<leftarrow>undo_coins tx ?u. nValue (coinOut c)) = (if spends tx then \<Sum>out\<leftarrow>vout tx. nValue out else 0) + fee" by blast
    have "total_value (cache_utxo utxo (cView c')) + (\<Sum>tx\<leftarrow>firsts H (txIds c) (tx # txs). unspendable_value tx) + (fees + fee) =
        total_value ?u + unspent_outputs (firsts H (txIds c) (tx # txs))" if "finite (dom ?u)"
      using tx_applied_value [OF that t(2), of "nat (nHeight (blocks T pindex))"] tx_applied_finite [OF that t(2), of "nat (nHeight (blocks T pindex))"]
        fee(3) i(3) t(1,4) False
      by (auto simp: unspent_outputs_def H_def)
    moreover have "nFees c' = nFees c + (\<Sum>tx\<leftarrow>tx # txs. private_fee E tx) + (fees + fee)" using i(2) fee(2) by simp
    ultimately show ?thesis using i(1) fee(1) by (auto intro!: exI [of _ "fees + fee"])
  qed
qed (auto simp: unspent_outputs_def intro!: exI [of _ 0])

end

section \<open>Connecting a block\<close>

lemma progpow_ignores [simp]:
  "progpow_hash_full W H (h\<lparr>mix_hash := m\<rparr>) = progpow_hash_full W H h"
  "progpow_hash_full W H (b\<lparr>fChecked := x\<rparr>) = progpow_hash_full W H b"
  "Header_GetHash W H (b\<lparr>fChecked := x\<rparr>) = Header_GetHash W H b"
  by (simp_all add: progpow_hash_full_def ser_CProgPowHeader_def Header_GetHash_def progpow_hash_light_def)

lemma GetHashFull_snd: "snd (GetHashFull W H h) = h\<lparr>mix_hash := snd (progpow_hash_full W H h)\<rparr>"
  by (simp add: GetHashFull_def split: prod.split)

lemma CheckBlock_checked:
  assumes "CheckBlock E P T chain pow mrk h vdb block s = (Inr s', block')" "\<not> fChecked block"
  shows "vtx block' = vtx block \<and> vtx block \<noteq> [] \<and> IsCoinBase (vtx block ! 0) \<and> \<not> list_ex IsCoinBase (tl (vtx block)) \<and>
    block'\<lparr>fChecked := False\<rparr> = (if pow then snd (GetHashFull (progpow E) (hashes E) block) else block) \<and>
    (\<exists>s1 s2. check_txs_loop E P chain vdb (if h = INT_MAX then GetNHeight T (GetBlockHeader block) else h) (vtx block) s1 = Inr s2)"
proof -
  have g: "GetNHeight T (GetBlockHeader (block\<lparr>mix_hash := m\<rparr>)) = GetNHeight T (GetBlockHeader block)" for m
    by (simp add: GetNHeight_def GetBlockHeader_def)
  obtain r b where hd: "CheckBlockHeader E P pow block s = (r, b)" by fastforce
  have b: "b = (if pow then snd (GetHashFull (progpow E) (hashes E) block) else block)"
    using hd by (auto simp: CheckBlockHeader_def GetHashFull_def split: prod.splits if_splits)
  have n: "Header_GetHash (progpow E) (hashes E) block \<noteq> None"
  proof
    assume "Header_GetHash (progpow E) (hashes E) block = None"
    then show False using assms(1) by (simp add: CheckBlock_def)
  qed
  obtain s1 where r: "r = Inr s1" using assms hd n by (cases r) (simp_all add: CheckBlock_def)
  obtain s2 where 1: "check_body E P T chain mrk vdb h b s1 = Inr s2"
    using assms hd n r by (cases "check_body E P T chain mrk vdb h b s1") (simp_all add: CheckBlock_def)
  have 2: "block' = (if pow \<and> mrk then b\<lparr>fChecked := True\<rparr> else b)" using assms hd n r 1 by (simp add: CheckBlock_def Let_def)
  have v: "vtx b = vtx block" "\<not> fChecked b" "b\<lparr>fChecked := False\<rparr> = b" "GetNHeight T (GetBlockHeader b) = GetNHeight T (GetBlockHeader block)"
    using b assms(2) g by (auto simp: GetHashFull_snd)
  obtain s3 s4 where 3: "check_txs_loop E P chain vdb (if h = INT_MAX then GetNHeight T (GetBlockHeader b) else h) (vtx b) s3 = Inr s4"
    "vtx b \<noteq> []" "IsCoinBase (vtx b ! 0)" "\<not> list_ex IsCoinBase (tl (vtx b))"
    using 1 unfolding check_body_def by (elim bindE_elims) auto
  have "\<exists>s1 s2. check_txs_loop E P chain vdb (if h = INT_MAX then GetNHeight T (GetBlockHeader block) else h) (vtx block) s1 = Inr s2"
    using 3(1) unfolding v(1,4) by blast
  moreover have "block'\<lparr>fChecked := False\<rparr> = b" "vtx block' = vtx b" using 2 v(3) by simp_all
  ultimately show ?thesis using 3(2-) v(1) b by simp
qed

lemma connect_rest_reward:
  assumes "connect_rest E P T pindex just scripts block fees s = Inr s'"
  shows "\<exists>v. GetValueOut (vtx block ! 0) = Some v \<and> v \<le> fees + GetBlockSubsidy (nHeight (blocks T pindex)) P"
proof (cases "GetValueOut (vtx block ! 0)")
  case (Some v)
  from assms have "fail_if (v > fees + GetBlockSubsidy (nHeight (blocks T pindex)) P) 100 ''bad-cb-amount'' s = Inr s"
    unfolding connect_rest_def Let_def Some option.case by (elim bindE_elims) auto
  with Some show ?thesis by auto
qed (use assms in \<open>simp add: connect_rest_def Let_def\<close>)

lemma undo_flag: "(w OR 16) AND (16 :: u32) = 16" "((w AND NOT 7) OR 5) AND (16 :: u32) = w AND 16"
proof -
  show "(w OR 16) AND (16 :: u32) = 16" by (simp add: bit.conj_disj_distrib2)
  have "NOT 7 AND (16 :: u32) = 16" by simp
  then show "((w AND NOT 7) OR 5) AND (16 :: u32) = w AND 16" by (simp add: bit.conj_disj_distrib2 and.assoc)
qed

lemma RaiseValidity_keeps:
  assumes "RaiseValidity 5 b = Inr (x, b')"
  shows "nStatus b' AND 16 = nStatus b AND 16 \<and> nHeight b' = nHeight b \<and> phashBlock b' = phashBlock b \<and> pprev b' = pprev b"
proof -
  have "b' = b \<or> b' = b\<lparr>nStatus := (nStatus b AND NOT BLOCK_VALID_MASK) OR 5\<rparr>"
    using assms by (auto simp: RaiseValidity_def split: if_splits)
  then show ?thesis using undo_flag(2) [of "nStatus b"] by auto
qed

lemma write_undo_marks:
  assumes "write_undo E pindex undo s T = Inr (s', T')"
  shows "nStatus (blocks T' pindex) AND 16 \<noteq> 0 \<and> nHeight (blocks T' p) = nHeight (blocks T p) \<and> phashBlock (blocks T' p) = phashBlock (blocks T p) \<and>
    pprev (blocks T' p) = pprev (blocks T p)"
proof (cases "nStatus (blocks T pindex) AND 16 = 0")
  case True
  with assms obtain s1 x b where b: "RaiseValidity 5 ((blocks T pindex)\<lparr>nStatus := nStatus (blocks T pindex) OR 16\<rparr>) = Inr (x, b)"
    "T' = T\<lparr>blocks := (blocks T)(pindex := b)\<rparr>"
    by (cases "RaiseValidity 5 ((blocks T pindex)\<lparr>nStatus := nStatus (blocks T pindex) OR 16\<rparr>)")
      (auto simp: write_undo_def Let_def bindE_eq_Inr_iff split: sum.splits)
  with RaiseValidity_keeps [OF b(1)] undo_flag(1) [of "nStatus (blocks T pindex)"] show ?thesis by simp
next
  case False
  with assms have "T' = T \<or> (\<exists>x b. RaiseValidity 5 (blocks T pindex) = Inr (x, b) \<and> T' = T\<lparr>blocks := (blocks T)(pindex := b)\<rparr>)"
    by (cases "RaiseValidity 5 (blocks T pindex)") (auto simp: write_undo_def Let_def split: sum.splits if_splits)
  then show ?thesis
  proof
    assume "\<exists>x b. RaiseValidity 5 (blocks T pindex) = Inr (x, b) \<and> T' = T\<lparr>blocks := (blocks T)(pindex := b)\<rparr>"
    then obtain x b where b: "RaiseValidity 5 (blocks T pindex) = Inr (x, b)" "T' = T\<lparr>blocks := (blocks T)(pindex := b)\<rparr>" by blast
    with RaiseValidity_keeps [OF b(1)] False show ?thesis by simp
  qed (use False in simp)
qed

text \<open>What a connected block has gone through.\<close>

lemma connect_txs_steps:
  assumes "connect_txs usage get best E P wl av T chain pindex just block s view cache = Inr r"
  obtains v1 scripts flags lf c sF where "bip30_loop usage get (hashes E) (vtx block) s view = Inr v1"
    "connect_txs_loop usage get best E P wl T chain pindex scripts flags lf True (vtx block)
       \<lparr>cView = v1, cState = s, nFees = 0, nSigOpsCost = 0, txIds = {}, vtxundo = []\<rparr> = Inr c"
    "connect_rest E P T pindex just scripts block (nFees c) (cState c) = Inr sF" "outUndo r = vtxundo c"
    "just \<longrightarrow> outView r = cView c"
    "\<not> just \<longrightarrow> (\<exists>s' T'. write_undo E pindex (vtxundo c) sF T = Inr (s', T') \<and> outTree r = T' \<and>
       outView r = SetBestBlock (phashBlock (blocks T' pindex)) (cView c) \<and> supply_change E (vtx block ! 0) (nFees c) = Inr (addedSupply r))"
proof -
  from assms obtain v1 scripts flags lf c sF cache' where 1: "bip30_loop usage get (hashes E) (vtx block) s view = Inr v1"
    "connect_txs_loop usage get best E P wl T chain pindex scripts flags lf True (vtx block)
       \<lparr>cView = v1, cState = s, nFees = 0, nSigOpsCost = 0, txIds = {}, vtxundo = []\<rparr> = Inr c"
    "connect_rest E P T pindex just scripts block (nFees c) (cState c) = Inr sF"
    "(if just then Inr \<lparr>outView = cView c, outState = sF, outTree = T, outUndo = vtxundo c, addedSupply = 0, outCache = cache'\<rparr>
      else bindE (write_undo E pindex (vtxundo c) sF T) (\<lambda>(s, T). bindE (supply_change E (vtx block ! 0) (nFees c)) (\<lambda>supply.
        Inr \<lparr>outView = SetBestBlock (phashBlock (blocks T pindex)) (cView c), outState = s, outTree = T, outUndo = vtxundo c,
             addedSupply = supply, outCache = cache'\<rparr>))) = Inr r"
    unfolding connect_txs_def by (elim bindE_elims) blast
  from 1(4) have "outUndo r = vtxundo c" "just \<longrightarrow> outView r = cView c"
    "\<not> just \<longrightarrow> (\<exists>s' T'. write_undo E pindex (vtxundo c) sF T = Inr (s', T') \<and> outTree r = T' \<and>
       outView r = SetBestBlock (phashBlock (blocks T' pindex)) (cView c) \<and> supply_change E (vtx block ! 0) (nFees c) = Inr (addedSupply r))"
    by (auto simp: bindE_eq_Inr_iff split: if_splits option.splits)
  with 1(1-3) show ?thesis by (rule that)
qed

definition parent_hash :: "store \<Rightarrow> addr \<Rightarrow> uint256" where
  "parent_hash B pindex = (case pprev (B pindex) of None \<Rightarrow> replicate 32 0 | Some q \<Rightarrow> phashBlock (B q))"

definition is_genesis :: "'e connect_env_scheme \<Rightarrow> BlockParams \<Rightarrow> CBlock \<Rightarrow> bool" where
  "is_genesis E P block \<longleftrightarrow>
     Header_GetHash (progpow E) (hashes E) (block\<lparr>mix_hash := snd (progpow_hash_full (progpow E) (hashes E) block)\<rparr>) = Some (hashGenesisBlock P)"

text \<open>
  A block that is marked as checked is not checked again by \<open>ConnectBlock\<close>. The mark is only set by \<open>CheckBlock\<close> with all checks switched on;
  \<open>passed_checks\<close> says that this is where the mark of the block is from, with the height that the block is connected at.
\<close>

definition passed_checks :: "'e connect_env_scheme \<Rightarrow> BlockParams \<Rightarrow> int \<Rightarrow> CBlock \<Rightarrow> bool" where
  "passed_checks E P height block \<longleftrightarrow> (\<exists>T chain h vdb b s s'. \<not> fChecked b \<and>
     CheckBlock E P T chain True True h vdb b s = (Inr s', block) \<and> (if h = INT_MAX then GetNHeight T (GetBlockHeader b) else h) = height)"

lemma passed_checks_facts:
  assumes "passed_checks E P h block" "h \<noteq> INT_MAX" "nStartDuplicationCheck P < h"
  shows "vtx block \<noteq> [] \<and> IsCoinBase (vtx block ! 0) \<and> \<not> list_ex IsCoinBase (tl (vtx block)) \<and> (\<forall>tx\<in>set (vtx block). tx_checked tx)"
proof -
  obtain T chain h0 vdb b s s' where b: "\<not> fChecked b" "CheckBlock E P T chain True True h0 vdb b s = (Inr s', block)"
    "(if h0 = INT_MAX then GetNHeight T (GetBlockHeader b) else h0) = h"
    using assms(1) unfolding passed_checks_def by blast
  note k = CheckBlock_checked [OF b(2,1), unfolded b(3)]
  then obtain s1 s2 where "check_txs_loop E P chain vdb h (vtx b) s1 = Inr s2" by blast
  from check_txs_checked [OF this assms(2,3)] k show ?thesis by simp
qed

lemma ConnectBlock_steps:
  assumes r: "ConnectBlock usage get best E P wl av T chain pindex just block s view cache = Inr r"
    and c: "fChecked block \<longrightarrow> passed_checks E P (nHeight (blocks T pindex)) block" "\<not> is_genesis E P block"
    and h: "nHeight (blocks T pindex) \<noteq> INT_MAX" "nStartDuplicationCheck P < nHeight (blocks T pindex)"
  obtains block' s' view' where "vtx block' = vtx block" "GetBestBlock best view = (parent_hash (blocks T) pindex, view')"
    "connect_txs usage get best E P wl av T chain pindex just block' s' view' cache = Inr r"
    "vtx block \<noteq> []" "IsCoinBase (vtx block ! 0)" "\<not> list_ex IsCoinBase (tl (vtx block))" "\<forall>tx\<in>set (vtx block). tx_checked tx"
proof -
  let ?mix = "snd (progpow_hash_full (progpow E) (hashes E) block)"
  let ?b = "block\<lparr>mix_hash := ?mix\<rparr>"
  obtain x b where cb: "CheckBlock E P T chain (\<not> just) (\<not> just) (nHeight (blocks T pindex)) False ?b s = (x, b)" by fastforce
  obtain hash v where g: "GetBestBlock best view = (hash, v)" by fastforce
  from r obtain s1 where x: "x = Inr s1" by (cases x) (simp_all add: ConnectBlock_def Let_def GetHashFull_snd cb)
  have k: "vtx b = vtx block \<and> Header_GetHash (progpow E) (hashes E) b = Header_GetHash (progpow E) (hashes E) ?b \<and>
      vtx block \<noteq> [] \<and> IsCoinBase (vtx block ! 0) \<and> \<not> list_ex IsCoinBase (tl (vtx block)) \<and> (\<forall>tx\<in>set (vtx block). tx_checked tx)"
  proof (cases "fChecked block")
    case True
    then have "b = ?b" using cb x by (simp add: CheckBlock_def split: if_splits)
    then show ?thesis using passed_checks_facts [OF mp [OF c(1) True] h] by simp
  next
    case False
    then have "\<not> fChecked ?b" by simp
    note k = CheckBlock_checked [OF cb [unfolded x] this]
    then obtain s5 s6 where "check_txs_loop E P chain False (nHeight (blocks T pindex)) (vtx block) s5 = Inr s6" using h(1) by auto
    note w = check_txs_checked [OF this h]
    have "b\<lparr>fChecked := False\<rparr> = ?b" using k by (simp add: GetHashFull_snd)
    then have "Header_GetHash (progpow E) (hashes E) b = Header_GetHash (progpow E) (hashes E) ?b" by (metis progpow_ignores(3))
    then show ?thesis using k w by simp
  qed
  from r obtain s2 s3 hb' where 1: "parent_hash (blocks T) pindex = hash"
    "Header_GetHash (progpow E) (hashes E) b = Some hb'"
    "(if hb' = hashGenesisBlock P then Inr \<lparr>outView = (if \<not> just then SetBestBlock (phashBlock (blocks T pindex)) v else v), outState = s3,
        outTree = T, outUndo = [], addedSupply = 0, outCache = cache\<rparr>
      else connect_txs usage get best E P wl av T chain pindex just b s3 v cache) = Inr r"
    unfolding ConnectBlock_def Let_def GetHashFull_snd cb x g parent_hash_def [symmetric] prod.case sum.case
    by (elim bindE_elims) (auto split: if_splits option.splits)
  have "hb' \<noteq> hashGenesisBlock P" using 1(2) k c(2) by (simp add: is_genesis_def)
  with 1(3) have "connect_txs usage get best E P wl av T chain pindex just b s3 v cache = Inr r" by simp
  then show ?thesis using k g 1(1) by (intro that) auto
qed

lemma supply_change_value: "supply_change E tx fees = Inr a \<Longrightarrow> fAddressIndex E \<Longrightarrow> GetValueOut tx = Some (a + fees)"
  by (auto simp: supply_change_def split: option.splits)

context coins_view
begin

lemma ConnectBlock_connects:
  assumes v: "cache_ok usage vok utxo view" "usage [] = 0"
    and r: "ConnectBlock usage get best E P wl av T chain pindex just block s view cache = Inr r"
    and c: "fChecked block \<longrightarrow> passed_checks E P (nHeight (blocks T pindex)) block" "\<not> is_genesis E P block"
    and h: "nHeight (blocks T pindex) \<noteq> INT_MAX" "nStartDuplicationCheck P < nHeight (blocks T pindex)"
  defines "H \<equiv> hashes E" and "n \<equiv> nat (nHeight (blocks T pindex))" and "u \<equiv> cache_utxo utxo view"
    and "txs \<equiv> firsts (hashes E) {} (vtx block)" and "early \<equiv> isMain P \<and> nHeight (blocks T pindex) < 66550"
  shows "txs_appliable H n txs u" "cache_ok usage vok utxo (outView r)" "cache_utxo utxo (outView r) = txs_applied H n txs u"
    "distinct (map (GetHash H) (vtx block)) \<Longrightarrow> outUndo r = tl (txs_undo H n (vtx block) u)" "cache_tip tip view = parent_hash (blocks T) pindex"
    "early \<longrightarrow> no_collisions H (vtx block) \<Longrightarrow>
      \<exists>fees vo. 0 \<le> fees \<and> GetValueOut (vtx block ! 0) = Some vo \<and> vo \<le> (\<Sum>tx\<leftarrow>vtx block. private_fee E tx) + fees + GetBlockSubsidy (nHeight (blocks T pindex)) P \<and>
      (finite (dom u) \<longrightarrow> total_value (cache_utxo utxo (outView r)) + (\<Sum>tx\<leftarrow>txs. unspendable_value tx) + fees = total_value u + unspent_outputs txs) \<and>
      (\<not> just \<and> fAddressIndex E \<longrightarrow> addedSupply r = vo - ((\<Sum>tx\<leftarrow>vtx block. private_fee E tx) + fees))"
    "\<not> just \<Longrightarrow> nStatus (blocks (outTree r) pindex) AND 16 \<noteq> 0 \<and> hashBlock (outView r) = phashBlock (blocks T pindex) \<and>
      (\<forall>p. nHeight (blocks (outTree r) p) = nHeight (blocks T p) \<and> phashBlock (blocks (outTree r) p) = phashBlock (blocks T p) \<and>
        pprev (blocks (outTree r) p) = pprev (blocks T p))"
    "\<not> early \<Longrightarrow> distinct (map (GetHash H) (vtx block))"
proof -
  obtain b s1 v0 where 0: "vtx b = vtx block" "GetBestBlock best view = (parent_hash (blocks T) pindex, v0)"
    "connect_txs usage get best E P wl av T chain pindex just b s1 v0 cache = Inr r"
    "vtx block \<noteq> []" "IsCoinBase (vtx block ! 0)" "\<not> list_ex IsCoinBase (tl (vtx block))" "\<forall>tx\<in>set (vtx block). tx_checked tx"
    by (rule ConnectBlock_steps [OF r c h])
  obtain v1 scripts flags lf cc sF where "bip30_loop usage get (hashes E) (vtx b) s1 v0 = Inr v1"
    "connect_txs_loop usage get best E P wl T chain pindex scripts flags lf True (vtx b)
       \<lparr>cView = v1, cState = s1, nFees = 0, nSigOpsCost = 0, txIds = {}, vtxundo = []\<rparr> = Inr cc"
    "connect_rest E P T pindex just scripts b (nFees cc) (cState cc) = Inr sF" "outUndo r = vtxundo cc" "just \<longrightarrow> outView r = cView cc"
    "\<not> just \<longrightarrow> (\<exists>s' T'. write_undo E pindex (vtxundo cc) sF T = Inr (s', T') \<and> outTree r = T' \<and>
       outView r = SetBestBlock (phashBlock (blocks T' pindex)) (cView cc) \<and> supply_change E (vtx b ! 0) (nFees cc) = Inr (addedSupply r))"
    by (rule connect_txs_steps [OF 0(3)])
  note 1 = this [unfolded 0(1), folded H_def]
  note k0 = best_kept [OF v(1) 0(2)]
  show "cache_tip tip view = parent_hash (blocks T) pindex" using k0 by simp
  note k1 = bip30_kept [OF keptD(1) [OF conjunct1 [OF k0]] 1(1)]
  have u1: "cache_ok usage vok utxo v1" "cache_utxo utxo v1 = u" "fresh_firsts H {} (vtx block) u"
    using k0 k1 by (simp_all add: kept_def u_def fresh_firsts_def fresh_outputs_def)
  let ?c = "\<lparr>cView = v1, cState = s1, nFees = 0, nSigOpsCost = 0, txIds = {}, vtxundo = []\<rparr>"
  have c0: "cache_ok usage vok utxo (cView ?c)" "fresh_firsts (hashes E) (txIds ?c) (vtx block) (cache_utxo utxo (cView ?c))"
    using u1 by (simp_all add: H_def)
  note a = connect_txs_applies [OF c0(1) v(2) 0(7) c0(2) 1(2) [unfolded H_def], folded H_def n_def txs_def, simplified u1(2) connecting.simps, simplified]
  have o: "cache_ok usage vok utxo (outView r) = cache_ok usage vok utxo (cView cc)" "cache_utxo utxo (outView r) = cache_utxo utxo (cView cc)"
    using 1(5,6) by (cases just; force simp: SetBestBlock_def)+
  show "txs_appliable H n txs u" "cache_ok usage vok utxo (outView r)" "cache_utxo utxo (outView r) = txs_applied H n txs u"
    "distinct (map (GetHash H) (vtx block)) \<Longrightarrow> outUndo r = tl (txs_undo H n (vtx block) u)"
    "\<not> early \<Longrightarrow> distinct (map (GetHash H) (vtx block))" using a o 1(4) by (simp_all add: txs_def H_def early_def)
  from connect_rest_reward [OF 1(3)] 0(1) obtain vo where vo: "GetValueOut (vtx block ! 0) = Some vo"
    "vo \<le> nFees cc + GetBlockSubsidy (nHeight (blocks T pindex)) P" by auto
  show "\<exists>fees vo. 0 \<le> fees \<and> GetValueOut (vtx block ! 0) = Some vo \<and> vo \<le> (\<Sum>tx\<leftarrow>vtx block. private_fee E tx) + fees + GetBlockSubsidy (nHeight (blocks T pindex)) P \<and>
      (finite (dom u) \<longrightarrow> total_value (cache_utxo utxo (outView r)) + (\<Sum>tx\<leftarrow>txs. unspendable_value tx) + fees = total_value u + unspent_outputs txs) \<and>
      (\<not> just \<and> fAddressIndex E \<longrightarrow> addedSupply r = vo - ((\<Sum>tx\<leftarrow>vtx block. private_fee E tx) + fees))"
    if nc: "early \<longrightarrow> no_collisions H (vtx block)"
  proof -
    have "txIds ?c = GetHash (hashes E) ` set []" "gone (hashes E) [] (vtx block) (txIds ?c) (cache_utxo utxo (cView ?c))"
      "isMain P \<and> nHeight (blocks T pindex) < 66550 \<longrightarrow> no_collisions (hashes E) ([] @ vtx block)"
      using nc by (simp_all add: gone_def early_def H_def)
    from connect_txs_fees [OF c0(1) v(2) 0(7) c0(2) 1(2) [unfolded H_def] this] obtain fees where
      f: "0 \<le> fees" "nFees cc = (\<Sum>tx\<leftarrow>vtx block. private_fee E tx) + fees"
        "finite (dom u) \<longrightarrow> total_value (cache_utxo utxo (cView cc)) + (\<Sum>tx\<leftarrow>txs. unspendable_value tx) + fees = total_value u + unspent_outputs txs"
      by (auto simp: u1(2) txs_def)
    have "\<not> just \<and> fAddressIndex E \<longrightarrow> addedSupply r = vo - ((\<Sum>tx\<leftarrow>vtx block. private_fee E tx) + fees)"
      using 1(6) vo(1) f(2) supply_change_value [of E "vtx block ! 0" "nFees cc" "addedSupply r"] by auto
    with f vo o(2) show ?thesis by auto
  qed
  assume "\<not> just"
  from 1(6) this obtain s' T' where w: "write_undo E pindex (vtxundo cc) sF T = Inr (s', T')" "outTree r = T'"
    "outView r = SetBestBlock (phashBlock (blocks T' pindex)) (cView cc)" by blast
  with write_undo_marks [OF w(1)] show "nStatus (blocks (outTree r) pindex) AND 16 \<noteq> 0 \<and> hashBlock (outView r) = phashBlock (blocks T pindex) \<and>
      (\<forall>p. nHeight (blocks (outTree r) p) = nHeight (blocks T p) \<and> phashBlock (blocks (outTree r) p) = phashBlock (blocks T p) \<and>
        pprev (blocks (outTree r) p) = pprev (blocks T p))"
    by (simp add: SetBestBlock_def)
qed

end

end
