(* ===== verification/DisconnectProps.thy ===== *)
theory DisconnectProps
  imports ConnectProps
begin

text \<open>
  Disconnecting a block restores the set of unspent outputs it was connected to.
\<close>

section \<open>Undoing one transaction\<close>

text \<open>Coins as blocks create them: unspent, spendable, and with a height, so that their undo data is complete.\<close>

definition coin_wf :: "Coin \<Rightarrow> bool" where
  "coin_wf c \<longleftrightarrow> \<not> IsSpent c \<and> \<not> IsUnspendable (scriptPubKey (coinOut c)) \<and> 0 < coinHeight c"

definition utxo_wf :: "(COutPoint \<Rightarrow> Coin option) \<Rightarrow> bool" where
  "utxo_wf u \<longleftrightarrow> (\<forall>p c. u p = Some c \<longrightarrow> coin_wf c)"

lemma utxo_wf_applied:
  assumes "utxo_wf u" "tx_checked tx" "0 < n"
  shows "utxo_wf (tx_applied H n tx u)"
proof -
  have "coin_wf c" if a: "tx_applied H n tx u p = Some c" for p c
  proof (cases "new_coins (GetHash H tx) n (IsCoinBase tx) (vout tx) 0 p")
    case None
    then have "u p = Some c" using a by (simp add: tx_applied_def map_add_def restrict_map_def split: if_splits)
    then show ?thesis using assms(1) by (simp add: utxo_wf_def)
  next
    case (Some c')
    then obtain k where k: "k < length (vout tx)" "\<not> IsUnspendable (scriptPubKey (vout tx ! k))" "c' = \<lparr>coinOut = vout tx ! k, fCoinBase = IsCoinBase tx, coinHeight = n\<rparr>"
      by (auto simp: new_coins_def Let_def split: if_splits)
    have "c = c'" using a Some by (simp add: tx_applied_def map_add_def)
    moreover have "0 \<le> nValue (vout tx ! k)" using assms(2) k(1) by (auto simp: tx_checked_def)
    ultimately show ?thesis using k assms(3) by (simp add: coin_wf_def IsSpent_def TxOut_IsNull_def)
  qed
  then show ?thesis by (simp add: utxo_wf_def)
qed

lemma new_coins_dom_Cons:
  assumes "i + length (txo # outs) \<le> 2 ^ 32"
  shows "dom (new_coins txid h cb (txo # outs) i) =
    (if IsUnspendable (scriptPubKey txo) then {} else {\<lparr>outhash = txid, outn = of_nat i\<rparr>}) \<union> dom (new_coins txid h cb outs (i + 1))"
  using new_coins_Cons [of i Map.empty txid h cb txo outs] assms by (auto simp: dom_def split: if_splits)

lemma u32_of_nat: "m < 2 ^ 32 \<Longrightarrow> unat (of_nat m :: u32) = m"
  by (simp add: unsigned_of_nat take_bit_nat_eq_self)

context coins_view
begin

lemma ApplyTxInUndo_restores:
  assumes s: "cache_ok usage vok utxo s" and c: "coin_wf c" and p: "cache_utxo utxo s p = None"
  shows "\<exists>s'. ApplyTxInUndo usage get c p s = Inr (DISCONNECT_OK, s') \<and> cache_ok usage vok utxo s' \<and> cache_utxo utxo s' = (cache_utxo utxo s)(p \<mapsto> c)"
proof -
  obtain b s1 where b: "HaveCoin usage get p s = (b, s1)" by fastforce
  note k = have_kept [OF s b]
  then have s1: "cache_ok usage vok utxo s1" "cache_utxo utxo s1 = cache_utxo utxo s" "\<not> b" using p by (simp_all add: kept_def)
  from add_adds [OF s1(1), of c "fCoinBase c" p] c p s1(2) obtain s2 where
    "AddCoin usage p c (fCoinBase c) s1 = Inr s2" "cache_ok usage vok utxo s2" "cache_utxo utxo s2 = (cache_utxo utxo s)(p \<mapsto> c)"
    by (auto simp: coin_wf_def)
  with b s1(3) c show ?thesis by (simp add: ApplyTxInUndo_def coin_wf_def)
qed

lemma remove_outputs_removes:
  assumes "cache_ok usage vok utxo s" "usage [] = 0" "i + length outs \<le> 2 ^ 32"
    and "\<forall>k < length outs. \<not> IsUnspendable (scriptPubKey (outs ! k)) \<longrightarrow>
      (\<exists>c. cache_utxo utxo s \<lparr>outhash = txid, outn = of_nat (i + k)\<rparr> = Some c \<and> coinOut c = outs ! k)"
  shows "\<exists>s'. remove_outputs_loop usage get txid outs i clean s = (clean, s') \<and> cache_ok usage vok utxo s' \<and>
    cache_utxo utxo s' = cache_utxo utxo s |` (- dom (new_coins txid h cb outs i))"
  using assms
proof (induction outs arbitrary: i s)
  case (Cons txo outs)
  let ?p = "\<lparr>outhash = txid, outn = of_nat i :: u32\<rparr>" and ?N = "dom (new_coins txid h cb outs (i + 1))"
  note d = new_coins_dom_Cons [OF Cons.prems(3), of txid h cb]
  have later: "\<lparr>outhash = txid, outn = of_nat (Suc i + k) :: u32\<rparr> \<noteq> ?p" if "k < length outs" for k
  proof
    assume "\<lparr>outhash = txid, outn = of_nat (Suc i + k) :: u32\<rparr> = ?p"
    then have "(of_nat (Suc i + k) :: u32) = of_nat i" by (simp only: COutPoint.ext_inject)
    then have "unat (of_nat (Suc i + k) :: u32) = unat (of_nat i :: u32)" by (rule arg_cong)
    moreover have "Suc i + k < 2 ^ 32" "i < 2 ^ 32" using Cons.prems(3) that by simp_all
    ultimately show False using u32_of_nat [of "Suc i + k"] u32_of_nat [of i] by linarith
  qed
  have rest: "\<exists>c. cache_utxo utxo s \<lparr>outhash = txid, outn = of_nat (Suc i + k)\<rparr> = Some c \<and> coinOut c = outs ! k"
    if "k < length outs" "\<not> IsUnspendable (scriptPubKey (outs ! k))" for k
    using Cons.prems(4) [rule_format, of "Suc k"] that by simp
  show ?case
  proof (cases "IsUnspendable (scriptPubKey txo)")
    case True
    have "\<forall>k < length outs. \<not> IsUnspendable (scriptPubKey (outs ! k)) \<longrightarrow>
      (\<exists>c. cache_utxo utxo s \<lparr>outhash = txid, outn = of_nat (i + 1 + k)\<rparr> = Some c \<and> coinOut c = outs ! k)"
      using rest by simp
    from Cons.IH [OF Cons.prems(1,2) _ this] Cons.prems(3) True d show ?thesis by simp
  next
    case False
    obtain m s1 where m: "SpendCoin usage get ?p s = (m, s1)" by fastforce
    from spend_spends [OF Cons.prems(1,2), of ?p] m have s1: "cache_ok usage vok utxo s1" "cache_utxo utxo s1 = (cache_utxo utxo s)(?p := None)"
      "(case m of None \<Rightarrow> None | Some c \<Rightarrow> shown c) = cache_utxo utxo s ?p" by simp_all
    from False obtain c where c: "cache_utxo utxo s ?p = Some c" "coinOut c = txo" using Cons.prems(4) [rule_format, of 0] by auto
    then have mc: "m = Some c" using s1(3) by (auto simp: shown_def split: option.splits if_splits)
    have "\<forall>k < length outs. \<not> IsUnspendable (scriptPubKey (outs ! k)) \<longrightarrow>
      (\<exists>c. cache_utxo utxo s1 \<lparr>outhash = txid, outn = of_nat (i + 1 + k)\<rparr> = Some c \<and> coinOut c = outs ! k)"
      using rest later s1(2) by simp
    from Cons.IH [OF s1(1) Cons.prems(2) _ this] Cons.prems(3) obtain s2 where
      "remove_outputs_loop usage get txid outs (i + 1) clean s1 = (clean, s2)" "cache_ok usage vok utxo s2"
      "cache_utxo utxo s2 = cache_utxo utxo s1 |` (- ?N)" by auto
    with False m mc c(2) d s1(2) show ?thesis by (auto simp: Let_def restrict_map_def fun_eq_iff)
  qed
qed (simp add: new_coins_def restrict_map_def dom_def)

lemma restore_inputs_restores:
  assumes "cache_ok usage vok utxo s" "distinct (map (\<lambda>(j, i, c). prevout i) L)"
    and "\<forall>(j, i, c)\<in>set L. cache_utxo utxo s (prevout i) = None \<and> coin_wf c"
  shows "\<exists>s'. restore_inputs_loop usage get h txid L clean s = Inr (Some (clean, s')) \<and> cache_ok usage vok utxo s' \<and>
    cache_utxo utxo s' = cache_utxo utxo s ++ map_of (map (\<lambda>(j, i, c). (prevout i, c)) L)"
  using assms
proof (induction L arbitrary: s)
  case (Cons x L)
  obtain j i c where x: "x = (j, i, c)" by (cases x)
  let ?M = "map (\<lambda>(j, i, c). (prevout i, c)) L"
  from ApplyTxInUndo_restores [OF Cons.prems(1), of c "prevout i"] Cons.prems(3) obtain s1 where
    s1: "ApplyTxInUndo usage get c (prevout i) s = Inr (DISCONNECT_OK, s1)" "cache_ok usage vok utxo s1"
      "cache_utxo utxo s1 = (cache_utxo utxo s)(prevout i \<mapsto> c)" by (auto simp: x)
  have ni: "prevout i \<notin> fst ` set ?M" using Cons.prems(2) by (force simp: x)
  have "\<forall>(j, i, c)\<in>set L. cache_utxo utxo s1 (prevout i) = None \<and> coin_wf c" using Cons.prems(2,3) s1(3) by (force simp: x)
  from Cons.IH [OF s1(2) _ this] Cons.prems(2) obtain s2 where
    s2: "restore_inputs_loop usage get h txid L clean s1 = Inr (Some (clean, s2))" "cache_ok usage vok utxo s2"
      "cache_utxo utxo s2 = cache_utxo utxo s1 ++ map_of ?M" by (auto simp: x)
  have "map_of ?M (prevout i) = None" using ni by (simp add: map_of_eq_None_iff)
  then have "cache_utxo utxo s2 = cache_utxo utxo s ++ map_of (map (\<lambda>(j, i, c). (prevout i, c)) (x # L))"
    unfolding s2(3) s1(3) by (auto simp: x fun_eq_iff map_add_def split: option.splits)
  moreover have "restore_inputs_loop usage get h txid (x # L) clean s = Inr (Some (clean, s2))"
    using s1(1) s2(1) by (simp add: x ApplyUndoForTxout_def)
  ultimately show ?case using s2(2) by blast
qed simp

end

text \<open>The set without the inputs, filled up with the undo data, is the set before.\<close>

lemma zip_undo_map: "map (\<lambda>(j, i, c). f i c) (zip [0..<length xs] (zip xs (map g xs))) = map (\<lambda>i. f i (g i)) xs"
  by (rule nth_equalityI) simp_all

lemma undo_data_map_of:
  fixes u :: "COutPoint \<Rightarrow> Coin option" and vins :: "CTxIn list"
  assumes "distinct (map prevout vins)" "\<forall>i\<in>set vins. u (prevout i) \<noteq> None"
  defines "L \<equiv> rev (zip [0..<length vins] (zip vins (map (\<lambda>i. the (u (prevout i))) vins)))"
  shows "u |` (- set (map prevout vins)) ++ map_of (map (\<lambda>(j, i, c). (prevout i, c)) L) = u"
    "distinct (map (\<lambda>(j, i, c). prevout i) L)" "\<forall>(j, i, c)\<in>set L. i \<in> set vins \<and> u (prevout i) = Some c"
proof -
  have p: "map (\<lambda>(j, i, c). prevout i) L = rev (map prevout vins)" using zip_undo_map [of "\<lambda>i c. prevout i" vins] by (simp add: L_def rev_map [symmetric])
  show "distinct (map (\<lambda>(j, i, c). prevout i) L)" unfolding p using assms(1) by simp
  have m: "map (\<lambda>(j, i, c). (prevout i, c)) L = rev (map (\<lambda>i. (prevout i, the (u (prevout i)))) vins)"
    using zip_undo_map [of "\<lambda>i c. (prevout i, c)" vins] by (simp add: L_def rev_map [symmetric])
  have d: "distinct (map fst (rev (map (\<lambda>i. (prevout i, the (u (prevout i)))) vins)))" using assms(1) by (simp add: rev_map [symmetric] comp_def)
  show "\<forall>(j, i, c)\<in>set L. i \<in> set vins \<and> u (prevout i) = Some c"
    using assms(2) by (force simp: L_def in_set_zip)
  show "u |` (- set (map prevout vins)) ++ map_of (map (\<lambda>(j, i, c). (prevout i, c)) L) = u"
  proof
    fix p
    show "(u |` (- set (map prevout vins)) ++ map_of (map (\<lambda>(j, i, c). (prevout i, c)) L)) p = u p"
    proof (cases "p \<in> prevout ` set vins")
      case True
      then obtain i where i: "i \<in> set vins" "p = prevout i" by blast
      then have "map_of (map (\<lambda>(j, i, c). (prevout i, c)) L) p = Some (the (u p))" unfolding m by (intro map_of_is_SomeI [OF d]) auto
      then show ?thesis using i assms(2) by (auto simp: map_add_def)
    next
      case False
      then have "map_of (map (\<lambda>(j, i, c). (prevout i, c)) L) p = None" unfolding m by (auto simp: map_of_eq_None_iff)
      then show ?thesis using False by (simp add: map_add_def restrict_map_def)
    qed
  qed
qed

lemma new_coins_removed:
  assumes "appliable H tx u"
  shows "tx_applied H n tx u |` (- dom (new_coins (GetHash H tx) n (IsCoinBase tx) (vout tx) 0)) = u |` (- spent_by tx)"
proof -
  have "u p = None" if "p \<in> dom (new_coins (GetHash H tx) n (IsCoinBase tx) (vout tx) 0)" for p
  proof -
    note np = new_coins_outside [OF that]
    have "\<forall>k < length (vout tx). u \<lparr>outhash = GetHash H tx, outn = of_nat k\<rparr> = None" using assms by (simp add: appliable_def)
    from this [rule_format, of "unat (outn p)"] np have "u \<lparr>outhash = outhash p, outn = outn p\<rparr> = None" by simp
    then show ?thesis by (cases p) simp
  qed
  then show ?thesis by (auto simp: fun_eq_iff tx_applied_def map_add_def restrict_map_def dom_def split: option.splits)
qed

lemma applied_outputs:
  assumes "k < length (vout tx)" "length (vout tx) \<le> 2 ^ 32" "\<not> IsUnspendable (scriptPubKey (vout tx ! k))"
  shows "\<exists>c. tx_applied H n tx u \<lparr>outhash = GetHash H tx, outn = of_nat k\<rparr> = Some c \<and> coinOut c = vout tx ! k"
proof -
  have "k < 2 ^ 32" using assms(1,2) by linarith
  then show ?thesis using assms u32_of_nat [of k] by (simp add: tx_applied_def map_add_def new_coins_def)
qed

lemma private_fees_Inr: "tx_checked tx \<Longrightarrow> \<exists>f. private_fees E tx fees = Inr f"
  using GetValueOut_iff [of tx] by (fastforce simp: private_fees_def tx_checked_def split: sum.split option.split)

context coins_view
begin

lemma undo_tx_restores:
  assumes s: "cache_ok usage vok utxo s" "usage [] = 0" and u: "cache_utxo utxo s = tx_applied (hashes E) n tx u" "utxo_wf u"
    and a: "appliable (hashes E) tx u" and w: "tx_checked tx" and d: "spends tx \<longrightarrow> ud = Some (undo_coins tx u)"
  shows "\<exists>fees' s'. undo_tx usage get E h tx ud clean fees s = Inr (Some (clean, fees', s')) \<and> cache_ok usage vok utxo s' \<and> cache_utxo utxo s' = u \<and>
    private_fees E tx fees = Inr fees'"
proof -
  let ?H = "hashes E" and ?N = "dom (new_coins (GetHash (hashes E) tx) n (IsCoinBase tx) (vout tx) 0)"
  have l: "0 + length (vout tx) \<le> 2 ^ 32" using a by (simp add: appliable_def)
  have "\<forall>k < length (vout tx). \<not> IsUnspendable (scriptPubKey (vout tx ! k)) \<longrightarrow>
      (\<exists>c. cache_utxo utxo s \<lparr>outhash = GetHash ?H tx, outn = of_nat (0 + k)\<rparr> = Some c \<and> coinOut c = vout tx ! k)"
    using applied_outputs [of _ tx ?H n u] l u(1) by simp
  from remove_outputs_removes [OF s l this, of clean n "IsCoinBase tx"] obtain s1 where
    s1: "remove_outputs_loop usage get (GetHash ?H tx) (vout tx) 0 clean s = (clean, s1)" "cache_ok usage vok utxo s1"
      "cache_utxo utxo s1 = u |` (- spent_by tx)" using new_coins_removed [OF a, of n] u(1) by auto
  obtain f where f: "private_fees E tx fees = Inr f" using private_fees_Inr [OF w] by blast
  show ?thesis
  proof (cases "spends tx")
    case True
    then have t: "distinct (map prevout (vin tx))" "\<forall>i\<in>set (vin tx). u (prevout i) \<noteq> None" "ud = Some (map (\<lambda>i. the (u (prevout i))) (vin tx))"
      "spent_by tx = set (map prevout (vin tx))" using a d by (simp_all add: appliable_def undo_coins_def spent_by_def)
    note m = undo_data_map_of [OF t(1,2)]
    let ?L = "rev (zip [0..<length (vin tx)] (zip (vin tx) (map (\<lambda>i. the (u (prevout i))) (vin tx))))"
    have "\<forall>(j, i, c)\<in>set ?L. cache_utxo utxo s1 (prevout i) = None \<and> coin_wf c"
      using m(3) u(2) s1(3) t(4) by (fastforce simp: utxo_wf_def restrict_map_def)
    from restore_inputs_restores [OF s1(2) m(2) this, of h "GetHash (hashes E) tx" clean] m(1) s1(3) t(4) obtain s2 where
      "restore_inputs_loop usage get h (GetHash ?H tx) ?L clean s1 = Inr (Some (clean, s2))" "cache_ok usage vok utxo s2" "cache_utxo utxo s2 = u" by auto
    with s1(1) f True t(3) show ?thesis by (simp add: undo_tx_def spends_def)
  next
    case False
    with s1 f show ?thesis by (auto simp: undo_tx_def spends_def spent_by_def restrict_map_def)
  qed
qed

lemma undo_txs_append:
  "undo_txs_loop usage get E h (xs @ ys) clean fees s =
    bindE (undo_txs_loop usage get E h xs clean fees s) (\<lambda>r. case r of None \<Rightarrow> Inr None | Some (clean, fees, s) \<Rightarrow> undo_txs_loop usage get E h ys clean fees s)"
proof (induction xs arbitrary: clean fees s)
  case (Cons x xs)
  obtain tx ud where x: "x = (tx, ud)" by (cases x)
  show ?case
    using Cons.IH by (cases "undo_tx usage get E h tx ud clean fees s") (auto simp: x split: option.split)
qed simp

lemma undo_txs_restores:
  assumes "cache_ok usage vok utxo s" "usage [] = 0" "cache_utxo utxo s = txs_applied (hashes E) n txs u" "utxo_wf u" "0 < n"
    and "txs_appliable (hashes E) n txs u" "\<forall>tx\<in>set txs. tx_checked tx"
  shows "\<exists>fees' s'. undo_txs_loop usage get E h (rev (zip txs (map Some (txs_undo (hashes E) n txs u)))) clean fees s = Inr (Some (clean, fees', s')) \<and>
    cache_ok usage vok utxo s' \<and> cache_utxo utxo s' = u \<and> ((\<forall>tx\<in>set txs. \<not> HasPrivateInputs tx) \<longrightarrow> fees' = fees)"
  using assms
proof (induction txs arbitrary: u)
  case (Cons tx txs)
  have w: "utxo_wf (tx_applied (hashes E) n tx u)" using utxo_wf_applied Cons.prems(4,5,7) by simp
  from Cons.IH [OF Cons.prems(1,2) _ w Cons.prems(5)] Cons.prems(3,6,7) obtain f1 s1 where
    1: "undo_txs_loop usage get E h (rev (zip txs (map Some (txs_undo (hashes E) n txs (tx_applied (hashes E) n tx u))))) clean fees s = Inr (Some (clean, f1, s1))"
      "cache_ok usage vok utxo s1" "cache_utxo utxo s1 = tx_applied (hashes E) n tx u" "(\<forall>tx\<in>set txs. \<not> HasPrivateInputs tx) \<longrightarrow> f1 = fees" by auto
  from undo_tx_restores [OF 1(2) Cons.prems(2) 1(3) Cons.prems(4), of "Some (undo_coins tx u)" h clean f1] Cons.prems(6,7) obtain f2 s2 where
    2: "undo_tx usage get E h tx (Some (undo_coins tx u)) clean f1 s1 = Inr (Some (clean, f2, s2))" "cache_ok usage vok utxo s2" "cache_utxo utxo s2 = u"
      "private_fees E tx f1 = Inr f2" by auto
  have "\<not> HasPrivateInputs tx \<longrightarrow> f2 = f1" using 2(4) by (auto simp: private_fees_def HasPrivateInputs_def)
  with 1(1,4) 2(1-3) show ?case by (auto simp: undo_txs_append)
qed simp

end

section \<open>Undoing a block\<close>

lemma txs_undo_length [simp]: "length (txs_undo H n txs u) = length txs"
  by (induction txs arbitrary: u) simp_all

lemma undo_tx_unspending: "\<not> spends tx \<Longrightarrow> undo_tx usage get E h tx ud clean fees s = undo_tx usage get E h tx ud' clean fees s"
  by (cases "remove_outputs_loop usage get (GetHash (hashes E) tx) (vout tx) 0 clean s") (auto simp: undo_tx_def spends_def)

context coins_view
begin

lemma undo_block_restores:
  assumes "cache_ok usage vok utxo s" "usage [] = 0" "cache_utxo utxo s = txs_applied (hashes E) n txs u" "utxo_wf u" "0 < n"
    and "txs_appliable (hashes E) n txs u" "\<forall>tx\<in>set txs. tx_checked tx" "txs \<noteq> []" "\<not> spends (txs ! 0)"
  shows "\<exists>fees' s'. undo_txs_loop usage get E h (rev (zip txs (None # map Some (tl (txs_undo (hashes E) n txs u))))) True 0 s = Inr (Some (True, fees', s')) \<and>
    cache_ok usage vok utxo s' \<and> cache_utxo utxo s' = u \<and> ((\<forall>tx\<in>set txs. \<not> HasPrivateInputs tx) \<longrightarrow> fees' = 0)"
proof -
  obtain tx rest where t: "txs = tx # rest" using assms(8) by (cases txs) auto
  let ?us = "map Some (txs_undo (hashes E) n rest (tx_applied (hashes E) n tx u))"
  have "undo_txs_loop usage get E h (rev (zip txs (None # map Some (tl (txs_undo (hashes E) n txs u))))) True 0 s =
      undo_txs_loop usage get E h (rev (zip txs (map Some (txs_undo (hashes E) n txs u)))) True 0 s"
    using undo_tx_unspending [of tx usage get E h None _ _ _ "Some (undo_coins tx u)"] assms(9)
    by (simp add: t undo_txs_append cong: option.case_cong)
  with undo_txs_restores [OF assms(1-7), of h True 0] show ?thesis by simp
qed

lemma DisconnectBlock_restores:
  assumes v: "cache_ok usage vok utxo view" "usage [] = 0"
    and r: "ConnectBlock usage get best E P wl av T chain pindex False block s view cache = Inr r"
    and c: "fChecked block \<longrightarrow> passed_checks E P (nHeight (blocks T pindex)) block" "\<not> is_genesis E P block"
    and h: "nHeight (blocks T pindex) \<noteq> INT_MAX" "nStartDuplicationCheck P < nHeight (blocks T pindex)"
      "isMain P \<and> nHeight (blocks T pindex) < 66550 \<longrightarrow> distinct (map (GetHash (hashes E)) (vtx block))" "0 < nHeight (blocks T pindex)"
    and w: "utxo_wf (cache_utxo utxo view)"
    and v2: "cache_ok usage vok utxo v2" "cache_utxo utxo v2 = cache_utxo utxo (outView r)" "cache_tip tip v2 = phashBlock (blocks T pindex)"
    and e: "UndoReadFromDisk E pindex = Some (outUndo r)" "UndoSpecialTxsInBlock E block pindex"
      "DIP0003Height P \<le> nHeight (blocks T pindex) \<longrightarrow> VerifyBestBlock E (phashBlock (blocks T pindex))" "pprev (blocks T pindex) = Some q"
  shows "\<exists>d v3. DisconnectBlock usage get best E P (blocks (outTree r)) pindex block v2 = Inr (DISCONNECT_OK, d, v3) \<and> cache_ok usage vok utxo v3 \<and>
    cache_utxo utxo v3 = cache_utxo utxo view \<and> hashBlock v3 = phashBlock (blocks T q) \<and> cache_tip tip view = phashBlock (blocks T q) \<and>
    ((\<forall>tx\<in>set (vtx block). \<not> HasPrivateInputs tx) \<and> fAddressIndex E \<longrightarrow> Some (- d) = GetValueOut (vtx block ! 0))"
proof -
  let ?n = "nat (nHeight (blocks T pindex))" and ?u = "cache_utxo utxo view"
  note k' = ConnectBlock_connects [OF v r c h(1,2)]
  have dis: "distinct (map (GetHash (hashes E)) (vtx block))" using h(3) k'(8) by blast
  then have fs: "firsts (hashes E) {} (vtx block) = vtx block" by (rule firsts_distinct) simp
  note k = k'(1,2,3) [unfolded fs] k'(4) [OF dis] k'(5) k'(6) [OF impI [OF distinct_no_collisions [OF dis]], unfolded fs] k'(7)
  obtain b s1 v0 where 0: "vtx b = vtx block" "GetBestBlock best view = (parent_hash (blocks T) pindex, v0)"
    "connect_txs usage get best E P wl av T chain pindex False b s1 v0 cache = Inr r"
    "vtx block \<noteq> []" "IsCoinBase (vtx block ! 0)" "\<not> list_ex IsCoinBase (tl (vtx block))" "\<forall>tx\<in>set (vtx block). tx_checked tx"
    by (rule ConnectBlock_steps [OF r c h(1,2)])
  obtain hash v3 where g: "GetBestBlock best v2 = (hash, v3)" by fastforce
  note g' = best_kept [OF v2(1) g]
  have "cache_utxo utxo v3 = txs_applied (hashes E) ?n (vtx block) ?u" "cache_ok usage vok utxo v3"
    using g' v2(2) k(3) by (simp_all add: kept_def)
  from undo_block_restores [OF this(2) v(2) this(1) w _ k(1) 0(7,4), of "nHeight (blocks T pindex)"] h(4) 0(5) obtain f v4 where
    u: "undo_txs_loop usage get E (nHeight (blocks T pindex)) (rev (zip (vtx block) (None # map Some (tl (txs_undo (hashes E) ?n (vtx block) ?u))))) True 0 v3 =
        Inr (Some (True, f, v4))" "cache_ok usage vok utxo v4" "cache_utxo utxo v4 = ?u" "(\<forall>tx\<in>set (vtx block). \<not> HasPrivateInputs tx) \<longrightarrow> f = 0"
    by (auto simp: spends_def)
  from k(6) obtain vo where vo: "GetValueOut (vtx block ! 0) = Some vo" by blast
  have o: "nStatus (blocks (outTree r) pindex) AND 16 \<noteq> 0" "nHeight (blocks (outTree r) pindex) = nHeight (blocks T pindex)"
    "phashBlock (blocks (outTree r) p) = phashBlock (blocks T p)" "pprev (blocks (outTree r) pindex) = Some q" for p
    using k(7) e(4) by simp_all
  have len: "length (outUndo r) + 1 = length (vtx block)" using 0(4) by (simp add: k(4))
  have "DisconnectBlock usage get best E P (blocks (outTree r)) pindex block v2 =
      Inr (DISCONNECT_OK, - (if fAddressIndex E then vo - f else 0), SetBestBlock (phashBlock (blocks T q)) v4)"
    using g g' v2(3) e(1-3) o len u(1) vo by (simp add: DisconnectBlock_def k(4) supply_change_def)
  moreover have "cache_tip tip view = phashBlock (blocks T q)" using k(5) e(4) by (simp add: parent_hash_def)
  ultimately show ?thesis using u(2-4) vo by (auto simp: SetBestBlock_def)
qed

end

section \<open>Properties\<close>

text \<open>What the private spends of a block release: their outputs and the fees they declare.\<close>

definition released :: "'e connect_env_scheme \<Rightarrow> CTransaction list \<Rightarrow> int" where
  "released E txs = (\<Sum>tx\<leftarrow>txs. private_fee E tx) + unspent_outputs (tl txs)"

lemma private_fee_none:
  "\<forall>tx\<in>set txs. \<not> Tx_IsSigmaSpend tx \<and> \<not> Tx_IsLelantusJoinSplit tx \<and> \<not> Tx_IsSparkSpend tx \<Longrightarrow> (\<Sum>tx\<leftarrow>txs. private_fee E tx) = 0"
  by (induction txs) (auto simp: private_fee_def)

lemma released_none:
  assumes "\<forall>tx\<in>set txs. \<not> HasNoRegularInputs tx" "\<not> list_ex IsCoinBase (tl txs)"
  shows "released E txs = 0"
proof -
  have "(\<Sum>tx\<leftarrow>txs. private_fee E tx) = 0" using assms(1) by (intro private_fee_none) (simp add: HasNoRegularInputs_def)
  moreover have "filter (\<lambda>tx. \<not> spends tx) (tl txs) = []"
    using assms by (cases txs) (auto simp: filter_empty_conv list_ex_iff spends_def)
  ultimately show ?thesis by (simp add: released_def unspent_outputs_def)
qed

lemma unspendable_nonneg: "\<forall>tx\<in>set txs. tx_checked tx \<Longrightarrow> 0 \<le> (\<Sum>tx\<leftarrow>txs. unspendable_value tx)"
  by (intro sum_list_nonneg) (auto simp: unspendable_value_def tx_checked_def intro!: sum_list_nonneg)

lemma unspent_outputs_firsts:
  assumes "\<forall>tx\<in>set txs. tx_checked tx"
  shows "unspent_outputs (firsts H S txs) \<le> unspent_outputs txs"
proof -
  have "0 \<le> (\<Sum>txo\<leftarrow>vout tx. nValue txo)" if "tx_checked tx" for tx using that by (auto simp: tx_checked_def intro!: sum_list_nonneg)
  with assms show ?thesis
  proof (induction txs arbitrary: S)
    case (Cons tx txs)
    from Cons.IH [OF _ Cons.prems(2)] Cons.prems(1) have "unspent_outputs (firsts H S txs) \<le> unspent_outputs txs" for S by simp
    from this [of S] this [of "insert (GetHash H tx) S"] Cons.prems(2) [of tx] Cons.prems(1) show ?case by (auto simp: unspent_outputs_def)
  qed simp
qed

text \<open>C1. No inflation: a block that is connected raises the value of all unspent outputs by at most the subsidy of its
  height and what its private spends release (their outputs and the fees they declare, those of a repeated spend as often as it is repeated);
  without private spends, by at most the subsidy. This is about a block other than the genesis block, at a height above that from which inputs are
  checked for duplicates (0 on all networks) and below 2147483647, over a consistent cache of the database. The block is either checked by
  \<open>ConnectBlock\<close> itself or was marked as checked when it passed \<open>CheckBlock\<close> for the same height. On the main network below height 66550,
  where repeated transactions are let through, transactions of the block with the same hash have to be the same apart from witnesses.\<close>

theorem connect_no_inflation:
  assumes "cache_ok script_usage db_ok db_utxo view"
    and "ConnectBlock script_usage DB_GetCoin DB_GetBestBlock E P whitelisted hashAssumeValid T chainActive pindex fJustCheck block s view cache = Inr r"
    and "fChecked block \<longrightarrow> passed_checks E P (nHeight (blocks T pindex)) block" "\<not> is_genesis E P block" "nHeight (blocks T pindex) \<noteq> INT_MAX"
      "nStartDuplicationCheck P < nHeight (blocks T pindex)" "isMain P \<and> nHeight (blocks T pindex) < 66550 \<longrightarrow> no_collisions (hashes E) (vtx block)"
  shows "total_value (cache_utxo db_utxo (outView r)) \<le>
      total_value (cache_utxo db_utxo view) + GetBlockSubsidy (nHeight (blocks T pindex)) P + released E (vtx block) \<and>
    ((\<forall>tx\<in>set (vtx block). \<not> HasNoRegularInputs tx) \<longrightarrow> released E (vtx block) = 0)"
proof -
  let ?txs = "vtx block" and ?first = "firsts (hashes E) {} (vtx block)"
  obtain b s1 v0 where 0: "vtx b = ?txs" "GetBestBlock DB_GetBestBlock view = (parent_hash (blocks T) pindex, v0)"
    "connect_txs script_usage DB_GetCoin DB_GetBestBlock E P whitelisted hashAssumeValid T chainActive pindex fJustCheck b s1 v0 cache = Inr r"
    "?txs \<noteq> []" "IsCoinBase (?txs ! 0)" "\<not> list_ex IsCoinBase (tl ?txs)" "\<forall>tx\<in>set ?txs. tx_checked tx"
    by (rule ConnectBlock_steps [OF assms(2-6)])
  from db.ConnectBlock_connects(6) [OF assms(1) script_usage_empty assms(2-7)] finite_db_utxo obtain fees vo where
    f: "GetValueOut (?txs ! 0) = Some vo" "vo \<le> (\<Sum>tx\<leftarrow>?txs. private_fee E tx) + fees + GetBlockSubsidy (nHeight (blocks T pindex)) P"
      "total_value (cache_utxo db_utxo (outView r)) + (\<Sum>tx\<leftarrow>?first. unspendable_value tx) + fees = total_value (cache_utxo db_utxo view) + unspent_outputs ?first"
    by blast
  have "unspent_outputs ?txs = vo + unspent_outputs (tl ?txs)"
    using 0(4,5) f(1) by (cases ?txs) (auto simp: unspent_outputs_def spends_def GetValueOut_iff)
  moreover have "0 \<le> (\<Sum>tx\<leftarrow>?first. unspendable_value tx)"
    by (rule unspendable_nonneg) (use 0(7) firsts_subset in blast)
  ultimately have "total_value (cache_utxo db_utxo (outView r)) \<le>
      total_value (cache_utxo db_utxo view) + GetBlockSubsidy (nHeight (blocks T pindex)) P + released E ?txs"
    using f(2,3) unspent_outputs_firsts [OF 0(7), of "hashes E" "{}"] by (simp add: released_def)
  moreover have "(\<forall>tx\<in>set ?txs. \<not> HasNoRegularInputs tx) \<longrightarrow> released E ?txs = 0" using released_none 0(6) by blast
  ultimately show ?thesis ..
qed

text \<open>C2. Disconnecting undoes connecting: if a block was connected to a consistent view whose coins are as blocks create them (unspent, spendable,
  of a height above 0), its undo data is read back as it was written, the special transactions are undone, and from the start of the masternode list on
  the evo database has the block as its best one, then disconnecting it from any view with the coins and the best block that the connection left succeeds
  and gives exactly the coins and the best block from before. The block is not the genesis block, is at a height below 2147483647 and above that from
  which inputs are checked for duplicates (0 on all networks), and was either checked by \<open>ConnectBlock\<close> itself or marked as checked when it passed
  \<open>CheckBlock\<close> for the same height. On the main network below height 66550, where the code lets repeated transactions through, the block has to be
  without them.\<close>

theorem connect_disconnect_restores:
  assumes "cache_ok script_usage db_ok db_utxo view" "utxo_wf (cache_utxo db_utxo view)"
    and "ConnectBlock script_usage DB_GetCoin DB_GetBestBlock E P whitelisted hashAssumeValid T chainActive pindex False block s view cache = Inr r"
    and "fChecked block \<longrightarrow> passed_checks E P (nHeight (blocks T pindex)) block" "\<not> is_genesis E P block" "nHeight (blocks T pindex) \<noteq> INT_MAX" "0 < nHeight (blocks T pindex)"
      "nStartDuplicationCheck P < nHeight (blocks T pindex)" "isMain P \<and> nHeight (blocks T pindex) < 66550 \<longrightarrow> distinct (map (GetHash (hashes E)) (vtx block))"
    and "cache_ok script_usage db_ok db_utxo v2" "cache_utxo db_utxo v2 = cache_utxo db_utxo (outView r)"
      "cache_tip db_tip v2 = phashBlock (blocks T pindex)"
    and "UndoReadFromDisk E pindex = Some (outUndo r)" "UndoSpecialTxsInBlock E block pindex"
      "DIP0003Height P \<le> nHeight (blocks T pindex) \<longrightarrow> VerifyBestBlock E (phashBlock (blocks T pindex))" "pprev (blocks T pindex) = Some q"
  shows "\<exists>d v3. DisconnectBlock script_usage DB_GetCoin DB_GetBestBlock E P (blocks (outTree r)) pindex block v2 = Inr (DISCONNECT_OK, d, v3) \<and>
    cache_ok script_usage db_ok db_utxo v3 \<and> cache_utxo db_utxo v3 = cache_utxo db_utxo view \<and>
    hashBlock v3 = phashBlock (blocks T q) \<and> cache_tip db_tip view = phashBlock (blocks T q)"
  using db.DisconnectBlock_restores [OF assms(1) script_usage_empty assms(3-6,8,9,7,2,10-16)] by blast

text \<open>The total supply that is kept with the address index drifts: connecting a block without private inputs adds its
  coinbase value less its fees, but disconnecting it takes away the whole coinbase value, so that the supply ends up lower
  by the fees of the block.\<close>

theorem total_supply_drifts:
  assumes "cache_ok script_usage db_ok db_utxo view" "utxo_wf (cache_utxo db_utxo view)"
    and "ConnectBlock script_usage DB_GetCoin DB_GetBestBlock E P whitelisted hashAssumeValid T chainActive pindex False block s view cache = Inr r"
    and "fChecked block \<longrightarrow> passed_checks E P (nHeight (blocks T pindex)) block" "\<not> is_genesis E P block" "nHeight (blocks T pindex) \<noteq> INT_MAX" "0 < nHeight (blocks T pindex)"
      "nStartDuplicationCheck P < nHeight (blocks T pindex)" "isMain P \<and> nHeight (blocks T pindex) < 66550 \<longrightarrow> distinct (map (GetHash (hashes E)) (vtx block))"
    and "cache_ok script_usage db_ok db_utxo v2" "cache_utxo db_utxo v2 = cache_utxo db_utxo (outView r)"
      "cache_tip db_tip v2 = phashBlock (blocks T pindex)"
    and "UndoReadFromDisk E pindex = Some (outUndo r)" "UndoSpecialTxsInBlock E block pindex"
      "DIP0003Height P \<le> nHeight (blocks T pindex) \<longrightarrow> VerifyBestBlock E (phashBlock (blocks T pindex))" "pprev (blocks T pindex) = Some q"
    and ord: "\<forall>tx\<in>set (vtx block). \<not> HasPrivateInputs tx" "fAddressIndex E"
  shows "\<exists>d v3. DisconnectBlock script_usage DB_GetCoin DB_GetBestBlock E P (blocks (outTree r)) pindex block v2 = Inr (DISCONNECT_OK, d, v3) \<and>
    addedSupply r + d = total_value (cache_utxo db_utxo (outView r)) + (\<Sum>tx\<leftarrow>vtx block. unspendable_value tx) -
      total_value (cache_utxo db_utxo view) - unspent_outputs (vtx block)"
proof -
  from db.DisconnectBlock_restores [OF assms(1) script_usage_empty assms(3-6,8,9,7,2,10-16)] ord obtain d v3 where
    d: "DisconnectBlock script_usage DB_GetCoin DB_GetBestBlock E P (blocks (outTree r)) pindex block v2 = Inr (DISCONNECT_OK, d, v3)"
      "Some (- d) = GetValueOut (vtx block ! 0)" by blast
  have dis: "distinct (map (GetHash (hashes E)) (vtx block))"
    using assms(9) db.ConnectBlock_connects(8) [OF assms(1) script_usage_empty assms(3-6,8)] by blast
  then have fs: "firsts (hashes E) {} (vtx block) = vtx block" by (rule firsts_distinct) simp
  from db.ConnectBlock_connects(6) [OF assms(1) script_usage_empty assms(3-6,8) impI [OF distinct_no_collisions [OF dis]], unfolded fs] finite_db_utxo ord(2) obtain fees vo where
    f: "GetValueOut (vtx block ! 0) = Some vo" "addedSupply r = vo - ((\<Sum>tx\<leftarrow>vtx block. private_fee E tx) + fees)"
      "total_value (cache_utxo db_utxo (outView r)) + (\<Sum>tx\<leftarrow>vtx block. unspendable_value tx) + fees = total_value (cache_utxo db_utxo view) + unspent_outputs (vtx block)"
    by blast
  have "(\<Sum>tx\<leftarrow>vtx block. private_fee E tx) = 0" using ord by (intro private_fee_none) (simp add: HasPrivateInputs_def)
  then show ?thesis using d f by (intro exI [of _ d] exI [of _ v3]) simp
qed

text \<open>Restoring an input over an unspent coin does not end as unclean: where the coin is there and the coin restored is not from a coinbase, the
  addition to the view throws, because the flag of the restored coin is passed where the code has to say whether it may overwrite.\<close>

theorem ApplyTxInUndo_throws:
  assumes "cache_ok script_usage db_ok db_utxo view" "cache_utxo db_utxo view out = Some c" "coin_wf undo" "\<not> fCoinBase undo"
  shows "ApplyTxInUndo script_usage DB_GetCoin undo out view = Inl OverwritesUnspent"
proof -
  obtain r v1 where f: "FetchCoin script_usage DB_GetCoin out view = (r, v1)" by fastforce
  note ff = db.fetch_found [OF assms(1) f]
  then obtain e where e: "r = Some e" "\<not> IsSpent (coin e)" using assms(2) by (cases r) (auto simp: shown_def split: if_splits)
  with ff have "map_of (cacheCoins v1) out = Some e" by simp
  with e f assms(3,4) show ?thesis by (simp add: ApplyTxInUndo_def HaveCoin_def AddCoin_def coin_wf_def Let_def)
qed

section \<open>A concrete block\<close>

text \<open>A block with a coinbase and a spend that pays a fee of one, on top of a view with one coin. The hash keeps the first 32 bytes.\<close>

definition first_hash :: hash_funs where
  "first_hash = \<lparr>RIPEMD160 = (\<lambda>_. replicate 20 0), SHA1 = (\<lambda>_. replicate 20 0), SHA256 = (\<lambda>x. take 32 (x @ replicate 32 0)), CheckLowS = (\<lambda>_. True)\<rparr>"

definition demo_coinbase :: CTransaction where
  "demo_coinbase = \<lparr>nVersion = 1, nType = 0,
     vin = [\<lparr>prevout = \<lparr>outhash = replicate 32 0, outn = 0xffffffff\<rparr>, scriptSig = [1, 1], nSequence = 0, prevPubKey = [], scriptWitness = []\<rparr>],
     vout = [\<lparr>nValue = 100, scriptPubKey = [OP_1], nRounds = - 10\<rparr>], nLockTime = 0, vExtraPayload = []\<rparr>"

definition demo_env :: connect_env where
  "demo_env = \<lparr>hashes = first_hash,
     progpow = \<lparr>progpow_hash = (\<lambda>_ _ _. (replicate 32 0, replicate 32 3)), hash_seed = (\<lambda>_ _. replicate 32 9), hash_final = (\<lambda>_ _. replicate 32 9)\<rparr>,
     stateless = demo_checks, CheckSigmaBlock = (\<lambda>_ s. Inr s), CheckLelantusBlock = (\<lambda>_ s. Inr s), CheckSparkBlock = (\<lambda>_ s. Inr s),
     stateful = demo_checks, verifySig = (\<lambda>_ _ _. False), joinSplitFee = (\<lambda>_. Inl True), sparkFee = (\<lambda>_. Inl True),
     GetSigmaSpendInput = (\<lambda>_. 0), denomination = (\<lambda>_. None), VerifyBestBlock = (\<lambda>_. True),
     IsBlockValueValid = (\<lambda>_ _ _. True), IsBlockPayeeValid = (\<lambda>_ _ _ _. True), ProcessSpecialTxsInBlock = (\<lambda>_ _ _ _ s. Inr s),
     UndoSpecialTxsInBlock = (\<lambda>_ _. True), instantSendFilter = (\<lambda>_. False), GetConflictingLock = (\<lambda>_. False), HasChainLock = (\<lambda>_ _. False),
     sporksConnected = (\<lambda>_ _ s. Inr s), ConnectBlockPrivate = (\<lambda>_ _ _ s. Inr s), IsBlockAllowed = (\<lambda>_ _ s. Inr s),
     UndoWriteToDisk = (\<lambda>_ _ s. Inr s), UndoReadFromDisk = (\<lambda>_. Some [[coin (locked_entry OP_1)]]), fAddressIndex = True\<rparr>"

definition demo_chain_params :: BlockParams where
  "demo_chain_params = TxParams.extend demo_params
     \<lparr>nSubsidyHalvingInterval = 420768, nDevelopmentFundPercent = 10, developmentOutputScriptHex = [], hashGenesisBlock = replicate 32 0,
      BIP65Height = 100, BIP66Height = 100, nStartSigmaBlacklist = 100, nRestartSigmaWithBlacklistCheck = 100, nMinimumChainWork = replicate 32 0,
      isMain = False, powParams = \<lparr>powLimit = replicate 32 255, fPowAllowMinDifficultyBlocks = False, fPowNoRetargeting = False, nPowTargetSpacing = 150, nPowTargetWindow = 3600\<rparr>,
      csvDeployment = \<lparr>bit_pos = 0, nStartTime = 1000, nTimeout = 2000\<rparr>, segwitDeployment = \<lparr>bit_pos = 1, nStartTime = 1000, nTimeout = 2000\<rparr>,
      nMinerConfirmationWindow = 1000, nRuleChangeActivationThreshold = 750\<rparr>"

definition demo_tree :: block_tree where
  "demo_tree = \<lparr>blocks = demo_store, mapBlockIndex = (\<lambda>h. if h = [1] then Some 1 else None), pindexBestHeader = Some 2, nextAddr = 3\<rparr>"

definition demo_block :: CBlock where
  "demo_block = CBlockHeader.extend (Header_SetNull\<lparr>hdrBits := 0x207fffff, hdrHeight := 2, hashMerkleRoot := GetHash first_hash demo_coinbase\<rparr>)
     \<lparr>vtx = [demo_coinbase, spend_tx], fChecked = False\<rparr>"

definition demo_view :: "CCoinsViewDB CCoinsViewCache" where
  "demo_view = (read_coins OP_1)\<lparr>hashBlock := [1]\<rparr>"

definition demo_checked :: CBlock where
  "demo_checked = demo_block\<lparr>mix_hash := replicate 32 3, fChecked := True\<rparr>"

lemma demo_header: "CheckBlockHeader demo_env demo_chain_params True (demo_block\<lparr>mix_hash := replicate 32 3\<rparr>) s = (Inr s, demo_block\<lparr>mix_hash := replicate 32 3\<rparr>)"
proof -
  have "GetHashFull (progpow demo_env) (hashes demo_env) (demo_block\<lparr>mix_hash := replicate 32 3\<rparr>) = (replicate 32 0, demo_block\<lparr>mix_hash := replicate 32 3\<rparr>)"
    by code_simp
  moreover have "hdrBits (demo_block\<lparr>mix_hash := replicate 32 3\<rparr>) = 0x207fffff" by code_simp
  moreover have "CheckProofOfWork (replicate 32 0) 0x207fffff (powParams demo_chain_params)" by code_simp
  ultimately show ?thesis by (simp add: CheckBlockHeader_def fail_if_def)
qed

abbreviation (input) demo_mixed :: CBlock where "demo_mixed \<equiv> demo_block\<lparr>mix_hash := replicate 32 3\<rparr>"

lemma demo_merkle: "check_merkle (hashes demo_env) demo_mixed s = Inr s"
proof -
  have "Hash2 first_hash (GetHash first_hash demo_coinbase) (GetHash first_hash spend_tx) = GetHash first_hash demo_coinbase"
    "GetHash first_hash demo_coinbase \<noteq> GetHash first_hash spend_tx" "vtx demo_mixed = [demo_coinbase, spend_tx]" by code_simp+
  moreover have h: "hashes demo_env = first_hash" by (simp add: demo_env_def)
  ultimately have "BlockMerkleRoot (hashes demo_env) demo_mixed = (GetHash first_hash demo_coinbase, False)"
    by (simp add: BlockMerkleRoot_def root_two)
  moreover have "hashMerkleRoot demo_mixed = GetHash first_hash demo_coinbase" by code_simp
  ultimately show ?thesis by (simp add: check_merkle_def)
qed

lemma demo_coinbase_ordinary: "ordinary demo_coinbase" "IsCoinBase demo_coinbase" "length (SerializeTransaction False demo_coinbase) = 63"
  by code_simp+

lemma demo_coinbase_accepted: "CheckTransaction demo_params demo_checks [] demo_coinbase False False 2 s = Inr s"
  unfolding CheckTransaction_iff [OF demo_coinbase_ordinary(1)] demo_coinbase_ordinary(3)
  using demo_coinbase_ordinary(2)
  by (simp add: demo_coinbase_def demo_params_def starts_exchange_def)

lemma demo_spend_accepted: "CheckTransaction demo_params demo_checks [] spend_tx False False 2 s = Inr s"
  unfolding CheckTransaction_iff [OF demo_ordinary] demo_size
  using demo_spends by (simp add: spends_def spend_tx_def demo_input_def demo_params_def starts_exchange_def OutPoint_IsNull_def IsNull256_def)

lemma demo_sigops: "GetLegacySigOpCount demo_coinbase = 0" "GetLegacySigOpCount spend_tx = 0"
proof -
  have "GetSigOpCount [] False = 0" "GetSigOpCount [1, 1] False = 0" "GetSigOpCount [OP_1] False = 0"
    by (simp_all add: GetSigOpCount_def sigop_loop.simps GetOp2_def push_size_def swallows_rest_def)
  then show "GetLegacySigOpCount demo_coinbase = 0" "GetLegacySigOpCount spend_tx = 0"
    by (simp_all add: GetLegacySigOpCount_def demo_coinbase_def spend_tx_def demo_input_def)
qed

lemma demo_body: "check_body demo_env demo_chain_params demo_tree [] True False 2 demo_mixed s = Inr s"
proof -
  have p: "TxParams.truncate demo_chain_params = demo_params" by code_simp
  have v: "vtx demo_mixed = [demo_coinbase, spend_tx]" "stateless demo_env = demo_checks" by (simp_all add: demo_block_def CBlockHeader.defs Header_SetNull_def demo_env_def)
  have n: "nStartSigmaBlacklist demo_chain_params = 100" by code_simp
  have l: "length (ser_CBlock demo_mixed) = 120 + 1 + 63 + 61" by code_simp
  have c: "IsCoinBase demo_coinbase" "\<not> IsCoinBase spend_tx" by code_simp+
  note g = demo_sigops
  have t: "check_txs_loop demo_env demo_chain_params [] False 2 [demo_coinbase, spend_tx] s = Inr s"
    by (simp add: p v(2) n fail_if_def demo_coinbase_accepted demo_spend_accepted on_reject_def)
  show ?thesis by (simp add: check_body_def demo_merkle v l c g t fail_if_def del: check_txs_loop.simps)
qed

lemma demo_CheckBlock: "CheckBlock demo_env demo_chain_params demo_tree [] True True 2 False demo_mixed s = (Inr s, demo_checked)"
proof -
  have "Header_GetHash (progpow demo_env) (hashes demo_env) demo_mixed = Some (replicate 32 9)" by code_simp
  moreover have e: "CheckSigmaBlock demo_env b s = Inr s" "CheckLelantusBlock demo_env b s = Inr s" "CheckSparkBlock demo_env b s = Inr s" for b
    by (simp_all add: demo_env_def)
  moreover have "\<not> fChecked demo_mixed" by code_simp
  moreover have "CheckBlockHeader demo_env demo_chain_params True demo_mixed s = (Inr s, demo_mixed)"
    by (rule demo_header)
  ultimately show ?thesis using demo_body [of s] by (simp add: CheckBlock_def Let_def demo_checked_def e)
qed


lemma demo_bip30: "bip30_loop script_usage DB_GetCoin first_hash [demo_coinbase, spend_tx] s demo_view = Inr demo_view"
  by code_simp

lemma demo_deployment: "deployment_active demo_chain_params demo_store (csvDeployment demo_chain_params) (Some 1) Map.empty = Inr (False, [None \<mapsto> THRESHOLD_DEFINED])"
  by (simp add: deployment_active_def VersionBitsState_def GetStateFor_def period_parent_def GetAncestor_def demo_store_def demo_chain_params_def TxParams.defs
    VersionBitsConditionChecker_def new_block_index_def walk_back.simps)

definition cb_view :: "CCoinsViewDB CCoinsViewCache" where
  "cb_view = (case UpdateCoins script_usage DB_GetCoin first_hash demo_coinbase demo_view 2 of Inr (_, v) \<Rightarrow> v | Inl _ \<Rightarrow> demo_view)"

definition spend_view :: "CCoinsViewDB CCoinsViewCache" where
  "spend_view = (case UpdateCoins script_usage DB_GetCoin first_hash spend_tx cb_view 2 of Inr (_, v) \<Rightarrow> v | Inl _ \<Rightarrow> demo_view)"

lemma demo_coinbase_coins: "UpdateCoins script_usage DB_GetCoin first_hash demo_coinbase demo_view 2 = Inr ([], cb_view)"
  by code_simp

lemma demo_spend_coins: "UpdateCoins script_usage DB_GetCoin first_hash spend_tx cb_view 2 = Inr ([coin (locked_entry OP_1)], spend_view)"
  by code_simp

lemma demo_reads:
  "HaveInputs script_usage DB_GetCoin spend_tx cb_view = (True, cb_view)"
  "prev_heights script_usage DB_GetCoin (vin spend_tx) cb_view = ([7], cb_view)"
  "GetValueIn script_usage DB_GetCoin spend_tx cb_view = (5, cb_view)"
  "GetSpendHeight DB_GetBestBlock demo_tree cb_view = Inr (2, cb_view)"
  "CheckTxInputs script_usage DB_GetCoin (joinSplitFee demo_env) spend_tx new_state cb_view 2 = Inr (1, new_state, cb_view)"
  by code_simp+

lemma demo_sequence: "SequenceLocks demo_store 2 spend_tx 0 [7] = Inr True"
  by code_simp

lemma demo_kinds:
  "IsCoinBase demo_coinbase" "\<not> is_private demo_coinbase" "\<not> is_private spend_tx"
  "GetHash first_hash spend_tx \<noteq> GetHash first_hash demo_coinbase" "GetValueOut spend_tx = Some 4" "GetValueOut demo_coinbase = Some 100"
  by code_simp+

lemma demo_cost:
  "GetTransactionSigOpCost script_usage DB_GetCoin demo_coinbase v 0 = Inr (0, v)"
  "GetTransactionSigOpCost script_usage DB_GetCoin spend_tx cb_view 0 = Inr (0, cb_view)"
proof -
  have "AccessCoin script_usage DB_GetCoin (prevout demo_input) cb_view = (coin (locked_entry OP_1), cb_view)" by code_simp
  then have "witness_sigops_loop script_usage DB_GetCoin 0 (vin spend_tx) 0 cb_view = Inr (0, cb_view)"
    by (simp add: demo_vin(1) CountWitnessSigOps_def has_flag_def)
  then show "GetTransactionSigOpCost script_usage DB_GetCoin demo_coinbase v 0 = Inr (0, v)"
    "GetTransactionSigOpCost script_usage DB_GetCoin spend_tx cb_view 0 = Inr (0, cb_view)"
    using demo_kinds(1) demo_spends by (simp_all add: GetTransactionSigOpCost_def demo_sigops spends_def has_flag_def)
qed

lemma demo_fields: "hashes demo_env = first_hash" "isMain demo_chain_params = False" "blocks demo_tree = demo_store" "nHeight (demo_store 2) = 2"
  "DIP0003Height demo_chain_params = 0" "hashGenesisBlock demo_chain_params = replicate 32 0" 
  "mapBlockIndex demo_tree = (\<lambda>h. if h = [1] then Some 1 else None)"
  by (simp_all add: demo_env_def demo_chain_params_def TxParams.defs demo_tree_def demo_store_def demo_params_def)

lemma demo_connect_coinbase:
  "connect_tx script_usage DB_GetCoin DB_GetBestBlock demo_env demo_chain_params {GetHash first_hash spend_tx} demo_tree [] 2 b 0 0 True demo_coinbase
     \<lparr>cView = demo_view, cState = new_state, nFees = 0, nSigOpsCost = 0, txIds = {}, vtxundo = []\<rparr> =
   Inr \<lparr>cView = cb_view, cState = new_state, nFees = 0, nSigOpsCost = 0, txIds = {GetHash first_hash demo_coinbase}, vtxundo = []\<rparr>"
  using demo_kinds(1,2)
  by (simp add: connect_tx_def Let_def demo_fields fail_if_def connect_inputs_def connect_private_def demo_cost connect_spend_def is_private_def
      IsSparkTransaction_def demo_coinbase_coins)

lemma demo_connect_spend:
  "connect_tx script_usage DB_GetCoin DB_GetBestBlock demo_env demo_chain_params {GetHash first_hash spend_tx} demo_tree [] 2 b 0 0 False spend_tx
     \<lparr>cView = cb_view, cState = new_state, nFees = 0, nSigOpsCost = 0, txIds = {GetHash first_hash demo_coinbase}, vtxundo = []\<rparr> =
   Inr \<lparr>cView = spend_view, cState = new_state, nFees = 1, nSigOpsCost = 0, txIds = {GetHash first_hash spend_tx, GetHash first_hash demo_coinbase},
        vtxundo = [[coin (locked_entry OP_1)]]\<rparr>"
  using demo_kinds(3,4,5) demo_spends
  by (simp add: connect_tx_def Let_def demo_fields fail_if_def connect_inputs_def connect_private_def demo_cost connect_spend_def is_private_def
      IsSparkTransaction_def demo_spend_coins demo_reads demo_sequence spends_def CheckInputs_def)

definition demo_after :: block_tree where
  "demo_after = demo_tree\<lparr>blocks := demo_store(2 := (demo_store 2)\<lparr>nStatus := 21\<rparr>)\<rparr>"

lemma demo_undo: "write_undo demo_env 2 u s demo_tree = Inr (s, demo_after)"
  by (simp add: write_undo_def IsValid_def RaiseValidity_def demo_fields demo_store_def new_block_index_def demo_env_def demo_after_def)


definition demo_result :: "CCoinsViewDB connected" where
  "demo_result = \<lparr>outView = SetBestBlock [2] spend_view, outState = new_state, outTree = demo_after, outUndo = [[coin (locked_entry OP_1)]],
     addedSupply = 99, outCache = [None \<mapsto> THRESHOLD_DEFINED]\<rparr>"

lemma demo_connect_txs:
  "connect_txs script_usage DB_GetCoin DB_GetBestBlock demo_env demo_chain_params {GetHash first_hash spend_tx} (replicate 32 0) demo_tree [] 2 False
     demo_checked new_state demo_view Map.empty = Inr demo_result"
proof -
  have v: "vtx demo_checked = [demo_coinbase, spend_tx]" "script_flags demo_chain_params (demo_store 2) False = 0" by code_simp+
  have p: "pprev (demo_store 2) = Some 1" "phashBlock (blocks demo_after 2) = [2]" by (simp_all add: demo_store_def demo_after_def new_block_index_def)
  have z: "IsNull256 (replicate 32 0)" by code_simp
  have n: "script_checks_wanted demo_chain_params (replicate 32 0) demo_tree 2 = Inr True"
    using z by (simp add: script_checks_wanted_def)
  have s: "GetBlockSubsidy 2 demo_chain_params = 10000000000" by code_simp
  have r: "connect_rest demo_env demo_chain_params demo_tree 2 False True demo_checked 1 new_state = Inr new_state"
    by (simp add: connect_rest_def demo_fields v demo_kinds s Let_def fail_if_def) (simp add: demo_env_def)
  have c: "supply_change demo_env demo_coinbase 1 = Inr 99" by (simp add: supply_change_def demo_kinds) (simp add: demo_env_def)
  show ?thesis
    by (simp add: connect_txs_def v n demo_fields demo_bip30 p demo_deployment demo_connect_coinbase demo_connect_spend r demo_undo demo_kinds c demo_result_def
        del: bip30_loop.simps One_nat_def)
qed

lemma demo_connects:
  "ConnectBlock script_usage DB_GetCoin DB_GetBestBlock demo_env demo_chain_params {GetHash first_hash spend_tx} (replicate 32 0) demo_tree [] 2 False
     demo_block new_state demo_view Map.empty = Inr demo_result"
proof -
  have m: "snd (GetHashFull (progpow demo_env) (hashes demo_env) demo_block) = demo_mixed" by code_simp
  have f: "progpow_hash_full (progpow demo_env) (hashes demo_env) demo_checked = (replicate 32 0, replicate 32 3)"
    "mix_hash demo_checked = replicate 32 3" "hdrBits demo_checked = 0x207fffff" "hdrHeight demo_checked = 2"
    "Header_GetHash (progpow demo_env) (hashes demo_env) demo_checked = Some (replicate 32 9)"
    "GetBestBlock DB_GetBestBlock demo_view = ([1], demo_view)" by code_simp+
  have w: "CheckProofOfWork (replicate 32 0) 0x207fffff (powParams demo_chain_params)" by code_simp
  have c: "check_progpow demo_env demo_chain_params demo_checked new_state = Inr new_state"
    by (simp add: check_progpow_def f w fail_if_def)
  have p: "pprev (demo_store 2) = Some 1" "phashBlock (demo_store 1) = [1]" "VerifyBestBlock demo_env [1]"
    by (simp_all add: demo_store_def new_block_index_def demo_env_def)
  have g: "replicate 32 9 \<noteq> (replicate 32 0 :: bytes)" by code_simp
  show ?thesis
    by (simp add: ConnectBlock_def m demo_fields(2-) demo_CheckBlock c f p g demo_connect_txs Let_def del: One_nat_def)
qed


lemma demo_view_ok: "cache_ok script_usage db_ok db_utxo demo_view"
proof -
  obtain r v where "FetchCoin script_usage DB_GetCoin (prevout demo_input) (locked_coins OP_1) = (r, v)" by fastforce
  with db.fetch_found [OF demo_db this] show ?thesis by (simp add: demo_fetch demo_view_def cache_ok_def)
qed

lemma demo_utxo: "cache_utxo db_utxo demo_view = [prevout demo_input \<mapsto> coin (locked_entry OP_1)]"
  by (simp add: fun_eq_iff demo_view_def read_coins_def locked_coins_def new_cache_def cache_utxo_def db_utxo_def demo_vin(2) locked_entry_def IsSpent_def TxOut_IsNull_def)

lemma demo_plain: "\<not> fChecked demo_block" "\<not> is_genesis demo_env demo_chain_params demo_block" "nHeight (blocks demo_tree 2) \<noteq> INT_MAX"
  "nStartDuplicationCheck demo_chain_params < nHeight (blocks demo_tree 2)" "\<not> isMain demo_chain_params"
  by code_simp+

lemma demo_hyps: "fChecked demo_block \<longrightarrow> passed_checks demo_env demo_chain_params (nHeight (blocks demo_tree 2)) demo_block"
  "\<not> is_genesis demo_env demo_chain_params demo_block" "nHeight (blocks demo_tree 2) \<noteq> INT_MAX"
  "nStartDuplicationCheck demo_chain_params < nHeight (blocks demo_tree 2)" "isMain demo_chain_params \<and> nHeight (blocks demo_tree 2) < 66550 \<longrightarrow> Q"
  using demo_plain by simp_all

theorem connect_no_inflation_witness:
  "total_value (cache_utxo db_utxo demo_view) = 5 \<and> total_value (cache_utxo db_utxo (outView demo_result)) \<le> 5 + 10000000000"
proof -
  have t: "total_value (cache_utxo db_utxo demo_view) = 5" by (simp add: demo_utxo total_value_def locked_entry_def)
  have v: "\<forall>tx\<in>set (vtx demo_block). \<not> HasNoRegularInputs tx" "GetBlockSubsidy (nHeight (blocks demo_tree 2)) demo_chain_params = 10000000000" by code_simp+
  show ?thesis using connect_no_inflation [OF demo_view_ok demo_connects demo_hyps] t v by simp
qed


lemma demo_wf: "utxo_wf (cache_utxo db_utxo demo_view)"
  by (simp add: demo_utxo utxo_wf_def coin_wf_def locked_entry_def IsUnspendable_def IsSpent_def TxOut_IsNull_def)

lemma demo_left: "cache_ok script_usage db_ok db_utxo (outView demo_result)" "cache_tip db_tip (outView demo_result) = phashBlock (blocks demo_tree 2)"
  using db.ConnectBlock_connects(2) [OF demo_view_ok script_usage_empty demo_connects demo_hyps(1-4)]
  by (simp_all add: demo_result_def SetBestBlock_def cache_tip_def IsNull256_def demo_tree_def demo_store_def new_block_index_def)

lemma demo_databases: "UndoReadFromDisk demo_env 2 = Some (outUndo demo_result)" "UndoSpecialTxsInBlock demo_env demo_block 2"
  "DIP0003Height demo_chain_params \<le> nHeight (blocks demo_tree 2) \<longrightarrow> VerifyBestBlock demo_env (phashBlock (blocks demo_tree 2))"
  "pprev (blocks demo_tree 2) = Some 1" "0 < nHeight (blocks demo_tree 2)"
  by (simp_all add: demo_env_def demo_result_def demo_tree_def demo_store_def new_block_index_def)

theorem connect_disconnect_restores_witness:
  "\<exists>d v3. DisconnectBlock script_usage DB_GetCoin DB_GetBestBlock demo_env demo_chain_params (blocks demo_after) 2 demo_block (outView demo_result) =
     Inr (DISCONNECT_OK, d, v3) \<and> cache_utxo db_utxo v3 = [prevout demo_input \<mapsto> coin (locked_entry OP_1)] \<and> hashBlock v3 = [1]"
proof -
  have t: "outTree demo_result = demo_after" "phashBlock (blocks demo_tree 1) = [1]"
    by (simp_all add: demo_result_def demo_tree_def demo_store_def new_block_index_def)
  from connect_disconnect_restores [OF demo_view_ok demo_wf demo_connects demo_hyps(1-3) demo_databases(5) demo_hyps(4,5) demo_left(1) refl demo_left(2)
      demo_databases(1-4)]
  show ?thesis unfolding t demo_utxo by blast
qed

theorem total_supply_drifts_witness:
  "\<exists>d v3. DisconnectBlock script_usage DB_GetCoin DB_GetBestBlock demo_env demo_chain_params (blocks demo_after) 2 demo_block (outView demo_result) =
     Inr (DISCONNECT_OK, d, v3) \<and> addedSupply demo_result = 99 \<and> d = - 100"
proof -
  have t: "outTree demo_result = demo_after" "addedSupply demo_result = 99" by (simp_all add: demo_result_def)
  have o: "\<forall>tx\<in>set (vtx demo_block). \<not> HasPrivateInputs tx" by code_simp
  have v: "vtx demo_block = [demo_coinbase, spend_tx]" by code_simp
  have u: "(\<Sum>tx\<leftarrow>vtx demo_block. unspendable_value tx) = 0" "unspent_outputs (vtx demo_block) = 100"
    using demo_kinds(1) demo_spends unfolding v
    by (simp_all add: unspendable_value_def unspent_outputs_def spends_def) (simp_all add: demo_coinbase_def spend_tx_def IsUnspendable_def)
  have w: "total_value (cache_utxo db_utxo demo_view) = 5" by (simp add: demo_utxo total_value_def locked_entry_def)
  have f: "(\<Sum>tx\<leftarrow>vtx demo_block. private_fee demo_env tx) = 0" using o by (intro private_fee_none) (simp add: HasPrivateInputs_def)
  have a: "fAddressIndex demo_env" by (simp add: demo_env_def)
  have d: "distinct (map (GetHash (hashes demo_env)) (vtx demo_block))"
    by (rule db.ConnectBlock_connects(8) [OF demo_view_ok script_usage_empty demo_connects demo_hyps(1-4)]) (use demo_plain(5) in simp)
  have fs: "firsts (hashes demo_env) {} (vtx demo_block) = vtx demo_block" by (rule firsts_distinct [OF d]) simp
  have x: "total_value (cache_utxo db_utxo (outView demo_result)) = 104"
    using db.ConnectBlock_connects(6) [OF demo_view_ok script_usage_empty demo_connects demo_hyps] finite_db_utxo demo_kinds(6) u w f a
    unfolding fs by (auto simp: demo_result_def v)
  from total_supply_drifts [OF demo_view_ok demo_wf demo_connects demo_hyps(1-3) demo_databases(5) demo_hyps(4,5) demo_left(1) refl demo_left(2)
      demo_databases(1-4) o a]
  show ?thesis unfolding t u w x by auto
qed


theorem ApplyTxInUndo_throws_witness:
  "cache_utxo db_utxo demo_view (prevout demo_input) = Some (coin (locked_entry OP_1)) \<and>
   ApplyTxInUndo script_usage DB_GetCoin (coin (locked_entry OP_1)) (prevout demo_input) demo_view = Inl OverwritesUnspent"
proof -
  have w: "coin_wf (coin (locked_entry OP_1))" "\<not> fCoinBase (coin (locked_entry OP_1))"
    by (simp_all add: coin_wf_def locked_entry_def IsUnspendable_def IsSpent_def TxOut_IsNull_def)
  have u: "cache_utxo db_utxo demo_view (prevout demo_input) = Some (coin (locked_entry OP_1))" by (simp add: demo_utxo)
  show ?thesis using ApplyTxInUndo_throws [OF demo_view_ok u w] u by simp
qed

end
