(* ===== verification/MerkleProps.thy ===== *)
theory MerkleProps
  imports Merkle InterpreterProps
begin

text \<open>
  The iterative computation of roots and branches agrees with the recursive definition over levels and positions,
  a branch leads from its leaf to the root, and a root without repeated subtrees commits to the list of leaves.
\<close>

section \<open>Nodes\<close>

lemma less_width: "k < (n + 2 ^ l - 1) div 2 ^ l \<longleftrightarrow> k * 2 ^ l < (n :: nat)"
proof -
  have "k < (n + 2 ^ l - 1) div 2 ^ l \<longleftrightarrow> Suc k * 2 ^ l \<le> n + 2 ^ l - 1"
    by (simp add: less_eq_div_iff_mult_less_eq flip: Suc_le_eq)
  also have "\<dots> \<longleftrightarrow> k * 2 ^ l < n" by (simp add: le_diff_conv2 trans_le_add2) linarith
  finally show ?thesis .
qed

lemma CalcTreeWidth_nat:
  assumes "n \<le> 2 ^ 31" "l < 32"
  shows "CalcTreeWidth (of_nat n) l = (n + 2 ^ l - 1) div 2 ^ l"
proof -
  have p: "(2 :: nat) ^ l \<le> 2 ^ 31" using assms(2) by (intro power_increasing) simp_all
  have "(of_nat (n + 2 ^ l - 1) :: u32) = of_nat (n + 2 ^ l) - of_nat 1"
    by (rule of_nat_diff) (simp add: trans_le_add2)
  then have "(of_nat n + push_bit l 1 - 1 :: u32) = of_nat (n + 2 ^ l - 1)" by (simp add: push_bit_eq_mult)
  moreover have "unat (of_nat (n + 2 ^ l - 1) :: u32) = n + 2 ^ l - 1"
    using assms p by (simp add: unsigned_of_nat take_bit_nat_eq_self)
  ultimately show ?thesis unfolding CalcTreeWidth_def unat_drop_bit_eq by (simp only: drop_bit_eq_div)
qed

lemma height_loop_least:
  assumes "n \<le> 2 ^ 31" "n \<le> 2 ^ k" "k \<le> 31" "k = 0 \<or> 2 ^ (k - 1) < n"
  shows "height_loop (of_nat n) 0 = k"
proof -
  have w: "CalcTreeWidth (of_nat n) j > 1 \<longleftrightarrow> 2 ^ j < n" if "j < 32" for j
    using less_width [of 1 n j] CalcTreeWidth_nat [OF assms(1) that] by simp
  have "height_loop (of_nat n) (k - i) = k" if "i \<le> k" for i
    using that
  proof (induction i)
    case 0
    show ?case using w [of k] assms(2,3) by (subst height_loop.simps) simp
  next
    case (Suc i)
    have "(2 :: nat) ^ (k - Suc i) \<le> 2 ^ (k - 1)" by (intro power_increasing) simp_all
    also have "\<dots> < n" using assms(4) Suc.prems by auto
    finally have "CalcTreeWidth (of_nat n) (k - Suc i) > 1" using w [of "k - Suc i"] assms(3) by simp
    then have "height_loop (of_nat n) (k - Suc i) = height_loop (of_nat n) (k - i)"
      using Suc.prems by (subst height_loop.simps) (simp add: Suc_diff_Suc)
    then show ?case using Suc by simp
  qed
  from this [of k] show ?thesis by simp
qed


lemma height_loop_ok:
  assumes "n \<le> 2 ^ 31"
  shows "height_loop (of_nat n) 0 \<le> 31" "n \<le> 2 ^ height_loop (of_nat n) 0"
proof -
  define k where "k = (LEAST k. n \<le> 2 ^ k)"
  have k: "n \<le> 2 ^ k" "k \<le> 31"
    using LeastI [of "\<lambda>k. n \<le> 2 ^ k" 31] Least_le [of "\<lambda>k. n \<le> 2 ^ k" 31] assms by (simp_all only: k_def)
  have "k = 0 \<or> 2 ^ (k - 1) < n" using not_less_Least [of "k - 1" "\<lambda>k. n \<le> 2 ^ k"] by (cases k) (auto simp: k_def [symmetric] not_le)
  from height_loop_least [OF assms k this] k show "height_loop (of_nat n) 0 \<le> 31" "n \<le> 2 ^ height_loop (of_nat n) 0" by simp_all
qed

lemma height_loop_below:
  assumes "n \<le> 2 ^ 31" "l < height_loop (of_nat n) 0"
  shows "2 ^ l < n"
proof (rule ccontr)
  assume "\<not> 2 ^ l < n"
  define k where "k = (LEAST k. n \<le> 2 ^ k)"
  have k: "n \<le> 2 ^ k" "k \<le> l"
    using LeastI [of "\<lambda>k. n \<le> 2 ^ k" l] Least_le [of "\<lambda>k. n \<le> 2 ^ k" l] \<open>\<not> 2 ^ l < n\<close> by (simp_all only: k_def not_less)
  have "k = 0 \<or> 2 ^ (k - 1) < n" using not_less_Least [of "k - 1" "\<lambda>k. n \<le> 2 ^ k"] by (cases k) (auto simp: k_def [symmetric] not_le)
  moreover have "k \<le> 31" using k(2) assms(2) height_loop_ok(1) [OF assms(1)] by simp
  ultimately have "height_loop (of_nat n) 0 = k" using height_loop_least [OF assms(1) k(1)] by simp
  then show False using k(2) assms(2) by simp
qed

text \<open>A node of the tree over a list of leaves, and the conditions under which it has two children.\<close>

abbreviation node :: "hash_funs \<Rightarrow> uint256 list \<Rightarrow> nat \<Rightarrow> nat \<Rightarrow> uint256" where
  "node H leaves l p \<equiv> CalcHash H (of_nat (length leaves)) l p leaves"

lemma node_pair:
  assumes "length leaves \<le> 2 ^ 31" "l < 32" "(2 * p + 1) * 2 ^ l < length leaves"
  shows "node H leaves (Suc l) p = Hash2 H (node H leaves l (2 * p)) (node H leaves l (2 * p + 1))"
  using CalcTreeWidth_nat [OF assms(1,2)] less_width [of "2 * p + 1" "length leaves" l] assms(3) by (simp add: CalcHash.simps(2) mult.commute [of p 2] Let_def)

lemma node_single:
  assumes "length leaves \<le> 2 ^ 31" "l < 32" "length leaves \<le> (2 * p + 1) * 2 ^ l"
  shows "node H leaves (Suc l) p = Hash2 H (node H leaves l (2 * p)) (node H leaves l (2 * p))"
  using CalcTreeWidth_nat [OF assms(1,2)] less_width [of "2 * p + 1" "length leaves" l] assms(3) by (simp add: CalcHash.simps(2) mult.commute [of p 2] Let_def)

declare CalcHash.simps(2) [simp del]

section \<open>The root\<close>

text \<open>After \<open>c\<close> leaves, the entries of the set bits of \<open>c\<close> are the roots of the complete subtrees that end there.\<close>

definition inner_ok :: "hash_funs \<Rightarrow> uint256 list \<Rightarrow> nat \<Rightarrow> uint256 list \<Rightarrow> bool" where
  "inner_ok H leaves c inner \<longleftrightarrow> length inner = 32 \<and> (\<forall>l < 32. bit c l \<longrightarrow> inner ! l = node H leaves l (c div 2 ^ l - 1))"

text \<open>Two complete neighbours among the first \<open>c\<close> leaves are equal.\<close>

definition twins :: "hash_funs \<Rightarrow> uint256 list \<Rightarrow> nat \<Rightarrow> bool" where
  "twins H leaves c \<longleftrightarrow> (\<exists>l q. (2 * q + 2) * 2 ^ l \<le> c \<and> node H leaves l (2 * q) = node H leaves l (2 * q + 1))"

lemma pred_div_pow: "0 < k \<Longrightarrow> (k * 2 ^ l - 1) div 2 ^ l = k - 1"
  for k l :: nat
proof -
  assume "0 < k"
  then obtain j where k: "k = Suc j" by (cases k) auto
  have "(k * 2 ^ l - 1) div 2 ^ l = (2 ^ l - 1 + j * 2 ^ l) div 2 ^ l" by (simp add: k)
  also have "\<dots> = j + (2 ^ l - 1) div 2 ^ l" by (rule div_mult_self1) simp
  finally show ?thesis by (simp add: k)
qed

lemma level_bound:
  assumes "k * 2 ^ l \<le> (2 :: nat) ^ 31" "0 < k"
  shows "l < 32"
proof (rule ccontr)
  assume "\<not> l < 32"
  then have "(2 :: nat) ^ 32 \<le> 2 ^ l" by (intro power_increasing) simp_all
  also have "\<dots> \<le> k * 2 ^ l" using assms(2) by simp
  finally show False using assms(1) by simp
qed

lemma leaf_loop_root:
  assumes n: "length leaves \<le> 2 ^ 31" "c \<le> length leaves" and i: "inner_ok H leaves (c - 1) inner"
    and "c = k * 2 ^ level" "0 < k" "h = node H leaves level (k - 1)"
    and "leaf_loop H pbranch inner matchlevel c level h matchh branch mutated = (level', h', matchh', branch', mutated')"
  shows "level' < 32 \<and> (\<exists>k'. c = k' * 2 ^ level' \<and> odd k' \<and> h' = node H leaves level' (k' - 1)) \<and>
    (mutated' \<longleftrightarrow> mutated \<or> (\<exists>l q. level \<le> l \<and> (2 * q + 2) * 2 ^ l = c \<and> node H leaves l (2 * q) = node H leaves l (2 * q + 1)))"
  using assms(4-)
proof (induction "32 - level" arbitrary: level k h matchh branch mutated rule: less_induct)
  case less
  have l: "level < 32" using level_bound [of k level] less.prems(1,2) n by simp
  have b: "bit c level \<longleftrightarrow> odd k" by (simp add: bit_iff_odd less.prems(1))
  show ?case
  proof (cases "odd k")
    case True
    have no: "(2 * q + 2) * 2 ^ l \<noteq> c" if "level \<le> l" for l q
    proof
      assume e: "(2 * q + 2) * 2 ^ l = c"
      have "(2 :: nat) ^ l = 2 ^ (l - level) * 2 ^ level" using that by (simp flip: power_add)
      then have "(2 * q + 2) * 2 ^ (l - level) * 2 ^ level = k * 2 ^ level" using e less.prems(1) by (simp only: mult.assoc)
      then have "(2 * q + 2) * 2 ^ (l - level) = k" by (simp only: mult_cancel2) simp
      then show False using True by auto
    qed
    have "leaf_loop H pbranch inner matchlevel c level h matchh branch mutated = (level, h, matchh, branch, mutated)"
      using b True by (subst leaf_loop.simps) simp
    then have e: "level' = level" "h' = h" "mutated' = mutated" using less.prems(4) by simp_all
    show ?thesis
    proof (intro conjI)
      show "\<exists>k'. c = k' * 2 ^ level' \<and> odd k' \<and> h' = node H leaves level' (k' - 1)"
        using True less.prems(1,3) e by - (rule exI [of _ k], simp)
      show "mutated' \<longleftrightarrow> mutated \<or> (\<exists>l q. level \<le> l \<and> (2 * q + 2) * 2 ^ l = c \<and> node H leaves l (2 * q) = node H leaves l (2 * q + 1))"
        unfolding e using no by blast
    qed (simp add: l e)
  next
    case False
    then obtain q where k: "k = 2 * q + 2" using less.prems(2) by (metis add_2_eq_Suc' add.commute evenE gr0_implies_Suc mult_Suc_right mult_is_0 not_gr_zero)
    have c1: "(c - 1) div 2 ^ level = 2 * q + 1" using pred_div_pow [of k level] less.prems(1,2) k by simp
    then have inner: "inner ! level = node H leaves level (2 * q)" using i l by (simp add: inner_ok_def bit_iff_odd)
    have h: "h = node H leaves level (2 * q + 1)" using less.prems(3) k by simp
    have "(2 * q + 1) * 2 ^ level < c" using less.prems(1) k by simp
    then have up: "Hash2 H (inner ! level) h = node H leaves (Suc level) (Suc q - 1)"
      using node_pair [OF n(1) l, of q] n(2) inner h by simp
    obtain br mh where bs: "branch_step pbranch inner matchlevel level h matchh branch = (br, mh)" by fastforce
    have "leaf_loop H pbranch inner matchlevel c level h matchh branch mutated =
        leaf_loop H pbranch inner matchlevel c (Suc level) (Hash2 H (inner ! level) h) mh br (mutated \<or> inner ! level = h)"
      using b False l bs by (subst leaf_loop.simps) simp
    then have "leaf_loop H pbranch inner matchlevel c (Suc level) (Hash2 H (inner ! level) h) mh br (mutated \<or> inner ! level = h) =
        (level', h', matchh', branch', mutated')" using less.prems(4) by simp
    note loop = this
    have cq: "c = Suc q * 2 ^ Suc level" using less.prems(1) k by simp
    have r: "level' < 32 \<and> (\<exists>k'. c = k' * 2 ^ level' \<and> odd k' \<and> h' = node H leaves level' (k' - 1)) \<and>
        (mutated' \<longleftrightarrow> (mutated \<or> inner ! level = h) \<or> (\<exists>l q. Suc level \<le> l \<and> (2 * q + 2) * 2 ^ l = c \<and> node H leaves l (2 * q) = node H leaves l (2 * q + 1)))"
      by (rule less.hyps [OF _ cq _ up loop]) (use l in simp_all)
    have "(\<exists>l q. level \<le> l \<and> (2 * q + 2) * 2 ^ l = c \<and> node H leaves l (2 * q) = node H leaves l (2 * q + 1)) \<longleftrightarrow>
        inner ! level = h \<or> (\<exists>l q. Suc level \<le> l \<and> (2 * q + 2) * 2 ^ l = c \<and> node H leaves l (2 * q) = node H leaves l (2 * q + 1))"
      (is "?L \<longleftrightarrow> ?R")
    proof
      assume ?L
      then obtain l r where lr: "level \<le> l" "(2 * r + 2) * 2 ^ l = c" "node H leaves l (2 * r) = node H leaves l (2 * r + 1)" by blast
      show ?R
      proof (cases "l = level")
        case True
        then have "r = q" using lr(2) less.prems(1) k by simp
        then show ?thesis using lr(3) True inner h by simp
      next
        case False
        then have "Suc level \<le> l" using lr(1) by simp
        then show ?thesis using lr(2,3) by blast
      qed
    next
      assume ?R
      moreover have "(2 * q + 2) * 2 ^ level = c" using less.prems(1) k by simp
      ultimately show ?L using inner h by (metis Suc_leD order_refl)
    qed
    then show ?thesis using r by blast
  qed
qed

lemma div_pow_split: "l \<le> m \<Longrightarrow> a div 2 ^ m = a div 2 ^ l div 2 ^ (m - l)"
  for a :: nat
  by (simp flip: div_mult2_eq power_add)

lemma inner_ok_update:
  assumes i: "inner_ok H leaves c inner" and c: "Suc c = k * 2 ^ level" "odd k" "level < 32"
  shows "inner_ok H leaves (Suc c) (inner[level := node H leaves level (k - 1)])"
  unfolding inner_ok_def
proof (intro conjI allI impI)
  fix l assume l: "l < 32" "bit (Suc c) l"
  consider "l < level" | "l = level" | "level < l" by linarith
  then show "inner[level := node H leaves level (k - 1)] ! l = node H leaves l (Suc c div 2 ^ l - 1)"
  proof cases
    case 1
    have "(2 :: nat) ^ level = 2 ^ (level - l) * 2 ^ l" using 1 by (simp flip: power_add)
    then have "Suc c div 2 ^ l = k * 2 ^ (level - l)" unfolding c(1) by simp
    then have "even (Suc c div 2 ^ l)" using 1 by simp
    then show ?thesis using l(2) unfolding bit_iff_odd by blast
  next
    case 2
    have "Suc c div 2 ^ level = k" unfolding c(1) by simp
    then show ?thesis using 2 i c(3) by (simp add: inner_ok_def)
  next
    case 3
    have "c div 2 ^ level = k - 1" using pred_div_pow [of k level] odd_pos [OF c(2)] unfolding c(1) [symmetric] by simp
    then have "c div 2 ^ l = (k - 1) div 2 ^ (l - level)" using div_pow_split [of level l c] 3 by simp
    moreover have "Suc c div 2 ^ l = k div 2 ^ (l - level)" using div_pow_split [of level l "Suc c"] 3 unfolding c(1) by simp
    moreover have "(k - 1) div 2 ^ (l - level) = k div 2 ^ (l - level)"
    proof -
      have "(k - 1) div 2 = k div 2" using c(2) by (auto elim: oddE)
      then show ?thesis using 3 div_pow_split [of 1 "l - level" k] div_pow_split [of 1 "l - level" "k - 1"] by simp
    qed
    ultimately have e: "c div 2 ^ l = Suc c div 2 ^ l" by simp
    then have "bit c l" using l(2) by (simp add: bit_iff_odd)
    then have "inner ! l = node H leaves l (c div 2 ^ l - 1)" using i l(1) by (simp add: inner_ok_def)
    then show ?thesis using 3 e by simp
  qed
qed (use i in \<open>simp add: inner_ok_def\<close>)

lemma twins_Suc:
  "twins H leaves (Suc c) \<longleftrightarrow> twins H leaves c \<or>
    (\<exists>l q. 0 \<le> l \<and> (2 * q + 2) * 2 ^ l = Suc c \<and> node H leaves l (2 * q) = node H leaves l (2 * q + 1))"
  unfolding twins_def le_Suc_eq by blast

lemma leaves_loop_root:
  assumes n: "length leaves \<le> 2 ^ 31" and "leaves = pre @ rest" "inner_ok H leaves (length pre) inner" "mutated \<longleftrightarrow> twins H leaves (length pre)"
    and "leaves_loop H pbranch pos rest (length pre) inner matchlevel branch mutated = (c', inner', matchlevel', branch', mutated')"
  shows "c' = length leaves \<and> inner_ok H leaves (length leaves) inner' \<and> (mutated' \<longleftrightarrow> twins H leaves (length leaves))"
  using assms(2-)
proof (induction rest arbitrary: pre inner matchlevel branch mutated)
  case (Cons leaf rest)
  let ?c = "length pre"
  obtain level h mh br mu where lp: "leaf_loop H pbranch inner matchlevel (Suc ?c) 0 leaf (?c = pos) branch mutated = (level, h, mh, br, mu)"
    by (metis prod_cases5)
  have "Suc ?c \<le> length leaves" "inner_ok H leaves (Suc ?c - 1) inner" "Suc ?c = Suc ?c * 2 ^ 0" "leaf = node H leaves 0 (Suc ?c - 1)"
    using Cons.prems(1,2) by (simp_all add: nth_append)
  from leaf_loop_root [OF n this(1-3) _ this(4) lp] obtain k where
    k: "level < 32" "Suc ?c = k * 2 ^ level" "odd k" "h = node H leaves level (k - 1)"
      "mu \<longleftrightarrow> mutated \<or> (\<exists>l q. 0 \<le> l \<and> (2 * q + 2) * 2 ^ l = Suc ?c \<and> node H leaves l (2 * q) = node H leaves l (2 * q + 1))" by blast
  have io: "inner_ok H leaves (length (pre @ [leaf])) (inner[level := h])"
    using inner_ok_update [OF Cons.prems(2) k(2,3,1)] k(4) by simp
  have tw: "mu \<longleftrightarrow> twins H leaves (length (pre @ [leaf]))" using k(5) Cons.prems(3) twins_Suc [of H leaves ?c] by simp
  have loop: "leaves_loop H pbranch pos rest (length (pre @ [leaf])) (inner[level := h]) (if mh then int level else matchlevel) br mu =
      (c', inner', matchlevel', branch', mutated')"
    using Cons.prems(4) lp by simp
  show ?case by (rule Cons.IH [OF _ io tw loop]) (simp add: Cons.prems(1))
qed auto

lemma skip_loop_lowest:
  assumes "n = k * 2 ^ level" "0 < k" "n \<le> 2 ^ 31"
  shows "\<exists>k'. n = k' * 2 ^ skip_loop n level \<and> odd k'"
  using assms
proof (induction "32 - level" arbitrary: level k rule: less_induct)
  case less
  have l: "level < 32" using level_bound [of k level] less.prems by simp
  have b: "bit n level \<longleftrightarrow> odd k" by (simp add: bit_iff_odd less.prems(1))
  show ?case
  proof (cases "odd k")
    case True
    then have "skip_loop n level = level" using b by (subst skip_loop.simps) simp
    then show ?thesis using True less.prems(1) by auto
  next
    case False
    then obtain j where j: "k = 2 * j" by (auto elim: evenE)
    have "skip_loop n level = skip_loop n (Suc level)" using b l False by (subst skip_loop.simps) simp
    moreover have "\<exists>k'. n = k' * 2 ^ skip_loop n (Suc level) \<and> odd k'"
      by (rule less.hyps [of _ j]) (use l less.prems j in simp_all)
    ultimately show ?thesis by simp
  qed
qed

text \<open>In the final sweep the counter is the number of leaves rounded up to the current level.\<close>

definition rounded :: "nat \<Rightarrow> nat \<Rightarrow> nat \<Rightarrow> nat \<Rightarrow> bool" where
  "rounded n C k level \<longleftrightarrow> C = k * 2 ^ level \<and> 0 < k \<and> C \<le> 2 ^ 31 \<and> n \<le> C \<and> C < n + 2 ^ level \<and> (level = 0 \<or> 2 ^ (level - 1) < n)"

lemma rounded_level: "rounded n C k level \<Longrightarrow> level < 32"
  by (rule level_bound [of k]) (simp_all add: rounded_def)

lemma rounded_up:
  assumes "rounded n C (2 * q + 2) level"
  shows "rounded n C (q + 1) (Suc level)" "(2 * q + 1) * 2 ^ level < n"
  using assms by (simp_all add: rounded_def algebra_simps)

lemma rounded_inner:
  assumes "rounded n C (2 * q + 2) level" "n < C"
  shows "n div 2 ^ level = 2 * q + 1"
proof -
  have "(2 * q + 1) * 2 ^ level < n" "n < (2 * q + 2) * 2 ^ level"
    using assms rounded_up(2) [OF assms(1)] by (simp_all add: rounded_def)
  then show ?thesis by (intro div_nat_eqI) (simp_all add: algebra_simps)
qed

lemma rounded_odd:
  assumes "rounded n C (2 * j + 1) level" "0 < j"
  shows "rounded n (C + 2 ^ level) (j + 1) (Suc level)" "n < C + 2 ^ level" "n \<le> (2 * j + 1) * 2 ^ level"
proof -
  have c: "C = (2 * j + 1) * 2 ^ level" "C \<le> 2 ^ 31" "n \<le> C" "C < n + 2 ^ level" using assms(1) by (simp_all add: rounded_def)
  have l: "level < 32" by (rule rounded_level [OF assms(1)])
  then have p: "(2 :: nat) ^ 31 = 2 ^ (31 - level) * 2 ^ level" by (simp flip: power_add)
  have le: "2 * j + 1 \<le> 2 ^ (31 - level)" using c(1,2) unfolding p by (simp only: mult_le_cancel2) simp
  then have "level < 31" using assms(2) l by (cases "level = 31") auto
  then have "even ((2 :: nat) ^ (31 - level))" by simp
  then have "2 * j + 2 \<le> 2 ^ (31 - level)" using le by (metis Suc_1 Suc_leI add_Suc_right add.right_neutral dvd_triv_left even_Suc le_neq_implies_less One_nat_def)
  then have "(2 * j + 2) * 2 ^ level \<le> 2 ^ 31" unfolding p by (rule mult_right_mono) simp
  then have "C + 2 ^ level \<le> 2 ^ 31" using c(1) by simp
  moreover have "2 ^ level < n" using c(1,4) assms(2) by (cases j) auto
  ultimately show "rounded n (C + 2 ^ level) (j + 1) (Suc level)" using c by (simp add: rounded_def)
  show "n < C + 2 ^ level" "n \<le> (2 * j + 1) * 2 ^ level" using c by (simp_all add: le_imp_less_Suc order.strict_trans1)
qed

lemma up_loop_root:
  assumes n: "length leaves \<le> 2 ^ 31" and i: "inner_ok H leaves (length leaves) inner" and lt: "length leaves < C"
    and "rounded (length leaves) C k level" "h = node H leaves level (k - 1)"
    and "up_loop H pbranch inner matchlevel C level h matchh branch = (level', h', matchh', branch')"
  shows "\<exists>k'. rounded (length leaves) C k' level' \<and> odd k' \<and> h' = node H leaves level' (k' - 1)"
  using assms(4-)
proof (induction "32 - level" arbitrary: level k h matchh branch rule: less_induct)
  case less
  have l: "level < 32" using rounded_level [OF less.prems(1)] .
  have b: "bit C level \<longleftrightarrow> odd k" using less.prems(1) by (simp add: bit_iff_odd rounded_def)
  show ?case
  proof (cases "odd k")
    case True
    then have "up_loop H pbranch inner matchlevel C level h matchh branch = (level, h, matchh, branch)" using b by (subst up_loop.simps) simp
    then show ?thesis using True less.prems by auto
  next
    case False
    then obtain q where k: "k = 2 * q + 2" using less.prems(1) unfolding rounded_def
      by (metis add_2_eq_Suc' add.commute evenE gr0_implies_Suc mult_Suc_right mult_is_0 not_gr_zero)
    note r = less.prems(1) [unfolded k]
    have "inner ! level = node H leaves level (2 * q)"
      using rounded_inner [OF r lt] i l by (simp add: inner_ok_def bit_iff_odd)
    then have up: "Hash2 H (inner ! level) h = node H leaves (Suc level) (q + 1 - 1)"
      using node_pair [OF n l rounded_up(2) [OF r]] less.prems(2) k by simp
    obtain br mh where bs: "branch_step pbranch inner matchlevel level h matchh branch = (br, mh)" by fastforce
    have "up_loop H pbranch inner matchlevel C level h matchh branch =
        up_loop H pbranch inner matchlevel C (Suc level) (Hash2 H (inner ! level) h) mh br"
      using b False l bs by (subst up_loop.simps) simp
    then have loop: "up_loop H pbranch inner matchlevel C (Suc level) (Hash2 H (inner ! level) h) mh br = (level', h', matchh', branch')"
      using less.prems(3) by simp
    show ?thesis by (rule less.hyps [OF _ rounded_up(1) [OF r] up loop]) (use l in simp)
  qed
qed

lemma sweep_loop_root:
  assumes n: "length leaves \<le> 2 ^ 31" and i: "inner_ok H leaves (length leaves) inner"
    and "rounded (length leaves) C k level" "odd k" "h = node H leaves level (k - 1)"
  shows "fst (sweep_loop H pbranch inner matchlevel C level h matchh branch) = node H leaves (height_loop (of_nat (length leaves)) 0) 0"
  using assms(3-)
proof (induction "32 - level" arbitrary: level k h matchh branch C rule: less_induct)
  case less
  have l: "level < 32" using rounded_level [OF less.prems(1)] .
  have c: "C = k * 2 ^ level" using less.prems(1) by (simp add: rounded_def)
  show ?case
  proof (cases "k = 1")
    case True
    have "height_loop (of_nat (length leaves)) 0 = level"
      by (rule height_loop_least [OF n]) (use less.prems(1) True l in \<open>auto simp: rounded_def\<close>)
    then show ?thesis using c True less.prems(3) by (subst sweep_loop.simps) simp
  next
    case False
    then obtain j where j: "k = 2 * j + 1" "0 < j" using less.prems(2) by (auto elim!: oddE)
    note r = rounded_odd [OF less.prems(1) [unfolded j(1)] j(2)]
    let ?b = "if pbranch \<and> matchh then branch @ [h] else branch"
    obtain level' h' mh br where up: "up_loop H pbranch inner matchlevel (C + 2 ^ level) (Suc level) (Hash2 H h h) matchh ?b = (level', h', mh, br)"
      by (metis prod_cases4)
    have "Hash2 H h h = node H leaves (Suc level) (j + 1 - 1)" using node_single [OF n l r(3)] less.prems(3) j(1) by simp
    from up_loop_root [OF n i r(2,1) this up] obtain k' where
      k': "rounded (length leaves) (C + 2 ^ level) k' level'" "odd k'" "h' = node H leaves level' (k' - 1)" by blast
    have "C \<noteq> 2 ^ level" using c False by simp
    then have "sweep_loop H pbranch inner matchlevel C level h matchh branch =
        sweep_loop H pbranch inner matchlevel (C + 2 ^ level) level' h' mh br"
      using l up by (subst sweep_loop.simps) simp
    then show ?thesis using less.hyps [OF _ k'] up_loop_less [OF up] l by simp
  qed
qed

lemma rounded_start:
  assumes n: "n \<le> 2 ^ 31" "0 < n" and k: "n = k * 2 ^ level" "odd k"
  shows "rounded n n k level"
proof -
  have "level = 0 \<or> 2 ^ (level - 1) < n"
  proof (cases level)
    case (Suc m)
    have "(2 :: nat) ^ m < 2 ^ level" by (simp add: Suc)
    also have "\<dots> \<le> n" using k n(2) by (cases k) auto
    finally show ?thesis by (simp add: Suc)
  qed simp
  then show ?thesis using k n odd_pos [OF k(2)] by (simp add: rounded_def)
qed

lemma MerkleComputation_root:
  assumes n: "length leaves \<le> 2 ^ 31" and "leaves \<noteq> []"
  shows "\<exists>b. MerkleComputation H leaves pos pbranch =
    (node H leaves (height_loop (of_nat (length leaves)) 0) 0, twins H leaves (length leaves), b)"
proof -
  let ?init = "replicate 32 (replicate 32 0) :: uint256 list"
  obtain c inner ml br mu where ll: "leaves_loop H pbranch pos leaves 0 ?init (- 1) [] False = (c, inner, ml, br, mu)" by (metis prod_cases5)
  have i0: "inner_ok H leaves (length ([] :: uint256 list)) ?init" "False \<longleftrightarrow> twins H leaves (length ([] :: uint256 list))"
    by (simp_all add: inner_ok_def twins_def)
  have "leaves_loop H pbranch pos leaves (length ([] :: uint256 list)) ?init (- 1) [] False = (c, inner, ml, br, mu)" using ll by simp
  from leaves_loop_root [OF n _ i0 this]
  have r: "c = length leaves" "inner_ok H leaves (length leaves) inner" "mu \<longleftrightarrow> twins H leaves (length leaves)" by simp_all
  define level where "level = skip_loop (length leaves) 0"
  obtain k where k: "length leaves = k * 2 ^ level" "odd k"
    using skip_loop_lowest [of "length leaves" "length leaves" 0] n assms(2) by (auto simp: level_def)
  have ro: "rounded (length leaves) (length leaves) k level" by (rule rounded_start [OF n _ k]) (use assms(2) in simp)
  have inn: "inner ! level = node H leaves level (k - 1)"
    using r(2) rounded_level [OF ro] k unfolding inner_ok_def bit_iff_odd by simp
  from sweep_loop_root [OF n r(2) ro k(2) inn] obtain b where
    "sweep_loop H pbranch inner ml (length leaves) level (inner ! level) (ml = int level) br =
      (node H leaves (height_loop (of_nat (length leaves)) 0) 0, b)"
    by (metis prod.collapse)
  then show ?thesis using ll r assms(2) by (simp add: MerkleComputation_def Let_def level_def)
qed

section \<open>Branches\<close>

text \<open>The sibling of the node above a position, and the state of the search for the branch: the current subtree
  contains the position, or an earlier one does, at the level of the highest bit in which they differ.\<close>

definition sib :: "hash_funs \<Rightarrow> uint256 list \<Rightarrow> nat \<Rightarrow> nat \<Rightarrow> uint256" where
  "sib H leaves pos l = (let p = pos div 2 ^ l in
     if odd p then node H leaves l (p - 1) else if (p + 1) * 2 ^ l < length leaves then node H leaves l (p + 1) else node H leaves l p)"

definition kept_at :: "hash_funs \<Rightarrow> uint256 list \<Rightarrow> nat \<Rightarrow> nat \<Rightarrow> nat \<Rightarrow> int \<Rightarrow> uint256 list \<Rightarrow> bool" where
  "kept_at H leaves pos b level matchlevel branch \<longleftrightarrow>
     (if pos < b then \<exists>m. level \<le> m \<and> m < 32 \<and> matchlevel = int m \<and> bit b m \<and> pos div 2 ^ m + 1 = b div 2 ^ m \<and> branch = map (sib H leaves pos) [0..<m]
      else matchlevel = - 1 \<and> branch = [])"

definition branch_ok :: "hash_funs \<Rightarrow> uint256 list \<Rightarrow> nat \<Rightarrow> nat \<Rightarrow> nat \<Rightarrow> nat \<Rightarrow> bool \<Rightarrow> int \<Rightarrow> uint256 list \<Rightarrow> bool" where
  "branch_ok H leaves pos b level p matchh matchlevel branch \<longleftrightarrow>
     (matchh \<longleftrightarrow> pos div 2 ^ level = p) \<and>
     (if matchh then branch = map (sib H leaves pos) [0..<level] else kept_at H leaves pos b level matchlevel branch)"

lemma div_pow_Suc: "a div 2 ^ Suc l = a div 2 ^ l div 2"
  for a :: nat
  using div_pow_split [of l "Suc l" a] by simp

lemma kept_at_higher:
  assumes "kept_at H leaves pos b level matchlevel branch" "pos div 2 ^ l = b div 2 ^ l" "pos < b"
  shows "\<exists>m < l. matchlevel = int m \<and> level \<le> m"
proof -
  from assms obtain m where m: "level \<le> m" "matchlevel = int m" "pos div 2 ^ m + 1 = b div 2 ^ m" by (auto simp: kept_at_def)
  have "m < l"
  proof (rule ccontr)
    assume "\<not> m < l"
    then have "pos div 2 ^ m = b div 2 ^ m" using div_pow_split [of l m pos] div_pow_split [of l m b] assms(2) by simp
    then show False using m(3) by simp
  qed
  then show ?thesis using m by blast
qed

lemma branch_step_ok:
  assumes ok: "branch_ok H leaves pos b level (2 * q + 1) matchh matchlevel branch" and b: "b div 2 ^ level = 2 * q + 1"
    and i: "inner ! level = node H leaves level (2 * q)" and h: "h = node H leaves level (2 * q + 1)"
    and n: "(2 * q + 1) * 2 ^ level < length leaves"
    and st: "branch_step True inner matchlevel level h matchh branch = (branch', matchh')"
  shows "branch_ok H leaves pos b (Suc level) q matchh' matchlevel branch'"
proof (cases matchh)
  case True
  then have p: "pos div 2 ^ level = 2 * q + 1" "branch = map (sib H leaves pos) [0..<level]" using ok by (simp_all add: branch_ok_def)
  then have "sib H leaves pos level = inner ! level" "pos div 2 ^ Suc level = q" using i unfolding div_pow_Suc by (simp_all add: sib_def)
  then show ?thesis using True p st by (auto simp: branch_ok_def branch_step_def)
next
  case False
  then have p: "pos div 2 ^ level \<noteq> 2 * q + 1" and k: "kept_at H leaves pos b level matchlevel branch" using ok by (simp_all add: branch_ok_def)
  show ?thesis
  proof (cases "matchlevel = int level")
    case True
    then have "pos div 2 ^ level = 2 * q" "branch = map (sib H leaves pos) [0..<level]" using k b by (auto simp: kept_at_def split: if_splits)
    moreover have "sib H leaves pos level = h" using n h calculation(1) by (simp add: sib_def)
    moreover have "pos div 2 ^ Suc level = q" unfolding div_pow_Suc calculation(1) by simp
    ultimately show ?thesis using True False st by (auto simp: branch_ok_def branch_step_def)
  next
    case neq: False
    have "pos div 2 ^ Suc level \<noteq> q"
    proof
      assume q: "pos div 2 ^ Suc level = q"
      then have "pos div 2 ^ level = 2 * q" using p unfolding div_pow_Suc by linarith
      then have "pos div 2 ^ level < b div 2 ^ level" using b by simp
      then have "pos < b" using div_le_mono [of b pos "2 ^ level"] by linarith
      moreover have "b div 2 ^ Suc level = q" unfolding div_pow_Suc b by simp
      ultimately show False using kept_at_higher [OF k, of "Suc level"] q neq by auto
    qed
    moreover have "kept_at H leaves pos b (Suc level) matchlevel branch" using k neq by (auto simp: kept_at_def Suc_le_eq order_le_less split: if_splits)
    ultimately show ?thesis using neq False st by (auto simp: branch_ok_def branch_step_def)
  qed
qed

lemma leaf_loop_branch:
  assumes n: "length leaves \<le> 2 ^ 31" "c \<le> length leaves" and i: "inner_ok H leaves (c - 1) inner"
    and "c = k * 2 ^ level" "0 < k" "h = node H leaves level (k - 1)" "branch_ok H leaves pos (c - 1) level (k - 1) matchh matchlevel branch"
    and "leaf_loop H True inner matchlevel c level h matchh branch mutated = (level', h', matchh', branch', mutated')"
  shows "\<exists>k'. c = k' * 2 ^ level' \<and> odd k' \<and> branch_ok H leaves pos (c - 1) level' (k' - 1) matchh' matchlevel branch'"
  using assms(4-)
proof (induction "32 - level" arbitrary: level k h matchh branch mutated rule: less_induct)
  case less
  have l: "level < 32" using level_bound [of k level] less.prems(1,2) n by simp
  have b: "bit c level \<longleftrightarrow> odd k" by (simp add: bit_iff_odd less.prems(1))
  show ?case
  proof (cases "odd k")
    case True
    have "leaf_loop H True inner matchlevel c level h matchh branch mutated = (level, h, matchh, branch, mutated)"
      using b True by (subst leaf_loop.simps) simp
    then show ?thesis using less.prems True by auto
  next
    case False
    then obtain q where k: "k = 2 * q + 2" using less.prems(2) by (metis add_2_eq_Suc' add.commute evenE gr0_implies_Suc mult_Suc_right mult_is_0 not_gr_zero)
    have c1: "(c - 1) div 2 ^ level = 2 * q + 1" using pred_div_pow [of k level] less.prems(1,2) k by simp
    then have inner: "inner ! level = node H leaves level (2 * q)" using i l by (simp add: inner_ok_def bit_iff_odd)
    have h: "h = node H leaves level (2 * q + 1)" using less.prems(3) k by simp
    have "(2 * q + 1) * 2 ^ level < c" using less.prems(1) k by simp
    then have lt: "(2 * q + 1) * 2 ^ level < length leaves" using n(2) by linarith
    then have up: "Hash2 H (inner ! level) h = node H leaves (Suc level) (Suc q - 1)" using node_pair [OF n(1) l, of q] inner h by simp
    obtain br mh where bs: "branch_step True inner matchlevel level h matchh branch = (br, mh)" by fastforce
    have "k - 1 = 2 * q + 1" using k by simp
    from branch_step_ok [OF less.prems(4) [unfolded this] c1 inner h lt bs]
    have ok: "branch_ok H leaves pos (c - 1) (Suc level) (Suc q - 1) mh matchlevel br" by simp
    have "leaf_loop H True inner matchlevel c level h matchh branch mutated =
        leaf_loop H True inner matchlevel c (Suc level) (Hash2 H (inner ! level) h) mh br (mutated \<or> inner ! level = h)"
      using b False l bs by (subst leaf_loop.simps) simp
    then have loop: "leaf_loop H True inner matchlevel c (Suc level) (Hash2 H (inner ! level) h) mh br (mutated \<or> inner ! level = h) =
        (level', h', matchh', branch', mutated')" using less.prems(5) by simp
    have cq: "c = Suc q * 2 ^ Suc level" using less.prems(1) k by simp
    show ?thesis by (rule less.hyps [OF _ cq _ up ok loop]) (use l in simp_all)
  qed
qed

lemma kept_at_Suc:
  assumes c: "Suc c = k * 2 ^ level" "odd k" "level < 32" and ok: "branch_ok H leaves pos c level (k - 1) matchh matchlevel branch"
  shows "kept_at H leaves pos (Suc c) 0 (if matchh then int level else matchlevel) branch"
proof -
  have d: "c div 2 ^ level = k - 1" "Suc c div 2 ^ level = k"
    using pred_div_pow [of k level] odd_pos [OF c(2)] unfolding c(1) [symmetric] by (simp, simp add: c(1))
  show ?thesis
  proof (cases matchh)
    case True
    then have p: "pos div 2 ^ level = k - 1" "branch = map (sib H leaves pos) [0..<level]" using ok by (simp_all add: branch_ok_def)
    have "pos < Suc c" using p(1) d(2) odd_pos [OF c(2)] div_le_mono [of "Suc c" pos "2 ^ level"] by linarith
    moreover have "bit (Suc c) level" using d(2) c(2) unfolding bit_iff_odd by simp
    ultimately show ?thesis using True p d(2) c(3) odd_pos [OF c(2)] by (auto simp: kept_at_def)
  next
    case False
    then have p: "pos div 2 ^ level \<noteq> k - 1" and kp: "kept_at H leaves pos c level matchlevel branch" using ok by (simp_all add: branch_ok_def)
    have ne: "pos \<noteq> c" using p d(1) by auto
    show ?thesis
    proof (cases "pos < c")
      case True
      with kp obtain m where m: "level \<le> m" "m < 32" "matchlevel = int m" "bit c m" "pos div 2 ^ m + 1 = c div 2 ^ m"
        "branch = map (sib H leaves pos) [0..<m]" by (auto simp: kept_at_def)
      have "even (c div 2 ^ level)" using d(1) c(2) by simp
      then have "level < m" using m(1,4) by (cases "m = level") (auto simp: bit_iff_odd)
      have "c div 2 ^ Suc level = Suc c div 2 ^ Suc level" unfolding div_pow_Suc d using c(2) by (auto elim: oddE)
      then have "c div 2 ^ m = Suc c div 2 ^ m" using div_pow_split [of "Suc level" m c] div_pow_split [of "Suc level" m "Suc c"] \<open>level < m\<close> by simp
      then show ?thesis using True False m by (auto simp: kept_at_def bit_iff_odd)
    qed (use kp False ne in \<open>auto simp: kept_at_def\<close>)
  qed
qed

lemma leaves_loop_branch:
  assumes n: "length leaves \<le> 2 ^ 31" and "leaves = pre @ rest" "inner_ok H leaves (length pre) inner"
    "kept_at H leaves pos (length pre) 0 matchlevel branch"
    and "leaves_loop H True pos rest (length pre) inner matchlevel branch mutated = (c', inner', matchlevel', branch', mutated')"
  shows "kept_at H leaves pos (length leaves) 0 matchlevel' branch'"
  using assms(2-)
proof (induction rest arbitrary: pre inner matchlevel branch mutated)
  case (Cons leaf rest)
  let ?c = "length pre"
  obtain level h mh br mu where lp: "leaf_loop H True inner matchlevel (Suc ?c) 0 leaf (?c = pos) branch mutated = (level, h, mh, br, mu)"
    by (metis prod_cases5)
  have c: "Suc ?c \<le> length leaves" "inner_ok H leaves (Suc ?c - 1) inner" "Suc ?c = Suc ?c * 2 ^ 0" "leaf = node H leaves 0 (Suc ?c - 1)"
    using Cons.prems(1,2) by (simp_all add: nth_append)
  have bo: "branch_ok H leaves pos (Suc ?c - 1) 0 (Suc ?c - 1) (?c = pos) matchlevel branch"
    using Cons.prems(3) by (auto simp: branch_ok_def kept_at_def)
  from leaf_loop_root [OF n c(1-3) _ c(4) lp] obtain k where
    k: "level < 32" "Suc ?c = k * 2 ^ level" "odd k" "h = node H leaves level (k - 1)" by blast
  from leaf_loop_branch [OF n c(1-3) _ c(4) bo lp] obtain k' where
    k': "Suc ?c = k' * 2 ^ level" "branch_ok H leaves pos ?c level (k' - 1) mh matchlevel br" by auto
  then have "k' = k" using k(2) by simp
  have io: "inner_ok H leaves (length (pre @ [leaf])) (inner[level := h])"
    using inner_ok_update [OF Cons.prems(2) k(2,3,1)] k(4) by simp
  have ka: "kept_at H leaves pos (length (pre @ [leaf])) 0 (if mh then int level else matchlevel) br"
    using kept_at_Suc [OF k(2,3,1)] k'(2) \<open>k' = k\<close> by simp
  have loop: "leaves_loop H True pos rest (length (pre @ [leaf])) (inner[level := h]) (if mh then int level else matchlevel) br mu =
      (c', inner', matchlevel', branch', mutated')"
    using Cons.prems(4) lp by simp
  show ?case by (rule Cons.IH [OF _ io ka loop]) (simp add: Cons.prems(1))
qed auto

lemma up_loop_branch:
  assumes n: "length leaves \<le> 2 ^ 31" and i: "inner_ok H leaves (length leaves) inner" and lt: "length leaves < C"
    and "rounded (length leaves) C k level" "h = node H leaves level (k - 1)"
    and "branch_ok H leaves pos (length leaves) level (k - 1) matchh matchlevel branch"
    and "up_loop H True inner matchlevel C level h matchh branch = (level', h', matchh', branch')"
  shows "\<exists>k'. C = k' * 2 ^ level' \<and> branch_ok H leaves pos (length leaves) level' (k' - 1) matchh' matchlevel branch'"
  using assms(4-)
proof (induction "32 - level" arbitrary: level k h matchh branch rule: less_induct)
  case less
  have l: "level < 32" using rounded_level [OF less.prems(1)] .
  have b: "bit C level \<longleftrightarrow> odd k" using less.prems(1) by (simp add: bit_iff_odd rounded_def)
  show ?case
  proof (cases "odd k")
    case True
    then have "up_loop H True inner matchlevel C level h matchh branch = (level, h, matchh, branch)" using b by (subst up_loop.simps) simp
    then show ?thesis using less.prems by (auto simp: rounded_def)
  next
    case False
    then obtain q where k: "k = 2 * q + 2" using less.prems(1) unfolding rounded_def
      by (metis add_2_eq_Suc' add.commute evenE gr0_implies_Suc mult_Suc_right mult_is_0 not_gr_zero)
    note r = less.prems(1) [unfolded k]
    have inner: "inner ! level = node H leaves level (2 * q)"
      using rounded_inner [OF r lt] i l by (simp add: inner_ok_def bit_iff_odd)
    have h: "h = node H leaves level (2 * q + 1)" using less.prems(2) k by simp
    then have up: "Hash2 H (inner ! level) h = node H leaves (Suc level) (q + 1 - 1)"
      using node_pair [OF n l rounded_up(2) [OF r]] inner by simp
    obtain br mh where bs: "branch_step True inner matchlevel level h matchh branch = (br, mh)" by fastforce
    have "k - 1 = 2 * q + 1" using k by simp
    from branch_step_ok [OF less.prems(3) [unfolded this] rounded_inner [OF r lt] inner h rounded_up(2) [OF r] bs]
    have ok: "branch_ok H leaves pos (length leaves) (Suc level) (q + 1 - 1) mh matchlevel br" by simp
    have "up_loop H True inner matchlevel C level h matchh branch =
        up_loop H True inner matchlevel C (Suc level) (Hash2 H (inner ! level) h) mh br"
      using b False l bs by (subst up_loop.simps) simp
    then have loop: "up_loop H True inner matchlevel C (Suc level) (Hash2 H (inner ! level) h) mh br = (level', h', matchh', branch')"
      using less.prems(4) by simp
    show ?thesis by (rule less.hyps [OF _ rounded_up(1) [OF r] up ok loop]) (use l in simp)
  qed
qed

lemma branch_ok_single:
  assumes r: "rounded (length leaves) C (2 * j + 1) level" "0 < j" and pos: "pos < length leaves"
    and ok: "branch_ok H leaves pos (length leaves) level (2 * j) matchh matchlevel branch"
  shows "branch_ok H leaves pos (length leaves) (Suc level) j matchh matchlevel (if matchh then branch @ [node H leaves level (2 * j)] else branch)"
proof (cases matchh)
  case True
  then have p: "pos div 2 ^ level = 2 * j" "branch = map (sib H leaves pos) [0..<level]" using ok by (simp_all add: branch_ok_def)
  then have "sib H leaves pos level = node H leaves level (2 * j)" using rounded_odd(3) [OF r] by (simp add: sib_def)
  moreover have "pos div 2 ^ Suc level = j" unfolding div_pow_Suc p by simp
  ultimately show ?thesis using True p by (simp add: branch_ok_def)
next
  case False
  then have p: "pos div 2 ^ level \<noteq> 2 * j" and k: "kept_at H leaves pos (length leaves) level matchlevel branch" using ok by (simp_all add: branch_ok_def)
  have c: "C = (2 * j + 1) * 2 ^ level" "length leaves \<le> C" "C < length leaves + 2 ^ level" using r(1) by (simp_all add: rounded_def)
  have "pos div 2 ^ Suc level \<noteq> j"
  proof
    assume "pos div 2 ^ Suc level = j"
    then have "2 * j + 1 \<le> pos div 2 ^ level" using p unfolding div_pow_Suc by linarith
    then have "C \<le> pos" unfolding c(1) by (simp add: less_eq_div_iff_mult_less_eq)
    then show False using pos c(2) by simp
  qed
  moreover have "matchlevel \<noteq> int level"
  proof
    assume "matchlevel = int level"
    then have m: "odd (length leaves div 2 ^ level)" "pos div 2 ^ level + 1 = length leaves div 2 ^ level"
      using k pos by (auto simp: kept_at_def bit_iff_odd)
    show False
    proof (cases "length leaves = C")
      case True
      then have "length leaves div 2 ^ level = 2 * j + 1" unfolding True c(1) by simp
      then show False using m(2) p by simp
    next
      case False
      then have "length leaves div 2 ^ level = 2 * j"
        using c by (intro div_nat_eqI) (simp_all add: algebra_simps)
      then show False using m(1) by simp
    qed
  qed
  then have "kept_at H leaves pos (length leaves) (Suc level) matchlevel branch"
    using k by (auto simp: kept_at_def Suc_le_eq order_le_less split: if_splits)
  ultimately show ?thesis using False by (simp add: branch_ok_def)
qed

lemma sweep_loop_branch:
  assumes n: "length leaves \<le> 2 ^ 31" and i: "inner_ok H leaves (length leaves) inner" and pos: "pos < length leaves"
    and "rounded (length leaves) C k level" "odd k" "h = node H leaves level (k - 1)"
    and "branch_ok H leaves pos (length leaves) level (k - 1) matchh matchlevel branch"
  shows "snd (sweep_loop H True inner matchlevel C level h matchh branch) = map (sib H leaves pos) [0..<height_loop (of_nat (length leaves)) 0]"
  using assms(4-)
proof (induction "32 - level" arbitrary: level k h matchh branch C rule: less_induct)
  case less
  have l: "level < 32" using rounded_level [OF less.prems(1)] .
  have c: "C = k * 2 ^ level" "length leaves \<le> C" using less.prems(1) by (simp_all add: rounded_def)
  show ?case
  proof (cases "k = 1")
    case True
    have "height_loop (of_nat (length leaves)) 0 = level"
      by (rule height_loop_least [OF n]) (use less.prems(1) True l in \<open>auto simp: rounded_def\<close>)
    moreover have "pos div 2 ^ level = 0" using pos c True by simp
    then have "branch = map (sib H leaves pos) [0..<level]" using less.prems(4) True by (simp add: branch_ok_def)
    ultimately show ?thesis using c True by (subst sweep_loop.simps) simp
  next
    case False
    then obtain j where j: "k = 2 * j + 1" "0 < j" using less.prems(2) by (auto elim!: oddE)
    note r = rounded_odd [OF less.prems(1) [unfolded j(1)] j(2)]
    let ?b = "if True \<and> matchh then branch @ [h] else branch"
    obtain level' h' mh br where up: "up_loop H True inner matchlevel (C + 2 ^ level) (Suc level) (Hash2 H h h) matchh ?b = (level', h', mh, br)"
      by (metis prod_cases4)
    have hh: "Hash2 H h h = node H leaves (Suc level) (j + 1 - 1)" using node_single [OF n l r(3)] less.prems(3) j(1) by simp
    have ok: "branch_ok H leaves pos (length leaves) (Suc level) (j + 1 - 1) matchh matchlevel ?b"
      using branch_ok_single [OF less.prems(1) [unfolded j(1)] j(2) pos, of H matchh matchlevel branch] less.prems(3,4) j(1) by (cases matchh) simp_all
    from up_loop_root [OF n i r(2,1) hh up] obtain k' where
      k': "rounded (length leaves) (C + 2 ^ level) k' level'" "odd k'" "h' = node H leaves level' (k' - 1)" by blast
    from up_loop_branch [OF n i r(2,1) hh ok up] obtain k'' where
      k'': "C + 2 ^ level = k'' * 2 ^ level'" "branch_ok H leaves pos (length leaves) level' (k'' - 1) mh matchlevel br" by blast
    then have "k'' = k'" using k'(1) by (simp add: rounded_def)
    have "C \<noteq> 2 ^ level" using c False by simp
    then have "sweep_loop H True inner matchlevel C level h matchh branch = sweep_loop H True inner matchlevel (C + 2 ^ level) level' h' mh br"
      using l up by (subst sweep_loop.simps) simp
    moreover have "snd (sweep_loop H True inner matchlevel (C + 2 ^ level) level' h' mh br) =
        map (sib H leaves pos) [0..<height_loop (of_nat (length leaves)) 0]"
      by (rule less.hyps [OF _ k']) (use up_loop_less [OF up] l k''(2) \<open>k'' = k'\<close> in auto)
    ultimately show ?thesis by simp
  qed
qed

lemma ComputeMerkleBranch_siblings:
  assumes n: "length leaves \<le> 2 ^ 31" and pos: "pos < length leaves"
  shows "ComputeMerkleBranch H leaves pos = map (sib H leaves pos) [0..<height_loop (of_nat (length leaves)) 0]"
proof -
  let ?init = "replicate 32 (replicate 32 0) :: uint256 list"
  obtain c inner ml br mu where ll: "leaves_loop H True pos leaves 0 ?init (- 1) [] False = (c, inner, ml, br, mu)" by (metis prod_cases5)
  have i0: "inner_ok H leaves (length ([] :: uint256 list)) ?init" "False \<longleftrightarrow> twins H leaves (length ([] :: uint256 list))"
    "kept_at H leaves pos (length ([] :: uint256 list)) 0 (- 1) []"
    by (simp_all add: inner_ok_def twins_def kept_at_def)
  have l0: "leaves_loop H True pos leaves (length ([] :: uint256 list)) ?init (- 1) [] False = (c, inner, ml, br, mu)" using ll by simp
  from leaves_loop_root [OF n _ i0(1,2) l0] have r: "c = length leaves" "inner_ok H leaves (length leaves) inner" by simp_all
  have ka: "kept_at H leaves pos (length leaves) 0 ml br" using leaves_loop_branch [OF n _ i0(1,3) l0] by simp
  define level where "level = skip_loop (length leaves) 0"
  obtain k where k: "length leaves = k * 2 ^ level" "odd k"
    using skip_loop_lowest [of "length leaves" "length leaves" 0] n less_nat_zero_code pos by (fastforce simp: level_def)
  have ro: "rounded (length leaves) (length leaves) k level" by (rule rounded_start [OF n _ k]) (use pos in auto)
  have inn: "inner ! level = node H leaves level (k - 1)"
    using r(2) rounded_level [OF ro] k unfolding inner_ok_def bit_iff_odd by simp
  have d: "length leaves div 2 ^ level = k" using k by simp
  obtain m where m: "m < 32" "ml = int m" "bit (length leaves) m" "pos div 2 ^ m + 1 = length leaves div 2 ^ m" "br = map (sib H leaves pos) [0..<m]"
    using ka pos by (auto simp: kept_at_def)
  have lm: "level \<le> m"
  proof (rule ccontr)
    assume lt: "\<not> level \<le> m"
    then have "(2 :: nat) ^ level = 2 ^ (level - m) * 2 ^ m" by (simp flip: power_add)
    then have "length leaves div 2 ^ m = k * 2 ^ (level - m)" using k(1) by simp
    then show False using m(3) lt by (simp add: bit_iff_odd)
  qed
  have "branch_ok H leaves pos (length leaves) level (k - 1) (ml = int level) ml br"
  proof (cases "m = level")
    case True
    then show ?thesis using m d by (auto simp: branch_ok_def)
  next
    case False
    have "pos div 2 ^ level \<noteq> k - 1"
    proof
      assume p: "pos div 2 ^ level = k - 1"
      then have "pos div 2 ^ Suc level = length leaves div 2 ^ Suc level" unfolding div_pow_Suc d using k(2) by (auto elim: oddE)
      then show False using kept_at_higher [OF ka _ pos, of "Suc level"] m(2) lm False by auto
    qed
    moreover have "kept_at H leaves pos (length leaves) level ml br" using pos m lm by (auto simp: kept_at_def)
    ultimately show ?thesis using m(2) False by (simp add: branch_ok_def)
  qed
  from sweep_loop_branch [OF n r(2) pos ro k(2) inn this]
  show ?thesis using ll r pos by (auto simp: ComputeMerkleBranch_def MerkleComputation_def Let_def level_def split: prod.split)
qed

lemma branch_from_node:
  assumes n: "length leaves \<le> 2 ^ 31" and "l \<le> K" "K \<le> 32" "pos < length leaves"
  shows "ComputeMerkleRootFromBranch H (node H leaves l (pos div 2 ^ l)) (map (sib H leaves pos) [l..<K]) (pos div 2 ^ l) =
    node H leaves K (pos div 2 ^ K)"
  using assms(2-)
proof (induction "K - l" arbitrary: l)
  case (Suc d)
  let ?p = "pos div 2 ^ l"
  have l: "l < K" "l < 32" using Suc by simp_all
  have le: "?p * 2 ^ l \<le> pos" by simp
  have "(if odd ?p then Hash2 H (sib H leaves pos l) (node H leaves l ?p) else Hash2 H (node H leaves l ?p) (sib H leaves pos l)) =
      node H leaves (Suc l) (?p div 2)"
  proof (cases "odd ?p")
    case True
    then obtain q where q: "?p = 2 * q + 1" by (auto elim: oddE)
    then have "(2 * q + 1) * 2 ^ l < length leaves" using le Suc.prems(3) by simp
    then show ?thesis using node_pair [OF n l(2), of q H] q by (simp add: sib_def)
  next
    case False
    then obtain q where q: "?p = 2 * q" by (auto elim: evenE)
    show ?thesis
      using node_pair [OF n l(2), of q H] node_single [OF n l(2), of q H] q
      by (cases "(2 * q + 1) * 2 ^ l < length leaves") (simp_all add: sib_def)
  qed
  moreover have "[l..<K] = l # [Suc l..<K]" using l by (simp add: upt_conv_Cons)
  ultimately show ?case using Suc.hyps(1) [of "Suc l"] Suc.hyps(2) Suc.prems l by (simp add: div_pow_Suc [symmetric])
qed simp

section \<open>What a root commits to\<close>

text \<open>The strings that are hashed to compute the tree.\<close>

definition node_input :: "hash_funs \<Rightarrow> uint256 list \<Rightarrow> nat \<Rightarrow> nat \<Rightarrow> bytes" where
  "node_input H leaves l p = node H leaves l (2 * p) @
     (if (2 * p + 1) * 2 ^ l < length leaves then node H leaves l (2 * p + 1) else node H leaves l (2 * p))"

definition tree_inputs :: "hash_funs \<Rightarrow> uint256 list \<Rightarrow> bytes set" where
  "tree_inputs H leaves = {node_input H leaves l p |l p. 2 ^ l < length leaves \<and> p * 2 ^ Suc l < length leaves}"

definition leaves_ok :: "uint256 list \<Rightarrow> bool" where
  "leaves_ok leaves \<longleftrightarrow> leaves \<noteq> [] \<and> length leaves \<le> 2 ^ 31 \<and> (\<forall>x\<in>set leaves. length x = 32)"

lemma node_Suc:
  assumes "length leaves \<le> 2 ^ 31" "l < 31"
  shows "node H leaves (Suc l) p = CHash256 H (node_input H leaves l p)"
  using node_pair [of leaves l p H] node_single [of leaves l p H] assms by (auto simp: node_input_def Hash2_def not_less)

lemma node_length:
  assumes "leaves_ok leaves" "hash_ok H" "l \<le> 31" "p * 2 ^ l < length leaves"
  shows "length (node H leaves l p) = 32"
proof (cases l)
  case 0
  then show ?thesis using assms(1,4) by (simp add: leaves_ok_def)
next
  case (Suc m)
  then show ?thesis using node_Suc [of leaves m H p] assms(1-3) by (simp add: leaves_ok_def CHash256_def hash_ok_def)
qed

lemma exists_left: "p * 2 ^ Suc l < n \<Longrightarrow> (2 * p) * 2 ^ l < (n :: nat)"
  by (simp add: mult.commute mult.left_commute)

lemma pow_less_31: "2 ^ l < length xs \<Longrightarrow> leaves_ok xs \<Longrightarrow> l < 31"
proof (rule ccontr)
  assume a: "2 ^ l < length xs" "leaves_ok xs" "\<not> l < 31"
  then have "(2 :: nat) ^ 31 \<le> 2 ^ l" by (intro power_increasing) simp_all
  then show False using a by (simp add: leaves_ok_def)
qed

lemma same_input:
  assumes h: "hash_ok H" and a: "leaves_ok xs" "2 ^ l < length xs" "p * 2 ^ Suc l < length xs"
    and b: "leaves_ok ys" "2 ^ l < length ys" "q * 2 ^ Suc l < length ys"
    and inj: "inj_on (CHash256 H) (tree_inputs H xs \<union> tree_inputs H ys)" and eq: "node H xs (Suc l) p = node H ys (Suc l) q"
  shows "node H xs l (2 * p) = node H ys l (2 * q)"
    and "(if (2 * p + 1) * 2 ^ l < length xs then node H xs l (2 * p + 1) else node H xs l (2 * p)) =
      (if (2 * q + 1) * 2 ^ l < length ys then node H ys l (2 * q + 1) else node H ys l (2 * q))"
proof -
  have l: "l < 31" by (rule pow_less_31 [OF a(2,1)])
  have "node_input H xs l p \<in> tree_inputs H xs" "node_input H ys l q \<in> tree_inputs H ys"
    using a(2,3) b(2,3) by (auto simp: tree_inputs_def)
  moreover have "CHash256 H (node_input H xs l p) = CHash256 H (node_input H ys l q)"
    using eq node_Suc [of xs l H p] node_Suc [of ys l H q] a(1) b(1) l by (simp add: leaves_ok_def)
  ultimately have "node_input H xs l p = node_input H ys l q" using inj by (meson UnI1 UnI2 inj_onD)
  moreover have "length (node H xs l (2 * p)) = length (node H ys l (2 * q))"
    using node_length [OF a(1) h _ exists_left [OF a(3)]] node_length [OF b(1) h _ exists_left [OF b(3)]] l by simp
  ultimately have "node H xs l (2 * p) = node H ys l (2 * q) \<and>
      (if (2 * p + 1) * 2 ^ l < length xs then node H xs l (2 * p + 1) else node H xs l (2 * p)) =
      (if (2 * q + 1) * 2 ^ l < length ys then node H ys l (2 * q + 1) else node H ys l (2 * q))"
    unfolding node_input_def using append_eq_append_conv by blast
  then show "node H xs l (2 * p) = node H ys l (2 * q)"
    and "(if (2 * p + 1) * 2 ^ l < length xs then node H xs l (2 * p + 1) else node H xs l (2 * p)) =
      (if (2 * q + 1) * 2 ^ l < length ys then node H ys l (2 * q + 1) else node H ys l (2 * q))" by blast+
qed

lemma incomplete_twin:
  assumes h: "hash_ok H" and x: "leaves_ok xs" and inj: "inj_on (CHash256 H) (tree_inputs H xs)"
    and "l \<le> 31" "(p + 1) * 2 ^ l \<le> length xs" "q * 2 ^ l < length xs" "length xs < (q + 1) * 2 ^ l" "node H xs l p = node H xs l q"
  shows "twins H xs (length xs)"
  using assms(4-)
proof (induction l arbitrary: p q)
  case (Suc l)
  have l: "l < 31" using Suc.prems(1) by simp
  have "p * 2 ^ Suc l < (p + 1) * 2 ^ Suc l" "(2 * p + 2) * 2 ^ l = (p + 1) * 2 ^ Suc l" by simp_all
  then have p: "(2 * p + 2) * 2 ^ l \<le> length xs" "p * 2 ^ Suc l < length xs" using Suc.prems(2) by linarith+
  have p1: "(2 * p + 1) * 2 ^ l < length xs" using p(1) by (rule order.strict_trans2 [rotated]) simp
  have "(2 :: nat) ^ l < (2 * p + 2) * 2 ^ l" by simp
  then have p2: "2 ^ l < length xs" using p(1) by linarith
  note s = same_input [OF h x p2 p(2) x p2 Suc.prems(3) _ Suc.prems(5), simplified Un_absorb, OF inj]
  show ?case
  proof (cases "(2 * q + 1) * 2 ^ l < length xs")
    case True
    have "node H xs l (2 * p + 1) = node H xs l (2 * q + 1)" using s(2) p1 True by simp
    then show ?thesis using Suc.IH [of "2 * p + 1" "2 * q + 1"] Suc.prems l p(1) True by (simp add: algebra_simps)
  next
    case False
    then have "node H xs l (2 * p) = node H xs l (2 * p + 1)" using s p1 by simp
    then show ?thesis using p(1) unfolding twins_def by blast
  qed
qed simp

lemma equal_siblings:
  assumes h: "hash_ok H" "leaves_ok xs" "inj_on (CHash256 H) (tree_inputs H xs)" "l \<le> 31"
    and "(2 * q + 1) * 2 ^ l < length xs" "node H xs l (2 * q) = node H xs l (2 * q + 1)"
  shows "twins H xs (length xs)"
proof (cases "(2 * q + 2) * 2 ^ l \<le> length xs")
  case True
  then show ?thesis using assms(6) unfolding twins_def by blast
next
  case False
  then show ?thesis using incomplete_twin [OF h, of "2 * q" "2 * q + 1"] assms(5,6) by simp
qed

definition same_level :: "hash_funs \<Rightarrow> uint256 list \<Rightarrow> uint256 list \<Rightarrow> nat \<Rightarrow> bool" where
  "same_level H xs ys l \<longleftrightarrow> (\<forall>p. p * 2 ^ l < length xs \<longrightarrow> p * 2 ^ l < length ys \<and> node H xs l p = node H ys l p)"

lemma same_level_below:
  assumes h: "hash_ok H" and x: "leaves_ok xs" "\<not> twins H xs (length xs)" and y: "leaves_ok ys" and l: "2 ^ l < length xs" "2 ^ l < length ys"
    and inj: "inj_on (CHash256 H) (tree_inputs H xs \<union> tree_inputs H ys)" and same: "same_level H xs ys (Suc l)"
  shows "same_level H xs ys l"
  unfolding same_level_def
proof (intro allI impI)
  fix p assume p: "p * 2 ^ l < length xs"
  define q where "q = p div 2"
  have "(2 * q) * 2 ^ l \<le> p * 2 ^ l" by (intro mult_right_mono) (simp_all add: q_def)
  then have "q * 2 ^ Suc l \<le> p * 2 ^ l" by (simp only: power_Suc mult.assoc mult.commute mult.left_commute)
  then have qx: "q * 2 ^ Suc l < length xs" using p by linarith
  then have qy: "q * 2 ^ Suc l < length ys" "node H xs (Suc l) q = node H ys (Suc l) q" using same unfolding same_level_def by blast+
  note s = same_input [OF h x(1) l(1) qx y l(2) qy(1) inj qy(2)]
  show "p * 2 ^ l < length ys \<and> node H xs l p = node H ys l p"
  proof (cases "even p")
    case True
    then have "p = 2 * q" by (simp add: q_def)
    then show ?thesis using s(1) exists_left [OF qy(1)] by simp
  next
    case False
    then have pq: "p = 2 * q + 1" by (simp add: q_def odd_two_times_div_two_succ)
    have "(2 * q + 1) * 2 ^ l < length ys"
    proof (rule ccontr)
      assume "\<not> (2 * q + 1) * 2 ^ l < length ys"
      then have "node H xs l (2 * q) = node H xs l (2 * q + 1)" using s p pq by simp
      then have "twins H xs (length xs)" using equal_siblings [OF h x(1) inj_on_subset [OF inj], of l q] pow_less_31 [OF l(1) x(1)] p pq by simp
      then show False using x(2) by simp
    qed
    then show ?thesis using s(2) p pq by simp
  qed
qed

lemma same_root_leaves:
  assumes h: "hash_ok H" and x: "leaves_ok xs" "\<not> twins H xs (length xs)" and y: "leaves_ok ys"
    and inj: "inj_on (CHash256 H) (tree_inputs H xs \<union> tree_inputs H ys)"
    and K: "\<And>l. l < K \<Longrightarrow> 2 ^ l < length xs \<and> 2 ^ l < length ys" "length xs \<le> 2 ^ K" "node H xs K 0 = node H ys K 0"
  shows "same_level H xs ys 0"
proof -
  have "same_level H xs ys (K - i)" if "i \<le> K" for i
    using that
  proof (induction i)
    case 0
    have "p = 0" if "p * 2 ^ K < length xs" for p using that K(2) by (cases p) auto
    moreover have "0 < length ys" using y by (simp add: leaves_ok_def)
    ultimately show ?case using K(3) unfolding same_level_def by fastforce
  next
    case (Suc i)
    then show ?case using same_level_below [OF h x y _ _ inj, of "K - Suc i"] K(1) [of "K - Suc i"] by (simp add: Suc_diff_Suc)
  qed
  from this [of K] show ?thesis by simp
qed

lemma roots_bind:
  assumes h: "hash_ok H" and x: "leaves_ok xs" "\<not> twins H xs (length xs)" and y: "leaves_ok ys" "\<not> twins H ys (length ys)"
    and inj: "inj_on (CHash256 H) (tree_inputs H xs \<union> tree_inputs H ys)"
    and K: "height_loop (of_nat (length xs)) 0 = K" "height_loop (of_nat (length ys)) 0 = K" "node H xs K 0 = node H ys K 0"
  shows "xs = ys"
proof -
  have n: "length xs \<le> 2 ^ 31" "length ys \<le> 2 ^ 31" using x(1) y(1) by (simp_all add: leaves_ok_def)
  have le: "length xs \<le> 2 ^ K" "length ys \<le> 2 ^ K" using height_loop_ok(2) [OF n(1)] height_loop_ok(2) [OF n(2)] K(1,2) by simp_all
  have below: "2 ^ l < length xs" "2 ^ l < length ys" if "l < K" for l
    using height_loop_below [OF n(1)] height_loop_below [OF n(2)] K(1,2) that by simp_all
  have a: "same_level H xs ys 0" by (rule same_root_leaves [OF h x y(1) inj _ le(1) K(3)]) (use below in blast)
  have b: "same_level H ys xs 0" by (rule same_root_leaves [OF h y x(1) _ _ le(2) K(3) [symmetric]]) (use inj below in \<open>auto simp: Un_commute\<close>)
  have "\<not> length ys < length xs" "\<not> length xs < length ys" using a b unfolding same_level_def by (metis less_irrefl mult.right_neutral power_0)+
  then show ?thesis using a by (intro nth_equalityI) (auto simp: same_level_def)
qed

section \<open>Properties\<close>

text \<open>C26. For 1 to 2 ^ 31 leaves, the root computed in one pass with 32 stored hashes is the hash of the top node of the tree as the partial trees
  define it recursively, and the flag for repeated subtrees says exactly that two complete neighbours of the tree are equal.\<close>

theorem merkle_root_recursive:
  assumes "length leaves \<le> 2 ^ 31" "leaves \<noteq> []"
  shows "ComputeMerkleRoot H leaves =
    (CalcHash H (of_nat (length leaves)) (height_loop (of_nat (length leaves)) 0) 0 leaves,
     \<exists>l q. (2 * q + 2) * 2 ^ l \<le> length leaves \<and>
       CalcHash H (of_nat (length leaves)) l (2 * q) leaves = CalcHash H (of_nat (length leaves)) l (2 * q + 1) leaves)"
  using MerkleComputation_root [OF assms, of H "2 ^ 32 - 1" False] by (auto simp: ComputeMerkleRoot_def twins_def)

definition two_leaves :: "uint256 list" where
  "two_leaves = [replicate 32 1, replicate 32 3]"

theorem merkle_root_recursive_witness:
  "ComputeMerkleRoot demo_hash [replicate 32 1] =
     (CalcHash demo_hash 1 (height_loop 1 0) 0 [replicate 32 1], \<exists>l q. (2 * q + 2) * 2 ^ l \<le> (1 :: nat) \<and>
       CalcHash demo_hash 1 l (2 * q) [replicate 32 1] = CalcHash demo_hash 1 l (2 * q + 1) [replicate 32 1])"
  using merkle_root_recursive [of "[replicate 32 1]" demo_hash] by simp

text \<open>The branch of a position leads from its leaf to the root.\<close>

theorem merkle_branch_verifies:
  assumes "length leaves \<le> 2 ^ 31" "position < length leaves"
  shows "ComputeMerkleRootFromBranch H (leaves ! position) (ComputeMerkleBranch H leaves position) position = fst (ComputeMerkleRoot H leaves)"
proof -
  let ?K = "height_loop (of_nat (length leaves)) 0"
  have K: "?K \<le> 32" "position div 2 ^ ?K = 0" using height_loop_ok [OF assms(1)] assms(2) by simp_all
  have "leaves \<noteq> []" using assms(2) by auto
  from MerkleComputation_root [OF assms(1) this, of H "2 ^ 32 - 1" False]
  have "fst (ComputeMerkleRoot H leaves) = node H leaves ?K 0" by (auto simp: ComputeMerkleRoot_def)
  then show ?thesis
    using branch_from_node [OF assms(1) _ K(1) assms(2), of 0 H] ComputeMerkleBranch_siblings [OF assms, of H] K(2) by simp
qed

theorem merkle_branch_verifies_witness:
  "ComputeMerkleRootFromBranch demo_hash (two_leaves ! 1) (ComputeMerkleBranch demo_hash two_leaves 1) 1 = fst (ComputeMerkleRoot demo_hash two_leaves)"
  using merkle_branch_verifies [of two_leaves 1 demo_hash] by (simp add: two_leaves_def)

text \<open>A root commits to its leaves: two lists whose trees have the same height and the same root, neither with
  repeated subtrees, are equal, provided that the hash function has no collision among the strings hashed for the
  two trees. This is what the check for repeated subtrees is for: without it lists of different lengths have the
  same root.\<close>

theorem merkle_root_binds:
  assumes "hash_ok H" "leaves_ok xs" "leaves_ok ys"
    and "height_loop (of_nat (length xs)) 0 = height_loop (of_nat (length ys)) 0"
    and "inj_on (CHash256 H) (tree_inputs H xs \<union> tree_inputs H ys)"
    and "ComputeMerkleRoot H xs = (root, False)" "ComputeMerkleRoot H ys = (root, False)"
  shows "xs = ys"
proof -
  have "length xs \<le> 2 ^ 31" "xs \<noteq> []" "length ys \<le> 2 ^ 31" "ys \<noteq> []" using assms(2,3) by (simp_all add: leaves_ok_def)
  from MerkleComputation_root [OF this(1,2), of H "2 ^ 32 - 1" False] MerkleComputation_root [OF this(3,4), of H "2 ^ 32 - 1" False]
  have "node H xs (height_loop (of_nat (length xs)) 0) 0 = root" "\<not> twins H xs (length xs)"
    "node H ys (height_loop (of_nat (length ys)) 0) 0 = root" "\<not> twins H ys (length ys)"
    using assms(6,7) by (auto simp: ComputeMerkleRoot_def)
  then show ?thesis using roots_bind [OF assms(1,2) _ assms(3) _ assms(5) refl assms(4) [symmetric]] assms(4) by simp
qed

lemma two_leaves_ok: "leaves_ok two_leaves" "hash_ok demo_hash"
  by (simp_all add: leaves_ok_def two_leaves_def hash_ok_def demo_hash_def)

lemma two_leaves_height: "height_loop 2 0 = 1"
  using height_loop_least [of 2 1] by simp

lemma two_leaves_root: "ComputeMerkleRoot demo_hash two_leaves = (replicate 32 2, False)"
proof -
  have "replicate 32 1 \<noteq> (replicate 32 3 :: bytes)" by code_simp
  then show ?thesis by (simp add: two_leaves_def root_two Hash2_def CHash256_def demo_hash_def)
qed

lemma inputs_two: "tree_inputs H [a, b] = {a @ b}"
proof -
  have "2 ^ l < length [a, b] \<and> p * 2 ^ Suc l < length [a, b] \<longleftrightarrow> l = 0 \<and> p = 0" for l p :: nat
    using power_strict_increasing_iff [of "2 :: nat" l 1] by auto
  then have "tree_inputs H [a, b] = {node_input H [a, b] 0 0}" unfolding tree_inputs_def by (simp only:) auto
  then show ?thesis by (simp add: node_input_def)
qed

lemma two_leaves_inputs: "tree_inputs demo_hash two_leaves = {replicate 32 1 @ replicate 32 3}"
  by (simp add: two_leaves_def inputs_two)

theorem merkle_root_binds_witness:
  "inj_on (CHash256 demo_hash) (tree_inputs demo_hash two_leaves) \<and> ComputeMerkleRoot demo_hash two_leaves = (replicate 32 2, False) \<and>
   two_leaves = [replicate 32 1, replicate 32 3]"
proof -
  have i: "inj_on (CHash256 demo_hash) (tree_inputs demo_hash two_leaves)" by (simp add: two_leaves_inputs)
  then have "inj_on (CHash256 demo_hash) (tree_inputs demo_hash two_leaves \<union> tree_inputs demo_hash two_leaves)" by simp
  from merkle_root_binds [OF two_leaves_ok(2,1,1) refl this two_leaves_root two_leaves_root] i two_leaves_root show ?thesis
    by (simp add: two_leaves_def)
qed

end
