(* ===== verification/BlockProps.thy ===== *)
theory BlockProps
  imports DisconnectProps MerkleProps
begin

text \<open>
  What the checks of headers and blocks guarantee, and where they fall short: the codecs of headers, blocks and
  locators, the index of headers as it grows, the commitment of an accepted block to its transactions, the sum of all
  subsidies, and the role of the mix hash.
\<close>

section \<open>Codecs\<close>

definition header_ok :: "CBlockHeader \<Rightarrow> bool" where
  "header_ok h \<longleftrightarrow> - (2 ^ 31) \<le> hdrVersion h \<and> hdrVersion h < 2 ^ 31 \<and> length (hashPrevBlock h) = 32 \<and> length (hashMerkleRoot h) = 32 \<and>
     length (mix_hash h) = 32 \<and> hdrNonce h = 0 \<and> cachedPoWHash h = replicate 32 0"

definition block_ok :: "CBlock \<Rightarrow> bool" where
  "block_ok b \<longleftrightarrow> header_ok (CBlockHeader.truncate b) \<and> \<not> fChecked b \<and> list_all (tx_ok True) (vtx b) \<and> length (vtx b) \<le> MAX_SIZE"

lemma sint_u32_back: "- (2 ^ 31) \<le> v \<Longrightarrow> v < 2 ^ 31 \<Longrightarrow> sint (word_of_int v :: u32) = v"
  by (simp add: sint_sbintrunc' signed_take_bit_int_eq_self)

lemma sint_u32_range: "- 2147483648 \<le> sint (w :: u32)" "sint (w :: u32) < 2147483648"
  using sint_greater_eq [of w] sint_lt [of w] by simp_all

interpretation hash256: canonical_codec "\<lambda>h. h" "read_bytes 32" "\<lambda>h. length h = 32"
  by unfold_locales (auto simp: read_bytes_append dest: read_bytes_canonical)

interpretation header: canonical_codec ser_CBlockHeader unser_CBlockHeader header_ok
proof
  fix h r assume "header_ok h"
  then show "unser_CBlockHeader (ser_CBlockHeader h @ r) = Inr (h, r)"
    by (cases h) (simp add: unser_CBlockHeader_def ser_CBlockHeader_def header_ok_def u32.read_back u64.read_back hash256.read_back sint_u32_back Header_SetNull_def)
next
  fix s h r assume "unser_CBlockHeader s = Inr (h, r)"
  then show "header_ok h \<and> s = ser_CBlockHeader h @ r"
    by (auto simp: unser_CBlockHeader_def bindE_eq_Inr_iff u32.accepts_iff u64.accepts_iff hash256.accepts_iff header_ok_def ser_CBlockHeader_def
        Header_SetNull_def sint_u32_range)
qed

interpretation txs: codec "Serialize_vector (SerializeTransaction True)" "Unserialize_vector (UnserializeTransaction True)"
  "\<lambda>v. list_all (tx_ok True) v \<and> length v \<le> MAX_SIZE"
  by (rule codec_vector) (unfold_locales, rule tx_read_back)

interpretation hashes256: canonical_codec "Serialize_vector (\<lambda>h. h)" "Unserialize_vector (read_bytes 32)"
  "\<lambda>v. list_all (\<lambda>h. length h = 32) v \<and> length v \<le> MAX_SIZE"
  by (rule canonical_vector) (rule hash256.canonical_codec_axioms)

lemma block_parts: "ser_CBlockHeader (CBlockHeader.truncate b) = ser_CBlockHeader b"
  "CBlockHeader.extend (CBlockHeader.truncate b) \<lparr>vtx = vtx b, fChecked = fChecked b\<rparr> = (b :: CBlock)"
  by (simp_all add: ser_CBlockHeader_def CBlockHeader.defs)

interpretation block: codec ser_CBlock unser_CBlock block_ok
proof
  fix b :: CBlock and r
  assume b: "block_ok b"
  then have "unser_CBlockHeader (ser_CBlockHeader b @ t) = Inr (CBlockHeader.truncate b, t)" for t
    using header.read_back [of "CBlockHeader.truncate b" t] by (simp add: block_ok_def block_parts)
  then show "unser_CBlock (ser_CBlock b @ r) = Inr (b, r)"
    using b txs.read_back [of "vtx b" r] block_parts(2) [of b] by (simp add: unser_CBlock_def ser_CBlock_def block_ok_def)
qed

section \<open>The index of headers\<close>

lemma AddToBlockIndex_keeps:
  assumes "tree_ok T" "mapBlockIndex T hash \<noteq> None \<or> mapBlockIndex T (hashPrevBlock block) \<noteq> None"
    and "AddToBlockIndex (\<lambda>_. hash) block T = Inr (p, T')"
  shows "tree_ok T' \<and> p \<in> nodes T' \<and> map_le (mapBlockIndex T) (mapBlockIndex T') \<and> (\<forall>a\<in>nodes T. blocks T' a = blocks T a)"
proof (cases "mapBlockIndex T hash")
  case None
  then have "hashPrevBlock block \<noteq> hash" "mapBlockIndex T (hashPrevBlock block) = None \<longrightarrow> hdrHeight block = 0" using assms(2) by auto
  from AddToBlockIndex_tree [where hdrHash = "\<lambda>_. hash" and block = block, OF assms(1) None this] assms(3) None show ?thesis
    by (auto simp: map_le_def nodes_def)
next
  case (Some q)
  with assms(1,3) show ?thesis by (auto simp: AddToBlockIndex_def nodes_def)
qed

lemma adds_iff:
  "(case hash of
      None \<Rightarrow> Inl AssertMixHash
    | Some hash \<Rightarrow> (case AddToBlockIndex (\<lambda>_. hash) block T of Inl e \<Rightarrow> Inl (ChainError e) | Inr (p, T) \<Rightarrow> Inr (p, s, T))) = Inr (p, s', T') \<longleftrightarrow>
   s' = s \<and> (\<exists>h. hash = Some h \<and> AddToBlockIndex (\<lambda>_. h) block T = Inr (p, T'))"
  by (auto split: option.split sum.split)

lemma AcceptBlockHeader_keeps:
  assumes "tree_ok T" "mapBlockIndex T (hashGenesisBlock P) \<noteq> None"
    and "AcceptBlockHeader E P checkpoints fCheckpointsEnabled adjustedTime fCheckPOW block s T = Inr (p, s', T')"
  shows "tree_ok T' \<and> p \<in> nodes T' \<and> map_le (mapBlockIndex T) (mapBlockIndex T') \<and> (\<forall>a\<in>nodes T. blocks T' a = blocks T a)"
proof -
  obtain hash where h: "Header_GetHash (progpow E) (hashes E) block = Some hash" using assms(3) by (cases "Header_GetHash (progpow E) (hashes E) block") (auto simp: AcceptBlockHeader_def)
  consider (old) q where "hash \<noteq> hashGenesisBlock P" "mapBlockIndex T hash = Some q" "p = q" "T' = T"
    | (new) b hash2 where "AddToBlockIndex (\<lambda>_. hash2) b T = Inr (p, T')" "mapBlockIndex T hash2 \<noteq> None \<or> mapBlockIndex T (hashPrevBlock b) \<noteq> None"
    using assms(2,3) h by (auto simp: AcceptBlockHeader_def Let_def bindE_eq_Inr_iff adds_iff split: if_splits option.splits sum.splits prod.splits)
  then show ?thesis
  proof cases
    case old
    then show ?thesis using assms(1) by (auto simp: nodes_def)
  next
    case new
    then show ?thesis using AddToBlockIndex_keeps [OF assms(1)] by blast
  qed
qed

lemma ProcessNewBlockHeaders_keeps:
  assumes "tree_ok T" "mapBlockIndex T (hashGenesisBlock P) \<noteq> None"
    and "ProcessNewBlockHeaders E P checkpoints fCheckpointsEnabled adjustedTime headers s pp T = (r, pp', T')"
  shows "tree_ok T' \<and> map_le (mapBlockIndex T) (mapBlockIndex T') \<and> (\<forall>a\<in>nodes T. blocks T' a = blocks T a) \<and>
    (pp' = pp \<or> (\<exists>p\<in>nodes T'. pp' = Some p)) \<and> ((\<exists>s'. r = Inr s') \<and> headers \<noteq> [] \<longrightarrow> (\<exists>p\<in>nodes T'. pp' = Some p))"
  using assms
proof (induction headers arbitrary: s pp T)
  case (Cons h hs)
  show ?case
  proof (cases "AcceptBlockHeader E P checkpoints fCheckpointsEnabled adjustedTime True h s T")
    case (Inl e)
    then show ?thesis using Cons.prems by auto
  next
    case (Inr x)
    obtain p s1 T1 where x: "x = (p, s1, T1)" by (cases x)
    have b: "ProcessNewBlockHeaders E P checkpoints fCheckpointsEnabled adjustedTime hs s1 (Some p) T1 = (r, pp', T')"
      using Cons.prems(3) Inr x by simp
    note k = AcceptBlockHeader_keeps [OF Cons.prems(1,2) Inr [unfolded x]]
    then have n: "nodes T \<subseteq> nodes T1" by (fastforce simp: nodes_def map_le_def ran_def dom_def)
    from k Cons.prems(2) have g: "mapBlockIndex T1 (hashGenesisBlock P) \<noteq> None" by (auto simp: map_le_def dom_def)
    note i = Cons.IH [OF conjunct1 [OF k] g b]
    then have "nodes T1 \<subseteq> nodes T'" by (fastforce simp: nodes_def map_le_def ran_def dom_def)
    then show ?thesis using i k n by (auto intro: map_le_trans)
  qed
qed simp

text \<open>A message that ends in a rejection leaves what the headers before the rejected one lead to.\<close>

lemma ProcessNewBlockHeaders_rejects:
  assumes "ProcessNewBlockHeaders E P checkpoints fCheckpointsEnabled adjustedTime headers s pp T = (Inl e, pp', T')"
  shows "\<exists>k < length headers. \<exists>s'. ProcessNewBlockHeaders E P checkpoints fCheckpointsEnabled adjustedTime (take k headers) s pp T = (Inr s', pp', T') \<and>
    AcceptBlockHeader E P checkpoints fCheckpointsEnabled adjustedTime True (headers ! k) s' T' = Inl e"
  using assms
proof (induction headers arbitrary: s pp T)
  case (Cons h hs)
  show ?case
  proof (cases "AcceptBlockHeader E P checkpoints fCheckpointsEnabled adjustedTime True h s T")
    case (Inl e)
    then show ?thesis using Cons.prems by (intro exI [of _ 0]) simp
  next
    case (Inr x)
    obtain p s1 T1 where x: "x = (p, s1, T1)" by (cases x)
    with Inr Cons.prems have "ProcessNewBlockHeaders E P checkpoints fCheckpointsEnabled adjustedTime hs s1 (Some p) T1 = (Inl e, pp', T')" by simp
    from Cons.IH [OF this] obtain k s' where "k < length hs"
      "ProcessNewBlockHeaders E P checkpoints fCheckpointsEnabled adjustedTime (take k hs) s1 (Some p) T1 = (Inr s', pp', T')"
      "AcceptBlockHeader E P checkpoints fCheckpointsEnabled adjustedTime True (hs ! k) s' T' = Inl e" by blast
    then show ?thesis using Inr x by (intro exI [of _ "Suc k"] conjI exI [of _ s']) simp_all
  qed
qed simp

section \<open>Subsidies\<close>



section \<open>The commitment to the transactions\<close>

lemma CheckBlock_merkle:
  assumes "CheckBlock E P T chain pow True h vdb block s = (Inr s', block')" "\<not> fChecked block"
  shows "BlockMerkleRoot (hashes E) block = (hashMerkleRoot block, False) \<and> vtx block \<noteq> [] \<and> length (vtx block) \<le> 2000000"
proof -
  obtain r b where hd: "CheckBlockHeader E P pow block s = (r, b)" by fastforce
  have b: "b = (if pow then block\<lparr>mix_hash := snd (progpow_hash_full (progpow E) (hashes E) block)\<rparr> else block)"
    using hd by (auto simp: CheckBlockHeader_def GetHashFull_def split: prod.splits if_splits)
  have n: "Header_GetHash (progpow E) (hashes E) block \<noteq> None"
    using assms(1) by (intro notI) (simp add: CheckBlock_def)
  obtain s1 where s1: "r = Inr s1" using assms hd n by (cases r) (auto simp: CheckBlock_def)
  obtain s2 where body: "check_body E P T chain True vdb h b s1 = Inr s2"
    using assms hd n s1 by (cases "check_body E P T chain True vdb h b s1") (auto simp: CheckBlock_def)
  then obtain s3 where "check_merkle (hashes E) b s1 = Inr s3" "vtx b \<noteq> []" "length (vtx b) \<le> 2000000"
    by (auto simp: check_body_def bindE_eq_Inr_iff fail_if_def split: if_splits)
  then show ?thesis using b by (auto simp: check_merkle_def BlockMerkleRoot_def split: prod.splits if_splits)
qed

section \<open>Properties\<close>

text \<open>C11. Every coin that connecting a block leaves in the set of unspent outputs is well-formed (it is unspent, has a script that can be spent and a
  height above 0) and the cache of coins stays consistent, if both held before. The block is not the genesis block and is at a height below 2147483647,
  above 0 and above that from which inputs are checked for duplicates; it is either checked by \<open>ConnectBlock\<close> itself or was marked as checked
  when it passed \<open>CheckBlock\<close> for the same height. All networks and heights are covered, also those where repeated transactions are let through.\<close>

theorem connect_keeps_coins:
  assumes "cache_ok script_usage db_ok db_utxo view" "utxo_wf (cache_utxo db_utxo view)"
    and "ConnectBlock script_usage DB_GetCoin DB_GetBestBlock E P whitelisted hashAssumeValid T chainActive pindex fJustCheck block s view cache = Inr r"
    and "fChecked block \<longrightarrow> passed_checks E P (nHeight (blocks T pindex)) block" "\<not> is_genesis E P block" "nHeight (blocks T pindex) \<noteq> INT_MAX" "0 < nHeight (blocks T pindex)"
      "nStartDuplicationCheck P < nHeight (blocks T pindex)"
  shows "cache_ok script_usage db_ok db_utxo (outView r) \<and> utxo_wf (cache_utxo db_utxo (outView r))"
proof -
  have n: "0 < nat (nHeight (blocks T pindex))" using assms(7) by simp
  have w: "utxo_wf (txs_applied H n txs u)" if "utxo_wf u" "\<forall>tx\<in>set txs. tx_checked tx" "0 < n" for H n txs u
    using that by (induction txs arbitrary: u) (auto intro: utxo_wf_applied)
  obtain b s1 v0 where 0: "vtx b = vtx block" "GetBestBlock DB_GetBestBlock view = (parent_hash (blocks T) pindex, v0)"
    "connect_txs script_usage DB_GetCoin DB_GetBestBlock E P whitelisted hashAssumeValid T chainActive pindex fJustCheck b s1 v0 cache = Inr r"
    "vtx block \<noteq> []" "IsCoinBase (vtx block ! 0)" "\<not> list_ex IsCoinBase (tl (vtx block))" "\<forall>tx\<in>set (vtx block). tx_checked tx"
    by (rule ConnectBlock_steps [OF assms(3-6,8)])
  show ?thesis
    using db.ConnectBlock_connects(2,3) [OF assms(1) script_usage_empty assms(3-6,8)] w [OF assms(2) _ n] 0(7) firsts_subset by fastforce
qed

theorem connect_keeps_coins_witness:
  "utxo_wf (cache_utxo db_utxo (outView demo_result))"
  using connect_keeps_coins [OF demo_view_ok demo_wf demo_connects demo_hyps(1-3) demo_databases(5) demo_hyps(4)] by simp

text \<open>C7. Processing a message of headers, whether all are accepted or one is rejected, keeps the index of headers a well-formed tree, changes none of
  its entries and only adds to it; the entry returned is in the index (or the one passed in, if the first header is rejected). A rejected header ends the
  processing and leaves exactly the index that the headers before it lead to. The index is well-formed before and holds the genesis block.\<close>

theorem headers_keep_index:
  assumes "tree_ok T" "mapBlockIndex T (hashGenesisBlock P) \<noteq> None"
    and "ProcessNewBlockHeaders E P checkpoints fCheckpointsEnabled adjustedTime headers s pp T = (r, pp', T')"
  shows "tree_ok T' \<and> map_le (mapBlockIndex T) (mapBlockIndex T') \<and> (\<forall>a\<in>nodes T. blocks T' a = blocks T a) \<and>
    (pp' = pp \<or> (\<exists>p\<in>nodes T'. pp' = Some p)) \<and> ((\<exists>s'. r = Inr s') \<and> headers \<noteq> [] \<longrightarrow> (\<exists>p\<in>nodes T'. pp' = Some p)) \<and>
    (\<forall>e. r = Inl e \<longrightarrow> (\<exists>k < length headers. \<exists>s'.
      ProcessNewBlockHeaders E P checkpoints fCheckpointsEnabled adjustedTime (take k headers) s pp T = (Inr s', pp', T') \<and>
      AcceptBlockHeader E P checkpoints fCheckpointsEnabled adjustedTime True (headers ! k) s' T' = Inl e))"
proof -
  have "\<exists>k < length headers. \<exists>s'.
      ProcessNewBlockHeaders E P checkpoints fCheckpointsEnabled adjustedTime (take k headers) s pp T = (Inr s', pp', T') \<and>
      AcceptBlockHeader E P checkpoints fCheckpointsEnabled adjustedTime True (headers ! k) s' T' = Inl e" if "r = Inl e" for e
    by (rule ProcessNewBlockHeaders_rejects) (use assms(3) that in simp)
  with ProcessNewBlockHeaders_keeps [OF assms] show ?thesis by simp
qed

text \<open>C28. A block that fits the format is read back as it was written; a header is accepted by the reader exactly where it fits the format and
  the bytes are those it is written to.\<close>

theorem block_round_trip:
  assumes "block_ok b"
  shows "unser_CBlock (ser_CBlock b @ r) = Inr (b, r) \<and>
    (\<forall>s h r. unser_CBlockHeader s = Inr (h, r) \<longleftrightarrow> header_ok h \<and> s = ser_CBlockHeader h @ r)"
  using block.read_back [OF assms] header.accepts_iff by blast

theorem block_round_trip_witness:
  "unser_CBlock (ser_CBlock demo_block) = Inr (demo_block, [])"
proof -
  have "length (GetHash first_hash demo_coinbase) = 32" by code_simp
  then have "block_ok demo_block"
    by (simp add: block_ok_def demo_block_def CBlockHeader.defs header_ok_def Header_SetNull_def)
      (simp add: demo_coinbase_def spend_tx_def demo_input_def tx_ok_def txin_ok_def strip_def witness_ok_def outpoint_ok_def txout_ok_def)
  from block_round_trip [OF this, of "[]"] show ?thesis by simp
qed

text \<open>C4. A block commits to its transactions: two blocks that pass \<open>CheckBlock\<close> with the check of the Merkle root (and were not marked as checked
  before), and that have the same Merkle root and trees of the same height, have the same transactions apart from the witnesses, provided that hashes
  have 32 bytes and that the hash function has no collision among the nodes of their trees and none among their transactions.\<close>

theorem accepted_blocks_commit:
  assumes "CheckBlock E P T chain pow True h vdb b s = (Inr sb, b')" "\<not> fChecked b"
    and "CheckBlock E P T chain pow True h vdb c s = (Inr sc, c')" "\<not> fChecked c"
    and "hashMerkleRoot b = hashMerkleRoot c" "hash_ok (hashes E)"
      "height_loop (of_nat (length (vtx b))) 0 = height_loop (of_nat (length (vtx c))) 0"
    and "inj_on (CHash256 (hashes E)) (tree_inputs (hashes E) (map (GetHash (hashes E)) (vtx b)) \<union> tree_inputs (hashes E) (map (GetHash (hashes E)) (vtx c)))"
    and "inj_on (CHash256 (hashes E)) (SerializeTransaction False ` (set (vtx b) \<union> set (vtx c)))"
  shows "map (SerializeTransaction False) (vtx b) = map (SerializeTransaction False) (vtx c)"
proof -
  let ?H = "hashes E"
  let ?l = "\<lambda>b. map (GetHash ?H) (vtx b)"
  have ok: "leaves_ok (?l b)" "leaves_ok (?l c)"
    using CheckBlock_merkle [OF assms(1,2)] CheckBlock_merkle [OF assms(3,4)] assms(6)
    by (auto simp: leaves_ok_def GetHash_def CHash256_def hash_ok_def)
  then have "length (?l b) \<le> 2 ^ 31" "?l b \<noteq> []" "length (?l c) \<le> 2 ^ 31" "?l c \<noteq> []" by (simp_all add: leaves_ok_def)
  from MerkleComputation_root [OF this(1,2), of ?H "2 ^ 32 - 1" False] MerkleComputation_root [OF this(3,4), of ?H "2 ^ 32 - 1" False]
  have "node ?H (?l b) (height_loop (of_nat (length (?l b))) 0) 0 = hashMerkleRoot b" "\<not> twins ?H (?l b) (length (?l b))"
    "node ?H (?l c) (height_loop (of_nat (length (?l c))) 0) 0 = hashMerkleRoot c" "\<not> twins ?H (?l c) (length (?l c))"
    using CheckBlock_merkle [OF assms(1,2)] CheckBlock_merkle [OF assms(3,4)] by (auto simp: BlockMerkleRoot_def ComputeMerkleRoot_def)
  then have "?l b = ?l c" using roots_bind [OF assms(6) ok(1) _ ok(2) _ assms(8) refl] assms(5,7) by simp
  then have "map (CHash256 ?H) (map (SerializeTransaction False) (vtx b)) = map (CHash256 ?H) (map (SerializeTransaction False) (vtx c))"
    by (simp add: GetHash_def [abs_def] comp_def)
  then show ?thesis by (rule map_inj_on) (use assms(9) in \<open>simp add: image_Un\<close>)
qed

text \<open>C13. A header without a mix hash ends the program: the assertion in the computation of its hash fails before anything is checked, in the
  acceptance of headers as well as in the check of a block.\<close>

theorem null_mix_hash_aborts:
  assumes "IsNull256 (mix_hash header)" "IsNull256 (mix_hash block)"
  shows "ProcessNewBlockHeaders E P checkpoints fCheckpointsEnabled adjustedTime (header # headers) s pp T = (Inl AssertMixHash, pp, T) \<and>
    CheckBlock E P T chain fCheckPOW fCheckMerkleRoot h isVerifyDB block s = (Inl AssertMixHash, block)"
  using assms by (simp add: AcceptBlockHeader_def CheckBlock_def Header_GetHash_def progpow_hash_light_def)

theorem null_mix_hash_aborts_witness:
  "ProcessNewBlockHeaders demo_env demo_chain_params [] False 0 [Header_SetNull] new_state None empty_tree = (Inl AssertMixHash, None, empty_tree)"
proof -
  have "IsNull256 (mix_hash Header_SetNull)" "IsNull256 (mix_hash demo_block)" by code_simp+
  from null_mix_hash_aborts [OF this, of demo_env demo_chain_params "[]" False 0 "[]" new_state None empty_tree] show ?thesis by blast
qed

text \<open>The mix hash of a block plays no role when it is connected: any other mix hash gives the same result, so that the check for a wrong one never fails.\<close>

theorem ConnectBlock_ignores_mix_hash:
  "ConnectBlock usage get best E P whitelisted hashAssumeValid T chainActive pindex fJustCheck (block\<lparr>mix_hash := m\<rparr>) s view cache =
   ConnectBlock usage get best E P whitelisted hashAssumeValid T chainActive pindex fJustCheck block s view cache"
  by (simp add: ConnectBlock_def GetHashFull_snd)



text \<open>C24. A header of a block that is marked as invalid is rejected as a duplicate, but the same header with another mix hash is accepted, and the
  entry of the invalid block returned: the index is searched before the mix hash is replaced by the right one. The header has proof of work with the
  right mix hash, passes the checks against its parent, which is not marked as invalid, and against the checkpoints, and neither of the two hashes is
  that of the genesis block; the hash with the other mix hash is not in the index.\<close>

theorem AcceptBlockHeader_accepts_failed:
  assumes "GetHashFull (progpow E) (hashes E) h' = (final, h)" "CheckProofOfWork final (hdrBits h) (powParams P)"
    and "Header_GetHash (progpow E) (hashes E) h = Some hash" "hash \<noteq> hashGenesisBlock P" "mapBlockIndex T hash = Some p"
      "nStatus (blocks T p) AND BLOCK_FAILED_MASK \<noteq> 0"
    and "Header_GetHash (progpow E) (hashes E) h' = Some other" "other \<noteq> hashGenesisBlock P" "mapBlockIndex T other = None"
    and "mapBlockIndex T (hashPrevBlock h) = Some q" "nStatus (blocks T q) AND BLOCK_FAILED_MASK = 0"
      "fCheckpointsEnabled \<longrightarrow> CheckIndexAgainstCheckpoint P checkpoints T q s = Inr s"
      "ContextualCheckBlockHeader P (blocks T) q adjustedTime h s = Inr s"
  shows "AcceptBlockHeader E P checkpoints fCheckpointsEnabled adjustedTime True h s T = Inl (Rejected (Invalid 0 ''duplicate'' s)) \<and>
    AcceptBlockHeader E P checkpoints fCheckpointsEnabled adjustedTime True h' s T = Inr (p, s, T)"
  using assms by (simp add: AcceptBlockHeader_def CheckBlockHeader_def fail_if_def Let_def AddToBlockIndex_def)

section \<open>A concrete index\<close>

text \<open>A light hash that is the mix hash, and an index with two headers, the second one marked as invalid.\<close>

definition mix_env :: connect_env where
  "mix_env = demo_env\<lparr>progpow := \<lparr>progpow_hash = (\<lambda>_ _ _. (replicate 32 0, replicate 32 4)), hash_seed = (\<lambda>_ _. []), hash_final = (\<lambda>_ mix. mix)\<rparr>\<rparr>"

definition mix_params :: BlockParams where
  "mix_params = demo_chain_params\<lparr>hashGenesisBlock := replicate 32 3, powParams := (powParams demo_chain_params)\<lparr>fPowNoRetargeting := True\<rparr>\<rparr>"

definition genesis_header :: CBlockHeader where
  "genesis_header = Header_SetNull\<lparr>hdrBits := 0x207fffff, mix_hash := replicate 32 3\<rparr>"

definition child_header :: "byte \<Rightarrow> CBlockHeader" where
  "child_header m = Header_SetNull\<lparr>hashPrevBlock := replicate 32 3, hdrBits := 0x207fffff, hdrTime := 1, hdrHeight := 1, mix_hash := replicate 32 m\<rparr>"

definition genesis_tree :: block_tree where
  "genesis_tree = (case AddToBlockIndex (\<lambda>_. replicate 32 3) genesis_header empty_tree of Inr (p, T) \<Rightarrow> T | Inl _ \<Rightarrow> empty_tree)"

definition failed_tree :: block_tree where
  "failed_tree = genesis_tree\<lparr>blocks := (blocks genesis_tree)(1 := (new_block_index (child_header 4) (replicate 32 4))\<lparr>nStatus := 32\<rparr>),
     mapBlockIndex := (mapBlockIndex genesis_tree)(replicate 32 4 \<mapsto> 1)\<rparr>"

lemma genesis_tree_ok: "tree_ok genesis_tree" "mapBlockIndex genesis_tree = [replicate 32 3 \<mapsto> 0]"
proof -
  have m: "mapBlockIndex empty_tree h = None" "nextAddr empty_tree = 0" for h by (simp_all add: empty_tree_def)
  have h: "hdrHeight genesis_header = 0" "hashPrevBlock genesis_header \<noteq> replicate 32 3" by code_simp+
  obtain p T where T: "AddToBlockIndex (\<lambda>_. replicate 32 3) genesis_header empty_tree = Inr (p, T)" "tree_ok T"
    "mapBlockIndex T = (mapBlockIndex empty_tree)(replicate 32 3 \<mapsto> p)"
    using AddToBlockIndex_tree [where hdrHash = "\<lambda>_. replicate 32 3" and block = genesis_header, OF empty_tree_ok m(1) h(2)] h(1) by auto
  have "p = 0" using T(1) AddToBlockIndex_new [where hdrHash = "\<lambda>_. replicate 32 3" and block = genesis_header, OF empty_tree_ok m(1) h(2) refl refl] m(2) by simp
  then show "tree_ok genesis_tree" "mapBlockIndex genesis_tree = [replicate 32 3 \<mapsto> 0]" using T m by (simp_all add: genesis_tree_def fun_eq_iff)
qed

lemma mix_hashes: "Header_GetHash (progpow mix_env) (hashes mix_env) (child_header 4) = Some (replicate 32 4)"
  "Header_GetHash (progpow mix_env) (hashes mix_env) (child_header 5) = Some (replicate 32 5)"
  "GetHashFull (progpow mix_env) (hashes mix_env) (child_header 4) = (replicate 32 0, child_header 4)"
  "GetHashFull (progpow mix_env) (hashes mix_env) (child_header 5) = (replicate 32 0, child_header 4)"
  "hashPrevBlock (child_header 4) = replicate 32 3" "hdrBits (child_header 4) = 0x207fffff"
  "CheckProofOfWork (replicate 32 0) 0x207fffff (powParams mix_params)"
  by code_simp+

lemma light_header: "Header_GetHash (progpow mix_env) (hashes mix_env) ((child_header 6)\<lparr>hdrBits := 0\<rparr>) = Some (replicate 32 6)"
  "GetHashFull (progpow mix_env) (hashes mix_env) ((child_header 6)\<lparr>hdrBits := 0\<rparr>) = (replicate 32 0, (child_header 4)\<lparr>hdrBits := 0\<rparr>)"
  "\<not> CheckProofOfWork (replicate 32 0) 0 (powParams mix_params)" "replicate 32 6 \<noteq> (replicate 32 3 :: bytes)" "replicate 32 6 \<noteq> (replicate 32 4 :: bytes)"
  by code_simp+

lemma mix_distinct: "replicate 32 4 \<noteq> (replicate 32 3 :: bytes)" "replicate 32 5 \<noteq> (replicate 32 3 :: bytes)" "replicate 32 5 \<noteq> (replicate 32 4 :: bytes)"
  "hashGenesisBlock mix_params = replicate 32 3"
  by code_simp+

lemma mix_context: "ContextualCheckBlockHeader mix_params (blocks genesis_tree) 0 0 (child_header 4) s = Inr s"
  "ContextualCheckBlockHeader mix_params (blocks failed_tree) 0 0 (child_header 4) s = Inr s"
  by code_simp+

theorem AcceptBlockHeader_accepts_failed_witness:
  "AcceptBlockHeader mix_env mix_params [] False 0 True (child_header 4) new_state failed_tree = Inl (Rejected (Invalid 0 ''duplicate'' new_state)) \<and>
   AcceptBlockHeader mix_env mix_params [] False 0 True (child_header 5) new_state failed_tree = Inr (1, new_state, failed_tree)"
proof (rule AcceptBlockHeader_accepts_failed)
  have m: "mapBlockIndex failed_tree = [replicate 32 3 \<mapsto> 0, replicate 32 4 \<mapsto> 1]" by (simp add: failed_tree_def genesis_tree_ok(2))
  show "mapBlockIndex failed_tree (replicate 32 4) = Some 1" "mapBlockIndex failed_tree (replicate 32 5) = None"
    "mapBlockIndex failed_tree (hashPrevBlock (child_header 4)) = Some 0"
    using mix_distinct by (simp_all add: m mix_hashes del: One_nat_def)
  show "nStatus (blocks failed_tree 1) AND BLOCK_FAILED_MASK \<noteq> 0" "nStatus (blocks failed_tree 0) AND BLOCK_FAILED_MASK = 0" by code_simp+
  show "CheckProofOfWork (replicate 32 0) (hdrBits (child_header 4)) (powParams mix_params)" using mix_hashes by simp
  show "replicate 32 4 \<noteq> hashGenesisBlock mix_params" "replicate 32 5 \<noteq> hashGenesisBlock mix_params" using mix_distinct by simp_all
qed (simp_all only: mix_hashes mix_context simp_thms)

theorem headers_keep_index_witness:
  "\<exists>p T' e. ProcessNewBlockHeaders mix_env mix_params [] False 0 [child_header 5, (child_header 6)\<lparr>hdrBits := 0\<rparr>] new_state None genesis_tree =
     (Inl e, Some p, T') \<and> tree_ok T'"
proof -
  have m: "mapBlockIndex genesis_tree (replicate 32 4) = None" "mapBlockIndex genesis_tree (replicate 32 5) = None" "mapBlockIndex genesis_tree (replicate 32 3) = Some 0"
    using mix_distinct by (simp_all add: genesis_tree_ok(2))
  have h: "hashPrevBlock (child_header 4) \<noteq> replicate 32 4" by code_simp
  obtain p T' where a: "AddToBlockIndex (\<lambda>_. replicate 32 4) (child_header 4) genesis_tree = Inr (p, T')"
    using AddToBlockIndex_tree [where hdrHash = "\<lambda>_. replicate 32 4" and block = "child_header 4", OF genesis_tree_ok(1) m(1) h] mix_hashes(5) m(3) by force
  have st: "nStatus (blocks genesis_tree 0) AND BLOCK_FAILED_MASK = 0" by code_simp
  have "AcceptBlockHeader mix_env mix_params [] False 0 True (child_header 5) new_state genesis_tree = Inr (p, new_state, T')"
    using mix_distinct
    by (simp add: AcceptBlockHeader_def CheckBlockHeader_def fail_if_def Let_def mix_hashes mix_context m a st)
  moreover have "\<exists>e. AcceptBlockHeader mix_env mix_params [] False 0 True ((child_header 6)\<lparr>hdrBits := 0\<rparr>) new_state T' = Inl e"
  proof (cases "mapBlockIndex T' (replicate 32 6)")
    case None
    then show ?thesis by (simp add: AcceptBlockHeader_def CheckBlockHeader_def fail_if_def Let_def light_header mix_distinct(4))
  next
    case (Some q)
    with AddToBlockIndex_tree [where hdrHash = "\<lambda>_. replicate 32 4" and block = "child_header 4", OF genesis_tree_ok(1) m(1) h] mix_hashes(5) m(3) a
    show ?thesis using mix_distinct light_header(4,5) by (auto simp: genesis_tree_ok(2) split: if_splits)
  qed
  ultimately obtain e where
    r: "ProcessNewBlockHeaders mix_env mix_params [] False 0 [child_header 5, (child_header 6)\<lparr>hdrBits := 0\<rparr>] new_state None genesis_tree = (Inl e, Some p, T')"
    by auto
  have "mapBlockIndex genesis_tree (hashGenesisBlock mix_params) \<noteq> None" using m(3) mix_distinct(4) by simp
  from headers_keep_index [OF genesis_tree_ok(1) this r] r show ?thesis by blast
qed

theorem accepted_blocks_commit_witness:
  "fst (CheckBlock demo_env demo_chain_params demo_tree [] True True 2 False demo_mixed new_state) = Inr new_state \<and>
   map (SerializeTransaction False) (vtx demo_mixed) = map (SerializeTransaction False) (vtx demo_mixed)"
proof -
  have v: "vtx demo_mixed = [demo_coinbase, spend_tx]" "\<not> fChecked demo_mixed" "CHash256 first_hash (SerializeTransaction False demo_coinbase) \<noteq> CHash256 first_hash (SerializeTransaction False spend_tx)"
    by code_simp+
  have h: "hash_ok (hashes demo_env)" by (simp add: hash_ok_def demo_fields first_hash_def min_def)
  have i: "inj_on (CHash256 (hashes demo_env)) (tree_inputs (hashes demo_env) (map (GetHash (hashes demo_env)) (vtx demo_mixed)) \<union>
      tree_inputs (hashes demo_env) (map (GetHash (hashes demo_env)) (vtx demo_mixed)))" unfolding v(1) by (simp add: inputs_two)
  have j: "inj_on (CHash256 (hashes demo_env)) (SerializeTransaction False ` (set (vtx demo_mixed) \<union> set (vtx demo_mixed)))"
    unfolding v(1) using v(3) by (auto simp: demo_fields)
  show ?thesis
    using accepted_blocks_commit [OF demo_CheckBlock v(2) demo_CheckBlock v(2) refl h refl i j] by (simp add: demo_CheckBlock)
qed

end
