(* ===== verification/PartialMerkle.thy ===== *)
theory PartialMerkle
  imports MerkleProps
begin

text \<open>
  Partial Merkle trees: what is built for a selection of transactions is read back with exactly that selection,
  also over the wire, and what evaluates to the root of a block proves membership in it.
\<close>

section \<open>Trees read back\<close>

definition matched :: "bool list \<Rightarrow> nat \<Rightarrow> nat \<Rightarrow> nat \<Rightarrow> nat list" where
  "matched vMatch n h pos = filter (\<lambda>p. vMatch ! p) [pos * 2 ^ h ..< min ((pos + 1) * 2 ^ h) n]"

definition no_equal_siblings :: "hash_funs \<Rightarrow> uint256 list \<Rightarrow> bool" where
  "no_equal_siblings H xs \<longleftrightarrow> (\<forall>l q. l < 31 \<longrightarrow> (2 * q + 1) * 2 ^ l < length xs \<longrightarrow> node H xs l (2 * q) \<noteq> node H xs l (2 * q + 1))"

lemma width_iff:
  assumes "length xs \<le> 2 ^ 31" "h < 32"
  shows "k < CalcTreeWidth (of_nat (length xs)) h \<longleftrightarrow> k * 2 ^ h < length xs"
  using CalcTreeWidth_nat [OF assms] less_width by simp

lemma unat_length: "length xs \<le> 2 ^ 31 \<Longrightarrow> unat (of_nat (length xs) :: u32) = length xs"
  by (simp add: unsigned_of_nat take_bit_nat_eq_self)

lemma upt_split: "a \<le> b \<Longrightarrow> b \<le> c \<Longrightarrow> [a..<c] = [a..<b] @ [b..<c]"
  by (metis le_Suc_ex upt_add_eq_append)

lemma matched_split:
  assumes "pos * 2 ^ Suc h < n"
  shows "matched vMatch n (Suc h) pos = matched vMatch n h (pos * 2) @ (if (pos * 2 + 1) * 2 ^ h < n then matched vMatch n h (pos * 2 + 1) else [])"
proof -
  have e: "pos * 2 ^ Suc h = pos * 2 * 2 ^ h" "(pos + 1) * 2 ^ Suc h = (pos * 2 + 1 + 1) * 2 ^ h" by simp_all
  show ?thesis
  proof (cases "(pos * 2 + 1) * 2 ^ h < n")
    case True
    have "[pos * 2 * 2 ^ h ..< min ((pos * 2 + 1 + 1) * 2 ^ h) n] =
        [pos * 2 * 2 ^ h ..< (pos * 2 + 1) * 2 ^ h] @ [(pos * 2 + 1) * 2 ^ h ..< min ((pos * 2 + 1 + 1) * 2 ^ h) n]"
      using True by (intro upt_split) simp_all
    moreover have "min ((pos * 2 + 1) * 2 ^ h) n = (pos * 2 + 1) * 2 ^ h" using True by simp
    ultimately show ?thesis using True unfolding matched_def e by simp
  next
    case False
    then have "min ((pos * 2 + 1) * 2 ^ h) n = n" "min ((pos * 2 + 1 + 1) * 2 ^ h) n = n" by simp_all
    then show ?thesis using False unfolding matched_def e by simp
  qed
qed

lemma parent_iff: "list_ex (\<lambda>p. vMatch ! p) [pos * 2 ^ h ..< min ((pos + 1) * 2 ^ h) n] \<longleftrightarrow> matched vMatch n h pos \<noteq> []"
  by (auto simp: matched_def filter_empty_conv list_ex_iff)

text \<open>Reading the part of a tree that the traversal of a subtree wrote.\<close>

lemma extract_built:
  assumes n: "length xs \<le> 2 ^ 31" and ne: "no_equal_siblings H xs" and t: "nTransactions t = of_nat (length xs)"
    and "h \<le> 31" "pos * 2 ^ h < length xs" "TraverseAndBuild H (of_nat (length xs)) h pos xs vMatch = (bits, hashes)"
    and "vBits t = pb @ bits @ rb" "vHash t = ph @ hashes @ rh" "nBitsUsed s = length pb" "nHashUsed s = length ph"
  shows "TraverseAndExtract H t h pos s = (node H xs h pos, s\<lparr>nBitsUsed := length pb + length bits, nHashUsed := length ph + length hashes,
    xMatch := xMatch s @ map (nth xs) (matched vMatch (length xs) h pos), vnIndex := vnIndex s @ matched vMatch (length xs) h pos\<rparr>)"
  using assms(4-)
proof (induction h arbitrary: pos bits hashes pb rb ph rh s)
  case 0
  then have "min (pos + 1) (length xs) = pos + 1" by simp
  with 0 show ?case by (auto simp: extract_leaf_def matched_def unat_length [OF n] nth_append Let_def)
next
  case (Suc h)
  let ?m = "matched vMatch (length xs) (Suc h) pos" and ?n = "of_nat (length xs) :: u32"
  have h: "h < 31" "h \<le> 31" using Suc.prems(1) by simp_all
  note fp = parent_iff [of vMatch pos "Suc h" "length xs"]
  have w: "pos * 2 + 1 < CalcTreeWidth ?n h \<longleftrightarrow> (pos * 2 + 1) * 2 ^ h < length xs" using width_iff [OF n] h by simp
  show ?case
  proof (cases "?m = []")
    case True
    then have "bits = [False]" "hashes = [node H xs (Suc h) pos]" using Suc.prems(3) fp by (auto simp: Let_def unat_length [OF n])
    then show ?thesis using Suc.prems(4-) True by (simp add: extract_leaf_def nth_append)
  next
    case False
    obtain b1 h1 where l: "TraverseAndBuild H ?n h (pos * 2) xs vMatch = (b1, h1)" by fastforce
    let ?right = "(pos * 2 + 1) * 2 ^ h < length xs"
    obtain b2 h2 where r: "TraverseAndBuild H ?n h (pos * 2 + 1) xs vMatch = (b2, h2)" by fastforce
    have bh: "bits = True # b1 @ (if ?right then b2 else [])" "hashes = h1 @ (if ?right then h2 else [])"
      using Suc.prems(3) fp False l r w by (auto simp: Let_def unat_length [OF n] split: if_splits)
    have el: "pos * 2 * 2 ^ h < length xs" using exists_left [OF Suc.prems(2)] by (simp add: mult.commute)
    let ?s0 = "s\<lparr>nBitsUsed := length pb + 1\<rparr>"
    let ?s1 = "?s0\<lparr>nBitsUsed := length (pb @ [True]) + length b1, nHashUsed := length ph + length h1,
      xMatch := xMatch ?s0 @ map (nth xs) (matched vMatch (length xs) h (pos * 2)), vnIndex := vnIndex ?s0 @ matched vMatch (length xs) h (pos * 2)\<rparr>"
    have s1: "TraverseAndExtract H t h (pos * 2) ?s0 = (node H xs h (pos * 2), ?s1)"
      by (rule Suc.IH [OF h(2) el l, where rb = "(if ?right then b2 else []) @ rb" and rh = "(if ?right then h2 else []) @ rh"])
        (use Suc.prems(4-) bh in simp_all)
    show ?thesis
    proof (cases ?right)
      case True
      let ?s2 = "?s1\<lparr>nBitsUsed := length (pb @ [True] @ b1) + length b2, nHashUsed := length (ph @ h1) + length h2,
        xMatch := xMatch ?s1 @ map (nth xs) (matched vMatch (length xs) h (pos * 2 + 1)), vnIndex := vnIndex ?s1 @ matched vMatch (length xs) h (pos * 2 + 1)\<rparr>"
      have s2: "TraverseAndExtract H t h (pos * 2 + 1) ?s1 = (node H xs h (pos * 2 + 1), ?s2)"
        by (rule Suc.IH [OF h(2) True r]) (use Suc.prems(4-) bh True in simp_all)
      have "node H xs h (pos * 2 + 1) \<noteq> node H xs h (pos * 2)" using ne h(1) True unfolding no_equal_siblings_def by (metis mult.commute)
      moreover have "Hash2 H (node H xs h (pos * 2)) (node H xs h (pos * 2 + 1)) = node H xs (Suc h) pos"
        using node_pair [OF n, of h pos H] True h(1) by (simp add: mult.commute)
      ultimately show ?thesis
        using Suc.prems(4-) bh s1 s2 True w t matched_split [OF Suc.prems(2), of vMatch] by (simp add: nth_append Let_def)
    next
      case F: False
      have "Hash2 H (node H xs h (pos * 2)) (node H xs h (pos * 2)) = node H xs (Suc h) pos"
        using node_single [OF n, of h pos H] F h(1) by (simp add: mult.commute)
      then show ?thesis
        using Suc.prems(4-) bh s1 F w t matched_split [OF Suc.prems(2), of vMatch] by (simp add: nth_append Let_def)
    qed
  qed
qed

lemma build_sizes:
  assumes n: "length xs \<le> 2 ^ 31"
    and "h \<le> 31" "pos * 2 ^ h < length xs" "TraverseAndBuild H (of_nat (length xs)) h pos xs vMatch = (bits, hashes)"
  shows "pos * 2 ^ h + length hashes \<le> min ((pos + 1) * 2 ^ h) (length xs) \<and> length hashes \<le> length bits \<and> 0 < length hashes"
  using assms(2-)
proof (induction h arbitrary: pos bits hashes)
  case (Suc h)
  let ?n = "of_nat (length xs) :: u32"
  have h: "h < 32" "h \<le> 31" using Suc.prems(1) by simp_all
  have w: "pos * 2 + 1 < CalcTreeWidth ?n h \<longleftrightarrow> (pos * 2 + 1) * 2 ^ h < length xs" using width_iff [OF n h(1)] .
  obtain b1 h1 b2 h2 where l: "TraverseAndBuild H ?n h (pos * 2) xs vMatch = (b1, h1)" and r: "TraverseAndBuild H ?n h (pos * 2 + 1) xs vMatch = (b2, h2)"
    by fastforce
  have el: "pos * 2 * 2 ^ h < length xs" using exists_left [OF Suc.prems(2)] by (simp add: mult.commute)
  note il = Suc.IH [OF h(2) el l] and ir = Suc.IH [OF h(2) _ r]
  have e: "pos * 2 ^ Suc h = pos * 2 * 2 ^ h" "(pos + 1) * 2 ^ Suc h = (pos * 2 + 1 + 1) * 2 ^ h" by simp_all
  consider "length bits = 1" "length hashes = 1" | "bits = True # b1" "hashes = h1" | "(pos * 2 + 1) * 2 ^ h < length xs" "bits = True # b1 @ b2" "hashes = h1 @ h2"
    using Suc.prems(3) l r w by (auto simp: Let_def split: if_splits)
  then show ?case
  proof cases
    case 1
    then show ?thesis using Suc.prems(2) by (auto simp: Suc_le_eq)
  next
    case 2
    then show ?thesis using il unfolding e by simp
  next
    case 3
    then show ?thesis using il ir unfolding e by simp
  qed
qed auto

lemma ExtractMatches_built:
  assumes n: "length xs \<le> 2000000 div 60" "xs \<noteq> []" and ne: "no_equal_siblings H xs"
    and b: "TraverseAndBuild H (of_nat (length xs)) (height_loop (of_nat (length xs)) 0) 0 xs vMatch = (bits, hashes)"
    and t: "nTransactions t = of_nat (length xs)" "vBits t = bits @ pad" "vHash t = hashes" "\<not> fBad t"
    and pad: "(length bits + length pad + 7) div 8 = (length bits + 7) div 8"
    and ms: "ms = filter (nth vMatch) [0..<length xs]"
  shows "ExtractMatches H idx t = (fst (ComputeMerkleRoot H xs), map (nth xs) ms, idx @ ms, t)"
proof -
  have n31: "length xs \<le> 2 ^ 31" using n(1) by simp
  define K where "K = height_loop (of_nat (length xs)) 0"
  have K: "K \<le> 31" "length xs \<le> 2 ^ K" using height_loop_ok [OF n31] by (simp_all add: K_def)
  let ?s = "\<lparr>nBitsUsed = 0, nHashUsed = 0, xMatch = [], vnIndex = idx, xBad = fBad t\<rparr>"
  have m: "matched vMatch (length xs) K 0 = ms" using K(2) by (simp add: matched_def ms)
  have sz: "length hashes \<le> length xs" "length hashes \<le> length bits" using build_sizes [OF n31 K(1) _ b [folded K_def]] n(2) by simp_all
  have "TraverseAndExtract H t K 0 ?s = (node H xs K 0, ?s\<lparr>nBitsUsed := length ([] :: bool list) + length bits,
      nHashUsed := length ([] :: uint256 list) + length hashes,
      xMatch := xMatch ?s @ map (nth xs) (matched vMatch (length xs) K 0), vnIndex := vnIndex ?s @ matched vMatch (length xs) K 0\<rparr>)"
    by (rule extract_built [OF n31 ne t(1) K(1) _ b [folded K_def], where rb = pad and rh = "[]"]) (use n(2) t in simp_all)
  then have ex: "TraverseAndExtract H t K 0 ?s = (node H xs K 0, ?s\<lparr>nBitsUsed := length bits, nHashUsed := length hashes,
      xMatch := map (nth xs) ms, vnIndex := idx @ ms\<rparr>)" by (simp add: m)
  have "of_nat (length xs) \<noteq> (0 :: u32)" using unat_length [OF n31] n(2) by (metis length_0_conv unat_0)
  moreover have "fst (ComputeMerkleRoot H xs) = node H xs K 0"
    using MerkleComputation_root [OF n31 n(2), of H "2 ^ 32 - 1" False] by (auto simp: ComputeMerkleRoot_def K_def)
  ultimately show ?thesis
    using ex sz pad t n(1) unat_length [OF n31] unfolding ExtractMatches_def K_def [symmetric] t by (simp add: K_def [symmetric])
qed

subsection \<open>Over the wire\<close>

interpretation hash256: codec "\<lambda>h. h" "read_bytes 32" "\<lambda>h. length h = 32"
  by unfold_locales (simp add: read_bytes_append)

interpretation hashes: codec "Serialize_vector (\<lambda>h. h)" "Unserialize_vector (read_bytes 32)" "\<lambda>v. list_all (\<lambda>h. length h = 32) v \<and> length v \<le> MAX_SIZE"
  by (rule codec_vector) (rule hash256.codec_axioms)

lemma bytes_bits_back: "bytes_bits (vBytes bits) = bits @ replicate ((length bits + 7) div 8 * 8 - length bits) False"
proof -
  have v: "vBytes bits = CFixedBitSet_Serialize (length bits) bits" by (simp add: vBytes_def CFixedBitSet_Serialize_def)
  note fb = fixed_bytes [where vec = bits, OF refl, folded v]
  show ?thesis
  proof (rule nth_equalityI)
    show "length (bytes_bits (vBytes bits)) = length (bits @ replicate ((length bits + 7) div 8 * 8 - length bits) False)"
      by (simp add: bytes_bits_def fb(1))
    fix i assume "i < length (bytes_bits (vBytes bits))"
    then have i: "i < (length bits + 7) div 8 * 8" by (simp add: bytes_bits_def fb(1))
    then have "i div 8 < (length bits + 7) div 8" "i mod 8 < 8" by simp_all
    from fb(2) [OF this] have "bit (vBytes bits ! (i div 8)) (i mod 8) \<longleftrightarrow> i < length bits \<and> bits ! i" by simp
    then show "bytes_bits (vBytes bits) ! i = (bits @ replicate ((length bits + 7) div 8 * 8 - length bits) False) ! i"
      using i fb(1) and_single_bit [of "vBytes bits ! (i div 8)" "i mod 8"] by (auto simp: bytes_bits_def nth_append)
  qed
qed

lemma unser_ser_tree:
  assumes "list_all (\<lambda>h. length h = 32) (vHash t)" "length (vHash t) \<le> MAX_SIZE" "length (vBits t) \<le> MAX_SIZE"
  shows "unser_tree (ser_tree t @ r) = Inr (t\<lparr>vBits := vBits t @ replicate ((length (vBits t) + 7) div 8 * 8 - length (vBits t)) False, fBad := False\<rparr>, r)"
proof -
  have "length (vBytes (vBits t)) \<le> MAX_SIZE"
    using assms(3) fixed_bytes(1) [where vec = "vBits t", OF refl] by (simp add: vBytes_def CFixedBitSet_Serialize_def)
  then show ?thesis
    using assms by (cases t) (simp add: unser_tree_def ser_tree_def u32.read_back hashes.read_back blob.read_back bytes_bits_back)
qed

lemma built_hashes:
  assumes x: "leaves_ok xs" "hash_ok H"
    and "h \<le> 31" "pos * 2 ^ h < length xs" "TraverseAndBuild H (of_nat (length xs)) h pos xs vMatch = (bits, hashes)"
  shows "list_all (\<lambda>h. length h = 32) hashes \<and> length bits < 2 ^ Suc h"
  using assms(3-)
proof (induction h arbitrary: pos bits hashes)
  case (Suc h)
  let ?n = "of_nat (length xs) :: u32"
  have n: "length xs \<le> 2 ^ 31" using x(1) by (simp add: leaves_ok_def)
  have h: "h < 32" "h \<le> 31" using Suc.prems(1) by simp_all
  have w: "pos * 2 + 1 < CalcTreeWidth ?n h \<longleftrightarrow> (pos * 2 + 1) * 2 ^ h < length xs" using width_iff [OF n h(1)] .
  obtain b1 h1 b2 h2 where l: "TraverseAndBuild H ?n h (pos * 2) xs vMatch = (b1, h1)" and r: "TraverseAndBuild H ?n h (pos * 2 + 1) xs vMatch = (b2, h2)"
    by fastforce
  have el: "pos * 2 * 2 ^ h < length xs" using exists_left [OF Suc.prems(2)] by (simp add: mult.commute)
  note il = Suc.IH [OF h(2) el l] and ir = Suc.IH [OF h(2) _ r]
  consider "length bits = 1" "hashes = [node H xs (Suc h) pos]" | "bits = True # b1" "hashes = h1" | "(pos * 2 + 1) * 2 ^ h < length xs" "bits = True # b1 @ b2" "hashes = h1 @ h2"
    using Suc.prems(3) l r w by (auto simp: Let_def split: if_splits)
  then show ?case
  proof cases
    case 1
    moreover have "(1 :: nat) < 2 ^ Suc (Suc h)" by (rule one_less_power) simp_all
    ultimately show ?thesis using node_length [OF x Suc.prems(1,2)] by simp
  qed (use il ir in simp_all)
qed (use x in \<open>auto simp: leaves_ok_def\<close>)

section \<open>What a partial tree proves\<close>

text \<open>The strings that reading a partial tree hashes.\<close>

fun extract_inputs :: "hash_funs \<Rightarrow> CPartialMerkleTree \<Rightarrow> nat \<Rightarrow> nat \<Rightarrow> extract_state \<Rightarrow> bytes set" where
  "extract_inputs H t 0 pos s = {}"
| "extract_inputs H t (Suc height) pos s =
     (if nBitsUsed s \<ge> length (vBits t) \<or> \<not> vBits t ! nBitsUsed s then {}
      else let s = s\<lparr>nBitsUsed := nBitsUsed s + 1\<rparr>
      in case TraverseAndExtract H t height (pos * 2) s of (left, s1) \<Rightarrow>
           extract_inputs H t height (pos * 2) s \<union>
           (if pos * 2 + 1 < CalcTreeWidth (nTransactions t) height then
              case TraverseAndExtract H t height (pos * 2 + 1) s1 of (right, s2) \<Rightarrow>
                insert (left @ right) (extract_inputs H t height (pos * 2 + 1) s1)
            else {left @ left}))"

lemma extract_bad: "TraverseAndExtract H t h pos s = (r, s') \<Longrightarrow> xBad s \<Longrightarrow> xBad s'"
proof (induction h arbitrary: pos s r s')
  case (Suc h)
  obtain l s1 where l: "TraverseAndExtract H t h (pos * 2) (s\<lparr>nBitsUsed := nBitsUsed s + 1\<rparr>) = (l, s1)" by fastforce
  obtain r2 s2 where r: "TraverseAndExtract H t h (pos * 2 + 1) s1 = (r2, s2)" by fastforce
  have "xBad s1" using Suc.IH [OF l] Suc.prems(2) by simp
  moreover have "xBad s2" using Suc.IH [OF r calculation] .
  ultimately show ?case using Suc.prems l r by (auto simp: Let_def extract_leaf_def split: if_splits)
qed (auto simp: extract_leaf_def Let_def split: if_splits)

lemma extract_length:
  assumes "hash_ok H" "list_all (\<lambda>h. length h = 32) (vHash t)" "TraverseAndExtract H t h pos s = (r, s')"
  shows "length r = 32"
  using assms(3)
proof (cases h)
  case (Suc k)
  then show ?thesis
    using assms by (auto simp: Let_def extract_leaf_def list_all_length Hash2_def CHash256_def hash_ok_def split: if_splits prod.splits)
qed (use assms(2) in \<open>auto simp: extract_leaf_def Let_def list_all_length split: if_splits\<close>)

lemma extract_sound:
  assumes h: "hash_ok H" and x: "leaves_ok xs" and t: "nTransactions t = of_nat (length xs)" "list_all (\<lambda>h. length h = 32) (vHash t)"
    and "k = 0 \<or> 2 ^ (k - 1) < length xs" "pos * 2 ^ k < length xs" "TraverseAndExtract H t k pos s = (node H xs k pos, s')" "\<not> xBad s'"
    and "inj_on (CHash256 H) (tree_inputs H xs \<union> extract_inputs H t k pos s)"
  shows "\<exists>ms is. xMatch s' = xMatch s @ ms \<and> vnIndex s' = vnIndex s @ is \<and> list_all2 (\<lambda>m i. i < length xs \<and> xs ! i = m) ms is"
  using assms(5-)
proof (induction k arbitrary: pos s s')
  case 0
  then show ?case by (auto simp: extract_leaf_def Let_def split: if_splits)
next
  case (Suc k)
  let ?s = "s\<lparr>nBitsUsed := nBitsUsed s + 1\<rparr>"
  have n: "length xs \<le> 2 ^ 31" using x by (simp add: leaves_ok_def)
  have p: "2 ^ k < length xs" using Suc.prems(1) by simp
  have k: "k < 31" "k < 32" "k \<le> 31" using pow_less_31 [OF p x] by simp_all
  have below: "k = 0 \<or> 2 ^ (k - 1) < length xs"
  proof (cases k)
    case (Suc j)
    then show ?thesis using p by simp
  qed simp
  show ?case
  proof (cases "nBitsUsed s < length (vBits t) \<and> vBits t ! nBitsUsed s")
    case False
    then have "xMatch s' = xMatch s" "vnIndex s' = vnIndex s" using Suc.prems(3,4) by (auto simp: extract_leaf_def Let_def split: if_splits)
    then show ?thesis by simp
  next
    case True
    obtain l s1 where l: "TraverseAndExtract H t k (pos * 2) ?s = (l, s1)" by fastforce
    have el: "pos * 2 * 2 ^ k < length xs" using exists_left [OF Suc.prems(2)] by (simp add: mult.commute)
    have w: "pos * 2 + 1 < CalcTreeWidth (nTransactions t) k \<longleftrightarrow> (pos * 2 + 1) * 2 ^ k < length xs" using width_iff [OF n k(2)] t(1) by simp
    have ni: "node_input H xs k pos \<in> tree_inputs H xs" using p Suc.prems(2) by (auto simp: tree_inputs_def)
    have lens: "length l = length (node H xs k (2 * pos))"
      using extract_length [OF h t(2) l] node_length [OF x h k(3), of "2 * pos"] el by (simp add: mult.commute)
    show ?thesis
    proof (cases "(pos * 2 + 1) * 2 ^ k < length xs")
      case R: True
      obtain r s2 where r: "TraverseAndExtract H t k (pos * 2 + 1) s1 = (r, s2)" by fastforce
      have res: "CHash256 H (l @ r) = CHash256 H (node_input H xs k pos)" "r \<noteq> l" "s' = s2" "\<not> xBad s2"
        using Suc.prems(3,4) True l r w R node_Suc [OF n k(1), of H pos] by (auto simp: Let_def Hash2_def split: if_splits)
      have ei: "l @ r \<in> extract_inputs H t (Suc k) pos s" "extract_inputs H t k (pos * 2) ?s \<subseteq> extract_inputs H t (Suc k) pos s"
        "extract_inputs H t k (pos * 2 + 1) s1 \<subseteq> extract_inputs H t (Suc k) pos s"
        using True l r w R by (auto simp: Let_def)
      have "l @ r = node_input H xs k pos" by (rule inj_onD [OF Suc.prems(5) res(1)]) (use ei(1) ni in auto)
      then have lr: "l = node H xs k (pos * 2)" "r = node H xs k (pos * 2 + 1)" using lens R by (simp_all add: node_input_def mult.commute)
      have b1: "\<not> xBad s1" using extract_bad [OF r] res(4) by blast
      obtain m1 i1 where a: "xMatch s1 = xMatch ?s @ m1" "vnIndex s1 = vnIndex ?s @ i1" "list_all2 (\<lambda>m i. i < length xs \<and> xs ! i = m) m1 i1"
        using Suc.IH [OF below el l [unfolded lr] b1 inj_on_subset [OF Suc.prems(5)]] ei(2) by blast
      obtain m2 i2 where "xMatch s2 = xMatch s1 @ m2" "vnIndex s2 = vnIndex s1 @ i2" "list_all2 (\<lambda>m i. i < length xs \<and> xs ! i = m) m2 i2"
        using Suc.IH [OF below R r [unfolded lr] res(4) inj_on_subset [OF Suc.prems(5)]] ei(3) by blast
      with a res(3) show ?thesis by - (rule exI [of _ "m1 @ m2"], rule exI [of _ "i1 @ i2"], simp add: list_all2_appendI)
    next
      case R: False
      have res: "CHash256 H (l @ l) = CHash256 H (node_input H xs k pos)" "s' = s1"
        using Suc.prems(3,4) True l w R node_Suc [OF n k(1), of H pos] by (auto simp: Let_def Hash2_def split: if_splits)
      have ei: "l @ l \<in> extract_inputs H t (Suc k) pos s" "extract_inputs H t k (pos * 2) ?s \<subseteq> extract_inputs H t (Suc k) pos s"
        using True l w R by (auto simp: Let_def)
      have "l @ l = node_input H xs k pos" by (rule inj_onD [OF Suc.prems(5) res(1)]) (use ei(1) ni in auto)
      then have lr: "l = node H xs k (pos * 2)" using lens by (simp add: node_input_def mult.commute)
      show ?thesis
        using Suc.IH [OF below el l [unfolded lr] _ inj_on_subset [OF Suc.prems(5)]] ei(2) res(2) Suc.prems(4) by force
    qed
  qed
qed

section \<open>Properties\<close>

text \<open>A partial tree survives the wire: built from the transactions of a block and a selection of them, written,
  read back and evaluated, it gives the root of the block and exactly the selected transactions with their
  positions. The block's tree must have no repeated subtrees and no hash collision among its nodes.\<close>

theorem partial_tree_round_trip:
  assumes h: "hash_ok H" and x: "leaves_ok xs" "length xs \<le> 2000000 div 60"
    and inj: "inj_on (CHash256 H) (tree_inputs H xs)" and root: "ComputeMerkleRoot H xs = (root, False)"
    and ms: "ms = filter (nth vMatch) [0..<length xs]"
  shows "\<exists>t. unser_tree (ser_tree (build_tree H xs vMatch) @ rest) = Inr (t, rest) \<and> ExtractMatches H [] t = (root, map (nth xs) ms, ms, t)"
proof -
  have n: "length xs \<le> 2 ^ 31" "xs \<noteq> []" using x by (simp_all add: leaves_ok_def)
  have nt: "\<not> twins H xs (length xs)"
    using MerkleComputation_root [OF n, of H "2 ^ 32 - 1" False] root by (auto simp: ComputeMerkleRoot_def)
  have ne: "no_equal_siblings H xs" unfolding no_equal_siblings_def using equal_siblings [OF h x(1) inj] nt by (meson less_imp_le_nat)
  define K where "K = height_loop (of_nat (length xs)) 0"
  have K: "K \<le> 16"
  proof (rule ccontr)
    assume "\<not> K \<le> 16"
    then have "16 < height_loop (of_nat (length xs)) 0" by (simp add: K_def)
    from height_loop_below [OF n(1) this] x(2) show False by simp
  qed
  obtain bits hashes where b: "TraverseAndBuild H (of_nat (length xs)) K 0 xs vMatch = (bits, hashes)" by fastforce
  let ?pad = "replicate ((length bits + 7) div 8 * 8 - length bits) False"
  let ?t = "build_tree H xs vMatch"
  have t: "?t = \<lparr>nTransactions = of_nat (length xs), vBits = bits, vHash = hashes, fBad = False\<rparr>"
    using b by (simp add: build_tree_def K_def Let_def)
  have sz: "length hashes \<le> length xs" "length hashes \<le> length bits" using build_sizes [OF n(1) _ _ b] K n(2) by simp_all
  have bh: "list_all (\<lambda>h. length h = 32) hashes" "length bits < 2 ^ Suc K" using built_hashes [OF x(1) h _ _ b] K n(2) by simp_all
  have "(2 :: nat) ^ Suc K \<le> 2 ^ 17" using K by (intro power_increasing) simp_all
  then have wire: "unser_tree (ser_tree ?t @ rest) = Inr (?t\<lparr>vBits := bits @ ?pad, fBad := False\<rparr>, rest)"
    using unser_ser_tree [of ?t rest] bh sz x(2) by (simp add: t)
  have pad: "(length bits + ((length bits + 7) div 8 * 8 - length bits) + 7) div 8 = (length bits + 7) div 8" by presburger
  have "ExtractMatches H [] (?t\<lparr>vBits := bits @ ?pad, fBad := False\<rparr>) =
      (fst (ComputeMerkleRoot H xs), map (nth xs) ms, [] @ ms, ?t\<lparr>vBits := bits @ ?pad, fBad := False\<rparr>)"
    by (rule ExtractMatches_built [where pad = ?pad, OF x(2) n(2) ne b [unfolded K_def]]) (simp_all add: t ms pad)
  then show ?thesis using wire root by auto
qed

lemma two_leaves_inj: "inj_on (CHash256 demo_hash) (tree_inputs demo_hash two_leaves)"
  by (simp add: two_leaves_inputs)

theorem partial_tree_round_trip_witness:
  "\<exists>t. unser_tree (ser_tree (build_tree demo_hash two_leaves [False, True])) = Inr (t, []) \<and>
     ExtractMatches demo_hash [] t = (replicate 32 2, [replicate 32 3], [1], t)"
proof -
  have "length two_leaves \<le> 2000000 div 60" by (simp add: two_leaves_def)
  from partial_tree_round_trip [OF two_leaves_ok(2,1) this two_leaves_inj two_leaves_root refl, of "[False, True]" "[]"]
  show ?thesis by (simp add: two_leaves_def)
qed

text \<open>C12. A partial tree proves membership if it claims the number of transactions that the block has (the count comes with the tree and is not
  committed to by the root): if evaluating such a tree gives the root of the block, and not zero, the sign of failure, every match it returns is the
  transaction of the block at the position returned with it, unless the hash function has a collision among the strings hashed for the block and for
  the proof. Hashes have 32 bytes, those of the tree too.\<close>

theorem partial_tree_sound:
  assumes h: "hash_ok H" and x: "leaves_ok xs" and t: "nTransactions t = of_nat (length xs)" "list_all (\<lambda>h. length h = 32) (vHash t)"
    and e: "ExtractMatches H [] t = (root, ms, is, t')" "root = fst (ComputeMerkleRoot H xs)" "root \<noteq> replicate 32 0"
    and inj: "inj_on (CHash256 H) (tree_inputs H xs \<union> extract_inputs H t (height_loop (nTransactions t) 0) 0
      \<lparr>nBitsUsed = 0, nHashUsed = 0, xMatch = [], vnIndex = [], xBad = fBad t\<rparr>)"
  shows "length ms = length is \<and> (\<forall>j < length ms. is ! j < length xs \<and> ms ! j = xs ! (is ! j))"
proof -
  have n: "length xs \<le> 2 ^ 31" "xs \<noteq> []" using x by (simp_all add: leaves_ok_def)
  define K where "K = height_loop (of_nat (length xs)) 0"
  let ?s = "\<lparr>nBitsUsed = 0, nHashUsed = 0, xMatch = [], vnIndex = [], xBad = fBad t\<rparr>"
  obtain r s' where tr: "TraverseAndExtract H t K 0 ?s = (r, s')" by fastforce
  have "root = node H xs K 0" using MerkleComputation_root [OF n, of H "2 ^ 32 - 1" False] e(2) by (auto simp: ComputeMerkleRoot_def K_def)
  moreover have "r = root" "\<not> xBad s'" "xMatch s' = ms" "vnIndex s' = is"
    using e(1,3) tr by (auto simp: ExtractMatches_def t(1) K_def split: if_splits)
  ultimately have tr': "TraverseAndExtract H t K 0 ?s = (node H xs K 0, s')" "\<not> xBad s'" "xMatch s' = ms" "vnIndex s' = is" using tr by simp_all
  have "K = 0 \<or> 2 ^ (K - 1) < length xs" using height_loop_below [OF n(1), of "K - 1"] by (cases K) (simp_all add: K_def [symmetric])
  from extract_sound [OF h x t this _ tr'(1,2)] inj n(2) t(1) tr'(3,4)
  have "list_all2 (\<lambda>m i. i < length xs \<and> xs ! i = m) ms is" by (auto simp: K_def)
  then show ?thesis by (auto simp: list_all2_conv_all_nth)
qed

theorem partial_tree_sound_witness:
  "\<exists>ms is t'. ExtractMatches demo_hash [] \<lparr>nTransactions = 2, vBits = [False], vHash = [replicate 32 2], fBad = False\<rparr> = (replicate 32 2, ms, is, t') \<and>
     length ms = length is"
proof -
  let ?t = "\<lparr>nTransactions = 2, vBits = [False], vHash = [replicate 32 2 :: uint256], fBad = False\<rparr>"
  have l: "length two_leaves = 2" by (simp add: two_leaves_def)
  obtain r ms i t' where e: "ExtractMatches demo_hash [] ?t = (r, ms, i, t')" by (metis prod_cases4)
  then have r: "r = replicate 32 2" by (auto simp: ExtractMatches_def two_leaves_height extract_leaf_def)
  have "nTransactions ?t = of_nat (length two_leaves)" "list_all (\<lambda>h. length h = 32) (vHash ?t)" "r = fst (ComputeMerkleRoot demo_hash two_leaves)"
    "r \<noteq> replicate 32 0" using l r two_leaves_root by simp_all
  from partial_tree_sound [OF two_leaves_ok(2,1) this(1,2) e this(3,4)] two_leaves_inj e r show ?thesis
    by (simp add: two_leaves_height)
qed


end
