(* ===== verification/OrderedMap.thy ===== *)
theory OrderedMap
  imports Main
begin

text \<open>
  Ordered association lists: the \<open>std::map\<close> of the sources. The keys are kept in ascending order, so that two maps with the same
  entries are equal and iteration visits the entries in the order of their keys.
\<close>

fun map_put :: "'k::linorder \<Rightarrow> 'v \<Rightarrow> ('k \<times> 'v) list \<Rightarrow> ('k \<times> 'v) list" where
  "map_put k v [] = [(k, v)]"
| "map_put k v ((k', v') # m) = (if k < k' then (k, v) # (k', v') # m else if k = k' then (k, v) # m else (k', v') # map_put k v m)"

definition map_erase :: "'k \<Rightarrow> ('k \<times> 'v) list \<Rightarrow> ('k \<times> 'v) list" where
  "map_erase k m = filter (\<lambda>e. fst e \<noteq> k) m"

definition map_wf :: "('k::linorder \<times> 'v) list \<Rightarrow> bool" where
  "map_wf m \<longleftrightarrow> sorted_wrt (<) (map fst m)"

lemma map_of_put [simp]: "map_of (map_put k v m) = (map_of m)(k \<mapsto> v)"
  by (induction k v m rule: map_put.induct) (auto simp: fun_eq_iff)

lemma map_of_erase [simp]: "map_of (map_erase k m) = (map_of m)(k := None)"
  by (induction m) (auto simp: map_erase_def fun_eq_iff)

lemma map_erase_Nil [simp]: "map_erase k [] = []"
  by (simp add: map_erase_def)

lemma fst_set_put: "fst ` set (map_put k v m) = insert k (fst ` set m)"
  using map_of_put[of k v m] by (metis dom_fun_upd dom_map_of_conv_image_fst option.distinct(1))

lemma map_wf_Nil [simp, intro]: "map_wf []"
  by (simp add: map_wf_def)

lemma map_wf_Cons: "map_wf (e # m) \<longleftrightarrow> (\<forall>k \<in> fst ` set m. fst e < k) \<and> map_wf m"
  by (auto simp: map_wf_def)

lemma map_wf_put [simp, intro]: "map_wf m \<Longrightarrow> map_wf (map_put k v m)"
  by (induction k v m rule: map_put.induct) (auto simp: map_wf_Cons fst_set_put)

lemma map_wf_erase [simp, intro]: "map_wf m \<Longrightarrow> map_wf (map_erase k m)"
  by (induction m) (auto simp: map_wf_Cons map_erase_def)

lemma map_wf_filter: "map_wf m \<Longrightarrow> map_wf (filter P m)"
  by (induction m) (auto simp: map_wf_Cons)

lemma map_wf_distinct: "map_wf m \<Longrightarrow> distinct (map fst m)"
  by (simp add: map_wf_def strict_sorted_iff)

lemma map_wf_entries: "map_wf m \<Longrightarrow> map (\<lambda>k. (k, the (map_of m k))) (map fst m) = m"
  using map_wf_distinct[of m] by (auto intro!: map_idI simp: comp_def)

lemma map_wf_eqI:
  assumes "map_wf m" "map_wf n" "map_of m = map_of n"
  shows "m = n"
proof -
  have "set (map fst m) = set (map fst n)"
    using assms(3) by (metis dom_map_of_conv_image_fst list.set_map)
  then have "map fst m = map fst n"
    using assms(1,2) by (simp add: map_wf_def strict_sorted_equal)
  then show ?thesis
    using map_wf_entries[OF assms(1)] map_wf_entries[OF assms(2)] assms(3) by metis
qed

lemma map_put_put [simp]: "map_put k v (map_put k w m) = map_put k v m"
  by (induction k w m rule: map_put.induct) auto

lemma map_erase_put: "map_wf m \<Longrightarrow> map_of m k = None \<Longrightarrow> map_erase k (map_put k v m) = m"
  by (rule map_wf_eqI) auto

lemma map_put_same: "map_wf m \<Longrightarrow> map_of m k = Some v \<Longrightarrow> map_put k v m = m"
  by (rule map_wf_eqI) auto

lemma map_put_erase: "map_wf m \<Longrightarrow> map_of m k = Some v \<Longrightarrow> map_put k v (map_erase k m) = m"
  by (rule map_wf_eqI) auto

end
