(* ===== verification/SparkNames.thy ===== *)
theory SparkNames
  imports Block OrderedMap "HOL-Library.List_Lexorder"
begin

text \<open>
  Spark names (\<open>src/src/sparkname.h\<close>, \<open>sparkname.cpp\<close>): the records of names in transactions and in the block index, the manager
  that maps names to records and addresses to names, and the check of a transaction that registers a name. Names and addresses are
  byte strings. The maps are ordered association lists; those of a block index entry are given to the operations and
  returned. The proofs of the Spark library (reading a spend, decoding an address, verifying an ownership proof) are parameters. Notifications
  of the user interface are left out.
\<close>

section \<open>Records and their serialization\<close>

definition Serialize_string :: "bytes \<Rightarrow> bytes" where
  "Serialize_string str = WriteCompactSize (of_nat (length str)) @ str"

definition Unserialize_string :: "bytes reader" where
  "Unserialize_string s = bindE (ReadCompactSize s) (\<lambda>(nSize, s). read_bytes (unat nSize) s)"

record CSparkNameTxData =
  nameVersion :: u16
  inputsHash :: uint256
  txName :: bytes
  txSparkAddress :: bytes
  addressOwnershipProof :: bytes
  sparkNameValidityBlocks :: u32
  txAdditionalInfo :: bytes
  hashFailsafe :: u32

definition ser_CSparkNameTxData :: "CSparkNameTxData \<Rightarrow> bytes" where
  "ser_CSparkNameTxData d =
     ser_writedata16 (nameVersion d) @ inputsHash d @ Serialize_string (txName d) @ Serialize_string (txSparkAddress d) @
     Serialize_blob (addressOwnershipProof d) @ ser_writedata32 (sparkNameValidityBlocks d) @ Serialize_string (txAdditionalInfo d) @
     ser_writedata32 (hashFailsafe d)"

definition unser_CSparkNameTxData :: "CSparkNameTxData reader" where
  "unser_CSparkNameTxData s =
     bindE (ser_readdata16 s) (\<lambda>(ver, s).
     bindE (read_bytes 32 s) (\<lambda>(inputs, s).
     bindE (Unserialize_string s) (\<lambda>(nm, s).
     bindE (Unserialize_string s) (\<lambda>(address, s).
     bindE (Unserialize_blob s) (\<lambda>(prf, s).
     bindE (ser_readdata32 s) (\<lambda>(validity, s).
     bindE (Unserialize_string s) (\<lambda>(info, s).
     bindE (ser_readdata32 s) (\<lambda>(failsafe, s).
       Inr (\<lparr>nameVersion = ver, inputsHash = inputs, txName = nm, txSparkAddress = address, addressOwnershipProof = prf,
             sparkNameValidityBlocks = validity, txAdditionalInfo = info, hashFailsafe = failsafe\<rparr>, s)))))))))"

record CSparkNameBlockIndexData =
  spName :: bytes
  sparkAddress :: bytes
  sparkNameValidityHeight :: u32
  additionalInfo :: bytes

definition ser_CSparkNameBlockIndexData :: "CSparkNameBlockIndexData \<Rightarrow> bytes" where
  "ser_CSparkNameBlockIndexData d =
     Serialize_string (spName d) @ Serialize_string (sparkAddress d) @ ser_writedata32 (sparkNameValidityHeight d) @ Serialize_string (additionalInfo d)"

definition unser_CSparkNameBlockIndexData :: "CSparkNameBlockIndexData reader" where
  "unser_CSparkNameBlockIndexData s =
     bindE (Unserialize_string s) (\<lambda>(nm, s).
     bindE (Unserialize_string s) (\<lambda>(address, s).
     bindE (ser_readdata32 s) (\<lambda>(validity, s).
     bindE (Unserialize_string s) (\<lambda>(info, s).
       Inr (\<lparr>spName = nm, sparkAddress = address, sparkNameValidityHeight = validity, additionalInfo = info\<rparr>, s)))))"

section \<open>The manager\<close>

type_synonym name_map = "(bytes \<times> CSparkNameBlockIndexData) list"

record CSparkNameManager =
  sparkNames :: name_map
  sparkNameAddresses :: "(bytes \<times> bytes) list"

abbreviation (input) maximumSparkNameLength :: nat where "maximumSparkNameLength \<equiv> 20"

definition toupper :: "byte \<Rightarrow> byte" where
  "toupper c = (if 97 \<le> c \<and> c \<le> 122 then c - 32 else c)"

definition ToUpper :: "bytes \<Rightarrow> bytes" where
  "ToUpper str = map toupper str"

definition isalnum :: "byte \<Rightarrow> bool" where
  "isalnum c \<longleftrightarrow> 48 \<le> c \<and> c \<le> 57 \<or> 65 \<le> c \<and> c \<le> 90 \<or> 97 \<le> c \<and> c \<le> 122"

definition IsSparkNameValid :: "bytes \<Rightarrow> bool" where
  "IsSparkNameValid nm \<longleftrightarrow> \<not> (length nm < 1 \<or> length nm > maximumSparkNameLength) \<and> list_all (\<lambda>c. isalnum c \<or> c = 45 \<or> c = 46) nm"

definition Names_Reset :: CSparkNameManager where
  "Names_Reset = \<lparr>sparkNames = [], sparkNameAddresses = []\<rparr>"

definition put_name :: "bytes \<Rightarrow> CSparkNameBlockIndexData \<Rightarrow> CSparkNameManager \<Rightarrow> CSparkNameManager" where
  "put_name upper d M = M\<lparr>sparkNames := map_put upper d (sparkNames M), sparkNameAddresses := map_put (sparkAddress d) upper (sparkNameAddresses M)\<rparr>"

definition erase_name :: "bytes \<Rightarrow> bytes \<Rightarrow> CSparkNameManager \<Rightarrow> CSparkNameManager" where
  "erase_name upper address M = M\<lparr>sparkNames := map_erase upper (sparkNames M), sparkNameAddresses := map_erase address (sparkNameAddresses M)\<rparr>"

text \<open>Adding the names of a block, given as the entry's removed and added names; the removed names are returned with those that are rewritten.\<close>

primrec add_names_loop :: "bool \<Rightarrow> name_map \<Rightarrow> CSparkNameManager \<Rightarrow> name_map \<Rightarrow> CSparkNameManager \<times> name_map" where
  "add_names_loop fBackup [] M removed = (M, removed)"
| "add_names_loop fBackup (entry # added) M removed =
     (let upperName = ToUpper (fst entry);
          removed = (case map_of (sparkNames M) upperName of
                       Some old \<Rightarrow> if fBackup then map_put upperName old removed else removed
                     | None \<Rightarrow> removed)
      in add_names_loop fBackup added (put_name upperName (snd entry) M) removed)"

definition Names_AddBlock :: "name_map \<Rightarrow> name_map \<Rightarrow> bool \<Rightarrow> CSparkNameManager \<Rightarrow> CSparkNameManager \<times> name_map" where
  "Names_AddBlock removed added fBackupRewrittenEntries M =
     add_names_loop fBackupRewrittenEntries added
       (fold (\<lambda>entry. erase_name (ToUpper (fst entry)) (sparkAddress (snd entry))) removed M) removed"

definition Names_RemoveBlock :: "name_map \<Rightarrow> name_map \<Rightarrow> CSparkNameManager \<Rightarrow> CSparkNameManager" where
  "Names_RemoveBlock removed added M =
     fold (\<lambda>entry. put_name (ToUpper (fst entry)) (snd entry)) removed
       (fold (\<lambda>entry. erase_name (ToUpper (fst entry)) (sparkAddress (snd entry))) added M)"

definition GetSparkNames :: "CSparkNameManager \<Rightarrow> bytes set" where
  "GetSparkNames M = set (map (spName \<circ> snd) (sparkNames M))"

definition DumpSparkNameData :: "CSparkNameManager \<Rightarrow> CSparkNameBlockIndexData list" where
  "DumpSparkNameData M = map snd (sparkNames M)"

definition GetSparkAddress :: "bytes \<Rightarrow> CSparkNameManager \<Rightarrow> bytes option" where
  "GetSparkAddress nm M = map_option sparkAddress (map_of (sparkNames M) (ToUpper nm))"

definition GetSparkNameBlockHeight :: "bytes \<Rightarrow> CSparkNameManager \<Rightarrow> u64 option" where
  "GetSparkNameBlockHeight nm M = map_option (\<lambda>d. ucast (sparkNameValidityHeight d)) (map_of (sparkNames M) (ToUpper nm))"

definition GetSparkNameAdditionalData :: "bytes \<Rightarrow> CSparkNameManager \<Rightarrow> bytes option" where
  "GetSparkNameAdditionalData nm M = map_option additionalInfo (map_of (sparkNames M) (ToUpper nm))"

definition AddSparkName :: "bytes \<Rightarrow> bytes \<Rightarrow> u32 \<Rightarrow> bytes \<Rightarrow> CSparkNameManager \<Rightarrow> bool \<times> CSparkNameManager" where
  "AddSparkName nm address validityBlocks info M =
     (let upperName = ToUpper nm
      in if (case map_of (sparkNames M) upperName of Some d \<Rightarrow> address \<noteq> sparkAddress d | None \<Rightarrow> False) then (False, M)
         else if map_of (sparkNameAddresses M) address \<noteq> None then (False, M)
         else (True, put_name upperName \<lparr>spName = nm, sparkAddress = address, sparkNameValidityHeight = validityBlocks, additionalInfo = info\<rparr> M))"

definition RemoveSparkName :: "bytes \<Rightarrow> bytes \<Rightarrow> CSparkNameManager \<Rightarrow> bool \<times> CSparkNameManager" where
  "RemoveSparkName nm address M =
     (let upperName = ToUpper nm
      in if map_of (sparkNames M) upperName = None \<or> map_of (sparkNameAddresses M) address = None then (False, M)
         else (True, erase_name upperName address M))"

text \<open>The comparison converts the height to an unsigned number.\<close>

definition loses_validity :: "int \<Rightarrow> CSparkNameBlockIndexData \<Rightarrow> bool" where
  "loses_validity h d \<longleftrightarrow> word_of_int h \<ge> sparkNameValidityHeight d"

primrec validity_loop :: "int \<Rightarrow> name_map \<Rightarrow> CSparkNameManager \<Rightarrow> name_map \<Rightarrow> CSparkNameManager \<times> name_map" where
  "validity_loop h [] M result = (M, result)"
| "validity_loop h (entry # entries) M result =
     (if loses_validity h (snd entry)
      then validity_loop h entries (erase_name (fst entry) (sparkAddress (snd entry)) M) (map_put (fst entry) (snd entry) result)
      else validity_loop h entries M result)"

definition RemoveSparkNamesLosingValidity :: "int \<Rightarrow> CSparkNameManager \<Rightarrow> CSparkNameManager \<times> name_map" where
  "RemoveSparkNamesLosingValidity h M = validity_loop h (sparkNames M) M []"

text \<open>The part of connecting a block that concerns the names: those that the block registers, and the update of the manager.\<close>

definition added_names :: "int \<Rightarrow> (bytes \<times> CSparkNameTxData) list \<Rightarrow> name_map \<Rightarrow> name_map" where
  "added_names h registered added =
     fold (\<lambda>(upperName, d). map_put upperName
       \<lparr>spName = txName d, sparkAddress = txSparkAddress d, sparkNameValidityHeight = word_of_int h + sparkNameValidityBlocks d,
        additionalInfo = txAdditionalInfo d\<rparr>) registered added"

definition connect_names :: "int \<Rightarrow> bool \<Rightarrow> name_map \<Rightarrow> CSparkNameManager \<Rightarrow> CSparkNameManager \<times> name_map" where
  "connect_names h fBackupRewrittenSparkNames added M =
     (let (M, removed) = RemoveSparkNamesLosingValidity h M in Names_AddBlock removed added fBackupRewrittenSparkNames M)"

section \<open>Checks\<close>

definition IsInConflict :: "CSparkNameTxData \<Rightarrow> (bytes \<times> 'a) list \<Rightarrow> bool" where
  "IsInConflict txData txSet \<longleftrightarrow> map_of txSet (ToUpper (txName txData)) \<noteq> None"

definition IsInConflict_addresses :: "CSparkNameTxData \<Rightarrow> (bytes \<times> 'a) list \<Rightarrow> ('a \<Rightarrow> bytes) \<Rightarrow> bool" where
  "IsInConflict_addresses txData txSet getAddress \<longleftrightarrow>
     (if map_of txSet (ToUpper (txName txData)) \<noteq> None then True else list_ex (\<lambda>it. getAddress (snd it) = txSparkAddress txData) txSet)"

text \<open>
  What the check takes from the Spark library: reading a spend from the front of a payload (the rest is returned), whether bytes are an ownership
  proof, whether a hash is a scalar, whether an address decodes, and the verification of a proof.
\<close>

record 's name_library =
  readSpend :: "bytes \<Rightarrow> ('s \<times> bytes) option"
  isOwnershipProof :: "bytes \<Rightarrow> bool"
  isScalar :: "uint256 \<Rightarrow> bool"
  isSparkAddress :: "bytes \<Rightarrow> bool"
  verify_own :: "bytes \<Rightarrow> uint256 \<Rightarrow> bytes \<Rightarrow> bool"

record SparkNameParams =
  nSparkNamesStartBlock :: int
  nSparkNamesFee :: "int list"
  devPayoutScript :: bytes

text \<open>The data, if it was read, and its position in the payload.\<close>

definition ParseSparkNameTxData :: "'s name_library \<Rightarrow> CTransaction \<Rightarrow> CSparkNameTxData option \<times> nat" where
  "ParseSparkNameTxData L tx =
     (case readSpend L (vExtraPayload tx) of
        None \<Rightarrow> (None, 0)
      | Some (_, rest) \<Rightarrow>
          if rest = [] then (None, length (vExtraPayload tx))
          else let pos = length (vExtraPayload tx) - length rest
               in case unser_CSparkNameTxData rest of Inl _ \<Rightarrow> (None, pos) | Inr (d, _) \<Rightarrow> (Some d, pos))"

abbreviation (input) nBlockPerYear :: int where "nBlockPerYear \<equiv> 365 * 24 * 24"

definition name_years :: "CSparkNameTxData \<Rightarrow> int" where
  "name_years d = sint ((sparkNameValidityBlocks d + word_of_int nBlockPerYear - 1) div word_of_int nBlockPerYear :: u32)"

definition name_fee :: "SparkNameParams \<Rightarrow> CSparkNameTxData \<Rightarrow> int" where
  "name_fee P d = nSparkNamesFee P ! length (txName d) * COIN * name_years d"

abbreviation (input) reject100 :: "CValidationState \<Rightarrow> verify_error + 'a" where
  "reject100 s \<equiv> Inl (Rejected (DoS 100 0 [] False s))"

text \<open>The conditions on the data itself and on the names that are there.\<close>

definition check_name_data :: "SparkNameParams \<Rightarrow> CSparkNameManager \<Rightarrow> CTransaction \<Rightarrow> CSparkNameTxData \<Rightarrow> bool" where
  "check_name_data P M tx d \<longleftrightarrow>
     \<not> nameVersion d > 1 \<and> IsSparkNameValid (txName d) \<and> \<not> uint (sparkNameValidityBlocks d) > nBlockPerYear * 10 \<and>
     list_ex (\<lambda>txout. scriptPubKey txout = devPayoutScript P \<and> nValue txout \<ge> name_fee P d) (vout tx) \<and>
     \<not> length (txAdditionalInfo d) > 1024 \<and>
     (case map_of (sparkNames M) (ToUpper (txName d)) of
        Some old \<Rightarrow> sparkAddress old = txSparkAddress d
      | None \<Rightarrow> map_of (sparkNameAddresses M) (txSparkAddress d) = None)"

text \<open>The hash that the owner of the address signs: of the transaction with the data, except for the proof.\<close>

definition name_hash :: "hash_funs \<Rightarrow> CTransaction \<Rightarrow> CSparkNameTxData \<Rightarrow> nat \<Rightarrow> uint256" where
  "name_hash H tx d pos =
     CHash256 H (SerializeTransaction True
       (tx\<lparr>vExtraPayload := take pos (vExtraPayload tx) @ ser_CSparkNameTxData (d\<lparr>addressOwnershipProof := []\<rparr>)\<rparr>))"

definition CheckSparkNameTx ::
  "hash_funs \<Rightarrow> 's name_library \<Rightarrow> SparkNameParams \<Rightarrow> CSparkNameManager \<Rightarrow> CTransaction \<Rightarrow> int \<Rightarrow> CValidationState \<Rightarrow>
    verify_error + CSparkNameTxData option" where
  "CheckSparkNameTx H L P M tx h s =
     (if \<not> Tx_IsSparkSpend tx then Inl (Rejected (Error ''CheckSparkNameTx: not a spark name tx'' s))
      else if h < nSparkNamesStartBlock P then Inr None
      else case ParseSparkNameTxData L tx of
        (None, pos) \<Rightarrow> if pos = length (vExtraPayload tx) then Inr None else reject100 s
      | (Some d, pos) \<Rightarrow>
          if \<not> check_name_data P M tx d then reject100 s
          else let hash = name_hash H tx d pos
          in if \<not> isOwnershipProof L (addressOwnershipProof d) then reject100 s
             else if \<not> isScalar L hash then reject100 s
             else if \<not> isSparkAddress L (txSparkAddress d) then reject100 s
             else if \<not> verify_own L (txSparkAddress d) hash (addressOwnershipProof d) then reject100 s
             else Inr (Some d))"

text \<open>The check before a name is registered, with the names of the memory pool; the empty description is success.\<close>

definition ValidateSparkNameData :: "CSparkNameManager \<Rightarrow> (bytes \<times> 'a) list \<Rightarrow> CSparkNameTxData \<Rightarrow> string" where
  "ValidateSparkNameData M mempoolNames d =
     (let upperName = ToUpper (txName d)
      in if \<not> IsSparkNameValid (txName d) then ''invalid spark name''
         else if length (txAdditionalInfo d) > 1024 then ''additional info is too long''
         else if uint (sparkNameValidityBlocks d) > 365 * 24 * 24 * 10 then ''transaction can't be valid for more than 10 years''
         else if (case map_of (sparkNames M) upperName of Some old \<Rightarrow> sparkAddress old \<noteq> txSparkAddress d | None \<Rightarrow> False)
         then ''name already exists with another spark address as a destination''
         else if (case map_of (sparkNameAddresses M) (txSparkAddress d) of Some n \<Rightarrow> n \<noteq> upperName | None \<Rightarrow> False)
         then ''spark address is already used for another name''
         else if map_of mempoolNames upperName \<noteq> None then ''spark name transaction with that name is already in the mempool''
         else [])"

text \<open>
  Appending the data of a name to a spend: the failsafe is counted up until the hash is a scalar, which may never happen; the proof of ownership, with
  the keys in it, and the serialized empty proof are parameters. \<^term>\<open>Inl ()\<close> is an address that does not decode.
\<close>

definition append_data :: "CTransaction \<Rightarrow> CSparkNameTxData \<Rightarrow> CTransaction" where
  "append_data tx d = tx\<lparr>vExtraPayload := vExtraPayload tx @ ser_CSparkNameTxData d\<rparr>"

partial_function (option) append_loop ::
  "hash_funs \<Rightarrow> 's name_library \<Rightarrow> (bytes \<Rightarrow> uint256 \<Rightarrow> bytes) \<Rightarrow> CTransaction \<Rightarrow> CSparkNameTxData \<Rightarrow> u32 \<Rightarrow>
    (unit + CTransaction \<times> CSparkNameTxData) option" where
  "append_loop H L prove_own tx d n =
     (let d0 = d\<lparr>hashFailsafe := n, addressOwnershipProof := []\<rparr>;
          hash = CHash256 H (SerializeTransaction True (append_data tx d0))
      in if \<not> isScalar L hash then append_loop H L prove_own tx d (n + 1)
         else if \<not> isSparkAddress L (txSparkAddress d) then Some (Inl ())
         else let d1 = d0\<lparr>addressOwnershipProof := prove_own (txSparkAddress d) hash\<rparr>
              in Some (Inr (append_data tx d1, d1)))"

definition AppendSparkNameTxData ::
  "hash_funs \<Rightarrow> 's name_library \<Rightarrow> (bytes \<Rightarrow> uint256 \<Rightarrow> bytes) \<Rightarrow> CTransaction \<Rightarrow> CSparkNameTxData \<Rightarrow>
    (unit + CTransaction \<times> CSparkNameTxData) option" where
  "AppendSparkNameTxData H L prove_own tx d = append_loop H L prove_own tx d 0"

definition GetSparkNameTxDataSize :: "bytes \<Rightarrow> CSparkNameTxData \<Rightarrow> nat" where
  "GetSparkNameTxDataSize emptyProof d = length (ser_CSparkNameTxData (d\<lparr>addressOwnershipProof := emptyProof\<rparr>))"

end
