(* ===== verification/SparkState.thy ===== *)
theory SparkState
  imports SparkNames "HOL-Library.AList"
begin

text \<open>
  The state of the Spark coins (\<open>src/src/spark/state.h\<close>, \<open>state.cpp\<close>): the coin groups (anonymity sets), the minted coins, the linking tags
  that have been used, the memory pool's part of it, the checks of mint and spend transactions, and connecting and disconnecting a block. Coins,
  group elements and spend proofs are values of the Spark library, which the code only stores, compares and hands to the library: they are type
  variables, and what the library computes of them are fields of \<open>spark_env\<close>. The maps with ordered keys are ordered association lists, the
  unordered ones association lists in the order of insertion. Loops along the chain end or not according to the links between blocks; a failed
  assertion, a null pointer and a loop that does not end are errors. Texts for the log are left out.
\<close>

section \<open>Block index, library and transaction information\<close>

record ('c, 'g) spark_index = block_index +
  sparkMintedCoins :: "(int \<times> 'c list) list"
  sparkSetHash :: "(int \<times> bytes) list"
  sparkTxHashContext :: "('g \<times> uint256 \<times> bytes) list"
  spentLTags :: "('g \<times> int) list"
  ltagTxhash :: "(uint256 \<times> uint256) list"
  addedSparkNames :: name_map
  removedSparkNames :: name_map

type_synonym ('c, 'g) spark_store = "addr \<Rightarrow> ('c, 'g) spark_index"

text \<open>The texts are those of exceptions; numbers of groups are 64 bits wide in a spend and are narrowed to \<open>int\<close> where they are used.\<close>

record ('c, 'g, 's) spark_env =
  sparkHashes :: hash_funs
  nameLibrary :: "'s name_library"
  getUsedLTags :: "'s \<Rightarrow> 'g list"
  getCoinGroupIds :: "'s \<Rightarrow> u64 list"
  getBlockHashes :: "'s \<Rightarrow> (u64 \<times> uint256) list"
  readCoin :: "bytes \<Rightarrow> 'c option"
  memoryRequired :: nat
  setMintTransaction :: "bytes list \<Rightarrow> ('c list \<times> (string + bool)) option"
  coin_v :: "'c \<Rightarrow> u64"
  coin_S :: "'c \<Rightarrow> 'g"
  ser_Coin :: "'c \<Rightarrow> bytes"
  setSerialContext :: "bytes \<Rightarrow> 'c \<Rightarrow> 'c"
  ser_LTags :: "'g list \<Rightarrow> bytes"
  GetLTagHash :: "'g \<Rightarrow> uint256"
  GetSparkCoinHash :: "'c \<Rightarrow> uint256"
  verifySpend :: "'s \<Rightarrow> 'c list \<Rightarrow> u64 \<Rightarrow> (u64 \<times> nat \<times> bytes) list \<Rightarrow> (u64 \<times> 'c list) list \<Rightarrow> bool"
  argMobile :: bool
  fCollectProofs :: bool

record ('c, 'g) CSparkTxInfo =
  spTransactions :: "uint256 list"
  infoMints :: "'c list"
  infoLTags :: "('g \<times> int) list"
  infoLTagTxhash :: "(uint256 \<times> uint256) list"
  infoSparkNames :: "(bytes \<times> CSparkNameTxData) list"
  fInfoIsComplete :: bool

definition new_CSparkTxInfo :: "('c, 'g) CSparkTxInfo" where
  "new_CSparkTxInfo = \<lparr>spTransactions = [], infoMints = [], infoLTags = [], infoLTagTxhash = [], infoSparkNames = [], fInfoIsComplete = False\<rparr>"

definition Complete :: "('c, 'g, 's) spark_env \<Rightarrow> ('c, 'g) CSparkTxInfo \<Rightarrow> ('c, 'g) CSparkTxInfo" where
  "Complete E info = info\<lparr>infoMints := sort_key (ser_Coin E) (infoMints info), fInfoIsComplete := True\<rparr>"

definition map_insert :: "'k \<Rightarrow> 'v \<Rightarrow> ('k \<times> 'v) list \<Rightarrow> ('k \<times> 'v) list" where
  "map_insert k v m = (case map_of m k of None \<Rightarrow> m @ [(k, v)] | Some _ \<Rightarrow> m)"

section \<open>Coin groups\<close>

record SparkCoinGroupInfo =
  firstBlock :: "addr option"
  lastBlock :: "addr option"
  nCoins :: int

record CMintedCoinInfo =
  coinGroupId :: int
  mintHeight :: int

record ('c, 'g) CSparkState =
  maxCoinInGroup :: nat
  startGroupSize :: nat
  latestCoinId :: int
  coinGroups :: "(int \<times> SparkCoinGroupInfo) list"
  mintedCoins :: "('c \<times> CMintedCoinInfo) list"
  usedLTags :: "('g \<times> int) list"
  ltagTxhashes :: "(uint256 \<times> uint256) list"
  mintMetaInfo :: "(int \<times> u64) list"
  spendMetaInfo :: "(int \<times> u64) list"

abbreviation (input) ZC_SPARK_MAX_MINT_NUM :: nat where "ZC_SPARK_MAX_MINT_NUM \<equiv> 32000"
abbreviation (input) ZC_SPARK_SET_START_SIZE :: nat where "ZC_SPARK_SET_START_SIZE \<equiv> 8000"

definition State_Reset :: "('c, 'g) CSparkState \<Rightarrow> ('c, 'g) CSparkState" where
  "State_Reset st = st\<lparr>coinGroups := [], latestCoinId := 0, mintedCoins := [], usedLTags := [], mintMetaInfo := [], spendMetaInfo := []\<rparr>"

definition new_CSparkState :: "nat \<Rightarrow> nat \<Rightarrow> ('c, 'g) CSparkState" where
  "new_CSparkState maxCoins startSize =
     State_Reset \<lparr>maxCoinInGroup = maxCoins, startGroupSize = startSize, latestCoinId = 0, coinGroups = [], mintedCoins = [], usedLTags = [],
       ltagTxhashes = [], mintMetaInfo = [], spendMetaInfo = []\<rparr>"

definition CountCoinInBlock :: "('c, 'g) spark_index \<Rightarrow> int \<Rightarrow> nat" where
  "CountCoinInBlock index gid = (case map_of (sparkMintedCoins index) gid of Some coins \<Rightarrow> length coins | None \<Rightarrow> 0)"

definition GetMintedCoinHeightAndId :: "'c \<Rightarrow> ('c, 'g) CSparkState \<Rightarrow> int \<times> int" where
  "GetMintedCoinHeightAndId mint st =
     (case map_of (mintedCoins st) mint of Some i \<Rightarrow> (mintHeight i, coinGroupId i) | None \<Rightarrow> (- 1, - 1))"

definition HasCoin :: "'c \<Rightarrow> ('c, 'g) CSparkState \<Rightarrow> bool" where
  "HasCoin mint st \<longleftrightarrow> map_of (mintedCoins st) mint \<noteq> None"

definition HasCoinHash :: "('c, 'g, 's) spark_env \<Rightarrow> uint256 \<Rightarrow> ('c, 'g) CSparkState \<Rightarrow> 'c option" where
  "HasCoinHash E coinHash st = map_option fst (find (\<lambda>e. GetSparkCoinHash E (fst e) = coinHash) (mintedCoins st))"

definition GetCoinGroupInfo :: "int \<Rightarrow> ('c, 'g) CSparkState \<Rightarrow> SparkCoinGroupInfo option" where
  "GetCoinGroupInfo group_id st = map_of (coinGroups st) group_id"

definition IsUsedLTag :: "'g \<Rightarrow> ('c, 'g) CSparkState \<Rightarrow> bool" where
  "IsUsedLTag lTag st \<longleftrightarrow> map_of (usedLTags st) lTag \<noteq> None"

definition IsUsedLTagHash :: "('c, 'g, 's) spark_env \<Rightarrow> uint256 \<Rightarrow> ('c, 'g) CSparkState \<Rightarrow> 'g option" where
  "IsUsedLTagHash E tagHash st = map_option fst (find (\<lambda>e. GetLTagHash E (fst e) = tagHash) (usedLTags st))"

text \<open>A counter that is read or changed is made first; counters are 64 bits wide.\<close>

definition meta_add :: "int \<Rightarrow> u64 \<Rightarrow> (int \<times> u64) list \<Rightarrow> (int \<times> u64) list" where
  "meta_add g n m = map_put g ((case map_of m g of Some k \<Rightarrow> k | None \<Rightarrow> 0) + n) m"

definition AddMint :: "'c \<Rightarrow> CMintedCoinInfo \<Rightarrow> ('c, 'g) CSparkState \<Rightarrow> ('c, 'g) CSparkState" where
  "AddMint mint coinInfo st =
     st\<lparr>mintedCoins := map_insert mint coinInfo (mintedCoins st), mintMetaInfo := meta_add (coinGroupId coinInfo) 1 (mintMetaInfo st)\<rparr>"

definition RemoveMint :: "'c \<Rightarrow> ('c, 'g) CSparkState \<Rightarrow> ('c, 'g) CSparkState" where
  "RemoveMint mint st =
     (case map_of (mintedCoins st) mint of
        Some i \<Rightarrow> st\<lparr>mintMetaInfo := meta_add (coinGroupId i) (- 1) (mintMetaInfo st), mintedCoins := map_erase mint (mintedCoins st)\<rparr>
      | None \<Rightarrow> st)"

definition AddSpend :: "'g \<Rightarrow> int \<Rightarrow> ('c, 'g) CSparkState \<Rightarrow> ('c, 'g) CSparkState" where
  "AddSpend lTag gid st =
     (if map_of (mintMetaInfo st) gid \<noteq> None
      then st\<lparr>usedLTags := AList.update lTag gid (usedLTags st), spendMetaInfo := meta_add gid 1 (spendMetaInfo st)\<rparr>
      else st)"

definition AddLTagTxHash :: "uint256 \<Rightarrow> uint256 \<Rightarrow> ('c, 'g) CSparkState \<Rightarrow> ('c, 'g) CSparkState" where
  "AddLTagTxHash lTagHash txHash st = st\<lparr>ltagTxhashes := AList.update lTagHash txHash (ltagTxhashes st)\<rparr>"

definition RemoveSpend :: "'g \<Rightarrow> ('c, 'g) CSparkState \<Rightarrow> ('c, 'g) CSparkState" where
  "RemoveSpend lTag st =
     (case map_of (usedLTags st) lTag of
        Some gid \<Rightarrow> st\<lparr>spendMetaInfo := meta_add gid (- 1) (spendMetaInfo st), usedLTags := map_erase lTag (usedLTags st)\<rparr>
      | None \<Rightarrow> st)"

text \<open>Counting coins of a group backwards until there are enough: the number and the earliest block with some of them.\<close>

partial_function (option) coins_loop ::
  "('c, 'g) spark_store \<Rightarrow> int \<Rightarrow> nat \<Rightarrow> addr option \<Rightarrow> nat \<Rightarrow> addr option \<Rightarrow> (nat \<times> addr option) option" where
  "coins_loop S groupId required block coins first =
     (case block of
        None \<Rightarrow> Some (coins, first)
      | Some b \<Rightarrow>
          if \<not> coins < required then Some (coins, first)
          else let inBlock = CountCoinInBlock (S b) groupId
               in if inBlock \<noteq> 0 then coins_loop S groupId required (pprev (S b)) (coins + inBlock) (Some b)
                  else coins_loop S groupId required (pprev (S b)) coins first)"

definition CountLastNCoins :: "('c, 'g) spark_store \<Rightarrow> int \<Rightarrow> nat \<Rightarrow> ('c, 'g) CSparkState \<Rightarrow> verify_error + nat \<times> addr option" where
  "CountLastNCoins S groupId required st =
     (case map_of (coinGroups st) groupId of
        None \<Rightarrow> Inr (0, None)
      | Some gr \<Rightarrow> (case coins_loop S groupId required (lastBlock gr) 0 None of None \<Rightarrow> Inl NotEnded | Some r \<Rightarrow> Inr r))"

text \<open>The hash of an anonymity set, from a block backwards.\<close>

partial_function (option) set_hash_loop :: "('c, 'g) spark_store \<Rightarrow> addr option \<Rightarrow> int \<Rightarrow> addr option \<Rightarrow> (verify_error + bytes) option" where
  "set_hash_loop S first group_id index =
     (if index = first then Some (Inr [])
      else case index of
        None \<Rightarrow> Some (Inl (ChainError NullDeref))
      | Some b \<Rightarrow>
          (case map_of (sparkSetHash (S b)) group_id of
             Some h \<Rightarrow> Some (Inr h)
           | None \<Rightarrow> set_hash_loop S first group_id (pprev (S b))))"

definition ended :: "(verify_error + 'a) option \<Rightarrow> verify_error + 'a" where
  "ended r = (case r of None \<Rightarrow> Inl NotEnded | Some r \<Rightarrow> r)"

definition GetAnonymitySetHash ::
  "('c, 'g) spark_store \<Rightarrow> addr option \<Rightarrow> int \<Rightarrow> bool \<Rightarrow> ('c, 'g) CSparkState \<Rightarrow> verify_error + bytes" where
  "GetAnonymitySetHash S index group_id generation st =
     (case GetCoinGroupInfo group_id st of
        None \<Rightarrow> Inr []
      | Some g \<Rightarrow>
          if firstBlock g = lastBlock g \<and> generation \<or> nCoins g = 0 then Inr []
          else ended (set_hash_loop S (firstBlock g) group_id index))"

section \<open>Parsing\<close>

text \<open>Whether an exception is of the class \<open>CBadTxIn\<close> is kept apart from the others.\<close>

definition ParseSparkMintTransaction :: "('c, 'g, 's) spark_env \<Rightarrow> bytes list \<Rightarrow> ('c list \<times> (string + bool)) option" where
  "ParseSparkMintTransaction E scripts =
     (if \<not> list_all (\<lambda>script. IsSparkMint script \<and> \<not> length (drop 1 script) < memoryRequired E + 8) scripts then None
      else setMintTransaction E (map (drop 1) scripts))"

definition ParseSparkMintCoin :: "('c, 'g, 's) spark_env \<Rightarrow> bytes \<Rightarrow> 'c option" where
  "ParseSparkMintCoin E script =
     (if \<not> IsSparkMint script \<and> \<not> IsSparkSMint script then None
      else if length script < 213 then None
      else readCoin E (drop 1 script))"

datatype parse_error = BadTxIn | BadSpend

definition ParseSparkSpend :: "('c, 'g, 's) spark_env \<Rightarrow> CTransaction \<Rightarrow> parse_error + 's" where
  "ParseSparkSpend E tx =
     (if length (vin tx) \<noteq> 1 \<or> length (scriptSig (vin tx ! 0)) < 1 then Inl BadTxIn
      else if scriptSig (vin tx ! 0) ! 0 = OP_SPARKSPEND \<and> nVersion tx \<ge> 3 \<and> nType tx = TRANSACTION_SPARK
      then (case readSpend (nameLibrary E) (vExtraPayload tx) of None \<Rightarrow> Inl BadSpend | Some (spend, _) \<Rightarrow> Inr spend)
      else Inl BadTxIn)"

definition GetSparkUsedTags :: "('c, 'g, 's) spark_env \<Rightarrow> CTransaction \<Rightarrow> 'g list" where
  "GetSparkUsedTags E tx = (case ParseSparkSpend E tx of Inl _ \<Rightarrow> [] | Inr spend \<Rightarrow> getUsedLTags E spend)"

definition getSerialContext :: "('c, 'g, 's) spark_env \<Rightarrow> CTransaction \<Rightarrow> bytes" where
  "getSerialContext E tx =
     (if Tx_IsSparkSpend tx then (case ParseSparkSpend E tx of Inl _ \<Rightarrow> [] | Inr spend \<Rightarrow> ser_LTags E (getUsedLTags E spend))
      else concat (map (\<lambda>txin. ser_CTxIn (txin\<lparr>scriptSig := []\<rparr>)) (vin tx)))"

definition GetSparkMintCoins :: "('c, 'g, 's) spark_env \<Rightarrow> CTransaction \<Rightarrow> 'c list" where
  "GetSparkMintCoins E tx =
     (if IsSparkTransaction tx
      then map (setSerialContext E (getSerialContext E tx))
             (List.map_filter (\<lambda>out. if IsSparkMint (scriptPubKey out) \<or> IsSparkSMint (scriptPubKey out) then ParseSparkMintCoin E (scriptPubKey out)
                                 else None) (vout tx))
      else [])"

definition GetSpendInputs :: "('c, 'g, 's) spark_env \<Rightarrow> CTransaction \<Rightarrow> nat" where
  "GetSpendInputs E tx = (if Tx_IsSparkSpend tx then length (GetSparkUsedTags E tx) else 0)"

definition GetSpendTransparentAmount :: "CTransaction \<Rightarrow> int" where
  "GetSpendTransparentAmount tx = (if \<not> Tx_IsSparkSpend tx then 0 else sum_list (map nValue (vout tx)))"

text \<open>The output that made a coin; an output that cannot be parsed is not counted.\<close>

primrec find_output :: "('c, 'g, 's) spark_env \<Rightarrow> 'c \<Rightarrow> CTxOut list \<Rightarrow> u32 \<Rightarrow> u32 option" where
  "find_output E mint [] nIndex = None"
| "find_output E mint (txout # vouts) nIndex =
     (if IsSparkMint (scriptPubKey txout) \<or> IsSparkSMint (scriptPubKey txout) then
        case ParseSparkMintCoin E (scriptPubKey txout) of
          None \<Rightarrow> find_output E mint vouts nIndex
        | Some txCoin \<Rightarrow> if mint = txCoin then Some nIndex else find_output E mint vouts (nIndex + 1)
      else find_output E mint vouts (nIndex + 1))"

primrec GetOutPointFromBlock :: "('c, 'g, 's) spark_env \<Rightarrow> 'c \<Rightarrow> CTransaction list \<Rightarrow> COutPoint option" where
  "GetOutPointFromBlock E mint [] = None"
| "GetOutPointFromBlock E mint (tx # txs) =
     (case find_output E mint (vout tx) 0 of
        Some nIndex \<Rightarrow> Some \<lparr>outhash = GetHash (sparkHashes E) tx, outn = nIndex\<rparr>
      | None \<Rightarrow> GetOutPointFromBlock E mint txs)"

text \<open>The block is read from the file of the block at a height of the active chain.\<close>

definition GetOutPoint ::
  "('c, 'g, 's) spark_env \<Rightarrow> (addr option \<Rightarrow> CTransaction list option) \<Rightarrow> CChain \<Rightarrow> 'c \<Rightarrow> ('c, 'g) CSparkState \<Rightarrow> COutPoint option" where
  "GetOutPoint E ReadBlockFromDisk chainActive mint st =
     (case GetMintedCoinHeightAndId mint st of (h, gid) \<Rightarrow>
        if h = - 1 \<and> gid = - 1 then None
        else case ReadBlockFromDisk (chain_at chainActive h) of
          None \<Rightarrow> None
        | Some txs \<Rightarrow> GetOutPointFromBlock E mint txs)"

definition GetOutPoint_hash ::
  "('c, 'g, 's) spark_env \<Rightarrow> (addr option \<Rightarrow> CTransaction list option) \<Rightarrow> CChain \<Rightarrow> uint256 \<Rightarrow> ('c, 'g) CSparkState \<Rightarrow> COutPoint option" where
  "GetOutPoint_hash E ReadBlockFromDisk chainActive coinHash st =
     (case HasCoinHash E coinHash st of None \<Rightarrow> None | Some mint \<Rightarrow> GetOutPoint E ReadBlockFromDisk chainActive mint st)"

definition GetTxHashFromCoin ::
  "('c, 'g, 's) spark_env \<Rightarrow> (addr option \<Rightarrow> CTransaction list option) \<Rightarrow> CChain \<Rightarrow> 'c \<Rightarrow> ('c, 'g) CSparkState \<Rightarrow> uint256" where
  "GetTxHashFromCoin E ReadBlockFromDisk chainActive mint st =
     (case GetOutPoint E ReadBlockFromDisk chainActive mint st of None \<Rightarrow> replicate 32 0 | Some p \<Rightarrow> outhash p)"

section \<open>Adding a block\<close>

definition group_at :: "int \<Rightarrow> ('c, 'g) CSparkState \<Rightarrow> SparkCoinGroupInfo" where
  "group_at g st = (case map_of (coinGroups st) g of Some i \<Rightarrow> i | None \<Rightarrow> \<lparr>firstBlock = None, lastBlock = None, nCoins = 0\<rparr>)"

definition mobile_context :: "('c, 'g, 's) spark_env \<Rightarrow> CTransaction list \<Rightarrow> 'c \<Rightarrow> verify_error + uint256 \<times> bytes" where
  "mobile_context E txs mint =
     (let hash = (case GetOutPointFromBlock E mint txs of Some p \<Rightarrow> outhash p | None \<Rightarrow> replicate 32 0)
      in case find (\<lambda>tx. hash = GetHash (sparkHashes E) tx) (rev txs) of
        None \<Rightarrow> Inl (ChainError NullDeref)
      | Some tx \<Rightarrow> Inr (hash, getSerialContext E tx))"

primrec add_mints_loop ::
  "('c, 'g, 's) spark_env \<Rightarrow> CTransaction list \<Rightarrow> addr \<Rightarrow> int \<Rightarrow> 'c list \<Rightarrow> ('c, 'g) CSparkState \<Rightarrow> ('c, 'g) spark_store \<Rightarrow>
    verify_error + ('c, 'g) CSparkState \<times> ('c, 'g) spark_store" where
  "add_mints_loop E txs p gid [] st S = Inr (st, S)"
| "add_mints_loop E txs p gid (mint # mints) st S =
     (let st = AddMint mint \<lparr>coinGroupId = gid, mintHeight = nHeight (S p)\<rparr> st;
          b = (S p)\<lparr>sparkMintedCoins :=
                 map_put gid ((case map_of (sparkMintedCoins (S p)) gid of Some cs \<Rightarrow> cs | None \<Rightarrow> []) @ [mint]) (sparkMintedCoins (S p))\<rparr>
      in if argMobile E
         then bindE (mobile_context E txs mint) (\<lambda>context.
                add_mints_loop E txs p gid mints st (S(p := b\<lparr>sparkTxHashContext := AList.update (coin_S E mint) context (sparkTxHashContext b)\<rparr>)))
         else add_mints_loop E txs p gid mints st (S(p := b)))"

definition extend_group :: "('c, 'g) spark_store \<Rightarrow> addr \<Rightarrow> nat \<Rightarrow> SparkCoinGroupInfo \<Rightarrow> verify_error + SparkCoinGroupInfo" where
  "extend_group S p n gr =
     (if nCoins gr = 0 then
        if firstBlock gr \<noteq> None \<or> lastBlock gr \<noteq> None then Inl AssertSpark
        else Inr \<lparr>firstBlock = Some p, lastBlock = Some p, nCoins = int n\<rparr>
      else case (firstBlock gr, lastBlock gr) of
        (Some _, Some l) \<Rightarrow> if \<not> nHeight (S l) \<le> nHeight (S p) then Inl AssertSpark else Inr (gr\<lparr>lastBlock := Some p, nCoins := nCoins gr + int n\<rparr>)
      | _ \<Rightarrow> Inl AssertSpark)"

definition AddMintsToStateAndBlockIndex ::
  "('c, 'g, 's) spark_env \<Rightarrow> CTransaction list \<Rightarrow> 'c list \<Rightarrow> addr \<Rightarrow> ('c, 'g) CSparkState \<Rightarrow> ('c, 'g) spark_store \<Rightarrow>
    verify_error + ('c, 'g) CSparkState \<times> ('c, 'g) spark_store" where
  "AddMintsToStateAndBlockIndex E txs blockMints p st S =
     (let gid = max 1 (latestCoinId st); gr = group_at gid st;
          st = st\<lparr>latestCoinId := gid, coinGroups := map_put gid gr (coinGroups st)\<rparr>
      in bindE
          (if nCoins gr + int (length blockMints) \<le> int (maxCoinInGroup st)
           then bindE (extend_group S p (length blockMints) gr) (\<lambda>gr. Inr (st\<lparr>coinGroups := map_put gid gr (coinGroups st)\<rparr>))
           else bindE (CountLastNCoins S gid (startGroupSize st) st) (\<lambda>(coins, first).
                  Inr (st\<lparr>latestCoinId := gid + 1,
                          coinGroups := map_put (gid + 1)
                            \<lparr>firstBlock = (case first of Some f \<Rightarrow> Some f | None \<Rightarrow> Some p), lastBlock = Some p,
                             nCoins = int coins + int (length blockMints)\<rparr> (coinGroups st)\<rparr>)))
          (\<lambda>st. add_mints_loop E txs p (latestCoinId st) blockMints st S))"

text \<open>The groups of a block of the index, in ascending order, and its linking tags.\<close>

definition add_group ::
  "('c, 'g) spark_store \<Rightarrow> addr \<Rightarrow> int \<times> 'c list \<Rightarrow> ('c, 'g) CSparkState \<Rightarrow> verify_error + ('c, 'g) CSparkState" where
  "add_group S p coins st =
     (case coins of (gid, mints) \<Rightarrow>
        if mints = [] then Inr st
        else let gr = group_at gid st
          in bindE (if firstBlock gr = None then
                      if gid > 1 then
                        bindE (CountLastNCoins S (gid - 1) (startGroupSize st) st) (\<lambda>(n, first).
                          Inr (gr\<lparr>nCoins := int n, firstBlock := (case first of Some f \<Rightarrow> Some f | None \<Rightarrow> Some p)\<rparr>))
                      else Inr (gr\<lparr>firstBlock := Some p\<rparr>)
                    else Inr gr) (\<lambda>gr.
             Inr (fold (\<lambda>mint. AddMint mint \<lparr>coinGroupId = gid, mintHeight = nHeight (S p)\<rparr>) mints
                   (st\<lparr>latestCoinId := gid,
                       coinGroups := map_put gid (gr\<lparr>lastBlock := Some p, nCoins := nCoins gr + int (length mints)\<rparr>) (coinGroups st)\<rparr>))))"

primrec add_groups_loop ::
  "('c, 'g) spark_store \<Rightarrow> addr \<Rightarrow> (int \<times> 'c list) list \<Rightarrow> ('c, 'g) CSparkState \<Rightarrow> verify_error + ('c, 'g) CSparkState" where
  "add_groups_loop S p [] st = Inr st"
| "add_groups_loop S p (coins # groups) st = bindE (add_group S p coins st) (add_groups_loop S p groups)"

definition State_AddBlock ::
  "('c, 'g, 's) spark_env \<Rightarrow> ('c, 'g) spark_store \<Rightarrow> addr \<Rightarrow> ('c, 'g) CSparkState \<Rightarrow> verify_error + ('c, 'g) CSparkState" where
  "State_AddBlock E S p st =
     bindE (add_groups_loop S p (sparkMintedCoins (S p)) st) (\<lambda>st.
       let st = fold (\<lambda>(lTag, gid). AddSpend lTag gid) (spentLTags (S p)) st
       in Inr (if argMobile E then fold (\<lambda>(tagHash, txHash). AddLTagTxHash tagHash txHash) (ltagTxhash (S p)) st else st))"

section \<open>Removing a block\<close>

text \<open>The number of coins of the previous group in the nearest earlier block that has coins of this group or of the previous one; 0 if there are coins of this group.\<close>

partial_function (option) prev_group_count :: "('c, 'g) spark_store \<Rightarrow> int \<Rightarrow> addr \<Rightarrow> nat option" where
  "prev_group_count S gid b =
     (case pprev (S b) of
        None \<Rightarrow> Some 0
      | Some q \<Rightarrow>
          if CountCoinInBlock (S q) gid \<noteq> 0 then Some 0
          else if CountCoinInBlock (S q) (gid - 1) \<noteq> 0 then Some (CountCoinInBlock (S q) (gid - 1))
          else prev_group_count S gid q)"

partial_function (option) roll_back_last :: "('c, 'g) spark_store \<Rightarrow> int \<Rightarrow> addr option \<Rightarrow> addr \<Rightarrow> (verify_error + addr) option" where
  "roll_back_last S gid first b =
     (if Some b = first then Some (Inl AssertSpark)
      else case pprev (S b) of
        None \<Rightarrow> Some (Inl (ChainError NullDeref))
      | Some q \<Rightarrow> if map_of (sparkMintedCoins (S q)) gid \<noteq> None then Some (Inr q) else roll_back_last S gid first q)"

text \<open>The difference is taken of unsigned numbers of 64 bits.\<close>

definition is_edged_block ::
  "('c, 'g) spark_store \<Rightarrow> addr \<Rightarrow> int \<Rightarrow> int \<Rightarrow> ('c, 'g) CSparkState \<Rightarrow> verify_error + bool" where
  "is_edged_block S p gid n st =
     (if gid > 1
      then (case prev_group_count S gid p of
              None \<Rightarrow> Inl NotEnded
            | Some k \<Rightarrow> Inr (k > 0 \<and> (n - int k) mod 2 ^ 64 < int (startGroupSize st)))
      else Inr False)"

definition remove_group ::
  "('c, 'g) spark_store \<Rightarrow> addr \<Rightarrow> int \<times> 'c list \<Rightarrow> ('c, 'g) CSparkState \<Rightarrow> verify_error + ('c, 'g) CSparkState" where
  "remove_group S p coins st =
     (case coins of (gid, mints) \<Rightarrow>
        case map_of (coinGroups st) gid of
          None \<Rightarrow> Inr st
        | Some gr \<Rightarrow>
            if length mints = 0 then Inr st
            else if \<not> nCoins gr \<ge> int (length mints) then Inl AssertSpark
            else let isExtended = gid > 1; gr = gr\<lparr>nCoins := nCoins gr - int (length mints)\<rparr>
              in bindE (is_edged_block S p gid (nCoins gr) st) (\<lambda>isEdgedBlock.
                 if \<not> isExtended \<and> nCoins gr = 0 \<or> isExtended \<and> isEdgedBlock
                 then Inr (st\<lparr>coinGroups := map_erase gid (coinGroups st), latestCoinId := latestCoinId st - 1\<rparr>)
                 else if lastBlock gr \<noteq> Some p then Inl AssertSpark
                 else bindE (ended (roll_back_last S gid (firstBlock gr) p)) (\<lambda>l.
                      Inr (st\<lparr>coinGroups := map_put gid (gr\<lparr>lastBlock := Some l\<rparr>) (coinGroups st)\<rparr>))))"

primrec remove_groups_loop ::
  "('c, 'g) spark_store \<Rightarrow> addr \<Rightarrow> (int \<times> 'c list) list \<Rightarrow> ('c, 'g) CSparkState \<Rightarrow> verify_error + ('c, 'g) CSparkState" where
  "remove_groups_loop S p [] st = Inr st"
| "remove_groups_loop S p (coins # groups) st = bindE (remove_group S p coins st) (remove_groups_loop S p groups)"

primrec remove_mints_loop :: "int \<Rightarrow> 'c list \<Rightarrow> ('c, 'g) CSparkState \<Rightarrow> verify_error + ('c, 'g) CSparkState" where
  "remove_mints_loop gid [] st = Inr st"
| "remove_mints_loop gid (mint # mints) st =
     (case map_of (mintedCoins st) mint of
        None \<Rightarrow> Inl AssertSpark
      | Some i \<Rightarrow> if coinGroupId i \<noteq> gid then Inl AssertSpark else remove_mints_loop gid mints (RemoveMint mint st))"

primrec remove_all_mints :: "(int \<times> 'c list) list \<Rightarrow> ('c, 'g) CSparkState \<Rightarrow> verify_error + ('c, 'g) CSparkState" where
  "remove_all_mints [] st = Inr st"
| "remove_all_mints (coins # groups) st = bindE (remove_mints_loop (fst coins) (snd coins) st) (remove_all_mints groups)"

definition State_RemoveBlock ::
  "('c, 'g) spark_store \<Rightarrow> addr \<Rightarrow> ('c, 'g) CSparkState \<Rightarrow> verify_error + ('c, 'g) CSparkState" where
  "State_RemoveBlock S p st =
     bindE (remove_groups_loop S p (sparkMintedCoins (S p)) st) (\<lambda>st.
     bindE (remove_all_mints (sparkMintedCoins (S p)) st) (\<lambda>st.
       Inr (fold (\<lambda>e. RemoveSpend (fst e)) (spentLTags (S p)) st)))"

end
