(* ===== verification/SparkChecks.thy ===== *)
theory SparkChecks
  imports SparkState
begin

text \<open>
  The anonymity sets that a spend is made and verified with, the checks of Spark transactions and blocks, connecting and disconnecting a block, the
  rebuilding of the state from the index, and the memory pool's part of the state (\<open>src/src/spark/state.cpp\<close>). The active chain, the
  arguments of the program and the pool are arguments. Verification is left to the library, or the spend is collected for a later batch.
\<close>

section \<open>Anonymity sets\<close>

text \<open>The group whose coins a block contributes to the set of a group: the group itself or the one before it; 0 if there are none.\<close>

definition set_id :: "('c, 'g) spark_index \<Rightarrow> int \<Rightarrow> int" where
  "set_id b gid = (if CountCoinInBlock b gid \<noteq> 0 then gid else if CountCoinInBlock b (gid - 1) \<noteq> 0 then gid - 1 else 0)"

definition coins_with :: "('c, 'g) spark_index \<Rightarrow> int \<Rightarrow> 'c list" where
  "coins_with b gid = (case map_of (sparkMintedCoins b) gid of Some cs \<Rightarrow> cs | None \<Rightarrow> [])"

record 'c coin_set =
  setBlockHash :: uint256
  setHash :: bytes
  setCoins :: "'c list"
  numberOfCoins :: nat

text \<open>What a block adds to a set: the first block with coins gives the hashes. The step is shared by the loops below.\<close>

definition set_step ::
  "('c, 'g) spark_store \<Rightarrow> ('c, 'g) CSparkState \<Rightarrow> int \<Rightarrow> addr \<Rightarrow> 'c coin_set \<Rightarrow> verify_error + 'c coin_set" where
  "set_step S st gid b r =
     (let i = set_id (S b) gid
      in if i = 0 then Inr r
         else bindE (if numberOfCoins r = 0
                     then bindE (GetAnonymitySetHash S (Some b) i False st) (\<lambda>h. Inr (r\<lparr>setBlockHash := phashBlock (S b), setHash := h\<rparr>))
                     else Inr r) (\<lambda>r.
              Inr (r\<lparr>numberOfCoins := numberOfCoins r + length (coins_with (S b) i), setCoins := setCoins r @ coins_with (S b) i\<rparr>)))"

text \<open>A block that is too high is passed over before it is compared with the first block of the group.\<close>

partial_function (option) spend_set_loop ::
  "('c, 'g) spark_store \<Rightarrow> ('c, 'g) CSparkState \<Rightarrow> int \<Rightarrow> int \<Rightarrow> addr option \<Rightarrow> addr option \<Rightarrow> 'c coin_set \<Rightarrow> (verify_error + 'c coin_set) option" where
  "spend_set_loop S st gid maxHeight first block r =
     (case block of
        None \<Rightarrow> Some (Inl (ChainError NullDeref))
      | Some b \<Rightarrow>
          if nHeight (S b) > maxHeight then spend_set_loop S st gid maxHeight first (pprev (S b)) r
          else let r' = set_step S st gid b r
               in if isl r' then Some r'
                  else if block = first then Some r'
                  else spend_set_loop S st gid maxHeight first (pprev (S b)) (projr r'))"

definition GetCoinSetForSpend ::
  "('c, 'g) spark_store \<Rightarrow> int \<Rightarrow> int \<Rightarrow> uint256 \<Rightarrow> bytes \<Rightarrow> ('c, 'g) CSparkState \<Rightarrow> verify_error + 'c coin_set" where
  "GetCoinSetForSpend S maxHeight gid blockHash_out setHash_out st =
     (let r = \<lparr>setBlockHash = blockHash_out, setHash = setHash_out, setCoins = [], numberOfCoins = 0\<rparr>
      in case map_of (coinGroups st) gid of
           None \<Rightarrow> Inr r
         | Some gr \<Rightarrow> ended (spend_set_loop S st gid maxHeight (firstBlock gr) (lastBlock gr) r))"

abbreviation (input) ZC_MINT_CONFIRMATIONS :: int where "ZC_MINT_CONFIRMATIONS \<equiv> 1"

definition GetCoinSet :: "('c, 'g) spark_store \<Rightarrow> CChain \<Rightarrow> int \<Rightarrow> ('c, 'g) CSparkState \<Rightarrow> verify_error + 'c list" where
  "GetCoinSet S chainActive gid st =
     bindE (GetCoinSetForSpend S (Height chainActive - (ZC_MINT_CONFIRMATIONS - 1)) gid (replicate 32 0) [] st) (\<lambda>r. Inr (setCoins r))"

text \<open>The same from the tip down to a block of the caller, each coin with its transaction and context.\<close>

definition coin_context :: "('c, 'g, 's) spark_env \<Rightarrow> ('c, 'g) spark_index \<Rightarrow> 'c \<Rightarrow> 'c \<times> uint256 \<times> bytes" where
  "coin_context E b mint =
     (mint, case map_of (sparkTxHashContext b) (coin_S E mint) of Some context \<Rightarrow> context | None \<Rightarrow> (replicate 32 0, []))"

partial_function (option) recovery_loop ::
  "('c, 'g, 's) spark_env \<Rightarrow> (uint256 \<Rightarrow> string) \<Rightarrow> ('c, 'g) spark_store \<Rightarrow> ('c, 'g) CSparkState \<Rightarrow> int \<Rightarrow> int \<Rightarrow> string \<Rightarrow> addr option \<Rightarrow> addr option \<Rightarrow>
    'c coin_set \<Rightarrow> ('c \<times> uint256 \<times> bytes) list \<Rightarrow> (verify_error + 'c coin_set \<times> ('c \<times> uint256 \<times> bytes) list) option" where
  "recovery_loop E GetHex S st gid maxHeight start_block_hash first block r coins =
     (case block of
        None \<Rightarrow> Some (Inl (ChainError NullDeref))
      | Some b \<Rightarrow>
          if nHeight (S b) > maxHeight then recovery_loop E GetHex S st gid maxHeight start_block_hash first (pprev (S b)) r coins
          else if GetHex (phashBlock (S b)) = start_block_hash then Some (Inr (r, coins))
          else let r' = set_step S st gid b r;
                   coins' = (if set_id (S b) gid = 0 then coins else coins @ map (coin_context E (S b)) (coins_with (S b) (set_id (S b) gid)))
               in if isl r' then Some (Inl (projl r'))
                  else if block = first then Some (Inr (projr r', coins'))
                  else recovery_loop E GetHex S st gid maxHeight start_block_hash first (pprev (S b)) (projr r') coins')"

definition GetCoinsForRecovery ::
  "('c, 'g, 's) spark_env \<Rightarrow> (uint256 \<Rightarrow> string) \<Rightarrow> ('c, 'g) spark_store \<Rightarrow> int \<Rightarrow> int \<Rightarrow> string \<Rightarrow> uint256 \<Rightarrow> bytes \<Rightarrow> ('c, 'g) CSparkState \<Rightarrow>
    verify_error + uint256 \<times> bytes \<times> ('c \<times> uint256 \<times> bytes) list" where
  "GetCoinsForRecovery E GetHex S maxHeight gid start_block_hash blockHash_out setHash_out st =
     (case map_of (coinGroups st) gid of
        None \<Rightarrow> Inr (blockHash_out, setHash_out, [])
      | Some gr \<Rightarrow>
          bindE (ended (recovery_loop E GetHex S st gid maxHeight start_block_hash (firstBlock gr) (lastBlock gr)
                          \<lparr>setBlockHash = blockHash_out, setHash = setHash_out, setCoins = [], numberOfCoins = 0\<rparr> [])) (\<lambda>(r, coins).
          Inr (setBlockHash r, setHash r, coins)))"

text \<open>The hashes and the size of a set, whatever the height.\<close>

partial_function (option) meta_data_loop ::
  "('c, 'g) spark_store \<Rightarrow> ('c, 'g) CSparkState \<Rightarrow> int \<Rightarrow> addr option \<Rightarrow> addr option \<Rightarrow> 'c coin_set \<Rightarrow> (verify_error + 'c coin_set) option" where
  "meta_data_loop S st gid first block r =
     (case block of
        None \<Rightarrow> Some (Inl (ChainError NullDeref))
      | Some b \<Rightarrow>
          let r' = set_step S st gid b r
          in if isl r' then Some r'
             else if block = first then Some r'
             else meta_data_loop S st gid first (pprev (S b)) (projr r'))"

definition GetAnonSetMetaData ::
  "('c, 'g) spark_store \<Rightarrow> int \<Rightarrow> uint256 \<times> bytes \<times> nat \<Rightarrow> ('c, 'g) CSparkState \<Rightarrow> verify_error + uint256 \<times> bytes \<times> nat" where
  "GetAnonSetMetaData S gid out st =
     (case map_of (coinGroups st) gid of
        None \<Rightarrow> Inr out
      | Some gr \<Rightarrow>
          bindE (ended (meta_data_loop S st gid (firstBlock gr) (lastBlock gr)
                          \<lparr>setBlockHash = fst out, setHash = fst (snd out), setCoins = [], numberOfCoins = 0\<rparr>)) (\<lambda>r.
          Inr (setBlockHash r, setHash r, numberOfCoins r)))"

text \<open>The block with a given hash, from the last block of the group on, or the first block of the group.\<close>

partial_function (option) find_set_block :: "('c, 'g) spark_store \<Rightarrow> addr option \<Rightarrow> uint256 \<Rightarrow> addr option \<Rightarrow> (verify_error + addr option) option" where
  "find_set_block S first hash index =
     (if index = first then Some (Inr index)
      else case index of
        None \<Rightarrow> Some (Inl (ChainError NullDeref))
      | Some b \<Rightarrow> if phashBlock (S b) = hash then Some (Inr index) else find_set_block S first hash (pprev (S b)))"

text \<open>A range of the coins of a set; the indices are compared as unsigned numbers of 64 bits.\<close>

primrec range_loop ::
  "('c, 'g, 's) spark_env \<Rightarrow> ('c, 'g) spark_index \<Rightarrow> u64 \<Rightarrow> u64 \<Rightarrow> 'c list \<Rightarrow> u64 \<Rightarrow> ('c \<times> uint256 \<times> bytes) list \<Rightarrow>
    u64 \<times> ('c \<times> uint256 \<times> bytes) list" where
  "range_loop E b startIndex endIndex [] counter coins = (counter, coins)"
| "range_loop E b startIndex endIndex (mint # mints) counter coins =
     (if counter < startIndex then range_loop E b startIndex endIndex mints (counter + 1) coins
      else if counter \<ge> endIndex then (counter, coins)
      else range_loop E b startIndex endIndex mints (counter + 1) (coins @ [coin_context E b mint]))"

partial_function (option) sector_loop ::
  "('c, 'g, 's) spark_env \<Rightarrow> ('c, 'g) spark_store \<Rightarrow> int \<Rightarrow> int \<Rightarrow> u64 \<Rightarrow> u64 \<Rightarrow> addr option \<Rightarrow> addr option \<Rightarrow> u64 \<Rightarrow> ('c \<times> uint256 \<times> bytes) list \<Rightarrow>
    (verify_error + ('c \<times> uint256 \<times> bytes) list) option" where
  "sector_loop E S gid maxHeight startIndex endIndex first block counter coins =
     (case block of
        None \<Rightarrow> Some (Inl (ChainError NullDeref))
      | Some b \<Rightarrow>
          if nHeight (S b) > maxHeight then sector_loop E S gid maxHeight startIndex endIndex first (pprev (S b)) counter coins
          else let i = set_id (S b) gid;
                   r = (if i = 0 then (counter, coins) else range_loop E (S b) startIndex endIndex (coins_with (S b) i) counter coins)
               in if block = first \<or> fst r \<ge> endIndex then Some (Inr (snd r))
                  else sector_loop E S gid maxHeight startIndex endIndex first (pprev (S b)) (fst r) (snd r))"

datatype recovery_error = NoSuchSet | IncorrectBlockHash

definition GetCoinsForRecovery_range ::
  "('c, 'g, 's) spark_env \<Rightarrow> ('c, 'g) spark_store \<Rightarrow> int \<Rightarrow> int \<Rightarrow> int \<Rightarrow> int \<Rightarrow> uint256 \<Rightarrow> ('c, 'g) CSparkState \<Rightarrow>
    verify_error + (recovery_error + ('c \<times> uint256 \<times> bytes) list)" where
  "GetCoinsForRecovery_range E S maxHeight gid startIndex endIndex blockHash st =
     (case map_of (coinGroups st) gid of
        None \<Rightarrow> Inr (Inl NoSuchSet)
      | Some gr \<Rightarrow>
          bindE (ended (find_set_block S (firstBlock gr) blockHash (lastBlock gr))) (\<lambda>index.
          if index = firstBlock gr \<and> firstBlock gr \<noteq> lastBlock gr then Inr (Inl IncorrectBlockHash)
          else bindE (ended (sector_loop E S gid maxHeight (word_of_int startIndex) (word_of_int endIndex) (firstBlock gr) index 0 [])) (\<lambda>coins.
               Inr (Inr coins))))"

section \<open>Memory pool\<close>

record ('c, 'g) CSparkMempoolState =
  mempoolMints :: "'c list"
  mempoolLTags :: "('g \<times> uint256) list"

definition Mempool_Reset :: "('c, 'g) CSparkMempoolState" where
  "Mempool_Reset = \<lparr>mempoolMints = [], mempoolLTags = []\<rparr>"

definition HasMint :: "'c \<Rightarrow> ('c, 'g) CSparkMempoolState \<Rightarrow> bool" where
  "HasMint mint pool \<longleftrightarrow> mint \<in> set (mempoolMints pool)"

definition AddMintToMempool :: "'c \<Rightarrow> ('c, 'g) CSparkMempoolState \<Rightarrow> ('c, 'g) CSparkMempoolState" where
  "AddMintToMempool mint pool = pool\<lparr>mempoolMints := List.insert mint (mempoolMints pool)\<rparr>"

definition RemoveMintFromMempool :: "'c \<Rightarrow> ('c, 'g) CSparkMempoolState \<Rightarrow> ('c, 'g) CSparkMempoolState" where
  "RemoveMintFromMempool mint pool = pool\<lparr>mempoolMints := removeAll mint (mempoolMints pool)\<rparr>"

definition HasLTag :: "'g \<Rightarrow> ('c, 'g) CSparkMempoolState \<Rightarrow> bool" where
  "HasLTag lTag pool \<longleftrightarrow> map_of (mempoolLTags pool) lTag \<noteq> None"

definition AddTagToMempool :: "'g \<Rightarrow> uint256 \<Rightarrow> ('c, 'g) CSparkMempoolState \<Rightarrow> bool \<times> ('c, 'g) CSparkMempoolState" where
  "AddTagToMempool lTag txHash pool = (\<not> HasLTag lTag pool, pool\<lparr>mempoolLTags := map_insert lTag txHash (mempoolLTags pool)\<rparr>)"

definition RemoveTagFromMempool :: "'g \<Rightarrow> ('c, 'g) CSparkMempoolState \<Rightarrow> ('c, 'g) CSparkMempoolState" where
  "RemoveTagFromMempool lTag pool = pool\<lparr>mempoolLTags := map_erase lTag (mempoolLTags pool)\<rparr>"

definition GetMempoolConflictingTxHash :: "'g \<Rightarrow> ('c, 'g) CSparkMempoolState \<Rightarrow> uint256" where
  "GetMempoolConflictingTxHash lTag pool = (case map_of (mempoolLTags pool) lTag of None \<Rightarrow> replicate 32 0 | Some h \<Rightarrow> h)"

definition CanAddSpendToMempool :: "'g \<Rightarrow> ('c, 'g) CSparkState \<Rightarrow> ('c, 'g) CSparkMempoolState \<Rightarrow> bool" where
  "CanAddSpendToMempool lTag st pool \<longleftrightarrow> \<not> IsUsedLTag lTag st \<and> \<not> HasLTag lTag pool"

definition CanAddMintToMempool :: "'c \<Rightarrow> ('c, 'g) CSparkState \<Rightarrow> ('c, 'g) CSparkMempoolState \<Rightarrow> bool" where
  "CanAddMintToMempool mint st pool \<longleftrightarrow> \<not> HasCoin mint st \<and> \<not> HasMint mint pool"

text \<open>The tags before one that is refused stay in the pool.\<close>

primrec AddSpendToMempool ::
  "'g list \<Rightarrow> uint256 \<Rightarrow> ('c, 'g) CSparkState \<Rightarrow> ('c, 'g) CSparkMempoolState \<Rightarrow> bool \<times> ('c, 'g) CSparkMempoolState" where
  "AddSpendToMempool [] txHash st pool = (True, pool)"
| "AddSpendToMempool (lTag # lTags) txHash st pool =
     (if IsUsedLTag lTag st \<or> HasLTag lTag pool then (False, pool)
      else AddSpendToMempool lTags txHash st (snd (AddTagToMempool lTag txHash pool)))"

definition RemoveSpendFromMempool :: "'g list \<Rightarrow> ('c, 'g) CSparkMempoolState \<Rightarrow> ('c, 'g) CSparkMempoolState" where
  "RemoveSpendFromMempool lTags pool = fold RemoveTagFromMempool lTags pool"

definition AddMintsToMempool :: "'c list \<Rightarrow> ('c, 'g) CSparkMempoolState \<Rightarrow> ('c, 'g) CSparkMempoolState" where
  "AddMintsToMempool mints pool = fold AddMintToMempool mints pool"

section \<open>Checks of transactions\<close>

record SparkParams =
  nSparkStartBlock :: int
  nMaxValueSparkSpendPerTransaction :: int
  nMaxValueSparkSpendPerBlock :: int
  nMaxSparkOutLimitPerTx :: nat
  nameParams :: SparkNameParams

definition IsSparkAllowed :: "SparkParams \<Rightarrow> int \<Rightarrow> bool" where
  "IsSparkAllowed P h \<longleftrightarrow> h \<ge> nSparkStartBlock P"

abbreviation (input) PUBCOIN_NOT_VALIDATE :: nat where "PUBCOIN_NOT_VALIDATE \<equiv> 0x46"
abbreviation (input) NSEQUENCE_INCORRECT :: nat where "NSEQUENCE_INCORRECT \<equiv> 0x47"
abbreviation (input) NO_MINT_ZEROCOIN :: nat where "NO_MINT_ZEROCOIN \<equiv> 0x49"
abbreviation (input) INT_MAX :: int where "INT_MAX \<equiv> 2147483647"

abbreviation (input) collecting :: "('c, 'g) CSparkTxInfo option \<Rightarrow> bool" where
  "collecting info \<equiv> (case info of Some i \<Rightarrow> \<not> fInfoIsComplete i | None \<Rightarrow> False)"

definition CheckLTag ::
  "('c, 'g) CSparkState \<Rightarrow> ('c, 'g) CSparkTxInfo option \<Rightarrow> 'g \<Rightarrow> int \<Rightarrow> bool \<Rightarrow> CValidationState \<Rightarrow> verify_error + unit" where
  "CheckLTag st info lTag h fConnectTip s =
     (if collecting info \<and> map_of (infoLTags (the info)) lTag \<noteq> None then Inl (Rejected (DoS 0 0 [] False s))
      else if IsUsedLTag lTag st \<and> (h = INT_MAX \<or> fConnectTip) then Inl (Rejected (DoS 0 0 [] False s))
      else Inr ())"

primrec check_ltags_loop ::
  "('c, 'g) CSparkState \<Rightarrow> ('c, 'g) CSparkTxInfo option \<Rightarrow> 'g list \<Rightarrow> int \<Rightarrow> bool \<Rightarrow> CValidationState \<Rightarrow> verify_error + unit" where
  "check_ltags_loop st info [] h fConnectTip s = Inr ()"
| "check_ltags_loop st info (lTag # lTags) h fConnectTip s =
     bindE (CheckLTag st info lTag h fConnectTip s) (\<lambda>_. check_ltags_loop st info lTags h fConnectTip s)"

definition add_info_mints :: "'c list \<Rightarrow> ('c, 'g) CSparkTxInfo option \<Rightarrow> ('c, 'g) CSparkTxInfo option" where
  "add_info_mints coins info = (if collecting info then map_option (\<lambda>i. i\<lparr>infoMints := infoMints i @ coins\<rparr>) info else info)"

definition add_info_tx :: "uint256 \<Rightarrow> ('c, 'g) CSparkTxInfo option \<Rightarrow> ('c, 'g) CSparkTxInfo option" where
  "add_info_tx hashTx info = (if collecting info then map_option (\<lambda>i. i\<lparr>spTransactions := List.insert hashTx (spTransactions i)\<rparr>) info else info)"

definition CheckSparkMintTransaction ::
  "('c, 'g, 's) spark_env \<Rightarrow> CTxOut list \<Rightarrow> uint256 \<Rightarrow> ('c, 'g) CSparkTxInfo option \<Rightarrow> CValidationState \<Rightarrow> verify_error + ('c, 'g) CSparkTxInfo option" where
  "CheckSparkMintTransaction E txOuts hashTx info s =
     (let refuse = (\<lambda>reason. Inl (Rejected (DoS 100 PUBCOIN_NOT_VALIDATE reason False s)))
      in case ParseSparkMintTransaction E (map scriptPubKey txOuts) of
        None \<Rightarrow> refuse ''CTransaction::CheckTransaction() : SparkMint parsing failure.''
      | Some (coins, verdict) \<Rightarrow>
          (case verdict of
             Inl what \<Rightarrow> Inl (Rejected (Error what s))
           | Inr False \<Rightarrow> refuse ''CheckSparkMintTransaction : mintTransaction verification failed''
           | Inr True \<Rightarrow>
               if length coins \<noteq> length txOuts then refuse ''CheckSparkMintTransaction : mintTransaction parsing failed''
               else if \<not> list_all2 (\<lambda>mint txOut. coin_v E mint = word_of_int (nValue txOut)) coins txOuts
               then refuse ''CheckSparkMintTransaction : mintTransaction failed, wrong amount''
               else Inr (if coins = [] then info else add_info_tx hashTx (add_info_mints coins info))))"

primrec smints_loop :: "('c, 'g, 's) spark_env \<Rightarrow> CTxOut list \<Rightarrow> 'c list \<Rightarrow> 'c list option" where
  "smints_loop E [] out_coins = Some out_coins"
| "smints_loop E (out # vouts) out_coins =
     (if IsSparkSMint (scriptPubKey out)
      then (case ParseSparkMintCoin E (scriptPubKey out) of None \<Rightarrow> None | Some mint \<Rightarrow> smints_loop E vouts (out_coins @ [mint]))
      else smints_loop E vouts out_coins)"

definition CheckSparkSMintTransaction ::
  "('c, 'g, 's) spark_env \<Rightarrow> CTxOut list \<Rightarrow> ('c, 'g) CSparkTxInfo option \<Rightarrow> CValidationState \<Rightarrow> verify_error + 'c list \<times> ('c, 'g) CSparkTxInfo option" where
  "CheckSparkSMintTransaction E vouts info s =
     (case smints_loop E vouts [] of
        None \<Rightarrow> Inl (Rejected (DoS 100 REJECT_INVALID ''CTransaction::CheckTransaction() : Spark Mint is invalid.'' False s))
      | Some out_coins \<Rightarrow> Inr (out_coins, add_info_mints out_coins info))"

text \<open>The outputs of a spend: the number of private ones and the transparent value; \<open>None\<close> where a mint of another kind is among them.\<close>

primrec spend_outputs :: "CTxOut list \<Rightarrow> nat \<Rightarrow> u64 \<Rightarrow> (nat \<times> u64) option" where
  "spend_outputs [] private_num Vout = Some (private_num, Vout)"
| "spend_outputs (txout # vouts) private_num Vout =
     (let script = scriptPubKey txout
      in if script \<noteq> [] \<and> IsSparkSMint script then spend_outputs vouts (private_num + 1) Vout
         else if IsSparkMint script \<or> IsLelantusMint script \<or> IsLelantusJMint script \<or> IsSigmaMint script then None
         else spend_outputs vouts private_num (Vout + word_of_int (nValue txout)))"

text \<open>
  The anonymity set that a spend is verified with, newest coins first, from a block down to the first block of the group. The number of the group in a spend
  has 64 bits; it, and the number before it, are narrowed where they are compared with the numbers of groups.
\<close>

abbreviation (input) narrow :: "u64 \<Rightarrow> int" where
  "narrow w \<equiv> sint (ucast w :: u32)"

definition cover_id :: "('c, 'g) spark_index \<Rightarrow> u64 \<Rightarrow> int" where
  "cover_id b gid = (if CountCoinInBlock b (narrow gid) \<noteq> 0 then narrow gid else if CountCoinInBlock b (narrow (gid - 1)) \<noteq> 0 then narrow (gid - 1) else 0)"

partial_function (option) cover_set_loop ::
  "('c, 'g) spark_store \<Rightarrow> u64 \<Rightarrow> addr option \<Rightarrow> addr option \<Rightarrow> 'c list \<Rightarrow> (verify_error + 'c list) option" where
  "cover_set_loop S gid first index cover_set =
     (case index of
        None \<Rightarrow> Some (Inl (ChainError NullDeref))
      | Some b \<Rightarrow>
          let i = cover_id (S b) gid; cover_set' = (if i = 0 then cover_set else cover_set @ coins_with (S b) i)
          in if index = first then Some (Inr cover_set') else cover_set_loop S gid first (pprev (S b)) cover_set')"

definition cover_set ::
  "('c, 'g) spark_store \<Rightarrow> ('c, 'g) CSparkState \<Rightarrow> u64 \<Rightarrow> uint256 \<Rightarrow> CValidationState \<Rightarrow> verify_error + bytes \<times> 'c list" where
  "cover_set S st gid blockHash s =
     (case GetCoinGroupInfo (narrow gid) st of
        None \<Rightarrow> Inl (Rejected (DoS 100 NO_MINT_ZEROCOIN ''CheckSparkSpendTransaction: Error: no coins were minted with such parameters'' False s))
      | Some gr \<Rightarrow>
          bindE (ended (find_set_block S (firstBlock gr) blockHash (lastBlock gr))) (\<lambda>index.
          bindE (GetAnonymitySetHash S index (narrow gid) False st) (\<lambda>set_hash.
          bindE (ended (cover_set_loop S gid (firstBlock gr) index [])) (\<lambda>coins.
          Inr (set_hash, coins)))))"

primrec cover_sets_loop ::
  "('c, 'g) spark_store \<Rightarrow> ('c, 'g) CSparkState \<Rightarrow> (u64 \<times> uint256) list \<Rightarrow> CValidationState \<Rightarrow> verify_error + (u64 \<times> bytes \<times> 'c list) list" where
  "cover_sets_loop S st [] s = Inr []"
| "cover_sets_loop S st (idAndHash # idAndBlockHashes) s =
     bindE (cover_set S st (fst idAndHash) (snd idAndHash) s) (\<lambda>set_hash_coins.
     bindE (cover_sets_loop S st idAndBlockHashes s) (\<lambda>sets. Inr ((fst idAndHash, set_hash_coins) # sets)))"

text \<open>The spends whose proofs are collected, each with what it is verified with.\<close>

type_synonym ('c, 's) batch = "('s \<times> 'c list \<times> u64 \<times> (u64 \<times> nat \<times> bytes) list) list"

definition record_tags ::
  "('c, 'g, 's) spark_env \<Rightarrow> ('g \<times> u64) list \<Rightarrow> uint256 \<Rightarrow> ('c, 'g) CSparkTxInfo \<Rightarrow> ('c, 'g) CSparkTxInfo" where
  "record_tags E tags hashTx i =
     fold (\<lambda>(lTag, gid) i.
       let i = i\<lparr>infoLTags := map_insert lTag (narrow gid) (infoLTags i)\<rparr>
       in if argMobile E then i\<lparr>infoLTagTxhash := map_insert (GetLTagHash E lTag) hashTx (infoLTagTxhash i)\<rparr> else i) tags i"

definition CheckSparkSpendTransaction ::
  "('c, 'g, 's) spark_env \<Rightarrow> SparkParams \<Rightarrow> CChain \<Rightarrow> ('c, 'g) spark_store \<Rightarrow> ('c, 'g) CSparkState \<Rightarrow> CTransaction \<Rightarrow> uint256 \<Rightarrow> bool \<Rightarrow> int \<Rightarrow> bool \<Rightarrow>
    bool \<Rightarrow> ('c, 'g) CSparkTxInfo option \<Rightarrow> ('c, 's) batch \<Rightarrow> CValidationState \<Rightarrow> verify_error + ('c, 'g) CSparkTxInfo option \<times> ('c, 's) batch" where
  "CheckSparkSpendTransaction E P chainActive S st tx hashTx isVerifyDB h isCheckWallet fStateful info batch s =
     (if length (vin tx) \<noteq> 1 \<or> \<not> IsSparkSpend (scriptSig (vin tx ! 0))
      then Inl (Rejected (DoS 100 REJECT_MALFORMED
             ''CheckSparkSpendTransaction: can't mix spark spend input with other tx types or have more than one spend'' False s))
      else if \<not> isVerifyDB \<and> (if h = INT_MAX then Height chainActive + 1 else h) \<ge> nSparkStartBlock P \<and> (nVersion tx < 3 \<or> nType tx \<noteq> TRANSACTION_SPARK)
      then Inl (Rejected (DoS 100 NSEQUENCE_INCORRECT ''CheckSparkSpendTransaction: spark data should reside in transaction payload'' False s))
      else case ParseSparkSpend E tx of
        Inl BadTxIn \<Rightarrow> Inl (Rejected (DoS 100 REJECT_MALFORMED ''CheckSparkSpendTransaction: invalid spend transaction'' False s))
      | Inl BadSpend \<Rightarrow> Inl (Rejected (DoS 100 REJECT_MALFORMED ''CheckSparkSpendTransaction: failed to deserialize spend'' False s))
      | Inr spend \<Rightarrow>
          if \<not> fStateful then Inr (info, batch)
          else case spend_outputs (vout tx) 0 0 of
            None \<Rightarrow> Inl (Rejected s)
          | Some (private_num, Vout) \<Rightarrow>
              if private_num > nMaxSparkOutLimitPerTx P then Inl (Rejected s)
              else bindE (CheckSparkSMintTransaction E (vout tx) info s) (\<lambda>(out_coins, info).
                bindE (cover_sets_loop S st (getBlockHashes E spend) s) (\<lambda>sets.
                let txHashForMetadata = GetHash (sparkHashes E)
                      (tx\<lparr>vExtraPayload := [], vout := filter (\<lambda>out. \<not> IsSparkSMint (scriptPubKey out)) (vout tx)\<rparr>);
                    useBatching = fCollectProofs E \<and> \<not> isVerifyDB \<and> \<not> isCheckWallet \<and> collecting info;
                    cover_set_data = map (\<lambda>(gid, set_hash, coins). (gid, length coins, set_hash @ txHashForMetadata)) sets;
                    ids = getCoinGroupIds E spend; lTags = getUsedLTags E spend
                in if \<not> list_all (\<lambda>gid. map_of sets gid \<noteq> None) ids then Inl (Rejected (DoS 100 0 [] False s))
                   else if \<not> useBatching \<and> \<not> verifySpend E spend out_coins Vout cover_set_data (map (\<lambda>(gid, _, coins). (gid, coins)) sets) then Inl (Rejected s)
                   else if length lTags \<noteq> length ids then Inl (Rejected (DoS 100 0 [] False s))
                   else bindE (if (case info of Some i \<Rightarrow> hashTx \<in> set (spTransactions i) | None \<Rightarrow> False) then Inr ()
                               else check_ltags_loop st info lTags h False s) (\<lambda>_.
                     if \<not> distinct lTags then Inl (Rejected (DoS 100 0 [] False s))
                     else let info = (if \<not> isVerifyDB \<and> \<not> isCheckWallet \<and> collecting info
                                      then add_info_tx hashTx (map_option (record_tags E (zip lTags ids) hashTx) info) else info)
                          in Inr (info, if useBatching then batch @ [(spend, out_coins, Vout, cover_set_data)] else batch)))))"

definition collect_name :: "CSparkNameTxData option \<Rightarrow> ('c, 'g) CSparkTxInfo option \<Rightarrow> CValidationState \<Rightarrow> verify_error + ('c, 'g) CSparkTxInfo option" where
  "collect_name sparkTxData info s =
     (case sparkTxData of
        Some d \<Rightarrow>
          if txName d \<noteq> [] \<and> collecting info then
            if IsInConflict_addresses d (infoSparkNames (the info)) txSparkAddress then Inl (Rejected s)
            else Inr (map_option (\<lambda>i. i\<lparr>infoSparkNames := map_put (ToUpper (txName d)) d (infoSparkNames i)\<rparr>) info)
          else Inr info
      | None \<Rightarrow> Inr info)"

definition check_mints ::
  "('c, 'g, 's) spark_env \<Rightarrow> CTransaction \<Rightarrow> uint256 \<Rightarrow> ('c, 'g) CSparkTxInfo option \<Rightarrow> CValidationState \<Rightarrow> verify_error + ('c, 'g) CSparkTxInfo option" where
  "check_mints E tx hashTx info s =
     (let txOuts = filter (\<lambda>txout. scriptPubKey txout \<noteq> [] \<and> IsSparkMint (scriptPubKey txout)) (vout tx)
      in if txOuts \<noteq> [] then CheckSparkMintTransaction E txOuts hashTx info s
         else Inl (Rejected (DoS 100 REJECT_INVALID ''bad-txns-mint-invalid'' False s)))"

definition CheckSparkTransaction ::
  "('c, 'g, 's) spark_env \<Rightarrow> SparkParams \<Rightarrow> CChain \<Rightarrow> ('c, 'g) spark_store \<Rightarrow> ('c, 'g) CSparkState \<Rightarrow> CSparkNameManager \<Rightarrow> CTransaction \<Rightarrow> uint256 \<Rightarrow> bool \<Rightarrow>
    int \<Rightarrow> bool \<Rightarrow> bool \<Rightarrow> ('c, 'g) CSparkTxInfo option \<Rightarrow> ('c, 's) batch \<Rightarrow> CValidationState \<Rightarrow> verify_error + ('c, 'g) CSparkTxInfo option \<times> ('c, 's) batch" where
  "CheckSparkTransaction E P chainActive S st M tx hashTx isVerifyDB h isCheckWallet fStateful info batch s =
     bindE (if IsSparkAllowed P (Height chainActive) \<and> \<not> isVerifyDB \<and> Tx_IsSparkMint tx then check_mints E tx hashTx info s else Inr info) (\<lambda>info.
     if Tx_IsSparkSpend tx then
       if GetSpendTransparentAmount tx > nMaxValueSparkSpendPerTransaction P
       then Inl (Rejected (DoS 100 REJECT_INVALID ''bad-txns-spend-invalid'' False s))
       else if \<not> isVerifyDB then
         bindE (CheckSparkSpendTransaction E P chainActive S st tx hashTx isVerifyDB h isCheckWallet fStateful info batch s) (\<lambda>(info, batch).
         bindE (CheckSparkNameTx (sparkHashes E) (nameLibrary E) (nameParams P) M tx h s) (\<lambda>sparkTxData.
         bindE (collect_name sparkTxData info s) (\<lambda>info. Inr (info, batch))))
       else Inr (info, batch)
     else Inr (info, batch))"

definition CheckSparkBlock :: "SparkParams \<Rightarrow> CTransaction list \<Rightarrow> CValidationState \<Rightarrow> verify_error + unit" where
  "CheckSparkBlock P txs s =
     (if list_ex (\<lambda>tx. GetSpendTransparentAmount tx > nMaxValueSparkSpendPerTransaction P) txs \<or>
         sum_list (map GetSpendTransparentAmount txs) mod 2 ^ 64 > nMaxValueSparkSpendPerBlock P mod 2 ^ 64
      then Inl (Rejected (DoS 100 REJECT_INVALID ''bad-txns-spark-spend-invalid'' False s))
      else Inr ())"

section \<open>Connecting and disconnecting a block\<close>

record ('c, 'g) spark_node =
  nodeState :: "('c, 'g) CSparkState"
  nodeStore :: "('c, 'g) spark_store"
  nodeNames :: CSparkNameManager

text \<open>The first bytes of the hash of a set: those of the hash before it; 32 bytes are read even if there is none in the group before.\<close>

definition set_hash_prefix :: "('c, 'g) spark_store \<Rightarrow> addr option \<Rightarrow> ('c, 'g) CSparkState \<Rightarrow> verify_error + bytes" where
  "set_hash_prefix S prev st =
     bindE (GetAnonymitySetHash S prev (latestCoinId st) True st) (\<lambda>prev_hash.
       if prev_hash \<noteq> [] then Inr (take 32 prev_hash)
       else if latestCoinId st > 1
       then bindE (GetAnonymitySetHash S prev (latestCoinId st - 1) True st) (\<lambda>prev_hash.
              if length prev_hash < 32 then Inl (ChainError OutOfRange) else Inr (take 32 prev_hash))
       else Inr [])"

definition connect_mints ::
  "('c, 'g, 's) spark_env \<Rightarrow> CTransaction list \<Rightarrow> 'c list \<Rightarrow> addr \<Rightarrow> ('c, 'g) CSparkState \<Rightarrow> ('c, 'g) spark_store \<Rightarrow>
    verify_error + ('c, 'g) CSparkState \<times> ('c, 'g) spark_store" where
  "connect_mints E txs mints p st S =
     (if mints = [] then Inr (st, S)
      else bindE (AddMintsToStateAndBlockIndex E txs mints p st S) (\<lambda>(st, S).
           bindE (set_hash_prefix S (pprev (S p)) st) (\<lambda>prefix.
           let h = CHash256 (sparkHashes E) (prefix @ concat (map (ser_Coin E) (coins_with (S p) (latestCoinId st))))
           in Inr (st, S(p := (S p)\<lparr>sparkSetHash := map_put (latestCoinId st) h (sparkSetHash (S p))\<rparr>)))))"

definition connect_spends ::
  "('c, 'g, 's) spark_env \<Rightarrow> ('c, 'g) CSparkTxInfo \<Rightarrow> addr \<Rightarrow> ('c, 'g) CSparkState \<Rightarrow> ('c, 'g) spark_store \<Rightarrow> ('c, 'g) CSparkState \<times> ('c, 'g) spark_store" where
  "connect_spends E info p st S =
     (let b = (S p)\<lparr>spentLTags := fold (\<lambda>(lTag, gid). map_insert lTag gid) (infoLTags info) (spentLTags (S p))\<rparr>;
          st = fold (\<lambda>(lTag, gid). AddSpend lTag gid) (infoLTags info) st
      in if argMobile E
         then (fold (\<lambda>(tagHash, txHash). AddLTagTxHash tagHash txHash) (infoLTagTxhash info) st,
               S(p := b\<lparr>ltagTxhash := fold (\<lambda>(tagHash, txHash). map_insert tagHash txHash) (infoLTagTxhash info) (ltagTxhash b)\<rparr>))
         else (st, S(p := b)))"

text \<open>The names are updated at the end, also where a block without data is only checked.\<close>

definition connect_block_names :: "addr \<Rightarrow> bool \<Rightarrow> ('c, 'g) spark_node \<Rightarrow> ('c, 'g) spark_node" where
  "connect_block_names p fBackup N =
     (let b = nodeStore N p
      in case connect_names (nHeight b) fBackup (addedSparkNames b) (nodeNames N) of (M, removed) \<Rightarrow>
         N\<lparr>nodeNames := M, nodeStore := (nodeStore N)(p := b\<lparr>removedSparkNames := removed\<rparr>)\<rparr>)"

text \<open>
  A failure of \<open>ConnectBlockSpark\<close> comes with the node as it is left: a block that is refused, unless it was only checked, has lost the coins, the
  tags and the hashes of its entry, which are cleared before the checks.
\<close>

definition failing :: "'n \<Rightarrow> verify_error + 'a \<Rightarrow> (verify_error \<times> 'n) + 'a" where
  "failing N r = (case r of Inl e \<Rightarrow> Inl (e, N) | Inr v \<Rightarrow> Inr v)"

lemma failing_simps [simp]: "failing N (Inl e) = Inl (e, N)" "failing N (Inr v) = Inr v" "failing N r = Inr v \<longleftrightarrow> r = Inr v"
  by (auto simp: failing_def split: sum.splits)

definition ConnectBlockSpark ::
  "('c, 'g, 's) spark_env \<Rightarrow> SparkParams \<Rightarrow> addr \<Rightarrow> (CTransaction list \<times> ('c, 'g) CSparkTxInfo) option \<Rightarrow> bool \<Rightarrow> CValidationState \<Rightarrow> ('c, 'g) spark_node \<Rightarrow>
    (verify_error \<times> ('c, 'g) spark_node) + ('c, 'g) spark_node" where
  "ConnectBlockSpark E P p pblock fJustCheck s N =
     (case pblock of
        Some (txs, info) \<Rightarrow>
          let S = nodeStore N; st = nodeState N;
              S = (if fJustCheck then S else S(p := (S p)\<lparr>sparkMintedCoins := [], spentLTags := [], sparkSetHash := []\<rparr>));
              N1 = N\<lparr>nodeStore := S\<rparr>
          in bindE (failing N1 (CheckSparkBlock P txs s)) (\<lambda>_.
             bindE (failing N1 (check_ltags_loop st (Some info) (map fst (infoLTags info)) (nHeight (S p)) True s)) (\<lambda>_.
             if fJustCheck then Inr N
             else case connect_spends E info p st S of (st, S) \<Rightarrow>
               bindE (failing (N\<lparr>nodeState := st, nodeStore := S\<rparr>) (connect_mints E txs (infoMints info) p st S)) (\<lambda>(st, S).
               let S = (if infoSparkNames info = [] then S
                        else S(p := (S p)\<lparr>addedSparkNames := added_names (nHeight (S p)) (infoSparkNames info) (addedSparkNames (S p))\<rparr>))
               in Inr (connect_block_names p (infoSparkNames info \<noteq> []) (N\<lparr>nodeState := st, nodeStore := S\<rparr>)))))
      | None \<Rightarrow>
          bindE (failing N (if fJustCheck then Inr (nodeState N) else State_AddBlock E (nodeStore N) p (nodeState N))) (\<lambda>st.
            Inr (connect_block_names p False (N\<lparr>nodeState := st\<rparr>))))"

text \<open>The transactions of a pool that are removed with a block: those with a spend that refers to it or cannot be parsed.\<close>

definition spend_references :: "('c, 'g, 's) spark_env \<Rightarrow> uint256 \<Rightarrow> CTransaction \<Rightarrow> CTransaction list" where
  "spend_references E hash tx =
     (let inputs = filter (\<lambda>txin. IsSparkSpend (scriptSig txin)) (vin tx)
      in if \<not> Tx_IsSparkSpend tx then []
         else case ParseSparkSpend E tx of
           Inl _ \<Rightarrow> if inputs = [] then [] else [tx]
         | Inr spend \<Rightarrow> if list_ex (\<lambda>idAndHash. snd idAndHash = hash) (getBlockHashes E spend) then map (\<lambda>_. tx) inputs else [])"

definition RemoveSpendReferencingBlock ::
  "('c, 'g, 's) spark_env \<Rightarrow> (CTransaction \<Rightarrow> 'p \<Rightarrow> 'p) \<Rightarrow> ('p \<Rightarrow> CTransaction list) \<Rightarrow> uint256 \<Rightarrow> 'p \<Rightarrow> 'p" where
  "RemoveSpendReferencingBlock E removeRecursive mapTx hash pool = fold removeRecursive (concat (map (spend_references E hash) (mapTx pool))) pool"

definition DisconnectTipSpark ::
  "('c, 'g, 's) spark_env \<Rightarrow> (CTransaction \<Rightarrow> 'p \<Rightarrow> 'p) \<Rightarrow> ('p \<Rightarrow> CTransaction list) \<Rightarrow> addr \<Rightarrow> ('c, 'g) spark_node \<Rightarrow> 'p \<Rightarrow> 'p \<Rightarrow>
    verify_error + ('c, 'g) spark_node \<times> 'p \<times> 'p" where
  "DisconnectTipSpark E removeRecursive mapTx p N mempool stempool =
     (let S = nodeStore N; M = Names_RemoveBlock (removedSparkNames (S p)) (addedSparkNames (S p)) (nodeNames N)
      in bindE (State_RemoveBlock S p (nodeState N)) (\<lambda>st.
           Inr (N\<lparr>nodeNames := M, nodeState := st\<rparr>,
                RemoveSpendReferencingBlock E removeRecursive mapTx (phashBlock (S p)) mempool,
                RemoveSpendReferencingBlock E removeRecursive mapTx (phashBlock (S p)) stempool)))"

text \<open>Rebuilding the state when the index is loaded; the walk along the active chain looks at the links and heights only.\<close>

definition plain_store :: "('c, 'g) spark_store \<Rightarrow> store" where
  "plain_store S p = block_index.truncate (S p)"

partial_function (option) build_loop ::
  "('c, 'g, 's) spark_env \<Rightarrow> CChain \<Rightarrow> addr option \<Rightarrow> ('c, 'g) spark_node \<Rightarrow> (verify_error + ('c, 'g) spark_node) option" where
  "build_loop E chain blockIndex N =
     (case blockIndex of
        None \<Rightarrow> Some (Inr N)
      | Some p \<Rightarrow>
          let r = State_AddBlock E (nodeStore N) p (nodeState N); b = nodeStore N p;
              M = fst (Names_AddBlock (removedSparkNames b) (addedSparkNames b) False (nodeNames N))
          in if isl r then Some (Inl (projl r))
             else build_loop E chain (Next (plain_store (nodeStore N)) chain p) (N\<lparr>nodeState := projr r, nodeNames := M\<rparr>))"

definition BuildSparkStateFromIndex ::
  "('c, 'g, 's) spark_env \<Rightarrow> CChain \<Rightarrow> ('c, 'g) spark_node \<Rightarrow> verify_error + ('c, 'g) spark_node" where
  "BuildSparkStateFromIndex E chain N = ended (build_loop E chain (Genesis chain) N)"

end
