(* ===== verification/SparkNameProps.thy ===== *)
theory SparkNameProps
  imports SparkNames
begin

text \<open>
  Properties of the Spark names: names and addresses are inverse to each other, connecting a block keeps them so, disconnecting it restores the
  names, and loading the index gives the same names as connecting did.
\<close>

section \<open>Names and addresses are inverse to each other\<close>

definition inverse_maps :: "(bytes \<rightharpoonup> CSparkNameBlockIndexData) \<Rightarrow> (bytes \<rightharpoonup> bytes) \<Rightarrow> bool" where
  "inverse_maps f g \<longleftrightarrow> (\<forall>n a. g a = Some n \<longleftrightarrow> (\<exists>d. f n = Some d \<and> sparkAddress d = a))"

definition names_inv :: "CSparkNameManager \<Rightarrow> bool" where
  "names_inv M \<longleftrightarrow> map_wf (sparkNames M) \<and> map_wf (sparkNameAddresses M) \<and>
     inverse_maps (map_of (sparkNames M)) (map_of (sparkNameAddresses M)) \<and>
     (\<forall>n d. map_of (sparkNames M) n = Some d \<longrightarrow> ToUpper (spName d) = n)"

lemma inverse_mapsD: "inverse_maps f g \<Longrightarrow> f n = Some d \<Longrightarrow> g (sparkAddress d) = Some n"
  by (auto simp: inverse_maps_def)

lemma inverse_mapsE:
  assumes "inverse_maps f g" "g a = Some n"
  obtains d where "f n = Some d" "sparkAddress d = a"
  using assms by (auto simp: inverse_maps_def)

lemma inverse_maps_erase:
  assumes "inverse_maps f g" "f n = Some d \<or> f n = None \<and> g (sparkAddress d) = None"
  shows "inverse_maps (f(n := None)) (g(sparkAddress d := None))"
proof -
  have "f m = Some d' \<Longrightarrow> sparkAddress d' = sparkAddress d \<Longrightarrow> m = n" for m d'
    using assms inverse_mapsD[OF assms(1)] by (metis option.distinct(1) option.inject)
  moreover have "g a = Some n \<Longrightarrow> a = sparkAddress d" for a
    using assms by (metis inverse_mapsE option.distinct(1) option.inject)
  ultimately have "(g(sparkAddress d := None)) a = Some m \<longleftrightarrow> (\<exists>d'. (f(n := None)) m = Some d' \<and> sparkAddress d' = a)" for a m
    using assms(1) unfolding inverse_maps_def fun_upd_apply by (metis option.distinct(1))
  then show ?thesis
    by (simp add: inverse_maps_def)
qed

lemma inverse_maps_put:
  assumes "inverse_maps f g" "(\<exists>old. f n = Some old \<and> sparkAddress old = sparkAddress d) \<or> f n = None \<and> g (sparkAddress d) = None"
  shows "inverse_maps (f(n \<mapsto> d)) (g(sparkAddress d \<mapsto> n))"
proof -
  have "f m = Some d' \<Longrightarrow> sparkAddress d' = sparkAddress d \<Longrightarrow> m = n" for m d'
    using assms inverse_mapsD[OF assms(1)] by (metis option.distinct(1) option.inject)
  moreover have "g a = Some n \<Longrightarrow> a = sparkAddress d" for a
    using assms by (metis inverse_mapsE option.distinct(1) option.inject)
  ultimately have "(g(sparkAddress d \<mapsto> n)) a = Some m \<longleftrightarrow> (\<exists>d'. (f(n \<mapsto> d)) m = Some d' \<and> sparkAddress d' = a)" for a m
    using assms(1) unfolding inverse_maps_def fun_upd_apply by (metis option.inject)
  then show ?thesis
    by (simp add: inverse_maps_def)
qed

lemma inverse_maps_unique:
  "inverse_maps f g \<Longrightarrow> f n = Some d \<Longrightarrow> f n' = Some d' \<Longrightarrow> sparkAddress d = sparkAddress d' \<Longrightarrow> n = n'"
  using inverse_mapsD[of f g n d] inverse_mapsD[of f g n' d'] by simp

lemma inverse_maps_fun: "inverse_maps f g \<Longrightarrow> inverse_maps f g' \<Longrightarrow> g = g'"
  by (intro ext, simp add: inverse_maps_def) (metis not_None_eq)

lemma toupper_toupper [simp]: "toupper (toupper c) = toupper c"
proof (cases "97 \<le> c \<and> c \<le> 122")
  case True
  then have "unat (c - 32) = unat c - 32"
    by (subst unat_sub) (simp_all add: word_le_nat_alt)
  with True show ?thesis
    by (auto simp: toupper_def word_le_nat_alt)
qed (auto simp: toupper_def)

lemma ToUpper_ToUpper [simp]: "ToUpper (ToUpper n) = ToUpper n"
  by (simp add: ToUpper_def comp_def)

lemma names_inv_Reset: "names_inv Names_Reset"
  by (simp add: names_inv_def inverse_maps_def Names_Reset_def)

lemma names_inv_upper: "names_inv M \<Longrightarrow> map_of (sparkNames M) n = Some d \<Longrightarrow> ToUpper n = n"
  unfolding names_inv_def by (metis ToUpper_ToUpper)

lemma names_inv_eqI:
  assumes "names_inv M" "names_inv M'" "map_of (sparkNames M) = map_of (sparkNames M')"
  shows "M = M'"
proof -
  have "map_of (sparkNameAddresses M) = map_of (sparkNameAddresses M')"
    using assms by (auto simp: names_inv_def intro: inverse_maps_fun)
  with assms show ?thesis
    by (auto simp: names_inv_def intro!: CSparkNameManager.equality map_wf_eqI)
qed

lemma names_inv_erase:
  assumes "names_inv M" "map_of (sparkNames M) n = Some d \<or> map_of (sparkNames M) n = None \<and> map_of (sparkNameAddresses M) (sparkAddress d) = None"
  shows "names_inv (erase_name n (sparkAddress d) M)"
  using assms inverse_maps_erase[of "map_of (sparkNames M)" "map_of (sparkNameAddresses M)" n d] by (auto simp: names_inv_def erase_name_def)

definition may_put :: "CSparkNameManager \<Rightarrow> bytes \<Rightarrow> CSparkNameBlockIndexData \<Rightarrow> bool" where
  "may_put M n d \<longleftrightarrow> ToUpper (spName d) = n \<and>
     (case map_of (sparkNames M) n of Some old \<Rightarrow> sparkAddress old = sparkAddress d | None \<Rightarrow> map_of (sparkNameAddresses M) (sparkAddress d) = None)"

lemma names_inv_put: "names_inv M \<Longrightarrow> may_put M n d \<Longrightarrow> names_inv (put_name n d M)"
  using inverse_maps_put[of "map_of (sparkNames M)" "map_of (sparkNameAddresses M)" n d]
  by (auto simp: names_inv_def put_name_def may_put_def split: option.splits)

section \<open>Connecting and disconnecting\<close>

abbreviation names_of :: "CSparkNameManager \<Rightarrow> bytes \<rightharpoonup> CSparkNameBlockIndexData" where
  "names_of M \<equiv> map_of (sparkNames M)"

lemma names_of_erase [simp]: "names_of (erase_name n a M) = (names_of M)(n := None)"
  by (simp add: erase_name_def)

lemma names_of_put [simp]: "names_of (put_name n d M) = (names_of M)(n \<mapsto> d)"
  by (simp add: put_name_def)

text \<open>Entries of a manager are erased from, and put into, a part of it.\<close>

lemma absent_address:
  assumes "names_inv M0" "names_inv M" "names_of M \<subseteq>\<^sub>m names_of M0" "names_of M0 n = Some d" "names_of M n = None"
  shows "map_of (sparkNameAddresses M) (sparkAddress d) = None"
proof (rule ccontr)
  assume "map_of (sparkNameAddresses M) (sparkAddress d) \<noteq> None"
  then obtain n' d' where "names_of M n' = Some d'" "sparkAddress d' = sparkAddress d"
    using assms(2) by (auto simp: names_inv_def elim: inverse_mapsE)
  moreover from this(1) have "names_of M0 n' = Some d'"
    using assms(3) by (auto simp: map_le_def dom_def)
  ultimately show False
    using assms inverse_maps_unique unfolding names_inv_def by (metis option.distinct(1))
qed

lemma part_erase:
  assumes "names_inv M0" "names_inv M" "names_of M \<subseteq>\<^sub>m names_of M0" "names_of M0 n = Some d"
  shows "names_inv (erase_name n (sparkAddress d) M)"
proof (cases "names_of M n")
  case None
  then show ?thesis
    using absent_address[OF assms] assms(2) by (auto intro: names_inv_erase)
next
  case (Some d')
  then have "d' = d"
    using assms(3,4) by (metis domI map_le_def option.inject)
  with Some show ?thesis
    using assms(2) by (auto intro: names_inv_erase)
qed

lemma part_put:
  assumes "names_inv M0" "names_inv M" "names_of M \<subseteq>\<^sub>m names_of M0" "names_of M0 n = Some d"
  shows "names_inv (put_name n d M)"
proof (rule names_inv_put[OF assms(2)])
  show "may_put M n d"
  proof (cases "names_of M n")
    case None
    then show ?thesis
      using absent_address[OF assms] assms(1,4) by (auto simp: may_put_def names_inv_def)
  next
    case (Some d')
    then have "d' = d"
      using assms(3,4) by (metis domI map_le_def option.inject)
    with Some show ?thesis
      using assms(1,4) by (auto simp: may_put_def names_inv_def)
  qed
qed

lemma fold_erase_names:
  assumes "names_inv M0" "names_inv M" "names_of M \<subseteq>\<^sub>m names_of M0" "\<forall>e \<in> set R. names_of M0 (fst e) = Some (snd e)"
  shows "names_inv (fold (\<lambda>e. erase_name (ToUpper (fst e)) (sparkAddress (snd e))) R M) \<and>
    names_of (fold (\<lambda>e. erase_name (ToUpper (fst e)) (sparkAddress (snd e))) R M) = names_of M |` (- fst ` set R)"
  using assms(2-)
proof (induction R arbitrary: M)
  case Nil
  then show ?case by (simp add: restrict_map_def fun_eq_iff)
next
  case (Cons e R)
  let ?M = "erase_name (fst e) (sparkAddress (snd e)) M"
  have [simp]: "ToUpper (fst e) = fst e"
    using assms(1) Cons.prems(3) by (auto intro: names_inv_upper)
  have inv: "names_inv ?M"
    using assms(1) Cons.prems by (auto intro: part_erase)
  have sub: "names_of ?M \<subseteq>\<^sub>m names_of M0"
    using Cons.prems(2) by (simp add: map_le_def)
  have eq: "names_of ?M |` (- fst ` set R) = names_of M |` (- fst ` set (e # R))"
    by (auto simp: restrict_map_def)
  show ?case
    using Cons.IH[OF inv sub] Cons.prems(3) unfolding eq by simp
qed

lemma fold_put_names:
  assumes "names_inv M0" "names_inv M" "names_of M \<subseteq>\<^sub>m names_of M0" "\<forall>e \<in> set R. names_of M0 (fst e) = Some (snd e)"
  shows "names_inv (fold (\<lambda>e. put_name (ToUpper (fst e)) (snd e)) R M) \<and>
    names_of (fold (\<lambda>e. put_name (ToUpper (fst e)) (snd e)) R M) = names_of M ++ (names_of M0 |` (fst ` set R))"
  using assms(2-)
proof (induction R arbitrary: M)
  case Nil
  then show ?case by (simp add: restrict_map_def map_add_def)
next
  case (Cons e R)
  let ?M = "put_name (fst e) (snd e) M"
  have [simp]: "ToUpper (fst e) = fst e"
    using assms(1) Cons.prems(3) by (auto intro: names_inv_upper)
  have inv: "names_inv ?M"
    using assms(1) Cons.prems by (auto intro: part_put)
  have sub: "names_of ?M \<subseteq>\<^sub>m names_of M0"
    using Cons.prems(2,3) by (simp add: map_le_def)
  have eq: "names_of ?M ++ names_of M0 |` (fst ` set R) = names_of M ++ names_of M0 |` (fst ` set (e # R))"
    using Cons.prems(3) by (auto simp: restrict_map_def map_add_def fun_eq_iff split: option.splits)
  show ?case
    using Cons.IH[OF inv sub] Cons.prems(3) unfolding eq by simp
qed

text \<open>The names of a block that the checks admit.\<close>

definition names_admitted :: "CSparkNameManager \<Rightarrow> name_map \<Rightarrow> bool" where
  "names_admitted M added \<longleftrightarrow> map_wf added \<and> distinct (map (sparkAddress \<circ> snd) added) \<and> list_all (\<lambda>e. may_put M (fst e) (snd e)) added"

lemma may_put_upper: "may_put M n d \<Longrightarrow> ToUpper n = n"
  by (auto simp: may_put_def)

lemma may_put_other:
  "may_put M n' d' \<Longrightarrow> n' \<noteq> n \<Longrightarrow> sparkAddress d' \<noteq> sparkAddress d \<Longrightarrow> may_put (put_name n d M) n' d'"
  by (auto simp: may_put_def put_name_def split: option.splits)

lemma add_names_loop_spec:
  assumes "names_inv M" "names_admitted M A" "map_wf R"
  shows "case add_names_loop fBackup A M R of (M', R') \<Rightarrow> names_inv M' \<and> names_of M' = names_of M ++ map_of A \<and> map_wf R' \<and>
    map_of R' = (if fBackup then map_of R ++ (names_of M |` (fst ` set A)) else map_of R)"
  using assms
proof (induction A arbitrary: M R)
  case Nil
  then show ?case by (auto simp: restrict_map_def map_add_def)
next
  case (Cons e A)
  let ?M = "put_name (fst e) (snd e) M"
  let ?R = "case names_of M (fst e) of Some old \<Rightarrow> if fBackup then map_put (fst e) old R else R | None \<Rightarrow> R"
  have [simp]: "ToUpper (fst e) = fst e"
    using Cons.prems(2) by (auto simp: names_admitted_def intro: may_put_upper)
  have e: "fst e \<notin> fst ` set A" "sparkAddress (snd e) \<notin> (sparkAddress \<circ> snd) ` set A" "map_wf A" "may_put M (fst e) (snd e)"
    using Cons.prems(2) by (auto simp: names_admitted_def map_wf_Cons)
  have inv: "names_inv ?M"
    using e Cons.prems(1) by (auto intro: names_inv_put)
  have admitted: "names_admitted ?M A"
    using e Cons.prems(2) by (auto simp: names_admitted_def list_all_iff image_iff intro!: may_put_other)
  have wf: "map_wf ?R"
    using Cons.prems(3) by (simp split: option.splits)
  have names: "names_of ?M ++ map_of A = names_of M ++ map_of (e # A)"
    using e(1) by (cases e) (auto simp: map_add_def fun_eq_iff dom_map_of_conv_image_fst[symmetric] dom_def split: option.splits)
  have removed: "(if fBackup then map_of ?R ++ (names_of ?M |` (fst ` set A)) else map_of ?R) =
    (if fBackup then map_of R ++ (names_of M |` (fst ` set (e # A))) else map_of R)"
    using e(1) by (auto simp: restrict_map_def map_add_def fun_eq_iff image_iff split: option.splits)
  have step: "add_names_loop fBackup (e # A) M R = add_names_loop fBackup A ?M ?R"
    by (simp add: Let_def)
  show ?case
    using Cons.IH[OF inv admitted wf] unfolding step names removed .
qed

text \<open>Removing the names that lose their validity.\<close>

lemma validity_loop_eq:
  "validity_loop h E M R =
     (fold (\<lambda>e. erase_name (fst e) (sparkAddress (snd e))) (filter (\<lambda>e. loses_validity h (snd e)) E) M,
      fold (\<lambda>e. map_put (fst e) (snd e)) (filter (\<lambda>e. loses_validity h (snd e)) E) R)"
  by (induction E arbitrary: M R) auto

lemma map_of_fold_put: "distinct (map fst E) \<Longrightarrow> map_of (fold (\<lambda>e. map_put (fst e) (snd e)) E R) = map_of R ++ map_of E"
proof (induction E arbitrary: R)
  case (Cons e E)
  then have "map_of E (fst e) = None"
    by (auto simp: map_of_eq_None_iff)
  then show ?case
    using Cons by (cases e) (auto simp: map_add_def fun_eq_iff split: option.splits)
qed simp

lemma map_wf_fold_put: "map_wf R \<Longrightarrow> map_wf (fold (\<lambda>e. map_put (fst e) (snd e)) E R)"
  by (induction E arbitrary: R) auto

lemma fold_put_wf: "map_wf E \<Longrightarrow> fold (\<lambda>e. map_put (fst e) (snd e)) E [] = E"
  by (intro map_wf_eqI) (auto simp: map_of_fold_put map_wf_distinct intro: map_wf_fold_put)

lemma RemoveSparkNamesLosingValidity_spec:
  fixes h :: int
  assumes "names_inv M"
  defines "R \<equiv> filter (\<lambda>e. loses_validity h (snd e)) (sparkNames M)"
  shows "\<exists>M1. RemoveSparkNamesLosingValidity h M = (M1, R) \<and> names_inv M1 \<and> names_of M1 = names_of M |` (- fst ` set R)"
proof -
  let ?f = "\<lambda>e :: bytes \<times> CSparkNameBlockIndexData. erase_name (fst e) (sparkAddress (snd e))"
  have wf: "map_wf (sparkNames M)"
    using assms by (simp add: names_inv_def)
  have R: "\<forall>e \<in> set R. names_of M (fst e) = Some (snd e)"
    using map_wf_distinct[OF wf] by (auto simp: R_def)
  have "fold ?f R M = fold (\<lambda>e. erase_name (ToUpper (fst e)) (sparkAddress (snd e))) R M"
    using R names_inv_upper[OF assms(1)] by (intro fold_cong) auto
  then show ?thesis
    using fold_erase_names[OF assms(1) assms(1) map_le_refl R] fold_put_wf[OF map_wf_filter[OF wf]]
    by (simp add: RemoveSparkNamesLosingValidity_def validity_loop_eq R_def)
qed

text \<open>What remains of admitted names is admitted where some names are gone.\<close>

lemma names_admitted_part:
  assumes "names_inv M0" "names_inv M" "names_of M \<subseteq>\<^sub>m names_of M0" "names_admitted M0 A"
  shows "names_admitted M A"
proof -
  have "may_put M n d" if put: "may_put M0 n d" for n d
  proof (cases "names_of M0 n")
    case None
    then have M: "names_of M n = None"
      using assms(3) by (metis domIff map_le_def)
    have "map_of (sparkNameAddresses M) (sparkAddress d) = None"
    proof (rule ccontr)
      assume "map_of (sparkNameAddresses M) (sparkAddress d) \<noteq> None"
      then obtain n' d' where "names_of M n' = Some d'" "sparkAddress d' = sparkAddress d"
        using assms(2) by (auto simp: names_inv_def elim: inverse_mapsE)
      then have "map_of (sparkNameAddresses M0) (sparkAddress d) = Some n'"
        using assms(1,3) by (metis domI inverse_mapsD map_le_def names_inv_def)
      with put None show False
        by (simp add: may_put_def)
    qed
    with M put show ?thesis
      by (simp add: may_put_def)
  next
    case (Some old)
    then have old: "sparkAddress old = sparkAddress d"
      using put by (simp add: may_put_def)
    show ?thesis
    proof (cases "names_of M n")
      case None
      then show ?thesis
        using absent_address[OF assms(1-3) Some None] old put by (simp add: may_put_def)
    next
      case (Some old')
      then have "old' = old"
        using assms(3) \<open>names_of M0 n = Some old\<close> by (metis domI map_le_def option.inject)
      with Some old put show ?thesis
        by (simp add: may_put_def)
    qed
  qed
  then show ?thesis
    using assms(4) by (auto simp: names_admitted_def list_all_iff)
qed

lemma part_restrict: "f |` A \<subseteq>\<^sub>m f"
  by (auto simp: map_le_def restrict_map_def split: if_splits)

lemma map_of_Some_fst: "map_of A x = Some y \<Longrightarrow> x \<in> fst ` set A"
  by (force dest: map_of_SomeD)

lemma restricted_entries: "map_wf R \<Longrightarrow> map_of R = f |` S \<Longrightarrow> \<forall>e \<in> set R. f (fst e) = Some (snd e)"
  by (metis map_of_is_SomeI map_wf_distinct option.distinct(1) prod.collapse restrict_map_def)

text \<open>Connecting a block: the names that are lost are removed and those of the block are put, and the removed names of the index are all that were changed.\<close>

lemma connect_names_spec:
  fixes h :: int
  assumes "names_inv M" "names_admitted M A"
  defines "lost \<equiv> fst ` set (filter (\<lambda>e. loses_validity h (snd e)) (sparkNames M))"
  shows "\<exists>M' R. connect_names h True A M = (M', R) \<and> names_inv M' \<and> names_of M' = (names_of M |` (- lost)) ++ map_of A \<and>
    map_wf R \<and> map_of R = names_of M |` (lost \<union> fst ` set A)"
proof -
  let ?R = "filter (\<lambda>e. loses_validity h (snd e)) (sparkNames M)"
  have wf: "map_wf (sparkNames M)" "map_wf ?R"
    using assms(1) by (auto simp: names_inv_def intro: map_wf_filter)
  have R: "\<forall>e \<in> set ?R. names_of M (fst e) = Some (snd e)"
    using map_wf_distinct[OF wf(1)] by auto
  obtain M1 where M1: "RemoveSparkNamesLosingValidity h M = (M1, ?R)" "names_inv M1" "names_of M1 = names_of M |` (- lost)"
    using RemoveSparkNamesLosingValidity_spec[OF assms(1)] unfolding lost_def by metis
  define M2 where "M2 = fold (\<lambda>e. erase_name (ToUpper (fst e)) (sparkAddress (snd e))) ?R M1"
  have M2: "names_inv M2" "names_of M2 = names_of M |` (- lost)"
    using fold_erase_names[OF assms(1) M1(2) _ R] M1(3) unfolding M2_def lost_def by (simp_all add: part_restrict)
  have "names_admitted M2 A"
    using names_admitted_part[OF assms(1) M2(1) _ assms(2)] M2(2) by (simp add: part_restrict)
  moreover have "map_of ?R = names_of M |` lost"
    using R map_of_eq_None_iff[of ?R] map_wf_distinct[OF wf(2)] by (force simp: lost_def restrict_map_def fun_eq_iff image_iff)
  moreover have "(names_of M |` lost) ++ (names_of M |` (- lost) |` (fst ` set A)) = names_of M |` (lost \<union> fst ` set A)"
    by (auto simp: restrict_map_def map_add_def fun_eq_iff split: option.splits)
  ultimately show ?thesis
    using add_names_loop_spec[OF M2(1), of A ?R True] wf(2) M1(1) M2(2)
    by (cases "add_names_loop True A M2 ?R") (simp add: connect_names_def Names_AddBlock_def M2_def)
qed

lemma RemoveBlock_connect_names:
  assumes "names_inv M" "names_admitted M A" "connect_names h True A M = (M', R)"
  shows "Names_RemoveBlock R A M' = M"
proof -
  define lost where "lost = fst ` set (filter (\<lambda>e. loses_validity h (snd e)) (sparkNames M))"
  have M': "names_inv M'" "names_of M' = (names_of M |` (- lost)) ++ map_of A" "map_wf R" "map_of R = names_of M |` (lost \<union> fst ` set A)"
    using connect_names_spec[OF assms(1,2), of h] assms(3) unfolding lost_def by auto
  have wf: "map_wf A"
    using assms(2) by (simp add: names_admitted_def)
  have A: "\<forall>e \<in> set A. names_of M' (fst e) = Some (snd e)"
    using M'(2) map_wf_distinct[OF wf] by (auto simp: map_add_def)
  have R: "\<forall>e \<in> set R. names_of M (fst e) = Some (snd e)"
    using restricted_entries[OF M'(3,4)] .
  have dom: "fst ` set R = dom (names_of M) \<inter> (lost \<union> fst ` set A)"
    using M'(4) dom_map_of_conv_image_fst[of R] by (simp add: dom_restrict)
  define M1 where "M1 = fold (\<lambda>e. erase_name (ToUpper (fst e)) (sparkAddress (snd e))) A M'"
  have M1: "names_inv M1" "names_of M1 = names_of M |` (- lost - fst ` set A)"
  proof -
    have "((names_of M |` (- lost)) ++ map_of A) |` (- fst ` set A) = names_of M |` (- lost - fst ` set A)"
      by (auto simp: restrict_map_def map_add_def fun_eq_iff map_of_eq_None_iff dest: map_of_Some_fst split: option.splits)
    then show "names_inv M1" "names_of M1 = names_of M |` (- lost - fst ` set A)"
      using fold_erase_names[OF M'(1) M'(1) map_le_refl A] M'(2) unfolding M1_def by simp_all
  qed
  have "names_inv (Names_RemoveBlock R A M') \<and> names_of (Names_RemoveBlock R A M') = names_of M1 ++ (names_of M |` (fst ` set R))"
    using fold_put_names[OF assms(1) M1(1) _ R] M1(2) unfolding Names_RemoveBlock_def M1_def by (simp add: part_restrict)
  moreover have "names_of M1 ++ (names_of M |` (fst ` set R)) = names_of M"
    unfolding M1(2) dom by (auto simp: restrict_map_def map_add_def fun_eq_iff split: option.splits)
  ultimately show ?thesis
    using assms(1) names_inv_eqI by metis
qed

lemma AddBlock_rebuilds_names:
  assumes "names_inv M" "names_admitted M A" "connect_names h True A M = (M', R)"
  shows "Names_AddBlock R A False M = (M', R)"
proof -
  define lost where "lost = fst ` set (filter (\<lambda>e. loses_validity h (snd e)) (sparkNames M))"
  have M': "names_inv M'" "names_of M' = (names_of M |` (- lost)) ++ map_of A" "map_wf R" "map_of R = names_of M |` (lost \<union> fst ` set A)"
    using connect_names_spec[OF assms(1,2), of h] assms(3) unfolding lost_def by auto
  have R: "\<forall>e \<in> set R. names_of M (fst e) = Some (snd e)"
    using restricted_entries[OF M'(3,4)] .
  have dom: "fst ` set R = dom (names_of M) \<inter> (lost \<union> fst ` set A)"
    using M'(4) dom_map_of_conv_image_fst[of R] by (simp add: dom_restrict)
  define M1 where "M1 = fold (\<lambda>e. erase_name (ToUpper (fst e)) (sparkAddress (snd e))) R M"
  have M1: "names_inv M1" "names_of M1 = names_of M |` (- fst ` set R)"
    using fold_erase_names[OF assms(1) assms(1) map_le_refl R] unfolding M1_def by simp_all
  have "names_admitted M1 A"
    using names_admitted_part[OF assms(1) M1(1) _ assms(2)] M1(2) by (simp add: part_restrict)
  from add_names_loop_spec[OF M1(1) this M'(3), of False] obtain M2 R2
    where M2: "add_names_loop False A M1 R = (M2, R2)" "names_inv M2" "names_of M2 = names_of M1 ++ map_of A" "map_wf R2" "map_of R2 = map_of R"
    by (auto split: prod.splits)
  moreover have "names_of M1 ++ map_of A = names_of M'"
    unfolding M1(2) M'(2) dom
    by (auto simp: restrict_map_def map_add_def fun_eq_iff dom_def map_of_eq_None_iff dest: map_of_Some_fst split: option.splits)
  ultimately have "M2 = M'" "R2 = R"
    using M'(1,3) names_inv_eqI map_wf_eqI by metis+
  with M2(1) show ?thesis
    by (simp add: Names_AddBlock_def M1_def)
qed

section \<open>Serialization\<close>

text \<open>Strings are written as byte vectors are, and reading them in one piece is reading them block by block.\<close>

lemma Serialize_string_blob [simp]: "Serialize_string = Serialize_blob"
  by (simp add: fun_eq_iff Serialize_string_def Serialize_blob_def)

lemma Unserialize_string_blob [simp]: "Unserialize_string = Unserialize_blob"
proof
  fix s
  show "Unserialize_string s = Unserialize_blob s"
  proof (cases "ReadCompactSize s")
    case (Inr p)
    then have "unat (ucast (fst p) :: u32) = unat (fst p)"
      by (cases p) (auto simp: compact.accepts_iff size_cast)
    with Inr show ?thesis
      by (cases p; cases "read_bytes (unat (fst p)) (snd p)") (auto simp: Unserialize_string_def Unserialize_blob_def blob_loop_read)
  qed (simp add: Unserialize_string_def Unserialize_blob_def)
qed

definition name_data_ok :: "CSparkNameTxData \<Rightarrow> bool" where
  "name_data_ok d \<longleftrightarrow> length (inputsHash d) = 32 \<and> length (txName d) \<le> MAX_SIZE \<and> length (txSparkAddress d) \<le> MAX_SIZE \<and>
     length (addressOwnershipProof d) \<le> MAX_SIZE \<and> length (txAdditionalInfo d) \<le> MAX_SIZE"

definition name_index_ok :: "CSparkNameBlockIndexData \<Rightarrow> bool" where
  "name_index_ok d \<longleftrightarrow> length (spName d) \<le> MAX_SIZE \<and> length (sparkAddress d) \<le> MAX_SIZE \<and> length (additionalInfo d) \<le> MAX_SIZE"

interpretation name_data: canonical_codec ser_CSparkNameTxData unser_CSparkNameTxData name_data_ok
proof unfold_locales
  show "unser_CSparkNameTxData (ser_CSparkNameTxData d @ r) = Inr (d, r)" if "name_data_ok d" for d r
    using that by (simp add: unser_CSparkNameTxData_def ser_CSparkNameTxData_def name_data_ok_def read_bytes_append blob.read_back u16.read_back u32.read_back)
  show "name_data_ok d \<and> s = ser_CSparkNameTxData d @ r" if "unser_CSparkNameTxData s = Inr (d, r)" for s d r
    using that by (auto simp: unser_CSparkNameTxData_def ser_CSparkNameTxData_def name_data_ok_def bindE_eq_Inr_iff u16.accepts_iff
      u32.accepts_iff blob.accepts_iff dest!: read_bytes_canonical)
qed

interpretation name_index: canonical_codec ser_CSparkNameBlockIndexData unser_CSparkNameBlockIndexData name_index_ok
proof unfold_locales
  show "unser_CSparkNameBlockIndexData (ser_CSparkNameBlockIndexData d @ r) = Inr (d, r)" if "name_index_ok d" for d r
    using that by (simp add: unser_CSparkNameBlockIndexData_def ser_CSparkNameBlockIndexData_def name_index_ok_def blob.read_back u32.read_back)
  show "name_index_ok d \<and> s = ser_CSparkNameBlockIndexData d @ r" if "unser_CSparkNameBlockIndexData s = Inr (d, r)" for s d r
    using that by (auto simp: unser_CSparkNameBlockIndexData_def ser_CSparkNameBlockIndexData_def name_index_ok_def bindE_eq_Inr_iff
      u32.accepts_iff blob.accepts_iff)
qed

section \<open>Registering a name\<close>

text \<open>The hash that the wallet signs for a value of the failsafe.\<close>

definition signed_hash :: "hash_funs \<Rightarrow> CTransaction \<Rightarrow> CSparkNameTxData \<Rightarrow> u32 \<Rightarrow> uint256" where
  "signed_hash H tx d n = CHash256 H (SerializeTransaction True (append_data tx (d\<lparr>hashFailsafe := n, addressOwnershipProof := []\<rparr>)))"

lemma append_loop_result:
  assumes "isSparkAddress L (txSparkAddress d)" "isScalar L (signed_hash H tx d (n + of_nat k))"
  shows "\<exists>m. isScalar L (signed_hash H tx d m) \<and>
    append_loop H L prove_own tx d n =
      (let d' = d\<lparr>hashFailsafe := m, addressOwnershipProof := prove_own (txSparkAddress d) (signed_hash H tx d m)\<rparr> in Some (Inr (append_data tx d', d')))"
  using assms(2)
proof (induction k arbitrary: n)
  case 0
  then show ?case
    using assms(1) by (subst append_loop.simps) (auto simp: Let_def signed_hash_def intro!: exI[of _ n])
next
  case (Suc k)
  show ?case
  proof (cases "isScalar L (signed_hash H tx d n)")
    case True
    then show ?thesis
      using assms(1) by (subst append_loop.simps) (auto simp: Let_def signed_hash_def intro!: exI[of _ n])
  next
    case False
    then have "append_loop H L prove_own tx d n = append_loop H L prove_own tx d (n + 1)"
      by (subst append_loop.simps) (simp add: Let_def signed_hash_def)
    with Suc.IH[of "n + 1"] Suc.prems show ?thesis
      by (simp add: add.assoc)
  qed
qed

lemma append_data_simps [simp]:
  "vExtraPayload (append_data tx d) = vExtraPayload tx @ ser_CSparkNameTxData d"
  "Tx_IsSparkSpend (append_data tx d) = Tx_IsSparkSpend tx" "vout (append_data tx d) = vout tx"
  by (simp_all add: append_data_def Tx_IsSparkSpend_def)

lemma ser_CSparkNameTxData_nonempty: "ser_CSparkNameTxData d \<noteq> []"
  using WriteLE_length(1)[of "nameVersion d"] by (auto simp: ser_CSparkNameTxData_def ser_writedata16_def simp del: WriteLE_length)

lemma ParseSparkNameTxData_append:
  assumes "\<And>x. readSpend L (vExtraPayload tx @ x) = Some (sp, x)" "name_data_ok d"
  shows "ParseSparkNameTxData L (append_data tx d) = (Some d, length (vExtraPayload tx))"
  using assms ser_CSparkNameTxData_nonempty[of d] name_data.read_back_end[OF assms(2)] by (simp add: ParseSparkNameTxData_def Let_def)

lemma name_hash_append:
  "name_hash H (append_data tx (d\<lparr>hashFailsafe := m, addressOwnershipProof := p\<rparr>)) (d\<lparr>hashFailsafe := m, addressOwnershipProof := p\<rparr>)
     (length (vExtraPayload tx)) = signed_hash H tx d m"
  by (simp add: name_hash_def signed_hash_def append_data_def)

lemma check_name_data_append [simp]:
  "check_name_data P M (append_data tx d') (d\<lparr>hashFailsafe := m, addressOwnershipProof := p\<rparr>) = check_name_data P M tx d"
  by (simp add: check_name_data_def name_fee_def name_years_def split: option.split)

text \<open>C40. The data of a name that the wallet appends to a spend is found and read back behind the spend, the hash that is signed is the hash that is
  verified, and the transaction passes the check of the consensus rules exactly if the data satisfies the rules for names (version, characters and length of
  the name, years, fee, additional information, no conflict with a registered name or address); otherwise the check rejects it. The assumptions: the
  transaction is a spend and the height one with names; the address decodes and the fields of the data fit the format (a hash of 32 bytes, blobs not over
  the greatest size of a blob); some value of the failsafe gives a hash that is a scalar (then the search for it ends); a spend is read from the front
  of the payload whatever follows it; and the proofs that the owner makes for a scalar parse and verify.
\<close>

theorem name_registration_verifies:
  assumes "Tx_IsSparkSpend tx" "nSparkNamesStartBlock P \<le> h" "length (txName d) \<le> MAX_SIZE \<and> length (txAdditionalInfo d) \<le> MAX_SIZE"
    and "length (inputsHash d) = 32" "length (txSparkAddress d) \<le> MAX_SIZE" "isSparkAddress L (txSparkAddress d)"
    and scalar: "\<exists>n. isScalar L (signed_hash H tx d n)"
    and spend: "\<And>x. readSpend L (vExtraPayload tx @ x) = Some (sp, x)"
    and owner: "\<And>m. isScalar L m \<Longrightarrow> isOwnershipProof L (prove_own (txSparkAddress d) m) \<and> length (prove_own (txSparkAddress d) m) \<le> MAX_SIZE \<and>
      verify_own L (txSparkAddress d) m (prove_own (txSparkAddress d) m)"
  shows "\<exists>tx' d'. AppendSparkNameTxData H L prove_own tx d = Some (Inr (tx', d')) \<and>
    CheckSparkNameTx H L P M tx' h s = (if check_name_data P M tx d then Inr (Some d') else reject100 s) \<and>
    d' = d\<lparr>hashFailsafe := hashFailsafe d', addressOwnershipProof := addressOwnershipProof d'\<rparr>"
proof -
  obtain n :: u32 where "isScalar L (signed_hash H tx d (0 + of_nat (unat n)))"
    using scalar by auto
  from append_loop_result[OF assms(6) this, of prove_own] obtain m where m: "isScalar L (signed_hash H tx d m)"
    and loop: "append_loop H L prove_own tx d 0 =
      (let d' = d\<lparr>hashFailsafe := m, addressOwnershipProof := prove_own (txSparkAddress d) (signed_hash H tx d m)\<rparr> in Some (Inr (append_data tx d', d')))"
    by auto
  let ?d = "d\<lparr>hashFailsafe := m, addressOwnershipProof := prove_own (txSparkAddress d) (signed_hash H tx d m)\<rparr>"
  have "name_data_ok ?d"
    using assms(3-5) owner[OF m] by (auto simp: name_data_ok_def)
  then have "CheckSparkNameTx H L P M (append_data tx ?d) h s = (if check_name_data P M tx d then Inr (Some ?d) else reject100 s)"
    using assms(1,2,6) m owner[OF m] spend
    by (simp add: CheckSparkNameTx_def ParseSparkNameTxData_append[where sp = sp] name_hash_append Let_def)
  then show ?thesis
    using loop by (auto simp: AppendSparkNameTxData_def Let_def)
qed

definition demo_name_library :: "unit name_library" where
  "demo_name_library = \<lparr>readSpend = (\<lambda>p. case p of [] \<Rightarrow> None | _ # rest \<Rightarrow> Some ((), rest)), isOwnershipProof = (\<lambda>p. p \<noteq> []), isScalar = (\<lambda>m. True),
     isSparkAddress = (\<lambda>a. length a = 3), verify_own = (\<lambda>a m p. p = 9 # a)\<rparr>"

definition demo_name_params :: SparkNameParams where
  "demo_name_params = \<lparr>nSparkNamesStartBlock = 100, nSparkNamesFee = [0, 1000, 100, 10], devPayoutScript = [OP_1]\<rparr>"

definition demo_name_data :: CSparkNameTxData where
  "demo_name_data = \<lparr>nameVersion = 1, inputsHash = replicate 32 0, txName = [97, 45, 49], txSparkAddress = [1, 2, 3], addressOwnershipProof = [],
     sparkNameValidityBlocks = 210241, txAdditionalInfo = [104], hashFailsafe = 0\<rparr>"

definition demo_name_tx :: CTransaction where
  "demo_name_tx = \<lparr>nVersion = 3, nType = TRANSACTION_SPARK,
     vin = [\<lparr>prevout = \<lparr>outhash = replicate 32 0, outn = 0\<rparr>, scriptSig = [0xd3], nSequence = 0, prevPubKey = [], scriptWitness = []\<rparr>],
     vout = [\<lparr>nValue = 20 * COIN, scriptPubKey = [OP_1], nRounds = - 10\<rparr>], nLockTime = 0, vExtraPayload = [42]\<rparr>"

lemma demo_name_checks:
  "Tx_IsSparkSpend demo_name_tx" "check_name_data demo_name_params Names_Reset demo_name_tx demo_name_data"
  by code_simp+

abbreviation (input) demo_name_hashes :: hash_funs where
  "demo_name_hashes \<equiv> \<lparr>RIPEMD160 = take 20, SHA1 = take 20, SHA256 = take 32, CheckLowS = (\<lambda>_. True)\<rparr>"

theorem name_registration_verifies_witness:
  "\<exists>tx' d'. AppendSparkNameTxData demo_name_hashes demo_name_library (\<lambda>a m. 9 # a) demo_name_tx demo_name_data = Some (Inr (tx', d')) \<and>
     CheckSparkNameTx demo_name_hashes demo_name_library demo_name_params Names_Reset tx' 100 new_state = Inr (Some d')"
proof -
  have "\<exists>tx' d'. AppendSparkNameTxData demo_name_hashes demo_name_library (\<lambda>a m. 9 # a) demo_name_tx demo_name_data = Some (Inr (tx', d')) \<and>
     CheckSparkNameTx demo_name_hashes demo_name_library demo_name_params Names_Reset tx' 100 new_state =
       (if check_name_data demo_name_params Names_Reset demo_name_tx demo_name_data then Inr (Some d') else reject100 new_state) \<and>
     d' = demo_name_data\<lparr>hashFailsafe := hashFailsafe d', addressOwnershipProof := addressOwnershipProof d'\<rparr>"
    by (rule name_registration_verifies[where sp = "()"])
      (simp_all add: demo_name_checks, simp_all add: demo_name_params_def demo_name_data_def demo_name_library_def demo_name_tx_def)
  then show ?thesis using demo_name_checks(2) by auto
qed

end
