(* ===== verification/SparkProps.thy ===== *)
theory SparkProps
  imports SparkChecks SparkNameProps
begin

text \<open>
  Properties of the Spark state: disconnecting a block restores what connecting it changed, or the process ends at an assertion; the state that is kept
  while blocks come and go is the one that is rebuilt from the index; no linking tag is spent twice; the set that a wallet spends from is the one
  that the spend is verified with.
\<close>

section \<open>Walking along the chain\<close>

text \<open>The blocks of a chain from the tip down to the first block.\<close>

definition head_of :: "addr list \<Rightarrow> addr option" where
  "head_of xs = (case xs of [] \<Rightarrow> None | b # _ \<Rightarrow> Some b)"

lemma head_of_simps [simp]: "head_of [] = None" "head_of (b # xs) = Some b"
  by (simp_all add: head_of_def)

primrec links :: "('c, 'g) spark_store \<Rightarrow> addr list \<Rightarrow> bool" where
  "links S [] \<longleftrightarrow> True"
| "links S (b # xs) \<longleftrightarrow> pprev (S b) = head_of xs \<and> links S xs"

lemma links_suffix: "links S (ys @ zs) \<Longrightarrow> links S zs"
  by (induction ys) auto

lemma links_cong: "(\<And>b. b \<in> set xs \<Longrightarrow> pprev (S b) = pprev (S' b)) \<Longrightarrow> links S xs = links S' xs"
  by (induction xs) auto

text \<open>The loops as functions of the list of blocks.\<close>

fun count_back :: "('c, 'g) spark_store \<Rightarrow> int \<Rightarrow> nat \<Rightarrow> addr list \<Rightarrow> nat \<Rightarrow> addr option \<Rightarrow> nat \<times> addr option" where
  "count_back S gid required [] n f = (n, f)"
| "count_back S gid required (b # xs) n f =
     (if \<not> n < required then (n, f)
      else if CountCoinInBlock (S b) gid \<noteq> 0 then count_back S gid required xs (n + CountCoinInBlock (S b) gid) (Some b)
      else count_back S gid required xs n f)"

lemma coins_loop_links: "links S xs \<Longrightarrow> coins_loop S gid required (head_of xs) n f = Some (count_back S gid required xs n f)"
proof (induction xs arbitrary: n f)
  case Nil
  then show ?case by (subst coins_loop.simps) simp
next
  case (Cons b xs)
  then show ?case by (subst coins_loop.simps) (auto simp: Let_def)
qed

lemma count_back_cong:
  "(\<And>b. b \<in> set xs \<Longrightarrow> CountCoinInBlock (S b) gid = CountCoinInBlock (S' b) gid) \<Longrightarrow> count_back S gid required xs n f = count_back S' gid required xs n f"
  by (induction xs arbitrary: n f) auto

lemma count_back_first: "snd (count_back S gid required xs n f) = f \<or> (\<exists>b \<in> set xs. snd (count_back S gid required xs n f) = Some b)"
  by (induction xs arbitrary: n f) fastforce+

lemma count_back_ge: "n \<le> fst (count_back S gid required xs n f)"
  by (induction xs arbitrary: n f) (auto intro: add_leD1)

fun prev_count :: "('c, 'g) spark_store \<Rightarrow> int \<Rightarrow> addr list \<Rightarrow> nat" where
  "prev_count S gid [] = 0"
| "prev_count S gid (q # xs) =
     (if CountCoinInBlock (S q) gid \<noteq> 0 then 0
      else if CountCoinInBlock (S q) (gid - 1) \<noteq> 0 then CountCoinInBlock (S q) (gid - 1) else prev_count S gid xs)"

lemma prev_group_count_links: "links S (b # xs) \<Longrightarrow> prev_group_count S gid b = Some (prev_count S gid xs)"
proof (induction xs arbitrary: b)
  case Nil
  then show ?case by (subst prev_group_count.simps) simp
next
  case (Cons c xs)
  then show ?case by (subst prev_group_count.simps) auto
qed

text \<open>Rolling back: the nearest earlier block with coins of the group, or the assertion that fails at the first block of the group.\<close>

lemma roll_back_found:
  assumes "links S (b # ys @ l # zs)" "map_of (sparkMintedCoins (S l)) gid \<noteq> None" "\<forall>c \<in> set ys. map_of (sparkMintedCoins (S c)) gid = None"
    "first \<notin> Some ` set (b # ys)"
  shows "roll_back_last S gid first b = Some (Inr l)"
  using assms
proof (induction ys arbitrary: b)
  case Nil
  then show ?case by (subst roll_back_last.simps) auto
next
  case (Cons c ys)
  have "roll_back_last S gid first c = Some (Inr l)"
    using Cons.prems by (intro Cons.IH) auto
  with Cons.prems show ?case by (subst roll_back_last.simps) auto
qed

lemma roll_back_asserts:
  assumes "links S (b # ys @ f # zs)" "\<forall>c \<in> set (ys @ [f]). map_of (sparkMintedCoins (S c)) gid = None"
  shows "roll_back_last S gid (Some f) b = Some (Inl AssertSpark)"
  using assms
proof (induction ys arbitrary: b)
  case Nil
  have "roll_back_last S gid (Some f) f = Some (Inl AssertSpark)"
    by (subst roll_back_last.simps) simp
  with Nil show ?case by (subst roll_back_last.simps) auto
next
  case (Cons c ys)
  have "roll_back_last S gid (Some f) c = Some (Inl AssertSpark)"
    using Cons.prems by (intro Cons.IH) auto
  with Cons.prems show ?case by (subst roll_back_last.simps) auto
qed

section \<open>Counters, coins and tags\<close>

definition meta_of :: "(int \<times> u64) list \<Rightarrow> int \<Rightarrow> u64" where
  "meta_of m g = (case map_of m g of Some k \<Rightarrow> k | None \<Rightarrow> 0)"

lemma meta_of_add [simp]: "meta_of (meta_add g n m) = (meta_of m)(g := meta_of m g + n)"
  by (auto simp: meta_of_def meta_add_def fun_eq_iff)

lemma meta_add_add [simp]: "meta_add g a (meta_add g b m) = meta_add g (b + a) m"
  by (simp add: meta_add_def add.assoc)

lemma meta_add_key [simp]: "map_of (meta_add g n m) g' = None \<longleftrightarrow> g' \<noteq> g \<and> map_of m g' = None"
  by (auto simp: meta_add_def)

text \<open>States that are the same but for counters that are zero and for the hashes of tags that are only kept for mobile clients.\<close>

definition same_state :: "('c, 'g) CSparkState \<Rightarrow> ('c, 'g) CSparkState \<Rightarrow> bool" where
  "same_state st st' \<longleftrightarrow> maxCoinInGroup st = maxCoinInGroup st' \<and> startGroupSize st = startGroupSize st' \<and> latestCoinId st = latestCoinId st' \<and>
     coinGroups st = coinGroups st' \<and> mintedCoins st = mintedCoins st' \<and> usedLTags st = usedLTags st' \<and>
     meta_of (mintMetaInfo st) = meta_of (mintMetaInfo st') \<and> meta_of (spendMetaInfo st) = meta_of (spendMetaInfo st')"

lemma same_state_refl [simp]: "same_state st st"
  by (simp add: same_state_def)

lemma same_state_trans: "same_state a b \<Longrightarrow> same_state b c \<Longrightarrow> same_state a c"
  by (simp add: same_state_def)

lemma map_insert_new [simp]: "map_of m k = None \<Longrightarrow> map_insert k v m = m @ [(k, v)]"
  by (simp add: map_insert_def)

lemma map_erase_absent: "map_of m k = None \<Longrightarrow> map_erase k m = m"
  by (auto simp: map_erase_def map_of_eq_None_iff filter_id_conv)

lemma map_erase_append [simp]: "map_erase k (m @ n) = map_erase k m @ map_erase k n"
  by (simp add: map_erase_def)

lemma update_new: "map_of m k = None \<Longrightarrow> AList.update k v m = m @ [(k, v)]"
  by (induction m) (auto split: if_splits)

definition add_coins :: "CMintedCoinInfo \<Rightarrow> 'c list \<Rightarrow> ('c, 'g) CSparkState \<Rightarrow> ('c, 'g) CSparkState" where
  "add_coins i mints st =
     (if mints = [] then st
      else st\<lparr>mintedCoins := mintedCoins st @ map (\<lambda>c. (c, i)) mints, mintMetaInfo := meta_add (coinGroupId i) (of_nat (length mints)) (mintMetaInfo st)\<rparr>)"

lemma fold_AddMint:
  "distinct mints \<Longrightarrow> \<forall>c \<in> set mints. \<not> HasCoin c st \<Longrightarrow> fold (\<lambda>c. AddMint c i) mints st = add_coins i mints st"
proof (induction mints arbitrary: st)
  case (Cons c mints)
  have step: "AddMint c i st = st\<lparr>mintedCoins := mintedCoins st @ [(c, i)], mintMetaInfo := meta_add (coinGroupId i) 1 (mintMetaInfo st)\<rparr>"
    using Cons.prems by (simp add: AddMint_def HasCoin_def)
  have "fold (\<lambda>c. AddMint c i) mints (AddMint c i st) = add_coins i mints (AddMint c i st)"
    using Cons.prems by (intro Cons.IH) (auto simp: HasCoin_def step map_add_def)
  then show ?case
    by (simp add: step add_coins_def)
qed (simp add: add_coins_def)

lemma remove_mints_back:
  assumes "distinct mints" "\<forall>c \<in> set mints. map_of m c = None" "mintedCoins st = m @ map (\<lambda>c. (c, i)) mints" "mints \<noteq> []"
  shows "remove_mints_loop (coinGroupId i) mints st =
    Inr (st\<lparr>mintedCoins := m, mintMetaInfo := meta_add (coinGroupId i) (- of_nat (length mints)) (mintMetaInfo st)\<rparr>)"
  using assms
proof (induction mints arbitrary: st)
  case (Cons c mints)
  have c: "map_of (mintedCoins st) c = Some i"
    using Cons.prems by (simp add: map_add_def)
  have erased: "map_erase c (mintedCoins st) = m @ map (\<lambda>c. (c, i)) mints"
    using Cons.prems by (simp add: map_erase_absent) (auto simp: map_erase_def filter_id_conv)
  let ?st = "RemoveMint c st"
  have st: "?st = st\<lparr>mintMetaInfo := meta_add (coinGroupId i) (- 1) (mintMetaInfo st), mintedCoins := m @ map (\<lambda>c. (c, i)) mints\<rparr>"
    using c erased by (simp add: RemoveMint_def)
  show ?case
  proof (cases "mints = []")
    case True
    then show ?thesis using c st by simp
  next
    case False
    then have "remove_mints_loop (coinGroupId i) mints ?st =
      Inr (?st\<lparr>mintedCoins := m, mintMetaInfo := meta_add (coinGroupId i) (- of_nat (length mints)) (mintMetaInfo ?st)\<rparr>)"
      using Cons.prems st by (intro Cons.IH) auto
    then show ?thesis using c st by simp
  qed
qed simp

text \<open>Linking tags: each is counted for its group.\<close>

definition add_tags :: "('g \<times> int) list \<Rightarrow> ('c, 'g) CSparkState \<Rightarrow> ('c, 'g) CSparkState" where
  "add_tags tags st = st\<lparr>usedLTags := usedLTags st @ tags, spendMetaInfo := fold (\<lambda>(_, gid). meta_add gid 1) tags (spendMetaInfo st)\<rparr>"

lemma fold_AddSpend:
  "distinct (map fst tags) \<Longrightarrow> \<forall>(t, g) \<in> set tags. \<not> IsUsedLTag t st \<and> map_of (mintMetaInfo st) g \<noteq> None \<Longrightarrow>
   fold (\<lambda>(t, g). AddSpend t g) tags st = add_tags tags st"
proof (induction tags arbitrary: st)
  case (Cons e tags)
  obtain t g where e: "e = (t, g)" by fastforce
  have new: "map_of (usedLTags st) t = None" "map_of (mintMetaInfo st) g \<noteq> None"
    using Cons.prems e by (auto simp: IsUsedLTag_def)
  then have step: "AddSpend t g st = st\<lparr>usedLTags := usedLTags st @ [(t, g)], spendMetaInfo := meta_add g 1 (spendMetaInfo st)\<rparr>"
    by (simp add: AddSpend_def update_new)
  have "fold (\<lambda>(t, g). AddSpend t g) tags (AddSpend t g st) = add_tags tags (AddSpend t g st)"
    using Cons.prems e by (intro Cons.IH) (auto simp: step IsUsedLTag_def map_add_def split: option.splits dest!: bspec,
      metis fst_conv image_eqI)
  then show ?case
    using e by (simp add: step add_tags_def)
qed (simp add: add_tags_def)

lemma fold_RemoveSpend_back:
  assumes "distinct (map fst tags)" "\<forall>t \<in> fst ` set tags. map_of u t = None" "usedLTags st = u @ tags"
  shows "fold (\<lambda>e. RemoveSpend (fst e)) tags st =
    st\<lparr>usedLTags := u, spendMetaInfo := fold (\<lambda>(_, gid). meta_add gid (- 1)) tags (spendMetaInfo st)\<rparr>"
  using assms
proof (induction tags arbitrary: st)
  case (Cons e tags)
  obtain t g where e: "e = (t, g)" by fastforce
  have t: "map_of (usedLTags st) t = Some g"
    using Cons.prems e by (simp add: map_add_def)
  have "map_erase t (usedLTags st) = u @ tags"
    using Cons.prems e by (simp add: map_erase_absent) (force simp: map_erase_def filter_id_conv)
  with t have step: "RemoveSpend t st = st\<lparr>spendMetaInfo := meta_add g (- 1) (spendMetaInfo st), usedLTags := u @ tags\<rparr>"
    by (simp add: RemoveSpend_def)
  have "fold (\<lambda>e. RemoveSpend (fst e)) tags (RemoveSpend t st) =
    (RemoveSpend t st)\<lparr>usedLTags := u, spendMetaInfo := fold (\<lambda>(_, gid). meta_add gid (- 1)) tags (spendMetaInfo (RemoveSpend t st))\<rparr>"
    using Cons.prems e step by (intro Cons.IH) auto
  then show ?case
    using e by (simp add: step)
qed simp

lemma meta_of_fold: "meta_of (fold (\<lambda>(_, gid). meta_add gid n) tags m) g = meta_of m g + n * of_nat (length (filter (\<lambda>e. snd e = g) tags))"
  by (induction tags arbitrary: m) (auto simp: algebra_simps)

lemma meta_of_fold_back [simp]:
  "meta_of (fold (\<lambda>(_, gid). meta_add gid (- 1)) tags (fold (\<lambda>(_, gid). meta_add gid 1) tags m)) = meta_of m"
  by (simp add: meta_of_fold fun_eq_iff)

section \<open>The groups\<close>

abbreviation has_group :: "('c, 'g) spark_store \<Rightarrow> addr \<Rightarrow> int \<Rightarrow> bool" where
  "has_group S b g \<equiv> map_of (sparkMintedCoins (S b)) g \<noteq> None"

text \<open>
  What a group knows of the chain: its last block is the latest block with coins of the group, its first block is not above it. No block has coins of a
  lower group than a block below it, and a group of a block has coins.
\<close>

definition group_ok :: "('c, 'g) spark_store \<Rightarrow> addr list \<Rightarrow> int \<Rightarrow> SparkCoinGroupInfo \<Rightarrow> bool" where
  "group_ok S xs g gr \<longleftrightarrow> 0 < nCoins gr \<and>
     (\<exists>ys l zs f. xs = ys @ l # zs \<and> lastBlock gr = Some l \<and> firstBlock gr = Some f \<and> f \<in> set (l # zs) \<and> has_group S l g \<and> (\<forall>c \<in> set ys. \<not> has_group S c g))"

primrec groups_ascend :: "('c, 'g) spark_store \<Rightarrow> addr list \<Rightarrow> bool" where
  "groups_ascend S [] \<longleftrightarrow> True"
| "groups_ascend S (b # xs) \<longleftrightarrow> (\<forall>c \<in> set xs. \<forall>g g'. has_group S b g \<longrightarrow> has_group S c g' \<longrightarrow> g' \<le> g) \<and> groups_ascend S xs"

definition groups_ok :: "('c, 'g) spark_store \<Rightarrow> addr list \<Rightarrow> ('c, 'g) CSparkState \<Rightarrow> bool" where
  "groups_ok S xs st \<longleftrightarrow> links S xs \<and> distinct xs \<and> groups_ascend S xs \<and> map_wf (coinGroups st) \<and> 0 \<le> latestCoinId st \<and>
     (\<forall>g. map_of (coinGroups st) g \<noteq> None \<longleftrightarrow> 1 \<le> g \<and> g \<le> latestCoinId st) \<and>
     (\<forall>g gr. map_of (coinGroups st) g = Some gr \<longrightarrow> group_ok S xs g gr \<and> map_of (mintMetaInfo st) g \<noteq> None) \<and>
     (\<forall>b \<in> set xs. \<forall>g cs. map_of (sparkMintedCoins (S b)) g = Some cs \<longrightarrow> cs \<noteq> [] \<and> 1 \<le> g \<and> g \<le> latestCoinId st)"

text \<open>A block that fits on top: it has no coins, or coins of the latest group or of a new one; its coins and tags are new.\<close>

definition block_mints :: "('c, 'g) spark_store \<Rightarrow> addr \<Rightarrow> ('c, 'g) CSparkState \<Rightarrow> bool" where
  "block_mints S p st \<longleftrightarrow> sparkMintedCoins (S p) = [] \<or>
     (\<exists>g cs. sparkMintedCoins (S p) = [(g, cs)] \<and> cs \<noteq> [] \<and> 1 \<le> g \<and> (g = latestCoinId st \<or> g = latestCoinId st + 1) \<and>
        distinct cs \<and> list_all (\<lambda>c. \<not> HasCoin c st) cs)"

definition block_tags :: "('c, 'g) spark_store \<Rightarrow> addr \<Rightarrow> ('c, 'g) CSparkState \<Rightarrow> bool" where
  "block_tags S p st \<longleftrightarrow> distinct (map fst (spentLTags (S p))) \<and>
     list_all (\<lambda>(t, g). \<not> IsUsedLTag t st \<and> map_of (coinGroups st) g \<noteq> None) (spentLTags (S p))"

lemma groups_okD:
  assumes "groups_ok S xs st"
  shows "links S xs" "distinct xs" "groups_ascend S xs" "map_wf (coinGroups st)" "0 \<le> latestCoinId st"
    "map_of (coinGroups st) g \<noteq> None \<longleftrightarrow> 1 \<le> g \<and> g \<le> latestCoinId st"
    "map_of (coinGroups st) g = Some gr \<Longrightarrow> group_ok S xs g gr" "map_of (coinGroups st) g = Some gr \<Longrightarrow> map_of (mintMetaInfo st) g \<noteq> None"
    "b \<in> set xs \<Longrightarrow> map_of (sparkMintedCoins (S b)) g = Some cs \<Longrightarrow> cs \<noteq> [] \<and> 1 \<le> g \<and> g \<le> latestCoinId st"
  using assms unfolding groups_ok_def by blast+

lemma has_group_count: "groups_ok S xs st \<Longrightarrow> b \<in> set xs \<Longrightarrow> CountCoinInBlock (S b) g \<noteq> 0 \<longleftrightarrow> has_group S b g"
  by (auto simp: groups_ok_def CountCoinInBlock_def split: option.splits)

lemma count_none: "map_of (sparkMintedCoins (S b)) g = None \<Longrightarrow> CountCoinInBlock (S b) g = 0"
  by (simp add: CountCoinInBlock_def)

lemma group_at_Some [simp]: "map_of (coinGroups st) g = Some gr \<Longrightarrow> group_at g st = gr"
  by (simp add: group_at_def)

lemma group_at_None [simp]: "map_of (coinGroups st) g = None \<Longrightarrow> group_at g st = \<lparr>firstBlock = None, lastBlock = None, nCoins = 0\<rparr>"
  by (simp add: group_at_def)

text \<open>The blocks from the last one with coins of a group on.\<close>

definition group_blocks :: "('c, 'g) spark_store \<Rightarrow> int \<Rightarrow> addr list \<Rightarrow> addr list" where
  "group_blocks S g xs = dropWhile (\<lambda>b. \<not> has_group S b g) xs"

lemma group_ok_blocks:
  assumes "group_ok S xs g gr"
  obtains ys l zs f where "xs = ys @ l # zs" "group_blocks S g xs = l # zs" "lastBlock gr = Some l" "firstBlock gr = Some f" "f \<in> set (l # zs)"
    "has_group S l g" "\<forall>c \<in> set ys. \<not> has_group S c g"
proof -
  obtain ys l zs f where "xs = ys @ l # zs" "lastBlock gr = Some l" "firstBlock gr = Some f" "f \<in> set (l # zs)"
    "has_group S l g" "\<forall>c \<in> set ys. \<not> has_group S c g"
    using assms unfolding group_ok_def by blast
  moreover from this have "group_blocks S g xs = l # zs"
    by (auto simp: group_blocks_def dropWhile_append3)
  ultimately show thesis
    using that by blast
qed

lemma groups_ok_group:
  assumes "groups_ok S xs st" "1 \<le> g" "g \<le> latestCoinId st"
  obtains gr where "map_of (coinGroups st) g = Some gr" "group_ok S xs g gr"
  using assms unfolding groups_ok_def by (metis not_None_eq)

text \<open>Counting from the last block of a group.\<close>

lemma CountLastNCoins_group:
  assumes "groups_ok S xs st" "1 \<le> g" "g \<le> latestCoinId st"
  shows "CountLastNCoins S g required st = Inr (count_back S g required (group_blocks S g xs) 0 None)"
proof -
  obtain gr where gr: "map_of (coinGroups st) g = Some gr" "group_ok S xs g gr"
    using groups_ok_group[OF assms] .
  obtain ys l zs where xs: "xs = ys @ l # zs" "group_blocks S g xs = l # zs" "lastBlock gr = Some l"
    using group_ok_blocks[OF gr(2)] by metis
  have "links S (l # zs)"
    using assms(1) xs(1) links_suffix[of S ys "l # zs"] by (simp add: groups_ok_def)
  then show ?thesis
    using gr(1) xs(2,3) coins_loop_links[of S "l # zs" g required 0 None] by (simp add: CountLastNCoins_def)
qed

text \<open>The group of a block after it is added.\<close>

definition group_after :: "('c, 'g) spark_store \<Rightarrow> addr list \<Rightarrow> ('c, 'g) CSparkState \<Rightarrow> addr \<Rightarrow> int \<Rightarrow> nat \<Rightarrow> SparkCoinGroupInfo" where
  "group_after S xs st p g n =
     (case map_of (coinGroups st) g of
        Some gr \<Rightarrow> gr\<lparr>lastBlock := Some p, nCoins := nCoins gr + int n\<rparr>
      | None \<Rightarrow>
          if g > 1 then
            (case count_back S (g - 1) (startGroupSize st) (group_blocks S (g - 1) xs) 0 None of (m, f) \<Rightarrow>
               \<lparr>firstBlock = (case f of Some f \<Rightarrow> Some f | None \<Rightarrow> Some p), lastBlock = Some p, nCoins = int m + int n\<rparr>)
          else \<lparr>firstBlock = Some p, lastBlock = Some p, nCoins = int n\<rparr>)"

definition state_after :: "('c, 'g) spark_store \<Rightarrow> addr list \<Rightarrow> addr \<Rightarrow> int \<Rightarrow> 'c list \<Rightarrow> ('c, 'g) CSparkState \<Rightarrow> ('c, 'g) CSparkState" where
  "state_after S xs p g cs st =
     add_coins \<lparr>coinGroupId = g, mintHeight = nHeight (S p)\<rparr> cs
       (st\<lparr>latestCoinId := g, coinGroups := map_put g (group_after S xs st p g (length cs)) (coinGroups st)\<rparr>)"

lemma HasCoin_groups [simp]: "HasCoin c (st\<lparr>latestCoinId := y, coinGroups := x\<rparr>) = HasCoin c st"
  by (simp add: HasCoin_def)

lemma add_group_after:
  assumes "groups_ok S xs st" "cs \<noteq> []" "1 \<le> g" "g = latestCoinId st \<or> g = latestCoinId st + 1" "distinct cs" "list_all (\<lambda>c. \<not> HasCoin c st) cs"
  shows "add_group S p (g, cs) st = Inr (state_after S xs p g cs st)"
proof (cases "map_of (coinGroups st) g")
  case None
  then have g: "g = latestCoinId st + 1"
    using groups_ok_group[OF assms(1,3)] assms(4) by (metis option.distinct(1) order_refl)
  show ?thesis
  proof (cases "g > 1")
    case True
    then have "CountLastNCoins S (g - 1) (startGroupSize st) st = Inr (count_back S (g - 1) (startGroupSize st) (group_blocks S (g - 1) xs) 0 None)"
      using assms(1) g by (intro CountLastNCoins_group) auto
    with None True assms show ?thesis
      by (auto simp: add_group_def state_after_def group_after_def fold_AddMint list_all_iff split: prod.splits)
  qed (use None assms in \<open>auto simp: add_group_def state_after_def group_after_def fold_AddMint list_all_iff\<close>)
next
  case (Some gr)
  then have "firstBlock gr \<noteq> None"
    using groups_okD(7)[OF assms(1) Some] by (auto simp: group_ok_def)
  with Some assms show ?thesis
    by (auto simp: add_group_def state_after_def group_after_def fold_AddMint list_all_iff)
qed

lemma groups_ok_latest: "groups_ok S xs st \<Longrightarrow> has_group S b g \<Longrightarrow> b \<in> set xs \<Longrightarrow> 1 \<le> g \<and> g \<le> latestCoinId st"
  by (auto simp: groups_ok_def)

lemma group_ok_Cons: "group_ok S xs g gr \<Longrightarrow> \<not> has_group S p g \<Longrightarrow> group_ok S (p # xs) g gr"
  unfolding group_ok_def by (metis append_Cons set_ConsD)

lemma add_coins_simps [simp]:
  "coinGroups (add_coins i cs st) = coinGroups st" "latestCoinId (add_coins i cs st) = latestCoinId st" "startGroupSize (add_coins i cs st) = startGroupSize st"
  "maxCoinInGroup (add_coins i cs st) = maxCoinInGroup st" "usedLTags (add_coins i cs st) = usedLTags st" "spendMetaInfo (add_coins i cs st) = spendMetaInfo st"
  "ltagTxhashes (add_coins i cs st) = ltagTxhashes st" "map_of (mintMetaInfo (add_coins i cs st)) g = None \<longleftrightarrow> map_of (mintMetaInfo st) g = None \<and> (cs = [] \<or> g \<noteq> coinGroupId i)"
  by (auto simp: add_coins_def)

lemma groups_ok_empty_block:
  assumes "groups_ok S xs st" "links S (p # xs)" "p \<notin> set xs" "sparkMintedCoins (S p) = []"
  shows "groups_ok S (p # xs) st"
  using assms by (auto simp: groups_ok_def intro: group_ok_Cons)

lemma group_after_ok:
  assumes "groups_ok S xs st" "cs \<noteq> []" "1 \<le> g" "sparkMintedCoins (S p) = [(g, cs)]"
  shows "group_ok S (p # xs) g (group_after S xs st p g (length cs))"
proof (cases "map_of (coinGroups st) g")
  case None
  have "\<exists>f. firstBlock (group_after S xs st p g (length cs)) = Some f \<and> f \<in> set (p # xs)"
  proof (cases "g > 1")
    case True
    then show ?thesis
      using None count_back_first[of S "g - 1" "startGroupSize st" "group_blocks S (g - 1) xs" 0 None] set_dropWhileD
      by (fastforce simp: group_after_def group_blocks_def split: prod.splits)
  qed (use None in \<open>simp add: group_after_def\<close>)
  then obtain f where f: "firstBlock (group_after S xs st p g (length cs)) = Some f" "f \<in> set (p # xs)"
    by blast
  have "0 < nCoins (group_after S xs st p g (length cs))" "lastBlock (group_after S xs st p g (length cs)) = Some p"
    using None assms(2) by (auto simp: group_after_def split: prod.splits intro!: add_nonneg_pos)
  with f show ?thesis
    using assms(4) unfolding group_ok_def by (intro conjI exI[of _ "[]"] exI[of _ p] exI[of _ xs] exI[of _ f]) auto
next
  case (Some gr)
  then obtain f where "0 < nCoins gr" "firstBlock gr = Some f" "f \<in> set xs"
    using groups_okD(7)[OF assms(1) Some] by (auto simp: group_ok_def)
  then show ?thesis
    using Some assms(2,4) unfolding group_ok_def
    by (intro conjI exI[of _ "[]"] exI[of _ p] exI[of _ xs] exI[of _ f]) (auto simp: group_after_def)
qed

lemma state_after_ok:
  assumes "groups_ok S xs st" "links S (p # xs)" "p \<notin> set xs" "cs \<noteq> []" "1 \<le> g" "g = latestCoinId st \<or> g = latestCoinId st + 1"
    "sparkMintedCoins (S p) = [(g, cs)]"
  shows "groups_ok S (p # xs) (state_after S xs p g cs st)"
  unfolding groups_ok_def
proof (intro conjI allI ballI impI)
  have below: "g' \<le> g" if "b \<in> set xs" "has_group S b g'" for b g'
    using groups_ok_latest[OF assms(1) that(2,1)] assms(6) by auto
  show "links S (p # xs)" "distinct (p # xs)"
    using assms(2,3) groups_okD(2)[OF assms(1)] by auto
  show "groups_ascend S (p # xs)"
    using assms(7) groups_okD(3)[OF assms(1)] below by auto
  show "map_wf (coinGroups (state_after S xs p g cs st))" "0 \<le> latestCoinId (state_after S xs p g cs st)"
    using groups_okD(4)[OF assms(1)] assms(5) by (auto simp: state_after_def)
  show "map_of (coinGroups (state_after S xs p g cs st)) g' \<noteq> None \<longleftrightarrow> 1 \<le> g' \<and> g' \<le> latestCoinId (state_after S xs p g cs st)" for g'
    using groups_okD(6)[OF assms(1), of g'] assms(5,6) by (auto simp: state_after_def)
  show "cs' \<noteq> []" "1 \<le> g'" "g' \<le> latestCoinId (state_after S xs p g cs st)"
    if "b \<in> set (p # xs)" "map_of (sparkMintedCoins (S b)) g' = Some cs'" for b g' cs'
    using that assms(4-7) groups_okD(9)[OF assms(1), of b g' cs'] by (auto simp: state_after_def split: if_splits)
  fix g' gr
  assume gr: "map_of (coinGroups (state_after S xs p g cs st)) g' = Some gr"
  show "group_ok S (p # xs) g' gr"
  proof (cases "g' = g")
    case True
    then show ?thesis
      using gr group_after_ok[OF assms(1,4,5,7)] by (simp add: state_after_def)
  next
    case False
    then show ?thesis
      using gr assms(7) groups_okD(7)[OF assms(1), of g' gr] by (auto simp: state_after_def intro!: group_ok_Cons)
  qed
  show "map_of (mintMetaInfo (state_after S xs p g cs st)) g' \<noteq> None"
    using gr assms(4) groups_okD(8)[OF assms(1), of g' gr] by (auto simp: state_after_def split: if_splits)
qed

section \<open>Removing a block\<close>

lemma prev_count_skip: "\<forall>c \<in> set ys. CountCoinInBlock (S c) g = 0 \<and> CountCoinInBlock (S c) (g - 1) = 0 \<Longrightarrow> prev_count S g (ys @ zs) = prev_count S g zs"
  by (induction ys) auto

lemma ascend_above: "groups_ascend S (ys @ l # zs) \<Longrightarrow> has_group S l g \<Longrightarrow> c \<in> set ys \<Longrightarrow> has_group S c g' \<Longrightarrow> g \<le> g'"
  by (induction ys) auto

lemma prev_count_latest:
  assumes "groups_ok S xs st" "1 \<le> g" "g \<le> latestCoinId st"
  shows "prev_count S g xs = 0"
proof -
  obtain gr where gr: "map_of (coinGroups st) g = Some gr" "group_ok S xs g gr"
    using groups_ok_group[OF assms] .
  obtain ys l zs where xs: "xs = ys @ l # zs" "has_group S l g" "\<forall>c \<in> set ys. \<not> has_group S c g"
    using group_ok_blocks[OF gr(2)] by metis
  have "\<not> has_group S c (g - 1)" if "c \<in> set ys" for c
    using ascend_above[of S ys l zs g c "g - 1"] groups_okD(3)[OF assms(1)] xs that by fastforce
  then have "prev_count S g xs = prev_count S g (l # zs)"
    unfolding xs(1) using xs(3) by (intro prev_count_skip) (auto simp: count_none)
  then show ?thesis
    using has_group_count[OF assms(1), of l g] xs by auto
qed

lemma remove_group_existing:
  assumes "groups_ok S xs st" "links S (p # xs)" "p \<notin> set xs" "cs \<noteq> []" "1 \<le> g" "g \<le> latestCoinId st"
  shows "remove_group S p (g, cs) (state_after S xs p g cs st) = Inr ((state_after S xs p g cs st)\<lparr>coinGroups := coinGroups st\<rparr>)"
proof -
  obtain gr where gr: "map_of (coinGroups st) g = Some gr" "group_ok S xs g gr"
    using groups_ok_group[OF assms(1,5,6)] .
  obtain ys l zs f where xs: "xs = ys @ l # zs" "lastBlock gr = Some l" "firstBlock gr = Some f" "f \<in> set (l # zs)" "has_group S l g"
    "\<forall>c \<in> set ys. \<not> has_group S c g"
    using group_ok_blocks[OF gr(2)] by metis
  have "roll_back_last S g (Some f) p = Some (Inr l)"
    using assms(2,3) xs groups_okD(2)[OF assms(1)] by (intro roll_back_found[of S p ys l zs]) auto
  moreover have "is_edged_block S p g n (state_after S xs p g cs st) = Inr False" for n
    using prev_group_count_links[OF assms(2)] prev_count_latest[OF assms(1,5,6)] by (simp add: is_edged_block_def)
  moreover have "gr\<lparr>lastBlock := Some l\<rparr> = gr"
    using xs(2) by (cases gr) simp
  ultimately show ?thesis
    using gr assms(4) xs(3) groups_okD(4)[OF assms(1)]
    by (simp add: remove_group_def state_after_def group_after_def ended_def map_put_same group_ok_def)
qed

text \<open>
  The block that opened a group is known by the number of coins: those that the group took over from the one before, without the latest block of them, have to be
  fewer than a group starts with.
\<close>

definition opens_group :: "('c, 'g) spark_store \<Rightarrow> addr list \<Rightarrow> ('c, 'g) CSparkState \<Rightarrow> int \<Rightarrow> bool" where
  "opens_group S xs st g \<longleftrightarrow>
     (let bs = group_blocks S (g - 1) xs
      in (int (fst (count_back S (g - 1) (startGroupSize st) bs 0 None)) - int (CountCoinInBlock (S (hd bs)) (g - 1))) mod 2 ^ 64 < int (startGroupSize st))"

lemma remove_first_group:
  assumes "groups_ok S xs st" "cs \<noteq> []" "latestCoinId st = 0"
  shows "remove_group S p (1, cs) (state_after S xs p 1 cs st) = Inr ((state_after S xs p 1 cs st)\<lparr>coinGroups := coinGroups st, latestCoinId := latestCoinId st\<rparr>)"
proof -
  have "map_of (coinGroups st) 1 = None"
    using groups_okD(6)[OF assms(1), of 1] assms(3) by auto
  then show ?thesis
    using assms groups_okD(4)[OF assms(1)]
    by (simp add: remove_group_def state_after_def group_after_def is_edged_block_def map_erase_put)
qed

lemma remove_new_group:
  assumes "groups_ok S xs st" "links S (p # xs)" "p \<notin> set xs" "cs \<noteq> []" "1 \<le> latestCoinId st" "g = latestCoinId st + 1"
  shows "remove_group S p (g, cs) (state_after S xs p g cs st) =
    (if opens_group S xs st g then Inr ((state_after S xs p g cs st)\<lparr>coinGroups := coinGroups st, latestCoinId := latestCoinId st\<rparr>) else Inl AssertSpark)"
proof -
  let ?st = "state_after S xs p g cs st"
  obtain m f where m: "count_back S (g - 1) (startGroupSize st) (group_blocks S (g - 1) xs) 0 None = (m, f)"
    by fastforce
  obtain gr where gr: "map_of (coinGroups st) (g - 1) = Some gr" "group_ok S xs (g - 1) gr"
    using groups_ok_group[OF assms(1), of "g - 1"] assms(5,6) by auto
  obtain ys l zs where xs: "xs = ys @ l # zs" "group_blocks S (g - 1) xs = l # zs" "has_group S l (g - 1)" "\<forall>c \<in> set ys. \<not> has_group S c (g - 1)"
    using group_ok_blocks[OF gr(2)] by metis
  have none: "\<forall>c \<in> set xs. map_of (sparkMintedCoins (S c)) g = None"
    using groups_ok_latest[OF assms(1), of _ g] assms(6) by force
  then have "prev_count S g xs = prev_count S g (l # zs)"
    unfolding xs(1) using xs(4) by (intro prev_count_skip) (auto simp: count_none)
  moreover have "prev_count S g (l # zs) = CountCoinInBlock (S l) (g - 1)" "CountCoinInBlock (S l) (g - 1) > 0"
    using has_group_count[OF assms(1), of l "g - 1"] xs none by (auto simp: count_none)
  ultimately have edged: "is_edged_block S p g (int m) ?st = Inr (opens_group S xs st g)"
    using prev_group_count_links[OF assms(2), of g] m xs(2) assms(5,6)
    by (simp add: is_edged_block_def opens_group_def state_after_def)
  have group: "map_of (coinGroups ?st) g = Some \<lparr>firstBlock = (case f of Some f \<Rightarrow> Some f | None \<Rightarrow> Some p), lastBlock = Some p, nCoins = int m + int (length cs)\<rparr>"
    using groups_okD(6)[OF assms(1), of g] m assms(5,6) by (auto simp: state_after_def group_after_def)
  have asserts: "roll_back_last S g (case f of Some f \<Rightarrow> Some f | None \<Rightarrow> Some p) p = Some (Inl AssertSpark)"
  proof (cases f)
    case None
    then show ?thesis by (subst roll_back_last.simps) simp
  next
    case (Some b)
    then have "b \<in> set xs"
      using count_back_first[of S "g - 1" "startGroupSize st" "group_blocks S (g - 1) xs" 0 None] m xs by auto
    then obtain us vs where "xs = us @ b # vs"
      by (meson split_list)
    with Some assms(2) none show ?thesis
      by (auto intro!: roll_back_asserts[of S p us b vs])
  qed
  have "map_erase g (coinGroups ?st) = coinGroups st"
    using groups_okD(4)[OF assms(1)] groups_okD(6)[OF assms(1), of g] assms(6) by (auto simp: state_after_def intro!: map_erase_put)
  then show ?thesis
    using group edged asserts assms(4-6) by (simp add: remove_group_def ended_def) (simp add: state_after_def)
qed

text \<open>Groups do not depend on the tags.\<close>

definition with_tags :: "('g \<times> int) list \<Rightarrow> (int \<times> u64) list \<Rightarrow> (uint256 \<times> uint256) list \<Rightarrow> ('c, 'g) CSparkState \<Rightarrow> ('c, 'g) CSparkState" where
  "with_tags u m t st = st\<lparr>usedLTags := u, spendMetaInfo := m, ltagTxhashes := t\<rparr>"

lemma with_tags_simps [simp]:
  "coinGroups (with_tags u m t st) = coinGroups st" "latestCoinId (with_tags u m t st) = latestCoinId st"
  "startGroupSize (with_tags u m t st) = startGroupSize st" "maxCoinInGroup (with_tags u m t st) = maxCoinInGroup st"
  "mintedCoins (with_tags u m t st) = mintedCoins st" "mintMetaInfo (with_tags u m t st) = mintMetaInfo st"
  "usedLTags (with_tags u m t st) = u" "spendMetaInfo (with_tags u m t st) = m" "ltagTxhashes (with_tags u m t st) = t"
  by (simp_all add: with_tags_def)

lemma remove_group_with_tags: "remove_group S p c (with_tags u m t st) = map_sum id (with_tags u m t) (remove_group S p c st)"
proof -
  obtain g cs where [simp]: "c = (g, cs)" by fastforce
  show ?thesis
  proof (cases "map_of (coinGroups st) g")
    case (Some gr)
    have "is_edged_block S p g n (with_tags u m t st) = is_edged_block S p g n st" for n
      by (simp add: is_edged_block_def split: option.split)
    with Some show ?thesis
      by (cases "is_edged_block S p g (nCoins gr - int (length cs)) st"; cases "ended (roll_back_last S g (firstBlock gr) p)")
        (auto simp: remove_group_def with_tags_def Let_def)
  qed (simp add: remove_group_def)
qed

definition mints_added :: "('c, 'g) spark_store \<Rightarrow> addr list \<Rightarrow> addr \<Rightarrow> ('c, 'g) CSparkState \<Rightarrow> ('c, 'g) CSparkState" where
  "mints_added S xs p st = (case sparkMintedCoins (S p) of [] \<Rightarrow> st | (g, cs) # _ \<Rightarrow> state_after S xs p g cs st)"

lemma block_mints_cases:
  assumes "block_mints S p st"
  obtains "sparkMintedCoins (S p) = []"
  | g cs where "sparkMintedCoins (S p) = [(g, cs)]" "cs \<noteq> []" "1 \<le> g" "g = latestCoinId st \<or> g = latestCoinId st + 1" "distinct cs" "list_all (\<lambda>c. \<not> HasCoin c st) cs"
  using assms unfolding block_mints_def by blast

lemma mints_added_ok:
  assumes "groups_ok S xs st" "links S (p # xs)" "p \<notin> set xs" "block_mints S p st"
  shows "groups_ok S (p # xs) (mints_added S xs p st)"
  using assms(4)
proof (cases rule: block_mints_cases)
  case 1
  then show ?thesis using groups_ok_empty_block[OF assms(1-3)] by (simp add: mints_added_def)
next
  case (2 g cs)
  then show ?thesis using state_after_ok[OF assms(1-3)] by (simp add: mints_added_def)
qed

lemma add_groups_added:
  assumes "groups_ok S xs st" "block_mints S p st"
  shows "add_groups_loop S p (sparkMintedCoins (S p)) st = Inr (mints_added S xs p st)"
  using assms(2)
proof (cases rule: block_mints_cases)
  case (2 g cs)
  then show ?thesis using add_group_after[OF assms(1)] by (simp add: mints_added_def)
qed (simp add: mints_added_def)

lemma mints_added_simps [simp]:
  "usedLTags (mints_added S xs p st) = usedLTags st" "spendMetaInfo (mints_added S xs p st) = spendMetaInfo st"
  "startGroupSize (mints_added S xs p st) = startGroupSize st" "maxCoinInGroup (mints_added S xs p st) = maxCoinInGroup st"
  by (auto simp: mints_added_def state_after_def split: list.splits)

lemma mints_added_keys: "map_of (mintMetaInfo st) g \<noteq> None \<Longrightarrow> map_of (mintMetaInfo (mints_added S xs p st)) g \<noteq> None"
  by (cases "sparkMintedCoins (S p)") (auto simp: mints_added_def state_after_def simp del: not_None_eq split: prod.splits)

lemma fold_AddLTagTxHash: "fold (\<lambda>(h, x). AddLTagTxHash h x) l st = st\<lparr>ltagTxhashes := fold (\<lambda>(h, x). AList.update h x) l (ltagTxhashes st)\<rparr>"
  by (induction l arbitrary: st) (auto simp: AddLTagTxHash_def)

definition add_tag_hashes :: "bool \<Rightarrow> (uint256 \<times> uint256) list \<Rightarrow> ('c, 'g) CSparkState \<Rightarrow> ('c, 'g) CSparkState" where
  "add_tag_hashes mobile l st = (if mobile then st\<lparr>ltagTxhashes := fold (\<lambda>(h, x). AList.update h x) l (ltagTxhashes st)\<rparr> else st)"

text \<open>Adding a block of the index: its coins, then its tags.\<close>

lemma State_AddBlock_added:
  assumes "groups_ok S xs st" "block_mints S p st" "block_tags S p st"
  shows "State_AddBlock E S p st = Inr (add_tag_hashes (argMobile E) (ltagTxhash (S p)) (add_tags (spentLTags (S p)) (mints_added S xs p st)))"
proof -
  let ?st = "mints_added S xs p st"
  have "\<forall>(t, g) \<in> set (spentLTags (S p)). \<not> IsUsedLTag t ?st \<and> map_of (mintMetaInfo ?st) g \<noteq> None"
    using assms(3) groups_okD(8)[OF assms(1)] mints_added_keys by (fastforce simp: block_tags_def list_all_iff IsUsedLTag_def)
  then have "fold (\<lambda>(t, g). AddSpend t g) (spentLTags (S p)) ?st = add_tags (spentLTags (S p)) ?st"
    using assms(3) by (intro fold_AddSpend) (auto simp: block_tags_def)
  then show ?thesis
    by (simp add: State_AddBlock_def add_groups_added[OF assms(1,2)] Let_def fold_AddLTagTxHash add_tag_hashes_def)
qed

lemma added_with_tags:
  "add_tag_hashes b l (add_tags tags st) =
     with_tags (usedLTags st @ tags) (fold (\<lambda>(_, gid). meta_add gid 1) tags (spendMetaInfo st))
       (if b then fold (\<lambda>(h, x). AList.update h x) l (ltagTxhashes st) else ltagTxhashes st) st"
  by (simp add: add_tag_hashes_def add_tags_def with_tags_def)

text \<open>The block whose removal ends in an assertion: it opened a group, and is not recognized as the one that did.\<close>

definition removal_aborts :: "('c, 'g) spark_store \<Rightarrow> addr list \<Rightarrow> addr \<Rightarrow> ('c, 'g) CSparkState \<Rightarrow> bool" where
  "removal_aborts S xs p st \<longleftrightarrow>
     (case sparkMintedCoins (S p) of [] \<Rightarrow> False | (g, cs) # _ \<Rightarrow> 1 \<le> latestCoinId st \<and> g = latestCoinId st + 1 \<and> \<not> opens_group S xs st g)"

lemma remove_groups_added:
  assumes "groups_ok S xs st" "links S (p # xs)" "p \<notin> set xs" "block_mints S p st"
  shows "remove_groups_loop S p (sparkMintedCoins (S p)) (mints_added S xs p st) =
    (if removal_aborts S xs p st then Inl AssertSpark
     else Inr ((mints_added S xs p st)\<lparr>coinGroups := coinGroups st, latestCoinId := latestCoinId st\<rparr>))"
  using assms(4)
proof (cases rule: block_mints_cases)
  case 1
  then show ?thesis by (simp add: mints_added_def removal_aborts_def)
next
  case (2 g cs)
  have latest: "0 \<le> latestCoinId st"
    using groups_okD(5)[OF assms(1)] .
  have "latestCoinId (state_after S xs p g cs st) = g"
    by (simp add: state_after_def)
  then have same: "g = latestCoinId st \<Longrightarrow> (state_after S xs p g cs st)\<lparr>coinGroups := x\<rparr> = (state_after S xs p g cs st)\<lparr>coinGroups := x, latestCoinId := latestCoinId st\<rparr>" for x
    by simp
  consider "g = latestCoinId st" | "g = 1" "latestCoinId st = 0" | "1 \<le> latestCoinId st" "g = latestCoinId st + 1"
    using 2 latest by linarith
  then show ?thesis
  proof cases
    case 1
    then show ?thesis
      using 2 remove_group_existing[OF assms(1-3) 2(2,3)] same by (simp add: mints_added_def removal_aborts_def)
  next
    case i: 2
    then show ?thesis
      using 2 remove_first_group[OF assms(1) 2(2)] by (simp add: mints_added_def removal_aborts_def)
  next
    case 3
    then show ?thesis
      using 2 remove_new_group[OF assms(1-3) 2(2)] by (simp add: mints_added_def removal_aborts_def)
  qed
qed

lemma remove_mints_added:
  assumes "block_mints S p st"
  shows "remove_all_mints (sparkMintedCoins (S p)) (with_tags u m t ((mints_added S xs p st)\<lparr>coinGroups := coinGroups st, latestCoinId := latestCoinId st\<rparr>)) =
    Inr (with_tags u m t (st\<lparr>mintMetaInfo := (case sparkMintedCoins (S p) of [] \<Rightarrow> mintMetaInfo st | (g, cs) # _ \<Rightarrow> meta_add g 0 (mintMetaInfo st))\<rparr>))"
  using assms
proof (cases rule: block_mints_cases)
  case 1
  then show ?thesis by (simp add: mints_added_def)
next
  case (2 g cs)
  let ?st = "with_tags u m t ((mints_added S xs p st)\<lparr>coinGroups := coinGroups st, latestCoinId := latestCoinId st\<rparr>)"
  let ?i = "\<lparr>coinGroupId = g, mintHeight = nHeight (S p)\<rparr>"
  have "mintedCoins ?st = mintedCoins st @ map (\<lambda>c. (c, ?i)) cs" "mintMetaInfo ?st = meta_add g (of_nat (length cs)) (mintMetaInfo st)"
    using 2 by (simp_all add: mints_added_def state_after_def add_coins_def)
  moreover from this have "remove_mints_loop g cs ?st =
    Inr (?st\<lparr>mintedCoins := mintedCoins st, mintMetaInfo := meta_add g (- of_nat (length cs)) (mintMetaInfo ?st)\<rparr>)"
    using 2 remove_mints_back[of cs "mintedCoins st" ?st ?i] by (auto simp: list_all_iff HasCoin_def)
  ultimately show ?thesis
    using 2 by (simp add: mints_added_def state_after_def add_coins_def with_tags_def)
qed

text \<open>Removing a block that was just added.\<close>

lemma State_RemoveBlock_added:
  assumes "groups_ok S xs st" "links S (p # xs)" "p \<notin> set xs" "block_mints S p st" "block_tags S p st" "State_AddBlock E S p st = Inr st'"
  shows "if removal_aborts S xs p st then State_RemoveBlock S p st' = Inl AssertSpark
    else \<exists>st''. State_RemoveBlock S p st' = Inr st'' \<and> same_state st'' st"
proof -
  define tags where "tags = spentLTags (S p)"
  define m where m: "m = fold (\<lambda>(_, gid). meta_add gid 1) tags (spendMetaInfo st)"
  obtain t where st': "st' = with_tags (usedLTags st @ tags) m t (mints_added S xs p st)"
    using assms(6) State_AddBlock_added[OF assms(1,4,5), of E] by (simp add: added_with_tags tags_def m) blast
  have groups: "remove_groups_loop S p (sparkMintedCoins (S p)) st' = map_sum id (with_tags (usedLTags st @ tags) m t)
    (remove_groups_loop S p (sparkMintedCoins (S p)) (mints_added S xs p st))"
    using assms(4) by (cases rule: block_mints_cases) (simp_all add: st' remove_group_with_tags bindE_def split: sum.splits)
  have spends: "fold (\<lambda>e. RemoveSpend (fst e)) tags (with_tags (usedLTags st @ tags) m t x) =
    (with_tags (usedLTags st @ tags) m t x)\<lparr>usedLTags := usedLTags st, spendMetaInfo := fold (\<lambda>(_, gid). meta_add gid (- 1)) tags m\<rparr>"
    for x :: "('a, 'b) CSparkState"
    using assms(5) fold_RemoveSpend_back[of tags "usedLTags st" "with_tags (usedLTags st @ tags) m t x"]
    by (force simp: tags_def block_tags_def list_all_iff IsUsedLTag_def)
  define M where "M = (case sparkMintedCoins (S p) of [] \<Rightarrow> mintMetaInfo st | (g, cs) # _ \<Rightarrow> meta_add g 0 (mintMetaInfo st))"
  have M: "meta_of M = meta_of (mintMetaInfo st)"
    by (auto simp: M_def fun_eq_iff split: list.split)
  show ?thesis
  proof (cases "removal_aborts S xs p st")
    case True
    then show ?thesis
      using groups remove_groups_added[OF assms(1-4)] by (simp add: State_RemoveBlock_def)
  next
    case False
    then have "State_RemoveBlock S p st' = Inr (fold (\<lambda>e. RemoveSpend (fst e)) tags (with_tags (usedLTags st @ tags) m t (st\<lparr>mintMetaInfo := M\<rparr>)))"
      using groups remove_groups_added[OF assms(1-4)] remove_mints_added[OF assms(4)] by (simp add: State_RemoveBlock_def M_def tags_def)
    with False show ?thesis
      unfolding spends by (simp add: same_state_def M m)
  qed
qed

section \<open>Adding the coins of a new block\<close>

text \<open>The group that the coins of a new block go to.\<close>

definition next_group :: "('c, 'g) CSparkState \<Rightarrow> nat \<Rightarrow> int" where
  "next_group st n =
     (let gid = max 1 (latestCoinId st) in if nCoins (group_at gid st) + int n \<le> int (maxCoinInGroup st) then gid else gid + 1)"

primrec heights :: "('c, 'g) spark_store \<Rightarrow> addr list \<Rightarrow> bool" where
  "heights S [] \<longleftrightarrow> True"
| "heights S (b # xs) \<longleftrightarrow> nHeight (S b) = int (length xs) \<and> heights S xs"

lemma heights_below: "heights S xs \<Longrightarrow> b \<in> set xs \<Longrightarrow> nHeight (S b) < int (length xs)"
  by (induction xs) auto

lemma AddMints_group:
  assumes "groups_ok S xs st" "heights S (p # xs)" "latestCoinId st = 0 \<Longrightarrow> length mints \<le> maxCoinInGroup st"
  defines "g \<equiv> next_group st (length mints)"
  shows "1 \<le> g" "g = latestCoinId st \<or> g = latestCoinId st + 1"
    "AddMintsToStateAndBlockIndex E txs mints p st S =
       add_mints_loop E txs p g mints (st\<lparr>latestCoinId := g, coinGroups := map_put g (group_after S xs st p g (length mints)) (coinGroups st)\<rparr>) S"
proof -
  have "1 \<le> g \<and> (g = latestCoinId st \<or> g = latestCoinId st + 1) \<and>
    AddMintsToStateAndBlockIndex E txs mints p st S =
       add_mints_loop E txs p g mints (st\<lparr>latestCoinId := g, coinGroups := map_put g (group_after S xs st p g (length mints)) (coinGroups st)\<rparr>) S"
  proof (cases "latestCoinId st = 0")
    case True
    then have "map_of (coinGroups st) 1 = None"
      using groups_okD(6)[OF assms(1), of 1] by auto
    with True assms(3) show ?thesis
      by (simp add: g_def next_group_def AddMintsToStateAndBlockIndex_def extend_group_def group_after_def Let_def)
  next
    case False
    then have latest: "1 \<le> latestCoinId st" "max 1 (latestCoinId st) = latestCoinId st"
      using groups_okD(5)[OF assms(1)] by auto
    obtain gr where gr: "map_of (coinGroups st) (latestCoinId st) = Some gr" "group_ok S xs (latestCoinId st) gr"
      using groups_ok_group[OF assms(1) latest(1)] by auto
    obtain l f where l: "l \<in> set xs" "lastBlock gr = Some l" "firstBlock gr = Some f" "0 < nCoins gr"
      using gr(2) by (auto simp: group_ok_def)
    have "nHeight (S l) \<le> nHeight (S p)"
      using assms(2) heights_below[of S xs l] l(1) by auto
    then have "extend_group S p (length mints) gr = Inr (gr\<lparr>lastBlock := Some p, nCoins := nCoins gr + int (length mints)\<rparr>)"
      using l by (simp add: extend_group_def)
    moreover have same: "st\<lparr>latestCoinId := latestCoinId st, coinGroups := map_put (latestCoinId st) gr (coinGroups st)\<rparr> = st"
      using groups_okD(4)[OF assms(1)] gr(1) by (simp add: map_put_same)
    moreover have "CountLastNCoins S (latestCoinId st) (startGroupSize st) st =
      Inr (count_back S (latestCoinId st) (startGroupSize st) (group_blocks S (latestCoinId st) xs) 0 None)"
      using CountLastNCoins_group[OF assms(1) latest(1)] by simp
    moreover have "map_of (coinGroups st) (latestCoinId st + 1) = None"
      using groups_okD(6)[OF assms(1), of "latestCoinId st + 1"] by auto
    ultimately show ?thesis
      using gr latest
      by (auto simp: g_def next_group_def AddMintsToStateAndBlockIndex_def group_after_def Let_def split: prod.splits)
  qed
  then show "1 \<le> g" "g = latestCoinId st \<or> g = latestCoinId st + 1"
    "AddMintsToStateAndBlockIndex E txs mints p st S =
       add_mints_loop E txs p g mints (st\<lparr>latestCoinId := g, coinGroups := map_put g (group_after S xs st p g (length mints)) (coinGroups st)\<rparr>) S"
    by auto
qed

text \<open>The loop over the coins changes only the new block, and there only its coins and their contexts.\<close>

lemma add_mints_loop_result:
  assumes "add_mints_loop E txs p g mints st S = Inr (st', S')"
  shows "st' = fold (\<lambda>c. AddMint c \<lparr>coinGroupId = g, mintHeight = nHeight (S p)\<rparr>) mints st \<and>
    (\<forall>b. b \<noteq> p \<longrightarrow> S' b = S b) \<and>
    (\<exists>ctx. S' p = (S p)\<lparr>sparkMintedCoins := (if mints = [] then sparkMintedCoins (S p) else map_put g (coins_with (S p) g @ mints) (sparkMintedCoins (S p))),
       sparkTxHashContext := ctx\<rparr>)"
  using assms
proof (induction mints arbitrary: st S)
  case Nil
  then show ?case by (auto intro!: exI[of _ "sparkTxHashContext (S p)"])
next
  case (Cons c mints)
  define b where "b = (S p)\<lparr>sparkMintedCoins := map_put g (coins_with (S p) g @ [c]) (sparkMintedCoins (S p))\<rparr>"
  obtain ctx where "add_mints_loop E txs p g mints (AddMint c \<lparr>coinGroupId = g, mintHeight = nHeight (S p)\<rparr> st) (S(p := b\<lparr>sparkTxHashContext := ctx\<rparr>)) = Inr (st', S')"
  proof (cases "argMobile E")
    case True
    then show thesis
      using Cons.prems that unfolding b_def coins_with_def by (auto simp: bindE_eq_Inr_iff)
  next
    case False
    then show thesis
      using Cons.prems that[of "sparkTxHashContext b"] unfolding b_def coins_with_def by simp
  qed
  from Cons.IH[OF this] show ?case
    by (cases "mints = []") (simp_all add: b_def coins_with_def)
qed

end
