(* ===== verification/SparkChainProps.thy ===== *)
theory SparkChainProps
  imports SparkProps
begin

text \<open>
  A node that connects and disconnects blocks: what connecting does to the Spark state is what adding the block from the index does, so that the state
  is at any time the one that is rebuilt from the index.
\<close>

section \<open>Connecting is adding from the index\<close>

text \<open>What of an entry of the index the state depends on.\<close>

definition same_index :: "('c, 'g) spark_index \<Rightarrow> ('c, 'g) spark_index \<Rightarrow> bool" where
  "same_index b b' \<longleftrightarrow> pprev b = pprev b' \<and> nHeight b = nHeight b' \<and> sparkMintedCoins b = sparkMintedCoins b' \<and> spentLTags b = spentLTags b' \<and>
     ltagTxhash b = ltagTxhash b'"

lemma same_index_refl [simp]: "same_index b b"
  by (simp add: same_index_def)

lemma same_indexD:
  assumes "same_index b b'"
  shows "pprev b = pprev b'" "nHeight b = nHeight b'" "sparkMintedCoins b = sparkMintedCoins b'" "CountCoinInBlock b g = CountCoinInBlock b' g"
  using assms by (auto simp: same_index_def CountCoinInBlock_def)

lemma group_ok_other: "(\<And>b. b \<in> set xs \<Longrightarrow> same_index (S' b) (S b)) \<Longrightarrow> group_ok S xs g gr \<Longrightarrow> group_ok S' xs g gr"
proof -
  assume same: "\<And>b. b \<in> set xs \<Longrightarrow> same_index (S' b) (S b)" and gr: "group_ok S xs g gr"
  obtain ys l zs f where g: "xs = ys @ l # zs" "lastBlock gr = Some l" "firstBlock gr = Some f" "f \<in> set (l # zs)"
    "has_group S l g" "\<forall>c \<in> set ys. \<not> has_group S c g" "0 < nCoins gr"
    using gr unfolding group_ok_def by blast
  have "has_group S' b g = has_group S b g" if "b \<in> set xs" for b
    using same_indexD(3)[OF same[OF that]] by simp
  with g show ?thesis
    unfolding group_ok_def by (intro conjI exI[of _ ys] exI[of _ l] exI[of _ zs] exI[of _ f]) auto
qed

lemma groups_ascend_cong: "(\<And>b. b \<in> set xs \<Longrightarrow> same_index (S' b) (S b)) \<Longrightarrow> groups_ascend S' xs = groups_ascend S xs"
proof (induction xs)
  case (Cons p xs)
  have "groups_ascend S' xs = groups_ascend S xs"
    using Cons.prems by (intro Cons.IH) simp
  moreover have "sparkMintedCoins (S' b) = sparkMintedCoins (S b)" if "b \<in> set (p # xs)" for b
    using same_indexD(3)[OF Cons.prems[OF that]] .
  ultimately show ?case
    by simp
qed simp

lemma heights_cong: "(\<And>b. b \<in> set xs \<Longrightarrow> nHeight (S' b) = nHeight (S b)) \<Longrightarrow> heights S' xs = heights S xs"
  by (induction xs) auto

lemma groups_ok_cong:
  assumes "groups_ok S xs st" "\<And>b. b \<in> set xs \<Longrightarrow> same_index (S' b) (S b)" "coinGroups st' = coinGroups st" "latestCoinId st' = latestCoinId st"
    "\<And>g. map_of (coinGroups st) g \<noteq> None \<Longrightarrow> map_of (mintMetaInfo st') g \<noteq> None"
  shows "groups_ok S' xs st'"
proof -
  have "links S' xs = links S xs"
    by (rule links_cong) (simp add: same_indexD(1)[OF assms(2)])
  moreover have "groups_ascend S' xs = groups_ascend S xs"
    by (rule groups_ascend_cong) (simp add: assms(2))
  moreover have "group_ok S' xs g gr" if "group_ok S xs g gr" for g gr
    using assms(2) that by (rule group_ok_other)
  moreover have "\<And>b. b \<in> set xs \<Longrightarrow> sparkMintedCoins (S' b) = sparkMintedCoins (S b)"
    using same_indexD(3)[OF assms(2)] .
  ultimately show ?thesis
    using assms(1,3-5) unfolding groups_ok_def by (metis option.distinct(1))
qed

lemma groups_ok_store: "groups_ok S xs st \<Longrightarrow> (\<And>b. b \<in> set xs \<Longrightarrow> same_index (S' b) (S b)) \<Longrightarrow> groups_ok S' xs st"
  by (rule groups_ok_cong) (use groups_okD(8) in auto)

lemma group_blocks_cong: "(\<And>b. b \<in> set xs \<Longrightarrow> same_index (S' b) (S b)) \<Longrightarrow> group_blocks S' g xs = group_blocks S g xs"
  unfolding group_blocks_def by (rule dropWhile_cong) (simp_all add: same_index_def)

lemma group_after_cong:
  assumes "\<And>b. b \<in> set xs \<Longrightarrow> same_index (S' b) (S b)" "coinGroups st' = coinGroups st" "startGroupSize st' = startGroupSize st"
  shows "group_after S' xs st' p g n = group_after S xs st p g n"
proof -
  have "group_blocks S' (g - 1) xs = group_blocks S (g - 1) xs"
    using assms(1) by (rule group_blocks_cong)
  moreover have "count_back S' (g - 1) k (group_blocks S (g - 1) xs) 0 None = count_back S (g - 1) k (group_blocks S (g - 1) xs) 0 None" for k
    using same_indexD(4)[OF assms(1)] by (intro count_back_cong) (auto simp: group_blocks_def dest: set_dropWhileD)
  ultimately show ?thesis
    using assms(2,3) by (simp add: group_after_def split: option.split)
qed

lemma fold_map_insert: "distinct (map fst l) \<Longrightarrow> \<forall>e \<in> set l. map_of m (fst e) = None \<Longrightarrow> fold (\<lambda>(k, v). map_insert k v) l m = m @ l"
proof (induction l arbitrary: m)
  case (Cons e l)
  have "fold (\<lambda>(k, v). map_insert k v) l (m @ [e]) = (m @ [e]) @ l"
    using Cons.prems by (intro Cons.IH) (auto simp: map_add_def split: option.splits, metis fst_conv image_eqI)
  then show ?case
    using Cons.prems by (cases e) simp
qed simp

lemma check_ltags_unused: "check_ltags_loop st info ts h True s = Inr u \<Longrightarrow> t \<in> set ts \<Longrightarrow> \<not> IsUsedLTag t st"
  by (induction ts) (auto simp: bindE_eq_Inr_iff CheckLTag_def split: if_splits)

text \<open>
  What is asked of the block's information: each tag occurs once (it is a map) and belongs to a group that is there, and the coins are new. The checks of the
  transactions see to the first two; nothing in the code sees to the last.
\<close>

definition info_fits :: "('c, 'g) CSparkState \<Rightarrow> ('c, 'g) CSparkTxInfo \<Rightarrow> bool" where
  "info_fits st info \<longleftrightarrow> distinct (map fst (infoLTags info)) \<and> list_all (\<lambda>e. map_of (coinGroups st) (snd e) \<noteq> None) (infoLTags info) \<and>
     distinct (infoMints info) \<and> list_all (\<lambda>c. \<not> HasCoin c st) (infoMints info) \<and> (latestCoinId st = 0 \<longrightarrow> length (infoMints info) \<le> maxCoinInGroup st)"

definition cleared :: "('c, 'g) spark_index \<Rightarrow> ('c, 'g) spark_index" where
  "cleared b = b\<lparr>sparkMintedCoins := [], spentLTags := [], sparkSetHash := []\<rparr>"

lemma connect_spends_result:
  assumes "groups_ok S xs st" "info_fits st info" "\<forall>e \<in> set (infoLTags info). \<not> IsUsedLTag (fst e) st"
  shows "\<exists>t h. connect_spends E info p st (S(p := cleared (S p))) =
    (with_tags (usedLTags st @ infoLTags info) (fold (\<lambda>(_, gid). meta_add gid 1) (infoLTags info) (spendMetaInfo st)) t st,
     S(p := (cleared (S p))\<lparr>spentLTags := infoLTags info, ltagTxhash := h\<rparr>))"
proof -
  have tags: "fold (\<lambda>(t, g). AddSpend t g) (infoLTags info) st = add_tags (infoLTags info) st"
    using assms groups_okD(8)[OF assms(1)] by (intro fold_AddSpend) (auto simp: info_fits_def list_all_iff)
  have inserted: "fold (\<lambda>(lTag, gid). map_insert lTag gid) (infoLTags info) [] = infoLTags info"
    using assms(2) fold_map_insert[of "infoLTags info" "[]"] by (simp add: info_fits_def)
  have added: "add_tags (infoLTags info) st = with_tags (usedLTags st @ infoLTags info) (fold (\<lambda>(_, gid). meta_add gid 1) (infoLTags info) (spendMetaInfo st)) (ltagTxhashes st) st"
    by (simp add: add_tags_def with_tags_def)
  show ?thesis
  proof (cases "argMobile E")
    case True
    then show ?thesis
      by (auto simp: connect_spends_def cleared_def Let_def fold_AddLTagTxHash tags inserted added with_tags_def)
  next
    case False
    then show ?thesis
      unfolding connect_spends_def
      by (intro exI[of _ "ltagTxhashes st"] exI[of _ "ltagTxhash (S p)"]) (simp add: cleared_def Let_def tags inserted added)
  qed
qed

lemma state_after_with_tags:
  assumes "\<And>b. b \<in> set xs \<Longrightarrow> same_index (S' b) (S b)" "nHeight (S' p) = nHeight (S p)"
  shows "state_after S' xs p g cs (with_tags u m t st) = with_tags u m t (state_after S xs p g cs st)"
proof -
  have "group_after S' xs (with_tags u m t st) p g (length cs) = group_after S xs st p g (length cs)"
    using assms(1) by (intro group_after_cong) auto
  then show ?thesis
    using assms(2) by (cases st) (simp add: state_after_def add_coins_def with_tags_def)
qed

lemma connect_mints_result:
  assumes "groups_ok S xs st" "heights S (p # xs)" "mints \<noteq> []" "distinct mints" "list_all (\<lambda>c. \<not> HasCoin c st) mints"
    "latestCoinId st = 0 \<Longrightarrow> length mints \<le> maxCoinInGroup st" "sparkMintedCoins (S p) = []"
    "connect_mints E txs mints p (with_tags u m t st) S = Inr (st2, S2)"
  shows "\<exists>g ctx sh. 1 \<le> g \<and> (g = latestCoinId st \<or> g = latestCoinId st + 1) \<and> st2 = with_tags u m t (state_after S xs p g mints st) \<and>
    (\<forall>b. b \<noteq> p \<longrightarrow> S2 b = S b) \<and> S2 p = (S p)\<lparr>sparkMintedCoins := [(g, mints)], sparkTxHashContext := ctx, sparkSetHash := sh\<rparr>"
proof -
  let ?st = "with_tags u m t st" and ?g = "next_group (with_tags u m t st) (length mints)"
  have ok: "groups_ok S xs ?st"
    by (rule groups_ok_cong[OF assms(1)]) (use groups_okD(8)[OF assms(1)] in auto)
  note g = AddMints_group[OF ok assms(2), of mints, simplified, OF assms(6)]
  let ?st1 = "?st\<lparr>latestCoinId := ?g, coinGroups := map_put ?g (group_after S xs ?st p ?g (length mints)) (coinGroups st)\<rparr>"
  obtain S1 sh where S1: "add_mints_loop E txs p ?g mints ?st1 S = Inr (st2, S1)" "S2 = S1(p := (S1 p)\<lparr>sparkSetHash := sh\<rparr>)"
    using assms(3,8) g(3)[of E txs] by (auto simp: connect_mints_def bindE_eq_Inr_iff Let_def)
  have "st2 = state_after S xs p ?g mints ?st"
    using add_mints_loop_result[OF S1(1)] assms(4,5) by (simp add: state_after_def fold_AddMint list_all_iff HasCoin_def)
  moreover have "state_after S xs p ?g mints ?st = with_tags u m t (state_after S xs p ?g mints st)"
    by (rule state_after_with_tags) auto
  moreover obtain ctx where "S1 p = (S p)\<lparr>sparkMintedCoins := [(?g, mints)], sparkTxHashContext := ctx\<rparr>" "\<forall>b. b \<noteq> p \<longrightarrow> S1 b = S b"
    using add_mints_loop_result[OF S1(1)] assms(3,7) by (auto simp: coins_with_def)
  ultimately show ?thesis
    using g(1,2) S1(2) by (intro exI[of _ ?g] exI[of _ ctx] exI[of _ sh]) simp
qed

text \<open>What connecting a block does to the state and to the index.\<close>

lemma connect_block_state:
  assumes "groups_ok S xs st" "heights S (p # xs)" "p \<notin> set xs" "info_fits st info" "\<forall>e \<in> set (infoLTags info). \<not> IsUsedLTag (fst e) st"
    "links S (p # xs)" "connect_spends E info p st (S(p := cleared (S p))) = (st1, S1)" "connect_mints E txs (infoMints info) p st1 S1 = Inr (st2, S2)"
  shows "(\<forall>b. b \<noteq> p \<longrightarrow> S2 b = S b) \<and> pprev (S2 p) = pprev (S p) \<and> nHeight (S2 p) = nHeight (S p) \<and> phashBlock (S2 p) = phashBlock (S p) \<and>
    addedSparkNames (S2 p) = addedSparkNames (S p) \<and> removedSparkNames (S2 p) = removedSparkNames (S p) \<and> spentLTags (S2 p) = infoLTags info \<and>
    groups_ok S2 (p # xs) st2 \<and> block_mints S2 p st \<and> block_tags S2 p st \<and> (\<exists>st3. State_AddBlock E S2 p st = Inr st3 \<and> same_state st3 st2)"
proof -
  define u where "u = usedLTags st @ infoLTags info"
  define m where "m = fold (\<lambda>(_, gid). meta_add gid 1) (infoLTags info) (spendMetaInfo st)"
  obtain t h where S1: "st1 = with_tags u m t st" "S1 = S(p := (cleared (S p))\<lparr>spentLTags := infoLTags info, ltagTxhash := h\<rparr>)"
    using connect_spends_result[OF assms(1,4,5), of E p] assms(7) unfolding u_def m_def by auto
  have same1: "S1 b = S b" if "b \<in> set xs" for b
    using that assms(3) S1(2) by auto
  have ok1: "groups_ok S1 xs st"
    by (rule groups_ok_cong[OF assms(1)]) (use same1 groups_okD(8)[OF assms(1)] in auto)
  have heights1: "heights S1 (p # xs)"
    using assms(2,3) heights_cong[of xs S1 S] same1 by (simp add: S1(2) cleared_def)
  have "\<exists>ms ctx sh. st2 = with_tags u m t (case ms of [] \<Rightarrow> st | (g, cs) # _ \<Rightarrow> state_after S1 xs p g cs st) \<and> (\<forall>b. b \<noteq> p \<longrightarrow> S2 b = S1 b) \<and>
    S2 p = (S1 p)\<lparr>sparkMintedCoins := ms, sparkTxHashContext := ctx, sparkSetHash := sh\<rparr> \<and> block_mints S2 p st"
  proof (cases "infoMints info = []")
    case True
    then have "st2 = st1" "S2 = S1"
      using assms(8) by (simp_all add: connect_mints_def)
    then show ?thesis
      by (intro exI[of _ "[]"] exI[of _ "sparkTxHashContext (S p)"] exI[of _ "[]"]) (simp add: S1 cleared_def block_mints_def)
  next
    case False
    obtain g ctx sh where "1 \<le> g" "g = latestCoinId st \<or> g = latestCoinId st + 1" "st2 = with_tags u m t (state_after S1 xs p g (infoMints info) st)"
      "\<forall>b. b \<noteq> p \<longrightarrow> S2 b = S1 b" "S2 p = (S1 p)\<lparr>sparkMintedCoins := [(g, infoMints info)], sparkTxHashContext := ctx, sparkSetHash := sh\<rparr>"
      using connect_mints_result[OF ok1 heights1 False, of E txs u m t st2 S2] assms(4,8) S1 by (auto simp: info_fits_def cleared_def)
    then show ?thesis
      using False assms(4) by (intro exI[of _ "[(g, infoMints info)]"] exI[of _ ctx] exI[of _ sh]) (auto simp: block_mints_def info_fits_def)
  qed
  then obtain ms ctx sh where S2: "st2 = with_tags u m t (case ms of [] \<Rightarrow> st | (g, cs) # _ \<Rightarrow> state_after S1 xs p g cs st)"
    "\<forall>b. b \<noteq> p \<longrightarrow> S2 b = S1 b" "S2 p = (S1 p)\<lparr>sparkMintedCoins := ms, sparkTxHashContext := ctx, sparkSetHash := sh\<rparr>" "block_mints S2 p st"
    by blast
  have tags: "block_tags S2 p st"
    using assms(4,5) S1(2) S2(3) by (auto simp: block_tags_def info_fits_def list_all_iff)
  have same2: "S2 b = S b" if "b \<in> set xs" for b
    using that assms(3) same1 S2(2) by metis
  have ok2: "groups_ok S2 xs st"
    by (rule groups_ok_cong[OF assms(1)]) (use same2 groups_okD(8)[OF assms(1)] in auto)
  have "state_after S2 xs p g cs st = state_after S1 xs p g cs st" for g cs
    using group_after_cong[of xs S2 S1 st st p g "length cs"] same1 same2 S2(3) by (simp add: state_after_def)
  then have added: "mints_added S2 xs p st = (case ms of [] \<Rightarrow> st | (g, cs) # _ \<Rightarrow> state_after S1 xs p g cs st)"
    using S2(3) by (simp add: mints_added_def split: list.split)
  have "spentLTags (S2 p) = infoLTags info"
    using S1(2) S2(3) by simp
  then have "\<exists>t'. State_AddBlock E S2 p st = Inr (with_tags u m t' (mints_added S2 xs p st))"
    using State_AddBlock_added[OF ok2 S2(4) tags, of E] by (auto simp: added_with_tags u_def m_def)
  moreover have "links S2 (p # xs)"
    using assms(6) links_cong[of xs S2 S] same2 S1(2) S2(3) by (simp add: cleared_def)
  then have "groups_ok S2 (p # xs) (mints_added S2 xs p st)"
    using mints_added_ok[OF ok2 _ assms(3) S2(4)] by blast
  then have "groups_ok S2 (p # xs) st2"
    by (rule groups_ok_cong) (use S2(1) added groups_okD(8)[OF \<open>groups_ok S2 (p # xs) (mints_added S2 xs p st)\<close>] in auto)
  ultimately show ?thesis
    using S1(2) S2 tags added by (auto simp: cleared_def same_state_def)
qed

section \<open>Operations on states that are the same\<close>

lemma same_state_sym: "same_state a b \<Longrightarrow> same_state b a"
  by (simp add: same_state_def)

lemma rel_bindE:
  "rel_sum (=) R m m' \<Longrightarrow> (\<And>x y. R x y \<Longrightarrow> rel_sum (=) R (f x) (f' y)) \<Longrightarrow> rel_sum (=) R (bindE m f) (bindE m' f')"
  by (auto simp: bindE_def rel_sum.simps split: sum.splits)

lemma RemoveMint_same: "same_state a b \<Longrightarrow> same_state (RemoveMint c a) (RemoveMint c b)"
  by (auto simp: same_state_def RemoveMint_def split: option.splits)

lemma RemoveSpend_same: "same_state a b \<Longrightarrow> same_state (RemoveSpend c a) (RemoveSpend c b)"
  by (auto simp: same_state_def RemoveSpend_def split: option.splits)

lemma remove_mints_same: "same_state a b \<Longrightarrow> rel_sum (=) same_state (remove_mints_loop g cs a) (remove_mints_loop g cs b)"
proof (induction cs arbitrary: a b)
  case (Cons c cs)
  have "mintedCoins b = mintedCoins a"
    using Cons.prems by (simp add: same_state_def)
  then show ?case
    using Cons.IH[OF RemoveMint_same[OF Cons.prems]] by (auto split: option.splits)
qed simp

lemma remove_all_mints_same: "same_state a b \<Longrightarrow> rel_sum (=) same_state (remove_all_mints l a) (remove_all_mints l b)"
  by (induction l arbitrary: a b) (auto intro!: rel_bindE remove_mints_same)

lemma fold_RemoveSpend_same: "same_state a b \<Longrightarrow> same_state (fold (\<lambda>e. RemoveSpend (fst e)) l a) (fold (\<lambda>e. RemoveSpend (fst e)) l b)"
  by (induction l arbitrary: a b) (auto intro: RemoveSpend_same)

lemma remove_group_same:
  assumes "same_state a b"
  shows "rel_sum (=) same_state (remove_group S p c a) (remove_group S p c b)"
proof -
  obtain g cs where [simp]: "c = (g, cs)" by fastforce
  have [simp]: "coinGroups b = coinGroups a" "latestCoinId b = latestCoinId a" "is_edged_block S p g n b = is_edged_block S p g n a" for n
    using assms by (auto simp: same_state_def is_edged_block_def split: option.splits)
  show ?thesis
  proof (cases "map_of (coinGroups a) g")
    case (Some gr)
    with assms show ?thesis
      by (cases "is_edged_block S p g (nCoins gr - int (length cs)) a"; cases "ended (roll_back_last S g (firstBlock gr) p)")
        (auto simp: remove_group_def same_state_def Let_def)
  qed (use assms in \<open>simp add: remove_group_def\<close>)
qed

lemma remove_groups_same: "same_state a b \<Longrightarrow> rel_sum (=) same_state (remove_groups_loop S p l a) (remove_groups_loop S p l b)"
  by (induction l arbitrary: a b) (auto intro!: rel_bindE remove_group_same)

lemma State_RemoveBlock_same: "same_state a b \<Longrightarrow> rel_sum (=) same_state (State_RemoveBlock S p a) (State_RemoveBlock S p b)"
  unfolding State_RemoveBlock_def
  by (intro rel_bindE remove_groups_same remove_all_mints_same) (auto intro: fold_RemoveSpend_same)

lemma mints_added_same:
  assumes "same_state a b"
  shows "same_state (mints_added S xs p a) (mints_added S xs p b)"
proof -
  have "group_after S xs a p g n = group_after S xs b p g n" for g n
    using assms by (intro group_after_cong) (auto simp: same_state_def)
  then show ?thesis
    using assms by (auto simp: mints_added_def state_after_def add_coins_def same_state_def split: list.splits)
qed

lemma State_AddBlock_same:
  assumes "same_state a b" "groups_ok S xs a" "groups_ok S xs b" "block_mints S p a" "block_tags S p a"
  shows "\<exists>a' b'. State_AddBlock E S p a = Inr a' \<and> State_AddBlock E S p b = Inr b' \<and> same_state a' b'"
proof -
  have "block_mints S p b" "block_tags S p b"
    using assms(1,4,5) by (auto simp: same_state_def block_mints_def block_tags_def HasCoin_def IsUsedLTag_def)
  moreover have "same_state (mints_added S xs p a) (mints_added S xs p b)"
    using mints_added_same[OF assms(1)] .
  moreover have "usedLTags a = usedLTags b" "meta_of (spendMetaInfo a) = meta_of (spendMetaInfo b)"
    using assms(1) by (auto simp: same_state_def)
  ultimately show ?thesis
    using State_AddBlock_added[OF assms(2,4,5), of E] State_AddBlock_added[OF assms(3), of p E]
    by (auto simp: added_with_tags same_state_def meta_of_fold fun_eq_iff)
qed

lemma State_AddBlock_cong:
  assumes "groups_ok S xs st" "block_mints S p st" "block_tags S p st" "\<And>b. b \<in> set (p # xs) \<Longrightarrow> same_index (S' b) (S b)"
  shows "State_AddBlock E S' p st = State_AddBlock E S p st"
proof -
  have ok: "groups_ok S' xs st"
    by (rule groups_ok_cong[OF assms(1)]) (use assms(4) groups_okD(8)[OF assms(1)] in auto)
  have p: "same_index (S' p) (S p)"
    using assms(4) by simp
  then have "block_mints S' p st" "block_tags S' p st"
    using assms(2,3) by (simp_all add: block_mints_def block_tags_def same_index_def)
  moreover have "mints_added S' xs p st = mints_added S xs p st"
    using p group_after_cong[of xs S' S st st p] assms(4) by (simp add: mints_added_def state_after_def same_index_def split: list.split)
  ultimately show ?thesis
    using State_AddBlock_added[OF assms(1-3), of E] State_AddBlock_added[OF ok, of p E] p by (simp add: same_index_def)
qed

end
