(* ===== verification/SparkNodeProps.thy ===== *)
theory SparkNodeProps
  imports SparkChainProps
begin

text \<open>
  Nodes that are reached by connecting and disconnecting blocks, and what holds of them: the state is the one that the index gives, disconnecting a
  block restores the state and the names or ends at an assertion, and no linking tag is used twice.
\<close>

section \<open>Nodes\<close>

text \<open>The states along the chain, each obtained from the one below it by adding the block from the index.\<close>

primrec built ::
  "('c, 'g, 's) spark_env \<Rightarrow> nat \<Rightarrow> nat \<Rightarrow> ('c, 'g) spark_store \<Rightarrow> addr list \<Rightarrow> ('c, 'g) CSparkState \<Rightarrow> CSparkNameManager \<Rightarrow> bool" where
  "built E k n S [] st M \<longleftrightarrow> same_state (new_CSparkState k n) st \<and> M = Names_Reset"
| "built E k n S (p # xs) st M \<longleftrightarrow>
     (\<exists>st0 st1 M0. built E k n S xs st0 M0 \<and> groups_ok S xs st0 \<and> links S (p # xs) \<and> p \<notin> set xs \<and> block_mints S p st0 \<and> block_tags S p st0 \<and>
        State_AddBlock E S p st0 = Inr st1 \<and> same_state st1 st \<and> names_inv M0 \<and>
        Names_AddBlock (removedSparkNames (S p)) (addedSparkNames (S p)) False M0 = (M, removedSparkNames (S p)) \<and>
        Names_RemoveBlock (removedSparkNames (S p)) (addedSparkNames (S p)) M = M0)"

definition node_ok :: "('c, 'g, 's) spark_env \<Rightarrow> nat \<Rightarrow> nat \<Rightarrow> ('c, 'g) spark_node \<Rightarrow> addr list \<Rightarrow> bool" where
  "node_ok E k n N xs \<longleftrightarrow> built E k n (nodeStore N) xs (nodeState N) (nodeNames N) \<and> groups_ok (nodeStore N) xs (nodeState N) \<and>
     heights (nodeStore N) xs \<and> names_inv (nodeNames N)"

text \<open>What is asked of a block and its information where the block is connected.\<close>

definition block_fits :: "('c, 'g) spark_node \<Rightarrow> addr list \<Rightarrow> addr \<Rightarrow> ('c, 'g) CSparkTxInfo \<Rightarrow> bool" where
  "block_fits N xs p info \<longleftrightarrow>
     (let b = nodeStore N p
      in p \<notin> set xs \<and> pprev b = head_of xs \<and> nHeight b = int (length xs) \<and> info_fits (nodeState N) info \<and>
         (infoSparkNames info = [] \<longrightarrow> addedSparkNames b = []) \<and>
         names_admitted (nodeNames N) (added_names (nHeight b) (infoSparkNames info) (addedSparkNames b)))"

text \<open>The pools are lists of transactions here; what is removed from them does not matter for the state.\<close>

inductive spark_reaches ::
  "('c, 'g, 's) spark_env \<Rightarrow> SparkParams \<Rightarrow> nat \<Rightarrow> nat \<Rightarrow> ('c, 'g) spark_node \<Rightarrow> addr list \<Rightarrow> bool"
  for E P k n where
  start: "nodeState N = new_CSparkState k n \<Longrightarrow> nodeNames N = Names_Reset \<Longrightarrow> spark_reaches E P k n N []"
| connect: "spark_reaches E P k n N xs \<Longrightarrow> block_fits N xs p info \<Longrightarrow> ConnectBlockSpark E P p (Some (txs, info)) False s N = Inr N' \<Longrightarrow>
    spark_reaches E P k n N' (p # xs)"
| disconnect: "spark_reaches E P k n N (p # xs) \<Longrightarrow> DisconnectTipSpark E remove (\<lambda>pool. pool) p N mempool stempool = Inr (N', mempool', stempool') \<Longrightarrow>
    spark_reaches E P k n N' xs"

inductive_cases spark_reachesE: "spark_reaches E P k n N xs"

lemma built_same: "built E k n S xs st M \<Longrightarrow> same_state st st' \<Longrightarrow> built E k n S xs st' M"
  by (cases xs) (auto intro: same_state_trans)

lemma built_cong: "built E k n S xs st M \<Longrightarrow> (\<And>b. b \<in> set xs \<Longrightarrow> S' b = S b) \<Longrightarrow> built E k n S' xs st M"
proof (induction xs arbitrary: st M)
  case (Cons p xs)
  obtain st0 st1 M0 where
    b: "built E k n S xs st0 M0" "groups_ok S xs st0" "links S (p # xs)" "p \<notin> set xs" "block_mints S p st0" "block_tags S p st0" and
    a: "State_AddBlock E S p st0 = Inr st1" "same_state st1 st" "names_inv M0"
      "Names_AddBlock (removedSparkNames (S p)) (addedSparkNames (S p)) False M0 = (M, removedSparkNames (S p))"
      "Names_RemoveBlock (removedSparkNames (S p)) (addedSparkNames (S p)) M = M0"
    using Cons.prems(1) by auto
  have "built E k n S' xs st0 M0"
    using Cons.IH[OF b(1)] Cons.prems(2) by simp
  moreover have "groups_ok S' xs st0"
    by (rule groups_ok_store[OF b(2)]) (use Cons.prems(2) in simp)
  moreover have "State_AddBlock E S' p st0 = Inr st1"
    using State_AddBlock_cong[OF b(2,5,6), of S' E] Cons.prems(2) a(1) by simp
  moreover have "links S' (p # xs)"
    using b(3) links_cong[of "p # xs" S' S] Cons.prems(2) by simp
  moreover have "S' p = S p" "block_mints S' p st0" "block_tags S' p st0"
    using Cons.prems(2) b(5,6) by (simp_all add: block_mints_def block_tags_def)
  ultimately show ?case
    using b(4) a(2-5) by auto
qed simp

section \<open>Connecting\<close>

lemma connect_names_backup: "A = [] \<Longrightarrow> connect_names h b A M = connect_names h True A M"
  by (simp add: connect_names_def Names_AddBlock_def split: prod.splits)

lemma ConnectBlockSpark_cases:
  assumes "ConnectBlockSpark E P p (Some (txs, info)) False s N = Inr N'"
  defines "S \<equiv> nodeStore N"
  obtains st1 S1 st2 S2 where "\<forall>e \<in> set (infoLTags info). \<not> IsUsedLTag (fst e) (nodeState N)"
    "connect_spends E info p (nodeState N) (S(p := cleared (S p))) = (st1, S1)" "connect_mints E txs (infoMints info) p st1 S1 = Inr (st2, S2)"
    "N' = connect_block_names p (infoSparkNames info \<noteq> []) (N\<lparr>nodeState := st2, nodeStore :=
       (if infoSparkNames info = [] then S2
        else S2(p := (S2 p)\<lparr>addedSparkNames := added_names (nHeight (S2 p)) (infoSparkNames info) (addedSparkNames (S2 p))\<rparr>))\<rparr>)"
proof -
  obtain st1 S1 where 1: "connect_spends E info p (nodeState N) (S(p := cleared (S p))) = (st1, S1)"
    by fastforce
  from assms(1) obtain u where u: "check_ltags_loop (nodeState N) (Some info) (map fst (infoLTags info))
      (nHeight ((S(p := cleared (S p))) p)) True s = Inr u"
    unfolding S_def by (auto simp: ConnectBlockSpark_def cleared_def Let_def bindE_eq_Inr_iff)
  from assms(1) 1 obtain st2 S2 where "connect_mints E txs (infoMints info) p st1 S1 = Inr (st2, S2)"
    "N' = connect_block_names p (infoSparkNames info \<noteq> []) (N\<lparr>nodeState := st2, nodeStore :=
       (if infoSparkNames info = [] then S2
        else S2(p := (S2 p)\<lparr>addedSparkNames := added_names (nHeight (S2 p)) (infoSparkNames info) (addedSparkNames (S2 p))\<rparr>))\<rparr>)"
    unfolding S_def by (auto simp: ConnectBlockSpark_def cleared_def[symmetric] Let_def bindE_eq_Inr_iff split: prod.splits)
  moreover have "\<forall>e \<in> set (infoLTags info). \<not> IsUsedLTag (fst e) (nodeState N)"
    using check_ltags_unused[OF u] by auto
  ultimately show thesis
    using that 1 by blast
qed

text \<open>A block on top of a node: how the node came from the one below.\<close>

definition on_top :: "('c, 'g, 's) spark_env \<Rightarrow> ('c, 'g) spark_node \<Rightarrow> addr list \<Rightarrow> addr \<Rightarrow> ('c, 'g) spark_node \<Rightarrow> bool" where
  "on_top E N xs p N' \<longleftrightarrow>
     (let S = nodeStore N'; b = nodeStore N' p
      in groups_ok S xs (nodeState N) \<and> links S (p # xs) \<and> p \<notin> set xs \<and> block_mints S p (nodeState N) \<and> block_tags S p (nodeState N) \<and>
         (\<exists>st1. State_AddBlock E S p (nodeState N) = Inr st1 \<and> same_state st1 (nodeState N')) \<and>
         Names_AddBlock (removedSparkNames b) (addedSparkNames b) False (nodeNames N) = (nodeNames N', removedSparkNames b) \<and>
         Names_RemoveBlock (removedSparkNames b) (addedSparkNames b) (nodeNames N') = nodeNames N)"

lemma connect_on_top:
  assumes "node_ok E k n N xs" "block_fits N xs p info" "ConnectBlockSpark E P p (Some (txs, info)) False s N = Inr N'"
  shows "on_top E N xs p N' \<and> groups_ok (nodeStore N') (p # xs) (nodeState N') \<and> names_inv (nodeNames N') \<and> heights (nodeStore N') (p # xs) \<and>
    (\<forall>b \<in> set xs. nodeStore N' b = nodeStore N b) \<and> spentLTags (nodeStore N' p) = infoLTags info \<and> phashBlock (nodeStore N' p) = phashBlock (nodeStore N p)"
proof -
  define S where "S = nodeStore N"
  obtain st1 S1 st2 S2 where c: "\<forall>e \<in> set (infoLTags info). \<not> IsUsedLTag (fst e) (nodeState N)"
    "connect_spends E info p (nodeState N) (S(p := cleared (S p))) = (st1, S1)" "connect_mints E txs (infoMints info) p st1 S1 = Inr (st2, S2)"
    and N': "N' = connect_block_names p (infoSparkNames info \<noteq> []) (N\<lparr>nodeState := st2, nodeStore :=
       (if infoSparkNames info = [] then S2
        else S2(p := (S2 p)\<lparr>addedSparkNames := added_names (nHeight (S2 p)) (infoSparkNames info) (addedSparkNames (S2 p))\<rparr>))\<rparr>)"
    using ConnectBlockSpark_cases[OF assms(3)] unfolding S_def by metis
  have ok: "groups_ok S xs (nodeState N)" "heights S xs" "names_inv (nodeNames N)"
    using assms(1) by (auto simp: node_ok_def S_def)
  have fits: "p \<notin> set xs" "pprev (S p) = head_of xs" "nHeight (S p) = int (length xs)" "info_fits (nodeState N) info"
    "infoSparkNames info = [] \<Longrightarrow> addedSparkNames (S p) = []"
    "names_admitted (nodeNames N) (added_names (nHeight (S p)) (infoSparkNames info) (addedSparkNames (S p)))"
    using assms(2) by (auto simp: block_fits_def S_def Let_def)
  have links: "links S (p # xs)"
    using fits(2) groups_okD(1)[OF ok(1)] by simp
  note b = connect_block_state[OF ok(1) _ fits(1,4) c(1) links c(2,3)]
  have b: "\<forall>b. b \<noteq> p \<longrightarrow> S2 b = S b" "pprev (S2 p) = pprev (S p)" "nHeight (S2 p) = nHeight (S p)" "phashBlock (S2 p) = phashBlock (S p)"
    "addedSparkNames (S2 p) = addedSparkNames (S p)" "spentLTags (S2 p) = infoLTags info" "groups_ok S2 (p # xs) st2"
    "block_mints S2 p (nodeState N)" "block_tags S2 p (nodeState N)" "\<exists>st3. State_AddBlock E S2 p (nodeState N) = Inr st3 \<and> same_state st3 st2"
    using b ok(2) fits(3) by auto
  define A where "A = added_names (nHeight (S p)) (infoSparkNames info) (addedSparkNames (S p))"
  obtain M R where M: "connect_names (nHeight (S p)) True A (nodeNames N) = (M, R)"
    by fastforce
  have backup: "connect_names (nHeight (S p)) (infoSparkNames info \<noteq> []) A (nodeNames N) = (M, R)"
    using M connect_names_backup[of A "nHeight (S p)" False "nodeNames N"] fits(5) by (cases "infoSparkNames info = []") (auto simp: A_def added_names_def)
  have S': "nodeStore N' = S2(p := (S2 p)\<lparr>addedSparkNames := A, removedSparkNames := R\<rparr>)" "nodeState N' = st2" "nodeNames N' = M"
    using N' backup b(3,5) fits(5)
    by (auto simp: connect_block_names_def A_def added_names_def Let_def)
  have below: "nodeStore N' q = S q" if "q \<in> set xs" for q
    using that fits(1) b(1) S'(1) by auto
  have "groups_ok (nodeStore N') xs (nodeState N)"
    by (rule groups_ok_store[OF ok(1)]) (simp add: below)
  moreover have same: "same_index (nodeStore N' q) (S2 q)" for q
    using S'(1) by (simp add: same_index_def)
  then have "groups_ok (nodeStore N') (p # xs) (nodeState N')"
    using groups_ok_cong[OF b(7), of "nodeStore N'" "nodeState N'"] S'(2) groups_okD(8)[OF b(7)] by auto
  moreover have "links (nodeStore N') (p # xs)"
    using links links_cong[of xs "nodeStore N'" S] below b(2) S'(1) by simp
  moreover have "heights (nodeStore N') (p # xs)"
    using ok(2) heights_cong[of xs "nodeStore N'" S] below b(3) fits(3) S'(1) by simp
  moreover have "State_AddBlock E (nodeStore N') p (nodeState N) = State_AddBlock E S2 p (nodeState N)"
  proof (rule State_AddBlock_cong[OF _ b(8,9) same])
    show "groups_ok S2 xs (nodeState N)"
      by (rule groups_ok_store[OF ok(1)]) (use fits(1) b(1) in \<open>metis same_index_refl\<close>)
  qed
  moreover have "block_mints (nodeStore N') p (nodeState N)" "block_tags (nodeStore N') p (nodeState N)"
    using b(8,9) S'(1) by (simp_all add: block_mints_def block_tags_def)
  moreover have "names_inv M"
    using connect_names_spec[OF ok(3) fits(6), of "nHeight (S p)"] M by (auto simp: A_def)
  moreover have "Names_AddBlock R A False (nodeNames N) = (M, R)" "Names_RemoveBlock R A M = nodeNames N"
    using AddBlock_rebuilds_names[OF ok(3) _ M] RemoveBlock_connect_names[OF ok(3) _ M] fits(6) by (auto simp: A_def)
  ultimately show ?thesis
    using fits(1) below b(4,6,10) S' by (auto simp: on_top_def S_def Let_def)
qed

lemma connect_ok:
  assumes "node_ok E k n N xs" "block_fits N xs p info" "ConnectBlockSpark E P p (Some (txs, info)) False s N = Inr N'"
  shows "node_ok E k n N' (p # xs)"
proof -
  have top: "on_top E N xs p N'" "groups_ok (nodeStore N') (p # xs) (nodeState N')" "names_inv (nodeNames N')" "heights (nodeStore N') (p # xs)"
    "\<And>b. b \<in> set xs \<Longrightarrow> nodeStore N' b = nodeStore N b"
    using connect_on_top[OF assms] by auto
  have "built E k n (nodeStore N') xs (nodeState N) (nodeNames N)"
    using assms(1) built_cong[of E k n "nodeStore N" xs] top(5) by (simp add: node_ok_def)
  then show ?thesis
    using assms(1) top(1-4) unfolding node_ok_def on_top_def Let_def built.simps by blast
qed

section \<open>Disconnecting\<close>

lemma remove_group_keys: "remove_group S p c st = Inr st' \<Longrightarrow> mintMetaInfo st' = mintMetaInfo st"
  by (auto simp: remove_group_def bindE_eq_Inr_iff Let_def split: prod.splits option.splits if_splits)

lemma remove_groups_keys: "remove_groups_loop S p l st = Inr st' \<Longrightarrow> mintMetaInfo st' = mintMetaInfo st"
  by (induction l arbitrary: st) (auto simp: bindE_eq_Inr_iff dest: remove_group_keys)

lemma remove_mints_keys: "remove_mints_loop g cs st = Inr st' \<Longrightarrow> map_of (mintMetaInfo st) h \<noteq> None \<Longrightarrow> map_of (mintMetaInfo st') h \<noteq> None"
proof (induction cs arbitrary: st)
  case (Cons c cs)
  have "map_of (mintMetaInfo (RemoveMint c st)) h \<noteq> None"
    using Cons.prems(2) by (auto simp: RemoveMint_def meta_add_def split: option.splits)
  then show ?case
    using Cons.IH[of "RemoveMint c st"] Cons.prems(1) by (auto split: option.splits if_splits)
qed simp

lemma remove_all_mints_keys: "remove_all_mints l st = Inr st' \<Longrightarrow> map_of (mintMetaInfo st) h \<noteq> None \<Longrightarrow> map_of (mintMetaInfo st') h \<noteq> None"
proof (induction l arbitrary: st)
  case (Cons c l)
  then obtain st1 where "remove_mints_loop (fst c) (snd c) st = Inr st1" "remove_all_mints l st1 = Inr st'"
    by (auto simp: bindE_eq_Inr_iff)
  with Cons.IH[OF this(2)] remove_mints_keys[OF this(1) Cons.prems(2)] show ?case
    by blast
qed simp

lemma fold_RemoveSpend_keys: "mintMetaInfo (fold (\<lambda>e. RemoveSpend (fst e)) l st) = mintMetaInfo st"
  by (induction l arbitrary: st) (auto simp: RemoveSpend_def split: option.splits)

lemma State_RemoveBlock_keys:
  "State_RemoveBlock S p st = Inr st' \<Longrightarrow> map_of (mintMetaInfo st) h \<noteq> None \<Longrightarrow> map_of (mintMetaInfo st') h \<noteq> None"
  unfolding State_RemoveBlock_def bindE_eq_Inr_iff
  by (metis fold_RemoveSpend_keys remove_all_mints_keys remove_groups_keys sum.inject(2))

lemma disconnect_on_top:
  assumes "on_top E N xs p N'"
  shows "if removal_aborts (nodeStore N') xs p (nodeState N) then DisconnectTipSpark E rr mt p N' pool stem = Inl AssertSpark
    else \<exists>N'' pool' stem'. DisconnectTipSpark E rr mt p N' pool stem = Inr (N'', pool', stem') \<and> same_state (nodeState N'') (nodeState N) \<and>
      nodeNames N'' = nodeNames N \<and> nodeStore N'' = nodeStore N' \<and> State_RemoveBlock (nodeStore N') p (nodeState N') = Inr (nodeState N'')"
proof -
  obtain st1 where st1: "State_AddBlock E (nodeStore N') p (nodeState N) = Inr st1" "same_state st1 (nodeState N')"
    using assms by (auto simp: on_top_def Let_def)
  have removed: "if removal_aborts (nodeStore N') xs p (nodeState N) then State_RemoveBlock (nodeStore N') p st1 = Inl AssertSpark
    else \<exists>st''. State_RemoveBlock (nodeStore N') p st1 = Inr st'' \<and> same_state st'' (nodeState N)"
    using assms st1(1) by (intro State_RemoveBlock_added) (auto simp: on_top_def Let_def)
  have same: "rel_sum (=) same_state (State_RemoveBlock (nodeStore N') p st1) (State_RemoveBlock (nodeStore N') p (nodeState N'))"
    using State_RemoveBlock_same[OF st1(2)] .
  show ?thesis
  proof (cases "removal_aborts (nodeStore N') xs p (nodeState N)")
    case True
    then show ?thesis
      using removed same by (simp add: DisconnectTipSpark_def Let_def rel_sum.simps)
  next
    case False
    then obtain st'' where "State_RemoveBlock (nodeStore N') p (nodeState N') = Inr st''" "same_state st'' (nodeState N)"
      using removed same by (auto simp: rel_sum.simps) (metis same_state_trans same_state_sym)
    with False assms show ?thesis
      by (auto simp: DisconnectTipSpark_def on_top_def Let_def)
  qed
qed

lemma disconnect_ok:
  assumes "node_ok E k n N (p # xs)" "DisconnectTipSpark E rr mt p N pool stem = Inr (N', pool', stem')"
  shows "node_ok E k n N' xs"
proof -
  obtain st0 st1 M0 where
    b: "built E k n (nodeStore N) xs st0 M0" "groups_ok (nodeStore N) xs st0" "links (nodeStore N) (p # xs)" "p \<notin> set xs"
      "block_mints (nodeStore N) p st0" "block_tags (nodeStore N) p st0" "State_AddBlock E (nodeStore N) p st0 = Inr st1" "same_state st1 (nodeState N)" "names_inv M0"
      "Names_AddBlock (removedSparkNames (nodeStore N p)) (addedSparkNames (nodeStore N p)) False M0 = (nodeNames N, removedSparkNames (nodeStore N p))"
      "Names_RemoveBlock (removedSparkNames (nodeStore N p)) (addedSparkNames (nodeStore N p)) (nodeNames N) = M0"
    using assms(1) by (auto simp: node_ok_def)
  have "on_top E (N\<lparr>nodeState := st0, nodeNames := M0\<rparr>) xs p N"
    using b by (auto simp: on_top_def Let_def)
  then have N': "same_state (nodeState N') st0" "nodeNames N' = M0" "nodeStore N' = nodeStore N" "State_RemoveBlock (nodeStore N) p (nodeState N) = Inr (nodeState N')"
    using disconnect_on_top[of E "N\<lparr>nodeState := st0, nodeNames := M0\<rparr>" xs p N rr mt pool stem] assms(2) by (auto split: if_splits)
  have groups: "groups_ok (nodeStore N) (p # xs) (nodeState N)"
    using assms(1) by (simp add: node_ok_def)
  have "map_of (mintMetaInfo (nodeState N')) g \<noteq> None" if "map_of (coinGroups st0) g \<noteq> None" for g
  proof -
    have "latestCoinId st0 \<le> latestCoinId st1"
      using State_AddBlock_added[OF b(2,5,6), of E] b(5,7) by (auto simp: added_with_tags mints_added_def state_after_def block_mints_def)
    then have "map_of (coinGroups (nodeState N)) g \<noteq> None"
      using that groups_okD(6)[OF b(2), of g] groups_okD(6)[OF groups, of g] b(8) by (auto simp: same_state_def)
    then show ?thesis
      using State_RemoveBlock_keys[OF N'(4), of g] groups_okD(8)[OF groups, of g] by auto
  qed
  then have "groups_ok (nodeStore N) xs (nodeState N')"
    using N'(1) by (intro groups_ok_cong[OF b(2)]) (auto simp: same_state_def)
  moreover have "built E k n (nodeStore N) xs (nodeState N') M0"
    using built_same[OF b(1)] same_state_sym[OF N'(1)] .
  ultimately show ?thesis
    using assms(1) N'(2,3) b(9) by (simp add: node_ok_def)
qed

lemma start_ok: "nodeState N = new_CSparkState k n \<Longrightarrow> nodeNames N = Names_Reset \<Longrightarrow> node_ok E k n N []"
  by (simp add: node_ok_def groups_ok_def new_CSparkState_def State_Reset_def names_inv_Reset)

lemma spark_reaches_ok: "spark_reaches E P k n N xs \<Longrightarrow> node_ok E k n N xs"
  by (induction rule: spark_reaches.induct) (auto intro: start_ok connect_ok disconnect_ok)

section \<open>Rebuilding from the index\<close>

primrec rebuilt ::
  "('c, 'g, 's) spark_env \<Rightarrow> nat \<Rightarrow> nat \<Rightarrow> ('c, 'g) spark_store \<Rightarrow> addr list \<Rightarrow> ('c, 'g) CSparkState \<times> CSparkNameManager" where
  "rebuilt E k n S [] = (new_CSparkState k n, Names_Reset)"
| "rebuilt E k n S (p # xs) =
     (projr (State_AddBlock E S p (fst (rebuilt E k n S xs))),
      fst (Names_AddBlock (removedSparkNames (S p)) (addedSparkNames (S p)) False (snd (rebuilt E k n S xs))))"

primrec rebuildable :: "('c, 'g, 's) spark_env \<Rightarrow> nat \<Rightarrow> nat \<Rightarrow> ('c, 'g) spark_store \<Rightarrow> addr list \<Rightarrow> bool" where
  "rebuildable E k n S [] \<longleftrightarrow> True"
| "rebuildable E k n S (p # xs) \<longleftrightarrow> \<not> isl (State_AddBlock E S p (fst (rebuilt E k n S xs))) \<and> rebuildable E k n S xs"

lemma built_rebuilt:
  assumes "built E k n S xs st M"
  shows "rebuildable E k n S xs \<and> groups_ok S xs (fst (rebuilt E k n S xs)) \<and> same_state (fst (rebuilt E k n S xs)) st \<and> snd (rebuilt E k n S xs) = M"
  using assms
proof (induction xs arbitrary: st M)
  case Nil
  then show ?case by (simp add: groups_ok_def new_CSparkState_def State_Reset_def)
next
  case (Cons p xs)
  obtain st0 st1 M0 where
    b: "built E k n S xs st0 M0" "groups_ok S xs st0" "links S (p # xs)" "p \<notin> set xs" "block_mints S p st0" "block_tags S p st0" and
    a: "State_AddBlock E S p st0 = Inr st1" "same_state st1 st"
      "Names_AddBlock (removedSparkNames (S p)) (addedSparkNames (S p)) False M0 = (M, removedSparkNames (S p))"
    using Cons.prems by auto
  let ?st = "fst (rebuilt E k n S xs)"
  have IH: "rebuildable E k n S xs" "groups_ok S xs ?st" "same_state ?st st0" "snd (rebuilt E k n S xs) = M0"
    using Cons.IH[OF b(1)] by auto
  have p: "block_mints S p ?st" "block_tags S p ?st"
    using b(5,6) IH(3) by (auto simp: same_state_def block_mints_def block_tags_def HasCoin_def IsUsedLTag_def)
  obtain st' where st': "State_AddBlock E S p ?st = Inr st'" "same_state st' st1"
    using State_AddBlock_same[OF IH(3,2) b(2) p, of E] a(1) by auto
  have "groups_ok S (p # xs) (mints_added S xs p ?st)"
    using mints_added_ok[OF IH(2) b(3,4) p(1)] .
  then have "groups_ok S (p # xs) st'"
    by (rule groups_ok_cong) (use State_AddBlock_added[OF IH(2) p, of E] st'(1) groups_okD(8)[OF \<open>groups_ok S (p # xs) (mints_added S xs p ?st)\<close>]
      in \<open>auto simp: added_with_tags\<close>)
  then show ?case
    using IH(1,4) st' a(2,3) by (auto intro: same_state_trans)
qed

lemma chain_at_rev: "chain_at (map Some (rev (ys @ p # zs))) (int (length zs)) = Some p"
  by (simp add: chain_at_def nth_append)

lemma chain_at_end: "chain_at (map Some (rev xs)) (int (length xs)) = None"
  by (simp add: chain_at_def)

lemma heights_suffix: "heights S (ys @ zs) \<Longrightarrow> heights S zs"
  by (induction ys) auto

lemma rebuildable_suffix: "rebuildable E k n S (ys @ zs) \<Longrightarrow> rebuildable E k n S zs"
  by (induction ys) auto

lemma build_loop_rebuilt:
  assumes "heights (nodeStore N) (ys @ zs)" "rebuildable E k n (nodeStore N) (ys @ zs)"
  shows "build_loop E (map Some (rev (ys @ zs))) (chain_at (map Some (rev (ys @ zs))) (int (length zs)))
      (N\<lparr>nodeState := fst (rebuilt E k n (nodeStore N) zs), nodeNames := snd (rebuilt E k n (nodeStore N) zs)\<rparr>) =
    Some (Inr (N\<lparr>nodeState := fst (rebuilt E k n (nodeStore N) (ys @ zs)), nodeNames := snd (rebuilt E k n (nodeStore N) (ys @ zs))\<rparr>))"
  using assms
proof (induction ys arbitrary: zs rule: rev_induct)
  case Nil
  have "chain_at (map Some (rev ([] @ zs))) (int (length zs)) = None"
    using chain_at_end[of zs] by simp
  then show ?case by (simp only:) (subst build_loop.simps, simp)
next
  case (snoc p ys)
  let ?S = "nodeStore N"
  let ?c = "map Some (rev ((ys @ [p]) @ zs))"
  let ?N = "N\<lparr>nodeState := fst (rebuilt E k n ?S zs), nodeNames := snd (rebuilt E k n ?S zs)\<rparr>"
  have at: "chain_at ?c (int (length zs)) = Some p"
    using chain_at_rev[of ys p zs] by simp
  have h: "nHeight (?S p) = int (length zs)"
    using heights_suffix[of ?S ys "p # zs"] snoc.prems(1) by simp
  obtain st where st: "State_AddBlock E ?S p (fst (rebuilt E k n ?S zs)) = Inr st"
    using rebuildable_suffix[of E k n ?S ys "p # zs"] snoc.prems(2) by (cases "State_AddBlock E ?S p (fst (rebuilt E k n ?S zs))") auto
  have "Next (plain_store ?S) ?c p = chain_at ?c (int (length (p # zs)))"
    using at h by (simp add: Next_def Contains_def plain_store_def block_index.truncate_def add.commute)
  then have "build_loop E ?c (Some p) ?N = build_loop E ?c (chain_at ?c (int (length (p # zs))))
    (N\<lparr>nodeState := fst (rebuilt E k n ?S (p # zs)), nodeNames := snd (rebuilt E k n ?S (p # zs))\<rparr>)"
    using st by (subst build_loop.simps) (simp add: Let_def del: map_append rev_append)
  then show ?case
    using snoc.IH[of "p # zs"] snoc.prems at by (simp del: map_append rev_append rebuilt.simps)
qed

section \<open>Spending once\<close>

lemma built_tags:
  assumes "built E k n S xs st M"
  shows "usedLTags st = concat (map (\<lambda>b. spentLTags (S b)) (rev xs)) \<and> distinct (map fst (usedLTags st))"
  using assms
proof (induction xs arbitrary: st M)
  case Nil
  then show ?case by (simp add: same_state_def new_CSparkState_def State_Reset_def)
next
  case (Cons p xs)
  obtain st0 st1 M0 where b: "built E k n S xs st0 M0" "groups_ok S xs st0" "block_mints S p st0" "block_tags S p st0"
    "State_AddBlock E S p st0 = Inr st1" "same_state st1 st"
    using Cons.prems by auto
  have "usedLTags st = usedLTags st0 @ spentLTags (S p)"
    using State_AddBlock_added[OF b(2-4), of E] b(5,6) by (auto simp: added_with_tags same_state_def)
  moreover have "\<forall>t \<in> set (map fst (spentLTags (S p))). t \<notin> set (map fst (usedLTags st0))"
    using b(4) unfolding block_tags_def list_all_iff IsUsedLTag_def by (fastforce simp: map_of_eq_None_iff)
  moreover have "distinct (map fst (spentLTags (S p)))"
    using b(4) by (simp add: block_tags_def)
  ultimately show ?case
    using Cons.IH[OF b(1)] by (auto simp del: set_map)
qed

end
