(* ===== verification/SparkCoverProps.thy ===== *)
theory SparkCoverProps
  imports SparkNodeProps "HOL-Library.Sublist"
begin

text \<open>
  The anonymity set that a wallet takes for a spend, and the one that a node verifies the spend with when more blocks have been connected: both are
  walks along the chain, from the block of the wallet's set down to the first block of the coin group.
\<close>

section \<open>Walks along the chain\<close>

definition set_coins :: "('c, 'g) spark_store \<Rightarrow> int \<Rightarrow> addr list \<Rightarrow> 'c list" where
  "set_coins S gid bs = concat (map (\<lambda>b. if set_id (S b) gid = 0 then [] else coins_with (S b) (set_id (S b) gid)) bs)"

definition set_hash_of :: "('c, 'g) spark_store \<Rightarrow> int \<Rightarrow> addr list \<Rightarrow> bytes" where
  "set_hash_of S gid bs = (case List.map_filter (\<lambda>b. map_of (sparkSetHash (S b)) gid) bs of [] \<Rightarrow> [] | h # _ \<Rightarrow> h)"

lemma set_coins_simps [simp]:
  "set_coins S gid [] = []"
  "set_coins S gid (b # bs) = (if set_id (S b) gid = 0 then [] else coins_with (S b) (set_id (S b) gid)) @ set_coins S gid bs"
  by (simp_all add: set_coins_def)

lemma set_coins_cong: "(\<And>b. b \<in> set bs \<Longrightarrow> S' b = S b) \<Longrightarrow> set_coins S' gid bs = set_coins S gid bs"
  unfolding set_coins_def by (intro arg_cong[where f = concat] map_cong) auto

lemma set_hash_of_cong: "(\<And>b. b \<in> set bs \<Longrightarrow> S' b = S b) \<Longrightarrow> set_hash_of S' gid bs = set_hash_of S gid bs"
  by (induction bs) (auto simp: set_hash_of_def map_filter_simps split: option.splits)

lemma set_hash_links:
  assumes "links S (us @ f # vs)" "f \<notin> set us"
  shows "set_hash_loop S (Some f) gid (head_of (us @ f # vs)) = Some (Inr (set_hash_of S gid us))"
  using assms
proof (induction us)
  case Nil
  then show ?case by (subst set_hash_loop.simps) (simp add: set_hash_of_def map_filter_simps)
next
  case (Cons u us)
  then show ?case
    by (subst set_hash_loop.simps) (auto simp: set_hash_of_def map_filter_simps split: option.splits)
qed

lemma ucast_pred: "(ucast (g - 1 :: u64) :: u32) = ucast g - 1"
proof -
  have m: "(a - 1) mod 4294967296 = (a mod 18446744073709551616 - 1) mod 4294967296" for a :: int
    by (intro mod_diff_cong) (simp_all add: mod_mod_cancel)
  show ?thesis by (transfer, simp add: take_bit_eq_mod mod_diff_left_eq mod_mod_cancel, rule m)
qed

lemma sint_pred:
  assumes "0 < sint (w :: u32)"
  shows "sint (w - 1) = sint w - 1"
proof -
  have "w - 1 = word_of_int (sint w - 1)" by simp
  then have "sint (w - 1) = signed_take_bit 31 (sint w - 1)" by (simp only: sint_sbintrunc') simp
  also have "\<dots> = sint w - 1" using assms sint_greater_eq [of w] sint_lt [of w] by (simp add: signed_take_bit_int_eq_self)
  finally show ?thesis .
qed

lemma narrow_pred: "0 < narrow gid \<Longrightarrow> narrow (gid - 1) = narrow gid - 1"
  by (simp add: ucast_pred sint_pred)

lemma cover_id_narrow: "0 < narrow gid \<Longrightarrow> cover_id b gid = set_id b (narrow gid)"
  by (simp add: cover_id_def set_id_def narrow_pred)

lemma cover_set_links:
  assumes "links S (us @ f # vs)" "f \<notin> set us" "0 < narrow gid"
  shows "cover_set_loop S gid (Some f) (head_of (us @ f # vs)) cs = Some (Inr (cs @ set_coins S (narrow gid) (us @ [f])))"
  using assms
proof (induction us arbitrary: cs)
  case Nil
  then show ?case by (subst cover_set_loop.simps) (simp add: Let_def cover_id_narrow)
next
  case (Cons u us)
  then show ?case
    using Cons.IH by (subst cover_set_loop.simps) (auto simp: Let_def cover_id_narrow)
qed

lemma find_set_block_links:
  assumes "links S (ws @ us @ f # vs)" "f \<notin> set (ws @ us)" "\<forall>b \<in> set ws. phashBlock (S b) \<noteq> h" "h = phashBlock (S (hd (us @ [f])))"
  shows "find_set_block S (Some f) h (head_of (ws @ us @ f # vs)) = Some (Inr (head_of (us @ f # vs)))"
  using assms
proof (induction ws)
  case Nil
  then show ?case by (cases us) (subst find_set_block.simps, simp)+
next
  case (Cons w ws)
  then show ?case by (subst find_set_block.simps) auto
qed

lemma set_step_more:
  assumes "numberOfCoins r \<noteq> 0"
  shows "set_step S st gid b r = Inr (r\<lparr>numberOfCoins := numberOfCoins r + length (set_coins S gid [b]), setCoins := setCoins r @ set_coins S gid [b]\<rparr>)"
  using assms by (simp add: set_step_def Let_def)

lemma spend_set_more:
  assumes "links S (us @ f # vs)" "f \<notin> set us" "\<forall>b \<in> set (us @ [f]). nHeight (S b) \<le> maxHeight" "numberOfCoins r \<noteq> 0"
  shows "spend_set_loop S st gid maxHeight (Some f) (head_of (us @ f # vs)) r =
    Some (Inr (r\<lparr>numberOfCoins := numberOfCoins r + length (set_coins S gid (us @ [f])), setCoins := setCoins r @ set_coins S gid (us @ [f])\<rparr>))"
  using assms
proof (induction us arbitrary: r)
  case Nil
  then show ?case by (subst spend_set_loop.simps) (simp add: Let_def set_step_more)
next
  case (Cons u us)
  then show ?case
    using Cons.IH[of "r\<lparr>numberOfCoins := numberOfCoins r + length (set_coins S gid [u]), setCoins := setCoins r @ set_coins S gid [u]\<rparr>"]
    by (subst spend_set_loop.simps) (auto simp: Let_def set_step_more)
qed

section \<open>The set of a group\<close>

lemma spend_set_group:
  assumes "links S (us @ f # vs)" "distinct (us @ f # vs)" "\<forall>b \<in> set (us @ [f]). nHeight (S b) \<le> maxHeight"
    "map_of (coinGroups st) gid = Some gr" "lastBlock gr = head_of (us @ f # vs)" "firstBlock gr = Some f" "nCoins gr \<noteq> 0" "gid \<noteq> 0"
    "CountCoinInBlock (S (hd (us @ [f]))) gid \<noteq> 0"
  shows "\<exists>r. GetCoinSetForSpend S maxHeight gid bh sh st = Inr r \<and> setBlockHash r = phashBlock (S (hd (us @ [f]))) \<and> setHash r = set_hash_of S gid us \<and>
    setCoins r = set_coins S gid (us @ [f])"
proof -
  let ?l = "hd (us @ [f])"
  let ?r = "\<lparr>setBlockHash = bh, setHash = sh, setCoins = [], numberOfCoins = 0\<rparr>"
  have l: "head_of (us @ f # vs) = Some ?l"
    by (cases us) auto
  have id: "set_id (S ?l) gid = gid"
    using assms(9) by (simp add: set_id_def)
  have coins: "coins_with (S ?l) gid \<noteq> []"
    using assms(9) by (auto simp: CountCoinInBlock_def coins_with_def split: option.splits)
  have "GetAnonymitySetHash S (Some ?l) gid False st = Inr (set_hash_of S gid us)"
    using assms(1,2,4,6,7) set_hash_links[of S us f vs gid] l by (simp add: GetAnonymitySetHash_def GetCoinGroupInfo_def ended_def)
  then have step: "set_step S st gid ?l ?r = Inr (?r\<lparr>setBlockHash := phashBlock (S ?l), setHash := set_hash_of S gid us,
      numberOfCoins := length (coins_with (S ?l) gid), setCoins := coins_with (S ?l) gid\<rparr>)" (is "_ = Inr ?r1")
    using id assms(8) by (simp add: set_step_def Let_def)
  show ?thesis
  proof (cases us)
    case Nil
    then have "spend_set_loop S st gid maxHeight (Some f) (Some f) ?r = Some (Inr ?r1)"
      using step assms(3) by (subst spend_set_loop.simps) (simp add: Let_def)
    then show ?thesis
      using Nil assms(4-6,8) id by (simp add: GetCoinSetForSpend_def Let_def ended_def)
  next
    case (Cons u us')
    have "spend_set_loop S st gid maxHeight (Some f) (Some u) ?r = spend_set_loop S st gid maxHeight (Some f) (head_of (us' @ f # vs)) ?r1"
      using step assms(1-3) Cons by (subst spend_set_loop.simps) (auto simp: Let_def)
    then show ?thesis
      using Cons assms(1-6,8) id coins spend_set_more[of S us' f vs maxHeight ?r1 st gid] by (simp add: GetCoinSetForSpend_def Let_def ended_def)
  qed
qed

lemma cover_set_group:
  assumes "links S (ws @ us @ f # vs)" "distinct (ws @ us @ f # vs)" "inj_on (\<lambda>b. phashBlock (S b)) (set (ws @ us @ f # vs))"
    "map_of (coinGroups st) (narrow gid) = Some gr" "lastBlock gr = head_of (ws @ us @ f # vs)" "firstBlock gr = Some f" "nCoins gr \<noteq> 0"
    "0 < narrow gid"
  shows "cover_set S st gid (phashBlock (S (hd (us @ [f])))) s = Inr (set_hash_of S (narrow gid) us, set_coins S (narrow gid) (us @ [f]))"
proof -
  have "phashBlock (S b) \<noteq> phashBlock (S (hd (us @ [f])))" if "b \<in> set ws" for b
  proof -
    have l: "hd (us @ [f]) \<in> set (us @ f # vs)" by (cases us) auto
    then have "b \<noteq> hd (us @ [f])"
      using that assms(2) by auto
    then show ?thesis
      using that l inj_onD[OF assms(3), of b "hd (us @ [f])"] by fastforce
  qed
  then have "find_set_block S (Some f) (phashBlock (S (hd (us @ [f])))) (head_of (ws @ us @ f # vs)) = Some (Inr (head_of (us @ f # vs)))"
    using find_set_block_links[OF assms(1)] assms(2) by auto
  moreover have "links S (us @ f # vs)" "f \<notin> set us"
    using assms(1,2) links_suffix by auto
  ultimately show ?thesis
    using assms(4-8) set_hash_links[of S us f vs] cover_set_links[of S us f vs]
    by (simp add: cover_set_def GetCoinGroupInfo_def GetAnonymitySetHash_def ended_def)
qed

section \<open>Connecting more blocks\<close>

inductive spark_extends ::
  "('c, 'g, 's) spark_env \<Rightarrow> SparkParams \<Rightarrow> ('c, 'g) spark_node \<Rightarrow> addr list \<Rightarrow> ('c, 'g) spark_node \<Rightarrow> addr list \<Rightarrow> bool"
  for E P N xs where
  same: "spark_extends E P N xs N xs"
| more: "spark_extends E P N xs N' zs \<Longrightarrow> block_fits N' zs p info \<Longrightarrow> ConnectBlockSpark E P p (Some (txs, info)) False s N' = Inr N'' \<Longrightarrow>
    spark_extends E P N xs N'' (p # zs)"

lemma mints_added_first:
  assumes "map_of (coinGroups st) g = Some gr"
  shows "\<exists>gr'. map_of (coinGroups (mints_added S xs p st)) g = Some gr' \<and> firstBlock gr' = firstBlock gr"
  using assms by (auto simp: mints_added_def state_after_def group_after_def split: list.splits prod.splits)

lemma on_top_first:
  assumes "on_top E N xs p N'" "map_of (coinGroups (nodeState N)) g = Some gr"
  shows "\<exists>gr'. map_of (coinGroups (nodeState N')) g = Some gr' \<and> firstBlock gr' = firstBlock gr"
proof -
  have o: "groups_ok (nodeStore N') xs (nodeState N)" "block_mints (nodeStore N') p (nodeState N)" "block_tags (nodeStore N') p (nodeState N)"
    using assms(1) by (auto simp: on_top_def Let_def)
  obtain st where "State_AddBlock E (nodeStore N') p (nodeState N) = Inr st" "same_state st (nodeState N')"
    using assms(1) by (auto simp: on_top_def Let_def)
  then have "coinGroups (nodeState N') = coinGroups (mints_added (nodeStore N') xs p (nodeState N))"
    using State_AddBlock_added[OF o, of E] by (auto simp: added_with_tags same_state_def)
  then show ?thesis
    using mints_added_first[OF assms(2)] by simp
qed

lemma spark_extends_keeps:
  assumes "spark_extends E P N xs N' zs" "node_ok E k n N xs"
  shows "node_ok E k n N' zs \<and> (\<forall>b \<in> set xs. nodeStore N' b = nodeStore N b) \<and> (\<exists>ys. zs = ys @ xs) \<and>
    (\<forall>g gr. map_of (coinGroups (nodeState N)) g = Some gr \<longrightarrow> (\<exists>gr'. map_of (coinGroups (nodeState N')) g = Some gr' \<and> firstBlock gr' = firstBlock gr))"
  using assms
proof (induction rule: spark_extends.induct)
  case (more N' zs p info txs s N'')
  note IH = more.IH[OF more.prems]
  have c: "on_top E N' zs p N''" "\<forall>b \<in> set zs. nodeStore N'' b = nodeStore N' b"
    using connect_on_top[OF _ more.hyps(2,3)] IH by auto
  show ?case
  proof (intro conjI allI impI)
    show "node_ok E k n N'' (p # zs)"
      using connect_ok[OF _ more.hyps(2,3)] IH by simp
    show "\<forall>b \<in> set xs. nodeStore N'' b = nodeStore N b" "\<exists>ys. p # zs = ys @ xs"
      using IH c(2) by (auto intro: exI[of _ "p # _"])
    fix g gr
    assume "map_of (coinGroups (nodeState N)) g = Some gr"
    then obtain gr' where "map_of (coinGroups (nodeState N')) g = Some gr'" "firstBlock gr' = firstBlock gr"
      using IH by blast
    then show "\<exists>gr'. map_of (coinGroups (nodeState N'')) g = Some gr' \<and> firstBlock gr' = firstBlock gr"
      using on_top_first[OF c(1)] by metis
  qed
qed auto

lemma heights_bound: "heights S xs \<Longrightarrow> b \<in> set xs \<Longrightarrow> nHeight (S b) < int (length xs)"
  by (induction xs) auto

lemma dropWhile_keeps: "\<not> P b \<Longrightarrow> \<exists>ws. dropWhile P (xs @ b # ys) = ws @ b # ys"
proof (induction xs)
  case (Cons x xs)
  then show ?case
    by (cases "P x") (auto intro: exI[of _ "x # xs"])
qed auto

lemma group_segment:
  assumes "groups_ok S xs st" "groups_ok S' (ys @ xs) st'" "\<And>b. b \<in> set xs \<Longrightarrow> S' b = S b" "map_of (coinGroups st) g = Some gr" "map_of (coinGroups st') g = Some gr'"
    "firstBlock gr' = firstBlock gr"
  obtains ws us f vs where "firstBlock gr = Some f" "lastBlock gr = head_of (us @ f # vs)" "lastBlock gr' = head_of (ws @ us @ f # vs)"
    "suffix (us @ f # vs) xs" "suffix (ws @ us @ f # vs) (ys @ xs)" "has_group S (hd (us @ [f])) g"
proof -
  obtain as l zs f where l: "xs = as @ l # zs" "lastBlock gr = Some l" "firstBlock gr = Some f" "f \<in> set (l # zs)" "has_group S l g"
    using group_ok_blocks[OF groups_okD(7)[OF assms(1,4)]] by metis
  obtain l' zs' where l': "group_blocks S' g (ys @ xs) = l' # zs'" "lastBlock gr' = Some l'"
    using group_ok_blocks[OF groups_okD(7)[OF assms(2,5)]] by metis
  obtain us vs where us: "l # zs = us @ f # vs"
    using l(4) by (metis split_list)
  have "\<not> \<not> has_group S' l g"
    using l(1,5) assms(3)[of l] by simp
  from dropWhile_keeps[of "\<lambda>b. \<not> has_group S' b g", OF this, of "ys @ as" zs] obtain ws where ws: "group_blocks S' g (ys @ xs) = ws @ l # zs"
    using l(1) by (auto simp: group_blocks_def)
  have "lastBlock gr = head_of (us @ f # vs)" "lastBlock gr' = head_of (ws @ us @ f # vs)"
    using l(2) l' ws us by (metis head_of_simps(2))+
  moreover have "suffix (us @ f # vs) xs" "suffix (ws @ us @ f # vs) (ys @ xs)"
    using l(1) us ws suffix_dropWhile[of "\<lambda>b. \<not> has_group S' b g" "ys @ xs"] by (auto simp: suffix_def group_blocks_def)
  moreover have "hd (us @ [f]) = l"
    using us by (cases us) auto
  ultimately show thesis
    using that l(3,5) by blast
qed

lemma groups_ok_suffix: "groups_ok S xs st \<Longrightarrow> suffix ys xs \<Longrightarrow> links S ys \<and> distinct ys \<and> set ys \<subseteq> set xs"
  using groups_okD(1,2)[of S xs st] links_suffix[of S _ ys] by (auto simp: suffix_def)

lemma cover_sets_agree:
  assumes "node_ok E k n N xs" "node_ok E k n N' (ys @ xs)" "\<And>b. b \<in> set xs \<Longrightarrow> nodeStore N' b = nodeStore N b"
    "map_of (coinGroups (nodeState N)) (narrow gid) = Some gr" "map_of (coinGroups (nodeState N')) (narrow gid) = Some gr'" "firstBlock gr' = firstBlock gr"
    "inj_on (\<lambda>b. phashBlock (nodeStore N' b)) (set (ys @ xs))" "int (length xs) \<le> maxHeight + 1"
  shows "\<exists>r. GetCoinSetForSpend (nodeStore N) maxHeight (narrow gid) bh sh (nodeState N) = Inr r \<and>
    cover_set (nodeStore N') (nodeState N') gid (setBlockHash r) s = Inr (setHash r, setCoins r)"
proof -
  define S where "S = nodeStore N"
  define S' where "S' = nodeStore N'"
  have ok: "groups_ok S xs (nodeState N)" "groups_ok S' (ys @ xs) (nodeState N')" "heights S xs"
    using assms(1,2) by (auto simp: node_ok_def S_def S'_def)
  obtain ws us f vs where u: "firstBlock gr = Some f" "lastBlock gr = head_of (us @ f # vs)" "lastBlock gr' = head_of (ws @ us @ f # vs)"
    "suffix (us @ f # vs) xs" "suffix (ws @ us @ f # vs) (ys @ xs)" "has_group S (hd (us @ [f])) (narrow gid)"
    using group_segment[OF ok(1,2) _ assms(4,5,6)] assms(3) unfolding S_def S'_def by metis
  have l: "hd (us @ [f]) \<in> set (us @ f # vs)" by (cases us) auto
  have xs: "links S (us @ f # vs)" "distinct (us @ f # vs)" "set (us @ f # vs) \<subseteq> set xs"
    using groups_ok_suffix[OF ok(1) u(4)] by blast+
  have ys: "links S' (ws @ us @ f # vs)" "distinct (ws @ us @ f # vs)" "set (ws @ us @ f # vs) \<subseteq> set (ys @ xs)"
    using groups_ok_suffix[OF ok(2) u(5)] by blast+
  have coins: "nCoins gr \<noteq> 0" "nCoins gr' \<noteq> 0" "0 < narrow gid"
    using groups_okD(7)[OF ok(1) assms(4)] groups_okD(7)[OF ok(2) assms(5)] groups_okD(6)[OF ok(1), of "narrow gid"] assms(4) by (auto simp: group_ok_def)
  have count: "CountCoinInBlock (S (hd (us @ [f]))) (narrow gid) \<noteq> 0"
    using u(6) l xs(3) has_group_count[OF ok(1)] by blast
  have "\<forall>b \<in> set (us @ [f]). nHeight (S b) \<le> maxHeight"
    using heights_bound[OF ok(3)] xs(3) assms(8) by fastforce
  from spend_set_group[OF xs(1,2) this assms(4) u(2,1) coins(1) _ count, of bh sh] obtain r where
    r: "GetCoinSetForSpend S maxHeight (narrow gid) bh sh (nodeState N) = Inr r" "setBlockHash r = phashBlock (S (hd (us @ [f])))"
      "setHash r = set_hash_of S (narrow gid) us" "setCoins r = set_coins S (narrow gid) (us @ [f])"
    using coins(3) by auto
  have same: "S' b = S b" if "b \<in> set (us @ f # vs)" for b
    using assms(3) that xs(3) unfolding S_def S'_def by blast
  have "cover_set S' (nodeState N') gid (phashBlock (S' (hd (us @ [f])))) s = Inr (set_hash_of S' (narrow gid) us, set_coins S' (narrow gid) (us @ [f]))"
    using cover_set_group[OF ys(1,2) _ assms(5) u(3) _ coins(2,3)] inj_on_subset[OF assms(7) ys(3)] assms(6) u(1) unfolding S'_def by simp
  moreover have "set_hash_of S' (narrow gid) us = set_hash_of S (narrow gid) us" "set_coins S' (narrow gid) (us @ [f]) = set_coins S (narrow gid) (us @ [f])"
    using same by (auto intro!: set_hash_of_cong set_coins_cong)
  ultimately show ?thesis
    using r same[OF l] unfolding S_def S'_def by auto
qed

section \<open>What the checks see to\<close>

text \<open>The tags that are collected for a block are different, and their groups are there.\<close>

definition tags_fit :: "('c, 'g) CSparkState \<Rightarrow> ('c, 'g) CSparkTxInfo option \<Rightarrow> bool" where
  "tags_fit st info \<longleftrightarrow>
     (case info of None \<Rightarrow> True | Some i \<Rightarrow> distinct (map fst (infoLTags i)) \<and> list_all (\<lambda>e. map_of (coinGroups st) (snd e) \<noteq> None) (infoLTags i))"

lemma cover_sets_groups: "cover_sets_loop S st ids s = Inr sets \<Longrightarrow> map_of sets gid \<noteq> None \<Longrightarrow> map_of (coinGroups st) (narrow gid) \<noteq> None"
  by (induction ids arbitrary: sets) (auto simp: bindE_eq_Inr_iff cover_set_def GetCoinGroupInfo_def split: option.splits if_splits)

lemma map_insert_fits:
  "distinct (map fst m) \<and> list_all P m \<Longrightarrow> P (k, v) \<Longrightarrow> distinct (map fst (map_insert k v m)) \<and> list_all P (map_insert k v m)"
  by (auto simp: map_insert_def map_of_eq_None_iff image_iff split: option.splits)

lemma record_tags_fits:
  assumes "tags_fit st (Some i)" "\<forall>e \<in> set tags. map_of (coinGroups st) (narrow (snd e)) \<noteq> None"
  shows "tags_fit st (Some (record_tags E tags hashTx i))"
  using assms
proof (induction tags arbitrary: i)
  case (Cons e tags)
  obtain t g where e: "e = (t, g)" by fastforce
  let ?i = "i\<lparr>infoLTags := map_insert t (narrow g) (infoLTags i)\<rparr>"
  let ?j = "if argMobile E then ?i\<lparr>infoLTagTxhash := map_insert (GetLTagHash E t) hashTx (infoLTagTxhash ?i)\<rparr> else ?i"
  have "tags_fit st (Some ?i)"
    using Cons.prems e map_insert_fits[of "infoLTags i" "\<lambda>e. map_of (coinGroups st) (snd e) \<noteq> None"] by (simp add: tags_fit_def)
  then have "tags_fit st (Some ?j)"
    by (simp add: tags_fit_def)
  moreover have "record_tags E (e # tags) hashTx i = record_tags E tags hashTx ?j"
    by (simp add: e record_tags_def Let_def)
  ultimately show ?case
    using Cons.IH[of ?j] Cons.prems(2) by simp
qed (simp add: record_tags_def)

lemma tags_fit_add [simp]:
  "tags_fit st (add_info_tx hashTx info) = tags_fit st info" "tags_fit st (add_info_mints coins info) = tags_fit st info"
  by (auto simp: add_info_tx_def add_info_mints_def tags_fit_def split: option.splits)

lemma CheckSparkSpendTransaction_fits:
  assumes "CheckSparkSpendTransaction E P chainActive S st tx hashTx isVerifyDB h isCheckWallet fStateful info batch s = Inr (info', batch')" "tags_fit st info"
  shows "tags_fit st info'"
proof -
  obtain spend where spend: "ParseSparkSpend E tx = Inr spend"
  proof (cases "ParseSparkSpend E tx")
    case (Inl e)
    then show ?thesis
      using assms(1) by (cases e) (simp_all add: CheckSparkSpendTransaction_def split: if_split_asm)
  qed
  consider "info' = info" | out sets where "info' = add_info_mints out info \<or> (\<exists>i. add_info_mints out info = Some i \<and>
      info' = add_info_tx hashTx (Some (record_tags E (zip (getUsedLTags E spend) (getCoinGroupIds E spend)) hashTx i)))"
    "cover_sets_loop S st (getBlockHashes E spend) s = Inr sets" "list_all (\<lambda>gid. map_of sets gid \<noteq> None) (getCoinGroupIds E spend)"
  proof (cases "fStateful \<and> spend_outputs (vout tx) 0 0 \<noteq> None \<and> smints_loop E (vout tx) [] \<noteq> None")
    case False
    then have "info' = info"
      using assms(1) spend by (auto simp: CheckSparkSpendTransaction_def CheckSparkSMintTransaction_def split: if_split_asm option.split_asm)
    then show ?thesis using that by blast
  next
    case True
    then obtain k V out where o: "spend_outputs (vout tx) 0 0 = Some (k, V)" "smints_loop E (vout tx) [] = Some out" "fStateful"
      by auto
    define info1 where "info1 = add_info_mints out info"
    obtain sets where sets: "cover_sets_loop S st (getBlockHashes E spend) s = Inr sets"
      using assms(1) spend o by (auto simp: CheckSparkSpendTransaction_def CheckSparkSMintTransaction_def bindE_eq_Inr_iff split: if_split_asm)
    have "list_all (\<lambda>gid. map_of sets gid \<noteq> None) (getCoinGroupIds E spend) \<and> (info' = info1 \<or> collecting info1 \<and>
        info' = add_info_tx hashTx (map_option (record_tags E (zip (getUsedLTags E spend) (getCoinGroupIds E spend)) hashTx) info1))"
      using assms(1) spend o sets unfolding CheckSparkSpendTransaction_def CheckSparkSMintTransaction_def info1_def[symmetric]
      by (simp add: Let_def bindE_eq_Inr_iff info1_def[symmetric] split: if_split_asm)
    then show ?thesis
      using that(2)[of out sets] sets unfolding info1_def by (cases "add_info_mints out info") auto
  qed
  then show ?thesis
  proof cases
    case 2
    have "\<forall>e \<in> set (zip (getUsedLTags E spend) (getCoinGroupIds E spend)). map_of (coinGroups st) (narrow (snd e)) \<noteq> None"
      using cover_sets_groups[OF 2(2)] 2(3) by (auto simp: list_all_iff dest: set_zip_rightD)
    then show ?thesis
      using 2(1) assms(2) record_tags_fits[of st _ "zip (getUsedLTags E spend) (getCoinGroupIds E spend)" E hashTx] by (metis tags_fit_add)
  qed (use assms(2) in simp)
qed

lemma check_mints_fits: "check_mints E tx hashTx info s = Inr info' \<Longrightarrow> tags_fit st info \<Longrightarrow> tags_fit st info'"
  by (auto simp: check_mints_def CheckSparkMintTransaction_def Let_def split: option.split_asm sum.split_asm bool.split_asm if_split_asm)

lemma collect_name_fits: "collect_name d info s = Inr info' \<Longrightarrow> tags_fit st info \<Longrightarrow> tags_fit st info'"
  by (auto simp: collect_name_def tags_fit_def split: option.split_asm if_split_asm)

lemma CheckSparkTransaction_fits:
  assumes "CheckSparkTransaction E P chainActive S st M tx hashTx isVerifyDB h isCheckWallet fStateful info batch s = Inr (info', batch')" "tags_fit st info"
  shows "tags_fit st info'"
  using assms unfolding CheckSparkTransaction_def
  by (auto simp: bindE_eq_Inr_iff split: if_split_asm dest: check_mints_fits collect_name_fits CheckSparkSpendTransaction_fits)

end
