(* ===== verification/SparkDemo.thy ===== *)
theory SparkDemo
  imports SparkNodeProps
begin

text \<open>
  A small node, on which the properties of the Spark state are evaluated: coin groups of three coins, of which two are taken over by the next group,
  and three blocks, of which the last opens the second group.
\<close>

definition demo_spark_env :: "(nat, nat, unit) spark_env" where
  "demo_spark_env =
     \<lparr>sparkHashes = \<lparr>RIPEMD160 = take 20, SHA1 = take 20, SHA256 = (\<lambda>b. replicate 32 7), CheckLowS = (\<lambda>_. True)\<rparr>,
      nameLibrary = demo_name_library, getUsedLTags = (\<lambda>_. []), getCoinGroupIds = (\<lambda>_. []), getBlockHashes = (\<lambda>_. []), readCoin = (\<lambda>_. None),
      memoryRequired = 0, setMintTransaction = (\<lambda>_. None), coin_v = (\<lambda>_. 0), coin_S = id, ser_Coin = (\<lambda>c. [of_nat c]), setSerialContext = (\<lambda>_ c. c),
      ser_LTags = (\<lambda>_. []), GetLTagHash = (\<lambda>g. [of_nat g]), GetSparkCoinHash = (\<lambda>c. [of_nat c]), verifySpend = (\<lambda>_ _ _ _ _. True),
      argMobile = False, fCollectProofs = False\<rparr>"

definition demo_spark_params :: SparkParams where
  "demo_spark_params = \<lparr>nSparkStartBlock = 0, nMaxValueSparkSpendPerTransaction = 10, nMaxValueSparkSpendPerBlock = 10, nMaxSparkOutLimitPerTx = 16,
     nameParams = demo_name_params\<rparr>"

definition demo_spark_store :: "(nat, nat) spark_store" where
  "demo_spark_store p = \<lparr>nHeight = int p, nTime = 0, nBits = 0, phashBlock = [of_nat p], pprev = (if p = 0 then None else Some (p - 1)), pskip = None, blkVersion = 0,
     nTimeMax = 0, nChainWork = [], nStatus = 0, sparkMintedCoins = [], sparkSetHash = [], sparkTxHashContext = [], spentLTags = [], ltagTxhash = [],
     addedSparkNames = [], removedSparkNames = []\<rparr>"

definition demo_info :: "nat list \<Rightarrow> (nat \<times> int) list \<Rightarrow> (nat, nat) CSparkTxInfo" where
  "demo_info mints tags = Complete demo_spark_env (new_CSparkTxInfo\<lparr>infoMints := mints, infoLTags := tags\<rparr>)"

definition demo_spark_block :: "nat \<Rightarrow> (int \<times> nat list) list \<Rightarrow> (nat \<times> int) list \<Rightarrow> (nat, nat) spark_index" where
  "demo_spark_block p mints tags =
     (demo_spark_store p)\<lparr>sparkMintedCoins := mints, spentLTags := tags, sparkSetHash := map (\<lambda>e. (fst e, replicate 32 7)) mints\<rparr>"

definition demo_node0 :: "(nat, nat) spark_node" where
  "demo_node0 = \<lparr>nodeState = new_CSparkState 3 2, nodeStore = demo_spark_store, nodeNames = Names_Reset\<rparr>"

definition demo_node1 :: "(nat, nat) spark_node" where
  "demo_node1 =
     \<lparr>nodeState = \<lparr>maxCoinInGroup = 3, startGroupSize = 2, latestCoinId = 1, coinGroups = [(1, \<lparr>firstBlock = Some 0, lastBlock = Some 0, nCoins = 2\<rparr>)],
        mintedCoins = [(10, \<lparr>coinGroupId = 1, mintHeight = 0\<rparr>), (11, \<lparr>coinGroupId = 1, mintHeight = 0\<rparr>)],
        usedLTags = [], ltagTxhashes = [], mintMetaInfo = [(1, 2)], spendMetaInfo = []\<rparr>,
      nodeStore = demo_spark_store(0 := demo_spark_block 0 [(1, [10, 11])] []), nodeNames = Names_Reset\<rparr>"

definition demo_node2 :: "(nat, nat) spark_node" where
  "demo_node2 =
     \<lparr>nodeState = \<lparr>maxCoinInGroup = 3, startGroupSize = 2, latestCoinId = 1, coinGroups = [(1, \<lparr>firstBlock = Some 0, lastBlock = Some 1, nCoins = 3\<rparr>)],
        mintedCoins = [(10, \<lparr>coinGroupId = 1, mintHeight = 0\<rparr>), (11, \<lparr>coinGroupId = 1, mintHeight = 0\<rparr>), (12, \<lparr>coinGroupId = 1, mintHeight = 1\<rparr>)],
        usedLTags = [(77, 1)], ltagTxhashes = [], mintMetaInfo = [(1, 3)], spendMetaInfo = [(1, 1)]\<rparr>,
      nodeStore = demo_spark_store(0 := demo_spark_block 0 [(1, [10, 11])] [], 1 := demo_spark_block 1 [(1, [12])] [(77, 1)]), nodeNames = Names_Reset\<rparr>"

definition demo_node3 :: "(nat, nat) spark_node" where
  "demo_node3 =
     \<lparr>nodeState = \<lparr>maxCoinInGroup = 3, startGroupSize = 2, latestCoinId = 2, coinGroups =
          [(1, \<lparr>firstBlock = Some 0, lastBlock = Some 1, nCoins = 3\<rparr>), (2, \<lparr>firstBlock = Some 0, lastBlock = Some 2, nCoins = 4\<rparr>)],
        mintedCoins = [(10, \<lparr>coinGroupId = 1, mintHeight = 0\<rparr>), (11, \<lparr>coinGroupId = 1, mintHeight = 0\<rparr>), (12, \<lparr>coinGroupId = 1, mintHeight = 1\<rparr>),
          (13, \<lparr>coinGroupId = 2, mintHeight = 2\<rparr>)],
        usedLTags = [(77, 1), (78, 1)], ltagTxhashes = [], mintMetaInfo = [(1, 3), (2, 1)], spendMetaInfo = [(1, 2)]\<rparr>,
      nodeStore = demo_spark_store(0 := demo_spark_block 0 [(1, [10, 11])] [], 1 := demo_spark_block 1 [(1, [12])] [(77, 1)], 2 := demo_spark_block 2 [(2, [13])] [(78, 1)]),
      nodeNames = Names_Reset\<rparr>"

lemma demo_fits:
  "block_fits demo_node0 [] 0 (demo_info [10, 11] [])"
  "block_fits demo_node1 [0] 1 (demo_info [12] [(77, 1)])"
  "block_fits demo_node2 [1, 0] 2 (demo_info [13] [(78, 1)])"
  by code_simp+

lemmas demo_defs =
  demo_node0_def demo_node1_def demo_node2_def demo_node3_def demo_spark_env_def demo_spark_params_def demo_info_def Complete_def new_CSparkTxInfo_def
  ConnectBlockSpark_def CheckSparkBlock_def CheckLTag_def connect_spends_def connect_mints_def connect_block_names_def AddMintsToStateAndBlockIndex_def
  extend_group_def CountLastNCoins_def coins_loop.simps group_at_def set_hash_prefix_def GetAnonymitySetHash_def GetCoinGroupInfo_def set_hash_loop.simps
  ended_def connect_names_def Names_AddBlock_def RemoveSparkNamesLosingValidity_def Names_Reset_def AddMint_def AddSpend_def meta_add_def map_insert_def
  IsUsedLTag_def coins_with_def CHash256_def demo_spark_block_def demo_spark_store_def new_CSparkState_def State_Reset_def CountCoinInBlock_def

lemma demo_steps:
  "ConnectBlockSpark demo_spark_env demo_spark_params 0 (Some ([], demo_info [10, 11] [])) False new_state demo_node0 = Inr demo_node1"
  "ConnectBlockSpark demo_spark_env demo_spark_params 1 (Some ([], demo_info [12] [(77, 1)])) False new_state demo_node1 = Inr demo_node2"
  "ConnectBlockSpark demo_spark_env demo_spark_params 2 (Some ([], demo_info [13] [(78, 1)])) False new_state demo_node2 = Inr demo_node3"
  by (simp_all add: demo_defs)

lemma demo_reaches:
  "spark_reaches demo_spark_env demo_spark_params 3 2 demo_node1 [0]"
  "spark_reaches demo_spark_env demo_spark_params 3 2 demo_node2 [1, 0]"
  "spark_reaches demo_spark_env demo_spark_params 3 2 demo_node3 [2, 1, 0]"
proof -
  have "spark_reaches demo_spark_env demo_spark_params 3 2 demo_node0 []"
    by (rule spark_reaches.start) (simp_all add: demo_node0_def)
  then show 1: "spark_reaches demo_spark_env demo_spark_params 3 2 demo_node1 [0]"
    by (rule spark_reaches.connect) (rule demo_fits demo_steps)+
  show 2: "spark_reaches demo_spark_env demo_spark_params 3 2 demo_node2 [1, 0]"
    by (rule spark_reaches.connect[OF 1 demo_fits(2) demo_steps(2)])
  show "spark_reaches demo_spark_env demo_spark_params 3 2 demo_node3 [2, 1, 0]"
    by (rule spark_reaches.connect[OF 2 demo_fits(3) demo_steps(3)])
qed

lemma demo_aborts: "\<not> removal_aborts (nodeStore demo_node2) [0] 1 (nodeState demo_node1)" "removal_aborts (nodeStore demo_node3) [1, 0] 2 (nodeState demo_node2)"
  by code_simp+

end
