(* ===== verification/SparkTheorems.thy ===== *)
theory SparkTheorems
  imports SparkCoverProps SparkDemo
begin

text \<open>
  The properties of the Spark state of a node that is reached by connecting and disconnecting blocks, each on a small node as well.
\<close>

text \<open>C15. The Spark state is what the index says: after any sequence of blocks that were connected and disconnected, a restarted node rebuilds from
  the index of the active chain the same groups, minted coins, used tags, counts (where a missing count is zero) and names. Left out is the table from
  hashes of tags to transactions, which is kept for mobile clients, which no check reads and from which a disconnection takes nothing back. Of every
  block connected it is assumed that none of its coins was minted before or twice in it, which no check ensures, that its tags belong to groups that
  are there, that the first coins of all fit into one group, and that the checks admit its names.\<close>

theorem spark_state_rebuilt:
  assumes "spark_reaches E P k n N xs"
  shows "\<exists>N'. BuildSparkStateFromIndex E (map Some (rev xs)) \<lparr>nodeState = new_CSparkState k n, nodeStore = nodeStore N, nodeNames = Names_Reset\<rparr> = Inr N' \<and>
    same_state (nodeState N') (nodeState N) \<and> nodeNames N' = nodeNames N"
proof -
  let ?N = "\<lparr>nodeState = new_CSparkState k n, nodeStore = nodeStore N, nodeNames = Names_Reset\<rparr>"
  have ok: "built E k n (nodeStore N) xs (nodeState N) (nodeNames N)" "heights (nodeStore N) xs"
    using spark_reaches_ok[OF assms] by (auto simp: node_ok_def)
  have "Genesis (map Some (rev xs)) = chain_at (map Some (rev xs)) 0"
    by (simp add: Genesis_def chain_at_def)
  then show ?thesis
    using build_loop_rebuilt[of ?N xs "[]" E k n] built_rebuilt[OF ok(1)] ok(2)
    by (auto simp: BuildSparkStateFromIndex_def ended_def)
qed

theorem spark_state_rebuilt_witness:
  "\<exists>N'. BuildSparkStateFromIndex demo_spark_env [Some 0, Some 1, Some 2]
       \<lparr>nodeState = new_CSparkState 3 2, nodeStore = nodeStore demo_node3, nodeNames = Names_Reset\<rparr> = Inr N' \<and>
     same_state (nodeState N') (nodeState demo_node3) \<and> nodeNames N' = nodeNames demo_node3"
  using spark_state_rebuilt[OF demo_reaches(3)] by simp

text \<open>C14. No Spark coin is spent twice: at any time, the linking tags of the blocks of the active chain are all different, and they are exactly the
  tags that the state holds as used. The node is any that is reached by connecting blocks on the tip and disconnecting the tip; of a block connected
  it is assumed that none of its coins was minted before or twice in it (no check ensures that), that its tags belong to groups that are there, that
  the first coins of all fit into one group, and that the checks admit its names.\<close>

theorem spark_tags_unique:
  assumes "spark_reaches E P k n N xs"
  shows "distinct (map fst (concat (map (\<lambda>b. spentLTags (nodeStore N b)) (rev xs)))) \<and>
    usedLTags (nodeState N) = concat (map (\<lambda>b. spentLTags (nodeStore N b)) (rev xs))"
  using built_tags spark_reaches_ok[OF assms] unfolding node_ok_def by metis

theorem spark_tags_unique_witness:
  "usedLTags (nodeState demo_node3) = concat (map (\<lambda>b. spentLTags (nodeStore demo_node3 b)) [0, 1, 2]) \<and> usedLTags (nodeState demo_node3) = [(77, 1), (78, 1)]"
  using spark_tags_unique[OF demo_reaches(3)] by (simp add: demo_node3_def)

text \<open>C17. Disconnecting the block that was connected last restores the groups, minted coins, used tags, counts (where a missing count is zero) and
  names of the Spark state, unless the block opened a coin group and is not recognized as the one that did. Left out is the table from hashes of tags
  to transactions for mobile clients, from which a disconnection takes nothing back. Of this block and of those before it is assumed that none of its
  coins was minted before or twice in it, which no check ensures, that its tags belong to groups that are there, that the first coins of all fit into
  one group, and that the checks admit its names.\<close>

theorem spark_disconnect_restores:
  assumes "spark_reaches E P k n N xs" "block_fits N xs p info" "ConnectBlockSpark E P p (Some (txs, info)) False s N = Inr N'"
    "\<not> removal_aborts (nodeStore N') xs p (nodeState N)"
  shows "\<exists>N'' pool' stem'. DisconnectTipSpark E removeRecursive mapTx p N' pool stem = Inr (N'', pool', stem') \<and>
    same_state (nodeState N'') (nodeState N) \<and> nodeNames N'' = nodeNames N"
  using disconnect_on_top[of E N xs p N' removeRecursive mapTx pool stem] connect_on_top[OF spark_reaches_ok[OF assms(1)] assms(2,3)] assms(4) by auto

theorem spark_disconnect_restores_witness:
  "\<exists>N'' pool' stem'. DisconnectTipSpark demo_spark_env (\<lambda>_ p. p) (\<lambda>p. p) 1 demo_node2 [] [] = Inr (N'', pool', stem') \<and>
     same_state (nodeState N'') (nodeState demo_node1) \<and> nodeNames N'' = nodeNames demo_node1"
  by (rule spark_disconnect_restores[OF demo_reaches(1) demo_fits(2) demo_steps(2) demo_aborts(1)])

text \<open>C36. A block that opened a coin group cannot be disconnected if the coins that the group took over from the one before, without those of the
  latest block with such coins, are at least as many as a group starts with: the block is not recognized as the one that opened the group, and the
  process ends at an assertion. The blocks are connected under the same assumptions as above: no coin is minted twice, tags belong to groups that are
  there, the first coins fit into one group, and the names are admitted.\<close>

theorem spark_disconnect_aborts:
  assumes "spark_reaches E P k n N xs" "block_fits N xs p info" "ConnectBlockSpark E P p (Some (txs, info)) False s N = Inr N'"
    "removal_aborts (nodeStore N') xs p (nodeState N)"
  shows "DisconnectTipSpark E removeRecursive mapTx p N' pool stem = Inl AssertSpark"
  using disconnect_on_top[of E N xs p N' removeRecursive mapTx pool stem] connect_on_top[OF spark_reaches_ok[OF assms(1)] assms(2,3)] assms(4) by auto

theorem spark_disconnect_aborts_witness:
  "DisconnectTipSpark demo_spark_env (\<lambda>_ p. p) (\<lambda>p. p) 2 demo_node3 [] [] = Inl AssertSpark"
  by (rule spark_disconnect_aborts[OF demo_reaches(2) demo_fits(3) demo_steps(3) demo_aborts(2)])



text \<open>C16. The set of coins that a wallet takes for a spend is the set that a node verifies the spend with: for a group of coins that is there, the
  wallet gets a set, with the hash of a block and the hash of the set, and after any further blocks the node finds, from the number of the group and
  the hash of the block, the same coins in the same order and the same hash of the set. The wallet takes all blocks up to the tip, blocks are assumed
  to have different hashes, and of the blocks connected it is assumed as for the state of the node that no coin is minted twice, that tags belong to
  groups that are there, that the first coins fit into one group and that the names are admitted.\<close>

theorem spark_cover_set_agrees:
  assumes "spark_reaches E P k n N xs" "spark_extends E P N xs N' zs" "inj_on (\<lambda>b. phashBlock (nodeStore N' b)) (set zs)"
    "map_of (coinGroups (nodeState N)) (narrow gid) \<noteq> None" "int (length xs) \<le> maxHeight + 1"
  shows "\<exists>r. GetCoinSetForSpend (nodeStore N) maxHeight (narrow gid) blockHash_out setHash_out (nodeState N) = Inr r \<and>
    cover_set (nodeStore N') (nodeState N') gid (setBlockHash r) s = Inr (setHash r, setCoins r)"
proof -
  have ok: "node_ok E k n N xs"
    using spark_reaches_ok[OF assms(1)] .
  obtain gr where gr: "map_of (coinGroups (nodeState N)) (narrow gid) = Some gr"
    using assms(4) by auto
  obtain ys gr' where y: "node_ok E k n N' (ys @ xs)" "\<And>b. b \<in> set xs \<Longrightarrow> nodeStore N' b = nodeStore N b" "zs = ys @ xs"
    "map_of (coinGroups (nodeState N')) (narrow gid) = Some gr'" "firstBlock gr' = firstBlock gr"
    using spark_extends_keeps[OF assms(2) ok] gr by blast
  show ?thesis
    using cover_sets_agree[OF ok y(1,2) gr y(4,5) _ assms(5)] assms(3) y(3) by simp
qed

theorem spark_cover_set_agrees_witness:
  "\<exists>r. GetCoinSetForSpend (nodeStore demo_node2) 1 1 [] [] (nodeState demo_node2) = Inr r \<and>
     cover_set (nodeStore demo_node3) (nodeState demo_node3) 1 (setBlockHash r) new_state = Inr (setHash r, setCoins r)"
proof -
  have "spark_extends demo_spark_env demo_spark_params demo_node2 [1, 0] demo_node3 [2, 1, 0]"
    by (rule spark_extends.more[OF spark_extends.same demo_fits(3) demo_steps(3)])
  moreover have "inj_on (\<lambda>b. phashBlock (nodeStore demo_node3 b)) (set [2, 1, 0])"
    by (simp add: demo_node3_def demo_spark_block_def demo_spark_store_def)
  moreover have "map_of (coinGroups (nodeState demo_node2)) (narrow 1) \<noteq> None"
    by (simp add: demo_node2_def)
  ultimately show ?thesis
    using spark_cover_set_agrees[OF demo_reaches(2), where gid = 1 and maxHeight = 1] by simp
qed

end
