(* ===== verification/Compress.thy ===== *)
theory Compress
  imports Coins
begin

text \<open>
  The compact formats of the coins database and of the undo files: amounts and scripts (\<open>src/src/compressor.h\<close>, \<open>compressor.cpp\<close>), coins
  (\<open>src/src/coins.h\<close>) and undo information (\<open>src/src/undo.h\<close>). Amounts are 64 bits wide where they are compressed. Parsing a public key and
  writing it uncompressed belong to the elliptic curve library and are the fields of \<open>key_library\<close>; a key is the bytes that \<open>CPubKey\<close> holds, or
  none if it is invalid. The bit field of 31 bits for the height is promoted to \<open>int\<close> where it is doubled.
\<close>

section \<open>Public keys\<close>

record 'k key_library =
  secp256k1_ec_pubkey_parse :: "bytes \<Rightarrow> 'k option"
  secp256k1_ec_pubkey_serialize :: "'k \<Rightarrow> bytes"

definition GetLen :: "byte \<Rightarrow> nat" where
  "GetLen chHeader =
     (if chHeader = 2 \<or> chHeader = 3 then 33
      else if chHeader = 4 \<or> chHeader = 6 \<or> chHeader = 7 then 65
      else 0)"

definition PubKey_Set :: "bytes \<Rightarrow> bytes option" where
  "PubKey_Set pub = (let len = (if pub = [] then 0 else GetLen (hd pub)) in if len \<noteq> 0 \<and> len = length pub then Some pub else None)"

definition IsFullyValid :: "'k key_library \<Rightarrow> bytes option \<Rightarrow> bool" where
  "IsFullyValid L pubkey = (case pubkey of None \<Rightarrow> False | Some pub \<Rightarrow> secp256k1_ec_pubkey_parse L pub \<noteq> None)"

definition PubKey_Decompress :: "'k key_library \<Rightarrow> bytes option \<Rightarrow> bytes option option" where
  "PubKey_Decompress L pubkey =
     (case pubkey of
        None \<Rightarrow> None
      | Some pub \<Rightarrow>
          (case secp256k1_ec_pubkey_parse L pub of
             None \<Rightarrow> None
           | Some k \<Rightarrow> Some (PubKey_Set (secp256k1_ec_pubkey_serialize L k))))"

section \<open>Scripts\<close>

definition IsToKeyID :: "bytes \<Rightarrow> bytes option" where
  "IsToKeyID script =
     (if length script = 25 \<and> script ! 0 = OP_DUP \<and> script ! 1 = OP_HASH160 \<and> script ! 2 = 20 \<and> script ! 23 = OP_EQUALVERIFY \<and> script ! 24 = OP_CHECKSIG
      then Some (take 20 (drop 3 script)) else None)"

definition IsToScriptID :: "bytes \<Rightarrow> bytes option" where
  "IsToScriptID script =
     (if length script = 23 \<and> script ! 0 = OP_HASH160 \<and> script ! 1 = 20 \<and> script ! 22 = OP_EQUAL
      then Some (take 20 (drop 2 script)) else None)"

definition IsToPubKey :: "'k key_library \<Rightarrow> bytes \<Rightarrow> bytes option" where
  "IsToPubKey L script =
     (if length script = 35 \<and> script ! 0 = 33 \<and> script ! 34 = OP_CHECKSIG \<and> (script ! 1 = 0x02 \<or> script ! 1 = 0x03)
      then PubKey_Set (take 33 (drop 1 script))
      else if length script = 67 \<and> script ! 0 = 65 \<and> script ! 66 = OP_CHECKSIG \<and> script ! 1 = 0x04
      then let pubkey = PubKey_Set (take 65 (drop 1 script)) in if IsFullyValid L pubkey then pubkey else None
      else None)"

definition Compress :: "'k key_library \<Rightarrow> bytes \<Rightarrow> bytes option" where
  "Compress L script =
     (case IsToKeyID script of
        Some keyID \<Rightarrow> Some (0x00 # keyID)
      | None \<Rightarrow>
          (case IsToScriptID script of
             Some scriptID \<Rightarrow> Some (0x01 # scriptID)
           | None \<Rightarrow>
               (case IsToPubKey L script of
                  Some pubkey \<Rightarrow>
                    if pubkey ! 0 = 0x02 \<or> pubkey ! 0 = 0x03 then Some (pubkey ! 0 # take 32 (drop 1 pubkey))
                    else if pubkey ! 0 = 0x04 then Some ((0x04 OR (pubkey ! 64 AND 0x01)) # take 32 (drop 1 pubkey))
                    else None
                | None \<Rightarrow> None)))"

definition GetSpecialSize :: "u32 \<Rightarrow> nat" where
  "GetSpecialSize nSize =
     (if nSize = 0 \<or> nSize = 1 then 20
      else if nSize = 2 \<or> nSize = 3 \<or> nSize = 4 \<or> nSize = 5 then 32
      else 0)"

text \<open>The new script, or the old one where nothing could be decompressed; the size of an uncompressed key is asserted.\<close>

definition Decompress :: "'k key_library \<Rightarrow> u32 \<Rightarrow> bytes \<Rightarrow> bytes \<Rightarrow> ser_error + bytes" where
  "Decompress L nSize inp script =
     (if nSize = 0 then Inr ([OP_DUP, OP_HASH160, 20] @ take 20 inp @ [OP_EQUALVERIFY, OP_CHECKSIG])
      else if nSize = 1 then Inr ([OP_HASH160, 20] @ take 20 inp @ [OP_EQUAL])
      else if nSize = 2 \<or> nSize = 3 then Inr ([33, ucast nSize] @ take 32 inp @ [OP_CHECKSIG])
      else if nSize = 4 \<or> nSize = 5 then
        (case PubKey_Decompress L (PubKey_Set (ucast (nSize - 2) # take 32 inp)) of
           None \<Rightarrow> Inr script
         | Some pubkey \<Rightarrow>
             (case pubkey of
                Some pub \<Rightarrow> if length pub \<noteq> 65 then Inl AssertKeySize else Inr (65 # pub @ [OP_CHECKSIG])
              | None \<Rightarrow> Inl AssertKeySize))
      else Inr script)"

abbreviation (input) nSpecialScripts :: u32 where "nSpecialScripts \<equiv> 6"

definition ScriptCompressor_Serialize :: "'k key_library \<Rightarrow> bytes \<Rightarrow> bytes" where
  "ScriptCompressor_Serialize L script =
     (case Compress L script of
        Some compr \<Rightarrow> compr
      | None \<Rightarrow> WriteVarInt (of_nat (length script) + nSpecialScripts) @ script)"

text \<open>The number of bytes that are passed over is an \<open>int\<close>.\<close>

definition ScriptCompressor_Unserialize :: "'k key_library \<Rightarrow> bytes \<Rightarrow> bytes reader" where
  "ScriptCompressor_Unserialize L script s =
     bindE (ReadVarInt s) (\<lambda>(nSize, s).
       if nSize < nSpecialScripts
       then bindE (read_bytes (GetSpecialSize nSize) s) (\<lambda>(pub, s). bindE (Decompress L nSize pub script) (\<lambda>script. Inr (script, s)))
       else let nSize = nSize - nSpecialScripts
            in if unat nSize > MAX_SCRIPT_SIZE
               then if sint nSize < 0 then Inl (Stream NegativeSize)
                    else bindE (read_bytes (unat nSize) s) (\<lambda>(_, s). Inr (script @ [OP_RETURN], s))
               else read_bytes (unat nSize) s)"

section \<open>Amounts\<close>

function compress_loop :: "u64 \<Rightarrow> nat \<Rightarrow> u64 \<times> nat" where
  "compress_loop n e = (if n mod 10 = 0 \<and> e < 9 then compress_loop (n div 10) (e + 1) else (n, e))"
  by auto
termination
  by (relation "measure (\<lambda>(n, e). 9 - e)") auto

declare compress_loop.simps [simp del]

text \<open>The last digit is asserted to be between 1 and 9; it is, as the loop has ended.\<close>

definition CompressAmount :: "u64 \<Rightarrow> ser_error + u64" where
  "CompressAmount n =
     (if n = 0 then Inr 0
      else case compress_loop n 0 of (n, e) \<Rightarrow>
        if e < 9 then
          let d = n mod 10
          in if d < 1 \<or> d > 9 then Inl AssertDigit else Inr (1 + (n div 10 * 9 + d - 1) * 10 + of_nat e)
        else Inr (1 + (n - 1) * 10 + 9))"

primrec power_loop :: "nat \<Rightarrow> u64 \<Rightarrow> u64" where
  "power_loop 0 n = n"
| "power_loop (Suc e) n = power_loop e (n * 10)"

definition DecompressAmount :: "u64 \<Rightarrow> u64" where
  "DecompressAmount x =
     (if x = 0 then 0
      else let x = x - 1; e = unat (x mod 10); x = x div 10
           in power_loop e (if e < 9 then x div 9 * 10 + (x mod 9 + 1) else x + 1))"

section \<open>Outputs, coins and undo information\<close>

definition TxOutCompressor_Serialize :: "'k key_library \<Rightarrow> CTxOut \<Rightarrow> ser_error + bytes" where
  "TxOutCompressor_Serialize L out =
     bindE (CompressAmount (word_of_int (nValue out))) (\<lambda>nVal. Inr (WriteVarInt nVal @ ScriptCompressor_Serialize L (scriptPubKey out)))"

definition TxOutCompressor_Unserialize :: "'k key_library \<Rightarrow> CTxOut \<Rightarrow> CTxOut reader" where
  "TxOutCompressor_Unserialize L out s =
     bindE (ReadVarInt s) (\<lambda>(nVal, s).
     bindE (ScriptCompressor_Unserialize L (scriptPubKey out) s) (\<lambda>(script, s).
       Inr (out\<lparr>nValue := sint (DecompressAmount nVal), scriptPubKey := script\<rparr>, s)))"

text \<open>A height from \<open>2 ^ 30\<close> on overflows when it is doubled.\<close>

definition coin_code :: "Coin \<Rightarrow> ser_error + u32" where
  "coin_code c = (if coinHeight c \<ge> 2 ^ 30 then Inl SignedOverflow else Inr (of_nat (coinHeight c * 2 + of_bool (fCoinBase c))))"

definition Coin_Serialize :: "'k key_library \<Rightarrow> Coin \<Rightarrow> ser_error + bytes" where
  "Coin_Serialize L c =
     (if IsSpent c then Inl AssertUnspent
      else bindE (coin_code c) (\<lambda>code. bindE (TxOutCompressor_Serialize L (coinOut c)) (\<lambda>out. Inr (WriteVarInt code @ out))))"

definition Coin_Unserialize :: "'k key_library \<Rightarrow> Coin \<Rightarrow> Coin reader" where
  "Coin_Unserialize L c s =
     bindE (ReadVarInt s) (\<lambda>(code :: u32, s).
     bindE (TxOutCompressor_Unserialize L (coinOut c) s) (\<lambda>(out, s).
       Inr (c\<lparr>coinHeight := unat (drop_bit 1 code), fCoinBase := (code AND 1 \<noteq> 0), coinOut := out\<rparr>, s)))"

definition TxInUndoSerializer_Serialize :: "'k key_library \<Rightarrow> Coin \<Rightarrow> ser_error + bytes" where
  "TxInUndoSerializer_Serialize L c =
     bindE (coin_code c) (\<lambda>code. bindE (TxOutCompressor_Serialize L (coinOut c)) (\<lambda>out.
       Inr (WriteVarInt code @ (if coinHeight c > 0 then ser_writedata8 0 else []) @ out)))"

text \<open>The version that older files have for a height above 0 is read and dropped.\<close>

definition TxInUndoDeserializer_Unserialize :: "'k key_library \<Rightarrow> Coin \<Rightarrow> Coin reader" where
  "TxInUndoDeserializer_Unserialize L c s =
     bindE (ReadVarInt s) (\<lambda>(nCode :: u32, s).
     bindE (if unat (nCode div 2) > 0 then bindE (ReadVarInt s) (\<lambda>(nVersionDummy :: u32, s). Inr s) else Inr s) (\<lambda>s.
     bindE (TxOutCompressor_Unserialize L (coinOut c) s) (\<lambda>(out, s).
       Inr (c\<lparr>coinHeight := unat (nCode div 2), fCoinBase := (nCode AND 1 \<noteq> 0), coinOut := out\<rparr>, s))))"

abbreviation (input) MAX_INPUTS_PER_BLOCK :: nat where "MAX_INPUTS_PER_BLOCK \<equiv> 2000000 div 41"

primrec concat_ser :: "('a \<Rightarrow> ser_error + bytes) \<Rightarrow> 'a list \<Rightarrow> ser_error + bytes" where
  "concat_ser ser [] = Inr []"
| "concat_ser ser (x # xs) = bindE (ser x) (\<lambda>b. bindE (concat_ser ser xs) (\<lambda>bs. Inr (b @ bs)))"

definition CTxUndo_Serialize :: "'k key_library \<Rightarrow> Coin list \<Rightarrow> ser_error + bytes" where
  "CTxUndo_Serialize L vprevout =
     bindE (concat_ser (TxInUndoSerializer_Serialize L) vprevout) (\<lambda>bs. Inr (WriteCompactSize (of_nat (length vprevout)) @ bs))"

definition CTxUndo_Unserialize :: "'k key_library \<Rightarrow> Coin list reader" where
  "CTxUndo_Unserialize L s =
     bindE (ReadCompactSize s) (\<lambda>(count, s).
       if unat count > MAX_INPUTS_PER_BLOCK then Inl TooManyInputs
       else vector_loop (TxInUndoDeserializer_Unserialize L coinEmpty) (unat count) s)"

definition CBlockUndo_Serialize :: "'k key_library \<Rightarrow> Coin list list \<Rightarrow> ser_error + bytes" where
  "CBlockUndo_Serialize L vtxundo =
     bindE (concat_ser (CTxUndo_Serialize L) vtxundo) (\<lambda>bs. Inr (WriteCompactSize (of_nat (length vtxundo)) @ bs))"

definition CBlockUndo_Unserialize :: "'k key_library \<Rightarrow> Coin list list reader" where
  "CBlockUndo_Unserialize L = Unserialize_vector (CTxUndo_Unserialize L)"

end
