(* ===== verification/CompressProps.thy ===== *)
theory CompressProps
  imports Compress
begin

text \<open>
  The compact formats read back what they were written from: amounts, scripts, outputs, coins and undo information.
\<close>

section \<open>Amounts\<close>

lemma unat_of_u64: "y < 2 ^ 64 \<Longrightarrow> unat (of_nat y :: u64) = y"
  by (simp add: unat_of_nat)

lemma unat_u64: "unat (n :: u64) < 2 ^ 64"
  using unat_bound[of n] by simp

lemma u64_div: "(n :: u64) div of_nat k = of_nat (unat n div k)" "n mod of_nat k = of_nat (unat n mod k)" if "k < 2 ^ 64"
  using that unat_u64[of n] unat_of_u64[of k] unat_of_u64[of "unat n div k"] unat_of_u64[of "unat n mod k"]
    order_le_less_trans[OF div_le_dividend[of "unat n" k]] order_le_less_trans[OF mod_less_eq_dividend[of "unat n" k]]
  by (simp_all add: word_unat_eq_iff unat_div unat_mod)

lemmas of_nat_unat_ops = u64_div[of 10, simplified] u64_div[of 9, simplified]

lemma compress_loop_result:
  assumes "compress_loop n e = (m, f)" "e \<le> 9"
  shows "unat n * 10 ^ e = unat m * 10 ^ f \<and> f \<le> 9 \<and> (f < 9 \<longrightarrow> unat m mod 10 \<noteq> 0)"
  using assms
proof (induction n e rule: compress_loop.induct)
  case (1 n e)
  show ?case
  proof (cases "n mod 10 = 0 \<and> e < 9")
    case True
    then have "unat (n mod 10) = 0" by simp
    then have "unat n mod 10 = 0" by (simp add: unat_mod del: unsigned_eq_0_iff)
    then have "unat n = unat (n div 10) * 10"
      by (auto simp: unat_div)
    then show ?thesis
      using 1 True by (subst (asm) compress_loop.simps) auto
  next
    case False
    have "unat n mod 10 = 0 \<Longrightarrow> n mod 10 = 0"
      by (simp add: of_nat_unat_ops)
    then show ?thesis
      using 1 False by (subst (asm) (2) compress_loop.simps) auto
  qed
qed

lemma power_loop_of_nat: "power_loop e (of_nat n) = of_nat (n * 10 ^ e)"
proof (induction e arbitrary: n)
  case (Suc e)
  have "power_loop (Suc e) (of_nat n) = power_loop e (of_nat (n * 10))" by simp
  then show ?case
    using Suc[of "n * 10"] by (simp add: mult.assoc)
qed simp

definition decompressed :: "nat \<Rightarrow> nat" where
  "decompressed x = (if x mod 10 < 9 then x div 10 div 9 * 10 + (x div 10 mod 9 + 1) else x div 10 + 1)"

lemma DecompressAmount_of_nat:
  assumes "x + 1 < 2 ^ 64"
  shows "DecompressAmount (of_nat (x + 1)) = of_nat (decompressed x * 10 ^ (x mod 10))"
proof -
  have x: "(of_nat (x + 1) :: u64) \<noteq> 0" "(of_nat (x + 1) :: u64) - 1 = of_nat x"
    using unat_of_u64[OF assms] by (auto simp: word_unat_eq_iff)
  have u: "unat (of_nat x :: u64) = x" "unat (of_nat (x div 10) :: u64) = x div 10" "unat (of_nat (x mod 10) :: u64) = x mod 10"
    using assms by (auto intro!: unat_of_u64 order_less_trans[OF mod_less_divisor])
  note ops = of_nat_unat_ops(1,2)[of "of_nat x", unfolded u(1)] of_nat_unat_ops(3,4)[of "of_nat (x div 10)", unfolded u(2)]
  have "DecompressAmount (of_nat (x + 1)) = power_loop (x mod 10)
      (if x mod 10 < 9 then of_nat (x div 10 div 9) * 10 + (of_nat (x div 10 mod 9) + 1) else of_nat (x div 10) + 1)"
    unfolding DecompressAmount_def Let_def x(2) ops u(3) using x(1) by (simp only: if_False)
  also have "\<dots> = power_loop (x mod 10) (of_nat (decompressed x))"
    by (simp add: decompressed_def ac_simps)
  finally show ?thesis
    by (simp only: power_loop_of_nat)
qed

lemma CompressAmount_of_nat:
  assumes "n \<noteq> 0" "compress_loop n 0 = (m, e)" "e < 9 \<Longrightarrow> unat m mod 10 \<noteq> 0" "0 < unat m"
  shows "CompressAmount n = Inr (of_nat ((if e < 9 then (unat m div 10 * 9 + (unat m mod 10 - 1)) * 10 + e else (unat m - 1) * 10 + 9) + 1))"
proof (cases "e < 9")
  case True
  have d: "unat (m mod 10) = unat m mod 10"
    by (simp add: unat_mod)
  then have "\<not> (m mod 10 < 1 \<or> m mod 10 > 9)"
    using assms(3)[OF True] by (simp add: word_less_nat_alt)
  then have "CompressAmount n = Inr (1 + (m div 10 * 9 + m mod 10 - 1) * 10 + of_nat e)"
    using assms(1,2) True by (simp add: CompressAmount_def Let_def)
  moreover obtain q where q: "unat m mod 10 = Suc q"
    using assms(3)[OF True] not0_implies_Suc by blast
  moreover have "m mod 10 = of_nat q + 1" "m div 10 = of_nat (unat m div 10)"
    using of_nat_unat_ops(1,2)[of m] by (simp_all add: q)
  ultimately show ?thesis
    using True by (simp add: algebra_simps)
next
  case False
  then show ?thesis
    using assms by (simp add: CompressAmount_def of_nat_diff algebra_simps)
qed

lemma last_digit: "e < 10 \<Longrightarrow> (b * 10 + e) mod 10 = e" "e < 10 \<Longrightarrow> (b * 10 + e) div 10 = b"
  for b e :: nat
  by simp_all

lemma decompressed_inverts:
  assumes "e \<le> 9" "e < 9 \<Longrightarrow> k mod 10 \<noteq> 0" "0 < k"
  defines "x \<equiv> (if e < 9 then (k div 10 * 9 + (k mod 10 - 1)) * 10 + e else (k - 1) * 10 + 9)"
  shows "x mod 10 = e \<and> decompressed x = k"
proof (cases "e < 9")
  case True
  obtain q where q: "k mod 10 = Suc q"
    using assms(2)[OF True] not0_implies_Suc by blast
  then have "q < 9" "k = k div 10 * 10 + Suc q"
    using mod_less_divisor[of 10 k] div_mult_mod_eq[of k 10] by simp_all
  moreover have "x = (k div 10 * 9 + q) * 10 + e"
    using True by (simp add: x_def q)
  then have "x mod 10 = e" "x div 10 = k div 10 * 9 + q"
    using True last_digit[of e "k div 10 * 9 + q"] by (simp_all only: order_less_trans[of e 9 10])
  ultimately show ?thesis
    using True by (simp add: decompressed_def)
next
  case False
  then have "x mod 10 = 9" "x div 10 = k - 1" "e = 9"
    using assms(1) by (simp_all add: x_def)
  then show ?thesis
    using assms(3) by (simp add: decompressed_def)
qed

lemma amount_round_trip:
  assumes "unat n \<le> 2 ^ 60"
  shows "\<exists>x. CompressAmount n = Inr x \<and> DecompressAmount x = n"
proof (cases "n = 0")
  case True
  then show ?thesis by (simp add: CompressAmount_def DecompressAmount_def)
next
  case False
  obtain m e where l: "compress_loop n 0 = (m, e)" by fastforce
  define k where "k = unat m"
  define x where "x = (if e < 9 then (k div 10 * 9 + (k mod 10 - 1)) * 10 + e else (k - 1) * 10 + 9)"
  have r: "unat n = k * 10 ^ e" "e \<le> 9" "e < 9 \<Longrightarrow> k mod 10 \<noteq> 0"
    using compress_loop_result[OF l] by (auto simp: k_def)
  have "unat n \<noteq> 0"
    using False by (simp add: unsigned_eq_0_iff)
  then have "0 < k"
    using r(1) by auto
  have "k * 1 \<le> k * 10 ^ e"
    by (rule mult_le_mono2) simp
  then have bound: "k \<le> 2 ^ 60"
    using assms unfolding r(1) mult_1_right by (rule order_trans)
  have "x mod 10 = e" "decompressed x = k"
    using decompressed_inverts[OF r(2,3) \<open>0 < k\<close>] by (simp_all add: x_def)
  moreover have "x + 1 < 2 ^ 64"
    using bound r(2) by (auto simp: x_def)
  ultimately have "DecompressAmount (of_nat (x + 1)) = n"
    using DecompressAmount_of_nat[of x] by (simp flip: r(1) del: of_nat_add)
  moreover have "CompressAmount n = Inr (of_nat (x + 1))"
    using CompressAmount_of_nat[OF False l] r(3) \<open>0 < k\<close> unfolding x_def k_def by blast
  ultimately show ?thesis by blast
qed

section \<open>Scripts\<close>

text \<open>What the elliptic curve library promises: the compressed form of a key is parsed to the same point, and the uncompressed form of the point is the key.\<close>

definition key_law :: "'k key_library \<Rightarrow> bool" where
  "key_law L \<longleftrightarrow> (\<forall>pub k. length pub = 65 \<and> pub ! 0 = 4 \<and> secp256k1_ec_pubkey_parse L pub = Some k \<longrightarrow>
     secp256k1_ec_pubkey_parse L ((2 OR (pub ! 64 AND 1)) # take 32 (drop 1 pub)) = Some k \<and> secp256k1_ec_pubkey_serialize L k = pub)"

lemma firsts: "1 \<le> length s \<Longrightarrow> take 1 s = [s ! 0]" "2 \<le> length s \<Longrightarrow> take 2 s = [s ! 0, s ! 1]" "3 \<le> length s \<Longrightarrow> take 3 s = [s ! 0, s ! 1, s ! 2]"
  by (cases s; simp; cases "tl s"; simp; cases "tl (tl s)"; simp)+

lemma lasts: "length s = Suc n \<Longrightarrow> drop n s = [s ! n]" "length s = Suc (Suc n) \<Longrightarrow> drop n s = [s ! n, s ! Suc n]"
  by (simp_all flip: Cons_nth_drop_Suc)

lemma split3: "s = take a s @ take b (drop a s) @ drop (a + b) s"
  by (metis append_take_drop_id drop_drop add.commute)

lemma IsToKeyID_script: "IsToKeyID script = Some h \<Longrightarrow> script = [OP_DUP, OP_HASH160, 20] @ h @ [OP_EQUALVERIFY, OP_CHECKSIG] \<and> length h = 20"
  using split3[of script 3 20] firsts(3)[of script] lasts(2)[of script 23] by (auto simp: IsToKeyID_def split: if_splits)

lemma IsToScriptID_script: "IsToScriptID script = Some h \<Longrightarrow> script = [OP_HASH160, 20] @ h @ [OP_EQUAL] \<and> length h = 20"
  using split3[of script 2 20] firsts(2)[of script] lasts(1)[of script 22] by (auto simp: IsToScriptID_def split: if_splits)

lemma IsToPubKey_script:
  assumes "IsToPubKey L script = Some k"
  shows "script = of_nat (length k) # k @ [OP_CHECKSIG] \<and> (length k = 33 \<and> (k ! 0 = 2 \<or> k ! 0 = 3) \<or> length k = 65 \<and> k ! 0 = 4 \<and> IsFullyValid L (Some k))"
proof -
  have "PubKey_Set x = Some k \<Longrightarrow> k = x" for x
    by (auto simp: PubKey_Set_def Let_def split: if_splits)
  then have "length script = 35 \<and> script ! 0 = 33 \<and> script ! 34 = OP_CHECKSIG \<and> (script ! 1 = 2 \<or> script ! 1 = 3) \<and> k = take 33 (drop 1 script) \<or>
      length script = 67 \<and> script ! 0 = 65 \<and> script ! 66 = OP_CHECKSIG \<and> script ! 1 = 4 \<and> k = take 65 (drop 1 script) \<and> IsFullyValid L (Some k)"
    using assms by (auto simp: IsToPubKey_def Let_def split: if_splits)
  then show ?thesis
    using split3[of script 1 33] split3[of script 1 65] firsts(1)[of script] lasts(1)[of script 34] lasts(1)[of script 66] by auto
qed

lemma ReadVarInt_special: "b \<in> {0, 1, 2, 3, 4, 5} \<Longrightarrow> ReadVarInt (b # s) = Inr (ucast b :: u32, s)"
  by (auto simp: ReadVarInt_def)

lemma last_bit: "(x :: byte) AND 1 = 0 \<or> x AND 1 = 1"
  by (simp add: and_one_eq) (metis parity_cases)

lemma compressed_key_back:
  assumes "key_law L" "length k = 65" "k ! 0 = 4" "IsFullyValid L (Some k)"
  defines "b \<equiv> 4 OR (k ! 64 AND 1)"
  shows "b \<in> {4, 5} \<and> Decompress L (ucast b) (take 32 (drop 1 k)) s = Inr (65 # k @ [OP_CHECKSIG])"
proof -
  obtain q where q: "secp256k1_ec_pubkey_parse L k = Some q"
    using assms(4) by (auto simp: IsFullyValid_def)
  have law: "secp256k1_ec_pubkey_parse L ((2 OR (k ! 64 AND 1)) # take 32 (drop 1 k)) = Some q" "secp256k1_ec_pubkey_serialize L q = k"
    using assms(1-3) q unfolding key_law_def by blast+
  have b: "b \<in> {4, 5}" "ucast (ucast b - 2 :: u32) = (2 OR (k ! 64 AND 1) :: byte)" "GetLen (2 OR (k ! 64 AND 1)) = 33"
    using last_bit[of "k ! 64"] by (auto simp: b_def GetLen_def)
  have "PubKey_Set k = Some k"
    using assms(2,3) by (cases k) (auto simp: PubKey_Set_def GetLen_def)
  moreover have "PubKey_Set ((2 OR (k ! 64 AND 1)) # take 32 (drop 1 k)) = Some ((2 OR (k ! 64 AND 1)) # take 32 (drop 1 k))"
    using b(3) assms(2) by (simp add: PubKey_Set_def)
  ultimately have "PubKey_Decompress L (PubKey_Set (ucast (ucast b - 2 :: u32) # take 32 (drop 1 k))) = Some (Some k)"
    using law by (simp add: b(2) PubKey_Decompress_def)
  then show ?thesis
    using b(1) assms(2) by (auto simp: Decompress_def)
qed

lemma special_read:
  assumes "b \<in> {0, 1, 2, 3, 4, 5}" "length d = GetSpecialSize (ucast b)" "Decompress L (ucast b) d s0 = Inr script"
  shows "ScriptCompressor_Unserialize L s0 (b # d @ r) = Inr (script, r)"
proof -
  have "(ucast b :: u32) < 6"
    using assms(1) by auto
  then show ?thesis
    using assms(2,3) ReadVarInt_special[OF assms(1), of "d @ r"] by (simp add: ScriptCompressor_Unserialize_def read_bytes_append)
qed

lemma compressed_script_back:
  assumes "key_law L" "Compress L script = Some c"
  shows "ScriptCompressor_Unserialize L s0 (c @ r) = Inr (script, r)"
proof -
  consider h where "IsToKeyID script = Some h" "c = 0 # h" | h where "IsToScriptID script = Some h" "c = 1 # h"
    | k where "IsToPubKey L script = Some k" "k ! 0 = 2 \<or> k ! 0 = 3" "c = k ! 0 # take 32 (drop 1 k)"
    | k where "IsToPubKey L script = Some k" "k ! 0 = 4" "c = (4 OR (k ! 64 AND 1)) # take 32 (drop 1 k)"
    using assms(2) by (auto simp: Compress_def split: option.splits if_splits)
  then show ?thesis
  proof cases
    case (1 h)
    then show ?thesis
      using IsToKeyID_script[OF 1(1)] special_read[of 0 h L s0 script r] by (simp add: GetSpecialSize_def Decompress_def)
  next
    case (2 h)
    then show ?thesis
      using IsToScriptID_script[OF 2(1)] special_read[of 1 h L s0 script r] by (simp add: GetSpecialSize_def Decompress_def)
  next
    case (3 k)
    have k: "script = of_nat (length k) # k @ [OP_CHECKSIG]" "length k = 33"
      using IsToPubKey_script[OF 3(1)] 3(2) by auto
    then obtain d where "k = k ! 0 # d" "length d = 32" by (cases k) auto
    then show ?thesis
      using 3 k special_read[of "k ! 0" d L s0 script r] by (auto simp: GetSpecialSize_def Decompress_def)
  next
    case (4 k)
    have k: "script = of_nat (length k) # k @ [OP_CHECKSIG]" "length k = 65" "IsFullyValid L (Some k)"
      using IsToPubKey_script[OF 4(1)] 4(2) by auto
    then show ?thesis
      using 4 compressed_key_back[OF assms(1) k(2) 4(2) k(3), of s0] special_read[of "4 OR (k ! 64 AND 1)" "take 32 (drop 1 k)" L s0 script r]
      by (auto simp: GetSpecialSize_def)
  qed
qed

lemma unat_of_u32: "y < 2 ^ 32 \<Longrightarrow> unat (of_nat y :: u32) = y"
  by (simp add: unat_of_nat)

lemma script_round_trip:
  assumes "key_law L" "length script \<le> MAX_SCRIPT_SIZE"
  shows "ScriptCompressor_Unserialize L s0 (ScriptCompressor_Serialize L script @ r) = Inr (script, r)"
proof (cases "Compress L script")
  case None
  have n: "unat (of_nat (length script) :: u32) = length script" "unat (of_nat (length script) + 6 :: u32) = length script + 6"
    using assms(2) unat_of_u32[of "length script"] unat_of_u32[of "length script + 6"] by simp_all
  then have "\<not> (of_nat (length script) + 6 :: u32) < 6"
    by (simp add: word_less_nat_alt)
  then show ?thesis
    using None assms(2) n(1) by (simp add: ScriptCompressor_Serialize_def ScriptCompressor_Unserialize_def ReadVarInt_WriteVarInt Let_def read_bytes_append)
next
  case (Some c)
  then show ?thesis
    using compressed_script_back[OF assms(1) Some] by (simp add: ScriptCompressor_Serialize_def)
qed

section \<open>Coins\<close>

text \<open>The number of rounds of an output is not written; it has its initial value.\<close>

definition out_ok :: "CTxOut \<Rightarrow> bool" where
  "out_ok out \<longleftrightarrow> 0 \<le> nValue out \<and> nValue out \<le> 2 ^ 60 \<and> nRounds out = nRounds TxOut_null \<and> length (scriptPubKey out) \<le> MAX_SCRIPT_SIZE"

lemma txout_back:
  assumes "key_law L" "out_ok out"
  shows "\<exists>b. TxOutCompressor_Serialize L out = Inr b \<and>
    (\<forall>r out0. nRounds out0 = nRounds TxOut_null \<longrightarrow> TxOutCompressor_Unserialize L out0 (b @ r) = Inr (out, r))"
proof -
  have v: "0 \<le> nValue out" "nValue out \<le> 2 ^ 60"
    using assms(2) by (simp_all add: out_ok_def)
  have u: "uint (word_of_int (nValue out) :: u64) = nValue out" "sint (word_of_int (nValue out) :: u64) = nValue out"
    using v sint_u64[of "nValue out"] by (simp_all add: uint_word_of_int)
  then have "unat (word_of_int (nValue out) :: u64) \<le> 2 ^ 60"
    using v(2) by (simp add: unat_eq_nat_uint nat_le_iff)
  then obtain x where x: "CompressAmount (word_of_int (nValue out)) = Inr x" "DecompressAmount x = word_of_int (nValue out)"
    using amount_round_trip by blast
  have "out0\<lparr>nValue := nValue out, scriptPubKey := scriptPubKey out\<rparr> = out" if "nRounds out0 = nRounds TxOut_null" for out0
    using that assms(2) by (cases out; cases out0) (simp add: out_ok_def)
  then show ?thesis
    using x u(2) script_round_trip[OF assms(1), of "scriptPubKey out"] assms(2)
    by (auto simp: TxOutCompressor_Serialize_def TxOutCompressor_Unserialize_def ReadVarInt_WriteVarInt out_ok_def)
qed

lemma coin_code_back:
  assumes "coinHeight c < 2 ^ 30"
  shows "\<exists>code. coin_code c = Inr code \<and> unat (drop_bit 1 code) = coinHeight c \<and> unat (code div 2) = coinHeight c \<and> (code AND 1 \<noteq> 0 \<longleftrightarrow> fCoinBase c)"
proof -
  define n where "n = coinHeight c * 2 + of_bool (fCoinBase c)"
  have u: "unat (of_nat n :: u32) = n"
    using assms by (intro unat_of_u32) (auto simp: n_def)
  have "unat (of_nat n AND 1 :: u32) = n mod 2"
    by (simp add: and_one_eq unat_mod u)
  then have "(of_nat n :: u32) AND 1 \<noteq> 0 \<longleftrightarrow> n mod 2 \<noteq> 0"
    by (metis unsigned_0 unsigned_eq_0_iff)
  then have "(of_nat n :: u32) AND 1 \<noteq> 0 \<longleftrightarrow> fCoinBase c"
    by (simp add: n_def)
  moreover have "unat (of_nat n div 2 :: u32) = coinHeight c" "unat (drop_bit 1 (of_nat n) :: u32) = coinHeight c"
    using u by (simp_all add: unat_div drop_bit_Suc n_def)
  ultimately show ?thesis
    using assms by (simp add: coin_code_def n_def)
qed

definition coin_ok :: "Coin \<Rightarrow> bool" where
  "coin_ok c \<longleftrightarrow> coinHeight c < 2 ^ 30 \<and> out_ok (coinOut c)"

lemma coin_eqI: "c0\<lparr>coinHeight := coinHeight c, fCoinBase := fCoinBase c, coinOut := coinOut c\<rparr> = c"
  for c c0 :: Coin
  by (cases c; cases c0) simp

lemma undo_coin_codec:
  assumes "key_law L" "coin_ok c"
  shows "\<exists>b. TxInUndoSerializer_Serialize L c = Inr b \<and> (\<forall>r. TxInUndoDeserializer_Unserialize L coinEmpty (b @ r) = Inr (c, r))"
proof -
  obtain code where code: "coin_code c = Inr code" "unat (code div 2) = coinHeight c" "code AND 1 \<noteq> 0 \<longleftrightarrow> fCoinBase c"
    using coin_code_back assms(2) by (auto simp: coin_ok_def)
  obtain b where b: "TxOutCompressor_Serialize L (coinOut c) = Inr b" "\<And>r. TxOutCompressor_Unserialize L (coinOut coinEmpty) (b @ r) = Inr (coinOut c, r)"
    using txout_back[OF assms(1), of "coinOut c"] assms(2) by (auto simp: coin_ok_def coinEmpty_def)
  show ?thesis
  proof (cases "coinHeight c > 0")
    case True
    then show ?thesis
      using code b ReadVarInt_special[of 0]
      by (simp add: TxInUndoSerializer_Serialize_def TxInUndoDeserializer_Unserialize_def ReadVarInt_WriteVarInt ser_writedata8_def coin_eqI)
  next
    case False
    then show ?thesis
      using code b coin_eqI[of coinEmpty c]
      by (simp add: TxInUndoSerializer_Serialize_def TxInUndoDeserializer_Unserialize_def ReadVarInt_WriteVarInt)
  qed
qed

section \<open>Undo information\<close>

definition written :: "('a \<Rightarrow> ser_error + bytes) \<Rightarrow> 'a \<Rightarrow> bytes" where
  "written ser x = (case ser x of Inr b \<Rightarrow> b | Inl _ \<Rightarrow> [])"

lemma concat_ser_written: "(\<And>x. x \<in> set xs \<Longrightarrow> \<exists>b. ser x = Inr b) \<Longrightarrow> concat_ser ser xs = Inr (concat (map (written ser) xs))"
proof (induction xs)
  case (Cons x xs)
  obtain b where "ser x = Inr b"
    using Cons.prems[of x] by auto
  then show ?case
    using Cons by (simp add: written_def)
qed simp

lemma undo_coins_codec:
  assumes "key_law L"
  shows "codec (written (TxInUndoSerializer_Serialize L)) (TxInUndoDeserializer_Unserialize L coinEmpty) coin_ok"
  using undo_coin_codec[OF assms] by unfold_locales (fastforce simp: written_def)

definition tx_undo_ok :: "Coin list \<Rightarrow> bool" where
  "tx_undo_ok u \<longleftrightarrow> length u \<le> MAX_INPUTS_PER_BLOCK \<and> list_all coin_ok u"

lemma tx_undo_written:
  assumes "key_law L" "tx_undo_ok u"
  shows "CTxUndo_Serialize L u = Inr (Serialize_vector (written (TxInUndoSerializer_Serialize L)) u)"
proof -
  have "concat_ser (TxInUndoSerializer_Serialize L) u = Inr (concat (map (written (TxInUndoSerializer_Serialize L)) u))"
    using assms(2) undo_coin_codec[OF assms(1)] by (intro concat_ser_written) (metis tx_undo_ok_def list_all_iff)
  then show ?thesis
    by (simp add: CTxUndo_Serialize_def Serialize_vector_def)
qed

lemma tx_undo_codec:
  assumes "key_law L"
  shows "codec (written (CTxUndo_Serialize L)) (CTxUndo_Unserialize L) tx_undo_ok"
proof
  fix u r
  assume ok: "tx_undo_ok u"
  let ?ser = "written (TxInUndoSerializer_Serialize L)"
  have "length u \<le> MAX_SIZE"
    using ok by (simp add: tx_undo_ok_def)
  then have "ReadCompactSize (WriteCompactSize (of_nat (length u)) @ concat (map ?ser u) @ r) = Inr (of_nat (length u), concat (map ?ser u) @ r)" "unat (of_nat (length u) :: u64) = length u"
    by (auto intro: compact.read_back size_of_nat)
  then show "CTxUndo_Unserialize L (written (CTxUndo_Serialize L) u @ r) = Inr (u, r)"
    using codec.vector_loop_back[OF undo_coins_codec[OF assms], of u r] ok tx_undo_written[OF assms ok]
    by (simp add: CTxUndo_Unserialize_def written_def Serialize_vector_def tx_undo_ok_def)
qed

section \<open>Round trips\<close>

text \<open>A library of keys with one point, whose uncompressed form is given.\<close>

definition demo_key :: bytes where
  "demo_key = 4 # replicate 32 9 @ replicate 32 7"

definition demo_keys :: "unit key_library" where
  "demo_keys = \<lparr>secp256k1_ec_pubkey_parse = (\<lambda>pub. if pub = demo_key \<or> pub = 3 # replicate 32 9 then Some () else None),
     secp256k1_ec_pubkey_serialize = (\<lambda>_. demo_key)\<rparr>"

definition demo_key_coin :: Coin where
  "demo_key_coin = \<lparr>coinOut = \<lparr>nValue = 1230000, scriptPubKey = 65 # demo_key @ [OP_CHECKSIG], nRounds = - 10\<rparr>, fCoinBase = True, coinHeight = 500\<rparr>"

lemma demo_keys_law: "key_law demo_keys"
  by (auto simp: key_law_def demo_keys_def demo_key_def nth_append split: if_splits)

lemma demo_key_coin_ok: "coin_ok demo_key_coin" "\<not> IsSpent demo_key_coin"
  by (simp_all add: demo_key_coin_def coin_ok_def out_ok_def TxOut_null_def demo_key_def IsSpent_def TxOut_IsNull_def)

text \<open>C31. What is written to the coins database is read back: for every unspent coin with an amount of at most \<open>2 ^ 60\<close>, a script of at most the largest size and a
  height below \<open>2 ^ 30\<close>, the compact format can be written, and reading it gives the coin and leaves the rest of the stream. The library of keys parses the
  compressed form of a key to the same point.\<close>

theorem coin_round_trip:
  assumes "key_law L" "coin_ok c" "\<not> IsSpent c"
  shows "\<exists>b. Coin_Serialize L c = Inr b \<and> (\<forall>r. Coin_Unserialize L coinEmpty (b @ r) = Inr (c, r))"
proof -
  obtain code where code: "coin_code c = Inr code" "unat (drop_bit 1 code) = coinHeight c" "code AND 1 \<noteq> 0 \<longleftrightarrow> fCoinBase c"
    using coin_code_back assms(2) by (auto simp: coin_ok_def)
  obtain b where "TxOutCompressor_Serialize L (coinOut c) = Inr b" "\<And>r. TxOutCompressor_Unserialize L (coinOut coinEmpty) (b @ r) = Inr (coinOut c, r)"
    using txout_back[OF assms(1), of "coinOut c"] assms(2) by (auto simp: coin_ok_def coinEmpty_def)
  then show ?thesis
    using code assms(3) coin_eqI[of coinEmpty c] by (simp add: Coin_Serialize_def Coin_Unserialize_def ReadVarInt_WriteVarInt)
qed

theorem coin_round_trip_witness:
  "\<exists>b. Coin_Serialize demo_keys demo_key_coin = Inr b \<and> (\<forall>r. Coin_Unserialize demo_keys coinEmpty (b @ r) = Inr (demo_key_coin, r))"
  by (rule coin_round_trip[OF demo_keys_law demo_key_coin_ok])

text \<open>C37. The undo information of a block, as it is written to the undo file, is read back, if the coins are such as the database can hold, no
  transaction has more than the largest number of inputs and the block not more than the largest number of transactions. The library of keys parses
  the compressed form of a key to the same point.\<close>

theorem undo_round_trip:
  assumes "key_law L" "list_all tx_undo_ok vtxundo" "length vtxundo \<le> MAX_SIZE"
  shows "\<exists>b. CBlockUndo_Serialize L vtxundo = Inr b \<and> (\<forall>r. CBlockUndo_Unserialize L (b @ r) = Inr (vtxundo, r))"
proof -
  have "concat_ser (CTxUndo_Serialize L) vtxundo = Inr (concat (map (written (CTxUndo_Serialize L)) vtxundo))"
    using assms(2) tx_undo_written[OF assms(1)] by (intro concat_ser_written) (auto simp: list_all_iff)
  then have "CBlockUndo_Serialize L vtxundo = Inr (Serialize_vector (written (CTxUndo_Serialize L)) vtxundo)"
    by (simp add: CBlockUndo_Serialize_def Serialize_vector_def)
  moreover have "CBlockUndo_Unserialize L (Serialize_vector (written (CTxUndo_Serialize L)) vtxundo @ r) = Inr (vtxundo, r)" for r
    using codec.read_back[OF codec_vector[OF tx_undo_codec[OF assms(1)]]] assms(2,3) by (simp add: CBlockUndo_Unserialize_def)
  ultimately show ?thesis by simp
qed

theorem undo_round_trip_witness:
  "\<exists>b. CBlockUndo_Serialize demo_keys [[], [demo_key_coin, demo_key_coin]] = Inr b \<and>
     (\<forall>r. CBlockUndo_Unserialize demo_keys (b @ r) = Inr ([[], [demo_key_coin, demo_key_coin]], r))"
  by (rule undo_round_trip[OF demo_keys_law]) (simp_all add: tx_undo_ok_def demo_key_coin_ok)

end
