(* ===== verification/Base58.thy ===== *)
theory Base58
  imports Interpreter "HOL-Library.List_Lexorder"
begin

text \<open>
  The text form of addresses and keys (\<open>src/src/base58.h\<close>, \<open>base58.cpp\<close>). Text is a list of bytes, read up to a zero byte as a C string is. The buffers
  \<open>b256\<close> and \<open>b58\<close>, which the code walks through from the end, are lists of digits with the least significant one first; a digit is below the base by
  the remainder that is stored. Sizes are those of texts that fit in memory many times over and do not overflow. An assertion that fails is \<open>AssertCarry\<close>.
  The prefixes of the networks are those of \<open>src/src/chainparams.cpp\<close>.
\<close>

section \<open>Base 58\<close>

datatype base58_error = AssertCarry | AssertKey

definition isspace :: "byte \<Rightarrow> bool" where
  "isspace c \<longleftrightarrow> c = 32 \<or> 9 \<le> c \<and> c \<le> 13"

definition pszBase58 :: bytes where
  "pszBase58 = map of_char ''123456789ABCDEFGHJKLMNPQRSTUVWXYZabcdefghijkmnopqrstuvwxyz''"

primrec strchr :: "bytes \<Rightarrow> byte \<Rightarrow> nat option" where
  "strchr [] c = None"
| "strchr (x # xs) c = (if x = c then Some 0 else map_option Suc (strchr xs c))"

text \<open>The digits times the factor, plus the carry; the number of digits that were visited is counted.\<close>

fun carry_loop :: "nat \<Rightarrow> nat \<Rightarrow> nat \<Rightarrow> nat \<Rightarrow> nat \<Rightarrow> nat list \<Rightarrow> nat list \<times> nat \<times> nat" where
  "carry_loop factor radix carry i len [] = ([], carry, i)"
| "carry_loop factor radix carry i len (d # ds) =
     (if carry \<noteq> 0 \<or> i < len then
        let carry = carry + factor * d
        in case carry_loop factor radix (carry div radix) (i + 1) len ds of (ds, c, j) \<Rightarrow> (carry mod radix # ds, c, j)
      else (d # ds, carry, i))"

fun decode_loop :: "bytes \<Rightarrow> nat list \<Rightarrow> nat \<Rightarrow> base58_error + (bytes \<times> nat list \<times> nat) option" where
  "decode_loop [] b256 len = Inr (Some ([], b256, len))"
| "decode_loop (c # psz) b256 len =
     (if isspace c then Inr (Some (c # psz, b256, len))
      else case strchr pszBase58 c of
        None \<Rightarrow> Inr None
      | Some carry \<Rightarrow>
          (case carry_loop 58 256 carry 0 len b256 of (b256, carry, i) \<Rightarrow>
             if carry \<noteq> 0 then Inl AssertCarry else decode_loop psz b256 i))"

definition DecodeBase58 :: "bytes \<Rightarrow> base58_error + bytes option" where
  "DecodeBase58 str =
     (let psz = dropWhile isspace (takeWhile (\<lambda>c. c \<noteq> 0) str);
          zeroes = length (takeWhile (\<lambda>c. c = of_char (CHR ''1'')) psz);
          psz = drop zeroes psz;
          size = length psz * 733 div 1000 + 1
      in bindE (decode_loop psz (replicate size 0) 0) (\<lambda>r.
           case r of
             None \<Rightarrow> Inr None
           | Some (psz, b256, len) \<Rightarrow>
               if dropWhile isspace psz \<noteq> [] then Inr None
               else Inr (Some (replicate zeroes 0 @ map of_nat (dropWhile (\<lambda>d. d = 0) (drop (size - len) (rev b256)))))))"

fun encode_loop :: "bytes \<Rightarrow> nat list \<Rightarrow> nat \<Rightarrow> base58_error + nat list \<times> nat" where
  "encode_loop [] b58 len = Inr (b58, len)"
| "encode_loop (c # p) b58 len =
     (case carry_loop 256 58 (unat c) 0 len b58 of (b58, carry, i) \<Rightarrow>
        if carry \<noteq> 0 then Inl AssertCarry else encode_loop p b58 i)"

definition EncodeBase58 :: "bytes \<Rightarrow> base58_error + bytes" where
  "EncodeBase58 v =
     (let zeroes = length (takeWhile (\<lambda>c. c = 0) v);
          p = drop zeroes v;
          size = length p * 138 div 100 + 1
      in bindE (encode_loop p (replicate size 0) 0) (\<lambda>(b58, len).
           Inr (replicate zeroes (of_char (CHR ''1'')) @ map (\<lambda>d. pszBase58 ! d) (dropWhile (\<lambda>d. d = 0) (drop (size - len) (rev b58))))))"

section \<open>Checksums\<close>

definition EncodeBase58Check :: "hash_funs \<Rightarrow> bytes \<Rightarrow> base58_error + bytes" where
  "EncodeBase58Check H vchIn = EncodeBase58 (vchIn @ take 4 (CHash256 H vchIn))"

definition DecodeBase58Check :: "hash_funs \<Rightarrow> bytes \<Rightarrow> base58_error + bytes option" where
  "DecodeBase58Check H psz =
     bindE (DecodeBase58 psz) (\<lambda>r.
       case r of
         None \<Rightarrow> Inr None
       | Some v \<Rightarrow>
           if length v < 4 then Inr None
           else let n = length v - 4
             in if take 4 (CHash256 H (take n v)) \<noteq> drop n v then Inr None else Inr (Some (take n v)))"

section \<open>Addresses and secret keys\<close>

record CBase58Data =
  vchVersion :: bytes
  vchData :: bytes

definition new_CBase58Data :: CBase58Data where
  "new_CBase58Data = \<lparr>vchVersion = [], vchData = []\<rparr>"

definition SetData :: "bytes \<Rightarrow> bytes \<Rightarrow> CBase58Data" where
  "SetData version d = \<lparr>vchVersion = version, vchData = d\<rparr>"

definition SetString :: "hash_funs \<Rightarrow> bytes \<Rightarrow> nat \<Rightarrow> base58_error + bool \<times> CBase58Data" where
  "SetString H psz nVersionBytes =
     bindE (DecodeBase58Check H psz) (\<lambda>r.
       case r of
         None \<Rightarrow> Inr (False, new_CBase58Data)
       | Some vchTemp \<Rightarrow>
           if length vchTemp < nVersionBytes then Inr (False, new_CBase58Data)
           else Inr (True, \<lparr>vchVersion = take nVersionBytes vchTemp, vchData = drop nVersionBytes vchTemp\<rparr>))"

definition Base58_ToString :: "hash_funs \<Rightarrow> CBase58Data \<Rightarrow> base58_error + bytes" where
  "Base58_ToString H a = EncodeBase58Check H (vchVersion a @ vchData a)"

definition Base58_CompareTo :: "CBase58Data \<Rightarrow> CBase58Data \<Rightarrow> int" where
  "Base58_CompareTo a b =
     (if vchVersion a < vchVersion b then - 1
      else if vchVersion a > vchVersion b then 1
      else if vchData a < vchData b then - 1
      else if vchData a > vchData b then 1
      else 0)"

record base58Prefixes =
  PUBKEY_ADDRESS :: bytes
  SCRIPT_ADDRESS :: bytes
  EXCHANGE_PUBKEY_ADDRESS :: bytes
  SECRET_KEY :: bytes

definition main_prefixes :: base58Prefixes where
  "main_prefixes = \<lparr>PUBKEY_ADDRESS = [56], SCRIPT_ADDRESS = [63], EXCHANGE_PUBKEY_ADDRESS = [0x01, 0xb9, 0xbb], SECRET_KEY = [210]\<rparr>"

definition test_prefixes :: base58Prefixes where
  "test_prefixes = \<lparr>PUBKEY_ADDRESS = [66], SCRIPT_ADDRESS = [61], EXCHANGE_PUBKEY_ADDRESS = [0x01, 0xb9, 0xb1], SECRET_KEY = [185]\<rparr>"

definition dev_prefixes :: base58Prefixes where
  "dev_prefixes = \<lparr>PUBKEY_ADDRESS = [66], SCRIPT_ADDRESS = [61], EXCHANGE_PUBKEY_ADDRESS = [0x01, 0xb9, 0x8e], SECRET_KEY = [186]\<rparr>"

definition regtest_prefixes :: base58Prefixes where
  "regtest_prefixes = \<lparr>PUBKEY_ADDRESS = [66], SCRIPT_ADDRESS = [61], EXCHANGE_PUBKEY_ADDRESS = [0x01, 0xb9, 0xac], SECRET_KEY = [239]\<rparr>"

datatype CTxDestination = CNoDestination | CKeyID bytes | CScriptID bytes | CExchangeKeyID bytes

definition Address_Set :: "base58Prefixes \<Rightarrow> CTxDestination \<Rightarrow> CBase58Data \<Rightarrow> bool \<times> CBase58Data" where
  "Address_Set X dest a =
     (case dest of
        CKeyID h \<Rightarrow> (True, SetData (PUBKEY_ADDRESS X) h)
      | CExchangeKeyID h \<Rightarrow> (True, SetData (EXCHANGE_PUBKEY_ADDRESS X) h)
      | CScriptID h \<Rightarrow> (True, SetData (SCRIPT_ADDRESS X) h)
      | CNoDestination \<Rightarrow> (False, a))"

definition SetExchange :: "base58Prefixes \<Rightarrow> bytes \<Rightarrow> CBase58Data" where
  "SetExchange X h = SetData (EXCHANGE_PUBKEY_ADDRESS X) h"

definition Address_of_dest :: "base58Prefixes \<Rightarrow> CTxDestination \<Rightarrow> CBase58Data" where
  "Address_of_dest X dest = snd (Address_Set X dest new_CBase58Data)"

definition Address_of_string :: "hash_funs \<Rightarrow> bytes \<Rightarrow> base58_error + CBase58Data" where
  "Address_of_string H strAddress =
     bindE (SetString H strAddress 1) (\<lambda>(_, a).
       if length (vchData a) \<noteq> 20 then bindE (SetString H strAddress 3) (\<lambda>(_, a). Inr a) else Inr a)"

definition Address_of_psz :: "hash_funs \<Rightarrow> bytes \<Rightarrow> base58_error + CBase58Data" where
  "Address_of_psz H pszAddress = bindE (SetString H pszAddress 1) (\<lambda>(_, a). Inr a)"

definition Address_IsValid :: "base58Prefixes \<Rightarrow> CBase58Data \<Rightarrow> bool" where
  "Address_IsValid X a \<longleftrightarrow> length (vchData a) = 20 \<and>
     (vchVersion a = PUBKEY_ADDRESS X \<or> vchVersion a = SCRIPT_ADDRESS X \<or> vchVersion a = EXCHANGE_PUBKEY_ADDRESS X)"

definition Address_Get :: "base58Prefixes \<Rightarrow> CBase58Data \<Rightarrow> CTxDestination" where
  "Address_Get X a =
     (if \<not> Address_IsValid X a then CNoDestination
      else if vchVersion a = PUBKEY_ADDRESS X then CKeyID (take 20 (vchData a))
      else if vchVersion a = SCRIPT_ADDRESS X then CScriptID (take 20 (vchData a))
      else if vchVersion a = EXCHANGE_PUBKEY_ADDRESS X then CExchangeKeyID (take 20 (vchData a))
      else CNoDestination)"

datatype AddressType = unknown | payToPubKeyHash | payToScriptHash | zerocoinMint | zerocoinSpend | sigmaMint | sigmaSpend | zerocoinRemint |
  lelantusMint | lelantusJMint | lelantusJSplit | sparkMint | sparksMint | sparkSpend | payToExchangeAddress

definition GetIndexKey :: "base58Prefixes \<Rightarrow> CBase58Data \<Rightarrow> (bytes \<times> AddressType) option" where
  "GetIndexKey X a =
     (if \<not> Address_IsValid X a then None
      else if vchVersion a = PUBKEY_ADDRESS X then Some (take 20 (vchData a), payToPubKeyHash)
      else if vchVersion a = EXCHANGE_PUBKEY_ADDRESS X then Some (take 20 (vchData a), payToExchangeAddress)
      else if vchVersion a = SCRIPT_ADDRESS X then Some (take 20 (vchData a), payToScriptHash)
      else None)"

definition GetKeyID :: "base58Prefixes \<Rightarrow> CBase58Data \<Rightarrow> bytes option" where
  "GetKeyID X a = (if \<not> Address_IsValid X a \<or> vchVersion a \<noteq> PUBKEY_ADDRESS X then None else Some (take 20 (vchData a)))"

definition GetKeyIDExt :: "base58Prefixes \<Rightarrow> CBase58Data \<Rightarrow> bytes option" where
  "GetKeyIDExt X a =
     (if \<not> Address_IsValid X a \<or> \<not> (vchVersion a = PUBKEY_ADDRESS X \<or> vchVersion a = EXCHANGE_PUBKEY_ADDRESS X) then None
      else Some (take 20 (vchData a)))"

definition Address_IsScript :: "base58Prefixes \<Rightarrow> CBase58Data \<Rightarrow> bool" where
  "Address_IsScript X a \<longleftrightarrow> Address_IsValid X a \<and> vchVersion a = SCRIPT_ADDRESS X"

text \<open>A secret key: its 32 bytes and whether its public key is compressed; \<open>check\<close> is the library's test of the bytes, which \<open>CKey::Set\<close> asks.\<close>

record CKey =
  keydata :: bytes
  fKeyValid :: bool
  fCompressed :: bool

definition Key_Set :: "(bytes \<Rightarrow> bool) \<Rightarrow> bytes \<Rightarrow> bool \<Rightarrow> CKey \<Rightarrow> CKey" where
  "Key_Set check d compressed k =
     (if length d \<noteq> 32 then k\<lparr>fKeyValid := False\<rparr>
      else if check d then k\<lparr>keydata := d, fKeyValid := True, fCompressed := compressed\<rparr>
      else k\<lparr>fKeyValid := False\<rparr>)"

definition Secret_SetKey :: "base58Prefixes \<Rightarrow> CKey \<Rightarrow> base58_error + CBase58Data" where
  "Secret_SetKey X k =
     (if \<not> fKeyValid k then Inl AssertKey
      else Inr (SetData (SECRET_KEY X) (keydata k @ (if fCompressed k then [1] else []))))"

definition Secret_GetKey :: "(bytes \<Rightarrow> bool) \<Rightarrow> CKey \<Rightarrow> CBase58Data \<Rightarrow> base58_error + CKey" where
  "Secret_GetKey check ret a =
     (if length (vchData a) < 32 then Inl AssertKey
      else Inr (Key_Set check (take 32 (vchData a)) (length (vchData a) > 32 \<and> vchData a ! 32 = 1) ret))"

definition Secret_IsValid :: "base58Prefixes \<Rightarrow> CBase58Data \<Rightarrow> bool" where
  "Secret_IsValid X a \<longleftrightarrow>
     (length (vchData a) = 32 \<or> length (vchData a) = 33 \<and> vchData a ! 32 = 1) \<and> vchVersion a = SECRET_KEY X"

definition Secret_SetString :: "hash_funs \<Rightarrow> base58Prefixes \<Rightarrow> bytes \<Rightarrow> base58_error + bool \<times> CBase58Data" where
  "Secret_SetString H X pszSecret = bindE (SetString H pszSecret 1) (\<lambda>(rc, a). Inr (rc \<and> Secret_IsValid X a, a))"

end
