(* ===== verification/Base58Props.thy ===== *)
theory Base58Props
  imports Base58
begin

text \<open>
  Base 58 text and bytes correspond one to one: the loops with a carry compute the digits of a number in the other base, the buffers are large enough, so
  the assertions hold, and encoding and decoding are inverse to each other. Addresses and secret keys are read back from their text.
\<close>

section \<open>Digits\<close>

primrec digits_value :: "nat \<Rightarrow> nat list \<Rightarrow> nat" where
  "digits_value B [] = 0"
| "digits_value B (d # ds) = d + B * digits_value B ds"

fun digits_of :: "nat \<Rightarrow> nat \<Rightarrow> nat list" where
  "digits_of B n = (if n = 0 \<or> B < 2 then [] else n mod B # digits_of B (n div B))"

declare digits_of.simps [simp del]

definition strip_zeroes :: "nat list \<Rightarrow> nat list" where
  "strip_zeroes ds = rev (dropWhile (\<lambda>d. d = 0) (rev ds))"

lemma strip_snoc: "strip_zeroes (ds @ [d]) = (if d = 0 then strip_zeroes ds else ds @ [d])"
  by (simp add: strip_zeroes_def)

lemma digits_value_append: "digits_value B (xs @ ys) = digits_value B xs + B ^ length xs * digits_value B ys"
  by (induction xs) (simp_all add: algebra_simps)

lemma digits_value_zeros: "list_all (\<lambda>d. d = 0) ds \<Longrightarrow> digits_value B ds = 0"
  by (induction ds) auto

lemma digits_value_bound: "list_all (\<lambda>d. d < B) ds \<Longrightarrow> digits_value B ds < B ^ length ds"
proof (induction ds)
  case (Cons d ds)
  then have "Suc (digits_value B ds) \<le> B ^ length ds" "d < B" by simp_all
  then have "B * Suc (digits_value B ds) \<le> B * B ^ length ds" by (intro mult_le_mono2)
  then have "B + B * digits_value B ds \<le> B ^ length (d # ds)" by simp
  then show ?case
    using \<open>d < B\<close> by simp
qed simp

lemma strip_Cons: "strip_zeroes (d # ds) = (if list_all (\<lambda>d. d = 0) ds then if d = 0 then [] else [d] else d # strip_zeroes ds)"
proof (induction ds rule: rev_induct)
  case Nil
  then show ?case by (simp add: strip_zeroes_def)
next
  case (snoc x xs)
  then show ?case
    using strip_snoc[of "d # xs" x] strip_snoc[of xs x] by auto
qed

lemma strip_all_zeros: "strip_zeroes ds = [] \<longleftrightarrow> list_all (\<lambda>d. d = 0) ds"
  by (auto simp: strip_zeroes_def list_all_iff)

lemma value_zero: "list_all (\<lambda>d. d < B) ds \<Longrightarrow> 0 < B \<Longrightarrow> digits_value B ds = 0 \<longleftrightarrow> list_all (\<lambda>d. d = 0) ds"
  by (induction ds) auto

lemma strip_digits:
  assumes "list_all (\<lambda>d. d < B) ds" "2 \<le> B"
  shows "strip_zeroes ds = digits_of B (digits_value B ds)"
  using assms(1)
proof (induction ds)
  case Nil
  then show ?case by (simp add: strip_zeroes_def digits_of.simps)
next
  case (Cons d ds)
  then have v: "digits_value B (d # ds) mod B = d" "digits_value B (d # ds) div B = digits_value B ds"
    using assms(2) by simp_all
  have z: "digits_value B ds = 0 \<longleftrightarrow> list_all (\<lambda>d. d = 0) ds" "strip_zeroes ds = digits_of B (digits_value B ds)"
    using value_zero[of B ds] Cons assms(2) by simp_all
  show ?case
  proof (cases "digits_value B (d # ds) = 0")
    case True
    then show ?thesis
      using z assms(2) by (simp add: strip_Cons digits_of.simps)
  next
    case False
    then have "digits_of B (digits_value B (d # ds)) = d # digits_of B (digits_value B ds)"
      using v assms(2) by (subst digits_of.simps) simp
    then show ?thesis
      using z False by (auto simp: strip_Cons digits_of.simps)
  qed
qed

lemma digits_of_value: "2 \<le> B \<Longrightarrow> digits_value B (digits_of B n) = n"
proof (induction n rule: less_induct)
  case (less n)
  show ?case
  proof (cases "n = 0")
    case False
    then have "n div B < n" using less.prems by simp
    then show ?thesis
      using less False by (subst digits_of.simps) simp
  qed (simp add: digits_of.simps)
qed

lemma digits_of_less: "2 \<le> B \<Longrightarrow> list_all (\<lambda>d. d < B) (digits_of B n)"
proof (induction n rule: less_induct)
  case (less n)
  show ?case
  proof (cases "n = 0")
    case False
    then have "n div B < n" using less.prems by simp
    then show ?thesis
      using less False by (subst digits_of.simps) simp
  qed (simp add: digits_of.simps)
qed

lemma strip_last: "ds = [] \<or> last ds \<noteq> 0 \<Longrightarrow> strip_zeroes ds = ds"
  by (cases ds rule: rev_cases) (auto simp: strip_zeroes_def)

section \<open>The loop with a carry\<close>

lemma carry_loop_result:
  assumes "carry_loop f B c i len ds = (ds', c', i')" "list_all (\<lambda>d. d = 0) (drop (len - i) ds)" "list_all (\<lambda>d. d < B) ds" "0 < B"
  shows "length ds' = length ds \<and> list_all (\<lambda>d. d < B) ds' \<and> digits_value B ds' + B ^ length ds * c' = c + f * digits_value B ds \<and>
    i \<le> i' \<and> i' \<le> i + length ds \<and> list_all (\<lambda>d. d = 0) (drop (i' - i) ds')"
  using assms
proof (induction f B c i len ds arbitrary: ds' c' i' rule: carry_loop.induct)
  case (2 f B c i len d ds)
  show ?case
  proof (cases "c \<noteq> 0 \<or> i < len")
    case True
    obtain es e j where r: "carry_loop f B ((c + f * d) div B) (i + 1) len ds = (es, e, j)"
      by (metis prod_cases3)
    then have ds': "ds' = (c + f * d) mod B # es" "c' = e" "i' = j"
      using 2(2) True by (auto simp: Let_def)
    have "list_all (\<lambda>d. d = 0) (drop (len - (i + 1)) ds)"
    proof (cases "len - i")
      case 0
      then show ?thesis
        using 2(3) by simp
    next
      case (Suc n)
      then have "len - (i + 1) = n" by simp
      then show ?thesis
        using 2(3) Suc by simp
    qed
    then have IH: "length es = length ds" "list_all (\<lambda>d. d < B) es" "digits_value B es + B ^ length ds * e = (c + f * d) div B + f * digits_value B ds"
      "i + 1 \<le> j" "j \<le> i + 1 + length ds" "list_all (\<lambda>d. d = 0) (drop (j - (i + 1)) es)"
      using 2(1)[OF True refl r] 2(4,5) by auto
    have "digits_value B ds' + B ^ length (d # ds) * c' = (c + f * d) mod B + B * (digits_value B es + B ^ length ds * e)"
      by (simp add: ds' algebra_simps)
    also have "\<dots> = c + f * digits_value B (d # ds)"
      unfolding IH(3) by (simp add: algebra_simps)
    finally have "digits_value B ds' + B ^ length (d # ds) * c' = c + f * digits_value B (d # ds)" .
    moreover have "j - i = Suc (j - (i + 1))"
      using IH(4) by simp
    ultimately show ?thesis
      using IH ds' 2(5) by auto
  next
    case False
    then have "list_all (\<lambda>d. d = 0) (d # ds)" using 2(3) by simp
    then have "digits_value B (d # ds) = 0" by (rule digits_value_zeros)
    then show ?thesis
      using False 2(2-5) by auto
  qed
qed auto

definition buffer_ok :: "nat \<Rightarrow> nat list \<Rightarrow> nat \<Rightarrow> bool" where
  "buffer_ok B ds len \<longleftrightarrow> len \<le> length ds \<and> list_all (\<lambda>d. d < B) ds \<and> list_all (\<lambda>d. d = 0) (drop len ds)"

lemma carry_step:
  assumes "buffer_ok B ds len" "0 < B" "c + f * digits_value B ds < B ^ length ds"
  shows "\<exists>ds' i. carry_loop f B c 0 len ds = (ds', 0, i) \<and> buffer_ok B ds' i \<and> length ds' = length ds \<and> digits_value B ds' = c + f * digits_value B ds"
proof -
  obtain ds' c' i where r: "carry_loop f B c 0 len ds = (ds', c', i)" by (metis prod_cases3)
  note s = carry_loop_result[OF r] 
  have s: "length ds' = length ds" "list_all (\<lambda>d. d < B) ds'" "digits_value B ds' + B ^ length ds * c' = c + f * digits_value B ds"
    "i \<le> length ds" "list_all (\<lambda>d. d = 0) (drop i ds')"
    using s assms(1,2) by (auto simp: buffer_ok_def)
  have "c' = 0"
  proof (rule ccontr)
    assume "c' \<noteq> 0"
    then have "B ^ length ds * 1 \<le> B ^ length ds * c'" by (intro mult_le_mono2) simp
    then have "B ^ length ds \<le> c + f * digits_value B ds"
      unfolding s(3)[symmetric] mult_1_right by (rule trans_le_add2)
    then show False using assms(3) by simp
  qed
  then show ?thesis
    using r s by (auto simp: buffer_ok_def)
qed

lemma buffer_result:
  assumes "buffer_ok B ds len" "2 \<le> B"
  shows "dropWhile (\<lambda>d. d = 0) (drop (length ds - len) (rev ds)) = rev (digits_of B (digits_value B ds))"
proof -
  have z: "list_all (\<lambda>d. d = 0) (drop len ds)" and l: "len \<le> length ds" and b: "list_all (\<lambda>d. d < B) ds"
    using assms(1) by (auto simp: buffer_ok_def)
  have "digits_value B ds = digits_value B (take len ds @ drop len ds)" by simp
  also have "\<dots> = digits_value B (take len ds)"
    unfolding digits_value_append using digits_value_zeros[OF z] by simp
  finally have v: "digits_value B ds = digits_value B (take len ds)" .
  have "list_all (\<lambda>d. d < B) (take len ds)"
    using b by (auto simp: list_all_iff dest: in_set_takeD)
  then have "strip_zeroes (take len ds) = digits_of B (digits_value B ds)"
    using strip_digits assms(2) v by simp
  moreover have "drop (length ds - len) (rev ds) = rev (take len ds)"
    using l by (simp add: rev_take)
  ultimately show ?thesis
    unfolding strip_zeroes_def by (metis rev_rev_ident)
qed

section \<open>The alphabet\<close>

lemma strchr_Some: "strchr xs c = Some i \<Longrightarrow> i < length xs \<and> xs ! i = c"
  by (induction xs arbitrary: i) (auto split: if_splits)

lemma strchr_nth: "distinct xs \<Longrightarrow> i < length xs \<Longrightarrow> strchr xs (xs ! i) = Some i"
proof (induction xs arbitrary: i)
  case (Cons x xs)
  then show ?case by (cases i) auto
qed simp

lemma alphabet: "length pszBase58 = 58" "distinct pszBase58" "list_all (\<lambda>c. \<not> isspace c \<and> c \<noteq> 0) pszBase58" "pszBase58 ! 0 = of_char (CHR ''1'')"
  by code_simp+

lemma alphabet_nth: "d < 58 \<Longrightarrow> strchr pszBase58 (pszBase58 ! d) = Some d \<and> \<not> isspace (pszBase58 ! d) \<and> pszBase58 ! d \<noteq> 0"
  using alphabet strchr_nth[of pszBase58 d] by (auto simp: list_all_length)

lemma alphabet_one: "d < 58 \<Longrightarrow> pszBase58 ! d = of_char (CHR ''1'') \<longleftrightarrow> d = 0"
  using alphabet nth_eq_iff_index_eq[of pszBase58 d 0] by auto

section \<open>The loops over the text and the bytes\<close>

lemma encode_loop_result:
  assumes "buffer_ok 58 b len" "digits_value 58 b < 256 ^ k" "256 ^ (k + length p) \<le> (58 :: nat) ^ length b"
  shows "\<exists>b' l. encode_loop p b len = Inr (b', l) \<and> buffer_ok 58 b' l \<and> length b' = length b \<and> digits_value 58 b' = fold (\<lambda>c a. unat c + 256 * a) p (digits_value 58 b)"
  using assms
proof (induction p arbitrary: b len k)
  case (Cons c p)
  have c: "unat c < 256"
    using unsigned_less[of c] by simp
  then have v: "unat c + 256 * digits_value 58 b < 256 ^ Suc k"
    using Cons.prems(2) by (simp add: less_eq_Suc_le)
  also have "256 ^ Suc k \<le> (256 :: nat) ^ (k + length (c # p))"
    by (intro power_increasing) simp_all
  finally have "unat c + 256 * digits_value 58 b < 58 ^ length b"
    using Cons.prems(3) by (rule order_less_le_trans)
  from carry_step[OF Cons.prems(1) _ this] obtain b1 i where
    b1: "carry_loop 256 58 (unat c) 0 len b = (b1, 0, i)" "buffer_ok 58 b1 i" "length b1 = length b" "digits_value 58 b1 = unat c + 256 * digits_value 58 b"
    by auto
  have "digits_value 58 b1 < 256 ^ Suc k" "256 ^ (Suc k + length p) \<le> (58 :: nat) ^ length b1"
    using b1(3,4) v Cons.prems(3) by simp_all
  from Cons.IH[OF b1(2) this] show ?case
    using b1(1,3,4) by simp
qed simp

definition digit_chars :: "nat list \<Rightarrow> bytes" where
  "digit_chars ds = map (\<lambda>d. pszBase58 ! d) ds"

lemma decode_loop_result:
  assumes "buffer_ok 256 b len" "digits_value 256 b < 58 ^ k" "58 ^ (k + length psz) \<le> (256 :: nat) ^ length b"
  shows "decode_loop psz b len = Inr None \<or>
    (\<exists>ds rest b' l. psz = digit_chars ds @ rest \<and> list_all (\<lambda>d. d < 58) ds \<and> (rest = [] \<or> isspace (hd rest)) \<and> decode_loop psz b len = Inr (Some (rest, b', l)) \<and>
       buffer_ok 256 b' l \<and> length b' = length b \<and> digits_value 256 b' = fold (\<lambda>d a. d + 58 * a) ds (digits_value 256 b))"
  using assms
proof (induction psz arbitrary: b len k)
  case Nil
  then show ?case by (auto simp: digit_chars_def)
next
  case (Cons c psz)
  show ?case
  proof (cases "isspace c")
    case True
    then show ?thesis
      using Cons.prems by (intro disjI2 exI[of _ "[]"] exI[of _ "c # psz"] exI[of _ b] exI[of _ len]) (simp add: digit_chars_def)
  next
    case space: False
    show ?thesis
    proof (cases "strchr pszBase58 c")
      case None
      then show ?thesis
        using space by simp
    next
      case (Some d)
      then have d: "d < 58" "pszBase58 ! d = c"
        using strchr_Some[OF Some] alphabet(1) by auto
      then have v: "d + 58 * digits_value 256 b < 58 ^ Suc k"
        using Cons.prems(2) by (simp add: less_eq_Suc_le)
      also have "58 ^ Suc k \<le> (58 :: nat) ^ (k + length (c # psz))"
        by (intro power_increasing) simp_all
      finally have "d + 58 * digits_value 256 b < 256 ^ length b"
        using Cons.prems(3) by (rule order_less_le_trans)
      from carry_step[OF Cons.prems(1) _ this] obtain b1 i where
        b1: "carry_loop 58 256 d 0 len b = (b1, 0, i)" "buffer_ok 256 b1 i" "length b1 = length b" "digits_value 256 b1 = d + 58 * digits_value 256 b"
        by auto
      have step: "decode_loop (c # psz) b len = decode_loop psz b1 i"
        using space Some b1(1) by simp
      have "digits_value 256 b1 < 58 ^ Suc k" "58 ^ (Suc k + length psz) \<le> (256 :: nat) ^ length b1"
        using b1(3,4) v Cons.prems(3) by simp_all
      from Cons.IH[OF b1(2) this] consider "decode_loop psz b1 i = Inr None" | ds rest b' l where
        "psz = digit_chars ds @ rest" "list_all (\<lambda>d. d < 58) ds" "rest = [] \<or> isspace (hd rest)" "decode_loop psz b1 i = Inr (Some (rest, b', l))"
        "buffer_ok 256 b' l" "length b' = length b1" "digits_value 256 b' = fold (\<lambda>d a. d + 58 * a) ds (digits_value 256 b1)"
        by blast
      then show ?thesis
      proof cases
        case (2 ds rest b' l)
        then show ?thesis
          using step b1(3,4) d
          by (intro disjI2 exI[of _ "d # ds"] exI[of _ rest] exI[of _ b'] exI[of _ l]) (auto simp: digit_chars_def)
      next
        case 1
        then show ?thesis
          unfolding step by (rule disjI1)
      qed
    qed
  qed
qed

lemma decode_loop_digits: "list_all (\<lambda>d. d < 58) ds \<Longrightarrow> decode_loop (digit_chars ds) b len \<noteq> Inr None"
proof (induction ds arbitrary: b len)
  case (Cons d ds)
  then show ?case
    using alphabet_nth[of d] by (auto simp: digit_chars_def split: prod.split)
qed (simp add: digit_chars_def)

section \<open>The buffers are large enough\<close>

lemma power_root_le: "(a :: nat) ^ k \<le> b ^ k \<Longrightarrow> 0 < k \<Longrightarrow> a \<le> b"
  using power_mono_iff[of a b k] by simp

lemma encode_buffer: "256 ^ n \<le> (58 :: nat) ^ (n * 138 div 100 + 1)"
proof (rule power_root_le[of _ 8])
  have "(256 ^ n) ^ 8 = (256 ^ 8 :: nat) ^ n"
    by (simp only: power_mult[symmetric] mult.commute)
  also have "\<dots> \<le> (58 ^ 11) ^ n"
    by (intro power_mono) simp_all
  also have "\<dots> = 58 ^ (11 * n)"
    by (simp only: power_mult)
  also have "\<dots> \<le> 58 ^ ((n * 138 div 100 + 1) * 8)"
    by (intro power_increasing) simp_all
  finally show "(256 ^ n) ^ 8 \<le> ((58 :: nat) ^ (n * 138 div 100 + 1)) ^ 8"
    by (simp only: power_mult)
qed simp

lemma decode_buffer: "58 ^ n \<le> (256 :: nat) ^ (n * 733 div 1000 + 1)"
proof (rule power_root_le[of _ 71])
  have "(58 ^ n) ^ 71 = (58 ^ 71 :: nat) ^ n"
    by (simp only: power_mult[symmetric] mult.commute)
  also have "\<dots> \<le> (256 ^ 52) ^ n"
    by (intro power_mono) simp_all
  also have "\<dots> = 256 ^ (52 * n)"
    by (simp only: power_mult)
  also have "\<dots> \<le> 256 ^ ((n * 733 div 1000 + 1) * 71)"
    by (intro power_increasing) simp_all
  finally show "(58 ^ n) ^ 71 \<le> ((256 :: nat) ^ (n * 733 div 1000 + 1)) ^ 71"
    by (simp only: power_mult)
qed simp

section \<open>Encoding and decoding\<close>

text \<open>The bytes and the characters with the most significant digit first, as numbers.\<close>

lemma fold_digits: "fold (\<lambda>d a. d + B * a) ds v = digits_value B (rev ds) + B ^ length ds * v"
proof (induction ds arbitrary: v)
  case (Cons d ds)
  then show ?case
    by (simp add: digits_value_append algebra_simps)
qed simp

lemma fold_bytes: "fold (\<lambda>c a. unat c + 256 * a) p v = fold (\<lambda>d a. d + 256 * a) (map unat p) v"
  by (induction p arbitrary: v) simp_all

definition number_of :: "nat \<Rightarrow> nat list \<Rightarrow> nat" where
  "number_of B ds = digits_value B (rev ds)"

definition digits :: "nat \<Rightarrow> nat \<Rightarrow> nat list" where
  "digits B n = rev (digits_of B n)"

lemma digits_number_of:
  assumes "list_all (\<lambda>d. d < B) ds" "2 \<le> B" "ds = [] \<or> hd ds \<noteq> 0"
  shows "digits B (number_of B ds) = ds"
proof -
  have "strip_zeroes (rev ds) = rev ds"
    using assms(3) by (intro strip_last) (auto simp: last_rev)
  then have "digits_of B (digits_value B (rev ds)) = rev ds"
    using strip_digits[of B "rev ds"] assms(1,2) by simp
  then show ?thesis
    by (simp add: digits_def number_of_def)
qed

lemma number_of_digits: "2 \<le> B \<Longrightarrow> number_of B (digits B n) = n"
  by (simp add: number_of_def digits_def digits_of_value)

lemma digits_less: "2 \<le> B \<Longrightarrow> list_all (\<lambda>d. d < B) (digits B n)"
  using digits_of_less[of B n] by (simp add: digits_def)

lemma digits_hd: "2 \<le> B \<Longrightarrow> digits B n = [] \<or> hd (digits B n) \<noteq> 0"
proof (induction n rule: less_induct)
  case (less n)
  show ?case
  proof (cases "n = 0")
    case True
    then show ?thesis by (simp add: digits_def digits_of.simps)
  next
    case False
    then have "n div B < n" using less.prems by simp
    then have IH: "digits B (n div B) = [] \<or> hd (digits B (n div B)) \<noteq> 0"
      using less by blast
    have d: "digits B n = digits B (n div B) @ [n mod B]"
      using False less.prems unfolding digits_def by (subst digits_of.simps) simp
    show ?thesis
    proof (cases "digits B (n div B) = []")
      case True
      then have "n div B = 0"
        using number_of_digits[OF less.prems, of "n div B"] by (simp add: number_of_def)
      then show ?thesis
        using d True False less.prems by (simp add: mod_eq_self_iff_div_eq_0[THEN iffD2] div_eq_0_iff)
    qed (use d IH in simp)
  qed
qed

lemma buffer_start: "0 < B \<Longrightarrow> buffer_ok B (replicate n 0) 0" "digits_value B (replicate n 0) = 0"
  by (auto simp: buffer_ok_def list_all_iff digits_value_zeros)

lemma EncodeBase58_result:
  assumes "p = [] \<or> hd p \<noteq> 0"
  shows "EncodeBase58 (replicate z 0 @ p) = Inr (replicate z (of_char (CHR ''1'')) @ digit_chars (digits 58 (number_of 256 (map unat p))))"
proof -
  let ?v = "replicate z 0 @ p" and ?size = "length p * 138 div 100 + 1"
  have z: "length (takeWhile (\<lambda>c. c = 0) ?v) = z"
    using assms by (cases p) (simp_all add: takeWhile_append)
  obtain b l where b: "encode_loop p (replicate ?size 0) 0 = Inr (b, l)" "buffer_ok 58 b l" "length b = ?size"
    "digits_value 58 b = fold (\<lambda>c a. unat c + 256 * a) p 0"
    using encode_loop_result[of "replicate ?size 0" 0 0 p] encode_buffer[of "length p"] buffer_start[of 58 ?size] by auto
  have "digits_value 58 b = number_of 256 (map unat p)"
    unfolding b(4) fold_bytes fold_digits by (simp add: number_of_def)
  then have "dropWhile (\<lambda>d. d = 0) (drop (?size - l) (rev b)) = digits 58 (number_of 256 (map unat p))"
    using buffer_result[OF b(2)] b(3) by (simp add: digits_def)
  then show ?thesis
    using b(1) by (simp add: EncodeBase58_def Let_def z digit_chars_def del: mult_Suc_right)
qed

lemma no_spaces: "(\<And>c. c \<in> set s \<Longrightarrow> \<not> isspace c) \<Longrightarrow> dropWhile isspace s = s"
  by (cases s) auto

lemma decode_start:
  assumes "sz = length psz * 733 div 1000 + 1"
  shows "decode_loop psz (replicate sz 0) 0 = Inr None \<or>
    (\<exists>ds rest b l. psz = digit_chars ds @ rest \<and> list_all (\<lambda>d. d < 58) ds \<and> (rest = [] \<or> isspace (hd rest)) \<and>
       decode_loop psz (replicate sz 0) 0 = Inr (Some (rest, b, l)) \<and>
       dropWhile (\<lambda>d. d = 0) (drop (sz - l) (rev b)) = digits 256 (number_of 58 ds))"
proof -
  have s: "buffer_ok 256 (replicate sz 0) 0" "digits_value 256 (replicate sz 0) < 58 ^ 0" "58 ^ (0 + length psz) \<le> (256 :: nat) ^ length (replicate sz (0 :: nat))"
    using buffer_start[of 256 sz] decode_buffer[of "length psz"] by (simp_all add: assms)
  have "dropWhile (\<lambda>d. d = 0) (drop (sz - l) (rev b)) = digits 256 (number_of 58 ds)"
    if "buffer_ok 256 b l" "length b = length (replicate sz (0 :: nat))" "digits_value 256 b = fold (\<lambda>d a. d + 58 * a) ds (digits_value 256 (replicate sz 0))" for b l ds
    using buffer_result[OF that(1)] that(2,3) buffer_start(2)[of 256 sz] by (simp add: fold_digits digits_def number_of_def)
  then show ?thesis
    using decode_loop_result[OF s] by blast
qed

lemma digit_chars_inject: "list_all (\<lambda>d. d < 58) xs \<Longrightarrow> list_all (\<lambda>d. d < 58) ys \<Longrightarrow> digit_chars xs = digit_chars ys \<Longrightarrow> xs = ys"
  unfolding digit_chars_def
  by (rule map_inj_on) (auto simp: list_all_iff inj_on_def nth_eq_iff_index_eq alphabet)

lemma DecodeBase58_result:
  assumes "list_all (\<lambda>d. d < 58) ds" "ds = [] \<or> hd ds \<noteq> 0"
  shows "DecodeBase58 (replicate z (of_char (CHR ''1'')) @ digit_chars ds) = Inr (Some (replicate z 0 @ map of_nat (digits 256 (number_of 58 ds))))"
proof -
  let ?one = "of_char (CHR ''1'') :: byte" and ?c = "digit_chars ds"
  let ?s = "replicate z ?one @ ?c"
  define sz where "sz = length ?c * 733 div 1000 + 1"
  have chars: "c \<noteq> 0 \<and> \<not> isspace c" if "c \<in> set ?s" for c
    using that assms(1) alphabet_nth alphabet(4) by (auto simp: digit_chars_def list_all_iff) (metis zero_less_numeral)+
  then have s: "takeWhile (\<lambda>c. c \<noteq> 0) ?s = ?s" "dropWhile isspace ?s = ?s"
    by (simp_all only: takeWhile_eq_all_conv) (blast intro: no_spaces)+
  have one: "length (takeWhile (\<lambda>c. c = ?one) ?s) = z"
    using assms alphabet_one[of "hd ds"] by (cases ds) (auto simp: takeWhile_append digit_chars_def)
  obtain ds' rest b l where r: "?c = digit_chars ds' @ rest" "list_all (\<lambda>d. d < 58) ds'" "rest = [] \<or> isspace (hd rest)"
    "decode_loop ?c (replicate sz 0) 0 = Inr (Some (rest, b, l))" "dropWhile (\<lambda>d. d = 0) (drop (sz - l) (rev b)) = digits 256 (number_of 58 ds')"
    using decode_start[OF sz_def] decode_loop_digits[OF assms(1)] by blast
  have rest: "rest = []"
    using r(1,3) chars by (cases rest) auto
  then have "ds' = ds"
    using r(1,2) assms(1) digit_chars_inject by simp
  moreover have "drop z ?s = ?c" by simp
  ultimately show ?thesis
    using r(4,5) rest unfolding DecodeBase58_def Let_def s one by (simp only: sz_def[symmetric]) simp
qed

lemma leading_split: "\<exists>z p. v = replicate z x @ p \<and> (p = [] \<or> hd p \<noteq> x)"
proof (intro exI conjI)
  have "takeWhile (\<lambda>c. c = x) v = replicate (length (takeWhile (\<lambda>c. c = x) v)) x"
    by (rule replicate_eqI) (auto dest: set_takeWhileD)
  then show "v = replicate (length (takeWhile (\<lambda>c. c = x) v)) x @ dropWhile (\<lambda>c. c = x) v"
    by (metis takeWhile_dropWhile_id)
  show "dropWhile (\<lambda>c. c = x) v = [] \<or> hd (dropWhile (\<lambda>c. c = x) v) \<noteq> x"
    using hd_dropWhile[of "\<lambda>c. c = x" v] by blast
qed

lemma bytes_digits: "map of_nat (map unat p) = (p :: bytes)" "list_all (\<lambda>d. d < 256) (map unat (p :: bytes))"
proof -
  show "map of_nat (map unat p) = p"
    by (induction p) simp_all
  have "unat c < 256" for c :: byte
    using unsigned_less[of c] by simp
  then show "list_all (\<lambda>d. d < 256) (map unat p)"
    by (simp add: list_all_iff)
qed

lemma digits_bytes: "list_all (\<lambda>d. d < 256) ds \<Longrightarrow> map unat (map of_nat ds :: bytes) = ds"
  by (induction ds) (simp_all add: unat_of_nat)

lemma base58_decodes:
  assumes "EncodeBase58 v = Inr s"
  shows "DecodeBase58 s = Inr (Some v) \<and> list_all (\<lambda>c. c \<noteq> 0 \<and> \<not> isspace c) s"
proof -
  obtain z p where v: "v = replicate z 0 @ p" "p = [] \<or> hd p \<noteq> 0"
    using leading_split[of v 0] by blast
  define ds where "ds = digits 58 (number_of 256 (map unat p))"
  have s: "s = replicate z (of_char (CHR ''1'')) @ digit_chars ds"
    using EncodeBase58_result[OF v(2), of z] assms unfolding v(1) ds_def by simp
  have ds: "list_all (\<lambda>d. d < 58) ds" "ds = [] \<or> hd ds \<noteq> 0" "number_of 58 ds = number_of 256 (map unat p)"
    using digits_less[of 58] digits_hd[of 58] number_of_digits[of 58] by (simp_all add: ds_def)
  have "unat (hd p) \<noteq> 0" if "p \<noteq> []"
    using that v(2) by (simp add: unsigned_eq_0_iff)
  then have "digits 256 (number_of 256 (map unat p)) = map unat p"
    using digits_number_of[OF bytes_digits(2)[of p]] by (cases p) simp_all
  then have "DecodeBase58 s = Inr (Some v)"
    using DecodeBase58_result[OF ds(1,2), of z] bytes_digits(1)[of p] unfolding s v(1) ds(3) by simp
  moreover have "list_all (\<lambda>c. c \<noteq> 0 \<and> \<not> isspace c) s"
    unfolding s using ds(1) alphabet_nth alphabet_nth[of 0] alphabet(4) by (auto simp: digit_chars_def list_all_iff)
  ultimately show ?thesis by blast
qed

lemma base58_encodes:
  assumes "DecodeBase58 s = Inr (Some v)" "list_all (\<lambda>c. c \<noteq> 0 \<and> \<not> isspace c) s"
  shows "EncodeBase58 v = Inr s"
proof -
  let ?one = "of_char (CHR ''1'') :: byte"
  obtain z psz where p: "s = replicate z ?one @ psz" "psz = [] \<or> hd psz \<noteq> ?one"
    using leading_split[of s ?one] by blast
  define sz where "sz = length psz * 733 div 1000 + 1"
  have s: "takeWhile (\<lambda>c. c \<noteq> 0) s = s" "dropWhile isspace s = s" "length (takeWhile (\<lambda>c. c = ?one) s) = z" "drop z s = psz"
  proof -
    show "takeWhile (\<lambda>c. c \<noteq> 0) s = s"
      using assms(2) by (auto simp: takeWhile_eq_all_conv list_all_iff)
    show "dropWhile isspace s = s"
      using assms(2) by (intro no_spaces) (auto simp: list_all_iff)
    show "length (takeWhile (\<lambda>c. c = ?one) s) = z"
      using p by (cases psz) (simp_all add: takeWhile_append)
    show "drop z s = psz"
      using p(1) by simp
  qed
  have "decode_loop psz (replicate sz 0) 0 \<noteq> Inr None"
    using assms(1) unfolding DecodeBase58_def Let_def s sz_def[symmetric] by auto
  then obtain ds rest where r: "psz = digit_chars ds @ rest" "list_all (\<lambda>d. d < 58) ds" "rest = [] \<or> isspace (hd rest)"
    using decode_start[OF sz_def] by blast
  have "rest = []"
    using r(1,3) assms(2) p(1) by (cases rest) auto
  then have psz: "psz = digit_chars ds" using r(1) by simp
  then have hd: "ds = [] \<or> hd ds \<noteq> 0"
    using p(2) alphabet(4) by (cases ds) (auto simp: digit_chars_def intro: gr0I)
  define n where "n = number_of 58 ds"
  have v: "v = replicate z 0 @ map of_nat (digits 256 n)"
    using DecodeBase58_result[OF r(2) hd, of z] assms(1) unfolding p(1) psz n_def by simp
  have u: "map unat (map of_nat (digits 256 n) :: bytes) = digits 256 n"
    using digits_bytes digits_less[of 256 n] by simp
  moreover have "map of_nat (digits 256 n) = ([] :: bytes) \<or> hd (map of_nat (digits 256 n) :: bytes) \<noteq> 0"
    using digits_hd[of 256 n] u by (cases "digits 256 n") auto
  ultimately show ?thesis
    using EncodeBase58_result[of "map of_nat (digits 256 n)" z] digits_number_of[OF r(2) _ hd] number_of_digits[of 256 n]
    unfolding v p(1) psz by (simp add: n_def)
qed

lemma base58_total: "\<exists>s. EncodeBase58 v = Inr s" "\<exists>r. DecodeBase58 s = Inr r"
proof -
  obtain z p where "v = replicate z 0 @ p" "p = [] \<or> hd p \<noteq> 0"
    using leading_split[of v 0] by blast
  then show "\<exists>s. EncodeBase58 v = Inr s"
    using EncodeBase58_result by blast
  show "\<exists>r. DecodeBase58 s = Inr r"
    unfolding DecodeBase58_def Let_def
    using decode_start[OF refl, of "drop (length (takeWhile (\<lambda>c. c = of_char (CHR ''1'')) (dropWhile isspace (takeWhile (\<lambda>c. c \<noteq> 0) s)))) (dropWhile isspace (takeWhile (\<lambda>c. c \<noteq> 0) s))"]
    by (elim disjE exE conjE) (simp_all del: of_char_Char)
qed

section \<open>Addresses and secret keys\<close>

lemma check_round_trip:
  assumes "\<And>b. length (SHA256 H b) = 32"
  shows "\<exists>s. EncodeBase58Check H d = Inr s \<and> DecodeBase58Check H s = Inr (Some d)"
proof -
  have l: "length (take 4 (CHash256 H d)) = 4"
    using assms by (simp add: CHash256_def)
  obtain s where s: "EncodeBase58 (d @ take 4 (CHash256 H d)) = Inr s"
    using base58_total(1) by blast
  then have "DecodeBase58 s = Inr (Some (d @ take 4 (CHash256 H d)))"
    using base58_decodes by blast
  then show ?thesis
    using s l by (simp add: EncodeBase58Check_def DecodeBase58Check_def Let_def)
qed

lemma SetString_back:
  assumes "\<And>b. length (SHA256 H b) = 32"
  shows "\<exists>s. Base58_ToString H a = Inr s \<and>
    (\<forall>n \<le> length (vchVersion a @ vchData a). SetString H s n = Inr (True, \<lparr>vchVersion = take n (vchVersion a @ vchData a), vchData = drop n (vchVersion a @ vchData a)\<rparr>))"
  using check_round_trip[OF assms, of "vchVersion a @ vchData a"] by (auto simp: Base58_ToString_def SetString_def)

lemmas network_prefixes = main_prefixes_def test_prefixes_def dev_prefixes_def regtest_prefixes_def

text \<open>C38. Base 58 text and bytes correspond one to one. Encoding and decoding end without a failed assertion, so the buffers, whose sizes are estimated from the
  number of characters, are large enough; and a text without spaces and zero bytes is the encoding of some bytes if and only if it is decoded to them.\<close>

theorem base58_one_to_one:
  "(\<exists>t. EncodeBase58 v = Inr t) \<and> (\<exists>r. DecodeBase58 s = Inr r) \<and>
   (EncodeBase58 v = Inr s \<longleftrightarrow> DecodeBase58 s = Inr (Some v) \<and> list_all (\<lambda>c. c \<noteq> 0 \<and> \<not> isspace c) s)"
  using base58_decodes base58_encodes base58_total by blast

text \<open>C39. On every network the text of an address is read back: the destination, whether a key, a script or an exchange address with its prefix of three bytes, is
  obtained from the text again. The hash function has results of 32 bytes.\<close>

theorem address_round_trip:
  assumes "X \<in> {main_prefixes, test_prefixes, dev_prefixes, regtest_prefixes}" "length h = 20" "dest \<in> {CKeyID h, CScriptID h, CExchangeKeyID h}"
    "\<And>b. length (SHA256 H b) = 32"
  shows "\<exists>s a. Base58_ToString H (Address_of_dest X dest) = Inr s \<and> Address_of_string H s = Inr a \<and> Address_Get X a = dest"
proof -
  obtain s where s: "Base58_ToString H (Address_of_dest X dest) = Inr s"
    "\<And>n. n \<le> length (vchVersion (Address_of_dest X dest) @ vchData (Address_of_dest X dest)) \<Longrightarrow>
       SetString H s n = Inr (True, \<lparr>vchVersion = take n (vchVersion (Address_of_dest X dest) @ vchData (Address_of_dest X dest)),
         vchData = drop n (vchVersion (Address_of_dest X dest) @ vchData (Address_of_dest X dest))\<rparr>)"
    using SetString_back[OF assms(4), of "Address_of_dest X dest"] by auto
  have "Address_of_string H s = Inr (Address_of_dest X dest)" "Address_Get X (Address_of_dest X dest) = dest"
    using assms(1-3) s(2)[of 1] s(2)[of 3]
    by (auto simp: network_prefixes Address_of_dest_def Address_Set_def SetData_def Address_of_string_def Address_Get_def Address_IsValid_def)
  then show ?thesis
    using s(1) by blast
qed

theorem address_round_trip_witness:
  "\<exists>s a. Base58_ToString \<lparr>RIPEMD160 = take 20, SHA1 = take 20, SHA256 = (\<lambda>b. replicate 32 (of_nat (length b))), CheckLowS = (\<lambda>_. True)\<rparr>
       (Address_of_dest main_prefixes (CExchangeKeyID (replicate 20 5))) = Inr s \<and>
     Address_of_string \<lparr>RIPEMD160 = take 20, SHA1 = take 20, SHA256 = (\<lambda>b. replicate 32 (of_nat (length b))), CheckLowS = (\<lambda>_. True)\<rparr> s = Inr a \<and>
     Address_Get main_prefixes a = CExchangeKeyID (replicate 20 5)"
  by (rule address_round_trip[of _ "replicate 20 5"]) simp_all

text \<open>The text of a valid secret key is read back, with the mark of a compressed public key.\<close>

lemma secret_round_trip:
  assumes "X \<in> {main_prefixes, test_prefixes, dev_prefixes, regtest_prefixes}" "fKeyValid k" "length (keydata k) = 32" "check (keydata k)" "\<And>b. length (SHA256 H b) = 32"
  shows "\<exists>a s b. Secret_SetKey X k = Inr a \<and> Base58_ToString H a = Inr s \<and> Secret_SetString H X s = Inr (True, b) \<and> Secret_GetKey check k0 b = Inr k"
proof -
  define a where "a = SetData (SECRET_KEY X) (keydata k @ (if fCompressed k then [1] else []))"
  have a: "length (vchVersion a) = 1" "vchVersion a = SECRET_KEY X"
    using assms(1) by (auto simp: a_def SetData_def network_prefixes)
  obtain s where s: "Base58_ToString H a = Inr s" "SetString H s 1 = Inr (True, a)"
    using SetString_back[OF assms(5), of a] a by (auto dest: spec[of _ 1])
  moreover have "Secret_IsValid X a" "Secret_GetKey check k0 a = Inr k"
    using assms(2-4) by (auto simp: a_def SetData_def Secret_IsValid_def Secret_GetKey_def Key_Set_def nth_append)
  ultimately show ?thesis
    using assms(2) by (auto simp: Secret_SetKey_def Secret_SetString_def a_def[symmetric])
qed

text \<open>An exchange address that is given as a C string is not recognized: the second reading, with a prefix of three bytes, is only in the other constructor.\<close>

lemma psz_rejects_exchange:
  assumes "X \<in> {main_prefixes, test_prefixes, dev_prefixes, regtest_prefixes}" "length h = 20" "\<And>b. length (SHA256 H b) = 32"
  shows "\<exists>s a. Base58_ToString H (Address_of_dest X (CExchangeKeyID h)) = Inr s \<and> Address_of_psz H s = Inr a \<and> Address_Get X a = CNoDestination"
proof -
  obtain s where "Base58_ToString H (Address_of_dest X (CExchangeKeyID h)) = Inr s"
    "SetString H s 1 = Inr (True, \<lparr>vchVersion = take 1 (EXCHANGE_PUBKEY_ADDRESS X @ h), vchData = drop 1 (EXCHANGE_PUBKEY_ADDRESS X @ h)\<rparr>)"
    using SetString_back[OF assms(3), of "Address_of_dest X (CExchangeKeyID h)"] assms(1,2)
    by (auto simp: Address_of_dest_def Address_Set_def SetData_def network_prefixes dest: spec[of _ 1])
  then show ?thesis
    using assms(1,2) by (auto simp: Address_of_psz_def Address_Get_def Address_IsValid_def network_prefixes)
qed

end
