(* ===== verification/Spec2Isabelle.thy ===== *)
theory Spec2Isabelle
  imports Prelude ArithUint256 Compact Pow VerifyScript BitSets SigHash Coins VersionBits BlockProps PartialMerkle SparkTheorems CompressProps Base58Props
begin

text \<open>
  \<^bold>\<open>Privora: a verification development.\<close> This is a model of the consensus core of the Privora node, a full node of the Bitcoin
  family written in C++ (\<open>src/src\<close>), with theorems about it. Every definition of the model is translated from the source
  and keeps its names; a suffix or prefix marks a name that HOL or another class already has (\<open>Tx_IsSigmaSpend\<close>, \<open>Header_GetHash\<close>).

  \<^bold>\<open>The parts of the program and their theories.\<close> A theory imports the parts it calls, in the order of this list.

  \<^item> \<open>Prelude\<close>: words and bytes, results (\<open>Inl\<close> an error, \<open>Inr\<close> a value, sequenced by \<open>bindE\<close>), and the little-endian reads and writes of \<open>crypto/common.h\<close>.
  \<^item> \<open>ArithUint256\<close>, \<open>Compact\<close>, \<open>Pow\<close>: the 256-bit numbers of \<open>arith_uint256.cpp\<close> as lists of 32-bit limbs with the loops and carries of the code,
    the compact form of a target, and the proof of work and retargeting of \<open>pow.cpp\<close>. A chain is the list of its blocks, the last one first.
  \<^item> \<open>ScriptNum\<close>, \<open>Script\<close>, \<open>SigEncoding\<close>, \<open>Interpreter\<close>, \<open>VerifyScript\<close>: script numbers, scripts, the encoding rules of signatures, the
    interpreter (\<open>EvalState\<close> holds the stacks, the conditions and the counters of \<open>EvalScript\<close>; one function per group of opcodes), and
    \<open>VerifyScript\<close> with witness programs (\<open>script/*.cpp\<close>). \<open>InterpreterProps\<close> holds the lemmas about it.
  \<^item> \<open>Streams\<close>, \<open>Serialize\<close>, \<open>BitSets\<close>: \<open>CDataStream\<close> and the formats of \<open>serialize.h\<close>. A writer is a function to bytes, a reader takes bytes and
    returns a value and the rest.
  \<^item> \<open>Transaction\<close>, \<open>SigHash\<close>: transactions with their two formats (\<open>primitives/transaction.*\<close>), and the message that a signature signs
    (\<open>script/interpreter.cpp\<close>).
  \<^item> \<open>Coins\<close>: the cache of unspent outputs and the database below it (\<open>coins.cpp\<close>, \<open>txdb.cpp\<close>).
  \<^item> \<open>Chain\<close>, \<open>VersionBits\<close>: the index of headers as a store of block index entries with pointers, skip list and all, the active chain, and the deployments of
    rule changes (\<open>chain.cpp\<close>, \<open>versionbits.cpp\<close>, \<open>AddToBlockIndex\<close>).
  \<^item> \<open>TxVerify\<close>, \<open>TxProps\<close>: the checks of a transaction and its application to the coins (\<open>validation.cpp\<close>).
  \<^item> \<open>Merkle\<close>, \<open>MerkleProps\<close>, \<open>PartialMerkle\<close>: Merkle roots, branches and partial trees (\<open>consensus/merkle.cpp\<close>, \<open>merkleblock.cpp\<close>).
  \<^item> \<open>Block\<close>, \<open>BlockProps\<close>: headers and blocks, their hashes and all their checks (\<open>primitives/block.*\<close>, \<open>crypto/progpow.cpp\<close>, \<open>validation.cpp\<close>).
  \<^item> \<open>Connect\<close>, \<open>ConnectProps\<close>, \<open>DisconnectProps\<close>: \<open>ConnectBlock\<close> and \<open>DisconnectBlock\<close> of \<open>validation.cpp\<close> on the cache of coins, with the undo data.
  \<^item> \<open>OrderedMap\<close>, \<open>SparkNames\<close>, \<open>SparkNameProps\<close>: ordered maps as association lists, and the registry of Spark names (\<open>sparkname.cpp\<close>): what a block adds to
    it and takes back, the data of a name in a transaction, its checks and its construction.
  \<^item> \<open>SparkState\<close>, \<open>SparkChecks\<close>: the Spark state (\<open>spark/state.cpp\<close>) with its coin groups, minted coins, used linking tags and counts, adding and removing a block,
    the anonymity sets, the checks of mints and spends, \<open>ConnectBlockSpark\<close>, \<open>DisconnectTipSpark\<close> and \<open>BuildSparkStateFromIndex\<close>. A node (\<open>spark_node\<close>) is the state, the store
    of index entries and the registry of names.
  \<^item> \<open>SparkProps\<close>, \<open>SparkChainProps\<close>, \<open>SparkNodeProps\<close>, \<open>SparkCoverProps\<close>, \<open>SparkTheorems\<close>: the lemmas on groups, on the state of a chain, on nodes that are
    reached by connecting and disconnecting blocks (\<open>spark_reaches\<close>, an inductive relation) and on anonymity sets, and the properties. \<open>SparkDemo\<close> is a small node.
  \<^item> \<open>Compress\<close>, \<open>CompressProps\<close>: the compact formats of amounts, scripts, coins and undo information (\<open>compressor.*\<close>, \<open>coins.h\<close>, \<open>undo.h\<close>).
  \<^item> \<open>Base58\<close>, \<open>Base58Props\<close>: base 58, addresses and keys as text (\<open>base58.cpp\<close>).

  \<^bold>\<open>How the parts interact.\<close> \<open>ProcessNewBlockHeaders\<close> checks headers (\<open>Pow\<close>, \<open>Block\<close>) and enters them into the index (\<open>Chain\<close>). \<open>ConnectBlock\<close> checks a block (\<open>Block\<close>,
  \<open>Merkle\<close>), then every transaction (\<open>TxVerify\<close>, which runs \<open>VerifyScript\<close> with the checker of \<open>SigHash\<close>), asks \<open>VersionBits\<close> and the heights for the rules in force, and
  applies the transactions to the cache of \<open>Coins\<close>. The check of Spark transactions reaches it as a parameter: the state that it works on, and
  \<open>ConnectBlockSpark\<close>, which updates that state, are modelled by themselves.

  \<^bold>\<open>State and errors.\<close> A stateful operation takes the state and returns the new one. Objects that the code shares by pointer (index entries) live in a store from addresses to
  records, and null is \<open>None\<close>. A rejection is \<open>Inl (Rejected s)\<close> with the validation state; a failing assertion, an exception or a null pointer that is followed is an error
  of its own (\<open>Abort\<close>, \<open>AssertMixHash\<close>, \<open>ValueOutThrows\<close>, \<open>ChainError NullDeref\<close>, ...), so that a theorem can say that it does not occur. Where a caller sees what a
  failed operation has done (\<open>ProcessNewBlockHeaders\<close>, \<open>ConnectBlockSpark\<close>) the state is returned with the error. Machine integers are words where the code can wrap; amounts,
  sums of fees and heights are integers, with the range checks of the code.

  \<^bold>\<open>Loops.\<close> A loop over a vector is structural recursion; one that moves an index or shifts a number has a termination proof. A loop that follows pointers may run forever on
  an arbitrary store and is a \<open>partial_function\<close> with \<open>None\<close> for no result; that it returns on a well-formed index is part of the theorems (C16, C19, C22, C30, C40). No
  function takes fuel.

  \<^bold>\<open>Parameters.\<close> What is not in the sources or is cryptography is an argument. \<open>hash_funs\<close> has the hash functions (\<open>hash_ok\<close>: their results have the right
  length; the absence of collisions is assumed only on the strings that are hashed), \<open>progpow_funs\<close> the ProgPoW functions, \<open>BaseSignatureChecker\<close> and \<open>verifySig\<close>
  the verification of signatures, \<open>key_library\<close> the points of the curve (\<open>key_law\<close>: the compressed form of a key parses to the same point), \<open>spark_env\<close> and \<open>name_library\<close>
  the Spark library, and \<open>connect_env\<close> the verdicts of masternode payments, special transactions, InstantSend, sporks, the private transaction types and the undo files.

  \<^bold>\<open>Interfaces.\<close> \<open>coins_view\<close> is what a cache of coins relies on from the view below it; the database and the cache, over the database and over a cache, implement it.
  \<open>codec\<close> and \<open>canonical_codec\<close> are the round trip of a writer and a reader, and that the reader accepts nothing else, for every format here. \<open>byte_queue\<close> is the contract of
  \<open>CDataStream\<close>, and \<open>eval_invariant\<close> carries a property of the state of the interpreter from every opcode to a whole script.

  \<^bold>\<open>What is shown.\<close>
  \<^item> Value: a connected block creates at most the subsidy and what private spends release (C1), transactions conserve value (C5), disconnecting restores the coins (C2),
    coins stay well-formed (C11), the subsidies have a known sum (C25).
  \<^item> Coins: the cache implements the set of unspent outputs (C6) and flushing moves it down (C8); the compact formats are read back (C31, C37).
  \<^item> Commitments: blocks to transactions (C4), signatures to transactions (C9), partial trees to blocks (C12); the Merkle root is that of the recursive tree (C26).
  \<^item> Scripts: no failing assertion (C23), soft forks (C18), pay-to-public-key-hash (C27), multiple signatures (C29), lock times (C20, C21).
  \<^item> Index and rules: headers keep the index a tree (C7, C10), navigation (C22), proof of work and targets (C3, C34, C35), deployments (C19, C30, C33), exact conditions
    of the check of a transaction (C32), formats (C28, C38, C39).
  \<^item> Spark: no tag is used twice (C14), the state is what a restart rebuilds (C15), wallet and node take the same anonymity set (C16), disconnecting restores the state (C17),
    names that the wallet registers pass the check exactly if they satisfy the rules (C40).
  \<^item> Defects: a null mix hash aborts the node (C13), a header of an invalid block passes with another mix hash (C24), some blocks that open a coin group cannot be
    disconnected (C36); \<open>total_supply_drifts\<close> in \<open>DisconnectProps\<close> shows that a reorganization changes the recorded supply.

  \<^bold>\<open>Not modelled.\<close> The choice and activation of the best chain, the memory pool, mining and fee estimation (containers of pointers of third-party code, over all parts at
  once); the network, RPC, the wallet and the user interface (input and output); files and databases, except for the contents of the coins database; the Sigma and Lelantus
  states and all proof systems, the hash functions and the curve (cryptography); masternodes, quorums, sporks and InstantSend (states of their own with signatures and
  messages). The reports of memory and disk sizes, logging and the optional indexes are left out of the operations that are modelled; the memory of a script that the
  cache counts (\<open>script_usage\<close>) is that of a vector without spare capacity.
\<close>

end
